(* ===== verification/Prelude.thy ===== *)
theory Prelude
  imports Complex_Main "HOL-Library.Word"
begin

text \<open>
  The prelude of the development: names for the C integer types, the collections of rewrite rules
  the component proofs use, and the generic facts that carry machine words to natural numbers.

  The widths are those of the x86-64 System V ABI with the GNU C library, the platform that
  \<^verbatim>\<open>softfloat/platform.h\<close> is written for (little-endian, fast 64-bit integers):
  \<^verbatim>\<open>uint_fast8_t\<close> has 8 bits and \<^verbatim>\<open>uint_fast16_t\<close>, \<^verbatim>\<open>uint_fast32_t\<close> and
  \<^verbatim>\<open>uint_fast64_t\<close> have 64 bits.  Signed variables (\<^verbatim>\<open>int_fast16_t\<close> exponents and
  \<^verbatim>\<open>int_fast8_t\<close> shift counts) are mathematical integers, because signed overflow is undefined
  in C; a cast to an unsigned type is written with \<^term>\<open>word_of_int\<close>.
\<close>

unbundle bit_operations_syntax

type_synonym u8 = "8 word"
type_synonym u16 = "16 word"
type_synonym u32 = "32 word"
type_synonym u64 = "64 word"

named_theorems unat_conv "carry word operations to natural numbers"
named_theorems cmask "conjunction with a literal mask as truncation"

subsection \<open>Words as natural numbers\<close>

declare of_nat_unat [simp del]

lemma unat_shr [unat_conv]: "unat (drop_bit n w) = unat w div 2 ^ n"
  unfolding unat_drop_bit_eq by (simp only: drop_bit_eq_div)

lemma unat_take_bit [unat_conv]: "unat (take_bit n w) = unat w mod 2 ^ n"
  for w :: "'a::len word"
proof -
  have "uint (take_bit n w) = uint w mod 2 ^ n"
    unfolding unsigned_take_bit_eq by (simp only: take_bit_eq_mod)
  then have "int (unat (take_bit n w)) = int (unat w mod 2 ^ n)"
    by (simp add: zmod_int of_nat_unat)
  then show ?thesis by (simp only: of_nat_eq_iff)
qed

lemma unat_ucast_mod [unat_conv]: "unat (ucast w :: 'b::len word) = unat w mod 2 ^ LENGTH('b)"
proof -
  have "uint (ucast w :: 'b word) = uint w mod 2 ^ LENGTH('b)"
    by (simp only: unsigned_ucast_eq take_bit_eq_mod)
  then have "int (unat (ucast w :: 'b word)) = int (unat w mod 2 ^ LENGTH('b))"
    by (simp add: zmod_int of_nat_unat)
  then show ?thesis by (simp only: of_nat_eq_iff)
qed

lemma unat_shl: "unat (push_bit n w) = (unat w * 2 ^ n) mod 2 ^ LENGTH('a)"
  for w :: "'a::len word"
proof -
  have "uint (push_bit n w) = (uint w * 2 ^ n) mod 2 ^ LENGTH('a)"
    unfolding unsigned_push_bit_eq by (simp only: take_bit_eq_mod push_bit_eq_mult)
  then have "int (unat (push_bit n w)) = int ((unat w * 2 ^ n) mod 2 ^ LENGTH('a))"
    by (simp add: zmod_int of_nat_unat)
  then show ?thesis by (simp only: of_nat_eq_iff)
qed

lemma unat_shl_less:
  fixes w :: "'a::len word"
  assumes "unat w * 2 ^ n < 2 ^ LENGTH('a)"
  shows "unat (push_bit n w) = unat w * 2 ^ n"
  using assms by (simp add: unat_shl)

lemma unat_of_bool [simp]: "unat (of_bool b :: 'a::len word) = of_bool b"
  by (cases b) simp_all

lemma unat_lt_pow: "unat (w :: 'a::len word) < 2 ^ LENGTH('a)"
  by (rule unsigned_less)

lemma even_unat_iff: "even (unat w) \<longleftrightarrow> even w"
  for w :: "'a::len word"
  by transfer (simp add: even_nat_iff even_take_bit_eq)

lemma unat_or: "unat (v OR w) = unat v OR unat w"
  for v w :: "'a::len word"
  by (simp add: unsigned_or_eq)

lemma unat_and: "unat (v AND w) = unat v AND unat w"
  for v w :: "'a::len word"
  by (simp add: unsigned_and_eq)

lemma unat_or_of_bool [unat_conv]:
  "unat (w OR of_bool b) = unat w + of_bool (b \<and> even (unat w))"
  for w :: "'a::len word"
  by (cases b) (simp_all add: unat_or or_Suc_0_eq del: or_one_eq)

lemma word_of_nat_unat_eqI: "unat v = unat w \<Longrightarrow> v = w"
  by (simp add: word_unat_eq_iff)

lemma or_eq_add_nat:
  fixes a b :: nat
  assumes "b < 2 ^ n"
  shows "a * 2 ^ n OR b = a * 2 ^ n + b"
proof -
  have b: "b = take_bit n b"
    using assms by (simp add: take_bit_nat_eq_self)
  have "push_bit n a AND b = 0"
    by (subst b, rule bit_eqI) (auto simp: bit_simps)
  from disjunctive_add_eq_or [OF this] show ?thesis
    by (simp add: push_bit_eq_mult)
qed

lemma unat_or_add:
  fixes v w :: "'a::len word"
  assumes "2 ^ n dvd unat v" and "unat w < 2 ^ n"
  shows "unat (v OR w) = unat v + unat w"
  using assms or_eq_add_nat [of "unat w" n "unat v div 2 ^ n"] by (simp add: unat_or)

lemma unat_and_not_mask: "unat (w AND NOT (mask n)) = unat w div 2 ^ n * 2 ^ n"
  for w :: "'a::len word"
proof -
  have "w AND NOT (mask n) = push_bit n (drop_bit n w)"
    by (rule bit_word_eqI) (auto simp: bit_simps)
  moreover have "unat w div 2 ^ n * 2 ^ n < 2 ^ LENGTH('a)"
    using unat_lt_pow [of w] by (meson div_times_less_eq_dividend le_less_trans)
  ultimately show ?thesis
    by (simp add: unat_shl_less unat_shr)
qed

lemma unat_and_not_of_bool [unat_conv]:
  "unat (w AND NOT (of_bool c)) = unat w - of_bool (c \<and> odd (unat w))"
  for w :: "'a::len word"
proof (cases c)
  case True
  then have "(of_bool c :: 'a word) = mask 1" by simp
  then have "unat (w AND NOT (of_bool c)) = unat w div 2 ^ 1 * 2 ^ 1"
    by (simp only: unat_and_not_mask)
  also have "\<dots> = unat w - of_bool (odd (unat w))"
    by (cases "even (unat w)") (simp, simp, presburger)
  finally show ?thesis using True by simp
qed simp

lemma unat_add_less: "unat v + unat w < 2 ^ LENGTH('a) \<Longrightarrow> unat (v + w) = unat v + unat w"
  for v w :: "'a::len word"
  by (simp add: unat_add_lem)

lemma unat_mult_less: "unat v * unat w < 2 ^ LENGTH('a) \<Longrightarrow> unat (v * w) = unat v * unat w"
  for v w :: "'a::len word"
  by (simp add: unat_mult_lem)

lemma unat_diff_le: "unat w \<le> unat v \<Longrightarrow> unat (v - w) = unat v - unat w"
  for v w :: "'a::len word"
  by (simp add: unat_sub_if')

lemma unat_word_of_int: "unat (word_of_int k :: 'a::len word) = nat (k mod 2 ^ LENGTH('a))"
  by transfer (simp add: take_bit_eq_mod)

lemma unat_word_of_int_less:
  "0 \<le> k \<Longrightarrow> k < 2 ^ LENGTH('a) \<Longrightarrow> unat (word_of_int k :: 'a::len word) = nat k"
  by (simp add: unat_word_of_int)
end
