(* ===== verification/Rounding.thy ===== *)
theory Rounding
  imports Prelude
begin

text \<open>
  What floating-point rounding means, on real numbers and independently of the code.

  \<^item> \<open>rmode\<close>, \<open>rnd\<close>: rounding the magnitude of a real number to an integer in one of the five modes.
  \<^item> \<open>representable\<close>, \<open>correctly_rounded\<close>: the values of a binary format with gradual underflow and
    the IEEE 754 definition of a correctly rounded result, by comparison with all representable values.
  \<^item> \<open>nrnd\<close>, \<open>jam\<close>, \<open>stk\<close>: the integer arithmetic the code performs instead: rounding off low-order
    bits, shifting with a sticky last bit, and the relation between an exact real significand and the
    integer with a sticky bit that stands for it.

  The lemmas of the first half show that the integer arithmetic computes \<open>rnd\<close>; those of the second
  half, that rounding to a multiple of the unit in the last place is correct rounding.
\<close>

subsection \<open>Rounding a real magnitude to an integer\<close>

datatype rmode = RNE | RTZ | RDN | RUP | RMM

fun rnd_inc :: "rmode \<Rightarrow> bool \<Rightarrow> real \<Rightarrow> bool" where
  "rnd_inc RNE neg x \<longleftrightarrow> 2 * frac x > 1 \<or> 2 * frac x = 1 \<and> odd \<lfloor>x\<rfloor>"
| "rnd_inc RTZ neg x \<longleftrightarrow> False"
| "rnd_inc RDN neg x \<longleftrightarrow> neg \<and> x \<notin> \<int>"
| "rnd_inc RUP neg x \<longleftrightarrow> \<not> neg \<and> x \<notin> \<int>"
| "rnd_inc RMM neg x \<longleftrightarrow> 2 * frac x \<ge> 1"

definition rnd :: "rmode \<Rightarrow> bool \<Rightarrow> real \<Rightarrow> int" where
  "rnd m neg x = \<lfloor>x\<rfloor> + of_bool (rnd_inc m neg x)"

lemma rnd_of_int [simp]: "rnd m neg (of_int n) = n"
  by (cases m) (simp_all add: rnd_def)

lemma rnd_bounds: "\<lfloor>x\<rfloor> \<le> rnd m neg x" "rnd m neg x \<le> \<lfloor>x\<rfloor> + 1"
  by (simp_all add: rnd_def)

lemma rnd_le_ceiling: "rnd m neg x \<le> \<lceil>x\<rceil>"
proof (cases "frac x = 0")
  case True
  then have "x = of_int \<lfloor>x\<rfloor>" by (simp add: frac_def)
  then show ?thesis by (metis ceiling_of_int order_refl rnd_of_int)
next
  case False
  then have "\<lceil>x\<rceil> = \<lfloor>x\<rfloor> + 1"
    by (simp add: ceiling_altdef frac_def split: if_splits)
  then show ?thesis using rnd_bounds(2) [of m neg x] by simp
qed

subsection \<open>Rounding off the low-order bits of an integer\<close>

fun nrnd_inc :: "rmode \<Rightarrow> bool \<Rightarrow> nat \<Rightarrow> nat \<Rightarrow> bool" where
  "nrnd_inc RNE neg n k \<longleftrightarrow> 2 * (n mod 2 ^ k) > 2 ^ k \<or> 2 * (n mod 2 ^ k) = 2 ^ k \<and> odd (n div 2 ^ k)"
| "nrnd_inc RTZ neg n k \<longleftrightarrow> False"
| "nrnd_inc RDN neg n k \<longleftrightarrow> neg \<and> n mod 2 ^ k \<noteq> 0"
| "nrnd_inc RUP neg n k \<longleftrightarrow> \<not> neg \<and> n mod 2 ^ k \<noteq> 0"
| "nrnd_inc RMM neg n k \<longleftrightarrow> 2 * (n mod 2 ^ k) \<ge> 2 ^ k"

definition nrnd :: "rmode \<Rightarrow> bool \<Rightarrow> nat \<Rightarrow> nat \<Rightarrow> nat" where
  "nrnd m neg n k = n div 2 ^ k + of_bool (nrnd_inc m neg n k)"

lemma floor_div_pow: "\<lfloor>real n / 2 ^ k\<rfloor> = int (n div 2 ^ k)"
  using floor_divide_of_nat_eq [of n "2 ^ k"] by simp

lemma frac_div_pow: "frac (real n / 2 ^ k) = real (n mod 2 ^ k) / 2 ^ k"
proof -
  have "real n = real (n div 2 ^ k * 2 ^ k + n mod 2 ^ k)" by (simp only: div_mult_mod_eq)
  also have "\<dots> = real (n div 2 ^ k) * 2 ^ k + real (n mod 2 ^ k)"
    by (simp only: of_nat_add of_nat_mult of_nat_power of_nat_numeral)
  finally have "real n / 2 ^ k = real (n div 2 ^ k) + real (n mod 2 ^ k) / 2 ^ k"
    by (simp add: add_divide_distrib)
  then show ?thesis by (simp add: frac_def floor_div_pow)
qed

lemma frac_half_iff:
  "2 * frac (real n / 2 ^ k) > 1 \<longleftrightarrow> 2 * (n mod 2 ^ k) > 2 ^ k"
  "2 * frac (real n / 2 ^ k) = 1 \<longleftrightarrow> 2 * (n mod 2 ^ k) = 2 ^ k"
  "2 * frac (real n / 2 ^ k) \<ge> 1 \<longleftrightarrow> 2 * (n mod 2 ^ k) \<ge> 2 ^ k"
  "real n / 2 ^ k \<notin> \<int> \<longleftrightarrow> n mod 2 ^ k \<noteq> 0"
proof -
  have eq: "2 * frac (real n / 2 ^ k) = real (2 * (n mod 2 ^ k)) / real (2 ^ k)"
    by (simp add: frac_div_pow)
  have pos: "0 < real (2 ^ k)" by simp
  show "2 * frac (real n / 2 ^ k) > 1 \<longleftrightarrow> 2 * (n mod 2 ^ k) > 2 ^ k"
    unfolding eq by (simp only: less_divide_eq_1_pos [OF pos] of_nat_less_iff)
  show "2 * frac (real n / 2 ^ k) = 1 \<longleftrightarrow> 2 * (n mod 2 ^ k) = 2 ^ k"
    unfolding eq using pos by (simp only: divide_eq_1_iff of_nat_eq_iff) simp
  show "2 * frac (real n / 2 ^ k) \<ge> 1 \<longleftrightarrow> 2 * (n mod 2 ^ k) \<ge> 2 ^ k"
    unfolding eq by (simp only: le_divide_eq_1_pos [OF pos] of_nat_le_iff)
  show "real n / 2 ^ k \<notin> \<int> \<longleftrightarrow> n mod 2 ^ k \<noteq> 0"
    by (simp add: frac_div_pow flip: frac_eq_0_iff)
qed

lemma rnd_nat: "rnd m neg (real n / 2 ^ k) = int (nrnd m neg n k)"
proof -
  have "rnd_inc m neg (real n / 2 ^ k) = nrnd_inc m neg n k"
    by (cases m) (simp_all only: rnd_inc.simps nrnd_inc.simps frac_half_iff floor_div_pow even_of_nat)
  then show ?thesis by (simp add: rnd_def nrnd_def floor_div_pow)
qed

subsection \<open>Shifting with a sticky bit\<close>

definition jam :: "nat \<Rightarrow> nat \<Rightarrow> nat" where
  "jam c n = (let q = n div 2 ^ c in q + of_bool (n mod 2 ^ c \<noteq> 0 \<and> even q))"

definition stk :: "nat \<Rightarrow> real \<Rightarrow> nat \<Rightarrow> bool" where
  "stk j x s \<longleftrightarrow> x = real s \<or> (\<exists>t. odd t \<and> s = 2 ^ j * t \<and> \<bar>x - real s\<bar> < 2 ^ j)"

lemma stk_exact [simp, intro]: "stk j (real s) s"
  by (simp add: stk_def)

lemma stk_0: "stk 0 x s \<longleftrightarrow> x = real s \<or> odd s \<and> \<bar>x - real s\<bar> < 1"
  by (simp add: stk_def)

lemma stk_shift: "stk j x s \<Longrightarrow> stk (j + i) (x * 2 ^ i) (s * 2 ^ i)"
proof -
  have "\<bar>x * 2 ^ i - real (s * 2 ^ i)\<bar> = \<bar>x - real s\<bar> * 2 ^ i"
    by (simp add: abs_mult flip: left_diff_distrib)
  then show "stk j x s \<Longrightarrow> ?thesis"
    by (auto simp: stk_def power_add algebra_simps)
qed

lemma stk_add: "stk 0 x s \<Longrightarrow> even n \<Longrightarrow> stk 0 (x + real n) (s + n)"
  by (auto simp: stk_0)

lemma stk_sub: "stk 0 x s \<Longrightarrow> even n \<Longrightarrow> s \<le> n \<Longrightarrow> stk 0 (real n - x) (n - s)"
  by (auto simp: stk_0)

lemma floor_of_odd_near:
  assumes "odd s" and "\<bar>x - real s\<bar> < 1" and "0 < c"
  shows "\<lfloor>x / 2 ^ c\<rfloor> = int (s div 2 ^ c)" and "x / 2 ^ c \<notin> \<int>"
    and "2 \<le> c \<Longrightarrow> (2 * frac (x / 2 ^ c) > 1) = (2 * (s mod 2 ^ c) > 2 ^ c)"
    and "2 \<le> c \<Longrightarrow> 2 * frac (x / 2 ^ c) \<noteq> 1 \<and> 2 * (s mod 2 ^ c) \<noteq> 2 ^ c"
proof -
  define q r where "q = s div 2 ^ c" and "r = s mod 2 ^ c"
  have s: "s = q * 2 ^ c + r" unfolding q_def r_def by (simp only: div_mult_mod_eq)
  have ev: "even (2 ^ c :: nat)" using \<open>0 < c\<close> by simp
  have "odd r"
    using dvd_mod_iff [OF ev, of s] \<open>odd s\<close> unfolding r_def by blast
  then have r1: "1 \<le> r" by (simp add: Suc_leI odd_pos)
  have r2: "r + 1 \<le> 2 ^ c" by (simp add: r_def Suc_leI)
  define f where "f = x / 2 ^ c - real q"
  have "x / 2 ^ c = real q + f" by (simp add: f_def)
  moreover have fx: "f * 2 ^ c = x - real s + real r"
  proof -
    have "real s = real q * 2 ^ c + real r"
      by (subst s) (simp only: of_nat_add of_nat_mult of_nat_power of_nat_numeral)
    then show ?thesis by (simp add: f_def left_diff_distrib)
  qed
  have lo: "real r - 1 < f * 2 ^ c" and hi: "f * 2 ^ c < real r + 1"
    using \<open>\<bar>x - real s\<bar> < 1\<close> by (simp_all add: fx abs_less_iff)
  have "0 < f * 2 ^ c" using lo r1 by linarith
  then have "0 < f" by (simp add: zero_less_mult_iff)
  moreover have "f < 1"
  proof -
    have "real (r + 1) \<le> real (2 ^ c)" using r2 by (simp only: of_nat_le_iff)
    then have "real r + 1 \<le> 2 ^ c" by simp
    with hi have "f * 2 ^ c < 1 * 2 ^ c" by linarith
    then show ?thesis by simp
  qed
  ultimately have fl: "\<lfloor>x / 2 ^ c\<rfloor> = int q"
    by (simp add: floor_eq_iff)
  then show "\<lfloor>x / 2 ^ c\<rfloor> = int (s div 2 ^ c)" by (simp only: q_def)
  have fr: "frac (x / 2 ^ c) = f" by (simp add: frac_def fl f_def)
  with \<open>0 < f\<close> show "x / 2 ^ c \<notin> \<int>"
    by (simp flip: frac_eq_0_iff)
  assume "2 \<le> c"
  then obtain d where d: "c = Suc (Suc d)" by (metis add_2_eq_Suc le_Suc_ex)
  have half: "(2::nat) ^ c = 2 * (2 * 2 ^ d)" by (simp add: d)
  have "r \<noteq> 2 * 2 ^ d" using \<open>odd r\<close> by (metis dvd_triv_left)
  then consider "r + 1 \<le> 2 * 2 ^ d" | "2 * 2 ^ d \<le> r - 1" by linarith
  then have "(2 * f > 1) = (2 * r > 2 ^ c) \<and> 2 * f \<noteq> 1 \<and> 2 * r \<noteq> 2 ^ c"
  proof cases
    case 1
    then have "2 * (r + 1) \<le> 2 ^ c" unfolding half by (rule mult_le_mono2)
    then have "real (2 * (r + 1)) \<le> real (2 ^ c)" by (simp only: of_nat_le_iff)
    then have "2 * (real r + 1) \<le> 2 ^ c" by simp
    with mult_strict_left_mono [OF hi, of 2] have "2 * (f * 2 ^ c) < 2 ^ c" by (metis less_le_trans zero_less_numeral)
    then have "2 * f * 2 ^ c < 1 * 2 ^ c" by (simp only: mult.assoc mult_1)
    then have "2 * f < 1" by simp
    moreover have "2 * r < 2 ^ c" unfolding half using 1 by simp
    ultimately show ?thesis by simp
  next
    case 2
    then have "2 ^ c + 2 \<le> 2 * r" unfolding half using r1 by simp
    then have "real (2 ^ c + 2) \<le> real (2 * r)" by (simp only: of_nat_le_iff)
    then have "(2::real) ^ c \<le> 2 * (real r - 1)" by simp
    with mult_strict_left_mono [OF lo, of 2] have "2 ^ c < 2 * (f * 2 ^ c)" by (metis le_less_trans zero_less_numeral)
    then have "1 * 2 ^ c < 2 * f * 2 ^ c" by (simp only: mult.assoc mult_1)
    then have "1 < 2 * f" by simp
    moreover have "2 ^ c < 2 * r" unfolding half using 2 r1 by simp
    ultimately show ?thesis by simp
  qed
  then show "(2 * frac (x / 2 ^ c) > 1) = (2 * (s mod 2 ^ c) > 2 ^ c)"
    and "2 * frac (x / 2 ^ c) \<noteq> 1 \<and> 2 * (s mod 2 ^ c) \<noteq> 2 ^ c"
    unfolding fr r_def by blast+
qed

lemma rnd_stk_0:
  assumes "stk 0 x s" and "2 \<le> k"
  shows "rnd m neg (x / 2 ^ k) = int (nrnd m neg s k)"
    and "x / 2 ^ k \<in> \<int> \<longleftrightarrow> s mod 2 ^ k = 0"
proof -
  have "rnd m neg (x / 2 ^ k) = int (nrnd m neg s k) \<and> (x / 2 ^ k \<in> \<int> \<longleftrightarrow> s mod 2 ^ k = 0)"
  proof (cases "x = real s")
    case True
    then show ?thesis using rnd_nat [of m neg s k] frac_half_iff(4) [of s k] by auto
  next
    case False
    with assms(1) have near: "odd s" "\<bar>x - real s\<bar> < 1" by (auto simp: stk_0)
    have k: "0 < k" using assms(2) by simp
    note fl = floor_of_odd_near [OF near k]
    have nz: "s mod 2 ^ k \<noteq> 0"
      using near(1) k by (metis dvd_trans dvd_power mod_0_imp_dvd)
    have ne: "2 * frac (x / 2 ^ k) \<noteq> 1" "2 * (s mod 2 ^ k) \<noteq> 2 ^ k"
      using fl(4) [OF assms(2)] by simp_all
    have gt: "(2 * frac (x / 2 ^ k) > 1) = (2 * (s mod 2 ^ k) > 2 ^ k)"
      by (rule fl(3) [OF assms(2)])
    have ge: "(2 * frac (x / 2 ^ k) \<ge> 1) = (2 * (s mod 2 ^ k) \<ge> 2 ^ k)"
      using ne gt by linarith
    have "rnd_inc m neg (x / 2 ^ k) = nrnd_inc m neg s k"
      by (cases m) (use ne gt ge nz fl(2) in \<open>simp_all only: rnd_inc.simps nrnd_inc.simps simp_thms\<close>)
    then show ?thesis
      using nz fl(1,2) by (simp add: rnd_def nrnd_def)
  qed
  then show "rnd m neg (x / 2 ^ k) = int (nrnd m neg s k)"
    and "x / 2 ^ k \<in> \<int> \<longleftrightarrow> s mod 2 ^ k = 0" by simp_all
qed

lemma nrnd_shift: "nrnd m neg (2 ^ j * t) (j + k) = nrnd m neg t k"
proof -
  have "int (nrnd m neg (2 ^ j * t) (j + k)) = int (nrnd m neg t k)"
    by (simp add: power_add flip: rnd_nat)
  then show ?thesis by (simp only: of_nat_eq_iff)
qed

lemma rnd_stk:
  assumes "stk j x s" and "j + 2 \<le> k"
  shows "rnd m neg (x / 2 ^ k) = int (nrnd m neg s k)"
    and "x / 2 ^ k \<in> \<int> \<longleftrightarrow> s mod 2 ^ k = 0"
proof -
  have "rnd m neg (x / 2 ^ k) = int (nrnd m neg s k) \<and> (x / 2 ^ k \<in> \<int> \<longleftrightarrow> s mod 2 ^ k = 0)"
  proof (cases "x = real s")
    case True
    then show ?thesis using rnd_nat [of m neg s k] frac_half_iff(4) [of s k] by auto
  next
    case False
    with assms(1) obtain t where t: "odd t" "s = 2 ^ j * t" "\<bar>x - real s\<bar> < 2 ^ j"
      by (auto simp: stk_def)
    define y where "y = x / 2 ^ j"
    define i where "i = k - j"
    have k: "k = j + i" and "2 \<le> i" using assms(2) by (simp_all add: i_def)
    have x: "x = y * 2 ^ j" by (simp add: y_def)
    then have "x - real s = (y - real t) * 2 ^ j"
      by (simp add: t(2) left_diff_distrib mult.commute)
    then have "\<bar>y - real t\<bar> * 2 ^ j = \<bar>x - real s\<bar>"
      by (simp add: abs_mult)
    with t(3) have "\<bar>y - real t\<bar> * 2 ^ j < 1 * 2 ^ j" by simp
    then have "stk 0 y t" using t(1) by (simp add: stk_0)
    note st = rnd_stk_0(1) [OF this \<open>2 \<le> i\<close>, of m neg] rnd_stk_0(2) [OF this \<open>2 \<le> i\<close>]
    have "x / 2 ^ k = y / 2 ^ i" by (simp add: k x power_add)
    moreover have "s mod 2 ^ k = 0 \<longleftrightarrow> t mod 2 ^ i = 0"
      by (simp add: t(2) k power_add mod_eq_0_iff_dvd)
    moreover have "nrnd m neg s k = nrnd m neg t i"
      by (simp add: t(2) k nrnd_shift)
    ultimately show ?thesis using st by simp
  qed
  then show "rnd m neg (x / 2 ^ k) = int (nrnd m neg s k)"
    and "x / 2 ^ k \<in> \<int> \<longleftrightarrow> s mod 2 ^ k = 0" by simp_all
qed

lemma jam_0 [simp]: "jam 0 n = n"
  by (simp add: jam_def)

lemma jam_eq_0_iff [simp]: "jam c n = 0 \<longleftrightarrow> n = 0"
  by (auto simp: jam_def Let_def)

lemma stk_jam_of:
  assumes "\<lfloor>x\<rfloor> = int q" and "x \<notin> \<int>"
  shows "stk 0 x (q + of_bool (even q))"
proof -
  have "real q < x" "x < real q + 1"
    using assms by (metis Ints_of_int floor_correct le_less of_int_of_nat_eq)
      (use assms in linarith)
  then show ?thesis by (auto simp: stk_0)
qed

lemma stk_jam:
  assumes "stk 0 x s"
  shows "stk 0 (x / 2 ^ c) (jam c s)"
proof (cases "c = 0")
  case True
  with assms show ?thesis by simp
next
  case False
  show ?thesis
  proof (cases "x = real s")
    case True
    show ?thesis
    proof (cases "s mod 2 ^ c = 0")
      case True
      then obtain d where "s = 2 ^ c * d" by (meson mod_0_imp_dvd dvdE)
      with \<open>x = real s\<close> show ?thesis by (simp add: jam_def)
    next
      case nz: False
      with stk_jam_of [of "real s / 2 ^ c" "s div 2 ^ c"] frac_half_iff(4) [of s c] floor_div_pow [of s c]
      show ?thesis by (simp add: jam_def Let_def True)
    qed
  next
    case ne: False
    with assms have near: "odd s" "\<bar>x - real s\<bar> < 1" by (auto simp: stk_0)
    have "s mod 2 ^ c \<noteq> 0"
      using near(1) False by (metis dvd_trans dvd_power gr0I mod_0_imp_dvd)
    with stk_jam_of [OF floor_of_odd_near(1,2) [OF near]] False
    show ?thesis by (simp add: jam_def Let_def)
  qed
qed

lemma stk_jam_nat: "stk 0 (real n / 2 ^ c) (jam c n)"
  by (rule stk_jam) simp

subsection \<open>Correct rounding\<close>

text \<open>
  A format has precision \<open>p\<close> and least exponent \<open>qmin\<close>; its values are \<open>M * 2 powi e\<close> with
  \<open>\<bar>M\<bar> < 2 ^ p\<close> and \<open>qmin \<le> e\<close>.  As in IEEE 754, the exponent is not bounded above when a result is
  rounded; overflow is decided afterwards.
\<close>

definition representable :: "nat \<Rightarrow> int \<Rightarrow> real \<Rightarrow> bool" where
  "representable p qmin y \<longleftrightarrow>
     (\<exists>(M::int) e. \<bar>M\<bar> < 2 ^ p \<and> qmin \<le> e \<and> y = of_int M * 2 powi e)"

definition even_significand :: "nat \<Rightarrow> int \<Rightarrow> real \<Rightarrow> bool" where
  "even_significand p qmin y \<longleftrightarrow>
     (\<exists>(M::int) e. \<bar>M\<bar> < 2 ^ p \<and> qmin \<le> e \<and> (e = qmin \<or> 2 ^ (p - 1) \<le> \<bar>M\<bar>) \<and>
        even M \<and> y = of_int M * 2 powi e)"

definition nearest :: "nat \<Rightarrow> int \<Rightarrow> real \<Rightarrow> real \<Rightarrow> bool" where
  "nearest p qmin x z \<longleftrightarrow> (\<forall>y. representable p qmin y \<longrightarrow> \<bar>x - z\<bar> \<le> \<bar>x - y\<bar>)"

definition correctly_rounded :: "nat \<Rightarrow> int \<Rightarrow> rmode \<Rightarrow> real \<Rightarrow> real \<Rightarrow> bool" where
  "correctly_rounded p qmin m x z \<longleftrightarrow> representable p qmin z \<and>
     (case m of
        RNE \<Rightarrow> nearest p qmin x z \<and>
          (\<forall>y. representable p qmin y \<and> y \<noteq> z \<and> \<bar>x - y\<bar> = \<bar>x - z\<bar> \<longrightarrow> even_significand p qmin z)
      | RMM \<Rightarrow> nearest p qmin x z \<and>
          (\<forall>y. representable p qmin y \<and> \<bar>x - y\<bar> = \<bar>x - z\<bar> \<longrightarrow> \<bar>y\<bar> \<le> \<bar>z\<bar>)
      | RTZ \<Rightarrow> \<bar>z\<bar> \<le> \<bar>x\<bar> \<and> 0 \<le> x * z \<and> (\<forall>y. representable p qmin y \<and> \<bar>y\<bar> \<le> \<bar>x\<bar> \<longrightarrow> \<bar>y\<bar> \<le> \<bar>z\<bar>)
      | RDN \<Rightarrow> z \<le> x \<and> (\<forall>y. representable p qmin y \<and> y \<le> x \<longrightarrow> y \<le> z)
      | RUP \<Rightarrow> x \<le> z \<and> (\<forall>y. representable p qmin y \<and> x \<le> y \<longrightarrow> z \<le> y))"

definition with_sign :: "bool \<Rightarrow> real \<Rightarrow> real" where
  "with_sign neg x = (if neg then - x else x)"

lemma representable_minus [simp]: "representable p qmin (- y) = representable p qmin y"
proof -
  have neg: "representable p qmin (- y)" if "representable p qmin y" for y
  proof -
    from that obtain M e where "\<bar>M::int\<bar> < 2 ^ p" "qmin \<le> e" "y = of_int M * 2 powi e"
      unfolding representable_def by blast
    then show ?thesis
      unfolding representable_def by (intro exI [of _ "- M"] exI [of _ e]) simp
  qed
  from neg [of y] neg [of "- y"] show ?thesis by auto
qed

lemma even_significand_minus [simp]: "even_significand p qmin (- y) = even_significand p qmin y"
proof -
  have neg: "even_significand p qmin (- y)" if "even_significand p qmin y" for y
  proof -
    from that obtain M e where "\<bar>M::int\<bar> < 2 ^ p" "qmin \<le> e" "e = qmin \<or> 2 ^ (p - 1) \<le> \<bar>M\<bar>"
      "even M" "y = of_int M * 2 powi e"
      unfolding even_significand_def by blast
    then show ?thesis
      unfolding even_significand_def by (intro exI [of _ "- M"] exI [of _ e]) simp
  qed
  from neg [of y] neg [of "- y"] show ?thesis by auto
qed

fun opposite :: "rmode \<Rightarrow> rmode" where
  "opposite RDN = RUP"
| "opposite RUP = RDN"
| "opposite m = m"

lemma all_minus: "(\<And>y::real. P (- y)) \<Longrightarrow> (\<forall>y. P y)"
  by (metis minus_minus)

lemma abs_minus_swap: "\<bar>- x - - y\<bar> = \<bar>x - y\<bar>" for x y :: real
  by linarith

lemmas reflect_simps = representable_minus even_significand_minus abs_minus_swap abs_minus_cancel
  neg_equal_iff_equal neg_le_iff_le minus_mult_minus

lemma correctly_rounded_minus:
  assumes "correctly_rounded p qmin (opposite m) x z"
  shows "correctly_rounded p qmin m (- x) (- z)"
proof -
  from assms have rep: "representable p qmin (- z)"
    by (simp add: correctly_rounded_def)
  have near: "nearest p qmin x z \<Longrightarrow> nearest p qmin (- x) (- z)"
    unfolding nearest_def by (rule all_minus) (auto simp only: reflect_simps)
  show ?thesis
  proof (cases m)
    case RNE
    have "\<forall>y. representable p qmin y \<and> y \<noteq> - z \<and> \<bar>- x - y\<bar> = \<bar>- x - - z\<bar> \<longrightarrow>
        even_significand p qmin (- z)"
      by (rule all_minus) (use assms RNE in \<open>simp only: reflect_simps correctly_rounded_def
          opposite.simps rmode.case, blast\<close>)
    with assms near rep RNE show ?thesis by (simp add: correctly_rounded_def)
  next
    case RTZ
    with assms show ?thesis by (simp add: correctly_rounded_def)
  next
    case RDN
    have "\<forall>y. representable p qmin y \<and> y \<le> - x \<longrightarrow> y \<le> - z"
      by (rule all_minus) (use assms RDN in \<open>simp add: correctly_rounded_def\<close>)
    with assms rep RDN show ?thesis by (simp add: correctly_rounded_def)
  next
    case RUP
    have "\<forall>y. representable p qmin y \<and> - x \<le> y \<longrightarrow> - z \<le> y"
      by (rule all_minus) (use assms RUP in \<open>simp add: correctly_rounded_def\<close>)
    with assms rep RUP show ?thesis by (simp add: correctly_rounded_def)
  next
    case RMM
    have "\<forall>y. representable p qmin y \<and> \<bar>- x - y\<bar> = \<bar>- x - - z\<bar> \<longrightarrow> \<bar>y\<bar> \<le> \<bar>- z\<bar>"
      by (rule all_minus) (use assms RMM in \<open>simp only: reflect_simps correctly_rounded_def
          opposite.simps rmode.case, blast\<close>)
    with assms near rep RMM show ?thesis by (simp add: correctly_rounded_def)
  qed
qed

lemma rnd_opposite: "rnd m True x = rnd (opposite m) False x"
  by (cases m) (simp_all add: rnd_def)

lemma powi_2_pos [simp]: "0 < (2::real) powi e"
  by (simp add: zero_less_power_int)

lemma powi_split: "(2::real) powi (a + b) = 2 powi a * 2 powi b"
  by (simp add: power_int_add)

lemma powi_nat: "(2::real) powi (int n) = 2 ^ n"
  by simp

lemma representableI:
  assumes "0 \<le> N" "N \<le> 2 ^ p" "qmin \<le> q" "0 < p"
  shows "representable p qmin (of_int N * 2 powi q)"
proof (cases "N = 2 ^ p")
  case False
  with assms show ?thesis
    unfolding representable_def by (intro exI [of _ N] exI [of _ q]) simp
next
  case True
  have "of_int N * 2 powi q = of_int 1 * (2 powi (q + int p) :: real)"
    by (simp add: True powi_split)
  with assms(3,4) show ?thesis
    unfolding representable_def by (intro exI [of _ 1] exI [of _ "q + int p"]) simp
qed

lemma even_significandI:
  assumes "0 \<le> N" "N \<le> 2 ^ p" "qmin \<le> q" "2 \<le> p" "q = qmin \<or> 2 ^ (p - 1) \<le> N" "even N"
  shows "even_significand p qmin (of_int N * 2 powi q)"
proof (cases "N = 2 ^ p")
  case False
  with assms show ?thesis
    unfolding even_significand_def by (intro exI [of _ N] exI [of _ q]) auto
next
  case True
  obtain r where p: "p = Suc (Suc r)"
    using \<open>2 \<le> p\<close> by (metis add_2_eq_Suc le_Suc_ex)
  have "of_int N * 2 powi q = of_int (2 ^ (p - 1)) * (2 powi (q + 1) :: real)"
    by (simp add: True p powi_split)
  with assms(3) show ?thesis
    unfolding even_significand_def
    by (intro exI [of _ "2 ^ (p - 1)"] exI [of _ "q + 1"]) (simp add: p)
qed

text \<open>No representable value lies strictly between two neighbouring multiples of the unit in the last place.\<close>

lemma representable_gap:
  assumes "representable p qmin y" and "qmin \<le> q" and "0 < p"
    and n: "q = qmin \<or> 2 ^ (p - 1) \<le> n" and "0 \<le> n"
  shows "y \<le> of_int n * 2 powi q \<or> of_int (n + 1) * 2 powi q \<le> y"
proof -
  obtain M e where M: "\<bar>M::int\<bar> < 2 ^ p" "qmin \<le> e" and y: "y = of_int M * 2 powi e"
    using assms(1) unfolding representable_def by blast
  show ?thesis
  proof (cases "q \<le> e")
    case True
    then obtain d where e: "e = q + int d" by (metis zle_iff_zadd)
    have "y = of_int (M * 2 ^ d) * 2 powi q"
      by (simp add: y e powi_split)
    then show ?thesis
      by (metis (no_types, opaque_lifting) linorder_not_le mult_right_mono of_int_le_iff order_less_imp_le
          powi_2_pos zless_imp_add1_zle)
  next
    case False
    with M n have n': "2 ^ (p - 1) \<le> n" by auto
    have "y < 2 ^ p * 2 powi e"
    proof -
      have "real_of_int M < real_of_int (2 ^ p)" using M(1) by (simp only: of_int_less_iff)
      then show ?thesis unfolding y by (intro mult_strict_right_mono) simp_all
    qed
    also have "2 ^ p * 2 powi e \<le> (2::real) ^ p * 2 powi (q - 1)"
      using False by (intro mult_left_mono power_int_increasing) simp_all
    also have "\<dots> = 2 ^ (p - 1) * 2 powi q"
      using \<open>0 < p\<close> by (cases p) (simp_all add: power_int_diff)
    also have "\<dots> \<le> of_int n * 2 powi q"
    proof -
      have "real_of_int (2 ^ (p - 1)) \<le> real_of_int n" using n' by (simp only: of_int_le_iff)
      then show ?thesis by (intro mult_right_mono) simp_all
    qed
    finally show ?thesis by simp
  qed
qed

text \<open>Choosing the right one of two neighbouring representable values \<open>L\<close> and \<open>L + u\<close>.\<close>

lemma correctly_rounded_neighbour:
  assumes gap: "\<And>y. representable p qmin y \<Longrightarrow> y \<le> L \<or> L + u \<le> y"
    and lo: "representable p qmin L" and hi: "representable p qmin (L + u)"
    and elo: "ev \<Longrightarrow> even_significand p qmin L" and ehi: "\<not> ev \<Longrightarrow> even_significand p qmin (L + u)"
    and g: "0 \<le> g" "g < u" and L: "0 \<le> L"
  shows "correctly_rounded p qmin RNE (L + g) (if 2 * g > u \<or> 2 * g = u \<and> \<not> ev then L + u else L)"
    and "correctly_rounded p qmin RMM (L + g) (if 2 * g \<ge> u then L + u else L)"
    and "correctly_rounded p qmin RTZ (L + g) L"
    and "correctly_rounded p qmin RDN (L + g) L"
    and "correctly_rounded p qmin RUP (L + g) (if g = 0 then L else L + u)"
proof -
  have dlo: "\<bar>L + g - L\<bar> = g" and dhi: "\<bar>L + g - (L + u)\<bar> = u - g" using g by simp_all
  have dist: "g \<le> \<bar>L + g - y\<bar> \<and> y \<le> L \<or> u - g \<le> \<bar>L + g - y\<bar> \<and> L + u \<le> y"
    if "representable p qmin y" for y
    using gap [OF that] g by linarith
  have strict: "y = L \<or> g < \<bar>L + g - y\<bar> \<or> u - g \<le> \<bar>L + g - y\<bar>"
    and strict': "y = L + u \<or> g \<le> \<bar>L + g - y\<bar> \<or> u - g < \<bar>L + g - y\<bar>"
    if "representable p qmin y" for y
    using gap [OF that] g by linarith+
  have near_lo: "nearest p qmin (L + g) L" if "2 * g \<le> u"
    unfolding nearest_def dlo using dist that by (smt (verit))
  have near_hi: "nearest p qmin (L + g) (L + u)" if "u \<le> 2 * g"
    unfolding nearest_def dhi using dist that by (smt (verit))
  show "correctly_rounded p qmin RNE (L + g) (if 2 * g > u \<or> 2 * g = u \<and> \<not> ev then L + u else L)"
  proof (cases "2 * g > u \<or> 2 * g = u \<and> \<not> ev")
    case True
    have "even_significand p qmin (L + u)"
      if y: "representable p qmin y" "y \<noteq> L + u" "\<bar>L + g - y\<bar> = \<bar>L + g - (L + u)\<bar>" for y
    proof -
      from strict' [OF y(1)] y(2,3) have "2 * g \<le> u" unfolding dhi by linarith
      with True ehi show ?thesis by auto
    qed
    with True near_hi hi show ?thesis by (auto simp: correctly_rounded_def)
  next
    case False
    have "even_significand p qmin L"
      if y: "representable p qmin y" "y \<noteq> L" "\<bar>L + g - y\<bar> = \<bar>L + g - L\<bar>" for y
    proof -
      from strict [OF y(1)] y(2,3) have "2 * g \<ge> u" unfolding dlo by linarith
      with False elo show ?thesis by auto
    qed
    with False near_lo lo show ?thesis by (auto simp: correctly_rounded_def)
  qed
  show "correctly_rounded p qmin RMM (L + g) (if 2 * g \<ge> u then L + u else L)"
  proof (cases "2 * g \<ge> u")
    case True
    have "\<bar>y\<bar> \<le> \<bar>L + u\<bar>"
      if y: "\<bar>L + g - y\<bar> = \<bar>L + g - (L + u)\<bar>" for y
      using y True g L unfolding dhi by linarith
    with True near_hi hi show ?thesis by (auto simp: correctly_rounded_def)
  next
    case False
    have "\<bar>y\<bar> \<le> \<bar>L\<bar>"
      if y: "representable p qmin y" "\<bar>L + g - y\<bar> = \<bar>L + g - L\<bar>" for y
      using strict [OF y(1)] y(2) False g L unfolding dlo by linarith
    with False near_lo lo show ?thesis by (auto simp: correctly_rounded_def)
  qed
  have below: "y \<le> L" if "representable p qmin y" "y \<le> L + g" for y
    using gap [OF that(1)] that(2) g by linarith
  have "\<bar>y\<bar> \<le> \<bar>L\<bar>" if "representable p qmin y" "\<bar>y\<bar> \<le> \<bar>L + g\<bar>" for y
    using below [of "\<bar>y\<bar>"] that L g by (simp add: abs_if split: if_splits)
  with lo L g show "correctly_rounded p qmin RTZ (L + g) L"
    by (auto simp: correctly_rounded_def)
  from below lo g show "correctly_rounded p qmin RDN (L + g) L"
    by (auto simp: correctly_rounded_def)
  have above: "L + u \<le> y" if "representable p qmin y" "L + g \<le> y" "g \<noteq> 0" for y
    using gap [OF that(1)] that(2,3) g by linarith
  from above lo hi g show "correctly_rounded p qmin RUP (L + g) (if g = 0 then L else L + u)"
    by (auto simp: correctly_rounded_def)
qed

text \<open>Rounding a magnitude to a multiple of the unit in the last place is correct rounding.\<close>

lemma rnd_correct_pos:
  assumes p: "2 \<le> p" and x: "0 \<le> x" and q: "qmin \<le> q"
    and hi: "x < 2 powi (q + int p)" and lo: "q = qmin \<or> 2 powi (q + int p - 1) \<le> x"
  shows "correctly_rounded p qmin m x (of_int (rnd m False (x / 2 powi q)) * 2 powi q)"
proof -
  define u :: real where "u = 2 powi q"
  have u: "0 < u" by (simp add: u_def)
  define n where "n = \<lfloor>x / u\<rfloor>"
  define f where "f = frac (x / u)"
  have f: "0 \<le> f" "f < 1" by (simp_all add: f_def frac_lt_1)
  have "x / u = of_int n + f" by (simp add: f_def n_def frac_def)
  then have xnf: "x = (of_int n + f) * u" using u by (simp add: field_simps)
  have n0: "0 \<le> n" using x u by (simp add: n_def)
  have np: "n < 2 ^ p"
  proof -
    have "x / u < 2 ^ p" using hi u by (simp add: u_def powi_split field_simps)
    then show ?thesis by (simp add: n_def floor_less_iff)
  qed
  have nlo: "q = qmin \<or> 2 ^ (p - 1) \<le> n"
  proof (cases "q = qmin")
    case False
    with lo have "2 powi (q + int p - 1) \<le> x" by simp
    moreover have "q + int p - 1 = int (p - 1) + q" using p by simp
    ultimately have "2 ^ (p - 1) * u \<le> x" by (simp only: powi_split powi_nat u_def)
    then have "2 ^ (p - 1) \<le> x / u" using u by (simp add: field_simps)
    then have "2 ^ (p - 1) \<le> n" by (simp add: n_def le_floor_iff)
    then show ?thesis ..
  qed simp
  have p0: "0 < p" using p by simp
  have gap: "y \<le> of_int n * u \<or> (of_int n + 1) * u \<le> y" if "representable p qmin y" for y
    using representable_gap [OF that q p0 nlo n0] by (simp add: u_def)
  have rlo: "representable p qmin (of_int n * u)"
    using representableI [OF n0 _ q p0] np by (simp add: u_def)
  have rhi: "representable p qmin ((of_int n + 1) * u)"
    using representableI [of "n + 1", OF _ _ q p0] n0 np by (simp add: u_def)
  have elo: "even n \<Longrightarrow> even_significand p qmin (of_int n * u)"
    using even_significandI [OF n0 _ q p] nlo np by (simp add: u_def)
  have ehi: "odd n \<Longrightarrow> even_significand p qmin ((of_int n + 1) * u)"
    using even_significandI [of "n + 1", OF _ _ q p] nlo n0 np by (auto simp: u_def)
  have fu: "0 \<le> f * u" "f * u < u" using f u by (simp_all add: mult_less_cancel_right2)
  have xlo: "x = of_int n * u + f * u" by (simp add: xnf distrib_right)
  have hiu: "(of_int n + 1) * u = of_int n * u + u" by (simp add: distrib_right)
  have nu: "0 \<le> of_int n * u" using n0 u by simp
  note nb = correctly_rounded_neighbour [of p qmin "of_int n * u" u "even n" "f * u", folded hiu xlo,
      OF gap rlo rhi elo ehi fu nu]
  have g: "2 * (f * u) > u \<longleftrightarrow> 2 * f > 1" "2 * (f * u) = u \<longleftrightarrow> 2 * f = 1" "2 * (f * u) \<ge> u \<longleftrightarrow> 2 * f \<ge> 1"
    "f * u = 0 \<longleftrightarrow> x / u \<in> \<int>"
    using u by (auto simp: f_def field_simps)
  have "of_int (rnd m False (x / u)) * u = (of_int n + of_bool (rnd_inc m False (x / u))) * u"
    by (simp add: rnd_def n_def)
  then show ?thesis
    using nb unfolding g u_def [symmetric]
    by (cases m) (auto simp: f_def n_def)
qed

lemma rnd_correct:
  assumes "2 \<le> p" "0 \<le> x" "qmin \<le> q" "x < 2 powi (q + int p)"
    and "q = qmin \<or> 2 powi (q + int p - 1) \<le> x"
  shows "correctly_rounded p qmin m (with_sign neg x)
           (with_sign neg (of_int (rnd m neg (x / 2 powi q)) * 2 powi q))"
proof (cases neg)
  case True
  with correctly_rounded_minus [OF rnd_correct_pos [OF assms, of "opposite m"]] show ?thesis
    by (simp add: with_sign_def rnd_opposite)
next
  case False
  with rnd_correct_pos [OF assms, of m] show ?thesis by (simp add: with_sign_def)
qed

text \<open>A representable value is its own correctly rounded result, and the only one.\<close>

lemma correctly_rounded_exact:
  assumes x: "representable p qmin x" and z: "correctly_rounded p qmin m x z"
  shows "z = x"
proof (cases m)
  case RTZ
  with z have "\<bar>z\<bar> \<le> \<bar>x\<bar>" "0 \<le> x * z" "\<bar>x\<bar> \<le> \<bar>z\<bar>" using x by (auto simp: correctly_rounded_def)
  then show ?thesis by (auto simp: abs_if zero_le_mult_iff split: if_splits)
next
  case RDN
  with z x show ?thesis by (auto simp: correctly_rounded_def intro: antisym)
next
  case RUP
  with z x show ?thesis by (auto simp: correctly_rounded_def intro: antisym)
next
  case RNE
  with z have "nearest p qmin x z" by (simp add: correctly_rounded_def)
  with x show ?thesis by (auto simp: nearest_def)
next
  case RMM
  with z have "nearest p qmin x z" by (simp add: correctly_rounded_def)
  with x show ?thesis by (auto simp: nearest_def)
qed

end
