(* ===== verification/SoftFloat_State.thy ===== *)
theory SoftFloat_State
  imports Prelude
begin

text \<open>
  The state and the bit-level vocabulary of the SoftFloat library: the global variables of
  \<^verbatim>\<open>softfloat_state.c\<close>, the flag and rounding-mode codes of \<^verbatim>\<open>softfloat.h\<close>, the field macros of
  \<^verbatim>\<open>internals.h\<close> and the NaN and overflow conventions of \<^verbatim>\<open>specialize.h\<close>.  A \<^verbatim>\<open>float32_t\<close> or
  \<^verbatim>\<open>float64_t\<close> is its bit pattern; every operation takes the library state and returns it updated.
\<close>

subsection \<open>Global state\<close>

record softfloat_state =
  softfloat_roundingMode :: u8
  softfloat_detectTininess :: u8
  softfloat_exceptionFlags :: u8
  extF80_roundingPrecision :: u8

abbreviation (input) softfloat_tininess_beforeRounding :: u8 where "softfloat_tininess_beforeRounding \<equiv> 0"
abbreviation (input) softfloat_tininess_afterRounding :: u8 where "softfloat_tininess_afterRounding \<equiv> 1"

abbreviation (input) softfloat_round_near_even :: u8 where "softfloat_round_near_even \<equiv> 0"
abbreviation (input) softfloat_round_minMag :: u8 where "softfloat_round_minMag \<equiv> 1"
abbreviation (input) softfloat_round_min :: u8 where "softfloat_round_min \<equiv> 2"
abbreviation (input) softfloat_round_max :: u8 where "softfloat_round_max \<equiv> 3"
abbreviation (input) softfloat_round_near_maxMag :: u8 where "softfloat_round_near_maxMag \<equiv> 4"

abbreviation (input) softfloat_flag_inexact :: u8 where "softfloat_flag_inexact \<equiv> 1"
abbreviation (input) softfloat_flag_underflow :: u8 where "softfloat_flag_underflow \<equiv> 2"
abbreviation (input) softfloat_flag_overflow :: u8 where "softfloat_flag_overflow \<equiv> 4"
abbreviation (input) softfloat_flag_infinite :: u8 where "softfloat_flag_infinite \<equiv> 8"
abbreviation (input) softfloat_flag_invalid :: u8 where "softfloat_flag_invalid \<equiv> 16"

definition softfloat_init :: softfloat_state where
  "softfloat_init = \<lparr>softfloat_roundingMode = softfloat_round_near_even,
     softfloat_detectTininess = softfloat_tininess_afterRounding,
     softfloat_exceptionFlags = 0, extF80_roundingPrecision = 80\<rparr>"

definition softfloat_raiseFlags :: "u8 \<Rightarrow> softfloat_state \<Rightarrow> softfloat_state" where
  "softfloat_raiseFlags flags s =
     s\<lparr>softfloat_exceptionFlags := softfloat_exceptionFlags s OR flags\<rparr>"

text \<open>The conversion results of \<^verbatim>\<open>specialize.h\<close>.\<close>

abbreviation (input) ui32_fromPosOverflow :: u64 where "ui32_fromPosOverflow \<equiv> 0xFFFFFFFF"
abbreviation (input) ui32_fromNegOverflow :: u64 where "ui32_fromNegOverflow \<equiv> 0"
abbreviation (input) ui32_fromNaN :: u64 where "ui32_fromNaN \<equiv> 0xFFFFFFFF"
abbreviation (input) i32_fromPosOverflow :: int where "i32_fromPosOverflow \<equiv> 0x7FFFFFFF"
abbreviation (input) i32_fromNegOverflow :: int where "i32_fromNegOverflow \<equiv> - 0x7FFFFFFF - 1"
abbreviation (input) i32_fromNaN :: int where "i32_fromNaN \<equiv> 0x7FFFFFFF"
abbreviation (input) ui64_fromPosOverflow :: u64 where "ui64_fromPosOverflow \<equiv> 0xFFFFFFFFFFFFFFFF"
abbreviation (input) ui64_fromNegOverflow :: u64 where "ui64_fromNegOverflow \<equiv> 0"
abbreviation (input) ui64_fromNaN :: u64 where "ui64_fromNaN \<equiv> 0xFFFFFFFFFFFFFFFF"
definition i64_fromPosOverflow :: int where "i64_fromPosOverflow = sint (0x7FFFFFFFFFFFFFFF :: u64)"
definition i64_fromNegOverflow :: int where "i64_fromNegOverflow = sint (- 0x7FFFFFFFFFFFFFFF - 1 :: u64)"
definition i64_fromNaN :: int where "i64_fromNaN = sint (0x7FFFFFFFFFFFFFFF :: u64)"

abbreviation (input) defaultNaNF32UI :: u64 where "defaultNaNF32UI \<equiv> 0x7FC00000"
abbreviation (input) defaultNaNF64UI :: u64 where "defaultNaNF64UI \<equiv> 0x7FF8000000000000"

subsection \<open>Fields of the 32-bit format\<close>

definition signF32UI :: "u64 \<Rightarrow> bool" where
  "signF32UI a \<longleftrightarrow> drop_bit 31 (ucast a :: u32) \<noteq> 0"

definition expF32UI :: "u64 \<Rightarrow> int" where
  "expF32UI a = uint (drop_bit 23 a AND 0xFF)"

definition fracF32UI :: "u64 \<Rightarrow> u64" where
  "fracF32UI a = a AND 0x007FFFFF"

definition packToF32UI :: "bool \<Rightarrow> int \<Rightarrow> u64 \<Rightarrow> u64" where
  "packToF32UI sign expn sig =
     ucast (push_bit 31 (of_bool sign :: u32) + push_bit 23 (word_of_int expn :: u32)) + sig"

definition isNaNF32UI :: "u64 \<Rightarrow> bool" where
  "isNaNF32UI a \<longleftrightarrow> a AND 0x7F800000 = 0x7F800000 \<and> a AND 0x007FFFFF \<noteq> 0"

definition softfloat_isSigNaNF32UI :: "u64 \<Rightarrow> bool" where
  "softfloat_isSigNaNF32UI uiA \<longleftrightarrow> uiA AND 0x7FC00000 = 0x7F800000 \<and> uiA AND 0x003FFFFF \<noteq> 0"

definition softfloat_f32UIToCommonNaN :: "u64 \<Rightarrow> softfloat_state \<Rightarrow> softfloat_state" where
  "softfloat_f32UIToCommonNaN uiA s =
     (if uiA AND 0x00400000 = 0 then softfloat_raiseFlags softfloat_flag_invalid s else s)"

definition softfloat_propagateNaNF32UI :: "u64 \<Rightarrow> u64 \<Rightarrow> softfloat_state \<Rightarrow> u64 \<times> softfloat_state" where
  "softfloat_propagateNaNF32UI uiA uiB s =
     (defaultNaNF32UI,
      if softfloat_isSigNaNF32UI uiA \<or> softfloat_isSigNaNF32UI uiB
      then softfloat_raiseFlags softfloat_flag_invalid s else s)"

subsection \<open>Fields of the 64-bit format\<close>

definition signF64UI :: "u64 \<Rightarrow> bool" where
  "signF64UI a \<longleftrightarrow> drop_bit 63 a \<noteq> 0"

definition expF64UI :: "u64 \<Rightarrow> int" where
  "expF64UI a = uint (drop_bit 52 a AND 0x7FF)"

definition fracF64UI :: "u64 \<Rightarrow> u64" where
  "fracF64UI a = a AND 0x000FFFFFFFFFFFFF"

definition packToF64UI :: "bool \<Rightarrow> int \<Rightarrow> u64 \<Rightarrow> u64" where
  "packToF64UI sign expn sig =
     push_bit 63 (of_bool sign) + push_bit 52 (word_of_int expn) + sig"

definition isNaNF64UI :: "u64 \<Rightarrow> bool" where
  "isNaNF64UI a \<longleftrightarrow>
     a AND 0x7FF0000000000000 = 0x7FF0000000000000 \<and> a AND 0x000FFFFFFFFFFFFF \<noteq> 0"

definition softfloat_isSigNaNF64UI :: "u64 \<Rightarrow> bool" where
  "softfloat_isSigNaNF64UI uiA \<longleftrightarrow>
     uiA AND 0x7FF8000000000000 = 0x7FF0000000000000 \<and> uiA AND 0x0007FFFFFFFFFFFF \<noteq> 0"

definition softfloat_f64UIToCommonNaN :: "u64 \<Rightarrow> softfloat_state \<Rightarrow> softfloat_state" where
  "softfloat_f64UIToCommonNaN uiA s =
     (if uiA AND 0x0008000000000000 = 0 then softfloat_raiseFlags softfloat_flag_invalid s else s)"

definition softfloat_propagateNaNF64UI :: "u64 \<Rightarrow> u64 \<Rightarrow> softfloat_state \<Rightarrow> u64 \<times> softfloat_state" where
  "softfloat_propagateNaNF64UI uiA uiB s =
     (defaultNaNF64UI,
      if softfloat_isSigNaNF64UI uiA \<or> softfloat_isSigNaNF64UI uiB
      then softfloat_raiseFlags softfloat_flag_invalid s else s)"

subsection \<open>The flags only grow, and nothing but the flags is written\<close>

definition flags_raised :: "softfloat_state \<Rightarrow> softfloat_state \<Rightarrow> bool" where
  "flags_raised s s' \<longleftrightarrow> (\<exists>f. f AND 0xE0 = 0 \<and> s' = softfloat_raiseFlags f s)"

named_theorems flags_intro "every operation only raises flags"

lemma raiseFlags_frame [simp]:
  "softfloat_roundingMode (softfloat_raiseFlags f s) = softfloat_roundingMode s"
  "softfloat_detectTininess (softfloat_raiseFlags f s) = softfloat_detectTininess s"
  "extF80_roundingPrecision (softfloat_raiseFlags f s) = extF80_roundingPrecision s"
  "softfloat_exceptionFlags (softfloat_raiseFlags f s) = softfloat_exceptionFlags s OR f"
  by (simp_all add: softfloat_raiseFlags_def)

lemma raiseFlags_0 [simp]: "softfloat_raiseFlags 0 s = s"
  by (simp add: softfloat_raiseFlags_def)

lemma raiseFlags_raiseFlags [simp]:
  "softfloat_raiseFlags f (softfloat_raiseFlags g s) = softfloat_raiseFlags (g OR f) s"
  by (simp add: softfloat_raiseFlags_def or.assoc)

lemma flags_raised_refl [flags_intro]: "flags_raised s s"
  by (metis and_zero_eq and.commute flags_raised_def raiseFlags_0)

lemma flags_raised_raise [flags_intro]: "f AND 0xE0 = 0 \<Longrightarrow> flags_raised s (softfloat_raiseFlags f s)"
  by (auto simp: flags_raised_def)

lemma flags_raised_trans:
  assumes "flags_raised s t" "flags_raised t u"
  shows "flags_raised s u"
proof -
  obtain f g where "f AND 0xE0 = 0" "g AND 0xE0 = 0" "t = softfloat_raiseFlags f s" "u = softfloat_raiseFlags g t"
    using assms unfolding flags_raised_def by blast
  then show ?thesis by (simp add: flags_raised_raise bit.conj_disj_distrib2)
qed

lemma flags_raisedD:
  assumes "flags_raised s s'"
  shows "softfloat_roundingMode s' = softfloat_roundingMode s"
    and "softfloat_detectTininess s' = softfloat_detectTininess s"
    and "softfloat_exceptionFlags s AND softfloat_exceptionFlags s' = softfloat_exceptionFlags s"
    and "softfloat_exceptionFlags s AND 0xE0 = 0 \<Longrightarrow> softfloat_exceptionFlags s' AND 0xE0 = 0"
  using assms by (auto simp: flags_raised_def and.commute bit.conj_disj_distrib2)

end
