(* ===== verification/SoftFloat_Format.thy ===== *)
theory SoftFloat_Format
  imports Rounding SoftFloat_State
begin

text \<open>
  What a bit pattern denotes.  The magnitude bits of a number (everything but the sign) are a natural
  number \<open>n\<close>; \<open>mval fb qmin n\<close> is the value they have in the format with \<open>fb\<close> fraction bits whose
  least exponent is \<open>qmin\<close>.  Infinity is the pattern after the largest finite number and
  \<open>mval\<close> gives it the value the next exponent would have.  The locale \<open>float_format\<close> is the
  contract of the field macros of \<^verbatim>\<open>internals.h\<close>; it is interpreted on those of both formats.
\<close>

subsection \<open>Values of magnitudes\<close>

definition mval :: "nat \<Rightarrow> int \<Rightarrow> nat \<Rightarrow> real" where
  "mval fb qmin n =
     (if n div 2 ^ fb = 0 then real n * 2 powi qmin
      else real (n mod 2 ^ fb + 2 ^ fb) * 2 powi (qmin + int (n div 2 ^ fb) - 1))"

lemma mval_0 [simp]: "mval fb qmin 0 = 0"
  by (simp add: mval_def)

lemma mval_nonneg [simp]: "0 \<le> mval fb qmin n"
  by (simp add: mval_def)

lemma mval_subnormal: "n < 2 ^ fb \<Longrightarrow> mval fb qmin n = real n * 2 powi qmin"
  by (simp add: mval_def)

lemma mval_normal:
  assumes "f < 2 ^ fb"
  shows "mval fb qmin (Suc E * 2 ^ fb + f) = real (f + 2 ^ fb) * 2 powi (qmin + int E)"
proof -
  have "(Suc E * 2 ^ fb + f) div 2 ^ fb = Suc E" "(Suc E * 2 ^ fb + f) mod 2 ^ fb = f"
    using assms by (simp_all add: div_mult_self3 del: mult_Suc)
  then show ?thesis by (simp add: mval_def del: mult_Suc)
qed

text \<open>A significand that keeps its leading bit, added to the exponent field, carries into it.\<close>

lemma mval_pack:
  assumes N: "N \<le> 2 ^ Suc fb" and E: "E = 0 \<or> 2 ^ fb \<le> N"
  shows "mval fb qmin (E * 2 ^ fb + N) = real N * 2 powi (qmin + int E)"
proof -
  consider "N < 2 ^ fb" | "2 ^ fb \<le> N" "N < 2 ^ Suc fb" | "N = 2 ^ Suc fb"
    using N by linarith
  then show ?thesis
  proof cases
    case 1
    then show ?thesis using E by (simp add: mval_subnormal)
  next
    case 2
    then have "E * 2 ^ fb + N = Suc E * 2 ^ fb + (N - 2 ^ fb)" by simp
    moreover have "N - 2 ^ fb < 2 ^ fb" using 2 by simp
    ultimately show ?thesis using 2 by (simp only: mval_normal) (simp add: of_nat_diff)
  next
    case 3
    then have "E * 2 ^ fb + N = Suc (Suc E) * 2 ^ fb + 0" by simp
    then have "mval fb qmin (E * 2 ^ fb + N) = real (2 ^ fb) * 2 powi (qmin + int (Suc E))"
      by (simp only: mval_normal zero_less_power zero_less_numeral) simp
    also have "(2::real) powi (qmin + int (Suc E)) = 2 * 2 powi (qmin + int E)"
      using powi_split [of "qmin + int E" 1] by (simp add: algebra_simps)
    finally show ?thesis using 3 by simp
  qed
qed

lemma mval_step:
  "mval fb qmin (Suc n) = mval fb qmin n + 2 powi (qmin + max (int (n div 2 ^ fb)) 1 - 1)"
proof -
  define E f where "E = n div 2 ^ fb" and "f = n mod 2 ^ fb"
  have n: "n = E * 2 ^ fb + f" and f: "f < 2 ^ fb" unfolding E_def f_def by (simp_all only: div_mult_mod_eq) simp
  show ?thesis
  proof (cases E)
    case 0
    then show ?thesis
      using n f mval_pack [of "Suc n" fb 0 qmin] mval_subnormal [of n fb qmin]
      by (simp add: Suc_le_eq algebra_simps)
  next
    case (Suc E')
    have "mval fb qmin (Suc n) = mval fb qmin (E' * 2 ^ fb + (Suc f + 2 ^ fb))"
      using n Suc by (simp add: algebra_simps)
    also have "\<dots> = real (Suc f + 2 ^ fb) * 2 powi (qmin + int E')"
      using f by (intro mval_pack) auto
    also have "\<dots> = real (f + 2 ^ fb) * 2 powi (qmin + int E') + 2 powi (qmin + int E')"
      by (simp add: algebra_simps)
    also have "real (f + 2 ^ fb) * 2 powi (qmin + int E') = mval fb qmin n"
      using n f Suc mval_normal by simp
    finally show ?thesis using Suc by (simp add: E_def algebra_simps)
  qed
qed

lemma mval_strict_mono: "m < n \<Longrightarrow> mval fb qmin m < mval fb qmin n"
  by (rule lift_Suc_mono_less [where f = "mval fb qmin"]) (simp_all add: mval_step)

lemma mval_less_iff [simp]: "mval fb qmin m < mval fb qmin n \<longleftrightarrow> m < n"
  by (metis less_asym' linorder_neqE_nat mval_strict_mono)

lemma mval_le_iff [simp]: "mval fb qmin m \<le> mval fb qmin n \<longleftrightarrow> m \<le> n"
  using mval_less_iff [of fb qmin n m] by linarith

lemma mval_eq_iff [simp]: "mval fb qmin m = mval fb qmin n \<longleftrightarrow> m = n"
  by (metis mval_le_iff nle_le)

lemma mval_representable: "representable (Suc fb) qmin (mval fb qmin n)"
proof (cases "n div 2 ^ fb")
  case 0
  then have "n < 2 ^ fb" by (simp add: div_eq_0_iff)
  then have "int n \<le> int (2 ^ Suc fb)" unfolding of_nat_le_iff by simp
  then have "int n \<le> 2 ^ Suc fb" by simp
  then show ?thesis
    using representableI [of "int n" "Suc fb" qmin qmin] \<open>n < 2 ^ fb\<close> by (simp add: mval_subnormal)
next
  case (Suc E)
  have "int (n mod 2 ^ fb + 2 ^ fb) \<le> int (2 ^ Suc fb)"
    unfolding of_nat_le_iff using mod_less_divisor [of "2 ^ fb" n] by simp
  then have "int (n mod 2 ^ fb + 2 ^ fb) \<le> 2 ^ Suc fb" by simp
  then show ?thesis
    using representableI [of "int (n mod 2 ^ fb + 2 ^ fb)" "Suc fb" qmin "qmin + int E"] Suc
    by (simp add: mval_def)
qed

subsection \<open>The contract of the field macros\<close>

text \<open>
  The operands of the macros are bit patterns of the format held in a \<^verbatim>\<open>uint_fast64_t\<close>; \<open>ebit\<close> is the
  number of exponent bits and \<open>fb\<close> the number of fraction bits.
\<close>

locale float_format =
  fixes fb ebit :: nat
    and signUI :: "u64 \<Rightarrow> bool" and expUI :: "u64 \<Rightarrow> int" and fracUI :: "u64 \<Rightarrow> u64"
    and packUI :: "bool \<Rightarrow> int \<Rightarrow> u64 \<Rightarrow> u64"
  assumes width: "fb + ebit < 64" "0 < fb" "1 < ebit"
    and signUI_iff: "unat a < 2 ^ Suc (fb + ebit) \<Longrightarrow> signUI a \<longleftrightarrow> 2 ^ (fb + ebit) \<le> unat a"
    and expUI_eq: "expUI a = int (unat a div 2 ^ fb mod 2 ^ ebit)"
    and fracUI_eq: "unat (fracUI a) = unat a mod 2 ^ fb"
    and packUI_eq: "0 \<le> e \<Longrightarrow> e < 2 ^ ebit \<Longrightarrow> nat e * 2 ^ fb + unat g < 2 ^ (fb + ebit) \<Longrightarrow>
       unat (packUI sg e g) = of_bool sg * 2 ^ (fb + ebit) + (nat e * 2 ^ fb + unat g)"
begin

definition pattern :: "u64 \<Rightarrow> bool" where
  "pattern a \<longleftrightarrow> unat a < 2 ^ Suc (fb + ebit)"

definition magn :: "u64 \<Rightarrow> nat" where
  "magn a = unat a mod 2 ^ (fb + ebit)"

lemma magn_less: "magn a < 2 ^ (fb + ebit)"
  by (simp add: magn_def)

lemma magn_fields: "magn a = nat (expUI a) * 2 ^ fb + unat (fracUI a)"
proof -
  have "magn a = unat a mod (2 ^ fb * 2 ^ ebit)" by (simp add: magn_def power_add)
  then show ?thesis by (simp add: expUI_eq fracUI_eq mod_mult2_eq)
qed

lemma expUI_bounds: "0 \<le> expUI a" "expUI a < 2 ^ ebit"
proof -
  have "int (unat a div 2 ^ fb mod 2 ^ ebit) < int (2 ^ ebit)"
    unfolding of_nat_less_iff by simp
  then show "0 \<le> expUI a" "expUI a < 2 ^ ebit" by (simp_all add: expUI_eq)
qed

lemma fracUI_less: "unat (fracUI a) < 2 ^ fb"
  by (simp add: fracUI_eq)

lemma pattern_split:
  assumes "pattern a"
  shows "unat a = of_bool (signUI a) * 2 ^ (fb + ebit) + magn a"
proof -
  have lt: "unat a < 2 * 2 ^ (fb + ebit)" using assms by (simp add: pattern_def)
  show ?thesis
  proof (cases "2 ^ (fb + ebit) \<le> unat a")
    case True
    then have "magn a = unat a - 2 ^ (fb + ebit)"
      using lt by (simp add: magn_def mod_if)
    with True assms show ?thesis by (simp add: signUI_iff pattern_def)
  next
    case False
    with assms show ?thesis by (simp add: signUI_iff pattern_def magn_def)
  qed
qed

lemma pack_fields:
  assumes "pattern a"
  shows "packUI (signUI a) (expUI a) (fracUI a) = a"
proof -
  have "nat (expUI a) * 2 ^ fb + unat (fracUI a) < 2 ^ (fb + ebit)"
    using magn_less [of a] by (simp only: magn_fields)
  then have "unat (packUI (signUI a) (expUI a) (fracUI a)) = unat a"
    using expUI_bounds [of a] packUI_eq [of "expUI a" "fracUI a" "signUI a"] pattern_split [OF assms]
    by (simp add: magn_fields)
  then show ?thesis by (rule word_of_nat_unat_eqI)
qed

lemma fields_pack:
  assumes e: "0 \<le> e" "e < 2 ^ ebit" and f: "unat g < 2 ^ fb"
  shows "signUI (packUI sg e g) = sg" and "expUI (packUI sg e g) = e" and "fracUI (packUI sg e g) = g"
    and "pattern (packUI sg e g)"
proof -
  have "int (nat e) < int (2 ^ ebit)" using e by simp
  then have "nat e < 2 ^ ebit" by (simp only: of_nat_less_iff)
  then have "Suc (nat e) * 2 ^ fb \<le> 2 ^ ebit * 2 ^ fb" by (intro mult_le_mono1 Suc_leI)
  then have m: "nat e * 2 ^ fb + unat g < 2 ^ (fb + ebit)"
    using f by (simp add: power_add mult.commute)
  note u = packUI_eq [OF e m, of sg]
  show p: "pattern (packUI sg e g)" using m by (simp add: pattern_def u)
  then show "signUI (packUI sg e g) = sg"
    using m by (simp add: signUI_iff pattern_def u)
  have s: "(of_bool sg * 2 ^ (fb + ebit) + (nat e * 2 ^ fb + unat g)) =
      (of_bool sg * 2 ^ ebit + nat e) * 2 ^ fb + unat g"
    by (simp add: algebra_simps power_add)
  show "expUI (packUI sg e g) = e"
    using e f \<open>nat e < 2 ^ ebit\<close> unfolding expUI_eq u s by simp
  have "unat (fracUI (packUI sg e g)) = unat g"
    using f unfolding fracUI_eq u s by simp
  then show "fracUI (packUI sg e g) = g" by (rule word_of_nat_unat_eqI)
qed

lemma pattern_eqI:
  "pattern a \<Longrightarrow> pattern b \<Longrightarrow> signUI a = signUI b \<Longrightarrow> magn a = magn b \<Longrightarrow> a = b"
  using pattern_split [of a] pattern_split [of b] by (intro word_of_nat_unat_eqI) simp

lemma magn_value:
  "mval fb qmin (magn a) =
     (if expUI a = 0 then real (unat (fracUI a)) * 2 powi qmin
      else real (unat (fracUI a) + 2 ^ fb) * 2 powi (qmin + expUI a - 1))"
proof (cases "expUI a = 0")
  case True
  then show ?thesis using fracUI_less by (simp add: magn_fields mval_subnormal)
next
  case False
  then obtain E where E: "expUI a = int (Suc E)"
    using expUI_bounds(1) [of a] by (metis gr0_conv_Suc less_le zero_less_imp_eq_int)
  then show ?thesis
    using fracUI_less [of a] by (simp only: magn_fields E nat_int mval_normal) simp
qed

lemma magn_eq_0_iff: "magn a = 0 \<longleftrightarrow> expUI a = 0 \<and> fracUI a = 0"
  using expUI_bounds(1) [of a] by (auto simp: magn_fields unat_eq_zero)

end

subsection \<open>The macros of both formats satisfy it\<close>

lemma unat_and_mask: "unat (w AND mask n) = unat w mod 2 ^ n"
  for w :: "'a::len word"
  by (simp flip: take_bit_eq_mask add: unat_take_bit)

lemma signF32UI_iff:
  assumes "unat a < 2 ^ 32"
  shows "signF32UI a \<longleftrightarrow> 2 ^ 31 \<le> unat a"
proof -
  have "unat (ucast a :: u32) = unat a" using assms by (simp add: unat_ucast_mod)
  then have "unat (drop_bit 31 (ucast a :: u32)) = unat a div 2 ^ 31" by (simp only: unat_shr)
  then have "signF32UI a \<longleftrightarrow> unat a div 2 ^ 31 \<noteq> 0"
    by (simp only: signF32UI_def unat_eq_zero [symmetric])
  then show ?thesis by (simp add: div_eq_0_iff linorder_not_less)
qed

lemma expF32UI_eq: "expF32UI a = int (unat a div 2 ^ 23 mod 2 ^ 8)"
proof -
  have "unat (drop_bit 23 a AND 0xFF) = unat a div 2 ^ 23 mod 2 ^ 8"
    using unat_and_mask [of "drop_bit 23 a" 8] by (simp only: mask_eq_exp_minus_1 unat_shr) simp
  then show ?thesis by (simp only: expF32UI_def uint_nat)
qed

lemma fracF32UI_eq: "unat (fracF32UI a) = unat a mod 2 ^ 23"
  using unat_and_mask [of a 23] by (simp add: fracF32UI_def mask_eq_exp_minus_1)

lemma packToF32UI_eq:
  assumes e: "0 \<le> e" "e < 2 ^ 8" and m: "nat e * 2 ^ 23 + unat g < 2 ^ 31"
  shows "unat (packToF32UI sg e g) = of_bool sg * 2 ^ 31 + (nat e * 2 ^ 23 + unat g)"
proof -
  have "unat (word_of_int e :: u32) = nat e"
    using e by (intro unat_word_of_int_less) simp_all
  then have 1: "unat (push_bit 23 (word_of_int e :: u32)) = nat e * 2 ^ 23"
    using m by (subst unat_shl_less) simp_all
  have 2: "unat (push_bit 31 (of_bool sg :: u32)) = of_bool sg * 2 ^ 31"
    by (cases sg) (simp_all add: unat_shl)
  have 3: "unat (push_bit 31 (of_bool sg :: u32) + push_bit 23 (word_of_int e :: u32))
      = of_bool sg * 2 ^ 31 + nat e * 2 ^ 23"
    using m by (subst unat_add_less) (simp_all only: 1 2, cases sg, simp_all)
  have 4: "unat (ucast (push_bit 31 (of_bool sg :: u32) + push_bit 23 (word_of_int e :: u32)) :: u64)
      = of_bool sg * 2 ^ 31 + nat e * 2 ^ 23"
    using m by (simp only: unat_ucast_mod 3, cases sg) simp_all
  show ?thesis
    unfolding packToF32UI_def using m by (subst unat_add_less; simp only: 4; cases sg) simp_all
qed

interpretation f32: float_format 23 8 signF32UI expF32UI fracF32UI packToF32UI
  by unfold_locales (simp_all add: signF32UI_iff expF32UI_eq fracF32UI_eq packToF32UI_eq)

lemma signF64UI_iff: "signF64UI a \<longleftrightarrow> 2 ^ 63 \<le> unat a"
proof -
  have "signF64UI a \<longleftrightarrow> unat a div 2 ^ 63 \<noteq> 0"
    by (simp only: signF64UI_def unat_eq_zero [symmetric] unat_shr)
  then show ?thesis by (simp add: div_eq_0_iff linorder_not_less)
qed

lemma expF64UI_eq: "expF64UI a = int (unat a div 2 ^ 52 mod 2 ^ 11)"
proof -
  have "unat (drop_bit 52 a AND 0x7FF) = unat a div 2 ^ 52 mod 2 ^ 11"
    using unat_and_mask [of "drop_bit 52 a" 11] by (simp only: mask_eq_exp_minus_1 unat_shr) simp
  then show ?thesis by (simp only: expF64UI_def uint_nat)
qed

lemma fracF64UI_eq: "unat (fracF64UI a) = unat a mod 2 ^ 52"
  using unat_and_mask [of a 52] by (simp add: fracF64UI_def mask_eq_exp_minus_1)

lemma packToF64UI_eq:
  assumes e: "0 \<le> e" "e < 2 ^ 11" and m: "nat e * 2 ^ 52 + unat g < 2 ^ 63"
  shows "unat (packToF64UI sg e g) = of_bool sg * 2 ^ 63 + (nat e * 2 ^ 52 + unat g)"
proof -
  have "unat (word_of_int e :: u64) = nat e"
    using e by (intro unat_word_of_int_less) simp_all
  then have 1: "unat (push_bit 52 (word_of_int e :: u64)) = nat e * 2 ^ 52"
    using m by (subst unat_shl_less) simp_all
  have 2: "unat (push_bit 63 (of_bool sg :: u64)) = of_bool sg * 2 ^ 63"
    by (cases sg) (simp_all add: unat_shl)
  have 3: "unat (push_bit 63 (of_bool sg :: u64) + push_bit 52 (word_of_int e :: u64))
      = of_bool sg * 2 ^ 63 + nat e * 2 ^ 52"
    using m by (subst unat_add_less) (simp_all only: 1 2, cases sg, simp_all)
  show ?thesis
    unfolding packToF64UI_def using m by (subst unat_add_less; simp only: 3; cases sg) simp_all
qed

interpretation f64: float_format 52 11 signF64UI expF64UI fracF64UI packToF64UI
  by unfold_locales (simp_all add: signF64UI_iff expF64UI_eq fracF64UI_eq packToF64UI_eq)

end
