(* ===== verification/Round_Pack_Spec.thy ===== *)
theory Round_Pack_Spec
  imports SoftFloat_Format
begin

text \<open>
  The reference for the rounding step every arithmetic operation ends with.  \<open>rp_magn\<close> says which
  magnitude the sign, exponent and extended significand are packed to, on natural numbers;
  \<open>ieee_rounds\<close> is the abstract specification of IEEE 754 (the correctly rounded value, or the
  overflow result of the rounding direction); \<open>rp_ieee\<close> is the refinement between them.
\<close>

subsection \<open>The rounding increment\<close>

fun rinc :: "rmode \<Rightarrow> bool \<Rightarrow> nat \<Rightarrow> nat" where
  "rinc RNE neg k = 2 ^ (k - 1)"
| "rinc RMM neg k = 2 ^ (k - 1)"
| "rinc RTZ neg k = 0"
| "rinc RDN neg k = (if neg then 2 ^ k - 1 else 0)"
| "rinc RUP neg k = (if neg then 0 else 2 ^ k - 1)"

definition toward_zero :: "rmode \<Rightarrow> bool \<Rightarrow> bool" where
  "toward_zero m neg \<longleftrightarrow> m = RTZ \<or> m = RDN \<and> \<not> neg \<or> m = RUP \<and> neg"

lemma rinc_eq_0_iff: "0 < k \<Longrightarrow> rinc m neg k = 0 \<longleftrightarrow> toward_zero m neg"
  using one_less_power [of "2::nat" k] by (cases m) (simp_all add: toward_zero_def)

lemma rinc_less: "0 < k \<Longrightarrow> rinc m neg k < 2 ^ k"
  by (cases m) auto

lemma div_add_small:
  fixes n d k :: nat
  assumes "d < 2 ^ k"
  shows "(n + d) div 2 ^ k = n div 2 ^ k + of_bool (2 ^ k \<le> n mod 2 ^ k + d)"
proof -
  define q r where "q = n div 2 ^ k" and "r = n mod 2 ^ k"
  have n: "n = q * 2 ^ k + r" and r: "r < 2 ^ k"
    unfolding q_def r_def by (simp_all only: div_mult_mod_eq) simp
  have "(n + d) div 2 ^ k = q + (r + d) div 2 ^ k" by (simp add: n add.assoc)
  also have "(r + d) div 2 ^ k = of_bool (2 ^ k \<le> r + d)"
  proof (cases "2 ^ k \<le> r + d")
    case True
    then have "(r + d) div 2 ^ k = Suc ((r + d - 2 ^ k) div 2 ^ k)" by (subst div_if) auto
    moreover have "r + d - 2 ^ k < 2 ^ k" using r assms by linarith
    ultimately show ?thesis using True by simp
  qed simp
  finally show ?thesis by (simp add: q_def r_def)
qed

text \<open>Adding the increment and dropping the bits rounds; ties to even clears the last bit.\<close>

lemma nrnd_via_rinc:
  assumes "0 < k"
  shows "nrnd m neg n k =
    (n + rinc m neg k) div 2 ^ k
      - of_bool (m = RNE \<and> n mod 2 ^ k = 2 ^ (k - 1) \<and> odd ((n + rinc m neg k) div 2 ^ k))"
proof -
  define q r h where "q = n div 2 ^ k" and "r = n mod 2 ^ k" and "h = (2::nat) ^ (k - 1)"
  have hh: "(2::nat) ^ k = 2 * h" using assms by (simp add: h_def power_eq_if)
  have r: "r < 2 * h" and h: "0 < h" using hh by (simp_all add: r_def h_def flip: hh)
  have "(n + rinc m neg k) div 2 ^ k = q + of_bool (2 * h \<le> r + rinc m neg k)"
    using div_add_small [OF rinc_less [OF assms]] by (simp add: q_def r_def flip: hh)
  moreover have "rinc m neg k = (case m of RNE \<Rightarrow> h | RMM \<Rightarrow> h | RTZ \<Rightarrow> 0
      | RDN \<Rightarrow> (if neg then 2 * h - 1 else 0) | RUP \<Rightarrow> (if neg then 0 else 2 * h - 1))"
    by (cases m) (simp_all only: rinc.simps h_def [symmetric] hh rmode.case)
  moreover have "nrnd_inc m neg n k = (case m of RNE \<Rightarrow> 2 * r > 2 * h \<or> 2 * r = 2 * h \<and> odd q
      | RMM \<Rightarrow> 2 * r \<ge> 2 * h | RTZ \<Rightarrow> False | RDN \<Rightarrow> neg \<and> r \<noteq> 0 | RUP \<Rightarrow> \<not> neg \<and> r \<noteq> 0)"
    by (cases m) (simp_all only: nrnd_inc.simps q_def r_def hh rmode.case)
  ultimately have eqs:
    "(n + rinc m neg k) div 2 ^ k = q + of_bool (2 * h \<le> r + (case m of RNE \<Rightarrow> h | RMM \<Rightarrow> h
      | RTZ \<Rightarrow> 0 | RDN \<Rightarrow> (if neg then 2 * h - 1 else 0) | RUP \<Rightarrow> (if neg then 0 else 2 * h - 1)))"
    "nrnd m neg n k = q + of_bool (case m of RNE \<Rightarrow> 2 * r > 2 * h \<or> 2 * r = 2 * h \<and> odd q
      | RMM \<Rightarrow> 2 * r \<ge> 2 * h | RTZ \<Rightarrow> False | RDN \<Rightarrow> neg \<and> r \<noteq> 0 | RUP \<Rightarrow> \<not> neg \<and> r \<noteq> 0)"
    by (simp_all only: nrnd_def q_def [symmetric])
  consider "r = 0" | "0 < r" "r < h" | "r = h" | "h < r" by linarith
  then show ?thesis
    unfolding eqs r_def [symmetric] h_def [symmetric]
    by cases (use r h in \<open>cases m; simp; fail | cases m; simp; linarith\<close>)+
qed

lemma nrnd_le:
  assumes "n < 2 ^ (p + k)"
  shows "nrnd m neg n k \<le> 2 ^ p"
proof -
  have "n div 2 ^ k < 2 ^ p" using assms by (simp add: less_mult_imp_div_less power_add)
  then show ?thesis by (simp add: nrnd_def of_bool_def)
qed

lemma nrnd_ge:
  assumes "2 ^ (p + k) \<le> n"
  shows "2 ^ p \<le> nrnd m neg n k"
proof -
  have "2 ^ (p + k) div 2 ^ k \<le> n div 2 ^ k" using assms by (rule div_le_mono)
  then show ?thesis by (simp add: nrnd_def power_add)
qed

text \<open>The increment carries out of the significand exactly when the rounded significand does.\<close>

lemma nrnd_top_iff:
  assumes n: "n < 2 ^ (p + k)" and k: "0 < k" and p: "0 < p"
  shows "nrnd m neg n k = 2 ^ p \<longleftrightarrow> 2 ^ (p + k) \<le> n + rinc m neg k"
proof -
  define t where "t = (n + rinc m neg k) div 2 ^ k"
  have "n + rinc m neg k < 2 ^ (p + k) + 2 ^ k"
    using n rinc_less [OF k, of m neg] by linarith
  then have "t < 2 ^ p + 1"
    unfolding t_def by (intro less_mult_imp_div_less) (simp add: power_add algebra_simps)
  moreover have "2 ^ (p + k) \<le> n + rinc m neg k \<longleftrightarrow> 2 ^ p \<le> t"
    unfolding t_def by (simp add: less_eq_div_iff_mult_less_eq power_add)
  moreover have "even ((2::nat) ^ p)" using p by simp
  ultimately show ?thesis
    unfolding nrnd_via_rinc [OF k] t_def [symmetric] by (auto simp: le_less)
qed

subsection \<open>Sticky significands\<close>

lemma jam_mult_pow: "jam (i + c) (2 ^ i * t) = jam c t"
  by (simp add: jam_def power_add)

lemma jam_exact: "jam c (2 ^ (c + i) * t) = 2 ^ i * t"
proof -
  have "2 ^ (c + i) * t = 2 ^ c * (2 ^ i * t)" by (simp add: power_add)
  then show ?thesis by (simp only: jam_def nonzero_mult_div_cancel_left) simp
qed

lemma stk_scale: "stk j x s \<Longrightarrow> x \<noteq> real s \<Longrightarrow> \<exists>t. s = 2 ^ j * t \<and> odd t \<and> stk 0 (x / 2 ^ j) t"
proof -
  assume "stk j x s" "x \<noteq> real s"
  then obtain t where t: "odd t" "s = 2 ^ j * t" "\<bar>x - real s\<bar> < 2 ^ j" by (auto simp: stk_def)
  have "(x / 2 ^ j - real t) * 2 ^ j = x - real s" using t(2) by (simp add: field_simps)
  then have "\<bar>x / 2 ^ j - real t\<bar> * 2 ^ j = \<bar>x - real s\<bar>"
    by (metis abs_mult abs_of_pos zero_less_numeral zero_less_power)
  with t(3) have "\<bar>x / 2 ^ j - real t\<bar> * 2 ^ j < 1 * 2 ^ j" by simp
  then have "\<bar>x / 2 ^ j - real t\<bar> < 1" by simp
  with t show ?thesis by (auto simp: stk_0)
qed

text \<open>
  The relation the rounding routines need of a significand: it is exact, or it lies strictly between
  the same two multiples of \<open>2 ^ j\<close> as the number it stands for.
\<close>

definition near :: "nat \<Rightarrow> real \<Rightarrow> nat \<Rightarrow> bool" where
  "near j x s \<longleftrightarrow> x = real s \<or> (\<lfloor>x / 2 ^ j\<rfloor> = int (s div 2 ^ j) \<and> x / 2 ^ j \<notin> \<int> \<and> s mod 2 ^ j \<noteq> 0)"

lemma near_exact [simp, intro]: "near j (real s) s"
  by (simp add: near_def)

lemma odd_near_iff: "stk 0 y (2 * t + 1) \<longleftrightarrow> real (2 * t) < y \<and> y < real (2 * t + 2)"
  by (auto simp: stk_0)

lemma near_stk:
  assumes "near j x s" "x \<noteq> real s"
  shows "stk 0 (2 * (x / 2 ^ j)) (2 * (s div 2 ^ j) + 1)" and "stk 0 (2 * (real s / 2 ^ j)) (2 * (s div 2 ^ j) + 1)"
proof -
  define y t where "y = x / 2 ^ j" and "t = s div 2 ^ j"
  have y: "\<lfloor>y\<rfloor> = int t" "y \<notin> \<int>" and r: "s mod 2 ^ j \<noteq> 0"
    using assms by (simp_all add: near_def y_def t_def)
  from y have "real t < y" "y < real t + 1"
    by (metis Ints_of_int floor_correct le_less of_int_of_nat_eq) (use y in linarith)
  then show "stk 0 (2 * (x / 2 ^ j)) (2 * (s div 2 ^ j) + 1)"
    unfolding odd_near_iff y_def [symmetric] t_def [symmetric] by simp
  have "\<lfloor>real s / 2 ^ j\<rfloor> = int t" "real s / 2 ^ j \<notin> \<int>"
    using floor_div_pow [of s j] frac_half_iff(4) [of s j] r by (simp_all add: t_def)
  then have "real t < real s / 2 ^ j" "real s / 2 ^ j < real t + 1"
    by (metis Ints_of_int floor_correct le_less of_int_of_nat_eq) (use \<open>\<lfloor>real s / 2 ^ j\<rfloor> = int t\<close> in linarith)
  then show "stk 0 (2 * (real s / 2 ^ j)) (2 * (s div 2 ^ j) + 1)"
    unfolding odd_near_iff t_def [symmetric] by simp
qed

lemma rnd_near:
  assumes n: "near j x s" and k: "j + 1 \<le> k"
  shows "rnd m neg (x / 2 ^ k) = int (nrnd m neg s k)"
    and "x / 2 ^ k \<in> \<int> \<longleftrightarrow> s mod 2 ^ k = 0"
proof -
  have "rnd m neg (x / 2 ^ k) = int (nrnd m neg s k) \<and> (x / 2 ^ k \<in> \<int> \<longleftrightarrow> s mod 2 ^ k = 0)"
  proof (cases "x = real s")
    case True
    then show ?thesis using rnd_nat [of m neg s k] frac_half_iff(4) [of s k] by auto
  next
    case False
    obtain i where i: "k = Suc (j + i)" using k less_imp_Suc_add [of j k] by auto
    have sc: "2 * (y / 2 ^ j) / 2 ^ (i + 2) = y / 2 ^ k" for y :: real by (simp add: i power_add)
    note x = rnd_stk_0 [OF near_stk(1) [OF n False], of "i + 2", unfolded sc]
      and s = rnd_stk_0 [OF near_stk(2) [OF n False], of "i + 2", unfolded sc]
    have "int (nrnd m neg s k) = rnd m neg (real s / 2 ^ k)" by (rule rnd_nat [symmetric])
    then have "rnd m neg (x / 2 ^ k) = int (nrnd m neg s k)" using x(1) s(1) by simp
    moreover have "x / 2 ^ k \<in> \<int> \<longleftrightarrow> real s / 2 ^ k \<in> \<int>" using x(2) s(2) by simp
    ultimately show ?thesis using frac_half_iff(4) [of s k] by (cases "real s / 2 ^ k \<in> \<int>") simp_all
  qed
  then show "rnd m neg (x / 2 ^ k) = int (nrnd m neg s k)"
    and "x / 2 ^ k \<in> \<int> \<longleftrightarrow> s mod 2 ^ k = 0" by simp_all
qed

lemma near_bounds:
  assumes n: "near j x s" and jk: "j \<le> k"
  shows "2 ^ k \<le> s \<Longrightarrow> 2 ^ k \<le> x" and "s < 2 ^ k \<Longrightarrow> x < 2 ^ k" and "0 \<le> x"
proof -
  have "(2 ^ k \<le> s \<longrightarrow> 2 ^ k \<le> x) \<and> (s < 2 ^ k \<longrightarrow> x < 2 ^ k) \<and> 0 \<le> x"
  proof (cases "x = real s")
    case True
    then show ?thesis by (metis of_nat_0_le_iff of_nat_le_iff of_nat_less_iff of_nat_numeral of_nat_power)
  next
    case False
    obtain i where i: "k = j + i" using jk le_Suc_ex by blast
    define y t where "y = x / 2 ^ j" and "t = s div 2 ^ j"
    have fl: "\<lfloor>y\<rfloor> = int t" using n False by (simp add: near_def y_def t_def)
    have x: "x = y * 2 ^ j" by (simp add: y_def)
    have K: "(2::real) ^ k = real (2 ^ i) * 2 ^ j" by (simp add: i power_add)
    have t: "2 ^ k \<le> s \<longleftrightarrow> 2 ^ i \<le> t"
      by (simp add: t_def i power_add less_eq_div_iff_mult_less_eq mult.commute)
    have "0 \<le> y" using fl by linarith
    moreover have "2 ^ i \<le> t \<Longrightarrow> real (2 ^ i) \<le> y" using fl by linarith
    moreover have "t < 2 ^ i \<Longrightarrow> y < real (2 ^ i)" using fl by linarith
    ultimately show ?thesis using t unfolding x K by (auto simp: not_le)
  qed
  then show "2 ^ k \<le> s \<Longrightarrow> 2 ^ k \<le> x" and "s < 2 ^ k \<Longrightarrow> x < 2 ^ k" and "0 \<le> x" by simp_all
qed

lemma near_between:
  assumes x: "2 ^ j * real t < x" "x < 2 ^ j * (real t + 1)" and s: "s = 2 ^ j * t + u" "0 < u" "u < 2 ^ j"
  shows "near j x s"
proof -
  have b: "real t < x / 2 ^ j" "x / 2 ^ j < real t + 1" using x by (simp_all add: field_simps)
  have "\<lfloor>x / 2 ^ j\<rfloor> = int t" using b by (intro floor_eq) simp_all
  moreover have "x / 2 ^ j \<notin> \<int>"
  proof
    assume "x / 2 ^ j \<in> \<int>"
    then obtain k where k: "x / 2 ^ j = of_int k" by (metis Ints_cases)
    then have "int t < k" "k < int t + 1" using b by linarith+
    then show False by simp
  qed
  moreover have "s div 2 ^ j = t" "s mod 2 ^ j = u" using s by simp_all
  ultimately show ?thesis using s(2) by (simp add: near_def)
qed

lemma stk_near:
  assumes "stk j x s"
  shows "near (Suc j) x s"
proof (cases "x = real s")
  case False
  from stk_scale [OF assms this] obtain t where t: "s = 2 ^ j * t" "odd t" "stk 0 (x / 2 ^ j) t" by blast
  obtain u where u: "t = 2 * u + 1" using t(2) by (auto elim: oddE)
  then have b: "real (2 * u) < x / 2 ^ j" "x / 2 ^ j < real (2 * u + 2)" using t(3) by (simp_all only: odd_near_iff)
  have y: "x / 2 ^ Suc j = x / 2 ^ j / 2" by simp
  have fl: "\<lfloor>x / 2 ^ Suc j\<rfloor> = int u" unfolding y floor_eq_iff using b by (simp add: field_simps)
  have "x / 2 ^ Suc j \<notin> \<int>"
  proof
    assume "x / 2 ^ Suc j \<in> \<int>"
    then have "x / 2 ^ Suc j = of_int \<lfloor>x / 2 ^ Suc j\<rfloor>" by (metis Ints_cases floor_of_int)
    then have "x / 2 ^ j / 2 = real u" unfolding fl unfolding y by simp
    then show False using b by simp
  qed
  moreover have "s div 2 ^ Suc j = u" "s mod 2 ^ Suc j = 2 ^ j"
    by (simp_all add: t(1) u distrib_left flip: mult.assoc) (simp_all add: mult.commute mult.left_commute)
  ultimately show ?thesis using fl by (simp add: near_def)
qed simp

lemma floor_div_pow_step: "\<lfloor>y :: real\<rfloor> = int q \<Longrightarrow> \<lfloor>y / 2 ^ i\<rfloor> = int (q div 2 ^ i)"
  using floor_divide_real_eq_div [of "2 ^ i" y] by (simp add: zdiv_int)

lemma near_jam:
  assumes n: "near j x s"
  shows "\<exists>i \<le> max j 1. near i (x / 2 ^ c) (jam c s)"
proof (cases "x = real s")
  case True
  then show ?thesis using stk_near [OF stk_jam_nat [of s c]] by (intro exI [of _ 1]) simp
next
  case False
  with n have f: "\<lfloor>x / 2 ^ j\<rfloor> = int (s div 2 ^ j)" "x / 2 ^ j \<notin> \<int>" "s mod 2 ^ j \<noteq> 0"
    by (simp_all add: near_def)
  define q where "q = s div 2 ^ c"
  show ?thesis
  proof (cases "j \<le> c")
    case True
    then obtain i where i: "c = j + i" using le_Suc_ex by blast
    have "\<lfloor>x / 2 ^ c\<rfloor> = int q"
      using floor_div_pow_step [OF f(1), of i] by (simp add: i power_add q_def div_mult2_eq)
    moreover have "x / 2 ^ c \<notin> \<int>"
    proof
      assume "x / 2 ^ c \<in> \<int>"
      then have "x / 2 ^ c * 2 ^ i \<in> \<int>" by (intro Ints_mult) simp_all
      then show False using f(2) by (simp add: i power_add)
    qed
    moreover have "s mod 2 ^ c \<noteq> 0"
      using f(3) True by (metis dvd_imp_mod_0 dvd_trans le_imp_power_dvd mod_0_imp_dvd)
    ultimately have "stk 0 (x / 2 ^ c) (jam c s)"
      using stk_jam_of [of "x / 2 ^ c" q] by (simp add: jam_def Let_def q_def)
    then show ?thesis using stk_near by (intro exI [of _ 1]) fastforce
  next
    case False
    then obtain i where i: "j = c + Suc i" using less_imp_Suc_add [of c j] by auto
    have q: "q div 2 ^ Suc i = s div 2 ^ j" unfolding q_def i power_add by (simp only: div_mult2_eq)
    have lost: "q mod 2 ^ Suc i = 0 \<Longrightarrow> s mod 2 ^ c \<noteq> 0"
    proof
      assume "q mod 2 ^ Suc i = 0" "s mod 2 ^ c = 0"
      then have "2 ^ Suc i dvd q" "s = 2 ^ c * q" using mult_div_mod_eq [of "2 ^ c" s] by (auto simp: q_def)
      then have "2 ^ j dvd s" unfolding i power_add by (simp only: mult_dvd_mono dvd_refl)
      then show False using f(3) by simp
    qed
    have even: "even (q mod 2 ^ Suc i) \<longleftrightarrow> even q" by (simp add: mod_mult2_eq)
    have s': "jam c s div 2 ^ Suc i = q div 2 ^ Suc i \<and> jam c s mod 2 ^ Suc i \<noteq> 0"
    proof (cases "s mod 2 ^ c \<noteq> 0 \<and> even q")
      case True
      then have "jam c s = Suc q" by (simp add: jam_def Let_def q_def)
      moreover have "Suc q div 2 ^ Suc i = q div 2 ^ Suc i" using True by (simp add: div_mult2_eq)
      moreover have "odd (Suc q mod 2 ^ Suc i)" using True by (simp add: mod_mult2_eq)
      ultimately show ?thesis by (auto intro: ccontr)
    next
      case F: False
      then have "jam c s = q" by (auto simp: jam_def Let_def q_def)
      moreover have "q mod 2 ^ Suc i \<noteq> 0" using F lost even by (metis even_zero)
      ultimately show ?thesis by simp
    qed
    moreover have "x / 2 ^ c / 2 ^ Suc i = x / 2 ^ j" by (simp add: i power_add)
    ultimately have "near (Suc i) (x / 2 ^ c) (jam c s)"
      using f q by (simp only: near_def) simp
    then show ?thesis using i by (intro exI [of _ "Suc i"]) simp
  qed
qed

subsection \<open>Rounding and packing on natural numbers\<close>

definition rp_overflow :: "nat \<Rightarrow> nat \<Rightarrow> nat \<Rightarrow> rmode \<Rightarrow> bool \<Rightarrow> int \<Rightarrow> nat \<Rightarrow> bool" where
  "rp_overflow fb ebit rb m neg e n \<longleftrightarrow>
     2 ^ ebit - 3 < e \<or> e = 2 ^ ebit - 3 \<and> 2 ^ (Suc fb + rb) \<le> n + rinc m neg rb"

definition rp_sig :: "nat \<Rightarrow> rmode \<Rightarrow> bool \<Rightarrow> int \<Rightarrow> nat \<Rightarrow> nat" where
  "rp_sig rb m neg e n = nrnd m neg (jam (nat (- e)) n) rb"

definition inf_magn :: "nat \<Rightarrow> nat \<Rightarrow> nat" where
  "inf_magn fb ebit = (2 ^ ebit - 1) * 2 ^ fb"

definition rp_magn :: "nat \<Rightarrow> nat \<Rightarrow> nat \<Rightarrow> rmode \<Rightarrow> bool \<Rightarrow> int \<Rightarrow> nat \<Rightarrow> nat" where
  "rp_magn fb ebit rb m neg e n =
     (if rp_overflow fb ebit rb m neg e n then inf_magn fb ebit - of_bool (toward_zero m neg)
      else (if rp_sig rb m neg e n = 0 then 0 else nat e * 2 ^ fb) + rp_sig rb m neg e n)"

subsection \<open>The specification of IEEE 754 and the refinement\<close>

definition least_exp :: "nat \<Rightarrow> nat \<Rightarrow> int" where
  "least_exp fb ebit = 2 - 2 ^ (ebit - 1) - int fb"

definition ieee_rounds :: "nat \<Rightarrow> nat \<Rightarrow> rmode \<Rightarrow> bool \<Rightarrow> real \<Rightarrow> nat \<Rightarrow> bool" where
  "ieee_rounds fb ebit m neg X M \<longleftrightarrow>
     (\<exists>z \<ge> 0. correctly_rounded (Suc fb) (least_exp fb ebit) m (with_sign neg X) (with_sign neg z) \<and>
        (if z < 2 powi (2 ^ (ebit - 1))
         then M < inf_magn fb ebit \<and> mval fb (least_exp fb ebit) M = z
         else M = inf_magn fb ebit - of_bool (toward_zero m neg)))"

lemma inf_magn_value:
  assumes "1 < ebit"
  shows "mval fb (least_exp fb ebit) (inf_magn fb ebit) = 2 powi (2 ^ (ebit - 1))"
proof -
  define h :: nat where "h = 2 ^ (ebit - 1)"
  have h: "2 ^ ebit = 2 * h" "1 \<le> h" "int h = 2 ^ (ebit - 1)"
    using assms by (cases ebit; simp add: h_def)+
  have "inf_magn fb ebit = Suc (2 * h - 2) * 2 ^ fb + 0"
  proof -
    have "2 * h - 1 = Suc (2 * h - 2)" using h(2) by simp
    then show ?thesis by (simp only: inf_magn_def h(1) add_0_right)
  qed
  then have "mval fb (least_exp fb ebit) (inf_magn fb ebit) =
      real (0 + 2 ^ fb) * 2 powi (least_exp fb ebit + int (2 * h - 2))"
    by (simp only: mval_normal zero_less_power zero_less_numeral)
  also have "least_exp fb ebit + int (2 * h - 2) = int h - int fb"
    using h(2) unfolding least_exp_def h(3) [symmetric] by linarith
  also have "real (0 + 2 ^ fb) * 2 powi (int h - int fb) = 2 powi (int h)"
    using powi_split [of "int fb" "int h - int fb"] by (simp add: powi_nat)
  finally show ?thesis by (simp only: h(3))
qed

lemma jam_less:
  assumes "n < 2 ^ k" and "0 < k"
  shows "jam c n < 2 ^ k"
proof (cases c)
  case (Suc i)
  obtain l where l: "k = Suc l" using assms(2) gr0_conv_Suc by blast
  have "n < 2 ^ l * 2 ^ c"
  proof -
    have "(2::nat) ^ l * 2 \<le> 2 ^ l * 2 ^ c" using Suc by simp
    moreover have "n < 2 ^ l * 2" using assms(1) l by simp
    ultimately show ?thesis by (rule less_le_trans [rotated])
  qed
  then have "n div 2 ^ c < 2 ^ l" by (rule less_mult_imp_div_less)
  then have "jam c n \<le> 2 ^ l" by (simp add: jam_def Let_def of_bool_def)
  also have "(2::nat) ^ l < 2 ^ k" by (simp add: l)
  finally show ?thesis .
qed (simp add: assms)

text \<open>Whether the packed magnitude reaches infinity is a question on natural numbers.\<close>

lemma rp_overflow_iff:
  assumes w: "1 < ebit" "0 < rb" and n: "n < 2 ^ (Suc fb + rb)" and norm: "2 ^ (fb + rb) \<le> n \<or> e \<le> 0"
  shows "rp_overflow fb ebit rb m neg e n \<longleftrightarrow> inf_magn fb ebit \<le> nat e * 2 ^ fb + rp_sig rb m neg e n"
proof -
  define h :: nat where "h = 2 ^ ebit - 3"
  define N where "N = rp_sig rb m neg e n"
  have "(2::nat) ^ 2 \<le> 2 ^ ebit" using w(1) by (intro power_increasing) simp_all
  then have h: "2 ^ ebit = h + 3" "1 \<le> h" by (simp_all add: h_def)
  have ih: "int h = 2 ^ ebit - 3" using h(1) by (metis add_diff_cancel_right' of_nat_add of_nat_numeral of_nat_power)
  have I: "inf_magn fb ebit = h * 2 ^ fb + 2 * 2 ^ fb" by (simp add: inf_magn_def h(1) algebra_simps)
  have N: "N \<le> 2 * 2 ^ fb"
    unfolding N_def rp_sig_def using nrnd_le [of "jam (nat (- e)) n" "Suc fb" rb] jam_less [OF n] by simp
  have N1: "2 ^ fb \<le> N" if "0 < e"
    unfolding N_def rp_sig_def using that norm nrnd_ge [of fb rb n] by simp
  have top: "e = int h \<Longrightarrow> 2 ^ (Suc fb + rb) \<le> n + rinc m neg rb \<longleftrightarrow> N = 2 * 2 ^ fb"
    unfolding N_def rp_sig_def using nrnd_top_iff [OF n w(2), of m neg] h(2) by simp
  consider "nat e < h" | "e = int h" | "int h < e" using h(2) by linarith
  then show ?thesis
  proof cases
    case 1
    then have "Suc (nat e) * 2 ^ fb \<le> h * 2 ^ fb" by (intro mult_le_mono1) simp
    moreover have "(0::nat) < 2 ^ fb" by simp
    ultimately have "nat e * 2 ^ fb + N < h * 2 ^ fb + 2 * 2 ^ fb" using N unfolding mult_Suc by linarith
    moreover have "\<not> rp_overflow fb ebit rb m neg e n" using 1 ih h(2) by (auto simp: rp_overflow_def)
    ultimately show ?thesis by (simp add: I N_def)
  next
    case 2
    then have "rp_overflow fb ebit rb m neg e n \<longleftrightarrow> N = 2 * 2 ^ fb"
      using top ih by (simp add: rp_overflow_def)
    then show ?thesis using 2 N unfolding I N_def by auto
  next
    case 3
    then have "Suc h * 2 ^ fb \<le> nat e * 2 ^ fb" by (intro mult_le_mono1) simp
    then have "h * 2 ^ fb + 2 * 2 ^ fb \<le> nat e * 2 ^ fb + N" using 3 N1 h(2) by simp
    moreover have "rp_overflow fb ebit rb m neg e n" using 3 ih by (simp add: rp_overflow_def)
    ultimately show ?thesis by (simp add: I N_def)
  qed
qed

lemma rp_round:
  assumes w: "0 < fb" "j + 1 \<le> rb" "2 \<le> rb" and st: "near j x n" and n: "n < 2 ^ (Suc fb + rb)"
    and norm: "2 ^ (fb + rb) \<le> n \<or> e \<le> 0" and X: "X = x * 2 powi (qmin + e - int rb)"
  shows "correctly_rounded (Suc fb) qmin m (with_sign neg X)
           (with_sign neg (mval fb qmin (nat e * 2 ^ fb + rp_sig rb m neg e n)))"
    and "mval fb qmin (nat e * 2 ^ fb + rp_sig rb m neg e n) = X \<longleftrightarrow> jam (nat (- e)) n mod 2 ^ rb = 0"
proof -
  define c E s' x' where "c = nat (- e)" and "E = nat e" and "s' = jam c n" and "x' = x / 2 ^ c"
  define q where "q = qmin + int E"
  define N where "N = nrnd m neg s' rb"
  have e: "e = int E - int c" by (simp add: E_def c_def)
  obtain i where "i \<le> max j 1" "near i x' s'" using near_jam [OF st, of c] by (auto simp: s'_def x'_def)
  then have i: "i + 1 \<le> rb" "near i x' s'" using w(2,3) by simp_all
  have s': "s' < 2 ^ (Suc fb + rb)" using jam_less [OF n] by (simp add: s'_def)
  have x': "0 \<le> x'" "x' < 2 ^ (Suc fb + rb)"
    using near_bounds(3) [OF i(2) order_refl] near_bounds(2) [OF i(2) _ s'] i(1) by simp_all
  have "qmin + e - int rb = (q - int rb) + - int c" by (simp add: e q_def)
  then have Xx: "X = x' * 2 powi (q - int rb)"
    by (simp only: X powi_split x'_def) (simp add: power_int_minus powi_nat field_simps)
  have Xq: "X / 2 powi q = x' / 2 ^ rb"
    using powi_split [of q "- int rb"] by (simp add: Xx power_int_minus powi_nat field_simps)
  have rN: "rnd m neg (X / 2 powi q) = int N"
    unfolding Xq N_def by (rule rnd_near(1) [OF i(2,1)])
  have N: "N \<le> 2 ^ Suc fb" unfolding N_def by (rule nrnd_le [OF s'])
  have E1: "c = 0 \<and> s' = n \<and> x' = x \<and> 2 ^ (fb + rb) \<le> n" if "0 < E"
    using that norm by (simp add: E_def c_def s'_def x'_def)
  have N1: "E = 0 \<or> 2 ^ fb \<le> N" unfolding N_def using E1 nrnd_ge [of fb rb n m neg] by (cases "0 < E") simp_all
  have z: "mval fb qmin (nat e * 2 ^ fb + rp_sig rb m neg e n) = of_int (int N) * 2 powi q"
    using mval_pack [OF N N1, of qmin] by (simp add: E_def N_def s'_def c_def rp_sig_def q_def)
  have lo: "q = qmin \<or> 2 powi (q + int (Suc fb) - 1) \<le> X"
  proof (cases "0 < E")
    case True
    then have "2 ^ (fb + rb) \<le> x'" using E1 near_bounds(1) [OF i(2), of "fb + rb"] i(1) by simp
    then have "2 ^ (fb + rb) * 2 powi (q - int rb) \<le> X" by (simp add: Xx)
    moreover have "2 ^ (fb + rb) * 2 powi (q - int rb) = (2::real) powi (q + int (Suc fb) - 1)"
      unfolding powi_nat [symmetric] powi_split [symmetric] by (simp add: algebra_simps)
    ultimately show ?thesis by simp
  qed (simp add: q_def)
  have hi: "X < 2 powi (q + int (Suc fb))"
  proof -
    have "X < 2 ^ (Suc fb + rb) * 2 powi (q - int rb)" using x'(2) by (simp add: Xx)
    also have "\<dots> = 2 powi (q + int (Suc fb))"
      unfolding powi_nat [symmetric] powi_split [symmetric] by (simp add: algebra_simps)
    finally show ?thesis .
  qed
  have "0 \<le> X" using x'(1) by (simp add: Xx)
  from rnd_correct [OF _ this _ hi lo, of m neg] w(1)
  show "correctly_rounded (Suc fb) qmin m (with_sign neg X)
      (with_sign neg (mval fb qmin (nat e * 2 ^ fb + rp_sig rb m neg e n)))"
    unfolding z rN by (simp add: q_def)
  have "s' mod 2 ^ rb = 0 \<longleftrightarrow> X / 2 powi q \<in> \<int>"
    unfolding Xq using rnd_near(2) [OF i(2,1)] by simp
  also have "\<dots> \<longleftrightarrow> of_int (int N) = X / 2 powi q"
    unfolding rN [symmetric] by (metis Ints_cases Ints_of_int rnd_of_int)
  also have "\<dots> \<longleftrightarrow> of_int (int N) * 2 powi q = X" by (simp add: field_simps)
  finally show "mval fb qmin (nat e * 2 ^ fb + rp_sig rb m neg e n) = X \<longleftrightarrow> jam (nat (- e)) n mod 2 ^ rb = 0"
    unfolding z by (simp add: s'_def c_def)
qed

theorem rp_ieee:
  assumes w: "0 < fb" "1 < ebit" "j + 1 \<le> rb" "2 \<le> rb" and st: "near j x n" and n: "n < 2 ^ (Suc fb + rb)"
    and norm: "2 ^ (fb + rb) \<le> n \<or> e \<le> 0" and X: "X = x * 2 powi (least_exp fb ebit + e - int rb)"
  shows "ieee_rounds fb ebit m neg X (rp_magn fb ebit rb m neg e n)"
proof -
  define N where "N = rp_sig rb m neg e n"
  define M where "M = nat e * 2 ^ fb + N"
  have ov: "rp_overflow fb ebit rb m neg e n \<longleftrightarrow> inf_magn fb ebit \<le> M"
    unfolding M_def N_def using w n norm by (intro rp_overflow_iff) simp_all
  have "(if N = 0 then 0 else nat e * 2 ^ fb) + N = M" if "\<not> inf_magn fb ebit \<le> M"
  proof -
    have "0 < N" if "0 < e"
    proof -
      have "2 ^ fb \<le> N"
        unfolding N_def rp_sig_def using that norm nrnd_ge [of fb rb n] by simp
      then show ?thesis by (rule less_le_trans [rotated]) simp
    qed
    then show ?thesis by (cases "0 < e") (simp_all add: M_def)
  qed
  then have rp: "rp_magn fb ebit rb m neg e n =
      (if inf_magn fb ebit \<le> M then inf_magn fb ebit - of_bool (toward_zero m neg) else M)"
    by (simp add: rp_magn_def ov N_def)
  have "mval fb (least_exp fb ebit) M < 2 powi (2 ^ (ebit - 1)) \<longleftrightarrow> M < inf_magn fb ebit"
    by (simp only: inf_magn_value [OF w(2), of fb, symmetric] mval_less_iff)
  then show ?thesis
    unfolding ieee_rounds_def rp
    by (intro exI [of _ "mval fb (least_exp fb ebit) M"])
      (use rp_round(1) [OF w(1,3,4) st n norm X] in \<open>auto simp: M_def N_def\<close>)
qed

end
