(* ===== verification/SoftFloat_Values.thy ===== *)
theory SoftFloat_Values
  imports Round_Pack_Spec
begin

text \<open>
  The value, sign and class of the two formats' bit patterns, and how the macros of
  \<^verbatim>\<open>internals.h\<close> and \<^verbatim>\<open>specialize.h\<close> read them.  \<open>f32_val\<close> and \<open>f64_val\<close> are total: a NaN has a value
  too, which no theorem uses, and infinity has the value of the next power of two after the largest
  finite number, so that the order of the values is the order of the extended reals.
\<close>

subsection \<open>Values\<close>

definition f32_magn :: "u32 \<Rightarrow> nat" where "f32_magn a = unat a mod 2 ^ 31"
definition f32_sign :: "u32 \<Rightarrow> bool" where "f32_sign a \<longleftrightarrow> 2 ^ 31 \<le> unat a"
definition f32_val :: "u32 \<Rightarrow> real" where "f32_val a = with_sign (f32_sign a) (mval 23 (- 149) (f32_magn a))"
definition f32_isNaN :: "u32 \<Rightarrow> bool" where "f32_isNaN a \<longleftrightarrow> inf_magn 23 8 < f32_magn a"
definition f32_isInf :: "u32 \<Rightarrow> bool" where "f32_isInf a \<longleftrightarrow> f32_magn a = inf_magn 23 8"
definition f32_isFinite :: "u32 \<Rightarrow> bool" where "f32_isFinite a \<longleftrightarrow> f32_magn a < inf_magn 23 8"
definition f32_isSNaN :: "u32 \<Rightarrow> bool" where "f32_isSNaN a \<longleftrightarrow> f32_isNaN a \<and> f32_magn a < inf_magn 23 8 + 2 ^ 22"

definition f64_magn :: "u64 \<Rightarrow> nat" where "f64_magn a = unat a mod 2 ^ 63"
definition f64_sign :: "u64 \<Rightarrow> bool" where "f64_sign a \<longleftrightarrow> 2 ^ 63 \<le> unat a"
definition f64_val :: "u64 \<Rightarrow> real" where "f64_val a = with_sign (f64_sign a) (mval 52 (- 1074) (f64_magn a))"
definition f64_isNaN :: "u64 \<Rightarrow> bool" where "f64_isNaN a \<longleftrightarrow> inf_magn 52 11 < f64_magn a"
definition f64_isInf :: "u64 \<Rightarrow> bool" where "f64_isInf a \<longleftrightarrow> f64_magn a = inf_magn 52 11"
definition f64_isFinite :: "u64 \<Rightarrow> bool" where "f64_isFinite a \<longleftrightarrow> f64_magn a < inf_magn 52 11"
definition f64_isSNaN :: "u64 \<Rightarrow> bool" where "f64_isSNaN a \<longleftrightarrow> f64_isNaN a \<and> f64_magn a < inf_magn 52 11 + 2 ^ 51"

lemma least_exp_f32 [simp]: "least_exp 23 8 = - 149"
  by (simp add: least_exp_def)

lemma least_exp_f64 [simp]: "least_exp 52 11 = - 1074"
  by (simp add: least_exp_def)

lemma with_sign_eq_0_iff [simp]: "with_sign neg x = 0 \<longleftrightarrow> x = 0"
  by (simp add: with_sign_def)

lemma with_sign_le_iff:
  assumes "0 \<le> x" "0 \<le> y"
  shows "with_sign s x \<le> with_sign t y \<longleftrightarrow>
    (if s \<noteq> t then s \<or> x = 0 \<and> y = 0 else if s then y \<le> x else x \<le> y)"
  using assms by (auto simp: with_sign_def)

subsection \<open>What the locale of the macros says of values and classes\<close>

context float_format
begin

definition pval :: "u64 \<Rightarrow> real" where
  "pval a = with_sign (signUI a) (mval fb (least_exp fb ebit) (magn a))"

lemma mval_magn_0_iff [simp]: "mval fb q (magn a) = 0 \<longleftrightarrow> magn a = 0"
  using mval_eq_iff [of fb q "magn a" 0] by simp

lemma order_of_patterns:
  assumes "pattern a" "pattern b"
  shows "signUI a = signUI b \<Longrightarrow> a < b \<longleftrightarrow> magn a < magn b" and "signUI a = signUI b \<Longrightarrow> a = b \<longleftrightarrow> magn a = magn b"
  using pattern_split [OF assms(1)] pattern_split [OF assms(2)] pattern_eqI [OF assms]
  by (auto simp: word_less_nat_alt)

text \<open>The comparison expression of \<^verbatim>\<open>f32_le.c\<close> and \<^verbatim>\<open>f64_le.c\<close> and those of the other comparisons.\<close>

lemma le_patterns:
  assumes "pattern a" "pattern b"
  shows "pval a \<le> pval b \<longleftrightarrow>
    (if signUI a \<noteq> signUI b then signUI a \<or> magn a = 0 \<and> magn b = 0
     else a = b \<or> (signUI a \<noteq> (a < b)))"
  unfolding pval_def using order_of_patterns [OF assms]
  by (simp add: with_sign_le_iff) (metis linorder_neqE_nat not_le less_le)

lemma eq_patterns:
  assumes "pattern a" "pattern b"
  shows "pval a = pval b \<longleftrightarrow> a = b \<or> magn a = 0 \<and> magn b = 0"
proof -
  have "signUI a = signUI b \<Longrightarrow> a = b \<longleftrightarrow> magn a = magn b" by (rule order_of_patterns(2) [OF assms])
  moreover have "mval fb q (magn a) = - mval fb q (magn b) \<longleftrightarrow> magn a = 0 \<and> magn b = 0"
    "- mval fb q (magn a) = mval fb q (magn b) \<longleftrightarrow> magn a = 0 \<and> magn b = 0" for q
    using mval_nonneg [of fb q "magn a"] mval_nonneg [of fb q "magn b"]
      mval_magn_0_iff [of q a] mval_magn_0_iff [of q b] by linarith+
  ultimately show ?thesis
    unfolding pval_def by (auto simp: with_sign_def)
qed

lemma magn_class:
  shows "expUI a = 2 ^ ebit - 1 \<and> fracUI a \<noteq> 0 \<longleftrightarrow> inf_magn fb ebit < magn a"
    and "expUI a = 2 ^ ebit - 1 \<and> fracUI a = 0 \<longleftrightarrow> magn a = inf_magn fb ebit"
    and "expUI a < 2 ^ ebit - 1 \<longleftrightarrow> magn a < inf_magn fb ebit"
proof -
  define E where "E = nat (expUI a)"
  have E: "expUI a = int E" using expUI_bounds(1) by (simp add: E_def)
  have "int E < int (2 ^ ebit)" using expUI_bounds(2) [of a] by (simp add: E)
  then have le: "E \<le> 2 ^ ebit - 1" by (simp only: of_nat_less_iff)
  have one: "(1::nat) \<le> 2 ^ ebit" by simp
  have eq: "expUI a = 2 ^ ebit - 1 \<longleftrightarrow> E = 2 ^ ebit - 1" "expUI a < 2 ^ ebit - 1 \<longleftrightarrow> E < 2 ^ ebit - 1"
    unfolding E by (simp_all add: of_nat_diff flip: of_nat_eq_iff [where 'a = int] of_nat_less_iff [where 'a = int])
  have m: "magn a = E * 2 ^ fb + unat (fracUI a)" by (simp add: magn_fields E_def)
  have lt: "E < 2 ^ ebit - 1 \<Longrightarrow> magn a < inf_magn fb ebit"
  proof -
    assume "E < 2 ^ ebit - 1"
    then have "Suc E * 2 ^ fb \<le> (2 ^ ebit - 1) * 2 ^ fb" by (intro mult_le_mono1) simp
    then show "magn a < inf_magn fb ebit" using fracUI_less [of a] by (simp add: m inf_magn_def)
  qed
  have top: "E = 2 ^ ebit - 1 \<Longrightarrow> magn a = inf_magn fb ebit + unat (fracUI a)"
    by (simp add: m inf_magn_def)
  have f: "fracUI a = 0 \<longleftrightarrow> unat (fracUI a) = 0" by (simp add: unat_eq_zero)
  consider "E < 2 ^ ebit - 1" | "E = 2 ^ ebit - 1" using le by linarith
  then show "expUI a = 2 ^ ebit - 1 \<and> fracUI a \<noteq> 0 \<longleftrightarrow> inf_magn fb ebit < magn a"
    and "expUI a = 2 ^ ebit - 1 \<and> fracUI a = 0 \<longleftrightarrow> magn a = inf_magn fb ebit"
    and "expUI a < 2 ^ ebit - 1 \<longleftrightarrow> magn a < inf_magn fb ebit"
    by (cases; use lt top f eq in simp)+
qed

end

subsection \<open>The 32-bit macros\<close>

lemma unat_ucast_32_64 [simp]: "unat (ucast a :: u64) = unat a" for a :: u32
  using unat_lt_pow [of a] by (simp add: unat_ucast_mod)

lemma f32_pattern [simp]: "f32.pattern (ucast (a :: u32))"
  using unat_lt_pow [of a] by (simp add: f32.pattern_def)

lemma f32_magn_ucast [simp]: "f32.magn (ucast (a :: u32)) = f32_magn a"
  by (simp add: f32.magn_def f32_magn_def)

lemma f32_sign_ucast [simp]: "signF32UI (ucast (a :: u32)) = f32_sign a"
  using unat_lt_pow [of a] by (simp add: signF32UI_iff f32_sign_def)

lemma f32_pval_ucast [simp]: "f32.pval (ucast (a :: u32)) = f32_val a"
  by (simp add: f32.pval_def f32_val_def)

lemma f32_class_exp:
  shows "expF32UI (ucast a) = 0xFF \<and> fracF32UI (ucast a) \<noteq> 0 \<longleftrightarrow> f32_isNaN a"
    and "expF32UI (ucast a) = 0xFF \<and> fracF32UI (ucast a) = 0 \<longleftrightarrow> f32_isInf a"
    and "expF32UI (ucast a) < 0xFF \<longleftrightarrow> f32_isFinite a"
  using f32.magn_class [of "ucast a"] by (simp_all add: f32_isNaN_def f32_isInf_def f32_isFinite_def)

lemma unat_and_shifted_mask:
  fixes w :: "'a::len word"
  assumes "n + k \<le> LENGTH('a)"
  shows "unat (w AND push_bit n (mask k)) = unat w div 2 ^ n mod 2 ^ k * 2 ^ n"
proof -
  have "w AND push_bit n (mask k) = push_bit n (take_bit k (drop_bit n w))"
    by (rule bit_word_eqI) (auto simp: bit_simps)
  moreover have "unat w div 2 ^ n mod 2 ^ k * 2 ^ n < 2 ^ LENGTH('a)"
  proof -
    have "unat w div 2 ^ n mod 2 ^ k * 2 ^ n < 2 ^ k * 2 ^ n" by simp
    also have "(2::nat) ^ k * 2 ^ n \<le> 2 ^ LENGTH('a)"
      using assms by (simp flip: power_add add: add.commute)
    finally show ?thesis .
  qed
  moreover have "unat (take_bit k (drop_bit n w)) = unat w div 2 ^ n mod 2 ^ k"
    by (simp only: unat_take_bit unat_shr)
  ultimately show ?thesis
    using unat_shl_less [of "take_bit k (drop_bit n w)" n] by simp
qed

lemma isNaNF32UI_iff: "isNaNF32UI a \<longleftrightarrow> expF32UI a = 0xFF \<and> fracF32UI a \<noteq> 0"
proof -
  have "unat (a AND 0x7F800000) = unat a div 2 ^ 23 mod 2 ^ 8 * 2 ^ 23"
    using unat_and_shifted_mask [of 23 8 "a"]
    by (simp add: mask_eq_exp_minus_1 push_bit_eq_mult)
  then have "a AND 0x7F800000 = 0x7F800000 \<longleftrightarrow> unat a div 2 ^ 23 mod 2 ^ 8 = 255"
    by (simp add: word_unat_eq_iff)
  then show ?thesis by (auto simp: isNaNF32UI_def fracF32UI_def expF32UI_eq)
qed

lemma isNaNF32UI_ucast [simp]: "isNaNF32UI (ucast a) = f32_isNaN a"
  by (simp only: isNaNF32UI_iff f32_class_exp)

lemma isSigNaNF32UI_ucast [simp]: "softfloat_isSigNaNF32UI (ucast a) = f32_isSNaN a"
proof -
  define n where "n = unat a"
  have "unat ((ucast a :: u64) AND 0x7FC00000) = n div 2 ^ 22 mod 2 ^ 9 * 2 ^ 22"
    using unat_and_shifted_mask [of 22 9 "ucast a :: u64"]
    by (simp add: mask_eq_exp_minus_1 push_bit_eq_mult n_def)
  then have 1: "(ucast a :: u64) AND 0x7FC00000 = 0x7F800000 \<longleftrightarrow> n div 2 ^ 22 mod 2 ^ 9 = 510"
    by (simp add: word_unat_eq_iff)
  have "unat ((ucast a :: u64) AND 0x003FFFFF) = n mod 2 ^ 22"
    using unat_and_mask [of "ucast a :: u64" 22] by (simp add: mask_eq_exp_minus_1 n_def)
  then have 2: "(ucast a :: u64) AND 0x003FFFFF = 0 \<longleftrightarrow> n mod 2 ^ 22 = 0"
    by (metis unat_eq_zero)
  have "n mod 2 ^ 31 = n mod (2 ^ 22 * 2 ^ 9)" by simp
  then have "f32_magn a = (n div 2 ^ 22 mod 2 ^ 9) * 2 ^ 22 + n mod 2 ^ 22"
    by (simp only: f32_magn_def n_def mod_mult2_eq) simp
  moreover have "n mod 2 ^ 22 < 2 ^ 22" by simp
  moreover have "(q = 510 \<and> r \<noteq> 0) \<longleftrightarrow> 510 * 2 ^ 22 < q * 2 ^ 22 + r \<and> q * 2 ^ 22 + r < 511 * 2 ^ 22"
    if "r < 2 ^ 22" for q r :: nat
    using that by (cases q "510 :: nat" rule: linorder_cases) simp_all
  ultimately show ?thesis
    unfolding softfloat_isSigNaNF32UI_def f32_isSNaN_def f32_isNaN_def inf_magn_def 1 2
    by simp
qed

text \<open>The value of a finite number by its fields.\<close>

lemma f32_val_fields:
  "f32_val a = with_sign (f32_sign a)
     (if expF32UI (ucast a) = 0 then real (unat (fracF32UI (ucast a))) * 2 powi (- 149)
      else real (unat (fracF32UI (ucast a)) + 2 ^ 23) * 2 powi (expF32UI (ucast a) - 150))"
  using f32.magn_value [of "- 149" "ucast a"] by (simp add: f32_val_def algebra_simps)

lemma f32_zero_iff: "f32_val a = 0 \<longleftrightarrow> f32_magn a = 0"
  using mval_eq_iff [of 23 "- 149" "f32_magn a" 0] by (simp add: f32_val_def)

subsection \<open>The 64-bit macros\<close>

lemma f64_pattern [simp]: "f64.pattern a"
  using unat_lt_pow [of a] by (simp add: f64.pattern_def)

lemma f64_magn_eq [simp]: "f64.magn a = f64_magn a"
  by (simp add: f64.magn_def f64_magn_def)

lemma f64_magn_fields: "f64_magn a = nat (expF64UI a) * 2 ^ 52 + unat (fracF64UI a)"
  using f64.magn_fields [of a] by simp

lemma f64_sign_eq [simp]: "signF64UI a = f64_sign a"
  by (simp add: signF64UI_iff f64_sign_def)

lemma f64_pval_eq [simp]: "f64.pval a = f64_val a"
  by (simp add: f64.pval_def f64_val_def)

lemma f64_class_exp:
  shows "expF64UI a = 0x7FF \<and> fracF64UI a \<noteq> 0 \<longleftrightarrow> f64_isNaN a"
    and "expF64UI a = 0x7FF \<and> fracF64UI a = 0 \<longleftrightarrow> f64_isInf a"
    and "expF64UI a < 0x7FF \<longleftrightarrow> f64_isFinite a"
  using f64.magn_class [of a] by (simp_all add: f64_isNaN_def f64_isInf_def f64_isFinite_def)

lemma isNaNF64UI_iff: "isNaNF64UI a \<longleftrightarrow> expF64UI a = 0x7FF \<and> fracF64UI a \<noteq> 0"
proof -
  have "unat (a AND 0x7FF0000000000000) = unat a div 2 ^ 52 mod 2 ^ 11 * 2 ^ 52"
    using unat_and_shifted_mask [of 52 11 "a"]
    by (simp add: mask_eq_exp_minus_1 push_bit_eq_mult)
  then have "a AND 0x7FF0000000000000 = 0x7FF0000000000000 \<longleftrightarrow> unat a div 2 ^ 52 mod 2 ^ 11 = 2047"
    by (simp add: word_unat_eq_iff)
  then show ?thesis by (auto simp: isNaNF64UI_def fracF64UI_def expF64UI_eq)
qed

lemma isNaNF64UI_eq [simp]: "isNaNF64UI a = f64_isNaN a"
  by (simp only: isNaNF64UI_iff f64_class_exp)

lemma isSigNaNF64UI_eq [simp]: "softfloat_isSigNaNF64UI a = f64_isSNaN a"
proof -
  define n where "n = unat a"
  have "unat (a AND 0x7FF8000000000000) = n div 2 ^ 51 mod 2 ^ 12 * 2 ^ 51"
    using unat_and_shifted_mask [of 51 12 "a"]
    by (simp add: mask_eq_exp_minus_1 push_bit_eq_mult n_def)
  then have 1: "a AND 0x7FF8000000000000 = 0x7FF0000000000000 \<longleftrightarrow> n div 2 ^ 51 mod 2 ^ 12 = 4094"
    by (simp add: word_unat_eq_iff)
  have "unat (a AND 0x0007FFFFFFFFFFFF) = n mod 2 ^ 51"
    using unat_and_mask [of a 51] by (simp add: mask_eq_exp_minus_1 n_def)
  then have 2: "a AND 0x0007FFFFFFFFFFFF = 0 \<longleftrightarrow> n mod 2 ^ 51 = 0"
    by (metis unat_eq_zero)
  have "n mod 2 ^ 63 = n mod (2 ^ 51 * 2 ^ 12)" by simp
  then have "f64_magn a = (n div 2 ^ 51 mod 2 ^ 12) * 2 ^ 51 + n mod 2 ^ 51"
    by (simp only: f64_magn_def n_def mod_mult2_eq) simp
  moreover have "n mod 2 ^ 51 < 2 ^ 51" by simp
  moreover have "(q = 4094 \<and> r \<noteq> 0) \<longleftrightarrow> 4094 * 2 ^ 51 < q * 2 ^ 51 + r \<and> q * 2 ^ 51 + r < 4095 * 2 ^ 51"
    if "r < 2 ^ 51" for q r :: nat
    using that by (cases q "4094 :: nat" rule: linorder_cases) simp_all
  ultimately show ?thesis
    unfolding softfloat_isSigNaNF64UI_def f64_isSNaN_def f64_isNaN_def inf_magn_def 1 2
    by simp
qed

lemma f64_val_fields:
  "f64_val a = with_sign (f64_sign a)
     (if expF64UI a = 0 then real (unat (fracF64UI a)) * 2 powi (- 1074)
      else real (unat (fracF64UI a) + 2 ^ 52) * 2 powi (expF64UI a - 1075))"
  using f64.magn_value [of "- 1074" a] by (simp add: f64_val_def algebra_simps)

lemma f64_zero_iff: "f64_val a = 0 \<longleftrightarrow> f64_magn a = 0"
  using mval_eq_iff [of 52 "- 1074" "f64_magn a" 0] by (simp add: f64_val_def)

end
