(* ===== verification/SoftFloat_Compare.thy ===== *)
theory SoftFloat_Compare
  imports SoftFloat_Values
begin

text \<open>
  Comparison and classification: \<^verbatim>\<open>f32_eq.c\<close>, \<^verbatim>\<open>f32_le.c\<close>, \<^verbatim>\<open>f32_lt.c\<close>, their quiet and signaling
  variants, \<^verbatim>\<open>f32_classify.c\<close>, \<^verbatim>\<open>f32_isSignalingNaN.c\<close> and the 64-bit ones.  The locale
  \<open>float_comparison\<close> is what the floating-point instructions rely on: the three comparisons decide
  the order of the values and are false on NaNs.  It is interpreted on the comparisons of both
  formats, signaling and quiet.
\<close>

subsection \<open>The 32-bit comparisons\<close>

definition f32_eq :: "u32 \<Rightarrow> u32 \<Rightarrow> softfloat_state \<Rightarrow> bool \<times> softfloat_state" where
  "f32_eq a b s =
     (let uiA = (ucast a :: u64); uiB = (ucast b :: u64) in
      if isNaNF32UI uiA \<or> isNaNF32UI uiB
      then (False, if softfloat_isSigNaNF32UI uiA \<or> softfloat_isSigNaNF32UI uiB
                   then softfloat_raiseFlags softfloat_flag_invalid s else s)
      else (uiA = uiB \<or> (ucast (push_bit 1 (uiA OR uiB)) :: u32) = 0, s))"

definition f32_eq_signaling :: "u32 \<Rightarrow> u32 \<Rightarrow> softfloat_state \<Rightarrow> bool \<times> softfloat_state" where
  "f32_eq_signaling a b s =
     (let uiA = (ucast a :: u64); uiB = (ucast b :: u64) in
      if isNaNF32UI uiA \<or> isNaNF32UI uiB
      then (False, softfloat_raiseFlags softfloat_flag_invalid s)
      else (uiA = uiB \<or> (ucast (push_bit 1 (uiA OR uiB)) :: u32) = 0, s))"

definition f32_le :: "u32 \<Rightarrow> u32 \<Rightarrow> softfloat_state \<Rightarrow> bool \<times> softfloat_state" where
  "f32_le a b s =
     (let uiA = (ucast a :: u64); uiB = (ucast b :: u64) in
      if isNaNF32UI uiA \<or> isNaNF32UI uiB
      then (False, softfloat_raiseFlags softfloat_flag_invalid s)
      else let signA = signF32UI uiA; signB = signF32UI uiB in
        (if signA \<noteq> signB then signA \<or> (ucast (push_bit 1 (uiA OR uiB)) :: u32) = 0
         else uiA = uiB \<or> (signA \<noteq> (uiA < uiB)), s))"

definition f32_le_quiet :: "u32 \<Rightarrow> u32 \<Rightarrow> softfloat_state \<Rightarrow> bool \<times> softfloat_state" where
  "f32_le_quiet a b s =
     (let uiA = (ucast a :: u64); uiB = (ucast b :: u64) in
      if isNaNF32UI uiA \<or> isNaNF32UI uiB
      then (False, if softfloat_isSigNaNF32UI uiA \<or> softfloat_isSigNaNF32UI uiB
                   then softfloat_raiseFlags softfloat_flag_invalid s else s)
      else let signA = signF32UI uiA; signB = signF32UI uiB in
        (if signA \<noteq> signB then signA \<or> (ucast (push_bit 1 (uiA OR uiB)) :: u32) = 0
         else uiA = uiB \<or> (signA \<noteq> (uiA < uiB)), s))"

definition f32_lt :: "u32 \<Rightarrow> u32 \<Rightarrow> softfloat_state \<Rightarrow> bool \<times> softfloat_state" where
  "f32_lt a b s =
     (let uiA = (ucast a :: u64); uiB = (ucast b :: u64) in
      if isNaNF32UI uiA \<or> isNaNF32UI uiB
      then (False, softfloat_raiseFlags softfloat_flag_invalid s)
      else let signA = signF32UI uiA; signB = signF32UI uiB in
        (if signA \<noteq> signB then signA \<and> (ucast (push_bit 1 (uiA OR uiB)) :: u32) \<noteq> 0
         else uiA \<noteq> uiB \<and> (signA \<noteq> (uiA < uiB)), s))"

definition f32_lt_quiet :: "u32 \<Rightarrow> u32 \<Rightarrow> softfloat_state \<Rightarrow> bool \<times> softfloat_state" where
  "f32_lt_quiet a b s =
     (let uiA = (ucast a :: u64); uiB = (ucast b :: u64) in
      if isNaNF32UI uiA \<or> isNaNF32UI uiB
      then (False, if softfloat_isSigNaNF32UI uiA \<or> softfloat_isSigNaNF32UI uiB
                   then softfloat_raiseFlags softfloat_flag_invalid s else s)
      else let signA = signF32UI uiA; signB = signF32UI uiB in
        (if signA \<noteq> signB then signA \<and> (ucast (push_bit 1 (uiA OR uiB)) :: u32) \<noteq> 0
         else uiA \<noteq> uiB \<and> (signA \<noteq> (uiA < uiB)), s))"

definition f32_isSignalingNaN :: "u32 \<Rightarrow> bool" where
  "f32_isSignalingNaN a \<longleftrightarrow> softfloat_isSigNaNF32UI (ucast a)"

definition f32_classify :: "u32 \<Rightarrow> u64" where
  "f32_classify a =
     (let uiA = (ucast a :: u64);
          infOrNaN = (expF32UI uiA = 0xFF);
          subnormalOrZero = (expF32UI uiA = 0);
          sign = signF32UI uiA
      in push_bit 0 (of_bool (sign \<and> infOrNaN \<and> fracF32UI uiA = 0)) OR
         push_bit 1 (of_bool (sign \<and> \<not> infOrNaN \<and> \<not> subnormalOrZero)) OR
         push_bit 2 (of_bool (sign \<and> subnormalOrZero \<and> fracF32UI uiA \<noteq> 0)) OR
         push_bit 3 (of_bool (sign \<and> subnormalOrZero \<and> fracF32UI uiA = 0)) OR
         push_bit 7 (of_bool (\<not> sign \<and> infOrNaN \<and> fracF32UI uiA = 0)) OR
         push_bit 6 (of_bool (\<not> sign \<and> \<not> infOrNaN \<and> \<not> subnormalOrZero)) OR
         push_bit 5 (of_bool (\<not> sign \<and> subnormalOrZero \<and> fracF32UI uiA \<noteq> 0)) OR
         push_bit 4 (of_bool (\<not> sign \<and> subnormalOrZero \<and> fracF32UI uiA = 0)) OR
         push_bit 8 (of_bool (isNaNF32UI uiA \<and> softfloat_isSigNaNF32UI uiA)) OR
         push_bit 9 (of_bool (isNaNF32UI uiA \<and> \<not> softfloat_isSigNaNF32UI uiA)))"

subsection \<open>The 64-bit comparisons\<close>

definition f64_eq :: "u64 \<Rightarrow> u64 \<Rightarrow> softfloat_state \<Rightarrow> bool \<times> softfloat_state" where
  "f64_eq a b s =
     (let uiA = a; uiB = b in
      if isNaNF64UI uiA \<or> isNaNF64UI uiB
      then (False, if softfloat_isSigNaNF64UI uiA \<or> softfloat_isSigNaNF64UI uiB
                   then softfloat_raiseFlags softfloat_flag_invalid s else s)
      else (uiA = uiB \<or> (uiA OR uiB) AND 0x7FFFFFFFFFFFFFFF = 0, s))"

definition f64_eq_signaling :: "u64 \<Rightarrow> u64 \<Rightarrow> softfloat_state \<Rightarrow> bool \<times> softfloat_state" where
  "f64_eq_signaling a b s =
     (let uiA = a; uiB = b in
      if isNaNF64UI uiA \<or> isNaNF64UI uiB
      then (False, softfloat_raiseFlags softfloat_flag_invalid s)
      else (uiA = uiB \<or> (uiA OR uiB) AND 0x7FFFFFFFFFFFFFFF = 0, s))"

definition f64_le :: "u64 \<Rightarrow> u64 \<Rightarrow> softfloat_state \<Rightarrow> bool \<times> softfloat_state" where
  "f64_le a b s =
     (let uiA = a; uiB = b in
      if isNaNF64UI uiA \<or> isNaNF64UI uiB
      then (False, softfloat_raiseFlags softfloat_flag_invalid s)
      else let signA = signF64UI uiA; signB = signF64UI uiB in
        (if signA \<noteq> signB then signA \<or> (uiA OR uiB) AND 0x7FFFFFFFFFFFFFFF = 0
         else uiA = uiB \<or> (signA \<noteq> (uiA < uiB)), s))"

definition f64_le_quiet :: "u64 \<Rightarrow> u64 \<Rightarrow> softfloat_state \<Rightarrow> bool \<times> softfloat_state" where
  "f64_le_quiet a b s =
     (let uiA = a; uiB = b in
      if isNaNF64UI uiA \<or> isNaNF64UI uiB
      then (False, if softfloat_isSigNaNF64UI uiA \<or> softfloat_isSigNaNF64UI uiB
                   then softfloat_raiseFlags softfloat_flag_invalid s else s)
      else let signA = signF64UI uiA; signB = signF64UI uiB in
        (if signA \<noteq> signB then signA \<or> (uiA OR uiB) AND 0x7FFFFFFFFFFFFFFF = 0
         else uiA = uiB \<or> (signA \<noteq> (uiA < uiB)), s))"

definition f64_lt :: "u64 \<Rightarrow> u64 \<Rightarrow> softfloat_state \<Rightarrow> bool \<times> softfloat_state" where
  "f64_lt a b s =
     (let uiA = a; uiB = b in
      if isNaNF64UI uiA \<or> isNaNF64UI uiB
      then (False, softfloat_raiseFlags softfloat_flag_invalid s)
      else let signA = signF64UI uiA; signB = signF64UI uiB in
        (if signA \<noteq> signB then signA \<and> (uiA OR uiB) AND 0x7FFFFFFFFFFFFFFF \<noteq> 0
         else uiA \<noteq> uiB \<and> (signA \<noteq> (uiA < uiB)), s))"

definition f64_lt_quiet :: "u64 \<Rightarrow> u64 \<Rightarrow> softfloat_state \<Rightarrow> bool \<times> softfloat_state" where
  "f64_lt_quiet a b s =
     (let uiA = a; uiB = b in
      if isNaNF64UI uiA \<or> isNaNF64UI uiB
      then (False, if softfloat_isSigNaNF64UI uiA \<or> softfloat_isSigNaNF64UI uiB
                   then softfloat_raiseFlags softfloat_flag_invalid s else s)
      else let signA = signF64UI uiA; signB = signF64UI uiB in
        (if signA \<noteq> signB then signA \<and> (uiA OR uiB) AND 0x7FFFFFFFFFFFFFFF \<noteq> 0
         else uiA \<noteq> uiB \<and> (signA \<noteq> (uiA < uiB)), s))"

definition f64_isSignalingNaN :: "u64 \<Rightarrow> bool" where
  "f64_isSignalingNaN a \<longleftrightarrow> softfloat_isSigNaNF64UI a"

definition f64_classify :: "u64 \<Rightarrow> u64" where
  "f64_classify a =
     (let uiA = a;
          infOrNaN = (expF64UI uiA = 0x7FF);
          subnormalOrZero = (expF64UI uiA = 0);
          sign = signF64UI uiA
      in push_bit 0 (of_bool (sign \<and> infOrNaN \<and> fracF64UI uiA = 0)) OR
         push_bit 1 (of_bool (sign \<and> \<not> infOrNaN \<and> \<not> subnormalOrZero)) OR
         push_bit 2 (of_bool (sign \<and> subnormalOrZero \<and> fracF64UI uiA \<noteq> 0)) OR
         push_bit 3 (of_bool (sign \<and> subnormalOrZero \<and> fracF64UI uiA = 0)) OR
         push_bit 7 (of_bool (\<not> sign \<and> infOrNaN \<and> fracF64UI uiA = 0)) OR
         push_bit 6 (of_bool (\<not> sign \<and> \<not> infOrNaN \<and> \<not> subnormalOrZero)) OR
         push_bit 5 (of_bool (\<not> sign \<and> subnormalOrZero \<and> fracF64UI uiA \<noteq> 0)) OR
         push_bit 4 (of_bool (\<not> sign \<and> subnormalOrZero \<and> fracF64UI uiA = 0)) OR
         push_bit 8 (of_bool (isNaNF64UI uiA \<and> softfloat_isSigNaNF64UI uiA)) OR
         push_bit 9 (of_bool (isNaNF64UI uiA \<and> \<not> softfloat_isSigNaNF64UI uiA)))"

subsection \<open>The contract of a family of comparisons\<close>

locale float_comparison =
  fixes val :: "'w \<Rightarrow> real" and nan :: "'w \<Rightarrow> bool"
    and feq fle flt :: "'w \<Rightarrow> 'w \<Rightarrow> softfloat_state \<Rightarrow> bool \<times> softfloat_state"
  assumes feq_iff: "fst (feq a b s) \<longleftrightarrow> \<not> nan a \<and> \<not> nan b \<and> val a = val b"
    and fle_iff: "fst (fle a b s) \<longleftrightarrow> \<not> nan a \<and> \<not> nan b \<and> val a \<le> val b"
    and flt_iff: "fst (flt a b s) \<longleftrightarrow> \<not> nan a \<and> \<not> nan b \<and> val a < val b"
begin

lemma lt_iff_le_and_not_ge: "fst (flt a b s) \<longleftrightarrow> fst (fle a b s) \<and> \<not> fst (fle b a s)"
  by (auto simp: flt_iff fle_iff)

lemma le_antisym_eq: "fst (fle a b s) \<and> fst (fle b a s) \<longleftrightarrow> fst (feq a b s)"
  by (auto simp: feq_iff fle_iff)

lemma le_trans: "fst (fle a b s) \<Longrightarrow> fst (fle b c s) \<Longrightarrow> fst (fle a c s)"
  by (auto simp: fle_iff)

text \<open>Exactly one of less, equal, greater and unordered holds.\<close>

lemma four_relations:
  "of_bool (fst (flt a b s)) + of_bool (fst (feq a b s)) + of_bool (fst (flt b a s))
     + of_bool (nan a \<or> nan b) = (1 :: nat)"
  by (auto simp: feq_iff flt_iff)

end

subsection \<open>The comparisons satisfy it\<close>

lemma shl1_zero_iff: "(ucast (push_bit 1 w) :: u32) = 0 \<longleftrightarrow> unat w mod 2 ^ 31 = 0" for w :: u64
proof -
  have "unat (ucast (push_bit 1 w) :: u32) = (unat w * 2) mod 2 ^ 64 mod 2 ^ 32"
    by (simp only: unat_ucast_mod unat_shl) simp
  also have "\<dots> = (unat w mod 2 ^ 31) * 2"
    by (simp add: mod_mod_cancel mult_mod_left)
  finally show ?thesis by (simp add: word_unat_eq_iff)
qed

lemma or_mod_zero_iff: "unat (v OR w) mod 2 ^ n = 0 \<longleftrightarrow> unat v mod 2 ^ n = 0 \<and> unat w mod 2 ^ n = 0"
  for v w :: "'a::len word"
proof -
  have "take_bit n (v OR w) = 0 \<longleftrightarrow> take_bit n v = 0 \<and> take_bit n w = 0"
    by (auto simp: bit_eq_iff bit_simps)
  then show ?thesis by (simp only: word_unat_eq_iff unat_take_bit unat_0)
qed

lemma both_zero_f32:
  "(ucast (push_bit 1 ((ucast a :: u64) OR ucast b)) :: u32) = 0 \<longleftrightarrow> f32_magn a = 0 \<and> f32_magn b = 0"
  unfolding shl1_zero_iff or_mod_zero_iff by (simp add: f32_magn_def)

lemma both_zero_f64:
  "(a OR b) AND 0x7FFFFFFFFFFFFFFF = 0 \<longleftrightarrow> f64_magn a = 0 \<and> f64_magn b = 0"
proof -
  have "unat ((a OR b) AND 0x7FFFFFFFFFFFFFFF) = unat (a OR b) mod 2 ^ 63"
    using unat_and_mask [of "a OR b" 63] by (simp add: mask_eq_exp_minus_1)
  then have "(a OR b) AND 0x7FFFFFFFFFFFFFFF = 0 \<longleftrightarrow> unat (a OR b) mod 2 ^ 63 = 0"
    by (metis unat_eq_zero)
  then show ?thesis by (simp only: or_mod_zero_iff f64_magn_def)
qed

lemma ucast_eq_iff_32_64: "(ucast a :: u64) = ucast b \<longleftrightarrow> a = b" for a b :: u32
  by (simp add: word_unat_eq_iff)

lemma f32_order:
  "f32_val a \<le> f32_val b \<longleftrightarrow>
    (if f32_sign a \<noteq> f32_sign b then f32_sign a \<or> f32_magn a = 0 \<and> f32_magn b = 0
     else (ucast a :: u64) = ucast b \<or> (f32_sign a \<noteq> ((ucast a :: u64) < ucast b)))"
  "f32_val a = f32_val b \<longleftrightarrow> (ucast a :: u64) = ucast b \<or> f32_magn a = 0 \<and> f32_magn b = 0"
  using f32.le_patterns [of "ucast a" "ucast b"] f32.eq_patterns [of "ucast a" "ucast b"] by simp_all

lemma f64_order:
  "f64_val a \<le> f64_val b \<longleftrightarrow>
    (if f64_sign a \<noteq> f64_sign b then f64_sign a \<or> f64_magn a = 0 \<and> f64_magn b = 0
     else a = b \<or> (f64_sign a \<noteq> (a < b)))"
  "f64_val a = f64_val b \<longleftrightarrow> a = b \<or> f64_magn a = 0 \<and> f64_magn b = 0"
  using f64.le_patterns [of a b] f64.eq_patterns [of a b] by simp_all

lemma f32_less_order:
  "f32_val a < f32_val b \<longleftrightarrow>
    (if f32_sign a \<noteq> f32_sign b then f32_sign a \<and> (f32_magn a \<noteq> 0 \<or> f32_magn b \<noteq> 0)
     else (ucast a :: u64) \<noteq> ucast b \<and> (f32_sign a \<noteq> ((ucast a :: u64) < ucast b)))"
  unfolding not_le [of "f32_val b", symmetric] f32_order(1) by auto

lemma f64_less_order:
  "f64_val a < f64_val b \<longleftrightarrow>
    (if f64_sign a \<noteq> f64_sign b then f64_sign a \<and> (f64_magn a \<noteq> 0 \<or> f64_magn b \<noteq> 0)
     else a \<noteq> b \<and> (f64_sign a \<noteq> (a < b)))"
  unfolding not_le [of "f64_val b", symmetric] f64_order(1) by auto

lemmas f32_cmp_simps = Let_def both_zero_f32 isNaNF32UI_ucast isSigNaNF32UI_ucast
  f32_sign_ucast f32_order f32_less_order

lemmas f64_cmp_simps = Let_def both_zero_f64 isNaNF64UI_eq isSigNaNF64UI_eq
  f64_sign_eq f64_order f64_less_order

lemma f32_eq_eq:
  "f32_eq a b s = (\<not> f32_isNaN a \<and> \<not> f32_isNaN b \<and> f32_val a = f32_val b,
     if f32_isSNaN a \<or> f32_isSNaN b then softfloat_raiseFlags softfloat_flag_invalid s else s)"
  unfolding f32_eq_def f32_cmp_simps by (auto simp: f32_isSNaN_def)

lemma f32_eq_signaling_eq:
  "f32_eq_signaling a b s = (\<not> f32_isNaN a \<and> \<not> f32_isNaN b \<and> f32_val a = f32_val b,
     if f32_isNaN a \<or> f32_isNaN b then softfloat_raiseFlags softfloat_flag_invalid s else s)"
  unfolding f32_eq_signaling_def f32_cmp_simps by (auto simp: f32_isSNaN_def)

lemma f32_le_eq:
  "f32_le a b s = (\<not> f32_isNaN a \<and> \<not> f32_isNaN b \<and> f32_val a \<le> f32_val b,
     if f32_isNaN a \<or> f32_isNaN b then softfloat_raiseFlags softfloat_flag_invalid s else s)"
  unfolding f32_le_def f32_cmp_simps by (auto simp: f32_isSNaN_def)

lemma f32_le_quiet_eq:
  "f32_le_quiet a b s = (\<not> f32_isNaN a \<and> \<not> f32_isNaN b \<and> f32_val a \<le> f32_val b,
     if f32_isSNaN a \<or> f32_isSNaN b then softfloat_raiseFlags softfloat_flag_invalid s else s)"
  unfolding f32_le_quiet_def f32_cmp_simps by (auto simp: f32_isSNaN_def)

lemma f32_lt_eq:
  "f32_lt a b s = (\<not> f32_isNaN a \<and> \<not> f32_isNaN b \<and> f32_val a < f32_val b,
     if f32_isNaN a \<or> f32_isNaN b then softfloat_raiseFlags softfloat_flag_invalid s else s)"
  unfolding f32_lt_def f32_cmp_simps by (auto simp: f32_isSNaN_def)

lemma f32_lt_quiet_eq:
  "f32_lt_quiet a b s = (\<not> f32_isNaN a \<and> \<not> f32_isNaN b \<and> f32_val a < f32_val b,
     if f32_isSNaN a \<or> f32_isSNaN b then softfloat_raiseFlags softfloat_flag_invalid s else s)"
  unfolding f32_lt_quiet_def f32_cmp_simps by (auto simp: f32_isSNaN_def)

lemma f64_eq_eq:
  "f64_eq a b s = (\<not> f64_isNaN a \<and> \<not> f64_isNaN b \<and> f64_val a = f64_val b,
     if f64_isSNaN a \<or> f64_isSNaN b then softfloat_raiseFlags softfloat_flag_invalid s else s)"
  unfolding f64_eq_def f64_cmp_simps by (auto simp: f64_isSNaN_def)

lemma f64_eq_signaling_eq:
  "f64_eq_signaling a b s = (\<not> f64_isNaN a \<and> \<not> f64_isNaN b \<and> f64_val a = f64_val b,
     if f64_isNaN a \<or> f64_isNaN b then softfloat_raiseFlags softfloat_flag_invalid s else s)"
  unfolding f64_eq_signaling_def f64_cmp_simps by (auto simp: f64_isSNaN_def)

lemma f64_le_eq:
  "f64_le a b s = (\<not> f64_isNaN a \<and> \<not> f64_isNaN b \<and> f64_val a \<le> f64_val b,
     if f64_isNaN a \<or> f64_isNaN b then softfloat_raiseFlags softfloat_flag_invalid s else s)"
  unfolding f64_le_def f64_cmp_simps by (auto simp: f64_isSNaN_def)

lemma f64_le_quiet_eq:
  "f64_le_quiet a b s = (\<not> f64_isNaN a \<and> \<not> f64_isNaN b \<and> f64_val a \<le> f64_val b,
     if f64_isSNaN a \<or> f64_isSNaN b then softfloat_raiseFlags softfloat_flag_invalid s else s)"
  unfolding f64_le_quiet_def f64_cmp_simps by (auto simp: f64_isSNaN_def)

lemma f64_lt_eq:
  "f64_lt a b s = (\<not> f64_isNaN a \<and> \<not> f64_isNaN b \<and> f64_val a < f64_val b,
     if f64_isNaN a \<or> f64_isNaN b then softfloat_raiseFlags softfloat_flag_invalid s else s)"
  unfolding f64_lt_def f64_cmp_simps by (auto simp: f64_isSNaN_def)

lemma f64_lt_quiet_eq:
  "f64_lt_quiet a b s = (\<not> f64_isNaN a \<and> \<not> f64_isNaN b \<and> f64_val a < f64_val b,
     if f64_isSNaN a \<or> f64_isSNaN b then softfloat_raiseFlags softfloat_flag_invalid s else s)"
  unfolding f64_lt_quiet_def f64_cmp_simps by (auto simp: f64_isSNaN_def)

interpretation cmp32: float_comparison f32_val f32_isNaN f32_eq f32_le f32_lt
  by unfold_locales (simp_all add: f32_eq_eq f32_le_eq f32_lt_eq)

interpretation cmp32q: float_comparison f32_val f32_isNaN f32_eq_signaling f32_le_quiet f32_lt_quiet
  by unfold_locales (simp_all add: f32_eq_signaling_eq f32_le_quiet_eq f32_lt_quiet_eq)

interpretation cmp64: float_comparison f64_val f64_isNaN f64_eq f64_le f64_lt
  by unfold_locales (simp_all add: f64_eq_eq f64_le_eq f64_lt_eq)

interpretation cmp64q: float_comparison f64_val f64_isNaN f64_eq_signaling f64_le_quiet f64_lt_quiet
  by unfold_locales (simp_all add: f64_eq_signaling_eq f64_le_quiet_eq f64_lt_quiet_eq)

subsection \<open>Classification\<close>

text \<open>The bit of the class mask, by the value: the ten classes of the RISC-V \<^verbatim>\<open>fclass\<close> instructions.\<close>

definition class_bit :: "bool \<Rightarrow> bool \<Rightarrow> bool \<Rightarrow> bool \<Rightarrow> real \<Rightarrow> real \<Rightarrow> nat" where
  "class_bit snan nan isinf neg x xmin =
     (if snan then 8 else if nan then 9
      else if isinf then (if neg then 0 else 7)
      else if x = 0 then (if neg then 3 else 4)
      else if \<bar>x\<bar> < xmin then (if neg then 2 else 5)
      else (if neg then 1 else 6))"

lemma f32_val_abs: "\<bar>f32_val a\<bar> = mval 23 (- 149) (f32_magn a)"
  by (simp add: f32_val_def with_sign_def)

lemma f32_exp_zero_iff: "expF32UI (ucast a) = 0 \<longleftrightarrow> f32_magn a < 2 ^ 23"
proof -
  define E where "E = nat (expF32UI (ucast a))"
  have E: "expF32UI (ucast a) = int E" using f32.expUI_bounds(1) [of "ucast a"] by (simp add: E_def)
  have "f32_magn a = E * 2 ^ 23 + unat (fracF32UI (ucast a))"
    using f32.magn_fields [of "ucast a"] by (simp add: E_def)
  then show ?thesis using f32.fracUI_less [of "ucast a"] unfolding E by (cases E) simp_all
qed

lemma f32_tiny_iff: "\<bar>f32_val a\<bar> < 2 powi (- 126) \<longleftrightarrow> f32_magn a < 2 ^ 23"
proof -
  have "mval 23 (- 149) (2 ^ 23) = 2 ^ 23 * 2 powi (- 149)"
    using mval_pack [of "2 ^ 23" 23 0 "- 149"] by simp
  also have "\<dots> = 2 powi (- 126)" using powi_split [of "23" "- 149"] by simp
  finally show ?thesis unfolding f32_val_abs by (metis mval_less_iff)
qed

lemma f32_classify_eq:
  "f32_classify a = push_bit (class_bit (f32_isSNaN a) (f32_isNaN a) (f32_isInf a) (f32_sign a)
     (f32_val a) (2 powi (- 126))) 1"
proof -
  have inf: "expF32UI (ucast a) = 0xFF \<longleftrightarrow> f32_isInf a \<or> f32_isNaN a"
    using f32_class_exp(1,2) [of a] by blast
  have exc: "\<not> (f32_isInf a \<and> f32_isNaN a)" "f32_isSNaN a \<longrightarrow> f32_isNaN a"
    by (simp_all add: f32_isInf_def f32_isNaN_def f32_isSNaN_def)
  have frac: "fracF32UI (ucast a) = 0 \<longleftrightarrow> f32_isInf a" if "f32_isInf a \<or> f32_isNaN a"
    using f32_class_exp(1,2) [of a] that inf by blast
  have low: "f32_magn a < 2 ^ 23 \<Longrightarrow> \<not> f32_isInf a \<and> \<not> f32_isNaN a"
    by (simp add: f32_isInf_def f32_isNaN_def inf_magn_def)
  have zero: "fracF32UI (ucast a) = 0 \<longleftrightarrow> f32_magn a = 0" if "f32_magn a < 2 ^ 23"
    using f32.magn_eq_0_iff [of "ucast a"] that f32_exp_zero_iff [of a] by simp
  have z0: "f32_magn a = 0 \<Longrightarrow> f32_magn a < 2 ^ 23" by simp
  show ?thesis
    unfolding f32_classify_def Let_def class_bit_def f32_tiny_iff f32_zero_iff inf f32_exp_zero_iff
      f32_sign_ucast isNaNF32UI_ucast isSigNaNF32UI_ucast
    using exc frac low zero z0
    by (cases "f32_isNaN a"; cases "f32_isInf a"; cases "f32_magn a < 2 ^ 23"; cases "f32_magn a = 0";
      cases "f32_sign a"; cases "f32_isSNaN a") (simp_all del: One_nat_def)
qed

lemma f64_val_abs: "\<bar>f64_val a\<bar> = mval 52 (- 1074) (f64_magn a)"
  by (simp add: f64_val_def with_sign_def)

lemma f64_exp_zero_iff: "expF64UI a = 0 \<longleftrightarrow> f64_magn a < 2 ^ 52"
proof -
  define E where "E = nat (expF64UI a)"
  have E: "expF64UI a = int E" using f64.expUI_bounds(1) [of "a"] by (simp add: E_def)
  have "f64_magn a = E * 2 ^ 52 + unat (fracF64UI a)"
    using f64.magn_fields [of "a"] by (simp add: E_def)
  then show ?thesis using f64.fracUI_less [of "a"] unfolding E by (cases E) simp_all
qed

lemma f64_tiny_iff: "\<bar>f64_val a\<bar> < 2 powi (- 1022) \<longleftrightarrow> f64_magn a < 2 ^ 52"
proof -
  have "mval 52 (- 1074) (2 ^ 52) = 2 ^ 52 * 2 powi (- 1074)"
    using mval_pack [of "2 ^ 52" 52 0 "- 1074"] by simp
  also have "\<dots> = 2 powi (- 1022)" using powi_split [of "52" "- 1074"] by simp
  finally show ?thesis unfolding f64_val_abs by (metis mval_less_iff)
qed

lemma f64_classify_eq:
  "f64_classify a = push_bit (class_bit (f64_isSNaN a) (f64_isNaN a) (f64_isInf a) (f64_sign a)
     (f64_val a) (2 powi (- 1022))) 1"
proof -
  have inf: "expF64UI a = 0x7FF \<longleftrightarrow> f64_isInf a \<or> f64_isNaN a"
    using f64_class_exp(1,2) [of a] by blast
  have exc: "\<not> (f64_isInf a \<and> f64_isNaN a)" "f64_isSNaN a \<longrightarrow> f64_isNaN a"
    by (simp_all add: f64_isInf_def f64_isNaN_def f64_isSNaN_def)
  have frac: "fracF64UI a = 0 \<longleftrightarrow> f64_isInf a" if "f64_isInf a \<or> f64_isNaN a"
    using f64_class_exp(1,2) [of a] that inf by blast
  have low: "f64_magn a < 2 ^ 52 \<Longrightarrow> \<not> f64_isInf a \<and> \<not> f64_isNaN a"
    by (simp add: f64_isInf_def f64_isNaN_def inf_magn_def)
  have zero: "fracF64UI a = 0 \<longleftrightarrow> f64_magn a = 0" if "f64_magn a < 2 ^ 52"
    using f64.magn_eq_0_iff [of "a"] that f64_exp_zero_iff [of a] by simp
  have z0: "f64_magn a = 0 \<Longrightarrow> f64_magn a < 2 ^ 52" by simp
  show ?thesis
    unfolding f64_classify_def Let_def class_bit_def f64_tiny_iff f64_zero_iff inf f64_exp_zero_iff
      f64_sign_eq isNaNF64UI_eq isSigNaNF64UI_eq
    using exc frac low zero z0
    by (cases "f64_isNaN a"; cases "f64_isInf a"; cases "f64_magn a < 2 ^ 52"; cases "f64_magn a = 0";
      cases "f64_sign a"; cases "f64_isSNaN a") (simp_all del: One_nat_def)
qed

end
