(* ===== verification/SoftFloat_Primitives.thy ===== *)
theory SoftFloat_Primitives
  imports Rounding
begin

text \<open>
  The integer primitives of SoftFloat (\<^verbatim>\<open>primitives.h\<close> and the \<^verbatim>\<open>s_*.c\<close> files it declares):
  shifts that jam the lost bits into the last one, leading-zero counts, 128-bit sums, differences
  and products, and the reciprocal approximations.  Each operation is followed by the fact that says
  what it computes on natural numbers.
\<close>

subsection \<open>Structures\<close>

record uint128 =
  u128_v0 :: u64
  u128_v64 :: u64

record uint64_extra =
  ext_extra :: u64
  ext_v :: u64

definition val128 :: "uint128 \<Rightarrow> nat" where
  "val128 z = unat (u128_v64 z) * 2 ^ 64 + unat (u128_v0 z)"

subsection \<open>Shifts\<close>

definition softfloat_shortShiftRightJam64 :: "u64 \<Rightarrow> u8 \<Rightarrow> u64" where
  "softfloat_shortShiftRightJam64 a count =
     drop_bit (unat count) a OR of_bool (a AND (push_bit (unat count) 1 - 1) \<noteq> 0)"

definition softfloat_shiftRightJam32 :: "u32 \<Rightarrow> u64 \<Rightarrow> u32" where
  "softfloat_shiftRightJam32 a count =
     (if count < 31
      then drop_bit (unat count) a OR of_bool (push_bit (unat (- count AND 31)) a \<noteq> 0)
      else of_bool (a \<noteq> 0))"

definition softfloat_shiftRightJam64 :: "u64 \<Rightarrow> u64 \<Rightarrow> u64" where
  "softfloat_shiftRightJam64 a count =
     (if count < 63
      then drop_bit (unat count) a OR of_bool (push_bit (unat (- count AND 63)) a \<noteq> 0)
      else of_bool (a \<noteq> 0))"

definition softfloat_shortShiftRightJam64Extra :: "u64 \<Rightarrow> u64 \<Rightarrow> u8 \<Rightarrow> uint64_extra" where
  "softfloat_shortShiftRightJam64Extra a extra count =
     \<lparr>ext_extra = push_bit (unat (- count AND 63)) a OR of_bool (extra \<noteq> 0),
      ext_v = drop_bit (unat count) a\<rparr>"

definition softfloat_shiftRightJam64Extra :: "u64 \<Rightarrow> u64 \<Rightarrow> u64 \<Rightarrow> uint64_extra" where
  "softfloat_shiftRightJam64Extra a extra count =
     (let z = (if count < 64
               then \<lparr>ext_extra = push_bit (unat (- count AND 63)) a, ext_v = drop_bit (unat count) a\<rparr>
               else \<lparr>ext_extra = (if count = 64 then a else of_bool (a \<noteq> 0)), ext_v = 0\<rparr>)
      in z\<lparr>ext_extra := ext_extra z OR of_bool (extra \<noteq> 0)\<rparr>)"

definition softfloat_shortShiftLeft128 :: "u64 \<Rightarrow> u64 \<Rightarrow> u8 \<Rightarrow> uint128" where
  "softfloat_shortShiftLeft128 a64 a0 count =
     \<lparr>u128_v0 = push_bit (unat count) a0,
      u128_v64 = push_bit (unat count) a64 OR drop_bit (unat (- count AND 63)) a0\<rparr>"

definition softfloat_shortShiftRight128 :: "u64 \<Rightarrow> u64 \<Rightarrow> u8 \<Rightarrow> uint128" where
  "softfloat_shortShiftRight128 a64 a0 count =
     \<lparr>u128_v0 = push_bit (unat (- count AND 63)) a64 OR drop_bit (unat count) a0,
      u128_v64 = drop_bit (unat count) a64\<rparr>"

definition softfloat_shortShiftRightJam128 :: "u64 \<Rightarrow> u64 \<Rightarrow> u8 \<Rightarrow> uint128" where
  "softfloat_shortShiftRightJam128 a64 a0 count =
     (let negCount = - count in
      \<lparr>u128_v0 = push_bit (unat (negCount AND 63)) a64 OR drop_bit (unat count) a0
                  OR of_bool (push_bit (unat (negCount AND 63)) a0 \<noteq> 0),
       u128_v64 = drop_bit (unat count) a64\<rparr>)"

definition softfloat_shiftRightJam128 :: "u64 \<Rightarrow> u64 \<Rightarrow> u64 \<Rightarrow> uint128" where
  "softfloat_shiftRightJam128 a64 a0 count =
     (if count < 64
      then (let negCount = - count in
            \<lparr>u128_v0 = push_bit (unat (negCount AND 63)) a64 OR drop_bit (unat count) a0
                        OR of_bool (push_bit (unat (negCount AND 63)) a0 \<noteq> 0),
             u128_v64 = drop_bit (unat count) a64\<rparr>)
      else \<lparr>u128_v0 =
              (if count < 127
               then drop_bit (unat (count AND 63)) a64
                      OR of_bool (((a64 AND (push_bit (unat (count AND 63)) 1 - 1)) OR a0) \<noteq> 0)
               else of_bool ((a64 OR a0) \<noteq> 0)),
            u128_v64 = 0\<rparr>)"

subsection \<open>Leading zeros\<close>

definition softfloat_countLeadingZeros8 :: "u8 list" where
  "softfloat_countLeadingZeros8 =
    [8, 7, 6, 6, 5, 5, 5, 5, 4, 4, 4, 4, 4, 4, 4, 4,
     3, 3, 3, 3, 3, 3, 3, 3, 3, 3, 3, 3, 3, 3, 3, 3,
     2, 2, 2, 2, 2, 2, 2, 2, 2, 2, 2, 2, 2, 2, 2, 2,
     2, 2, 2, 2, 2, 2, 2, 2, 2, 2, 2, 2, 2, 2, 2, 2,
     1, 1, 1, 1, 1, 1, 1, 1, 1, 1, 1, 1, 1, 1, 1, 1,
     1, 1, 1, 1, 1, 1, 1, 1, 1, 1, 1, 1, 1, 1, 1, 1,
     1, 1, 1, 1, 1, 1, 1, 1, 1, 1, 1, 1, 1, 1, 1, 1,
     1, 1, 1, 1, 1, 1, 1, 1, 1, 1, 1, 1, 1, 1, 1, 1,
     0, 0, 0, 0, 0, 0, 0, 0, 0, 0, 0, 0, 0, 0, 0, 0,
     0, 0, 0, 0, 0, 0, 0, 0, 0, 0, 0, 0, 0, 0, 0, 0,
     0, 0, 0, 0, 0, 0, 0, 0, 0, 0, 0, 0, 0, 0, 0, 0,
     0, 0, 0, 0, 0, 0, 0, 0, 0, 0, 0, 0, 0, 0, 0, 0,
     0, 0, 0, 0, 0, 0, 0, 0, 0, 0, 0, 0, 0, 0, 0, 0,
     0, 0, 0, 0, 0, 0, 0, 0, 0, 0, 0, 0, 0, 0, 0, 0,
     0, 0, 0, 0, 0, 0, 0, 0, 0, 0, 0, 0, 0, 0, 0, 0,
     0, 0, 0, 0, 0, 0, 0, 0, 0, 0, 0, 0, 0, 0, 0, 0]"

definition softfloat_countLeadingZeros32 :: "u32 \<Rightarrow> u8" where
  "softfloat_countLeadingZeros32 a =
     (let (count, a) = (if a < 0x10000 then (16, push_bit 16 a) else (0, a));
          (count, a) = (if a < 0x1000000 then (count + 8, push_bit 8 a) else (count, a))
      in count + softfloat_countLeadingZeros8 ! unat (drop_bit 24 a))"

definition softfloat_countLeadingZeros64 :: "u64 \<Rightarrow> u8" where
  "softfloat_countLeadingZeros64 a =
     (let a32 = (ucast (drop_bit 32 a) :: u32);
          (count, a32) = (if a32 = 0 then (32, ucast a) else (0, a32));
          (count, a32) = (if a32 < 0x10000 then (count + 16, push_bit 16 a32) else (count, a32));
          (count, a32) = (if a32 < 0x1000000 then (count + 8, push_bit 8 a32) else (count, a32))
      in count + softfloat_countLeadingZeros8 ! unat (drop_bit 24 a32))"

subsection \<open>128-bit arithmetic\<close>

definition softfloat_eq128 :: "u64 \<Rightarrow> u64 \<Rightarrow> u64 \<Rightarrow> u64 \<Rightarrow> bool" where
  "softfloat_eq128 a64 a0 b64 b0 \<longleftrightarrow> a64 = b64 \<and> a0 = b0"

definition softfloat_le128 :: "u64 \<Rightarrow> u64 \<Rightarrow> u64 \<Rightarrow> u64 \<Rightarrow> bool" where
  "softfloat_le128 a64 a0 b64 b0 \<longleftrightarrow> a64 < b64 \<or> a64 = b64 \<and> a0 \<le> b0"

definition softfloat_lt128 :: "u64 \<Rightarrow> u64 \<Rightarrow> u64 \<Rightarrow> u64 \<Rightarrow> bool" where
  "softfloat_lt128 a64 a0 b64 b0 \<longleftrightarrow> a64 < b64 \<or> a64 = b64 \<and> a0 < b0"

definition softfloat_add128 :: "u64 \<Rightarrow> u64 \<Rightarrow> u64 \<Rightarrow> u64 \<Rightarrow> uint128" where
  "softfloat_add128 a64 a0 b64 b0 =
     (let v0 = a0 + b0 in \<lparr>u128_v0 = v0, u128_v64 = a64 + b64 + of_bool (v0 < a0)\<rparr>)"

definition softfloat_sub128 :: "u64 \<Rightarrow> u64 \<Rightarrow> u64 \<Rightarrow> u64 \<Rightarrow> uint128" where
  "softfloat_sub128 a64 a0 b64 b0 =
     \<lparr>u128_v0 = a0 - b0, u128_v64 = a64 - b64 - of_bool (a0 < b0)\<rparr>"

definition softfloat_mul64To128 :: "u64 \<Rightarrow> u64 \<Rightarrow> uint128" where
  "softfloat_mul64To128 a b =
     (let a32 = ucast (drop_bit 32 a) :: u32;
          a0 = ucast a :: u32;
          b32 = ucast (drop_bit 32 b) :: u32;
          b0 = ucast b :: u32;
          v0 = ucast a0 * ucast b0 :: u64;
          mid1 = ucast a32 * ucast b0 :: u64;
          mid = mid1 + ucast a0 * ucast b32;
          v64 = ucast a32 * ucast b32 :: u64;
          v64 = v64 + (push_bit 32 (of_bool (mid < mid1)) OR drop_bit 32 mid);
          mid = push_bit 32 mid;
          v0 = v0 + mid;
          v64 = v64 + of_bool (v0 < mid)
      in \<lparr>u128_v0 = v0, u128_v64 = v64\<rparr>)"

subsection \<open>Reciprocal approximations\<close>

definition softfloat_approxRecip32_1 :: "u32 \<Rightarrow> u32" where
  "softfloat_approxRecip32_1 a = ucast (0x7FFFFFFFFFFFFFFF div (ucast a :: u64))"

definition approxRecipSqrt_k0s :: "u16 list" where
  "approxRecipSqrt_k0s =
    [0xB4C9, 0xFFAB, 0xAA7D, 0xF11C, 0xA1C5, 0xE4C7, 0x9A43, 0xDA29,
     0x93B5, 0xD0E5, 0x8DED, 0xC8B7, 0x88C6, 0xC16D, 0x8424, 0xBAE1]"

definition approxRecipSqrt_k1s :: "u16 list" where
  "approxRecipSqrt_k1s =
    [0xA5A5, 0xEA42, 0x8C21, 0xC62D, 0x788F, 0xAA7F, 0x6928, 0x94B6,
     0x5CC7, 0x8335, 0x52A6, 0x74E2, 0x4A3E, 0x68FE, 0x432B, 0x5EFD]"

definition softfloat_approxRecipSqrt32_1 :: "u32 \<Rightarrow> u32 \<Rightarrow> u32" where
  "softfloat_approxRecipSqrt32_1 oddExpA a =
     (let index = unat ((drop_bit 27 a AND 0xE) + oddExpA);
          eps = ucast (drop_bit 12 a) :: u16;
          r0 = ucast ((ucast (approxRecipSqrt_k0s ! index) :: u64)
                 - drop_bit 20 (ucast (approxRecipSqrt_k1s ! index) * ucast eps)) :: u16;
          ESqrR0 = ucast r0 * ucast r0 :: u64;
          ESqrR0 = (if oddExpA = 0 then push_bit 1 ESqrR0 else ESqrR0);
          delta0 = ucast (NOT (drop_bit 23 (ucast (ucast ESqrR0 :: u32) * ucast a :: u64))) :: u32;
          r = push_bit 16 (ucast r0 :: u64) + drop_bit 25 (ucast r0 * ucast delta0);
          sqrDelta0 = ucast (drop_bit 32 (ucast delta0 * ucast delta0 :: u64)) :: u32;
          r = r + drop_bit 48
                (ucast (ucast (drop_bit 1 r + drop_bit 3 r - push_bit 14 (ucast r0)) :: u32)
                 * ucast sqrDelta0);
          r = (if r AND 0x80000000 = 0 then 0x80000000 else r)
      in ucast r)"

subsection \<open>What the shifts compute\<close>

lemma unat_and_31: "unat (w AND 31) = unat w mod 2 ^ 5" for w :: "'a::len word"
  using unat_take_bit [of 5 w] by (simp add: take_bit_eq_mask mask_eq_exp_minus_1)

lemma unat_and_63: "unat (w AND 63) = unat w mod 2 ^ 6" for w :: "'a::len word"
  using unat_take_bit [of 6 w] by (simp add: take_bit_eq_mask mask_eq_exp_minus_1)

lemma unat_neg: "w \<noteq> 0 \<Longrightarrow> unat (- w) = 2 ^ LENGTH('a) - unat w" for w :: "'a::len word"
  using unat_sub_if' [of 0 w] by (simp add: unat_eq_zero)

lemma diff_mod_dvd:
  fixes c m n :: nat
  assumes "0 < c" "c < m" "m dvd n" "0 < n"
  shows "(n - c) mod m = m - c"
proof -
  obtain k where k: "n = m * Suc k"
    using assms(3,4) by (metis dvdE gr0_implies_Suc mult_0_right neq0_conv)
  then have "n - c = m * k + (m - c)" using assms(2) by simp
  then have "(n - c) mod m = (m - c) mod m" by (simp only: mod_mult_self4)
  then show ?thesis using assms(1,2) by simp
qed

lemma unat_neg_and_31: "0 < unat c \<Longrightarrow> unat c < 32 \<Longrightarrow> unat (- c AND 31) = 32 - unat c" for c :: u64
  using diff_mod_dvd [of "unat c" 32 "2 ^ 64"] by (simp add: unat_and_31 unat_neg unat_gt_0)

lemma unat_neg_and_63: "0 < unat c \<Longrightarrow> unat c < 64 \<Longrightarrow> unat (- c AND 63) = 64 - unat c" for c :: u64
  using diff_mod_dvd [of "unat c" 64 "2 ^ 64"] by (simp add: unat_and_63 unat_neg unat_gt_0)

lemma unat_neg_and_63_u8: "0 < unat c \<Longrightarrow> unat c < 64 \<Longrightarrow> unat (- c AND 63) = 64 - unat c" for c :: u8
  using diff_mod_dvd [of "unat c" 64 "2 ^ 8"] by (simp add: unat_and_63 unat_neg unat_gt_0)

lemma shl_lost_zero_iff:
  fixes a :: "'a::len word"
  assumes "c \<le> LENGTH('a)"
  shows "push_bit (LENGTH('a) - c) a = 0 \<longleftrightarrow> unat a mod 2 ^ c = 0"
proof -
  have "unat a * 2 ^ (LENGTH('a) - c) mod 2 ^ LENGTH('a) = 0 \<longleftrightarrow> 2 ^ c dvd unat a"
  proof -
    have "(2::nat) ^ LENGTH('a) = 2 ^ c * 2 ^ (LENGTH('a) - c)"
      using assms by (simp flip: power_add)
    then show ?thesis by (simp add: mod_eq_0_iff_dvd)
  qed
  then show ?thesis
    by (simp add: word_unat_eq_iff unat_shl mod_eq_0_iff_dvd)
qed

lemma jam_large:
  assumes "n < 2 ^ w" and "w \<le> Suc c"
  shows "jam c n = of_bool (n \<noteq> 0)"
proof -
  have "n < 2 ^ Suc c"
    using assms less_le_trans power_increasing [of w "Suc c" "2::nat"] by simp
  then have "n div 2 ^ c < 2" by (simp add: less_mult_imp_div_less)
  then consider "n div 2 ^ c = 0" | "n div 2 ^ c = 1" by linarith
  then show ?thesis
  proof cases
    case 1
    then have "n < 2 ^ c" by (simp add: div_eq_0_iff)
    with 1 show ?thesis by (simp add: jam_def)
  next
    case 2
    then have "n \<noteq> 0" by (intro notI) simp
    with 2 show ?thesis by (simp add: jam_def)
  qed
qed

lemma unat_shiftRightJam32:
  assumes "count \<noteq> 0"
  shows "unat (softfloat_shiftRightJam32 a count) = jam (unat count) (unat a)"
proof (cases "count < 31")
  case True
  then have c: "0 < unat count" "unat count < 31"
    using assms by (simp_all add: word_less_nat_alt unat_gt_0)
  with shl_lost_zero_iff [of "unat count" a] have
    "push_bit (unat (- count AND 31)) a = 0 \<longleftrightarrow> unat a mod 2 ^ unat count = 0"
    by (simp add: unat_neg_and_31)
  with True show ?thesis
    by (simp add: softfloat_shiftRightJam32_def jam_def Let_def unat_or_of_bool unat_shr)
next
  case False
  then have "32 \<le> Suc (unat count)" by (simp add: word_less_nat_alt)
  with jam_large [of "unat a" 32 "unat count"] unat_lt_pow [of a] False show ?thesis
    by (simp add: softfloat_shiftRightJam32_def unat_eq_zero)
qed

lemma unat_shiftRightJam64:
  assumes "count \<noteq> 0"
  shows "unat (softfloat_shiftRightJam64 a count) = jam (unat count) (unat a)"
proof (cases "count < 63")
  case True
  then have c: "0 < unat count" "unat count < 63"
    using assms by (simp_all add: word_less_nat_alt unat_gt_0)
  with shl_lost_zero_iff [of "unat count" a] have
    "push_bit (unat (- count AND 63)) a = 0 \<longleftrightarrow> unat a mod 2 ^ unat count = 0"
    by (simp add: unat_neg_and_63)
  with True show ?thesis
    by (simp add: softfloat_shiftRightJam64_def jam_def Let_def unat_or_of_bool unat_shr)
next
  case False
  then have "64 \<le> Suc (unat count)" by (simp add: word_less_nat_alt)
  with jam_large [of "unat a" 64 "unat count"] unat_lt_pow [of a] False show ?thesis
    by (simp add: softfloat_shiftRightJam64_def unat_eq_zero)
qed

lemma unat_shortShiftRightJam64:
  assumes "unat count < 64"
  shows "unat (softfloat_shortShiftRightJam64 a count) = jam (unat count) (unat a)"
proof -
  have "push_bit (unat count) 1 - 1 = (mask (unat count) :: u64)"
    by (simp add: mask_eq_decr_exp push_bit_eq_mult)
  then have "a AND (push_bit (unat count) 1 - 1) = take_bit (unat count) a"
    by (simp add: take_bit_eq_mask)
  then have "a AND (push_bit (unat count) 1 - 1) = 0 \<longleftrightarrow> unat a mod 2 ^ unat count = 0"
    by (simp add: word_unat_eq_iff unat_take_bit)
  then show ?thesis
    by (simp add: softfloat_shortShiftRightJam64_def jam_def Let_def unat_or_of_bool unat_shr)
qed

subsection \<open>What the leading-zero counts compute\<close>

text \<open>\<open>normalizes w n c\<close>: shifting \<open>n\<close> left by \<open>c\<close> bits puts its leading one at the top of \<open>w\<close> bits.\<close>

definition normalizes :: "nat \<Rightarrow> nat \<Rightarrow> nat \<Rightarrow> bool" where
  "normalizes w n c \<longleftrightarrow> 2 ^ w \<le> 2 * (n * 2 ^ c) \<and> n * 2 ^ c < 2 ^ w"

lemma normalizes_shift: "normalizes w (n * 2 ^ k) c \<longleftrightarrow> normalizes w n (k + c)"
  by (simp add: normalizes_def power_add mult.assoc)

lemma countLeadingZeros8_table:
  "list_all (\<lambda>i. i = 0 \<or> normalizes 8 i (unat (softfloat_countLeadingZeros8 ! i))) [0..<256]"
  by code_simp

lemma normalizes_8: "0 < i \<Longrightarrow> i < 256 \<Longrightarrow> normalizes 8 i (unat (softfloat_countLeadingZeros8 ! i))"
  using countLeadingZeros8_table unfolding list_all_iff by (metis atLeastLessThan_iff gr_implies_not0 set_upt zero_le)

lemma countLeadingZeros8_le: "i < 256 \<Longrightarrow> unat (softfloat_countLeadingZeros8 ! i) \<le> 8"
proof -
  have "list_all (\<lambda>i. unat (softfloat_countLeadingZeros8 ! i) \<le> 8) [0..<256]" by code_simp
  then show "i < 256 \<Longrightarrow> ?thesis" by (auto simp: list_all_iff)
qed

lemma normalizes_le:
  assumes "normalizes w n c" shows "n \<noteq> 0" and "c < w"
proof -
  from assms have c: "2 ^ w \<le> 2 * (n * 2 ^ c)" "n * 2 ^ c < 2 ^ w" by (simp_all add: normalizes_def)
  show "n \<noteq> 0" using c(1) by (intro notI) simp
  then have "2 ^ c \<le> n * 2 ^ c" by simp
  then have "(2::nat) ^ c < 2 ^ w" using c(2) by (rule le_less_trans)
  then show "c < w" by simp
qed

lemma normalizes_top:
  assumes "normalizes w (n div 2 ^ k) c"
  shows "normalizes (k + w) n c"
proof -
  define q where "q = n div 2 ^ k"
  have c: "2 ^ w \<le> 2 * (q * 2 ^ c)" "q * 2 ^ c < 2 ^ w"
    using assms by (simp_all add: normalizes_def q_def)
  have cw: "c \<le> w" using normalizes_le(2) [OF assms] by simp
  have "n < (q + 1) * 2 ^ k"
    unfolding q_def using div_less_iff_less_mult [of "2 ^ k" n "n div 2 ^ k + 1"] by simp
  then have "n * 2 ^ c < (q + 1) * 2 ^ k * 2 ^ c" by simp
  also have "\<dots> = (q + 1) * 2 ^ c * 2 ^ k" by (simp only: ac_simps)
  also have "\<dots> \<le> 2 ^ w * 2 ^ k"
  proof -
    obtain m where m: "(2::nat) ^ w = m * 2 ^ c"
      using le_imp_power_dvd [OF cw, of "2::nat"] by (metis dvdE mult.commute)
    with c(2) have "q < m" by (simp only: mult_less_cancel2)
    then have "(q + 1) * 2 ^ c \<le> m * 2 ^ c" by (intro mult_le_mono1) simp
    then show ?thesis unfolding m by (rule mult_le_mono1)
  qed
  finally have "n * 2 ^ c < 2 ^ (k + w)" by (simp only: power_add mult.commute)
  moreover have "2 ^ (k + w) \<le> 2 * (n * 2 ^ c)"
  proof -
    have "q * 2 ^ k \<le> n" by (simp add: q_def)
    then have lo: "q * 2 ^ k * 2 ^ c \<le> n * 2 ^ c" by (rule mult_le_mono1)
    have "(2::nat) ^ (k + w) = 2 ^ w * 2 ^ k" by (simp only: power_add mult.commute)
    also have "\<dots> \<le> 2 * (q * 2 ^ c) * 2 ^ k" using c(1) by (rule mult_le_mono1)
    also have "\<dots> = 2 * (q * 2 ^ k * 2 ^ c)" by (simp only: ac_simps)
    also have "\<dots> \<le> 2 * (n * 2 ^ c)" using lo by simp
    finally show ?thesis .
  qed
  ultimately show ?thesis by (simp add: normalizes_def)
qed

lemma countLeadingZeros32_steps:
  fixes a :: u32
  assumes "a \<noteq> 0"
  defines "b \<equiv> (if a < 0x10000 then push_bit 16 a else a)"
  defines "c \<equiv> (if b < 0x1000000 then push_bit 8 b else b)"
  shows "unat b = unat a * 2 ^ (if a < 0x10000 then 16 else 0)"
    and "unat c = unat b * 2 ^ (if b < 0x1000000 then 8 else 0)"
    and "0 < unat c div 2 ^ 24" and "unat c div 2 ^ 24 < 256"
proof -
  show b: "unat b = unat a * 2 ^ (if a < 0x10000 then 16 else 0)"
    by (auto simp: b_def word_less_nat_alt unat_shl)
  show c: "unat c = unat b * 2 ^ (if b < 0x1000000 then 8 else 0)"
    by (auto simp: c_def word_less_nat_alt unat_shl)
  have "0 < unat a" using assms(1) by (simp add: unat_gt_0)
  then have "2 ^ 16 \<le> unat b" unfolding b by (auto simp: word_less_nat_alt)
  then have "2 ^ 24 \<le> unat c" unfolding c by (auto simp: word_less_nat_alt)
  then show "0 < unat c div 2 ^ 24" by (simp add: div_greater_zero_iff)
  show "unat c div 2 ^ 24 < 256" using unat_lt_pow [of c] by (simp add: less_mult_imp_div_less)
qed

lemma countLeadingZeros32_normalizes:
  assumes "a \<noteq> 0"
  shows "normalizes 32 (unat a) (unat (softfloat_countLeadingZeros32 a))"
    and "unat (softfloat_countLeadingZeros32 a) \<le> 31"
proof -
  define b where "b = (if a < 0x10000 then push_bit 16 a else a)"
  define c where "c = (if b < 0x1000000 then push_bit 8 b else b)"
  define k1 k2 where "k1 = (if a < 0x10000 then 16 else 0 :: nat)" and "k2 = (if b < 0x1000000 then 8 else 0 :: nat)"
  define t where "t = unat (softfloat_countLeadingZeros8 ! (unat c div 2 ^ 24))"
  note st = countLeadingZeros32_steps [OF assms, folded b_def, folded c_def, folded k1_def k2_def]
  have "t \<le> 8" unfolding t_def using st(4) by (rule countLeadingZeros8_le)
  have "softfloat_countLeadingZeros32 a = (if a < 0x10000 then 16 else 0) + (if b < 0x1000000 then 8 else 0)
      + softfloat_countLeadingZeros8 ! unat (drop_bit 24 c)"
    by (simp add: softfloat_countLeadingZeros32_def b_def c_def Let_def)
  then have eq: "unat (softfloat_countLeadingZeros32 a) = k1 + k2 + t"
    using \<open>t \<le> 8\<close> by (simp add: t_def k1_def k2_def unat_shr unat_word_ariths)
  have "normalizes 32 (unat c) t"
    using normalizes_top [OF normalizes_8 [OF st(3,4)]] by (simp add: t_def)
  then show norm: "normalizes 32 (unat a) (unat (softfloat_countLeadingZeros32 a))"
    by (simp only: st(1,2) normalizes_shift eq add.assoc)
  from normalizes_le(2) [OF norm] show "unat (softfloat_countLeadingZeros32 a) \<le> 31" by simp
qed

lemma countLeadingZeros32_0: "softfloat_countLeadingZeros32 0 = 32"
  by code_simp

lemma countLeadingZeros64_32:
  "softfloat_countLeadingZeros64 a =
     (let a32 = (ucast (drop_bit 32 a) :: u32)
      in if a32 = 0 then 32 + softfloat_countLeadingZeros32 (ucast a) else softfloat_countLeadingZeros32 a32)"
  by (simp add: softfloat_countLeadingZeros64_def softfloat_countLeadingZeros32_def Let_def ac_simps)

lemma countLeadingZeros64_normalizes:
  assumes "a \<noteq> 0"
  shows "normalizes 64 (unat a) (unat (softfloat_countLeadingZeros64 a))"
    and "unat (softfloat_countLeadingZeros64 a) \<le> 63"
proof -
  let ?hi = "ucast (drop_bit 32 a) :: u32" and ?lo = "ucast a :: u32"
  have hi: "unat ?hi = unat a div 2 ^ 32"
    using unat_lt_pow [of a] by (simp add: unat_ucast_mod unat_shr less_mult_imp_div_less)
  show norm: "normalizes 64 (unat a) (unat (softfloat_countLeadingZeros64 a))"
  proof (cases "?hi = 0")
    case True
    then have "unat a div 2 ^ 32 = 0" using hi by simp
    then have lt: "unat a < 2 ^ 32" by (simp add: div_eq_0_iff)
    then have lo: "unat ?lo = unat a" by (simp add: unat_ucast_mod)
    then have nz: "?lo \<noteq> 0" using assms by (metis unat_eq_zero)
    have "unat (softfloat_countLeadingZeros64 a) = 32 + unat (softfloat_countLeadingZeros32 ?lo)"
      using True countLeadingZeros32_normalizes(2) [OF nz]
      by (simp add: countLeadingZeros64_32 Let_def unat_word_ariths)
    with countLeadingZeros32_normalizes(1) [OF nz] lo show ?thesis
      by (simp add: normalizes_def power_add)
  next
    case False
    with normalizes_top [of 32 "unat a" 32] countLeadingZeros32_normalizes(1) [OF False] hi show ?thesis
      by (simp add: countLeadingZeros64_32 Let_def)
  qed
  from normalizes_le(2) [OF norm] show "unat (softfloat_countLeadingZeros64 a) \<le> 63" by simp
qed

lemma countLeadingZeros64_0: "softfloat_countLeadingZeros64 0 = 64"
  by code_simp

subsection \<open>What the 128-bit operations compute\<close>

lemma val128_lt: "val128 z < 2 ^ 128"
proof -
  have "unat (u128_v64 z) \<le> 2 ^ 64 - 1" "unat (u128_v0 z) < 2 ^ 64"
    using unat_lt_pow [of "u128_v64 z"] unat_lt_pow [of "u128_v0 z"] by simp_all
  then have "val128 z < (2 ^ 64 - 1) * 2 ^ 64 + 2 ^ 64"
    unfolding val128_def by (intro add_le_less_mono mult_le_mono1)
  then show ?thesis by simp
qed

lemma carry_less_iff: "a + b < a \<longleftrightarrow> 2 ^ LENGTH('a) \<le> unat a + unat b" for a b :: "'a::len word"
proof -
  have "unat b < 2 ^ LENGTH('a)" by (rule unat_lt_pow)
  moreover have "unat (a + b) = (if unat a + unat b < 2 ^ LENGTH('a) then unat a + unat b
      else unat a + unat b - 2 ^ LENGTH('a))"
    by (rule unat_plus_if')
  ultimately show ?thesis
    unfolding word_less_nat_alt
    by (cases "unat a + unat b < 2 ^ LENGTH('a)") (simp_all only: if_True if_False, linarith+)
qed

lemma unat_add_carry:
  "unat (a + b) + of_bool (2 ^ LENGTH('a) \<le> unat a + unat b) * 2 ^ LENGTH('a) = unat a + unat b"
  for a b :: "'a::len word"
  using unat_plus_if' [of a b] by (auto split: if_splits)

lemma two_digits_mod:
  fixes r h B :: nat
  assumes "r < B"
  shows "h mod B * B + r = (h * B + r) mod (B * B)"
  using assms by (simp add: mod_mult2_eq)

lemma val128_add128:
  "val128 (softfloat_add128 a64 a0 b64 b0) =
     (val128 \<lparr>u128_v0 = a0, u128_v64 = a64\<rparr> + val128 \<lparr>u128_v0 = b0, u128_v64 = b64\<rparr>) mod 2 ^ 128"
proof -
  define c :: nat where "c = of_bool (2 ^ 64 \<le> unat a0 + unat b0)"
  have v0: "unat (a0 + b0) + c * 2 ^ 64 = unat a0 + unat b0"
    using unat_add_carry [of a0 b0] by (simp add: c_def)
  have v64: "unat (a64 + b64 + of_bool (a0 + b0 < a0)) = (unat a64 + unat b64 + c) mod 2 ^ 64"
    by (simp add: carry_less_iff unat_word_ariths mod_simps c_def)
  have "val128 (softfloat_add128 a64 a0 b64 b0)
      = (unat a64 + unat b64 + c) mod 2 ^ 64 * 2 ^ 64 + unat (a0 + b0)"
    by (simp only: val128_def softfloat_add128_def Let_def uint128.select_convs v64)
  also have "\<dots> = ((unat a64 + unat b64 + c) * 2 ^ 64 + unat (a0 + b0)) mod (2 ^ 64 * 2 ^ 64)"
    using unat_lt_pow [of "a0 + b0"] by (intro two_digits_mod) simp
  also have "(unat a64 + unat b64 + c) * 2 ^ 64 + unat (a0 + b0)
      = (unat a64 * 2 ^ 64 + unat a0) + (unat b64 * 2 ^ 64 + unat b0)"
    using v0 by (simp add: distrib_right)
  finally show ?thesis by (simp add: val128_def)
qed

lemma val128_sub128:
  assumes "val128 \<lparr>u128_v0 = b0, u128_v64 = b64\<rparr> \<le> val128 \<lparr>u128_v0 = a0, u128_v64 = a64\<rparr>"
  shows "val128 (softfloat_sub128 a64 a0 b64 b0) =
     val128 \<lparr>u128_v0 = a0, u128_v64 = a64\<rparr> - val128 \<lparr>u128_v0 = b0, u128_v64 = b64\<rparr>"
proof -
  have lt: "unat a0 < 2 ^ 64" "unat b0 < 2 ^ 64"
    using unat_lt_pow [of a0] unat_lt_pow [of b0] by simp_all
  have le: "unat b64 * 2 ^ 64 + unat b0 \<le> unat a64 * 2 ^ 64 + unat a0"
    using assms by (simp add: val128_def)
  show ?thesis
  proof (cases "a0 < b0")
    case True
    then have b: "unat a0 < unat b0" by (simp add: word_less_nat_alt)
    have "unat b64 < unat a64"
    proof (rule ccontr)
      assume "\<not> ?thesis"
      then have "unat a64 * 2 ^ 64 \<le> unat b64 * 2 ^ 64" by (intro mult_le_mono1) simp
      with b le show False by linarith
    qed
    then have "unat (a64 - b64 - 1) + unat b64 + 1 = unat a64"
      by (subst unat_diff_le) (simp_all add: unat_diff_le)
    moreover have "unat (a0 - b0) + unat b0 = unat a0 + 2 ^ 64"
      using b lt by (simp add: unat_sub_if')
    ultimately show ?thesis
      using True by (simp add: val128_def softfloat_sub128_def)
  next
    case False
    then have b: "unat b0 \<le> unat a0" by (simp add: word_less_nat_alt)
    have "unat b64 \<le> unat a64"
    proof (rule ccontr)
      assume "\<not> ?thesis"
      then have "(unat a64 + 1) * 2 ^ 64 \<le> unat b64 * 2 ^ 64" by (intro mult_le_mono1) simp
      with lt le show False by simp
    qed
    then show ?thesis
      using False b by (simp add: val128_def softfloat_sub128_def unat_diff_le diff_mult_distrib)
  qed
qed

lemma unat_split32: "unat a = unat (ucast (drop_bit 32 a) :: u32) * 2 ^ 32 + unat (ucast a :: u32)" for a :: u64
proof -
  have "unat a div 2 ^ 32 < 2 ^ 32" using unat_lt_pow [of a] by (intro less_mult_imp_div_less) simp
  then have "unat (ucast (drop_bit 32 a) :: u32) = unat a div 2 ^ 32"
    by (simp only: unat_ucast_mod unat_shr) simp
  moreover have "unat (ucast a :: u32) = unat a mod 2 ^ 32" by (simp only: unat_ucast_mod) simp
  ultimately show ?thesis by (simp only: div_mult_mod_eq)
qed

lemma unat_mult_32: "unat (ucast x * ucast y :: u64) = unat x * unat y" for x y :: u32
proof -
  have "unat (ucast x :: u64) = unat x" "unat (ucast y :: u64) = unat y"
    using unat_lt_pow [of x] unat_lt_pow [of y] by (simp_all add: unat_ucast_mod)
  moreover have "unat x * unat y < 2 ^ 32 * 2 ^ 32"
    using unat_lt_pow [of x] unat_lt_pow [of y] by (intro mult_strict_mono) simp_all
  ultimately show ?thesis by (subst unat_mult_less) simp_all
qed

lemma columns_sum:
  fixes B :: nat
  assumes x: "q * B + r + c1 * (B * B) = x" and y: "L + c2 * (B * B) = y + r * B"
  shows "(h + (c1 * B + q) + c2) * (B * B) + L = h * (B * B) + x * B + y"
proof -
  have "(h + (c1 * B + q) + c2) * (B * B) + L = h * (B * B) + (c1 * B + q) * (B * B) + (L + c2 * (B * B))"
    by (simp add: algebra_simps)
  also have "\<dots> = h * (B * B) + (q * B + r + c1 * (B * B)) * B + y"
    unfolding y by (simp add: algebra_simps)
  finally show ?thesis by (simp only: x)
qed

lemma val128_mul64To128: "val128 (softfloat_mul64To128 a b) = unat a * unat b"
proof -
  define a32 a0 b32 b0 where "a32 = unat (ucast (drop_bit 32 a) :: u32)" and "a0 = unat (ucast a :: u32)"
    and "b32 = unat (ucast (drop_bit 32 b) :: u32)" and "b0 = unat (ucast b :: u32)"
  define mid1 mid2 mid v0 hi where "mid1 = (ucast (ucast (drop_bit 32 a) :: u32) * ucast (ucast b :: u32) :: u64)"
    and "mid2 = (ucast (ucast a :: u32) * ucast (ucast (drop_bit 32 b) :: u32) :: u64)"
    and "mid = mid1 + mid2" and "v0 = (ucast (ucast a :: u32) * ucast (ucast b :: u32) :: u64)"
    and "hi = (ucast (ucast (drop_bit 32 a) :: u32) * ucast (ucast (drop_bit 32 b) :: u32) :: u64)"
  have u: "unat mid1 = a32 * b0" "unat mid2 = a0 * b32" "unat v0 = a0 * b0" "unat hi = a32 * b32"
    unfolding mid1_def mid2_def v0_def hi_def unat_mult_32 by (simp_all add: a32_def a0_def b32_def b0_def)
  define M where "M = push_bit 32 mid"
  define c1 c2 :: nat where "c1 = of_bool (mid < mid1)" and "c2 = of_bool (v0 + M < M)"
  have mid: "unat mid + c1 * 2 ^ 64 = a32 * b0 + a0 * b32"
    using unat_add_carry [of mid1 mid2] carry_less_iff [of mid1 mid2] by (simp add: mid_def c1_def u)
  have sh: "unat M = (unat mid mod 2 ^ 32) * 2 ^ 32"
    unfolding M_def unat_shl mult_mod_left by simp
  have "unat (M + v0) + of_bool (M + v0 < M) * 2 ^ 64 = unat M + unat v0"
    using unat_add_carry [of M v0] by (simp add: carry_less_iff)
  then have lo: "unat (v0 + M) + c2 * 2 ^ 64 = a0 * b0 + (unat mid mod 2 ^ 32) * 2 ^ 32"
    unfolding c2_def u(3) [symmetric] sh [symmetric] by (simp only: add.commute [of v0 M] add.commute [of "unat v0"])
  have carry: "unat (push_bit 32 (of_bool (mid < mid1)) OR drop_bit 32 mid) = c1 * 2 ^ 32 + unat mid div 2 ^ 32"
  proof -
    have "unat (drop_bit 32 mid) < 2 ^ 32"
      unfolding unat_shr using unat_lt_pow [of mid] by (intro less_mult_imp_div_less) simp
    moreover have "unat (push_bit 32 (of_bool (mid < mid1)) :: u64) = c1 * 2 ^ 32"
      by (simp add: c1_def unat_shl)
    ultimately show ?thesis by (subst unat_or_add [where n = 32]) (simp_all add: unat_shr)
  qed
  define H where "H = a32 * b32 + (c1 * 2 ^ 32 + unat mid div 2 ^ 32) + c2"
  have v64: "unat (hi + (push_bit 32 (of_bool (mid < mid1)) OR drop_bit 32 mid)
      + of_bool (v0 + M < M)) = H mod 2 ^ 64"
    by (simp add: unat_word_ariths carry u H_def c2_def mod_simps)
  have total: "H * 2 ^ 64 + unat (v0 + M) = unat a * unat b"
  proof -
    have "unat mid div 2 ^ 32 * 2 ^ 32 + unat mid mod 2 ^ 32 + c1 * (2 ^ 32 * 2 ^ 32) = a32 * b0 + a0 * b32"
      using mid by (simp only: div_mult_mod_eq) simp
    moreover have "unat (v0 + M) + c2 * (2 ^ 32 * 2 ^ 32) = a0 * b0 + (unat mid mod 2 ^ 32) * 2 ^ 32"
      using lo by simp
    ultimately have "H * (2 ^ 32 * 2 ^ 32) + unat (v0 + M) =
        a32 * b32 * (2 ^ 32 * 2 ^ 32) + (a32 * b0 + a0 * b32) * 2 ^ 32 + a0 * b0"
      unfolding H_def by (rule columns_sum)
    also have "\<dots> = (a32 * 2 ^ 32 + a0) * (b32 * 2 ^ 32 + b0)" by (simp only: distrib_left distrib_right ac_simps)
    also have "\<dots> = unat a * unat b"
      by (simp only: a32_def a0_def b32_def b0_def unat_split32 [symmetric])
    finally show ?thesis by simp
  qed
  have "unat a * unat b < 2 ^ 64 * 2 ^ 64"
    using unat_lt_pow [of a] unat_lt_pow [of b] by (intro mult_strict_mono) simp_all
  then have "H < 2 ^ 64" using total by (simp add: less_mult_imp_div_less)
  then show ?thesis
    using total unfolding softfloat_mul64To128_def Let_def val128_def
    by (simp add: mid1_def [symmetric] mid2_def [symmetric] mid_def [symmetric] v0_def [symmetric] hi_def [symmetric] M_def [symmetric] v64)
qed

end
