(* ===== verification/SoftFloat_RoundPack.thy ===== *)
theory SoftFloat_RoundPack
  imports Round_Pack_Spec SoftFloat_Primitives
begin

text \<open>
  The rounding and packing routines every operation ends with (\<^verbatim>\<open>s_roundPackToF32.c\<close>,
  \<^verbatim>\<open>s_roundPackToF64.c\<close>, \<^verbatim>\<open>s_normRoundPackToF*.c\<close>, \<^verbatim>\<open>s_normSubnormalF*Sig.c\<close>, and the
  conversions to integers \<^verbatim>\<open>s_roundPackTo{I,UI}{32,64}.c\<close>).  The locale \<open>round_pack\<close> is the contract
  the arithmetic relies on; it is interpreted on the routines of both formats.
\<close>

subsection \<open>Rounding modes\<close>

definition rmode_of :: "u8 \<Rightarrow> rmode" where
  "rmode_of m = (if m = softfloat_round_near_even then RNE
                 else if m = softfloat_round_near_maxMag then RMM
                 else if m = softfloat_round_min then RDN
                 else if m = softfloat_round_max then RUP else RTZ)"

subsection \<open>Packing to 32 bits\<close>

text \<open>The last lines of the routine, reached with the significand and the round bits to use.\<close>

definition roundPackToF32_pack ::
  "bool \<Rightarrow> int \<Rightarrow> u64 \<Rightarrow> bool \<Rightarrow> u8 \<Rightarrow> u8 \<Rightarrow> softfloat_state \<Rightarrow> u32 \<times> softfloat_state" where
  "roundPackToF32_pack sign expn sig roundNearEven roundIncrement roundBits s =
     (let s = (if roundBits \<noteq> 0 then softfloat_raiseFlags softfloat_flag_inexact s else s);
          sig = drop_bit 7 (sig + ucast roundIncrement);
          sig = sig AND NOT (of_bool (roundBits XOR 0x40 = 0 \<and> roundNearEven));
          uiZ = packToF32UI sign (if sig \<noteq> 0 then expn else 0) sig
      in (ucast uiZ, s))"

definition softfloat_roundPackToF32 ::
  "bool \<Rightarrow> int \<Rightarrow> u64 \<Rightarrow> softfloat_state \<Rightarrow> u32 \<times> softfloat_state" where
  "softfloat_roundPackToF32 sign expn sig s =
     (let roundingMode = softfloat_roundingMode s;
          roundNearEven = (roundingMode = softfloat_round_near_even);
          roundIncrement = (if \<not> roundNearEven \<and> roundingMode \<noteq> softfloat_round_near_maxMag
             then (if roundingMode = (if sign then softfloat_round_min else softfloat_round_max)
                   then 0x7F else 0)
             else 0x40);
          roundBits = ucast (sig AND 0x7F)
      in if 0xFD \<le> (word_of_int expn :: u16)
         then if expn < 0
           then let isTiny = (softfloat_detectTininess s = softfloat_tininess_beforeRounding
                      \<or> expn < - 1 \<or> sig + ucast roundIncrement < 0x80000000);
                    sig = ucast (softfloat_shiftRightJam32 (ucast sig) (word_of_int (- expn)));
                    roundBits = ucast (sig AND 0x7F);
                    s = (if isTiny \<and> roundBits \<noteq> 0
                         then softfloat_raiseFlags softfloat_flag_underflow s else s)
                in roundPackToF32_pack sign 0 sig roundNearEven roundIncrement roundBits s
           else if 0xFD < expn \<or> 0x80000000 \<le> sig + ucast roundIncrement
           then (ucast (packToF32UI sign 0xFF 0 - of_bool (roundIncrement = 0)),
                 softfloat_raiseFlags (softfloat_flag_overflow OR softfloat_flag_inexact) s)
           else roundPackToF32_pack sign expn sig roundNearEven roundIncrement roundBits s
         else roundPackToF32_pack sign expn sig roundNearEven roundIncrement roundBits s)"

definition softfloat_normRoundPackToF32 ::
  "bool \<Rightarrow> int \<Rightarrow> u64 \<Rightarrow> softfloat_state \<Rightarrow> u32 \<times> softfloat_state" where
  "softfloat_normRoundPackToF32 sign expn sig s =
     (let shiftCount = int (unat (softfloat_countLeadingZeros32 (ucast sig))) - 1;
          expn = expn - shiftCount
      in if 7 \<le> shiftCount \<and> (word_of_int expn :: u16) < 0xFD
         then (ucast (packToF32UI sign (if sig \<noteq> 0 then expn else 0)
                        (push_bit (nat (shiftCount - 7)) sig)), s)
         else softfloat_roundPackToF32 sign expn (push_bit (nat shiftCount) sig) s)"

record exp16_sig32 =
  es32_exp :: int
  es32_sig :: u64

definition softfloat_normSubnormalF32Sig :: "u64 \<Rightarrow> exp16_sig32" where
  "softfloat_normSubnormalF32Sig sig =
     (let shiftCount = int (unat (softfloat_countLeadingZeros32 (ucast sig))) - 8
      in \<lparr>es32_exp = 1 - shiftCount, es32_sig = push_bit (nat shiftCount) sig\<rparr>)"

subsection \<open>Packing to 64 bits\<close>

definition roundPackToF64_pack ::
  "bool \<Rightarrow> int \<Rightarrow> u64 \<Rightarrow> bool \<Rightarrow> u64 \<Rightarrow> u64 \<Rightarrow> softfloat_state \<Rightarrow> u64 \<times> softfloat_state" where
  "roundPackToF64_pack sign expn sig roundNearEven roundIncrement roundBits s =
     (let s = (if roundBits \<noteq> 0 then softfloat_raiseFlags softfloat_flag_inexact s else s);
          sig = drop_bit 10 (sig + roundIncrement);
          sig = sig AND NOT (of_bool (roundBits XOR 0x200 = 0 \<and> roundNearEven));
          uiZ = packToF64UI sign (if sig \<noteq> 0 then expn else 0) sig
      in (uiZ, s))"

definition softfloat_roundPackToF64 ::
  "bool \<Rightarrow> int \<Rightarrow> u64 \<Rightarrow> softfloat_state \<Rightarrow> u64 \<times> softfloat_state" where
  "softfloat_roundPackToF64 sign expn sig s =
     (let roundingMode = softfloat_roundingMode s;
          roundNearEven = (roundingMode = softfloat_round_near_even);
          roundIncrement = (if \<not> roundNearEven \<and> roundingMode \<noteq> softfloat_round_near_maxMag
             then (if roundingMode = (if sign then softfloat_round_min else softfloat_round_max)
                   then 0x3FF else 0)
             else 0x200);
          roundBits = sig AND 0x3FF
      in if 0x7FD \<le> (word_of_int expn :: u16)
         then if expn < 0
           then let isTiny = (softfloat_detectTininess s = softfloat_tininess_beforeRounding
                      \<or> expn < - 1 \<or> sig + roundIncrement < 0x8000000000000000);
                    sig = softfloat_shiftRightJam64 sig (word_of_int (- expn));
                    roundBits = sig AND 0x3FF;
                    s = (if isTiny \<and> roundBits \<noteq> 0
                         then softfloat_raiseFlags softfloat_flag_underflow s else s)
                in roundPackToF64_pack sign 0 sig roundNearEven roundIncrement roundBits s
           else if 0x7FD < expn \<or> 0x8000000000000000 \<le> sig + roundIncrement
           then (packToF64UI sign 0x7FF 0 - of_bool (roundIncrement = 0),
                 softfloat_raiseFlags (softfloat_flag_overflow OR softfloat_flag_inexact) s)
           else roundPackToF64_pack sign expn sig roundNearEven roundIncrement roundBits s
         else roundPackToF64_pack sign expn sig roundNearEven roundIncrement roundBits s)"

definition softfloat_normRoundPackToF64 ::
  "bool \<Rightarrow> int \<Rightarrow> u64 \<Rightarrow> softfloat_state \<Rightarrow> u64 \<times> softfloat_state" where
  "softfloat_normRoundPackToF64 sign expn sig s =
     (let shiftCount = int (unat (softfloat_countLeadingZeros64 sig)) - 1;
          expn = expn - shiftCount
      in if 10 \<le> shiftCount \<and> (word_of_int expn :: u16) < 0x7FD
         then (packToF64UI sign (if sig \<noteq> 0 then expn else 0)
                 (push_bit (nat (shiftCount - 10)) sig), s)
         else softfloat_roundPackToF64 sign expn (push_bit (nat shiftCount) sig) s)"

record exp16_sig64 =
  es64_exp :: int
  es64_sig :: u64

definition softfloat_normSubnormalF64Sig :: "u64 \<Rightarrow> exp16_sig64" where
  "softfloat_normSubnormalF64Sig sig =
     (let shiftCount = int (unat (softfloat_countLeadingZeros64 sig)) - 11
      in \<lparr>es64_exp = 1 - shiftCount, es64_sig = push_bit (nat shiftCount) sig\<rparr>)"

subsection \<open>Packing to integers\<close>

definition softfloat_roundPackToI32 ::
  "bool \<Rightarrow> u64 \<Rightarrow> u8 \<Rightarrow> bool \<Rightarrow> softfloat_state \<Rightarrow> int \<times> softfloat_state" where
  "softfloat_roundPackToI32 sign sig roundingMode exact s =
     (let invalid = (if sign then i32_fromNegOverflow else i32_fromPosOverflow,
                     softfloat_raiseFlags softfloat_flag_invalid s);
          roundNearEven = (roundingMode = softfloat_round_near_even);
          roundIncrement = (if \<not> roundNearEven \<and> roundingMode \<noteq> softfloat_round_near_maxMag
             then (if roundingMode = (if sign then softfloat_round_min else softfloat_round_max)
                   then 0x7F else 0)
             else 0x40 :: u8);
          roundBits = ucast (sig AND 0x7F) :: u8;
          sig = sig + ucast roundIncrement
      in if sig AND 0xFFFFFF8000000000 \<noteq> 0 then invalid
         else let sig32 = drop_bit 7 sig;
                  sig32 = sig32 AND NOT (of_bool (roundBits XOR 0x40 = 0 \<and> roundNearEven));
                  ui = ucast (if sign then - sig32 else sig32) :: u32;
                  z = sint ui
              in if z \<noteq> 0 \<and> ((z < 0) \<noteq> sign) then invalid
                 else (z, if exact \<and> roundBits \<noteq> 0
                          then softfloat_raiseFlags softfloat_flag_inexact s else s))"

definition softfloat_roundPackToUI32 ::
  "bool \<Rightarrow> u64 \<Rightarrow> u8 \<Rightarrow> bool \<Rightarrow> softfloat_state \<Rightarrow> u64 \<times> softfloat_state" where
  "softfloat_roundPackToUI32 sign sig roundingMode exact s =
     (let invalid = (if sign then ui32_fromNegOverflow else ui32_fromPosOverflow,
                     softfloat_raiseFlags softfloat_flag_invalid s);
          roundNearEven = (roundingMode = softfloat_round_near_even);
          roundIncrement = (if \<not> roundNearEven \<and> roundingMode \<noteq> softfloat_round_near_maxMag
             then (if roundingMode = (if sign then softfloat_round_min else softfloat_round_max)
                   then 0x7F else 0)
             else 0x40 :: u8);
          roundBits = ucast (sig AND 0x7F) :: u8;
          sig = sig + ucast roundIncrement
      in if sig AND 0xFFFFFF8000000000 \<noteq> 0 then invalid
         else let z = drop_bit 7 sig;
                  z = z AND NOT (of_bool (roundBits XOR 0x40 = 0 \<and> roundNearEven))
              in if sign \<and> z \<noteq> 0 then invalid
                 else (z, if exact \<and> roundBits \<noteq> 0
                          then softfloat_raiseFlags softfloat_flag_inexact s else s))"

definition softfloat_roundPackToI64 ::
  "bool \<Rightarrow> u64 \<Rightarrow> u64 \<Rightarrow> u8 \<Rightarrow> bool \<Rightarrow> softfloat_state \<Rightarrow> int \<times> softfloat_state" where
  "softfloat_roundPackToI64 sign sig sigExtra roundingMode exact s =
     (let invalid = (if sign then i64_fromNegOverflow else i64_fromPosOverflow,
                     softfloat_raiseFlags softfloat_flag_invalid s);
          roundNearEven = (roundingMode = softfloat_round_near_even);
          doIncrement = (if \<not> roundNearEven \<and> roundingMode \<noteq> softfloat_round_near_maxMag
             then roundingMode = (if sign then softfloat_round_min else softfloat_round_max)
                  \<and> sigExtra \<noteq> 0
             else 0x8000000000000000 \<le> sigExtra);
          sig1 = sig + 1
      in if doIncrement \<and> sig1 = 0 then invalid
         else let sig = (if doIncrement
                    then sig1 AND NOT (of_bool (sigExtra AND 0x7FFFFFFFFFFFFFFF = 0 \<and> roundNearEven))
                    else sig);
                  z = sint (if sign then - sig else sig)
              in if z \<noteq> 0 \<and> ((z < 0) \<noteq> sign) then invalid
                 else (z, if exact \<and> sigExtra \<noteq> 0
                          then softfloat_raiseFlags softfloat_flag_inexact s else s))"

definition softfloat_roundPackToUI64 ::
  "bool \<Rightarrow> u64 \<Rightarrow> u64 \<Rightarrow> u8 \<Rightarrow> bool \<Rightarrow> softfloat_state \<Rightarrow> u64 \<times> softfloat_state" where
  "softfloat_roundPackToUI64 sign sig sigExtra roundingMode exact s =
     (let invalid = (if sign then ui64_fromNegOverflow else ui64_fromPosOverflow,
                     softfloat_raiseFlags softfloat_flag_invalid s);
          roundNearEven = (roundingMode = softfloat_round_near_even);
          doIncrement = (if \<not> roundNearEven \<and> roundingMode \<noteq> softfloat_round_near_maxMag
             then roundingMode = (if sign then softfloat_round_min else softfloat_round_max)
                  \<and> sigExtra \<noteq> 0
             else 0x8000000000000000 \<le> sigExtra);
          sig1 = sig + 1
      in if doIncrement \<and> sig1 = 0 then invalid
         else let sig = (if doIncrement
                    then sig1 AND NOT (of_bool (sigExtra AND 0x7FFFFFFFFFFFFFFF = 0 \<and> roundNearEven))
                    else sig)
              in if sign \<and> sig \<noteq> 0 then invalid
                 else (sig, if exact \<and> sigExtra \<noteq> 0
                            then softfloat_raiseFlags softfloat_flag_inexact s else s))"

subsection \<open>The contract\<close>

definition rp_flags :: "nat \<Rightarrow> nat \<Rightarrow> nat \<Rightarrow> bool \<Rightarrow> rmode \<Rightarrow> bool \<Rightarrow> int \<Rightarrow> nat \<Rightarrow> u8" where
  "rp_flags fb ebit rb before m neg e n =
     (if rp_overflow fb ebit rb m neg e n
      then softfloat_flag_overflow OR softfloat_flag_inexact
      else if jam (nat (- e)) n mod 2 ^ rb = 0 then 0
      else if e < 0 \<and> (before \<or> e < - 1 \<or> n + rinc m neg rb < 2 ^ (Suc fb + rb))
      then softfloat_flag_underflow OR softfloat_flag_inexact
      else softfloat_flag_inexact)"

locale round_pack = float_format fb ebit signUI expUI fracUI packUI
  for fb ebit :: nat and signUI :: "u64 \<Rightarrow> bool" and expUI :: "u64 \<Rightarrow> int" and fracUI :: "u64 \<Rightarrow> u64"
    and packUI :: "bool \<Rightarrow> int \<Rightarrow> u64 \<Rightarrow> u64" +
  fixes rb :: nat and roundPack :: "bool \<Rightarrow> int \<Rightarrow> u64 \<Rightarrow> softfloat_state \<Rightarrow> 'w::len word \<times> softfloat_state"
  assumes rb: "2 \<le> rb" "Suc fb + rb < 64"
    and roundPack_bits: "unat sig < 2 ^ (Suc fb + rb) \<Longrightarrow> 2 ^ (fb + rb) \<le> unat sig \<or> e \<le> 0 \<Longrightarrow>
      - 32768 \<le> e \<Longrightarrow> e < 32768 \<Longrightarrow>
      unat (fst (roundPack sg e sig s)) = of_bool sg * 2 ^ (fb + ebit)
        + rp_magn fb ebit rb (rmode_of (softfloat_roundingMode s)) sg e (unat sig)"
    and roundPack_flags: "unat sig < 2 ^ (Suc fb + rb) \<Longrightarrow> 2 ^ (fb + rb) \<le> unat sig \<or> e \<le> 0 \<Longrightarrow>
      - 32768 \<le> e \<Longrightarrow> e < 32768 \<Longrightarrow>
      snd (roundPack sg e sig s) = softfloat_raiseFlags
        (rp_flags fb ebit rb (softfloat_detectTininess s = softfloat_tininess_beforeRounding)
           (rmode_of (softfloat_roundingMode s)) sg e (unat sig)) s"

text \<open>The client's view: a result with the sign it was given that rounds the exact value \<open>X\<close>.\<close>

definition rounds_word :: "nat \<Rightarrow> nat \<Rightarrow> rmode \<Rightarrow> bool \<Rightarrow> real \<Rightarrow> 'w::len word \<Rightarrow> bool" where
  "rounds_word fb ebit m neg X r \<longleftrightarrow>
     (\<exists>M. unat r = of_bool neg * 2 ^ (fb + ebit) + M \<and> ieee_rounds fb ebit m neg X M)"

context round_pack
begin

lemma roundPack_rounds_near:
  assumes st: "near j x (unat sig)" "j + 1 \<le> rb" and sig: "unat sig < 2 ^ (Suc fb + rb)"
    and norm: "2 ^ (fb + rb) \<le> unat sig \<or> e \<le> 0" and e: "- 32768 \<le> e" "e < 32768"
    and X: "X = x * 2 powi (least_exp fb ebit + e - int rb)"
  shows "rounds_word fb ebit (rmode_of (softfloat_roundingMode s)) sg X (fst (roundPack sg e sig s))"
  unfolding rounds_word_def
  using roundPack_bits [OF sig norm e, of sg s] rp_ieee [OF width(2,3) st(2) rb(1) st(1) sig norm X] by blast

lemma roundPack_rounds:
  assumes st: "stk j x (unat sig)" "j + 2 \<le> rb" and sig: "unat sig < 2 ^ (Suc fb + rb)"
    and norm: "2 ^ (fb + rb) \<le> unat sig \<or> e \<le> 0" and e: "- 32768 \<le> e" "e < 32768"
    and X: "X = x * 2 powi (least_exp fb ebit + e - int rb)"
  shows "rounds_word fb ebit (rmode_of (softfloat_roundingMode s)) sg X (fst (roundPack sg e sig s))"
  using st(2) by (intro roundPack_rounds_near [OF stk_near [OF st(1)] _ sig norm e X]) simp

end

subsection \<open>Both routines satisfy it\<close>

lemma xor_eq_0_iff: "v XOR w = 0 \<longleftrightarrow> v = w" for v w :: "'a::len word"
  by (auto simp: bit_eq_iff bit_simps)

lemma unat_and_7F: "unat (sig AND 0x7F) = unat sig mod 2 ^ 7" for sig :: u64
  using unat_and_mask [of sig 7] by (simp add: mask_eq_exp_minus_1)

lemma unat_and_3FF: "unat (sig AND 0x3FF) = unat sig mod 2 ^ 10" for sig :: u64
  using unat_and_mask [of sig 10] by (simp add: mask_eq_exp_minus_1)

lemma roundIncrementF32:
  "unat (if m \<noteq> softfloat_round_near_even \<and> m \<noteq> softfloat_round_near_maxMag
         then (if m = (if sign then softfloat_round_min else softfloat_round_max) then 0x7F else 0)
         else 0x40 :: u8) = rinc (rmode_of m) sign 7"
  by (simp add: rmode_of_def)

lemma roundIncrementF64:
  "unat (if m \<noteq> softfloat_round_near_even \<and> m \<noteq> softfloat_round_near_maxMag
         then (if m = (if sign then softfloat_round_min else softfloat_round_max) then 0x3FF else 0)
         else 0x200 :: u64) = rinc (rmode_of m) sign 10"
  by (simp add: rmode_of_def)

lemma rmode_of_RNE: "rmode_of m = RNE \<longleftrightarrow> m = softfloat_round_near_even"
  by (simp add: rmode_of_def)

lemma unat_rounded_sig:
  fixes sig inc :: u64
  assumes k: "0 < k" and inc: "unat inc = rinc m neg k" and sig: "unat sig < 2 ^ 63" "k < 64"
    and c: "c \<longleftrightarrow> m = RNE \<and> unat sig mod 2 ^ k = 2 ^ (k - 1)"
  shows "unat (drop_bit k (sig + inc) AND NOT (of_bool c)) = nrnd m neg (unat sig) k"
proof -
  have "unat inc < 2 ^ 63"
  proof -
    have "rinc m neg k < 2 ^ k" by (rule rinc_less [OF k])
    also have "(2::nat) ^ k \<le> 2 ^ 63" using sig(2) by (intro power_increasing) simp_all
    finally show ?thesis by (simp only: inc)
  qed
  then have "unat (sig + inc) = unat sig + rinc m neg k"
    using sig(1) by (subst unat_add_less) (simp_all add: inc)
  then show ?thesis
    by (simp only: unat_and_not_of_bool unat_shr nrnd_via_rinc [OF k] c) (simp add: conj_assoc)
qed

lemma len32_eq: "LENGTH(32) = 32"
  by simp

lemma roundPackToF32_pack_eq:
  fixes sig :: u64 and m :: u8
  assumes sig: "unat sig < 2 ^ 31" and inc: "unat inc = rinc (rmode_of m) sg 7" and e: "0 \<le> e" "e \<le> 0xFD"
  defines "N \<equiv> nrnd (rmode_of m) sg (unat sig) 7"
  shows "unat (fst (roundPackToF32_pack sg e sig (m = softfloat_round_near_even) inc (ucast (sig AND 0x7F)) s))
           = of_bool sg * 2 ^ 31 + ((if N = 0 then 0 else nat e * 2 ^ 23) + N)"
    and "snd (roundPackToF32_pack sg e sig (m = softfloat_round_near_even) inc (ucast (sig AND 0x7F)) s)
           = softfloat_raiseFlags (if unat sig mod 2 ^ 7 = 0 then 0 else softfloat_flag_inexact) s"
proof -
  define bits :: u8 where "bits = ucast (sig AND 0x7F)"
  have b: "unat bits = unat sig mod 2 ^ 7"
    by (simp add: bits_def unat_ucast_mod unat_and_7F)
  have tie: "(bits XOR 0x40 = 0 \<and> m = softfloat_round_near_even) \<longleftrightarrow>
      rmode_of m = RNE \<and> unat sig mod 2 ^ 7 = 2 ^ (7 - 1)"
    unfolding xor_eq_0_iff rmode_of_RNE word_unat_eq_iff [of bits] b by auto
  have inc64: "unat (ucast inc :: u64) = rinc (rmode_of m) sg 7"
    using unat_lt_pow [of inc] by (simp add: unat_ucast_mod inc [symmetric])
  define z where "z = drop_bit 7 (sig + ucast inc) AND
    NOT (of_bool (bits XOR 0x40 = 0 \<and> m = softfloat_round_near_even))"
  have z: "unat z = N"
    unfolding z_def N_def using sig by (intro unat_rounded_sig inc64 tie) simp_all
  have "N \<le> 2 ^ 24" unfolding N_def using nrnd_le [of "unat sig" 24 7] sig by simp
  moreover have "nat e * 2 ^ 23 \<le> 0xFD * 2 ^ 23" using e by (intro mult_le_mono1) simp
  ultimately have "nat (if z \<noteq> 0 then e else 0) * 2 ^ 23 + unat z < 2 ^ 31" by (simp add: z)
  from packToF32UI_eq [OF _ _ this, of sg] e
  have "unat (packToF32UI sg (if z \<noteq> 0 then e else 0) z)
      = of_bool sg * 2 ^ 31 + (nat (if z \<noteq> 0 then e else 0) * 2 ^ 23 + N)" by (simp add: z)
  moreover have "z \<noteq> 0 \<longleftrightarrow> N \<noteq> 0" using z by (metis unat_eq_zero)
  ultimately have p: "unat (packToF32UI sg (if z \<noteq> 0 then e else 0) z)
      = of_bool sg * 2 ^ 31 + ((if N = 0 then 0 else nat e * 2 ^ 23) + N)" by simp
  moreover have "of_bool sg * 2 ^ 31 + ((if N = 0 then 0 else nat e * 2 ^ 23) + N) < 2 ^ 32"
    using \<open>N \<le> 2 ^ 24\<close> \<open>nat e * 2 ^ 23 \<le> 0xFD * 2 ^ 23\<close> by (cases sg) simp_all
  ultimately show "unat (fst (roundPackToF32_pack sg e sig (m = softfloat_round_near_even) inc
      (ucast (sig AND 0x7F)) s)) = of_bool sg * 2 ^ 31 + ((if N = 0 then 0 else nat e * 2 ^ 23) + N)"
    unfolding roundPackToF32_pack_def Let_def bits_def [symmetric] z_def [symmetric] fst_conv
    by (simp only: unat_ucast_mod p mod_less len32_eq)
  have "bits \<noteq> 0 \<longleftrightarrow> unat sig mod 2 ^ 7 \<noteq> 0" using b by (metis unat_eq_zero)
  then show "snd (roundPackToF32_pack sg e sig (m = softfloat_round_near_even) inc (ucast (sig AND 0x7F)) s)
      = softfloat_raiseFlags (if unat sig mod 2 ^ 7 = 0 then 0 else softfloat_flag_inexact) s"
    unfolding roundPackToF32_pack_def Let_def bits_def [symmetric] snd_conv by simp
qed

lemma uint16_negative:
  assumes "- 32768 \<le> e" "e < 0"
  shows "0x8000 \<le> (word_of_int e :: u16)"
proof -
  have "e mod 65536 = e + 65536" using assms mod_pos_pos_trivial [of "e + 65536" 65536] by simp
  then have "unat (word_of_int e :: u16) = nat (e + 65536)" by (simp add: unat_word_of_int)
  then show ?thesis using assms by (simp add: word_le_nat_alt)
qed

lemma uint16_nonneg:
  assumes "0 \<le> e" "e < 32768"
  shows "unat (word_of_int e :: u16) = nat e"
  using assms by (intro unat_word_of_int_less) simp_all

lemma unat_ucast32:
  fixes sig :: u64
  assumes "unat sig < 2 ^ 32"
  shows "unat (ucast sig :: u32) = unat sig"
  using assms by (simp add: unat_ucast_mod)

lemma unat_jam32:
  fixes sig :: u64
  assumes "unat sig < 2 ^ 32" and "e < 0" "- 32768 \<le> e"
  shows "unat (ucast (softfloat_shiftRightJam32 (ucast sig) (word_of_int (- e))) :: u64)
           = jam (nat (- e)) (unat sig)"
proof -
  have c: "unat (word_of_int (- e) :: u64) = nat (- e)"
    using assms by (intro unat_word_of_int_less) simp_all
  then have "(word_of_int (- e) :: u64) \<noteq> 0" using assms(2) by auto
  from unat_shiftRightJam32 [OF this, of "ucast sig"]
  have "unat (softfloat_shiftRightJam32 (ucast sig) (word_of_int (- e))) = jam (nat (- e)) (unat sig)"
    by (simp only: c unat_ucast32 [OF assms(1)])
  then show ?thesis
    using unat_lt_pow [of "softfloat_shiftRightJam32 (ucast sig) (word_of_int (- e))"]
    by (simp add: unat_ucast_mod)
qed

lemma softfloat_roundPackToF32_eq:
  fixes s :: softfloat_state
  assumes sig: "unat sig < 2 ^ 31" and e: "- 32768 \<le> e" "e < 32768"
  defines "m \<equiv> rmode_of (softfloat_roundingMode s)"
  shows "unat (fst (softfloat_roundPackToF32 sg e sig s))
           = of_bool sg * 2 ^ 31 + rp_magn 23 8 7 m sg e (unat sig)"
    and "snd (softfloat_roundPackToF32 sg e sig s) = softfloat_raiseFlags
           (rp_flags 23 8 7 (softfloat_detectTininess s = softfloat_tininess_beforeRounding) m sg e (unat sig)) s"
proof -
  define rm where "rm = softfloat_roundingMode s"
  define inc where "inc = (if rm \<noteq> softfloat_round_near_even \<and> rm \<noteq> softfloat_round_near_maxMag
         then (if rm = (if sg then softfloat_round_min else softfloat_round_max) then 0x7F else 0)
         else 0x40 :: u8)"
  have inc: "unat inc = rinc m sg 7" unfolding inc_def m_def rm_def by (rule roundIncrementF32)
  have ri: "rinc m sg 7 < 2 ^ 7" by (rule rinc_less) simp
  have "unat (ucast inc :: u64) = rinc m sg 7" using ri by (simp add: unat_ucast_mod inc)
  then have sum: "unat (sig + ucast inc) = unat sig + rinc m sg 7"
    using sig ri by (subst unat_add_less) simp_all
  have cmp: "0x80000000 \<le> sig + ucast inc \<longleftrightarrow> 2 ^ (Suc 23 + 7) \<le> unat sig + rinc m sg 7"
    by (simp add: word_le_nat_alt sum)
  note unf = softfloat_roundPackToF32_def Let_def rm_def [symmetric] inc_def [symmetric]
  have mm: "rmode_of rm = m" by (simp add: m_def rm_def)
  note pk = roundPackToF32_pack_eq [of _ inc rm sg, unfolded mm]
  have inc0: "inc = 0 \<longleftrightarrow> toward_zero m sg"
    using inc rinc_eq_0_iff [of 7 m sg] by (metis unat_eq_zero zero_less_numeral)
  have ovf: "unat (ucast (packToF32UI sg 0xFF 0 - of_bool (inc = 0)) :: u32)
      = of_bool sg * 2 ^ 31 + (inf_magn 23 8 - of_bool (toward_zero m sg))"
  proof -
    have p: "unat (packToF32UI sg 0xFF 0) = of_bool sg * 2 ^ 31 + 0xFF * 2 ^ 23"
      using packToF32UI_eq [of "0xFF" 0 sg] by simp
    then have "unat (packToF32UI sg 0xFF 0 - of_bool (inc = 0))
        = of_bool sg * 2 ^ 31 + 0xFF * 2 ^ 23 - of_bool (inc = 0)"
      by (subst unat_diff_le) (simp_all add: p)
    then show ?thesis
      by (simp only: unat_ucast_mod inc0) (cases sg; simp add: inf_magn_def)
  qed
  have "unat (fst (softfloat_roundPackToF32 sg e sig s))
           = of_bool sg * 2 ^ 31 + rp_magn 23 8 7 m sg e (unat sig)
    \<and> snd (softfloat_roundPackToF32 sg e sig s) = softfloat_raiseFlags
           (rp_flags 23 8 7 (softfloat_detectTininess s = softfloat_tininess_beforeRounding) m sg e (unat sig)) s"
  proof -
    consider "e < 0" | "0 \<le> e" "e < 0xFD" | "e = 0xFD" | "0xFD < e" by linarith
    then show ?thesis
    proof cases
      case 1
      define sig' where "sig' = (ucast (softfloat_shiftRightJam32 (ucast sig) (word_of_int (- e))) :: u64)"
      have sig': "unat sig' = jam (nat (- e)) (unat sig)"
        unfolding sig'_def using 1 e(1) sig by (intro unat_jam32) simp_all
      have lt: "unat sig' < 2 ^ 31" unfolding sig' using sig by (intro jam_less) simp_all
      have "0xFD \<le> (word_of_int e :: u16)"
        using uint16_negative [OF e(1) 1] by (rule order_trans [rotated]) simp
      then have eq: "softfloat_roundPackToF32 sg e sig s =
          roundPackToF32_pack sg 0 sig' (rm = softfloat_round_near_even) inc (ucast (sig' AND 0x7F))
            (if (softfloat_detectTininess s = softfloat_tininess_beforeRounding \<or> e < - 1
                 \<or> sig + ucast inc < 0x80000000) \<and> (ucast (sig' AND 0x7F) :: u8) \<noteq> 0
             then softfloat_raiseFlags softfloat_flag_underflow s else s)"
        unfolding unf sig'_def [symmetric] using 1 by simp
      have "unat (ucast (sig' AND 0x7F) :: u8) = unat sig' mod 2 ^ 7"
        by (simp add: unat_ucast_mod unat_and_7F)
      then have bits: "(ucast (sig' AND 0x7F) :: u8) \<noteq> 0 \<longleftrightarrow> unat sig' mod 2 ^ 7 \<noteq> 0"
        by (metis unat_eq_zero)
      have tiny: "sig + ucast inc < 0x80000000 \<longleftrightarrow> unat sig + rinc m sg 7 < 2 ^ (Suc 23 + 7)"
        using cmp by (simp only: not_le [symmetric])
      have "\<not> rp_overflow 23 8 7 m sg e (unat sig)" using 1 by (simp add: rp_overflow_def)
      then show ?thesis
        unfolding eq bits tiny
        using 1 pk [OF lt inc, of 0] by (simp add: rp_magn_def rp_flags_def rp_sig_def sig')
    next
      case 2
      then have "\<not> 0xFD \<le> (word_of_int e :: u16)" by (simp add: word_le_nat_alt uint16_nonneg)
      with 2 pk [OF sig inc, of e] show ?thesis
        by (simp add: unf rp_magn_def rp_overflow_def rp_flags_def rp_sig_def)
    next
      case 3
      then have u: "0xFD \<le> (word_of_int e :: u16)" by simp
      show ?thesis
      proof (cases "rp_overflow 23 8 7 m sg e (unat sig)")
        case True
        then show ?thesis
          using 3 u cmp ovf by (simp add: unf rp_magn_def rp_overflow_def rp_flags_def)
      next
        case False
        then show ?thesis
          using 3 u cmp pk [OF sig inc, of e]
          by (simp add: unf rp_magn_def rp_overflow_def rp_flags_def rp_sig_def)
      qed
    next
      case 4
      then have "0xFD \<le> (word_of_int e :: u16)" using e(2) by (simp add: word_le_nat_alt uint16_nonneg)
      then show ?thesis
        using 4 ovf by (simp add: unf rp_magn_def rp_overflow_def rp_flags_def)
    qed
  qed
  then show "unat (fst (softfloat_roundPackToF32 sg e sig s))
           = of_bool sg * 2 ^ 31 + rp_magn 23 8 7 m sg e (unat sig)"
    and "snd (softfloat_roundPackToF32 sg e sig s) = softfloat_raiseFlags
           (rp_flags 23 8 7 (softfloat_detectTininess s = softfloat_tininess_beforeRounding) m sg e (unat sig)) s"
    by simp_all
qed

lemma unat_jam64:
  fixes sig :: u64
  assumes "e < 0" "- 32768 \<le> e"
  shows "unat (softfloat_shiftRightJam64 sig (word_of_int (- e))) = jam (nat (- e)) (unat sig)"
proof -
  have c: "unat (word_of_int (- e) :: u64) = nat (- e)"
    using assms by (intro unat_word_of_int_less) simp_all
  then have "(word_of_int (- e) :: u64) \<noteq> 0" using assms(1) by auto
  from unat_shiftRightJam64 [OF this, of sig] show ?thesis by (simp only: c)
qed

lemma roundPackToF64_pack_eq:
  fixes sig :: u64 and m :: u8
  assumes sig: "unat sig < 2 ^ 63" and inc: "unat inc = rinc (rmode_of m) sg 10" and e: "0 \<le> e" "e \<le> 0x7FD"
  defines "N \<equiv> nrnd (rmode_of m) sg (unat sig) 10"
  shows "unat (fst (roundPackToF64_pack sg e sig (m = softfloat_round_near_even) inc (sig AND 0x3FF) s))
           = of_bool sg * 2 ^ 63 + ((if N = 0 then 0 else nat e * 2 ^ 52) + N)"
    and "snd (roundPackToF64_pack sg e sig (m = softfloat_round_near_even) inc (sig AND 0x3FF) s)
           = softfloat_raiseFlags (if unat sig mod 2 ^ 10 = 0 then 0 else softfloat_flag_inexact) s"
proof -
  define bits :: u64 where "bits = sig AND 0x3FF"
  have b: "unat bits = unat sig mod 2 ^ 10"
    by (simp add: bits_def unat_ucast_mod unat_and_3FF)
  have tie: "(bits XOR 0x200 = 0 \<and> m = softfloat_round_near_even) \<longleftrightarrow>
      rmode_of m = RNE \<and> unat sig mod 2 ^ 10 = 2 ^ (10 - 1)"
    unfolding xor_eq_0_iff rmode_of_RNE word_unat_eq_iff [of bits] b by auto
  have inc64: "unat (inc :: u64) = rinc (rmode_of m) sg 10"
    using unat_lt_pow [of inc] by (simp add: unat_ucast_mod inc [symmetric])
  define z where "z = drop_bit 10 (sig + inc) AND
    NOT (of_bool (bits XOR 0x200 = 0 \<and> m = softfloat_round_near_even))"
  have z: "unat z = N"
    unfolding z_def N_def using sig by (intro unat_rounded_sig inc64 tie) simp_all
  have "N \<le> 2 ^ 53" unfolding N_def using nrnd_le [of "unat sig" 53 10] sig by simp
  moreover have "nat e * 2 ^ 52 \<le> 0x7FD * 2 ^ 52" using e by (intro mult_le_mono1) simp
  ultimately have "nat (if z \<noteq> 0 then e else 0) * 2 ^ 52 + unat z < 2 ^ 63" by (simp add: z)
  from packToF64UI_eq [OF _ _ this, of sg] e
  have "unat (packToF64UI sg (if z \<noteq> 0 then e else 0) z)
      = of_bool sg * 2 ^ 63 + (nat (if z \<noteq> 0 then e else 0) * 2 ^ 52 + N)" by (simp add: z)
  moreover have "z \<noteq> 0 \<longleftrightarrow> N \<noteq> 0" using z by (metis unat_eq_zero)
  ultimately have p: "unat (packToF64UI sg (if z \<noteq> 0 then e else 0) z)
      = of_bool sg * 2 ^ 63 + ((if N = 0 then 0 else nat e * 2 ^ 52) + N)" by simp
  moreover have "of_bool sg * 2 ^ 63 + ((if N = 0 then 0 else nat e * 2 ^ 52) + N) < 2 ^ 64"
    using \<open>N \<le> 2 ^ 53\<close> \<open>nat e * 2 ^ 52 \<le> 0x7FD * 2 ^ 52\<close> by (cases sg) simp_all
  ultimately show "unat (fst (roundPackToF64_pack sg e sig (m = softfloat_round_near_even) inc
      (sig AND 0x3FF) s)) = of_bool sg * 2 ^ 63 + ((if N = 0 then 0 else nat e * 2 ^ 52) + N)"
    unfolding roundPackToF64_pack_def Let_def bits_def [symmetric] z_def [symmetric] fst_conv
    by (simp only: unat_ucast_mod p mod_less len32_eq)
  have "bits \<noteq> 0 \<longleftrightarrow> unat sig mod 2 ^ 10 \<noteq> 0" using b by (metis unat_eq_zero)
  then show "snd (roundPackToF64_pack sg e sig (m = softfloat_round_near_even) inc (sig AND 0x3FF) s)
      = softfloat_raiseFlags (if unat sig mod 2 ^ 10 = 0 then 0 else softfloat_flag_inexact) s"
    unfolding roundPackToF64_pack_def Let_def bits_def [symmetric] snd_conv by simp
qed

lemma softfloat_roundPackToF64_eq:
  fixes s :: softfloat_state
  assumes sig: "unat sig < 2 ^ 63" and e: "- 32768 \<le> e" "e < 32768"
  defines "m \<equiv> rmode_of (softfloat_roundingMode s)"
  shows "unat (fst (softfloat_roundPackToF64 sg e sig s))
           = of_bool sg * 2 ^ 63 + rp_magn 52 11 10 m sg e (unat sig)"
    and "snd (softfloat_roundPackToF64 sg e sig s) = softfloat_raiseFlags
           (rp_flags 52 11 10 (softfloat_detectTininess s = softfloat_tininess_beforeRounding) m sg e (unat sig)) s"
proof -
  define rm where "rm = softfloat_roundingMode s"
  define inc where "inc = (if rm \<noteq> softfloat_round_near_even \<and> rm \<noteq> softfloat_round_near_maxMag
         then (if rm = (if sg then softfloat_round_min else softfloat_round_max) then 0x3FF else 0)
         else 0x200 :: u64)"
  have inc: "unat inc = rinc m sg 10" unfolding inc_def m_def rm_def by (rule roundIncrementF64)
  have ri: "rinc m sg 10 < 2 ^ 10" by (rule rinc_less) simp
  have "unat (inc :: u64) = rinc m sg 10" using ri by (simp add: unat_ucast_mod inc)
  then have sum: "unat (sig + inc) = unat sig + rinc m sg 10"
    using sig ri by (subst unat_add_less) simp_all
  have cmp: "0x8000000000000000 \<le> sig + inc \<longleftrightarrow> 2 ^ (Suc 52 + 10) \<le> unat sig + rinc m sg 10"
    by (simp add: word_le_nat_alt sum)
  note unf = softfloat_roundPackToF64_def Let_def rm_def [symmetric] inc_def [symmetric]
  have mm: "rmode_of rm = m" by (simp add: m_def rm_def)
  note pk = roundPackToF64_pack_eq [of _ inc rm sg, unfolded mm]
  have inc0: "inc = 0 \<longleftrightarrow> toward_zero m sg"
    using inc rinc_eq_0_iff [of 10 m sg] by (metis unat_eq_zero zero_less_numeral)
  have ovf: "unat (packToF64UI sg 0x7FF 0 - of_bool (inc = 0))
      = of_bool sg * 2 ^ 63 + (inf_magn 52 11 - of_bool (toward_zero m sg))"
  proof -
    have p: "unat (packToF64UI sg 0x7FF 0) = of_bool sg * 2 ^ 63 + 0x7FF * 2 ^ 52"
      using packToF64UI_eq [of "0x7FF" 0 sg] by simp
    then have "unat (packToF64UI sg 0x7FF 0 - of_bool (inc = 0))
        = of_bool sg * 2 ^ 63 + 0x7FF * 2 ^ 52 - of_bool (inc = 0)"
      by (subst unat_diff_le) (simp_all add: p)
    then show ?thesis
      by (simp only: unat_ucast_mod inc0) (cases sg; simp add: inf_magn_def)
  qed
  have "unat (fst (softfloat_roundPackToF64 sg e sig s))
           = of_bool sg * 2 ^ 63 + rp_magn 52 11 10 m sg e (unat sig)
    \<and> snd (softfloat_roundPackToF64 sg e sig s) = softfloat_raiseFlags
           (rp_flags 52 11 10 (softfloat_detectTininess s = softfloat_tininess_beforeRounding) m sg e (unat sig)) s"
  proof -
    consider "e < 0" | "0 \<le> e" "e < 0x7FD" | "e = 0x7FD" | "0x7FD < e" by linarith
    then show ?thesis
    proof cases
      case 1
      define sig' where "sig' = softfloat_shiftRightJam64 sig (word_of_int (- e))"
      have sig': "unat sig' = jam (nat (- e)) (unat sig)"
        unfolding sig'_def using 1 e(1) sig by (intro unat_jam64) simp_all
      have lt: "unat sig' < 2 ^ 63" unfolding sig' using sig by (intro jam_less) simp_all
      have "0x7FD \<le> (word_of_int e :: u16)"
        using uint16_negative [OF e(1) 1] by (rule order_trans [rotated]) simp
      then have eq: "softfloat_roundPackToF64 sg e sig s =
          roundPackToF64_pack sg 0 sig' (rm = softfloat_round_near_even) inc (sig' AND 0x3FF)
            (if (softfloat_detectTininess s = softfloat_tininess_beforeRounding \<or> e < - 1
                 \<or> sig + inc < 0x8000000000000000) \<and> (sig' AND 0x3FF) \<noteq> 0
             then softfloat_raiseFlags softfloat_flag_underflow s else s)"
        unfolding unf sig'_def [symmetric] using 1 by simp
      have "unat (sig' AND 0x3FF) = unat sig' mod 2 ^ 10"
        by (simp add: unat_ucast_mod unat_and_3FF)
      then have bits: "(sig' AND 0x3FF) \<noteq> 0 \<longleftrightarrow> unat sig' mod 2 ^ 10 \<noteq> 0"
        by (metis unat_eq_zero)
      have tiny: "sig + inc < 0x8000000000000000 \<longleftrightarrow> unat sig + rinc m sg 10 < 2 ^ (Suc 52 + 10)"
        using cmp by (simp only: not_le [symmetric])
      have "\<not> rp_overflow 52 11 10 m sg e (unat sig)" using 1 by (simp add: rp_overflow_def)
      then show ?thesis
        unfolding eq bits tiny
        using 1 pk [OF lt inc, of 0] by (simp add: rp_magn_def rp_flags_def rp_sig_def sig')
    next
      case 2
      then have "\<not> 0x7FD \<le> (word_of_int e :: u16)" by (simp add: word_le_nat_alt uint16_nonneg)
      with 2 pk [OF sig inc, of e] show ?thesis
        by (simp add: unf rp_magn_def rp_overflow_def rp_flags_def rp_sig_def)
    next
      case 3
      then have u: "0x7FD \<le> (word_of_int e :: u16)" by simp
      show ?thesis
      proof (cases "rp_overflow 52 11 10 m sg e (unat sig)")
        case True
        then show ?thesis
          using 3 u cmp ovf by (simp add: unf rp_magn_def rp_overflow_def rp_flags_def)
      next
        case False
        then show ?thesis
          using 3 u cmp pk [OF sig inc, of e]
          by (simp add: unf rp_magn_def rp_overflow_def rp_flags_def rp_sig_def)
      qed
    next
      case 4
      then have "0x7FD \<le> (word_of_int e :: u16)" using e(2) by (simp add: word_le_nat_alt uint16_nonneg)
      then show ?thesis
        using 4 ovf by (simp add: unf rp_magn_def rp_overflow_def rp_flags_def)
    qed
  qed
  then show "unat (fst (softfloat_roundPackToF64 sg e sig s))
           = of_bool sg * 2 ^ 63 + rp_magn 52 11 10 m sg e (unat sig)"
    and "snd (softfloat_roundPackToF64 sg e sig s) = softfloat_raiseFlags
           (rp_flags 52 11 10 (softfloat_detectTininess s = softfloat_tininess_beforeRounding) m sg e (unat sig)) s"
    by simp_all
qed


interpretation rp32: round_pack 23 8 signF32UI expF32UI fracF32UI packToF32UI 7 softfloat_roundPackToF32
  by unfold_locales (simp_all add: softfloat_roundPackToF32_eq)

interpretation rp64: round_pack 52 11 signF64UI expF64UI fracF64UI packToF64UI 10 softfloat_roundPackToF64
  by unfold_locales (simp_all add: softfloat_roundPackToF64_eq)

subsection \<open>Normalizing first\<close>

lemma nrnd_exact: "nrnd m neg (q * 2 ^ k) k = q"
proof -
  have "int (nrnd m neg (q * 2 ^ k) k) = int q"
    by (simp flip: rnd_nat) (metis of_int_of_nat_eq rnd_of_int)
  then show ?thesis by (simp only: of_nat_eq_iff)
qed

text \<open>A significand that keeps its place when it is shifted by the round bits is packed as it is.\<close>

lemma rp_exact:
  assumes "0 \<le> e" "e < 2 ^ ebit - 3" "0 < q"
  shows "rp_magn fb ebit rb m neg e (q * 2 ^ rb) = nat e * 2 ^ fb + q"
    and "rp_flags fb ebit rb before m neg e (q * 2 ^ rb) = 0"
  using assms by (simp_all add: rp_magn_def rp_flags_def rp_overflow_def rp_sig_def nrnd_exact)

lemma uint16_less_iff:
  assumes "- 32768 \<le> e" "e < 32768" "k < 0x8000"
  shows "(word_of_int e :: u16) < k \<longleftrightarrow> 0 \<le> e \<and> e < int (unat k)"
proof (cases "0 \<le> e")
  case True
  then have "(word_of_int e :: u16) < k \<longleftrightarrow> nat e < unat k"
    using assms(2) by (simp add: word_less_nat_alt uint16_nonneg)
  with True show ?thesis by linarith
next
  case False
  then have "0x8000 \<le> (word_of_int e :: u16)" using uint16_negative assms(1) by simp
  then have "\<not> (word_of_int e :: u16) < k" using assms(3) by (meson leD le_less_trans less_imp_le)
  with False show ?thesis by simp
qed

lemma normalizes_ge:
  assumes "normalizes w n c" "n < 2 ^ (w - k)" "k \<le> w"
  shows "k \<le> c"
proof (rule ccontr)
  assume "\<not> k \<le> c"
  then have "Suc c \<le> k" by simp
  then have "n * 2 ^ Suc c \<le> n * 2 ^ k" by (intro mult_le_mono2 power_increasing) simp_all
  also have "\<dots> < 2 ^ (w - k) * 2 ^ k" using assms(2) by simp
  also have "\<dots> = 2 ^ w" using assms(3) by (simp flip: power_add)
  finally show False using assms(1) by (simp add: normalizes_def)
qed

lemma normalizes_Suc:
  assumes "normalizes w n (Suc c)"
  shows "2 ^ w \<le> 4 * (n * 2 ^ c)" "2 * (n * 2 ^ c) < 2 ^ w"
  using assms by (simp_all add: normalizes_def)

locale norm_round_pack = round_pack fb ebit signUI expUI fracUI packUI rb roundPack
  for fb ebit :: nat and signUI :: "u64 \<Rightarrow> bool" and expUI :: "u64 \<Rightarrow> int" and fracUI :: "u64 \<Rightarrow> u64"
    and packUI :: "bool \<Rightarrow> int \<Rightarrow> u64 \<Rightarrow> u64" and rb :: nat
    and roundPack :: "bool \<Rightarrow> int \<Rightarrow> u64 \<Rightarrow> softfloat_state \<Rightarrow> 'w::len word \<times> softfloat_state" +
  fixes normRoundPack :: "bool \<Rightarrow> int \<Rightarrow> u64 \<Rightarrow> softfloat_state \<Rightarrow> 'w word \<times> softfloat_state"
  assumes normRoundPack_eq: "sig \<noteq> 0 \<Longrightarrow> unat sig < 2 ^ (Suc fb + rb) \<Longrightarrow>
      - 32000 \<le> e \<Longrightarrow> e < 32768 \<Longrightarrow>
      \<exists>sh. 2 ^ (fb + rb) \<le> unat sig * 2 ^ sh \<and> unat sig * 2 ^ sh < 2 ^ (Suc fb + rb) \<and> sh < 64 \<and>
        unat (fst (normRoundPack sg e sig s)) = of_bool sg * 2 ^ (fb + ebit)
          + rp_magn fb ebit rb (rmode_of (softfloat_roundingMode s)) sg (e - int sh) (unat sig * 2 ^ sh) \<and>
        snd (normRoundPack sg e sig s) = softfloat_raiseFlags
          (rp_flags fb ebit rb (softfloat_detectTininess s = softfloat_tininess_beforeRounding)
             (rmode_of (softfloat_roundingMode s)) sg (e - int sh) (unat sig * 2 ^ sh)) s"

context norm_round_pack
begin

lemma normRoundPack_rounds:
  assumes st: "x = real (unat sig) \<or> stk j x (unat sig) \<and> 2 ^ (fb + rb - k) \<le> unat sig \<and> j + k + 2 \<le> rb"
    and sig: "sig \<noteq> 0" "unat sig < 2 ^ (Suc fb + rb)" and e: "- 32000 \<le> e" "e < 32768"
    and X: "X = x * 2 powi (least_exp fb ebit + e - int rb)"
  shows "rounds_word fb ebit (rmode_of (softfloat_roundingMode s)) sg X (fst (normRoundPack sg e sig s))"
proof -
  from normRoundPack_eq [OF sig e, of sg s] obtain sh where
    n: "2 ^ (fb + rb) \<le> unat sig * 2 ^ sh" "unat sig * 2 ^ sh < 2 ^ (Suc fb + rb)" and
    r: "unat (fst (normRoundPack sg e sig s)) = of_bool sg * 2 ^ (fb + ebit)
          + rp_magn fb ebit rb (rmode_of (softfloat_roundingMode s)) sg (e - int sh) (unat sig * 2 ^ sh)"
    by blast
  have "2 powi (least_exp fb ebit + e - int rb) =
      (2::real) ^ sh * 2 powi (least_exp fb ebit + (e - int sh) - int rb)"
    unfolding powi_nat [symmetric] powi_split [symmetric] by (simp add: algebra_simps)
  then have X': "X = x * 2 ^ sh * 2 powi (least_exp fb ebit + (e - int sh) - int rb)" by (simp add: X)
  have "\<exists>i. i + 2 \<le> rb \<and> stk i (x * 2 ^ sh) (unat sig * 2 ^ sh)"
  proof (cases "x = real (unat sig)")
    case True
    then have "x * 2 ^ sh = real (unat sig * 2 ^ sh)" by simp
    then show ?thesis using rb(1) stk_exact [of 0 "unat sig * 2 ^ sh"] by (intro exI [of _ 0]) simp
  next
    case False
    with st have st': "stk j x (unat sig)" "2 ^ (fb + rb - k) \<le> unat sig" "j + k + 2 \<le> rb" by auto
    have "sh \<le> k"
    proof (rule ccontr)
      assume "\<not> sh \<le> k"
      then have "(2::nat) ^ (Suc fb + rb) \<le> 2 ^ (fb + rb - k + sh)" using st'(3) by (intro power_increasing) simp_all
      also have "\<dots> \<le> unat sig * 2 ^ sh" using st'(2) by (simp add: power_add)
      finally show False using n(2) by simp
    qed
    then show ?thesis using stk_shift [OF st'(1), of sh] st'(3) by (intro exI [of _ "j + sh"]) simp
  qed
  then obtain i where "Suc i + 1 \<le> rb" "near (Suc i) (x * 2 ^ sh) (unat sig * 2 ^ sh)"
    using stk_near by fastforce
  from rp_ieee [OF width(2,3) this(1) rb(1) this(2) n(2) _ X'] n(1) r show ?thesis
    unfolding rounds_word_def by blast
qed

end

lemma softfloat_normRoundPackToF32_eq:
  fixes s :: softfloat_state
  assumes sig: "sig \<noteq> 0" "unat sig < 2 ^ 31" and e: "- 32000 \<le> e" "e < 32768"
  defines "m \<equiv> rmode_of (softfloat_roundingMode s)"
    and "sh \<equiv> unat (softfloat_countLeadingZeros32 (ucast sig)) - 1"
  shows "2 ^ 30 \<le> unat sig * 2 ^ sh \<and> unat sig * 2 ^ sh < 2 ^ 31 \<and> sh < 64 \<and>
    unat (fst (softfloat_normRoundPackToF32 sg e sig s))
      = of_bool sg * 2 ^ 31 + rp_magn 23 8 7 m sg (e - int sh) (unat sig * 2 ^ sh) \<and>
    snd (softfloat_normRoundPackToF32 sg e sig s) = softfloat_raiseFlags
      (rp_flags 23 8 7 (softfloat_detectTininess s = softfloat_tininess_beforeRounding) m sg
        (e - int sh) (unat sig * 2 ^ sh)) s"
proof -
  define c where "c = unat (softfloat_countLeadingZeros32 (ucast sig))"
  have u: "unat (ucast sig :: u32) = unat sig" using sig(2) by (intro unat_ucast32) simp
  then have "(ucast sig :: u32) \<noteq> 0" using sig(1) by (metis unat_eq_zero)
  note nz = countLeadingZeros32_normalizes [OF this, unfolded u, folded c_def]
  have "1 \<le> c" using normalizes_ge [OF nz(1), of 1] sig(2) by simp
  then have c: "c = Suc sh" by (simp add: sh_def c_def)
  have b: "2 ^ 30 \<le> unat sig * 2 ^ sh" "unat sig * 2 ^ sh < 2 ^ 31" and sh: "sh < 31"
    using normalizes_Suc [of 32 "unat sig" sh] nz by (simp_all add: c)
  define e' where "e' = e - int sh"
  have e': "- 32768 \<le> e'" "e' < 32768" using e sh by (simp_all add: e'_def)
  have eq: "softfloat_normRoundPackToF32 sg e sig s =
      (if 7 \<le> sh \<and> (word_of_int e' :: u16) < 0xFD
       then (ucast (packToF32UI sg e' (push_bit (sh - 7) sig)), s)
       else softfloat_roundPackToF32 sg e' (push_bit sh sig) s)"
    unfolding softfloat_normRoundPackToF32_def Let_def c_def [symmetric] e'_def
    using sig(1) by (simp add: c nat_diff_distrib')
  show ?thesis
  proof (cases "7 \<le> sh \<and> (word_of_int e' :: u16) < 0xFD")
    case True
    then have ee: "0 \<le> e'" "e' < 0xFD" using e' uint16_less_iff [of e' "0xFD"] by simp_all
    define q where "q = unat sig * 2 ^ (sh - 7)"
    have "(2::nat) ^ sh = 2 ^ (sh - 7) * 2 ^ 7" using True by (simp only: power_add [symmetric]) simp
    then have q: "unat sig * 2 ^ sh = q * 2 ^ 7" by (simp add: q_def)
    have "unat (push_bit (sh - 7) sig) = q"
      unfolding q_def using b(2) q by (intro unat_shl_less) (simp add: q_def)
    moreover have "q < 2 ^ 24" "0 < q" using b by (simp_all add: q)
    moreover have "nat e' * 2 ^ 23 \<le> 0xFC * 2 ^ 23" using ee by (intro mult_le_mono1) simp
    ultimately have "unat (packToF32UI sg e' (push_bit (sh - 7) sig)) = of_bool sg * 2 ^ 31 + (nat e' * 2 ^ 23 + q)"
      using ee by (subst packToF32UI_eq) simp_all
    moreover have "of_bool sg * 2 ^ 31 + (nat e' * 2 ^ 23 + q) < 2 ^ 32"
      using \<open>q < 2 ^ 24\<close> \<open>nat e' * 2 ^ 23 \<le> 0xFC * 2 ^ 23\<close> by (cases sg) simp_all
    ultimately have "unat (ucast (packToF32UI sg e' (push_bit (sh - 7) sig)) :: u32)
        = of_bool sg * 2 ^ 31 + (nat e' * 2 ^ 23 + q)"
      by (simp only: unat_ucast_mod mod_less len32_eq)
    then show ?thesis
      using True b sh rp_exact [of e' 8 q 23 7] ee \<open>0 < q\<close> by (simp add: eq q e'_def [symmetric])
  next
    case False
    have "unat (push_bit sh sig) = unat sig * 2 ^ sh"
      using b(2) by (intro unat_shl_less) simp
    moreover have "softfloat_normRoundPackToF32 sg e sig s = softfloat_roundPackToF32 sg e' (push_bit sh sig) s"
      unfolding eq using False by (simp only: if_False)
    ultimately show ?thesis
      using b sh e' by (simp add: e'_def [symmetric] softfloat_roundPackToF32_eq m_def)
  qed
qed

lemma softfloat_normRoundPackToF64_eq:
  fixes s :: softfloat_state
  assumes sig: "sig \<noteq> 0" "unat sig < 2 ^ 63" and e: "- 32000 \<le> e" "e < 32768"
  defines "m \<equiv> rmode_of (softfloat_roundingMode s)"
    and "sh \<equiv> unat (softfloat_countLeadingZeros64 sig) - 1"
  shows "2 ^ 62 \<le> unat sig * 2 ^ sh \<and> unat sig * 2 ^ sh < 2 ^ 63 \<and> sh < 64 \<and>
    unat (fst (softfloat_normRoundPackToF64 sg e sig s))
      = of_bool sg * 2 ^ 63 + rp_magn 52 11 10 m sg (e - int sh) (unat sig * 2 ^ sh) \<and>
    snd (softfloat_normRoundPackToF64 sg e sig s) = softfloat_raiseFlags
      (rp_flags 52 11 10 (softfloat_detectTininess s = softfloat_tininess_beforeRounding) m sg
        (e - int sh) (unat sig * 2 ^ sh)) s"
proof -
  define c where "c = unat (softfloat_countLeadingZeros64 sig)"
  note nz = countLeadingZeros64_normalizes [OF sig(1), folded c_def]
  have "1 \<le> c" using normalizes_ge [OF nz(1), of 1] sig(2) by simp
  then have c: "c = Suc sh" by (simp add: sh_def c_def)
  have b: "2 ^ 62 \<le> unat sig * 2 ^ sh" "unat sig * 2 ^ sh < 2 ^ 63" and sh: "sh < 63"
    using normalizes_Suc [of 64 "unat sig" sh] nz by (simp_all add: c)
  define e' where "e' = e - int sh"
  have e': "- 32768 \<le> e'" "e' < 32768" using e sh by (simp_all add: e'_def)
  have eq: "softfloat_normRoundPackToF64 sg e sig s =
      (if 10 \<le> sh \<and> (word_of_int e' :: u16) < 0x7FD
       then (packToF64UI sg e' (push_bit (sh - 10) sig), s)
       else softfloat_roundPackToF64 sg e' (push_bit sh sig) s)"
    unfolding softfloat_normRoundPackToF64_def Let_def c_def [symmetric] e'_def
    using sig(1) by (simp add: c nat_diff_distrib')
  show ?thesis
  proof (cases "10 \<le> sh \<and> (word_of_int e' :: u16) < 0x7FD")
    case True
    then have ee: "0 \<le> e'" "e' < 0x7FD" using e' uint16_less_iff [of e' "0x7FD"] by simp_all
    define q where "q = unat sig * 2 ^ (sh - 10)"
    have "(2::nat) ^ sh = 2 ^ (sh - 10) * 2 ^ 10" using True by (simp only: power_add [symmetric]) simp
    then have q: "unat sig * 2 ^ sh = q * 2 ^ 10" by (simp add: q_def)
    have "unat (push_bit (sh - 10) sig) = q"
      unfolding q_def using b(2) q by (intro unat_shl_less) (simp add: q_def)
    moreover have "q < 2 ^ 53" "0 < q" using b by (simp_all add: q)
    moreover have "nat e' * 2 ^ 52 \<le> 0x7FC * 2 ^ 52" using ee by (intro mult_le_mono1) simp
    ultimately have "unat (packToF64UI sg e' (push_bit (sh - 10) sig)) = of_bool sg * 2 ^ 63 + (nat e' * 2 ^ 52 + q)"
      using ee by (subst packToF64UI_eq) simp_all
    then show ?thesis
      using True b sh rp_exact [of e' 11 q 52 10] ee \<open>0 < q\<close> by (simp add: eq q e'_def [symmetric])
  next
    case False
    have "unat (push_bit sh sig) = unat sig * 2 ^ sh"
      using b(2) by (intro unat_shl_less) simp
    moreover have "softfloat_normRoundPackToF64 sg e sig s = softfloat_roundPackToF64 sg e' (push_bit sh sig) s"
      unfolding eq using False by (simp only: if_False)
    ultimately show ?thesis
      using b sh e' by (simp add: e'_def [symmetric] softfloat_roundPackToF64_eq m_def)
  qed
qed

lemma normRoundPackToF32_ex:
  assumes "sig \<noteq> 0" "unat sig < 2 ^ (Suc 23 + 7)" "- 32000 \<le> e" "e < 32768"
  shows "\<exists>sh. 2 ^ (23 + 7) \<le> unat sig * 2 ^ sh \<and> unat sig * 2 ^ sh < 2 ^ (Suc 23 + 7) \<and> sh < 64 \<and>
    unat (fst (softfloat_normRoundPackToF32 sg e sig s)) = of_bool sg * 2 ^ (23 + 8)
      + rp_magn 23 8 7 (rmode_of (softfloat_roundingMode s)) sg (e - int sh) (unat sig * 2 ^ sh) \<and>
    snd (softfloat_normRoundPackToF32 sg e sig s) = softfloat_raiseFlags
      (rp_flags 23 8 7 (softfloat_detectTininess s = softfloat_tininess_beforeRounding)
         (rmode_of (softfloat_roundingMode s)) sg (e - int sh) (unat sig * 2 ^ sh)) s"
  using softfloat_normRoundPackToF32_eq [of sig e sg s] assms
  by (intro exI [of _ "unat (softfloat_countLeadingZeros32 (ucast sig)) - 1"]) simp

interpretation rp32: norm_round_pack 23 8 signF32UI expF32UI fracF32UI packToF32UI 7
  softfloat_roundPackToF32 softfloat_normRoundPackToF32
  by unfold_locales (rule normRoundPackToF32_ex)

lemma normRoundPackToF64_ex:
  assumes "sig \<noteq> 0" "unat sig < 2 ^ (Suc 52 + 10)" "- 32000 \<le> e" "e < 32768"
  shows "\<exists>sh. 2 ^ (52 + 10) \<le> unat sig * 2 ^ sh \<and> unat sig * 2 ^ sh < 2 ^ (Suc 52 + 10) \<and> sh < 64 \<and>
    unat (fst (softfloat_normRoundPackToF64 sg e sig s)) = of_bool sg * 2 ^ (52 + 11)
      + rp_magn 52 11 10 (rmode_of (softfloat_roundingMode s)) sg (e - int sh) (unat sig * 2 ^ sh) \<and>
    snd (softfloat_normRoundPackToF64 sg e sig s) = softfloat_raiseFlags
      (rp_flags 52 11 10 (softfloat_detectTininess s = softfloat_tininess_beforeRounding)
         (rmode_of (softfloat_roundingMode s)) sg (e - int sh) (unat sig * 2 ^ sh)) s"
  using softfloat_normRoundPackToF64_eq [of sig e sg s] assms
  by (intro exI [of _ "unat (softfloat_countLeadingZeros64 sig) - 1"]) simp

interpretation rp64: norm_round_pack 52 11 signF64UI expF64UI fracF64UI packToF64UI 10
  softfloat_roundPackToF64 softfloat_normRoundPackToF64
  by unfold_locales (rule normRoundPackToF64_ex)

end
