(* ===== verification/SoftFloat_AddSub.thy ===== *)
theory SoftFloat_AddSub
  imports SoftFloat_RoundPack SoftFloat_Values
begin

text \<open>
  Addition and subtraction: \<^verbatim>\<open>f32_add.c\<close>, \<^verbatim>\<open>f32_sub.c\<close>, \<^verbatim>\<open>s_addMagsF32.c\<close>, \<^verbatim>\<open>s_subMagsF32.c\<close> and the
  64-bit ones.  The arithmetic of the two cases (aligned sum, normalized difference) is proved once
  in the contexts of the rounding locales; what is left per format is to follow the code.
\<close>

subsection \<open>32-bit addition and subtraction\<close>

text \<open>The end of the branch in which the exponents differ.\<close>

definition addMagsF32_sum :: "bool \<Rightarrow> int \<Rightarrow> u64 \<Rightarrow> u64 \<Rightarrow> softfloat_state \<Rightarrow> u32 \<times> softfloat_state" where
  "addMagsF32_sum signZ expZ sigA sigB s =
     (let sigZ = 0x20000000 + sigA + sigB
      in if sigZ < 0x40000000
         then softfloat_roundPackToF32 signZ (expZ - 1) (push_bit 1 sigZ) s
         else softfloat_roundPackToF32 signZ expZ sigZ s)"

definition softfloat_addMagsF32 :: "u64 \<Rightarrow> u64 \<Rightarrow> bool \<Rightarrow> softfloat_state \<Rightarrow> u32 \<times> softfloat_state" where
  "softfloat_addMagsF32 uiA uiB signZ s =
     (let expA = expF32UI uiA; sigA = fracF32UI uiA;
          expB = expF32UI uiB; sigB = fracF32UI uiB;
          expDiff = expA - expB;
          sigA = push_bit 6 sigA; sigB = push_bit 6 sigB;
          propagateNaN = apfst ucast (softfloat_propagateNaNF32UI uiA uiB s)
      in if expDiff = 0
         then if expA = 0xFF then (if sigA OR sigB \<noteq> 0 then propagateNaN else (ucast uiA, s))
           else if expA = 0 then (ucast (packToF32UI signZ 0 ((uiA + uiB) AND 0x7FFFFFFF)), s)
           else softfloat_roundPackToF32 signZ expA (0x40000000 + sigA + sigB) s
         else if expDiff < 0
         then if expB = 0xFF
           then (if sigB \<noteq> 0 then propagateNaN else (ucast (packToF32UI signZ 0xFF 0), s))
           else let sigA = sigA + (if expA \<noteq> 0 then 0x20000000 else sigA);
                    sigA = ucast (softfloat_shiftRightJam32 (ucast sigA) (word_of_int (- expDiff)))
                in addMagsF32_sum signZ expB sigA sigB s
         else if expA = 0xFF then (if sigA \<noteq> 0 then propagateNaN else (ucast uiA, s))
           else let sigB = sigB + (if expB \<noteq> 0 then 0x20000000 else sigB);
                    sigB = ucast (softfloat_shiftRightJam32 (ucast sigB) (word_of_int expDiff))
                in addMagsF32_sum signZ expA sigA sigB s)"

definition softfloat_subMagsF32 :: "u64 \<Rightarrow> u64 \<Rightarrow> bool \<Rightarrow> softfloat_state \<Rightarrow> u32 \<times> softfloat_state" where
  "softfloat_subMagsF32 uiA uiB signZ s =
     (let expA = expF32UI uiA; sigA = fracF32UI uiA;
          expB = expF32UI uiB; sigB = fracF32UI uiB;
          expDiff = expA - expB;
          sigA = push_bit 7 sigA; sigB = push_bit 7 sigB;
          propagateNaN = apfst ucast (softfloat_propagateNaNF32UI uiA uiB s);
          aBigger = (\<lambda>expA sigA sigB. softfloat_normRoundPackToF32 signZ (expA - 1) (sigA - sigB) s);
          bBigger = (\<lambda>expB sigA sigB. softfloat_normRoundPackToF32 (\<not> signZ) (expB - 1) (sigB - sigA) s)
      in if 0 < expDiff
         then if expA = 0xFF then (if sigA \<noteq> 0 then propagateNaN else (ucast uiA, s))
           else let sigB = sigB + (if expB \<noteq> 0 then 0x40000000 else sigB);
                    sigB = ucast (softfloat_shiftRightJam32 (ucast sigB) (word_of_int expDiff));
                    sigA = sigA OR 0x40000000
                in aBigger expA sigA sigB
         else if expDiff < 0
         then if expB = 0xFF
           then (if sigB \<noteq> 0 then propagateNaN else (ucast (packToF32UI (\<not> signZ) 0xFF 0), s))
           else let sigA = sigA + (if expA \<noteq> 0 then 0x40000000 else sigA);
                    sigA = ucast (softfloat_shiftRightJam32 (ucast sigA) (word_of_int (- expDiff)));
                    sigB = sigB OR 0x40000000
                in bBigger expB sigA sigB
         else if expA = 0xFF
         then (if sigA OR sigB \<noteq> 0 then propagateNaN
               else (ucast defaultNaNF32UI, softfloat_raiseFlags softfloat_flag_invalid s))
         else let expA' = (if expA = 0 then 1 else expA);
                  expB' = (if expA = 0 then 1 else expB)
              in if sigB < sigA then aBigger expA' sigA sigB
                 else if sigA < sigB then bBigger expB' sigA sigB
                 else (ucast (packToF32UI (softfloat_roundingMode s = softfloat_round_min) 0 0), s))"

definition f32_add :: "u32 \<Rightarrow> u32 \<Rightarrow> softfloat_state \<Rightarrow> u32 \<times> softfloat_state" where
  "f32_add a b s =
     (let uiA = ucast a; signA = signF32UI uiA; uiB = ucast b; signB = signF32UI uiB
      in if signA = signB then softfloat_addMagsF32 uiA uiB signA s
         else softfloat_subMagsF32 uiA uiB signA s)"

definition f32_sub :: "u32 \<Rightarrow> u32 \<Rightarrow> softfloat_state \<Rightarrow> u32 \<times> softfloat_state" where
  "f32_sub a b s =
     (let uiA = ucast a; signA = signF32UI uiA; uiB = ucast b; signB = signF32UI uiB
      in if signA = signB then softfloat_subMagsF32 uiA uiB signA s
         else softfloat_addMagsF32 uiA uiB signA s)"

subsection \<open>64-bit addition and subtraction\<close>

definition addMagsF64_sum :: "bool \<Rightarrow> int \<Rightarrow> u64 \<Rightarrow> u64 \<Rightarrow> softfloat_state \<Rightarrow> u64 \<times> softfloat_state" where
  "addMagsF64_sum signZ expZ sigA sigB s =
     (let sigZ = 0x2000000000000000 + sigA + sigB
      in if sigZ < 0x4000000000000000
         then softfloat_roundPackToF64 signZ (expZ - 1) (push_bit 1 sigZ) s
         else softfloat_roundPackToF64 signZ expZ sigZ s)"

definition softfloat_addMagsF64 :: "u64 \<Rightarrow> u64 \<Rightarrow> bool \<Rightarrow> softfloat_state \<Rightarrow> u64 \<times> softfloat_state" where
  "softfloat_addMagsF64 uiA uiB signZ s =
     (let expA = expF64UI uiA; sigA = fracF64UI uiA;
          expB = expF64UI uiB; sigB = fracF64UI uiB;
          expDiff = expA - expB;
          sigA = push_bit 9 sigA; sigB = push_bit 9 sigB;
          propagateNaN = softfloat_propagateNaNF64UI uiA uiB s
      in if expDiff = 0
         then if expA = 0x7FF then (if sigA OR sigB \<noteq> 0 then propagateNaN else (uiA, s))
           else if expA = 0 then (packToF64UI signZ 0 ((uiA + uiB) AND 0x7FFFFFFFFFFFFFFF), s)
           else softfloat_roundPackToF64 signZ expA (0x4000000000000000 + sigA + sigB) s
         else if expDiff < 0
         then if expB = 0x7FF
           then (if sigB \<noteq> 0 then propagateNaN else (packToF64UI signZ 0x7FF 0, s))
           else let sigA = sigA + (if expA \<noteq> 0 then 0x2000000000000000 else sigA);
                    sigA = softfloat_shiftRightJam64 sigA (word_of_int (- expDiff))
                in addMagsF64_sum signZ expB sigA sigB s
         else if expA = 0x7FF then (if sigA \<noteq> 0 then propagateNaN else (uiA, s))
           else let sigB = sigB + (if expB \<noteq> 0 then 0x2000000000000000 else sigB);
                    sigB = softfloat_shiftRightJam64 sigB (word_of_int expDiff)
                in addMagsF64_sum signZ expA sigA sigB s)"

definition softfloat_subMagsF64 :: "u64 \<Rightarrow> u64 \<Rightarrow> bool \<Rightarrow> softfloat_state \<Rightarrow> u64 \<times> softfloat_state" where
  "softfloat_subMagsF64 uiA uiB signZ s =
     (let expA = expF64UI uiA; sigA = fracF64UI uiA;
          expB = expF64UI uiB; sigB = fracF64UI uiB;
          expDiff = expA - expB;
          sigA = push_bit 10 sigA; sigB = push_bit 10 sigB;
          propagateNaN = softfloat_propagateNaNF64UI uiA uiB s;
          aBigger = (\<lambda>expA sigA sigB. softfloat_normRoundPackToF64 signZ (expA - 1) (sigA - sigB) s);
          bBigger = (\<lambda>expB sigA sigB. softfloat_normRoundPackToF64 (\<not> signZ) (expB - 1) (sigB - sigA) s)
      in if 0 < expDiff
         then if expA = 0x7FF then (if sigA \<noteq> 0 then propagateNaN else (uiA, s))
           else let sigB = sigB + (if expB \<noteq> 0 then 0x4000000000000000 else sigB);
                    sigB = softfloat_shiftRightJam64 sigB (word_of_int expDiff);
                    sigA = sigA OR 0x4000000000000000
                in aBigger expA sigA sigB
         else if expDiff < 0
         then if expB = 0x7FF
           then (if sigB \<noteq> 0 then propagateNaN else (packToF64UI (\<not> signZ) 0x7FF 0, s))
           else let sigA = sigA + (if expA \<noteq> 0 then 0x4000000000000000 else sigA);
                    sigA = softfloat_shiftRightJam64 sigA (word_of_int (- expDiff));
                    sigB = sigB OR 0x4000000000000000
                in bBigger expB sigA sigB
         else if expA = 0x7FF
         then (if sigA OR sigB \<noteq> 0 then propagateNaN
               else (defaultNaNF64UI, softfloat_raiseFlags softfloat_flag_invalid s))
         else let expA' = (if expA = 0 then 1 else expA);
                  expB' = (if expA = 0 then 1 else expB)
              in if sigB < sigA then aBigger expA' sigA sigB
                 else if sigA < sigB then bBigger expB' sigA sigB
                 else (packToF64UI (softfloat_roundingMode s = softfloat_round_min) 0 0, s))"

definition f64_add :: "u64 \<Rightarrow> u64 \<Rightarrow> softfloat_state \<Rightarrow> u64 \<times> softfloat_state" where
  "f64_add a b s =
     (let uiA = a; signA = signF64UI uiA; uiB = b; signB = signF64UI uiB
      in if signA = signB then softfloat_addMagsF64 uiA uiB signA s
         else softfloat_subMagsF64 uiA uiB signA s)"

definition f64_sub :: "u64 \<Rightarrow> u64 \<Rightarrow> softfloat_state \<Rightarrow> u64 \<times> softfloat_state" where
  "f64_sub a b s =
     (let uiA = a; signA = signF64UI uiA; uiB = b; signB = signF64UI uiB
      in if signA = signB then softfloat_subMagsF64 uiA uiB signA s
         else softfloat_addMagsF64 uiA uiB signA s)"

subsection \<open>Aligned sums and differences\<close>

context float_format
begin

text \<open>The significand at one exponent for normal and subnormal numbers alike.\<close>

definition lsig :: "u64 \<Rightarrow> nat" where
  "lsig a = (if expUI a = 0 then 2 * unat (fracUI a) else unat (fracUI a) + 2 ^ fb)"

lemma lsig_less: "lsig a < 2 ^ Suc fb"
  using fracUI_less [of a] by (simp add: lsig_def)

lemma lsig_ge: "expUI a \<noteq> 0 \<Longrightarrow> 2 ^ fb \<le> lsig a"
  by (simp add: lsig_def)

lemma exp_less_magn:
  assumes "expUI a < expUI b"
  shows "magn a < magn b"
proof -
  have "Suc (nat (expUI a)) \<le> nat (expUI b)" using assms expUI_bounds(1) [of a] by simp
  then have "Suc (nat (expUI a)) * 2 ^ fb \<le> nat (expUI b) * 2 ^ fb" by (rule mult_le_mono1)
  then show ?thesis using fracUI_less [of a] by (simp add: magn_fields)
qed

lemma mval_lsig: "mval fb q (magn a) = real (lsig a) * 2 powi (q + expUI a - 1)"
proof (cases "expUI a = 0")
  case True
  have "(2::real) powi q = 2 * 2 powi (q - 1)" using powi_split [of 1 "q - 1"] by simp
  with True show ?thesis by (simp add: magn_value lsig_def)
next
  case False
  then show ?thesis by (simp add: magn_value lsig_def)
qed

end

context round_pack
begin

lemma aligned_sum_rounds:
  fixes a b sig :: u64 and S :: nat
  assumes e: "expUI a < expUI b" "expUI b < 32768"
    and S: "S = lsig b * 2 ^ (rb - 1) + jam (nat (expUI b - expUI a)) (lsig a * 2 ^ (rb - 1))"
    and sig: "unat sig = (if S < 2 ^ (fb + rb) then 2 * S else S)"
    and ez: "ez = (if S < 2 ^ (fb + rb) then expUI b - 1 else expUI b)" and rb3: "3 \<le> rb"
    and X: "X = mval fb (least_exp fb ebit) (magn a) + mval fb (least_exp fb ebit) (magn b)"
  shows "rounds_word fb ebit (rmode_of (softfloat_roundingMode s)) sg X (fst (roundPack sg ez sig s))"
proof -
  define d A B where "d = nat (expUI b - expUI a)" and "A = lsig a * 2 ^ (rb - 1)" and "B = lsig b * 2 ^ (rb - 1)"
  define q where "q = least_exp fb ebit + expUI b - int rb"
  obtain r where r: "rb = Suc (Suc (Suc r))" using rb3 by (intro that [of "rb - 3"]) simp
  have d: "expUI b = expUI a + int d" using e(1) by (simp add: d_def)
  have A: "A < 2 ^ (fb + rb)" and B: "2 ^ (fb + rb - 1) \<le> B" "B < 2 ^ (fb + rb)" "even B"
    using lsig_less [of a] lsig_less [of b] lsig_ge [of b] e(1) expUI_bounds(1) [of a]
    by (simp_all add: A_def B_def r power_add)
  have S': "S = jam d A + B" by (simp add: S d_def A_def B_def)
  have st: "stk 0 (real A / 2 ^ d + real B) S"
    unfolding S' by (rule stk_add [OF stk_jam_nat B(3)])
  have bnd: "2 ^ (fb + rb - 1) \<le> S" "S < 2 ^ (Suc fb + rb)"
    using B jam_less [OF A, of d] by (simp_all add: S' r)
  have q: "(2::real) powi (least_exp fb ebit + k - 1) = 2 ^ (rb - 1) * 2 powi (least_exp fb ebit + k - int rb)" for k
    unfolding powi_nat [symmetric] powi_split [symmetric] using rb3 by (simp add: of_nat_diff algebra_simps)
  have qa: "(2::real) powi q = 2 ^ d * 2 powi (least_exp fb ebit + expUI a - int rb)"
    unfolding powi_nat [symmetric] powi_split [symmetric] by (simp add: q_def d algebra_simps)
  have Xq: "X = (real A / 2 ^ d + real B) * 2 powi q"
    unfolding X mval_lsig q q_def [symmetric] distrib_right A_def B_def by (simp add: qa)
  have e0: "0 \<le> expUI a" by (rule expUI_bounds)
  show ?thesis
  proof (cases "S < 2 ^ (fb + rb)")
    case True
    have "stk 1 ((real A / 2 ^ d + real B) * 2) (unat sig)"
      using stk_shift [OF st, of 1] True by (simp add: sig mult.commute)
    moreover have "(2::real) powi q = 2 * 2 powi (least_exp fb ebit + ez - int rb)"
      using powi_split [of 1 "q - 1"] True by (simp add: ez q_def algebra_simps)
    then have "X = ((real A / 2 ^ d + real B) * 2) * 2 powi (least_exp fb ebit + ez - int rb)"
      by (simp add: Xq)
    ultimately show ?thesis
      by (intro roundPack_rounds [where j = 1]) (use True bnd e e0 rb3 in \<open>simp_all add: sig ez r\<close>)
  next
    case False
    then show ?thesis
      using st Xq by (intro roundPack_rounds [where j = 0]) (use bnd e e0 rb3 in \<open>simp_all add: sig ez q_def\<close>)
  qed
qed

end

lemma correctly_rounded_self: "representable p qmin x \<Longrightarrow> correctly_rounded p qmin m x x"
  by (cases m) (auto simp: correctly_rounded_def nearest_def)

lemma rounds_word_exact:
  assumes "unat r = of_bool sg * 2 ^ (fb + ebit) + M" and "M < inf_magn fb ebit" and "1 < ebit"
  shows "rounds_word fb ebit m sg (mval fb (least_exp fb ebit) M) r"
proof -
  have "representable (Suc fb) (least_exp fb ebit) (with_sign sg (mval fb (least_exp fb ebit) M))"
    by (simp add: with_sign_def mval_representable)
  moreover have "mval fb (least_exp fb ebit) M < 2 powi (2 ^ (ebit - 1))"
    using assms(2) by (simp only: inf_magn_value [OF assms(3), of fb, symmetric] mval_less_iff)
  ultimately show ?thesis
    unfolding rounds_word_def ieee_rounds_def using assms(1,2)
    by (intro exI [of _ M] conjI exI [of _ "mval fb (least_exp fb ebit) M"] correctly_rounded_self) simp_all
qed

lemma jam_le:
  assumes "n < 2 ^ (k + c)"
  shows "jam c n \<le> 2 ^ k"
proof -
  have "n div 2 ^ c < 2 ^ k" using assms by (simp add: less_mult_imp_div_less power_add)
  then show ?thesis by (simp add: jam_def Let_def of_bool_def)
qed

context round_pack
begin

lemma equal_sum_rounds:
  fixes a b sig :: u64
  assumes e: "expUI a = expUI b" "expUI b \<noteq> 0" "expUI b < 32768" and rb1: "3 \<le> rb"
    and sig: "unat sig = (lsig a + lsig b) * 2 ^ (rb - 1)"
    and X: "X = mval fb (least_exp fb ebit) (magn a) + mval fb (least_exp fb ebit) (magn b)"
  shows "rounds_word fb ebit (rmode_of (softfloat_roundingMode s)) sg X (fst (roundPack sg (expUI b) sig s))"
proof -
  obtain r where r: "rb = Suc r" using rb1 by (cases rb) simp_all
  have "2 ^ (fb + rb) \<le> unat sig" "unat sig < 2 ^ (Suc fb + rb)"
    using lsig_less [of a] lsig_less [of b] lsig_ge [of a] lsig_ge [of b] e
    by (simp_all add: sig r power_add)
  moreover have "(2::real) powi (least_exp fb ebit + expUI b - 1)
      = 2 ^ r * 2 powi (least_exp fb ebit + expUI b - int rb)"
    unfolding powi_nat [symmetric] powi_split [symmetric] by (simp add: r algebra_simps)
  then have "X = real (unat sig) * 2 powi (least_exp fb ebit + expUI b - int rb)"
    unfolding X mval_lsig e(1) by (simp add: sig r algebra_simps)
  moreover have "- 32768 \<le> expUI b" using expUI_bounds(1) [of b] by simp
  ultimately show ?thesis
    using e rb1 by (intro roundPack_rounds [where j = 0 and x = "real (unat sig)"]) simp_all
qed

end

context norm_round_pack
begin

lemma equal_difference_rounds:
  fixes a b sig :: u64
  assumes e: "expUI a = expUI b" "expUI b < 32768" and f: "unat (fracUI a) < unat (fracUI b)"
    and sig: "unat sig = (unat (fracUI b) - unat (fracUI a)) * 2 ^ rb"
    and X: "X = mval fb (least_exp fb ebit) (magn b) - mval fb (least_exp fb ebit) (magn a)"
  shows "rounds_word fb ebit (rmode_of (softfloat_roundingMode s)) sg X
           (fst (normRoundPack sg ((if expUI b = 0 then 1 else expUI b) - 1) sig s))"
proof -
  define E where "E = (if expUI b = 0 then 1 else expUI b)"
  have b: "0 < unat sig" "unat sig < 2 ^ (Suc fb + rb)"
  proof -
    have "unat (fracUI b) - unat (fracUI a) < 2 ^ fb" using fracUI_less [of b] by simp
    then have "unat sig < 2 ^ fb * 2 ^ rb" unfolding sig by (intro mult_strict_right_mono) simp_all
    then show "unat sig < 2 ^ (Suc fb + rb)" by (simp add: power_add)
    show "0 < unat sig" using f by (simp add: sig)
  qed
  have "(2::real) powi (least_exp fb ebit + (E - 1)) =
      2 ^ rb * 2 powi (least_exp fb ebit + (E - 1) - int rb)"
    unfolding powi_nat [symmetric] powi_split [symmetric] by (simp add: algebra_simps)
  moreover have "X = (real (unat (fracUI b)) - real (unat (fracUI a))) * 2 powi (least_exp fb ebit + (E - 1))"
    unfolding X magn_value using e(1) by (simp add: E_def algebra_simps)
  ultimately have "X = real (unat sig) * 2 powi (least_exp fb ebit + (E - 1) - int rb)"
    using f by (simp add: sig of_nat_diff)
  moreover have "0 \<le> E" "E < 32768" using expUI_bounds(1) [of b] e(2) by (simp_all add: E_def)
  ultimately show ?thesis
    unfolding E_def [symmetric] using b
    by (intro normRoundPack_rounds [where x = "real (unat sig)"]) (simp_all add: unat_gt_0)
qed

lemma aligned_difference_rounds:
  fixes a b sig :: u64
  assumes e: "expUI a < expUI b" "expUI b < 32768" and rb3: "3 \<le> rb"
    and sig: "unat sig = lsig b * 2 ^ rb - jam (nat (expUI b - expUI a)) (lsig a * 2 ^ rb)"
    and X: "X = mval fb (least_exp fb ebit) (magn b) - mval fb (least_exp fb ebit) (magn a)"
  shows "rounds_word fb ebit (rmode_of (softfloat_roundingMode s)) sg X
           (fst (normRoundPack sg (expUI b - 1) sig s))"
proof -
  define d A B where "d = nat (expUI b - expUI a)" and "A = lsig a * 2 ^ rb" and "B = lsig b * 2 ^ rb"
  define q where "q = least_exp fb ebit + (expUI b - 1) - int rb"
  obtain r where r: "rb = Suc (Suc (Suc r))" using rb3 by (intro that [of "rb - 3"]) simp
  have d: "expUI b = expUI a + int d" "0 < d" using e(1) by (simp_all add: d_def)
  have e0: "0 \<le> expUI a" by (rule expUI_bounds)
  have A: "A < 2 ^ (Suc fb + rb)" and B: "2 ^ (fb + rb) \<le> B" "B < 2 ^ (Suc fb + rb)" "even B"
    using lsig_less [of a] lsig_less [of b] lsig_ge [of b] e(1) e0
    by (simp_all add: A_def B_def r power_add)
  have q: "(2::real) powi (least_exp fb ebit + k - 1) = 2 ^ rb * 2 powi (least_exp fb ebit + (k - 1) - int rb)" for k
    unfolding powi_nat [symmetric] powi_split [symmetric] by (simp add: algebra_simps)
  have qa: "(2::real) powi q = 2 ^ d * 2 powi (least_exp fb ebit + (expUI a - 1) - int rb)"
    unfolding powi_nat [symmetric] powi_split [symmetric] by (simp add: q_def d(1) algebra_simps)
  have Xq: "X = (real B - real A / 2 ^ d) * 2 powi q"
    unfolding X mval_lsig q q_def [symmetric] left_diff_distrib A_def B_def by (simp add: qa)
  have sig': "unat sig = B - jam d A" by (simp add: sig A_def B_def d_def)
  have half: "jam d A \<le> 2 ^ (fb + rb)"
    using A d(2) by (intro jam_le) (erule less_le_trans, intro power_increasing, simp_all)
  show ?thesis
  proof (cases "d = 1")
    case True
    have "A = 2 ^ (1 + (rb - 1)) * lsig a" by (simp add: A_def r)
    then have "jam d A = 2 ^ (rb - 1) * lsig a" unfolding True by (simp only: jam_exact)
    then have j: "real (jam d A) = real A / 2 ^ d" by (simp add: A_def True r)
    have "A < 2 * B" using A B(1) by simp
    then have "jam d A < B" using j True by simp
    then have x: "real B - real A / 2 ^ d = real (unat sig)" and "0 < unat sig"
      by (simp_all add: sig' j [symmetric] of_nat_diff)
    then have "sig \<noteq> 0" by auto
    moreover have "unat sig < 2 ^ (Suc fb + rb)" using B(2) by (simp add: sig')
    ultimately show ?thesis
      using Xq x e e0 by (intro normRoundPack_rounds [where x = "real (unat sig)"]) (simp_all add: q_def)
  next
    case False
    then have "2 \<le> d" using d(2) by simp
    then have "A < 2 ^ (fb + rb - 1 + d)"
      using A by (elim less_le_trans) (intro power_increasing, simp_all add: r)
    then have quarter: "jam d A \<le> 2 ^ (fb + rb - 1)" by (rule jam_le)
    have two: "(2::nat) ^ (fb + rb) = 2 * 2 ^ (fb + rb - 1)" by (simp add: r)
    then have ge: "2 ^ (fb + rb - 1) \<le> unat sig" using quarter B(1) by (simp add: sig')
    have "stk 0 (real B - real A / 2 ^ d) (unat sig)"
      unfolding sig' using quarter B(1,3) two by (intro stk_sub stk_jam_nat) simp_all
    moreover have "unat sig < 2 ^ (Suc fb + rb)" using B(2) by (simp add: sig')
    moreover have "sig \<noteq> 0" using ge by (auto simp: unat_eq_zero)
    ultimately show ?thesis
      using Xq e e0 ge rb3
      by (intro normRoundPack_rounds [where x = "real B - real A / 2 ^ d" and j = 0 and k = 1]) (simp_all add: q_def)
  qed
qed

end

subsection \<open>Following the 32-bit code\<close>

lemma unat_frac_shl32:
  assumes "k \<le> 8"
  shows "unat (push_bit k (fracF32UI a)) = unat (fracF32UI a) * 2 ^ k"
proof (rule unat_shl_less)
  have "(2::nat) ^ k \<le> 2 ^ 8" using assms by (intro power_increasing) simp_all
  with f32.fracUI_less [of a] have "unat (fracF32UI a) * 2 ^ k < 2 ^ 23 * 2 ^ 8"
    by (intro mult_less_le_imp_less) simp_all
  then show "unat (fracF32UI a) * 2 ^ k < 2 ^ LENGTH(64)" by simp
qed

lemma unat_lsig32:
  assumes "k \<le> 8" "unat h = 2 ^ (23 + k)"
  shows "unat (push_bit k (fracF32UI a) + (if expF32UI a \<noteq> 0 then h else push_bit k (fracF32UI a)))
           = f32.lsig a * 2 ^ k"
    and "f32.lsig a * 2 ^ k < 2 ^ 32"
proof -
  have "(2::nat) ^ k \<le> 2 ^ 8" using assms(1) by (intro power_increasing) simp_all
  with f32.lsig_less [of a] have "f32.lsig a * 2 ^ k < 2 ^ Suc 23 * 2 ^ 8"
    by (intro mult_less_le_imp_less) simp_all
  then show lt: "f32.lsig a * 2 ^ k < 2 ^ 32" by simp
  have "f32.lsig a * 2 ^ k = unat (push_bit k (fracF32UI a))
      + unat (if expF32UI a \<noteq> 0 then h else push_bit k (fracF32UI a))"
    using assms by (simp add: f32.lsig_def unat_frac_shl32 distrib_right power_add)
  with lt show "unat (push_bit k (fracF32UI a) + (if expF32UI a \<noteq> 0 then h else push_bit k (fracF32UI a)))
      = f32.lsig a * 2 ^ k"
    by (subst unat_add_less) simp_all
qed

lemma addMagsF32_sum_eq:
  assumes S: "S = 2 ^ 29 + unat sigA + unat sigB" "S < 2 ^ 31"
  obtains sig where "addMagsF32_sum sg e sigA sigB s
      = softfloat_roundPackToF32 sg (if S < 2 ^ (23 + 7) then e - 1 else e) sig s"
    and "unat sig = (if S < 2 ^ (23 + 7) then 2 * S else S)"
proof -
  define sigZ where "sigZ = 0x20000000 + sigA + sigB"
  have "unat (0x20000000 + sigA) = 2 ^ 29 + unat sigA" using S by (subst unat_add_less) simp_all
  then have u: "unat sigZ = S" unfolding sigZ_def using S by (subst unat_add_less) simp_all
  then have lt: "sigZ < 0x40000000 \<longleftrightarrow> S < 2 ^ (23 + 7)" by (simp add: word_less_nat_alt)
  define sig where "sig = (if S < 2 ^ (23 + 7) then push_bit 1 sigZ else sigZ)"
  have "unat sig = (if S < 2 ^ (23 + 7) then 2 * S else S)"
    using S(2) unat_shl_less [of sigZ 1] by (simp add: sig_def u)
  moreover have "addMagsF32_sum sg e sigA sigB s
      = softfloat_roundPackToF32 sg (if S < 2 ^ (23 + 7) then e - 1 else e) sig s"
    unfolding addMagsF32_sum_def Let_def sigZ_def [symmetric] lt sig_def by simp
  ultimately show ?thesis using that by blast
qed

lemma addMagsF32_aligned:
  assumes e: "expF32UI a < expF32UI b" "expF32UI b < 0xFF"
  defines "sigA \<equiv> push_bit 6 (fracF32UI a) + (if expF32UI a \<noteq> 0 then 0x20000000 else push_bit 6 (fracF32UI a))"
  defines "sigJ \<equiv> (ucast (softfloat_shiftRightJam32 (ucast sigA) (word_of_int (expF32UI b - expF32UI a))) :: u64)"
  assumes AB: "{sigX, sigY} = {sigJ, push_bit 6 (fracF32UI b)}"
  shows "rounds_word 23 8 (rmode_of (softfloat_roundingMode s)) sg
    (mval 23 (- 149) (f32.magn a) + mval 23 (- 149) (f32.magn b))
    (fst (addMagsF32_sum sg (expF32UI b) sigX sigY s))"
proof -
  define S where "S = f32.lsig b * 2 ^ (7 - 1) + jam (nat (expF32UI b - expF32UI a)) (f32.lsig a * 2 ^ (7 - 1))"
  have b0: "expF32UI b \<noteq> 0" using e(1) f32.expUI_bounds(1) [of a] by simp
  have A: "unat sigA = f32.lsig a * 2 ^ (7 - 1)" "unat sigA < 2 ^ 30"
    unfolding sigA_def using unat_lsig32(1) [of 6 "0x20000000" a] f32.lsig_less [of a] by simp_all
  have J: "unat sigJ = jam (nat (expF32UI b - expF32UI a)) (f32.lsig a * 2 ^ (7 - 1))"
    unfolding sigJ_def A(1) [symmetric]
    using unat_jam32 [of sigA "expF32UI a - expF32UI b"] A(2) e f32.expUI_bounds(1) [of a] by simp
  have "unat sigJ < 2 ^ 30"
    unfolding J using A by (intro jam_less) simp_all
  moreover have "S = 2 ^ 29 + unat sigX + unat sigY"
    using AB J b0 by (auto simp: S_def doubleton_eq_iff unat_frac_shl32 f32.lsig_def)
  moreover have "f32.lsig b < 2 ^ Suc 23" by (rule f32.lsig_less)
  ultimately have S: "S = 2 ^ 29 + unat sigX + unat sigY" "S < 2 ^ 31"
    unfolding S_def J [symmetric] by simp_all
  from addMagsF32_sum_eq [OF S, of sg "expF32UI b" s] obtain sig where
    sig: "addMagsF32_sum sg (expF32UI b) sigX sigY s = softfloat_roundPackToF32 sg
       (if S < 2 ^ (23 + 7) then expF32UI b - 1 else expF32UI b) sig s"
      "unat sig = (if S < 2 ^ (23 + 7) then 2 * S else S)" .
  show ?thesis
    unfolding sig(1) by (rule rp32.aligned_sum_rounds [OF e(1) _ S_def sig(2) refl]) (use e in simp_all)
qed

lemma addMagsF32_subnormal:
  assumes "expF32UI a = 0" "expF32UI b = 0"
  shows "rounds_word 23 8 m sg (mval 23 (- 149) (f32.magn a) + mval 23 (- 149) (f32.magn b))
    (ucast (packToF32UI sg 0 ((a + b) AND 0x7FFFFFFF)) :: u32)"
proof -
  define M where "M = f32.magn a + f32.magn b"
  have fr: "f32.magn a = unat (fracF32UI a)" "f32.magn b = unat (fracF32UI b)"
    using assms by (simp_all add: f32.magn_fields)
  then have M: "M < 2 ^ 24" using f32.fracUI_less [of a] f32.fracUI_less [of b] by (simp add: M_def)
  have "unat ((a + b) AND 0x7FFFFFFF) = unat (a + b) mod 2 ^ 31"
    using unat_and_mask [of "a + b" 31] by (simp add: mask_eq_exp_minus_1)
  also have "\<dots> = (unat a + unat b) mod 2 ^ 64 mod 2 ^ 31" by (simp add: unat_word_ariths)
  also have "\<dots> = (unat a mod 2 ^ 31 + unat b mod 2 ^ 31) mod 2 ^ 31" by (simp add: mod_mod_cancel mod_simps)
  also have "\<dots> = M" using M by (simp add: M_def f32.magn_def)
  finally have "unat (packToF32UI sg 0 ((a + b) AND 0x7FFFFFFF)) = of_bool sg * 2 ^ (23 + 8) + M"
    using M by (subst packToF32UI_eq) simp_all
  moreover have "of_bool sg * 2 ^ (23 + 8) + M < 2 ^ 32" using M by (cases sg) simp_all
  ultimately have "unat (ucast (packToF32UI sg 0 ((a + b) AND 0x7FFFFFFF)) :: u32) = of_bool sg * 2 ^ (23 + 8) + M"
    by (simp only: unat_ucast_mod mod_less len32_eq)
  from rounds_word_exact [OF this] M
  have "rounds_word 23 8 m sg (mval 23 (- 149) M) (ucast (packToF32UI sg 0 ((a + b) AND 0x7FFFFFFF)) :: u32)"
    by (simp add: inf_magn_def)
  moreover have "mval 23 (- 149) M = mval 23 (- 149) (f32.magn a) + mval 23 (- 149) (f32.magn b)"
    using M mval_pack [of M 23 0 "- 149"] f32.fracUI_less [of a] f32.fracUI_less [of b]
    by (simp only: fr mval_subnormal M_def distrib_right of_nat_add) simp
  ultimately show ?thesis by simp
qed

lemma addMagsF32_rounds:
  assumes fin: "expF32UI a < 0xFF" "expF32UI b < 0xFF"
  shows "rounds_word 23 8 (rmode_of (softfloat_roundingMode s)) sg
    (mval 23 (- 149) (f32.magn a) + mval 23 (- 149) (f32.magn b)) (fst (softfloat_addMagsF32 a b sg s))"
proof -
  consider "expF32UI a = expF32UI b" "expF32UI a = 0" | "expF32UI a = expF32UI b" "expF32UI a \<noteq> 0"
    | "expF32UI a < expF32UI b" | "expF32UI b < expF32UI a" by linarith
  then show ?thesis
  proof cases
    case 1
    with fin addMagsF32_subnormal [of a b] show ?thesis
      by (simp add: softfloat_addMagsF32_def Let_def)
  next
    case 2
    have lt: "unat (fracF32UI a) < 2 ^ 23" "unat (fracF32UI b) < 2 ^ 23" by (rule f32.fracUI_less)+
    have "unat (0x40000000 + push_bit 6 (fracF32UI a)) = 2 ^ 30 + unat (fracF32UI a) * 2 ^ 6"
      using lt by (subst unat_add_less) (simp_all add: unat_frac_shl32)
    then have "unat (0x40000000 + push_bit 6 (fracF32UI a) + push_bit 6 (fracF32UI b))
        = (f32.lsig a + f32.lsig b) * 2 ^ (7 - 1)"
      using 2 lt by (subst unat_add_less) (simp_all add: unat_frac_shl32 f32.lsig_def)
    from rp32.equal_sum_rounds [OF 2(1) _ _ _ this refl, of s sg] 2 fin show ?thesis
      by (simp add: softfloat_addMagsF32_def Let_def)
  next
    case 3
    with fin addMagsF32_aligned [OF 3 fin(2), of _ "push_bit 6 (fracF32UI b)" s sg] show ?thesis
      unfolding softfloat_addMagsF32_def Let_def by (simp del: push_bit_numeral)
  next
    case 4
    with fin addMagsF32_aligned [OF 4 fin(1), of "push_bit 6 (fracF32UI a)" _ s sg] show ?thesis
      unfolding softfloat_addMagsF32_def Let_def by (simp add: insert_commute add.commute)
  qed
qed

lemma subMagsF32_aligned:
  assumes e: "expF32UI a < expF32UI b" "expF32UI b < 0xFF"
  defines "sigA \<equiv> push_bit 7 (fracF32UI a) + (if expF32UI a \<noteq> 0 then 0x40000000 else push_bit 7 (fracF32UI a))"
  shows "rounds_word 23 8 (rmode_of (softfloat_roundingMode s)) sg
    (mval 23 (- 149) (f32.magn b) - mval 23 (- 149) (f32.magn a))
    (fst (softfloat_normRoundPackToF32 sg (expF32UI b - 1) ((push_bit 7 (fracF32UI b) OR 0x40000000)
       - ucast (softfloat_shiftRightJam32 (ucast sigA) (word_of_int (expF32UI b - expF32UI a)))) s))"
proof -
  define sigJ where "sigJ = (ucast (softfloat_shiftRightJam32 (ucast sigA) (word_of_int (expF32UI b - expF32UI a))) :: u64)"
  have b0: "expF32UI b \<noteq> 0" using e(1) f32.expUI_bounds(1) [of a] by simp
  have A: "unat sigA = f32.lsig a * 2 ^ 7" "unat sigA < 2 ^ 31"
    unfolding sigA_def using unat_lsig32(1) [of 7 "0x40000000" a] f32.lsig_less [of a] by simp_all
  have J: "unat sigJ = jam (nat (expF32UI b - expF32UI a)) (f32.lsig a * 2 ^ 7)"
    unfolding sigJ_def A(1) [symmetric]
    using unat_jam32 [of sigA "expF32UI a - expF32UI b"] A(2) e f32.expUI_bounds(1) [of a] by simp
  have "unat (0x40000000 OR push_bit 7 (fracF32UI b)) = unat (0x40000000 :: u64) + unat (push_bit 7 (fracF32UI b))"
    using f32.fracUI_less [of b] by (intro unat_or_add [where n = 30]) (simp_all add: unat_frac_shl32)
  then have B: "unat (push_bit 7 (fracF32UI b) OR 0x40000000) = f32.lsig b * 2 ^ 7"
    using b0 by (simp add: or.commute unat_frac_shl32 f32.lsig_def)
  have "jam (nat (expF32UI b - expF32UI a)) (f32.lsig a * 2 ^ 7) \<le> 2 ^ 30"
  proof (rule jam_le)
    have "f32.lsig a * 2 ^ 7 < 2 ^ (30 + 1)" using A by simp
    also have "(2::nat) ^ (30 + 1) \<le> 2 ^ (30 + nat (expF32UI b - expF32UI a))"
      using e(1) by (intro power_increasing) simp_all
    finally show "f32.lsig a * 2 ^ 7 < 2 ^ (30 + nat (expF32UI b - expF32UI a))" .
  qed
  moreover have "2 ^ 30 \<le> f32.lsig b * 2 ^ 7" using f32.lsig_ge [OF b0] by simp
  ultimately have "unat ((push_bit 7 (fracF32UI b) OR 0x40000000) - sigJ)
      = f32.lsig b * 2 ^ 7 - jam (nat (expF32UI b - expF32UI a)) (f32.lsig a * 2 ^ 7)"
    by (subst unat_diff_le) (simp_all add: B J)
  from rp32.aligned_difference_rounds [OF e(1) _ _ this refl, of s sg] e show ?thesis
    unfolding sigJ_def by simp
qed

text \<open>An exact difference of zero takes the sign the rounding direction prescribes.\<close>

definition diff_sign :: "bool \<Rightarrow> rmode \<Rightarrow> real \<Rightarrow> bool" where
  "diff_sign sg m x = (if x = 0 then m = RDN else if x < 0 then \<not> sg else sg)"

lemma rmode_of_RDN: "rmode_of m = RDN \<longleftrightarrow> m = softfloat_round_min"
  by (simp add: rmode_of_def)

lemma subMagsF32_rounds:
  fixes s :: softfloat_state
  assumes fin: "expF32UI a < 0xFF" "expF32UI b < 0xFF"
  defines "m \<equiv> rmode_of (softfloat_roundingMode s)"
    and "x \<equiv> mval 23 (- 149) (f32.magn a) - mval 23 (- 149) (f32.magn b)"
  shows "rounds_word 23 8 m (diff_sign sg m x) \<bar>x\<bar> (fst (softfloat_subMagsF32 a b sg s))"
proof -
  consider "expF32UI a < expF32UI b" | "expF32UI b < expF32UI a"
    | "expF32UI a = expF32UI b" "unat (fracF32UI a) < unat (fracF32UI b)"
    | "expF32UI a = expF32UI b" "unat (fracF32UI b) < unat (fracF32UI a)"
    | "expF32UI a = expF32UI b" "unat (fracF32UI a) = unat (fracF32UI b)" by linarith
  then show ?thesis
  proof cases
    case 1
    then have "x < 0" using f32.exp_less_magn [OF 1] by (simp add: x_def)
    with 1 fin subMagsF32_aligned [OF 1 fin(2), of s "\<not> sg"] show ?thesis
      unfolding softfloat_subMagsF32_def Let_def by (simp add: diff_sign_def m_def x_def)
  next
    case 2
    then have "0 < x" using f32.exp_less_magn [OF 2] by (simp add: x_def)
    with 2 fin subMagsF32_aligned [OF 2 fin(1), of s sg] show ?thesis
      unfolding softfloat_subMagsF32_def Let_def by (simp add: diff_sign_def m_def x_def)
  next
    case 3
    then have "x < 0" by (simp add: x_def f32.magn_fields)
    moreover have lt: "push_bit 7 (fracF32UI a) < push_bit 7 (fracF32UI b)"
      using 3 by (simp add: word_less_nat_alt unat_frac_shl32)
    moreover have "\<not> push_bit 7 (fracF32UI b) < push_bit 7 (fracF32UI a)"
      using lt by (rule less_not_sym)
    moreover have "unat (push_bit 7 (fracF32UI b) - push_bit 7 (fracF32UI a)) =
        (unat (fracF32UI b) - unat (fracF32UI a)) * 2 ^ 7"
      using 3 by (subst unat_diff_le) (simp_all add: unat_frac_shl32)
    note rp32.equal_difference_rounds [OF 3(1) _ 3(2) this refl, of s "\<not> sg"]
    ultimately show ?thesis
      using 3 fin unfolding softfloat_subMagsF32_def Let_def by (simp add: diff_sign_def m_def x_def)
  next
    case 4
    then have "0 < x" by (simp add: x_def f32.magn_fields)
    moreover have "push_bit 7 (fracF32UI b) < push_bit 7 (fracF32UI a)"
      using 4 by (simp add: word_less_nat_alt unat_frac_shl32)
    moreover have "unat (push_bit 7 (fracF32UI a) - push_bit 7 (fracF32UI b)) =
        (unat (fracF32UI a) - unat (fracF32UI b)) * 2 ^ 7"
      using 4 by (subst unat_diff_le) (simp_all add: unat_frac_shl32)
    note rp32.equal_difference_rounds [OF 4(1) [symmetric] _ 4(2) this refl, of s sg]
    ultimately show ?thesis
      using 4 fin unfolding softfloat_subMagsF32_def Let_def by (simp add: diff_sign_def m_def x_def)
  next
    case 5
    then have "x = 0" "fracF32UI a = fracF32UI b"
      by (simp_all add: x_def f32.magn_fields word_of_nat_unat_eqI)
    moreover have "unat (ucast (packToF32UI (m = RDN) 0 0) :: u32) = of_bool (m = RDN) * 2 ^ (23 + 8) + 0"
      using packToF32UI_eq [of 0 0 "m = RDN"] by (cases "m = RDN") (simp_all add: unat_ucast_mod)
    note rounds_word_exact [OF this, of m]
    ultimately show ?thesis
      using 5 fin unfolding softfloat_subMagsF32_def Let_def
      by (simp add: diff_sign_def m_def rmode_of_RDN inf_magn_def)
  qed
qed

text \<open>The sign of a sum of numbers with the signs \<open>sa\<close> and \<open>sb\<close>, zeros included.\<close>

definition sum_sign :: "bool \<Rightarrow> bool \<Rightarrow> rmode \<Rightarrow> real \<Rightarrow> bool" where
  "sum_sign sa sb m x = (if x = 0 then (if sa = sb then sa else m = RDN) else x < 0)"

lemma sum_same_sign:
  assumes "0 \<le> x" "0 \<le> y"
  shows "sum_sign sg sg m (with_sign sg x + with_sign sg y) = sg"
    and "\<bar>with_sign sg x + with_sign sg y\<bar> = x + y"
  using assms by (auto simp: sum_sign_def with_sign_def)

lemma sum_opposite_sign:
  "sum_sign sg (\<not> sg) m (with_sign sg x + with_sign (\<not> sg) y) = diff_sign sg m (x - y)"
  "\<bar>with_sign sg x + with_sign (\<not> sg) y\<bar> = \<bar>x - y\<bar>"
  by (auto simp: sum_sign_def diff_sign_def with_sign_def)

lemma f32_add_rounds:
  fixes s :: softfloat_state
  assumes "f32_isFinite a" "f32_isFinite b"
  defines "m \<equiv> rmode_of (softfloat_roundingMode s)" and "x \<equiv> f32_val a + f32_val b"
  shows "rounds_word 23 8 m (sum_sign (f32_sign a) (f32_sign b) m x) \<bar>x\<bar> (fst (f32_add a b s))"
proof (cases "f32_sign a = f32_sign b")
  case True
  with assms addMagsF32_rounds [of "ucast a" "ucast b" s "f32_sign a"] show ?thesis
    by (simp add: f32_add_def f32_val_def sum_same_sign f32_class_exp)
next
  case False
  then have "f32_sign b = (\<not> f32_sign a)" by simp
  with assms subMagsF32_rounds [of "ucast a" "ucast b" s "f32_sign a"] show ?thesis
    by (simp add: f32_add_def f32_val_def sum_opposite_sign f32_class_exp)
qed

lemma f32_sub_rounds:
  fixes s :: softfloat_state
  assumes "f32_isFinite a" "f32_isFinite b"
  defines "m \<equiv> rmode_of (softfloat_roundingMode s)" and "x \<equiv> f32_val a - f32_val b"
  shows "rounds_word 23 8 m (sum_sign (f32_sign a) (\<not> f32_sign b) m x) \<bar>x\<bar> (fst (f32_sub a b s))"
proof -
  have x: "x = with_sign (f32_sign a) (mval 23 (- 149) (f32_magn a)) + with_sign (\<not> f32_sign b) (mval 23 (- 149) (f32_magn b))"
    by (simp add: x_def f32_val_def with_sign_def)
  show ?thesis
  proof (cases "f32_sign a = f32_sign b")
    case True
    with assms(1,2) subMagsF32_rounds [of "ucast a" "ucast b" s "f32_sign a"] show ?thesis
      unfolding x m_def by (simp add: f32_sub_def sum_opposite_sign f32_class_exp)
  next
    case False
    then have "(\<not> f32_sign b) = f32_sign a" by simp
    moreover have "f32_sub a b s = softfloat_addMagsF32 (ucast a) (ucast b) (f32_sign a) s"
      using False by (simp add: f32_sub_def)
    ultimately show ?thesis
      using assms(1,2) addMagsF32_rounds [of "ucast a" "ucast b" s "f32_sign a"]
      unfolding x m_def by (simp add: sum_same_sign f32_class_exp)
  qed
qed

subsection \<open>Following the 64-bit code\<close>

lemma unat_frac_shl64:
  assumes "k \<le> 11"
  shows "unat (push_bit k (fracF64UI a)) = unat (fracF64UI a) * 2 ^ k"
proof (rule unat_shl_less)
  have "(2::nat) ^ k \<le> 2 ^ 11" using assms by (intro power_increasing) simp_all
  with f64.fracUI_less [of a] have "unat (fracF64UI a) * 2 ^ k < 2 ^ 52 * 2 ^ 11"
    by (intro mult_less_le_imp_less) simp_all
  then show "unat (fracF64UI a) * 2 ^ k < 2 ^ LENGTH(64)" by simp
qed

lemma unat_lsig64:
  assumes "k \<le> 11" "unat h = 2 ^ (52 + k)"
  shows "unat (push_bit k (fracF64UI a) + (if expF64UI a \<noteq> 0 then h else push_bit k (fracF64UI a)))
           = f64.lsig a * 2 ^ k"
    and "f64.lsig a * 2 ^ k < 2 ^ 64"
proof -
  have "(2::nat) ^ k \<le> 2 ^ 11" using assms(1) by (intro power_increasing) simp_all
  with f64.lsig_less [of a] have "f64.lsig a * 2 ^ k < 2 ^ Suc 52 * 2 ^ 11"
    by (intro mult_less_le_imp_less) simp_all
  then show lt: "f64.lsig a * 2 ^ k < 2 ^ 64" by simp
  have "f64.lsig a * 2 ^ k = unat (push_bit k (fracF64UI a))
      + unat (if expF64UI a \<noteq> 0 then h else push_bit k (fracF64UI a))"
    using assms by (simp add: f64.lsig_def unat_frac_shl64 distrib_right power_add)
  with lt show "unat (push_bit k (fracF64UI a) + (if expF64UI a \<noteq> 0 then h else push_bit k (fracF64UI a)))
      = f64.lsig a * 2 ^ k"
    by (subst unat_add_less) simp_all
qed

lemma addMagsF64_sum_eq:
  assumes S: "S = 2 ^ 61 + unat sigA + unat sigB" "S < 2 ^ 63"
  obtains sig where "addMagsF64_sum sg e sigA sigB s
      = softfloat_roundPackToF64 sg (if S < 2 ^ (52 + 10) then e - 1 else e) sig s"
    and "unat sig = (if S < 2 ^ (52 + 10) then 2 * S else S)"
proof -
  define sigZ where "sigZ = 0x2000000000000000 + sigA + sigB"
  have "unat (0x2000000000000000 + sigA) = 2 ^ 61 + unat sigA" using S by (subst unat_add_less) simp_all
  then have u: "unat sigZ = S" unfolding sigZ_def using S by (subst unat_add_less) simp_all
  then have lt: "sigZ < 0x4000000000000000 \<longleftrightarrow> S < 2 ^ (52 + 10)" by (simp add: word_less_nat_alt)
  define sig where "sig = (if S < 2 ^ (52 + 10) then push_bit 1 sigZ else sigZ)"
  have "unat sig = (if S < 2 ^ (52 + 10) then 2 * S else S)"
    using S(2) unat_shl_less [of sigZ 1] by (simp add: sig_def u)
  moreover have "addMagsF64_sum sg e sigA sigB s
      = softfloat_roundPackToF64 sg (if S < 2 ^ (52 + 10) then e - 1 else e) sig s"
    unfolding addMagsF64_sum_def Let_def sigZ_def [symmetric] lt sig_def by simp
  ultimately show ?thesis using that by blast
qed

lemma addMagsF64_aligned:
  assumes e: "expF64UI a < expF64UI b" "expF64UI b < 0x7FF"
  defines "sigA \<equiv> push_bit 9 (fracF64UI a) + (if expF64UI a \<noteq> 0 then 0x2000000000000000 else push_bit 9 (fracF64UI a))"
  defines "sigJ \<equiv> softfloat_shiftRightJam64 sigA (word_of_int (expF64UI b - expF64UI a))"
  assumes AB: "{sigX, sigY} = {sigJ, push_bit 9 (fracF64UI b)}"
  shows "rounds_word 52 11 (rmode_of (softfloat_roundingMode s)) sg
    (mval 52 (- 1074) (f64_magn a) + mval 52 (- 1074) (f64_magn b))
    (fst (addMagsF64_sum sg (expF64UI b) sigX sigY s))"
proof -
  define S where "S = f64.lsig b * 2 ^ (10 - 1) + jam (nat (expF64UI b - expF64UI a)) (f64.lsig a * 2 ^ (10 - 1))"
  have b0: "expF64UI b \<noteq> 0" using e(1) f64.expUI_bounds(1) [of a] by simp
  have A: "unat sigA = f64.lsig a * 2 ^ (10 - 1)" "unat sigA < 2 ^ 62"
    unfolding sigA_def using unat_lsig64(1) [of 9 "0x2000000000000000" a] f64.lsig_less [of a] by simp_all
  have J: "unat sigJ = jam (nat (expF64UI b - expF64UI a)) (f64.lsig a * 2 ^ (10 - 1))"
    unfolding sigJ_def A(1) [symmetric]
    using unat_jam64 [of "expF64UI a - expF64UI b"] A(2) e f64.expUI_bounds(1) [of a] by simp
  have "unat sigJ < 2 ^ 62"
    unfolding J using A by (intro jam_less) simp_all
  moreover have "S = 2 ^ 61 + unat sigX + unat sigY"
    using AB J b0 by (auto simp: S_def doubleton_eq_iff unat_frac_shl64 f64.lsig_def)
  moreover have "f64.lsig b < 2 ^ Suc 52" by (rule f64.lsig_less)
  ultimately have S: "S = 2 ^ 61 + unat sigX + unat sigY" "S < 2 ^ 63"
    unfolding S_def J [symmetric] by simp_all
  from addMagsF64_sum_eq [OF S, of sg "expF64UI b" s] obtain sig where
    sig: "addMagsF64_sum sg (expF64UI b) sigX sigY s = softfloat_roundPackToF64 sg
       (if S < 2 ^ (52 + 10) then expF64UI b - 1 else expF64UI b) sig s"
      "unat sig = (if S < 2 ^ (52 + 10) then 2 * S else S)" .
  show ?thesis
    unfolding sig(1) by (rule rp64.aligned_sum_rounds [OF e(1) _ S_def sig(2) refl]) (use e in simp_all)
qed

lemma addMagsF64_subnormal:
  assumes "expF64UI a = 0" "expF64UI b = 0"
  shows "rounds_word 52 11 m sg (mval 52 (- 1074) (f64_magn a) + mval 52 (- 1074) (f64_magn b))
    (packToF64UI sg 0 ((a + b) AND 0x7FFFFFFFFFFFFFFF))"
proof -
  define M where "M = f64_magn a + f64_magn b"
  have fr: "f64_magn a = unat (fracF64UI a)" "f64_magn b = unat (fracF64UI b)"
    using assms by (simp_all add: f64_magn_fields)
  then have M: "M < 2 ^ 53" using f64.fracUI_less [of a] f64.fracUI_less [of b] by (simp add: M_def)
  have "unat ((a + b) AND 0x7FFFFFFFFFFFFFFF) = unat (a + b) mod 2 ^ 63"
    using unat_and_mask [of "a + b" 63] by (simp add: mask_eq_exp_minus_1)
  also have "\<dots> = (unat a + unat b) mod 2 ^ 64 mod 2 ^ 63" by (simp add: unat_word_ariths)
  also have "\<dots> = (unat a mod 2 ^ 63 + unat b mod 2 ^ 63) mod 2 ^ 63" by (simp add: mod_mod_cancel mod_simps)
  also have "\<dots> = M" using M by (simp add: M_def f64_magn_def)
  finally have "unat (packToF64UI sg 0 ((a + b) AND 0x7FFFFFFFFFFFFFFF)) = of_bool sg * 2 ^ (52 + 11) + M"
    using M by (subst packToF64UI_eq) simp_all
  moreover have "of_bool sg * 2 ^ (52 + 11) + M < 2 ^ 64" using M by (cases sg) simp_all
  ultimately have "unat (packToF64UI sg 0 ((a + b) AND 0x7FFFFFFFFFFFFFFF)) = of_bool sg * 2 ^ (52 + 11) + M"
    by (simp only: unat_ucast_mod mod_less len32_eq)
  from rounds_word_exact [OF this] M
  have "rounds_word 52 11 m sg (mval 52 (- 1074) M) (packToF64UI sg 0 ((a + b) AND 0x7FFFFFFFFFFFFFFF))"
    by (simp add: inf_magn_def)
  moreover have "mval 52 (- 1074) M = mval 52 (- 1074) (f64_magn a) + mval 52 (- 1074) (f64_magn b)"
    using M mval_pack [of M 52 0 "- 1074"] f64.fracUI_less [of a] f64.fracUI_less [of b]
    by (simp only: fr mval_subnormal M_def distrib_right of_nat_add) simp
  ultimately show ?thesis by simp
qed

lemma addMagsF64_rounds:
  assumes fin: "expF64UI a < 0x7FF" "expF64UI b < 0x7FF"
  shows "rounds_word 52 11 (rmode_of (softfloat_roundingMode s)) sg
    (mval 52 (- 1074) (f64_magn a) + mval 52 (- 1074) (f64_magn b)) (fst (softfloat_addMagsF64 a b sg s))"
proof -
  consider "expF64UI a = expF64UI b" "expF64UI a = 0" | "expF64UI a = expF64UI b" "expF64UI a \<noteq> 0"
    | "expF64UI a < expF64UI b" | "expF64UI b < expF64UI a" by linarith
  then show ?thesis
  proof cases
    case 1
    with fin addMagsF64_subnormal [of a b] show ?thesis
      by (simp add: softfloat_addMagsF64_def Let_def)
  next
    case 2
    have lt: "unat (fracF64UI a) < 2 ^ 52" "unat (fracF64UI b) < 2 ^ 52" by (rule f64.fracUI_less)+
    have "unat (0x4000000000000000 + push_bit 9 (fracF64UI a)) = 2 ^ 62 + unat (fracF64UI a) * 2 ^ 9"
      using lt by (subst unat_add_less) (simp_all add: unat_frac_shl64)
    then have "unat (0x4000000000000000 + push_bit 9 (fracF64UI a) + push_bit 9 (fracF64UI b))
        = (f64.lsig a + f64.lsig b) * 2 ^ (10 - 1)"
      using 2 lt by (subst unat_add_less) (simp_all add: unat_frac_shl64 f64.lsig_def)
    from rp64.equal_sum_rounds [OF 2(1) _ _ _ this refl, of s sg] 2 fin show ?thesis
      by (simp add: softfloat_addMagsF64_def Let_def)
  next
    case 3
    with fin addMagsF64_aligned [OF 3 fin(2), of _ "push_bit 9 (fracF64UI b)" s sg] show ?thesis
      unfolding softfloat_addMagsF64_def Let_def by (simp del: push_bit_numeral)
  next
    case 4
    with fin addMagsF64_aligned [OF 4 fin(1), of "push_bit 9 (fracF64UI a)" _ s sg] show ?thesis
      unfolding softfloat_addMagsF64_def Let_def by (simp add: insert_commute add.commute)
  qed
qed

lemma subMagsF64_aligned:
  assumes e: "expF64UI a < expF64UI b" "expF64UI b < 0x7FF"
  defines "sigA \<equiv> push_bit 10 (fracF64UI a) + (if expF64UI a \<noteq> 0 then 0x4000000000000000 else push_bit 10 (fracF64UI a))"
  shows "rounds_word 52 11 (rmode_of (softfloat_roundingMode s)) sg
    (mval 52 (- 1074) (f64_magn b) - mval 52 (- 1074) (f64_magn a))
    (fst (softfloat_normRoundPackToF64 sg (expF64UI b - 1) ((push_bit 10 (fracF64UI b) OR 0x4000000000000000)
       - softfloat_shiftRightJam64 sigA (word_of_int (expF64UI b - expF64UI a))) s))"
proof -
  define sigJ where "sigJ = softfloat_shiftRightJam64 sigA (word_of_int (expF64UI b - expF64UI a))"
  have b0: "expF64UI b \<noteq> 0" using e(1) f64.expUI_bounds(1) [of a] by simp
  have A: "unat sigA = f64.lsig a * 2 ^ 10" "unat sigA < 2 ^ 63"
    unfolding sigA_def using unat_lsig64(1) [of 10 "0x4000000000000000" a] f64.lsig_less [of a] by simp_all
  have J: "unat sigJ = jam (nat (expF64UI b - expF64UI a)) (f64.lsig a * 2 ^ 10)"
    unfolding sigJ_def A(1) [symmetric]
    using unat_jam64 [of "expF64UI a - expF64UI b"] A(2) e f64.expUI_bounds(1) [of a] by simp
  have "unat (0x4000000000000000 OR push_bit 10 (fracF64UI b)) = unat (0x4000000000000000 :: u64) + unat (push_bit 10 (fracF64UI b))"
    using f64.fracUI_less [of b] by (intro unat_or_add [where n = 62]) (simp_all add: unat_frac_shl64)
  then have B: "unat (push_bit 10 (fracF64UI b) OR 0x4000000000000000) = f64.lsig b * 2 ^ 10"
    using b0 by (simp add: or.commute unat_frac_shl64 f64.lsig_def)
  have "jam (nat (expF64UI b - expF64UI a)) (f64.lsig a * 2 ^ 10) \<le> 2 ^ 62"
  proof (rule jam_le)
    have "f64.lsig a * 2 ^ 10 < 2 ^ (62 + 1)" using A by simp
    also have "(2::nat) ^ (62 + 1) \<le> 2 ^ (62 + nat (expF64UI b - expF64UI a))"
      using e(1) by (intro power_increasing) simp_all
    finally show "f64.lsig a * 2 ^ 10 < 2 ^ (62 + nat (expF64UI b - expF64UI a))" .
  qed
  moreover have "2 ^ 62 \<le> f64.lsig b * 2 ^ 10" using f64.lsig_ge [OF b0] by simp
  ultimately have "unat ((push_bit 10 (fracF64UI b) OR 0x4000000000000000) - sigJ)
      = f64.lsig b * 2 ^ 10 - jam (nat (expF64UI b - expF64UI a)) (f64.lsig a * 2 ^ 10)"
    by (subst unat_diff_le) (simp_all add: B J)
  from rp64.aligned_difference_rounds [OF e(1) _ _ this refl, of s sg] e show ?thesis
    unfolding sigJ_def by simp
qed

lemma subMagsF64_rounds:
  fixes s :: softfloat_state
  assumes fin: "expF64UI a < 0x7FF" "expF64UI b < 0x7FF"
  defines "m \<equiv> rmode_of (softfloat_roundingMode s)"
    and "x \<equiv> mval 52 (- 1074) (f64_magn a) - mval 52 (- 1074) (f64_magn b)"
  shows "rounds_word 52 11 m (diff_sign sg m x) \<bar>x\<bar> (fst (softfloat_subMagsF64 a b sg s))"
proof -
  consider "expF64UI a < expF64UI b" | "expF64UI b < expF64UI a"
    | "expF64UI a = expF64UI b" "unat (fracF64UI a) < unat (fracF64UI b)"
    | "expF64UI a = expF64UI b" "unat (fracF64UI b) < unat (fracF64UI a)"
    | "expF64UI a = expF64UI b" "unat (fracF64UI a) = unat (fracF64UI b)" by linarith
  then show ?thesis
  proof cases
    case 1
    then have "x < 0" using f64.exp_less_magn [OF 1] by (simp add: x_def)
    with 1 fin subMagsF64_aligned [OF 1 fin(2), of s "\<not> sg"] show ?thesis
      unfolding softfloat_subMagsF64_def Let_def by (simp add: diff_sign_def m_def x_def)
  next
    case 2
    then have "0 < x" using f64.exp_less_magn [OF 2] by (simp add: x_def)
    with 2 fin subMagsF64_aligned [OF 2 fin(1), of s sg] show ?thesis
      unfolding softfloat_subMagsF64_def Let_def by (simp add: diff_sign_def m_def x_def)
  next
    case 3
    then have "x < 0" by (simp add: x_def f64_magn_fields)
    moreover have lt: "push_bit 10 (fracF64UI a) < push_bit 10 (fracF64UI b)"
      using 3 by (simp add: word_less_nat_alt unat_frac_shl64)
    moreover have "\<not> push_bit 10 (fracF64UI b) < push_bit 10 (fracF64UI a)"
      using lt by (rule less_not_sym)
    moreover have "unat (push_bit 10 (fracF64UI b) - push_bit 10 (fracF64UI a)) =
        (unat (fracF64UI b) - unat (fracF64UI a)) * 2 ^ 10"
      using 3 by (subst unat_diff_le) (simp_all add: unat_frac_shl64)
    note rp64.equal_difference_rounds [OF 3(1) _ 3(2) this refl, of s "\<not> sg"]
    ultimately show ?thesis
      using 3 fin unfolding softfloat_subMagsF64_def Let_def by (simp add: diff_sign_def m_def x_def)
  next
    case 4
    then have "0 < x" by (simp add: x_def f64_magn_fields)
    moreover have "push_bit 10 (fracF64UI b) < push_bit 10 (fracF64UI a)"
      using 4 by (simp add: word_less_nat_alt unat_frac_shl64)
    moreover have "unat (push_bit 10 (fracF64UI a) - push_bit 10 (fracF64UI b)) =
        (unat (fracF64UI a) - unat (fracF64UI b)) * 2 ^ 10"
      using 4 by (subst unat_diff_le) (simp_all add: unat_frac_shl64)
    note rp64.equal_difference_rounds [OF 4(1) [symmetric] _ 4(2) this refl, of s sg]
    ultimately show ?thesis
      using 4 fin unfolding softfloat_subMagsF64_def Let_def by (simp add: diff_sign_def m_def x_def)
  next
    case 5
    then have "x = 0" "fracF64UI a = fracF64UI b"
      by (simp_all add: x_def f64_magn_fields word_of_nat_unat_eqI)
    moreover have "unat (packToF64UI (m = RDN) 0 0) = of_bool (m = RDN) * 2 ^ (52 + 11) + 0"
      using packToF64UI_eq [of 0 0 "m = RDN"] by (cases "m = RDN") (simp_all add: unat_ucast_mod)
    note rounds_word_exact [OF this, of m]
    ultimately show ?thesis
      using 5 fin unfolding softfloat_subMagsF64_def Let_def
      by (simp add: diff_sign_def m_def rmode_of_RDN inf_magn_def)
  qed
qed

lemma f64_add_rounds:
  fixes s :: softfloat_state
  assumes "f64_isFinite a" "f64_isFinite b"
  defines "m \<equiv> rmode_of (softfloat_roundingMode s)" and "x \<equiv> f64_val a + f64_val b"
  shows "rounds_word 52 11 m (sum_sign (f64_sign a) (f64_sign b) m x) \<bar>x\<bar> (fst (f64_add a b s))"
proof (cases "f64_sign a = f64_sign b")
  case True
  with assms addMagsF64_rounds [of a b s "f64_sign a"] show ?thesis
    by (simp add: f64_add_def f64_val_def sum_same_sign f64_class_exp)
next
  case False
  then have "f64_sign b = (\<not> f64_sign a)" by simp
  with assms subMagsF64_rounds [of a b s "f64_sign a"] show ?thesis
    by (simp add: f64_add_def f64_val_def sum_opposite_sign f64_class_exp)
qed

lemma f64_sub_rounds:
  fixes s :: softfloat_state
  assumes "f64_isFinite a" "f64_isFinite b"
  defines "m \<equiv> rmode_of (softfloat_roundingMode s)" and "x \<equiv> f64_val a - f64_val b"
  shows "rounds_word 52 11 m (sum_sign (f64_sign a) (\<not> f64_sign b) m x) \<bar>x\<bar> (fst (f64_sub a b s))"
proof -
  have x: "x = with_sign (f64_sign a) (mval 52 (- 1074) (f64_magn a)) + with_sign (\<not> f64_sign b) (mval 52 (- 1074) (f64_magn b))"
    by (simp add: x_def f64_val_def with_sign_def)
  show ?thesis
  proof (cases "f64_sign a = f64_sign b")
    case True
    with assms(1,2) subMagsF64_rounds [of a b s "f64_sign a"] show ?thesis
      unfolding x m_def by (simp add: f64_sub_def sum_opposite_sign f64_class_exp)
  next
    case False
    then have "(\<not> f64_sign b) = f64_sign a" by simp
    moreover have "f64_sub a b s = softfloat_addMagsF64 a b (f64_sign a) s"
      using False by (simp add: f64_sub_def)
    ultimately show ?thesis
      using assms(1,2) addMagsF64_rounds [of a b s "f64_sign a"]
      unfolding x m_def by (simp add: sum_same_sign f64_class_exp)
  qed
qed

end
