(* ===== verification/SoftFloat_Mul.thy ===== *)
theory SoftFloat_Mul
  imports SoftFloat_AddSub
begin

text \<open>
  Multiplication: \<^verbatim>\<open>f32_mul.c\<close> and \<^verbatim>\<open>f64_mul.c\<close>.  Both normalize subnormal operands, multiply the
  significands exactly and jam the low half; \<open>product_rounds\<close> is the arithmetic they share.
\<close>

subsection \<open>The code\<close>

text \<open>The result for an infinite operand (label \<^verbatim>\<open>infArg\<close>).\<close>

definition f32_mul_infArg :: "bool \<Rightarrow> u64 \<Rightarrow> softfloat_state \<Rightarrow> u32 \<times> softfloat_state" where
  "f32_mul_infArg signZ magBits s =
     (if magBits = 0 then (ucast defaultNaNF32UI, softfloat_raiseFlags softfloat_flag_invalid s)
      else (ucast (packToF32UI signZ 0xFF 0), s))"

definition f32_mul :: "u32 \<Rightarrow> u32 \<Rightarrow> softfloat_state \<Rightarrow> u32 \<times> softfloat_state" where
  "f32_mul a b s =
     (let uiA = ucast a; signA = signF32UI uiA; expA = expF32UI uiA; sigA = fracF32UI uiA;
          uiB = ucast b; signB = signF32UI uiB; expB = expF32UI uiB; sigB = fracF32UI uiB;
          signZ = (signA \<noteq> signB);
          propagateNaN = apfst ucast (softfloat_propagateNaNF32UI uiA uiB s);
          zero = (ucast (packToF32UI signZ 0 0), s)
      in if expA = 0xFF
         then (if sigA \<noteq> 0 \<or> expB = 0xFF \<and> sigB \<noteq> 0 then propagateNaN
               else f32_mul_infArg signZ (word_of_int expB OR sigB) s)
         else if expB = 0xFF
         then (if sigB \<noteq> 0 then propagateNaN
               else f32_mul_infArg signZ (word_of_int expA OR sigA) s)
         else if expA = 0 \<and> sigA = 0 then zero
         else let normA = softfloat_normSubnormalF32Sig sigA;
                  (expA, sigA) = (if expA = 0 then (es32_exp normA, es32_sig normA) else (expA, sigA))
              in if expB = 0 \<and> sigB = 0 then zero
                 else let normB = softfloat_normSubnormalF32Sig sigB;
                          (expB, sigB) = (if expB = 0 then (es32_exp normB, es32_sig normB) else (expB, sigB));
                          expZ = expA + expB - 0x7F;
                          sigA = push_bit 7 (sigA OR 0x00800000);
                          sigB = push_bit 8 (sigB OR 0x00800000);
                          sigZ = softfloat_shortShiftRightJam64 (sigA * sigB) 32
                      in if sigZ < 0x40000000
                         then softfloat_roundPackToF32 signZ (expZ - 1) (push_bit 1 sigZ) s
                         else softfloat_roundPackToF32 signZ expZ sigZ s)"

definition f64_mul_infArg :: "bool \<Rightarrow> u64 \<Rightarrow> softfloat_state \<Rightarrow> u64 \<times> softfloat_state" where
  "f64_mul_infArg signZ magBits s =
     (if magBits = 0 then (defaultNaNF64UI, softfloat_raiseFlags softfloat_flag_invalid s)
      else (packToF64UI signZ 0x7FF 0, s))"

definition f64_mul :: "u64 \<Rightarrow> u64 \<Rightarrow> softfloat_state \<Rightarrow> u64 \<times> softfloat_state" where
  "f64_mul a b s =
     (let uiA = a; signA = signF64UI uiA; expA = expF64UI uiA; sigA = fracF64UI uiA;
          uiB = b; signB = signF64UI uiB; expB = expF64UI uiB; sigB = fracF64UI uiB;
          signZ = (signA \<noteq> signB);
          propagateNaN = softfloat_propagateNaNF64UI uiA uiB s;
          zero = (packToF64UI signZ 0 0, s)
      in if expA = 0x7FF
         then (if sigA \<noteq> 0 \<or> expB = 0x7FF \<and> sigB \<noteq> 0 then propagateNaN
               else f64_mul_infArg signZ (word_of_int expB OR sigB) s)
         else if expB = 0x7FF
         then (if sigB \<noteq> 0 then propagateNaN
               else f64_mul_infArg signZ (word_of_int expA OR sigA) s)
         else if expA = 0 \<and> sigA = 0 then zero
         else let normA = softfloat_normSubnormalF64Sig sigA;
                  (expA, sigA) = (if expA = 0 then (es64_exp normA, es64_sig normA) else (expA, sigA))
              in if expB = 0 \<and> sigB = 0 then zero
                 else let normB = softfloat_normSubnormalF64Sig sigB;
                          (expB, sigB) = (if expB = 0 then (es64_exp normB, es64_sig normB) else (expB, sigB));
                          expZ = expA + expB - 0x3FF;
                          sigA = push_bit 10 (sigA OR 0x0010000000000000);
                          sigB = push_bit 11 (sigB OR 0x0010000000000000);
                          sig128Z = softfloat_mul64To128 sigA sigB;
                          sigZ = u128_v64 sig128Z OR of_bool (u128_v0 sig128Z \<noteq> 0)
                      in if sigZ < 0x4000000000000000
                         then softfloat_roundPackToF64 signZ (expZ - 1) (push_bit 1 sigZ) s
                         else softfloat_roundPackToF64 signZ expZ sigZ s)"

subsection \<open>Normalized operands\<close>

text \<open>
  \<open>normalized a E m\<close>: the magnitude of \<open>a\<close> is \<open>m\<close> at exponent \<open>E\<close>, with the leading bit of \<open>m\<close> set.
\<close>

context float_format
begin

definition normalized :: "u64 \<Rightarrow> int \<Rightarrow> nat \<Rightarrow> bool" where
  "normalized a E m \<longleftrightarrow> 2 ^ fb \<le> m \<and> m < 2 ^ Suc fb \<and> - int fb < E \<and> E < 2 ^ ebit \<and>
     mval fb (least_exp fb ebit) (magn a) = real m * 2 powi (least_exp fb ebit + E - 1)"

lemma normalized_normal: "expUI a \<noteq> 0 \<Longrightarrow> normalized a (expUI a) (unat (fracUI a) + 2 ^ fb)"
  using fracUI_less [of a] expUI_bounds [of a] by (simp add: normalized_def magn_value)

lemma normalized_subnormal:
  assumes "expUI a = 0" and b: "2 ^ fb \<le> unat (fracUI a) * 2 ^ sh" "unat (fracUI a) * 2 ^ sh < 2 ^ Suc fb"
  shows "normalized a (1 - int sh) (unat (fracUI a) * 2 ^ sh)"
proof -
  have "sh \<le> fb"
  proof (rule ccontr)
    assume "\<not> sh \<le> fb"
    then have "(2::nat) ^ Suc fb \<le> 2 ^ sh" by (intro power_increasing) simp_all
    moreover have "unat (fracUI a) \<noteq> 0" using b(1) by (intro notI) simp
    then have "2 ^ sh \<le> unat (fracUI a) * 2 ^ sh" by simp
    ultimately show False using b(2) by linarith
  qed
  moreover have "(2::real) powi (least_exp fb ebit) = 2 ^ sh * 2 powi (least_exp fb ebit + (1 - int sh) - 1)"
    unfolding powi_nat [symmetric] powi_split [symmetric] by (simp add: algebra_simps)
  moreover have "(1::int) < 2 ^ ebit" using width(3) by (intro one_less_power) simp_all
  ultimately show ?thesis
    using assms by (simp add: normalized_def magn_value)
qed

end

context round_pack
begin

lemma product_rounds:
  fixes sig :: u64
  assumes a: "normalized a Ea ma" and b: "normalized b Eb mb"
    and st: "stk 0 (real ma * real mb * 2 powi (int rb - int fb - 1)) S"
    and S: "2 ^ (fb + rb - 1) \<le> S" "S < 2 ^ (Suc fb + rb)"
    and sig: "unat sig = (if S < 2 ^ (fb + rb) then 2 * S else S)"
    and ez: "ez = (if S < 2 ^ (fb + rb) then e - 1 else e)" and e: "e = Ea + Eb - (2 ^ (ebit - 1) - 1)"
    and w: "ebit \<le> 11" "fb \<le> 52" "3 \<le> rb"
    and X: "X = mval fb (least_exp fb ebit) (magn a) * mval fb (least_exp fb ebit) (magn b)"
  shows "rounds_word fb ebit (rmode_of (softfloat_roundingMode s)) sg X (fst (roundPack sg ez sig s))"
proof -
  define x where "x = real ma * real mb * 2 powi (int rb - int fb - 1)"
  define l where "l = least_exp fb ebit"
  define H G :: int where "H = 2 ^ (ebit - 1)" and "G = 2 ^ ebit"
  have "G \<le> 2 ^ 11" "H \<le> 2 ^ 11" "0 < H"
    unfolding G_def H_def using w(1) power_increasing [of ebit 11 "2::int"] power_increasing [of "ebit - 1" 11 "2::int"]
    by simp_all
  moreover have "- int fb < Ea" "Ea < G" "- int fb < Eb" "Eb < G"
    using a b by (simp_all add: normalized_def G_def)
  moreover have "int fb \<le> 52" using w(2) by simp
  ultimately have range: "- 3000 \<le> e" "e < 5000" unfolding e H_def [symmetric] by simp_all
  have "X = (real ma * real mb) * (2 powi (l + Ea - 1) * 2 powi (l + Eb - 1))"
    using a b by (simp add: X normalized_def l_def)
  also have "(2::real) powi (l + Ea - 1) * 2 powi (l + Eb - 1) = 2 powi (int rb - int fb - 1) * 2 powi (l + e - int rb)"
    unfolding powi_split [symmetric] e l_def least_exp_def
    by (rule arg_cong [of _ _ "\<lambda>k. 2 powi k"]) linarith
  finally have Xx: "X = x * 2 powi (l + e - int rb)" by (simp add: x_def)
  show ?thesis
  proof (cases "S < 2 ^ (fb + rb)")
    case True
    have "stk 1 (x * 2) (unat sig)"
      using stk_shift [OF st, of 1] True by (simp add: sig x_def mult.commute)
    moreover have "(2::real) powi (l + e - int rb) = 2 * 2 powi (l + ez - int rb)"
      using powi_split [of 1 "l + e - int rb - 1"] True by (simp add: ez algebra_simps)
    then have "X = (x * 2) * 2 powi (l + ez - int rb)" by (simp add: Xx)
    moreover have "(2::nat) ^ (fb + rb) = 2 * 2 ^ (fb + rb - 1)" using w(3) by (cases rb) simp_all
    ultimately show ?thesis
      by (intro roundPack_rounds [where j = 1]) (use True S range w(3) in \<open>simp_all add: sig ez l_def\<close>)
  next
    case False
    then show ?thesis
      using st Xx by (intro roundPack_rounds [where j = 0]) (use S range w(3) in \<open>simp_all add: sig ez x_def l_def\<close>)
  qed
qed

end

subsection \<open>What the code's normalization computes\<close>

lemma normSubnormalF32Sig_eq:
  assumes "sig \<noteq> 0" "unat sig < 2 ^ 23"
  obtains sh where "es32_exp (softfloat_normSubnormalF32Sig sig) = 1 - int sh"
    and "unat (es32_sig (softfloat_normSubnormalF32Sig sig)) = unat sig * 2 ^ sh"
    and "2 ^ 23 \<le> unat sig * 2 ^ sh" "unat sig * 2 ^ sh < 2 ^ Suc 23"
proof -
  define c where "c = unat (softfloat_countLeadingZeros32 (ucast sig))"
  define sh where "sh = c - 8"
  have u: "unat (ucast sig :: u32) = unat sig" using assms(2) by (intro unat_ucast32) simp
  then have "(ucast sig :: u32) \<noteq> 0" using assms(1) by (metis unat_eq_zero)
  note nz = countLeadingZeros32_normalizes(1) [OF this, unfolded u, folded c_def]
  have "8 \<le> c" using normalizes_ge [OF nz, of 8] assms(2) by simp
  then have c: "c = sh + 8" by (simp add: sh_def)
  have b: "2 ^ 23 \<le> unat sig * 2 ^ sh" "unat sig * 2 ^ sh < 2 ^ Suc 23"
    using nz by (simp_all add: normalizes_def c power_add)
  moreover have "unat (push_bit sh sig) = unat sig * 2 ^ sh" using b(2) by (intro unat_shl_less) simp
  ultimately show ?thesis
    using that [of sh] by (simp add: softfloat_normSubnormalF32Sig_def c_def [symmetric] c)
qed

lemma unat_or_hidden:
  fixes sig h :: u64
  assumes "unat sig < 2 ^ n" "unat h = 2 ^ n"
  shows "unat (sig OR h) = unat sig + 2 ^ n"
  using unat_or_add [of n h sig] assms by (simp add: or.commute)

lemma or_hidden_set:
  fixes sig :: u64
  assumes "2 ^ n \<le> unat sig" "unat sig < 2 ^ Suc n" "h = push_bit n 1"
  shows "sig OR h = sig"
proof -
  have "unat sig div 2 ^ n < 2" using assms(2) by (intro less_mult_imp_div_less) simp
  moreover have "1 \<le> unat sig div 2 ^ n" using div_le_mono [OF assms(1), of "2 ^ n"] by simp
  ultimately have "unat (drop_bit n sig) = 1" by (simp add: unat_shr)
  then have "bit sig n" by (simp add: bit_iff_odd_drop_bit flip: even_unat_iff)
  then show ?thesis by (intro bit_word_eqI) (auto simp: assms(3) bit_simps)
qed

text \<open>The operand as the code unpacks it: a nonzero finite number comes out normalized.\<close>

lemma unpackF32_normalized:
  fixes a :: u64
  assumes a: "expF32UI a < 0xFF" "expF32UI a \<noteq> 0 \<or> fracF32UI a \<noteq> 0"
    and z: "(expZ, sigZ) = (if expF32UI a = 0
      then (es32_exp (softfloat_normSubnormalF32Sig (fracF32UI a)), es32_sig (softfloat_normSubnormalF32Sig (fracF32UI a)))
      else (expF32UI a, fracF32UI a))"
  shows "f32.normalized a expZ (unat (sigZ OR 0x00800000))"
proof (cases "expF32UI a = 0")
  case True
  with a have "fracF32UI a \<noteq> 0" by simp
  from normSubnormalF32Sig_eq [OF this] f32.fracUI_less obtain sh where
    sh: "es32_exp (softfloat_normSubnormalF32Sig (fracF32UI a)) = 1 - int sh"
      "unat (es32_sig (softfloat_normSubnormalF32Sig (fracF32UI a))) = unat (fracF32UI a) * 2 ^ sh"
      "2 ^ 23 \<le> unat (fracF32UI a) * 2 ^ sh" "unat (fracF32UI a) * 2 ^ sh < 2 ^ Suc 23" by metis
  then have "es32_sig (softfloat_normSubnormalF32Sig (fracF32UI a)) OR 0x00800000
      = es32_sig (softfloat_normSubnormalF32Sig (fracF32UI a))"
    by (intro or_hidden_set [where n = 23]) (simp_all add: push_bit_eq_mult)
  with z True sh f32.normalized_subnormal [OF True sh(3,4)] show ?thesis by simp
next
  case False
  with z f32.normalized_normal [OF False] unat_or_hidden [of "fracF32UI a" 23 "0x00800000"] f32.fracUI_less [of a]
  show ?thesis by simp
qed

lemma jam_less_pow:
  assumes n: "n < 2 ^ (k + c)" and "0 < k"
  shows "jam c n < 2 ^ k"
proof -
  define q where "q = n div 2 ^ c"
  have q: "q < 2 ^ k" unfolding q_def using n by (intro less_mult_imp_div_less) (simp add: power_add)
  have "even ((2::nat) ^ k)" using assms(2) by simp
  then have "even q \<Longrightarrow> Suc q \<noteq> 2 ^ k" by (metis even_Suc)
  with q show ?thesis by (auto simp: jam_def Let_def q_def [symmetric])
qed

lemma jam_ge_pow: "2 ^ (k + c) \<le> n \<Longrightarrow> 2 ^ k \<le> jam c n"
  using div_le_mono [of "2 ^ (k + c)" n "2 ^ c"] by (simp add: jam_def Let_def power_add)

subsection \<open>Multiplication of finite numbers is correctly rounded\<close>

lemma rounds_zero:
  assumes "unat r = of_bool sg * 2 ^ (fb + ebit)" "1 < ebit"
  shows "rounds_word fb ebit m sg 0 r"
proof -
  have "(2::nat) ^ 1 < 2 ^ ebit" using assms(2) by (intro power_strict_increasing) simp_all
  then have "0 < inf_magn fb ebit" by (simp add: inf_magn_def)
  with rounds_word_exact [of r sg fb ebit 0 m] assms show ?thesis by simp
qed

lemma unat_packF32_zero: "unat (ucast (packToF32UI sg 0 0) :: u32) = of_bool sg * 2 ^ 31"
  using packToF32UI_eq [of 0 0 sg] by (cases sg) (simp_all add: unat_ucast_mod)

lemma unat_packF64_zero: "unat (packToF64UI sg 0 0) = of_bool sg * 2 ^ 63"
  using packToF64UI_eq [of 0 0 sg] by (cases sg) simp_all

lemma rounds_zero_f32: "rounds_word 23 8 m sg 0 (ucast (packToF32UI sg 0 0) :: u32)"
  by (rule rounds_zero) (simp_all add: unat_packF32_zero)

lemma rounds_zero_f64: "rounds_word 52 11 m sg 0 (packToF64UI sg 0 0)"
  by (rule rounds_zero) (simp_all add: unat_packF64_zero)

lemma f32_mul_core:
  assumes A: "f32.normalized a expA (unat (sigA OR 0x00800000))" and B: "f32.normalized b expB (unat (sigB OR 0x00800000))"
  defines "sigZ \<equiv> softfloat_shortShiftRightJam64 (push_bit 7 (sigA OR 0x00800000) * push_bit 8 (sigB OR 0x00800000)) 32"
  shows "rounds_word 23 8 (rmode_of (softfloat_roundingMode s)) sg
    (mval 23 (- 149) (f32.magn a) * mval 23 (- 149) (f32.magn b))
    (fst (if sigZ < 0x40000000 then softfloat_roundPackToF32 sg (expA + expB - 0x7F - 1) (push_bit 1 sigZ) s
          else softfloat_roundPackToF32 sg (expA + expB - 0x7F) sigZ s))"
proof -
  define ma mb where "ma = unat (sigA OR 0x00800000)" and "mb = unat (sigB OR 0x00800000)"
  have m: "2 ^ 23 \<le> ma" "ma < 2 ^ 24" "2 ^ 23 \<le> mb" "mb < 2 ^ 24"
    using A B by (simp_all add: f32.normalized_def ma_def mb_def)
  define ga gb where "ga = push_bit 7 (sigA OR 0x00800000)" and "gb = push_bit 8 (sigB OR 0x00800000)"
  have sh: "unat ga = ma * 2 ^ 7" "unat gb = mb * 2 ^ 8"
    using m unat_shl_less [of "sigA OR 0x00800000" 7] unat_shl_less [of "sigB OR 0x00800000" 8]
    by (simp_all add: ga_def gb_def ma_def mb_def)
  define P where "P = ma * mb * 2 ^ 15"
  have mm: "2 ^ 46 \<le> ma * mb" "ma * mb < 2 ^ 48"
    using mult_le_mono [OF m(1,3)] mult_strict_mono [OF m(2,4)] by simp_all
  then have P: "2 ^ 61 \<le> P" "P < 2 ^ 63" by (simp_all add: P_def)
  have pr: "unat (ga * gb) = P"
    using P by (subst unat_mult_less) (simp_all add: sh P_def)
  define S where "S = jam 32 P"
  have S: "unat sigZ = S" unfolding sigZ_def S_def ga_def [symmetric] gb_def [symmetric]
    by (subst unat_shortShiftRightJam64) (simp_all add: pr)
  have b: "2 ^ 29 \<le> S" "S < 2 ^ 31"
    unfolding S_def using P by (intro jam_ge_pow jam_less_pow; simp)+
  have "real P / 2 ^ 32 = real ma * real mb * 2 powi (int 7 - int 23 - 1)" by (simp add: P_def)
  then have st: "stk 0 (real ma * real mb * 2 powi (int 7 - int 23 - 1)) S"
    using stk_jam_nat [of P 32] by (simp only: S_def)
  have lt: "sigZ < 0x40000000 \<longleftrightarrow> S < 2 ^ (23 + 7)" by (simp add: word_less_nat_alt S)
  define sig where "sig = (if S < 2 ^ (23 + 7) then push_bit 1 sigZ else sigZ)"
  have "unat sig = (if S < 2 ^ (23 + 7) then 2 * S else S)"
    using b(2) unat_shl_less [of sigZ 1] by (simp add: sig_def S)
  from rp32.product_rounds [OF A [folded ma_def] B [folded mb_def] st _ _ this refl refl, of _ s sg] b
  show ?thesis unfolding lt sig_def by (simp del: push_bit_of_1 split: if_splits)
qed

lemma f32_mul_rounds:
  assumes fin: "f32_isFinite a" "f32_isFinite b"
  shows "rounds_word 23 8 (rmode_of (softfloat_roundingMode s)) (f32_sign a \<noteq> f32_sign b)
    \<bar>f32_val a * f32_val b\<bar> (fst (f32_mul a b s))"
proof -
  define uA uB :: u64 where "uA = ucast a" and "uB = ucast b"
  have e: "expF32UI uA < 0xFF" "expF32UI uB < 0xFF" using fin by (simp_all add: f32_class_exp uA_def uB_def)
  have X: "\<bar>f32_val a * f32_val b\<bar> = mval 23 (- 149) (f32.magn uA) * mval 23 (- 149) (f32.magn uB)"
    by (simp add: f32_val_def with_sign_def uA_def uB_def abs_mult)
  have sg: "signF32UI uA = f32_sign a" "signF32UI uB = f32_sign b" by (simp_all add: uA_def uB_def)
  show ?thesis
  proof (cases "f32.magn uA = 0 \<or> f32.magn uB = 0")
    case True
    then have "f32_mul a b s = (ucast (packToF32UI (f32_sign a \<noteq> f32_sign b) 0 0), s)"
      using e unfolding f32_mul_def Let_def uA_def [symmetric] uB_def [symmetric] sg f32.magn_eq_0_iff split_beta
      by (elim disjE conjE) simp_all
    moreover have "mval 23 (- 149) (f32.magn uA) * mval 23 (- 149) (f32.magn uB) = 0" using True by auto
    ultimately show ?thesis
      unfolding X by (simp only: rounds_zero_f32 fst_conv)
  next
    case False
    then have nz: "expF32UI uA \<noteq> 0 \<or> fracF32UI uA \<noteq> 0" "expF32UI uB \<noteq> 0 \<or> fracF32UI uB \<noteq> 0"
      by (simp_all add: f32.magn_eq_0_iff)
    obtain eA gA where A: "(eA, gA) = (if expF32UI uA = 0
      then (es32_exp (softfloat_normSubnormalF32Sig (fracF32UI uA)), es32_sig (softfloat_normSubnormalF32Sig (fracF32UI uA)))
      else (expF32UI uA, fracF32UI uA))" by (metis surj_pair)
    obtain eB gB where B: "(eB, gB) = (if expF32UI uB = 0
      then (es32_exp (softfloat_normSubnormalF32Sig (fracF32UI uB)), es32_sig (softfloat_normSubnormalF32Sig (fracF32UI uB)))
      else (expF32UI uB, fracF32UI uB))" by (metis surj_pair)
    note core = f32_mul_core [OF unpackF32_normalized [OF e(1) nz(1) A] unpackF32_normalized [OF e(2) nz(2) B],
      of s "f32_sign a \<noteq> f32_sign b"]
    have no: "(expF32UI uA = 0xFF) = False" "(expF32UI uB = 0xFF) = False"
      "(expF32UI uA = 0 \<and> fracF32UI uA = 0) = False" "(expF32UI uB = 0 \<and> fracF32UI uB = 0) = False"
      using e nz by auto
    show ?thesis
      using core
      unfolding X f32_mul_def Let_def uA_def [symmetric] uB_def [symmetric] A [symmetric] B [symmetric] sg prod.case
      by (simp only: no if_False)
  qed
qed

lemma normSubnormalF64Sig_eq:
  assumes "sig \<noteq> 0" "unat sig < 2 ^ 52"
  obtains sh where "es64_exp (softfloat_normSubnormalF64Sig sig) = 1 - int sh"
    and "unat (es64_sig (softfloat_normSubnormalF64Sig sig)) = unat sig * 2 ^ sh"
    and "2 ^ 52 \<le> unat sig * 2 ^ sh" "unat sig * 2 ^ sh < 2 ^ Suc 52"
proof -
  define c where "c = unat (softfloat_countLeadingZeros64 sig)"
  define sh where "sh = c - 11"
  note nz = countLeadingZeros64_normalizes(1) [OF assms(1), folded c_def]
  have "11 \<le> c" using normalizes_ge [OF nz, of 11] assms(2) by simp
  then have c: "c = sh + 11" by (simp add: sh_def)
  have b: "2 ^ 52 \<le> unat sig * 2 ^ sh" "unat sig * 2 ^ sh < 2 ^ Suc 52"
    using nz by (simp_all add: normalizes_def c power_add)
  moreover have "unat (push_bit sh sig) = unat sig * 2 ^ sh" using b(2) by (intro unat_shl_less) simp
  ultimately show ?thesis
    using that [of sh] by (simp add: softfloat_normSubnormalF64Sig_def c_def [symmetric] c)
qed

lemma unpackF64_normalized:
  fixes a :: u64
  assumes a: "expF64UI a < 0x7FF" "expF64UI a \<noteq> 0 \<or> fracF64UI a \<noteq> 0"
    and z: "(expZ, sigZ) = (if expF64UI a = 0
      then (es64_exp (softfloat_normSubnormalF64Sig (fracF64UI a)), es64_sig (softfloat_normSubnormalF64Sig (fracF64UI a)))
      else (expF64UI a, fracF64UI a))"
  shows "f64.normalized a expZ (unat (sigZ OR 0x0010000000000000))"
proof (cases "expF64UI a = 0")
  case True
  with a have "fracF64UI a \<noteq> 0" by simp
  from normSubnormalF64Sig_eq [OF this] f64.fracUI_less obtain sh where
    sh: "es64_exp (softfloat_normSubnormalF64Sig (fracF64UI a)) = 1 - int sh"
      "unat (es64_sig (softfloat_normSubnormalF64Sig (fracF64UI a))) = unat (fracF64UI a) * 2 ^ sh"
      "2 ^ 52 \<le> unat (fracF64UI a) * 2 ^ sh" "unat (fracF64UI a) * 2 ^ sh < 2 ^ Suc 52" by metis
  then have "es64_sig (softfloat_normSubnormalF64Sig (fracF64UI a)) OR 0x0010000000000000
      = es64_sig (softfloat_normSubnormalF64Sig (fracF64UI a))"
    by (intro or_hidden_set [where n = 52]) (simp_all add: push_bit_eq_mult)
  with z True sh f64.normalized_subnormal [OF True sh(3,4)] show ?thesis by simp
next
  case False
  with z f64.normalized_normal [OF False] unat_or_hidden [of "fracF64UI a" 52 "0x0010000000000000"] f64.fracUI_less [of a]
  show ?thesis by simp
qed

lemma f64_magn_eq_0_iff: "f64_magn a = 0 \<longleftrightarrow> expF64UI a = 0 \<and> fracF64UI a = 0"
  using f64.magn_eq_0_iff [of a] by simp

lemma jam_128: "unat (u128_v64 z OR of_bool (u128_v0 z \<noteq> 0)) = jam 64 (val128 z)"
proof -
  have "unat (u128_v0 z) < 2 ^ 64" using unat_lt_pow [of "u128_v0 z"] by simp
  then have "val128 z div 2 ^ 64 = unat (u128_v64 z)" "val128 z mod 2 ^ 64 = unat (u128_v0 z)"
    by (simp_all add: val128_def)
  then show ?thesis by (simp only: jam_def Let_def unat_or_of_bool) (simp add: unat_eq_zero)
qed

lemma f64_mul_core:
  assumes A: "f64.normalized a expA (unat (sigA OR 0x0010000000000000))"
    and B: "f64.normalized b expB (unat (sigB OR 0x0010000000000000))"
  defines "z \<equiv> softfloat_mul64To128 (push_bit 10 (sigA OR 0x0010000000000000)) (push_bit 11 (sigB OR 0x0010000000000000))"
  defines "sigZ \<equiv> u128_v64 z OR of_bool (u128_v0 z \<noteq> 0)"
  shows "rounds_word 52 11 (rmode_of (softfloat_roundingMode s)) sg
    (mval 52 (- 1074) (f64_magn a) * mval 52 (- 1074) (f64_magn b))
    (fst (if sigZ < 0x4000000000000000 then softfloat_roundPackToF64 sg (expA + expB - 0x3FF - 1) (push_bit 1 sigZ) s
          else softfloat_roundPackToF64 sg (expA + expB - 0x3FF) sigZ s))"
proof -
  define ma mb where "ma = unat (sigA OR 0x0010000000000000)" and "mb = unat (sigB OR 0x0010000000000000)"
  have m: "2 ^ 52 \<le> ma" "ma < 2 ^ 53" "2 ^ 52 \<le> mb" "mb < 2 ^ 53"
    using A B by (simp_all add: f64.normalized_def ma_def mb_def)
  define ga gb where "ga = push_bit 10 (sigA OR 0x0010000000000000)" and "gb = push_bit 11 (sigB OR 0x0010000000000000)"
  have sh: "unat ga = ma * 2 ^ 10" "unat gb = mb * 2 ^ 11"
    using m unat_shl_less [of "sigA OR 0x0010000000000000" 10] unat_shl_less [of "sigB OR 0x0010000000000000" 11]
    by (simp_all add: ga_def gb_def ma_def mb_def)
  define P where "P = ma * mb * 2 ^ 21"
  have mm: "2 ^ 104 \<le> ma * mb" "ma * mb < 2 ^ 106"
    using mult_le_mono [OF m(1,3)] mult_strict_mono [OF m(2,4)] by simp_all
  then have P: "2 ^ 125 \<le> P" "P < 2 ^ 127" by (simp_all add: P_def)
  have pr: "val128 z = P"
    unfolding z_def ga_def [symmetric] gb_def [symmetric] val128_mul64To128 sh P_def by simp
  define S where "S = jam 64 P"
  have S: "unat sigZ = S" unfolding sigZ_def S_def pr [symmetric] by (rule jam_128)
  have b: "2 ^ 61 \<le> S" "S < 2 ^ 63"
    unfolding S_def using P by (intro jam_ge_pow jam_less_pow; simp)+
  have "real P / 2 ^ 64 = real ma * real mb * 2 powi (int 10 - int 52 - 1)" by (simp add: P_def)
  then have st: "stk 0 (real ma * real mb * 2 powi (int 10 - int 52 - 1)) S"
    using stk_jam_nat [of P 64] by (simp only: S_def)
  have lt: "sigZ < 0x4000000000000000 \<longleftrightarrow> S < 2 ^ (52 + 10)" by (simp add: word_less_nat_alt S)
  define sig where "sig = (if S < 2 ^ (52 + 10) then push_bit 1 sigZ else sigZ)"
  have "unat sig = (if S < 2 ^ (52 + 10) then 2 * S else S)"
    using b(2) unat_shl_less [of sigZ 1] by (simp add: sig_def S)
  from rp64.product_rounds [OF A [folded ma_def] B [folded mb_def] st _ _ this refl refl, of _ s sg] b
  show ?thesis unfolding lt sig_def by (simp del: push_bit_of_1 split: if_splits)
qed

lemma f64_mul_rounds:
  assumes fin: "f64_isFinite a" "f64_isFinite b"
  shows "rounds_word 52 11 (rmode_of (softfloat_roundingMode s)) (f64_sign a \<noteq> f64_sign b)
    \<bar>f64_val a * f64_val b\<bar> (fst (f64_mul a b s))"
proof -
  have e: "expF64UI a < 0x7FF" "expF64UI b < 0x7FF" using fin by (simp_all add: f64_class_exp)
  have X: "\<bar>f64_val a * f64_val b\<bar> = mval 52 (- 1074) (f64_magn a) * mval 52 (- 1074) (f64_magn b)"
    by (simp add: f64_val_def with_sign_def abs_mult)
  have sg: "signF64UI a = f64_sign a" "signF64UI b = f64_sign b" by simp_all
  show ?thesis
  proof (cases "f64_magn a = 0 \<or> f64_magn b = 0")
    case True
    then have "f64_mul a b s = (packToF64UI (f64_sign a \<noteq> f64_sign b) 0 0, s)"
      using e unfolding f64_mul_def Let_def sg f64_magn_eq_0_iff split_beta
      by (elim disjE conjE) simp_all
    moreover have "mval 52 (- 1074) (f64_magn a) * mval 52 (- 1074) (f64_magn b) = 0" using True by auto
    ultimately show ?thesis
      unfolding X by (simp only: rounds_zero_f64 fst_conv)
  next
    case False
    then have nz: "expF64UI a \<noteq> 0 \<or> fracF64UI a \<noteq> 0" "expF64UI b \<noteq> 0 \<or> fracF64UI b \<noteq> 0"
      by (simp_all add: f64_magn_eq_0_iff)
    obtain eA gA where A: "(eA, gA) = (if expF64UI a = 0
      then (es64_exp (softfloat_normSubnormalF64Sig (fracF64UI a)), es64_sig (softfloat_normSubnormalF64Sig (fracF64UI a)))
      else (expF64UI a, fracF64UI a))" by (metis surj_pair)
    obtain eB gB where B: "(eB, gB) = (if expF64UI b = 0
      then (es64_exp (softfloat_normSubnormalF64Sig (fracF64UI b)), es64_sig (softfloat_normSubnormalF64Sig (fracF64UI b)))
      else (expF64UI b, fracF64UI b))" by (metis surj_pair)
    note core = f64_mul_core [OF unpackF64_normalized [OF e(1) nz(1) A] unpackF64_normalized [OF e(2) nz(2) B],
      of s "f64_sign a \<noteq> f64_sign b"]
    have no: "(expF64UI a = 0x7FF) = False" "(expF64UI b = 0x7FF) = False"
      "(expF64UI a = 0 \<and> fracF64UI a = 0) = False" "(expF64UI b = 0 \<and> fracF64UI b = 0) = False"
      using e nz by auto
    show ?thesis
      using core
      unfolding X f64_mul_def Let_def A [symmetric] B [symmetric] sg prod.case
      by (simp only: no if_False)
  qed
qed

end
