(* ===== verification/SoftFloat_Div.thy ===== *)
theory SoftFloat_Div
  imports SoftFloat_Mul
begin

text \<open>
  Division: \<^verbatim>\<open>f32_div.c\<close> and \<^verbatim>\<open>f64_div.c\<close>.  The 32-bit division divides a 64-bit by a 32-bit
  integer and settles the sticky bit only when the quotient is close to a rounding boundary; the
  64-bit division computes the quotient in two digits of 32 bits from an approximate reciprocal and
  corrects it by the remainder in the same situation.
\<close>

subsection \<open>The code\<close>

definition f32_div :: "u32 \<Rightarrow> u32 \<Rightarrow> softfloat_state \<Rightarrow> u32 \<times> softfloat_state" where
  "f32_div a b s =
     (let uiA = ucast a; signA = signF32UI uiA; expA = expF32UI uiA; sigA = fracF32UI uiA;
          uiB = ucast b; signB = signF32UI uiB; expB = expF32UI uiB; sigB = fracF32UI uiB;
          signZ = (signA \<noteq> signB);
          propagateNaN = apfst ucast (softfloat_propagateNaNF32UI uiA uiB s);
          invalid = (ucast defaultNaNF32UI, softfloat_raiseFlags softfloat_flag_invalid s);
          infinity = (\<lambda>s. (ucast (packToF32UI signZ 0xFF 0), s));
          zero = (ucast (packToF32UI signZ 0 0), s)
      in if expA = 0xFF
         then (if sigA \<noteq> 0 then propagateNaN
               else if expB = 0xFF then (if sigB \<noteq> 0 then propagateNaN else invalid)
               else infinity s)
         else if expB = 0xFF then (if sigB \<noteq> 0 then propagateNaN else zero)
         else if expB = 0 \<and> sigB = 0
         then (if word_of_int expA OR sigA = 0 then invalid
               else infinity (softfloat_raiseFlags softfloat_flag_infinite s))
         else let normB = softfloat_normSubnormalF32Sig sigB;
                  (expB, sigB) = (if expB = 0 then (es32_exp normB, es32_sig normB) else (expB, sigB))
              in if expA = 0 \<and> sigA = 0 then zero
                 else let normA = softfloat_normSubnormalF32Sig sigA;
                          (expA, sigA) = (if expA = 0 then (es32_exp normA, es32_sig normA) else (expA, sigA));
                          expZ = expA - expB + 0x7E;
                          sigA = sigA OR 0x00800000;
                          sigB = sigB OR 0x00800000;
                          (expZ, sig64A) = (if sigA < sigB then (expZ - 1, push_bit 31 sigA)
                                            else (expZ, push_bit 30 sigA));
                          sigZ = sig64A div sigB;
                          sigZ = (if sigZ AND 0x3F = 0 then sigZ OR of_bool (sigB * sigZ \<noteq> sig64A) else sigZ)
                      in softfloat_roundPackToF32 signZ expZ sigZ s)"

text \<open>The quotient of the 64-bit division: \<open>sigA\<close> and \<open>sigB\<close> are normalized, \<open>sigA < sigB\<close>.\<close>

definition f64_div_sigZ :: "u64 \<Rightarrow> u64 \<Rightarrow> u64" where
  "f64_div_sigZ sigA sigB =
     (let recip32 = softfloat_approxRecip32_1 (ucast (drop_bit 32 sigB)) - 2;
          sig32Z = ucast (drop_bit 32 (ucast (ucast (drop_bit 32 sigA) :: u32) * ucast recip32 :: u64)) :: u32;
          doubleTerm = push_bit 1 sig32Z;
          rem = push_bit 28 (sigA - ucast doubleTerm * ucast (ucast (drop_bit 32 sigB) :: u32))
                  - ucast doubleTerm * ucast (drop_bit 4 (ucast sigB :: u32));
          q = ucast (drop_bit 32 (ucast (ucast (drop_bit 32 rem) :: u32) * ucast recip32 :: u64) + 4) :: u32;
          sigZ = push_bit 32 (ucast sig32Z) + push_bit 4 (ucast q)
      in if sigZ AND 0x1FF < push_bit 4 4
         then let q = q AND NOT 7;
                  sigZ = sigZ AND NOT 0x7F;
                  doubleTerm = push_bit 1 q;
                  rem = push_bit 28 (rem - ucast doubleTerm * ucast (ucast (drop_bit 32 sigB) :: u32))
                          - ucast doubleTerm * ucast (drop_bit 4 (ucast sigB :: u32))
              in if rem AND 0x8000000000000000 \<noteq> 0 then sigZ - push_bit 7 1
                 else if rem \<noteq> 0 then sigZ OR 1 else sigZ
         else sigZ)"

definition f64_div :: "u64 \<Rightarrow> u64 \<Rightarrow> softfloat_state \<Rightarrow> u64 \<times> softfloat_state" where
  "f64_div a b s =
     (let uiA = a; signA = signF64UI uiA; expA = expF64UI uiA; sigA = fracF64UI uiA;
          uiB = b; signB = signF64UI uiB; expB = expF64UI uiB; sigB = fracF64UI uiB;
          signZ = (signA \<noteq> signB);
          propagateNaN = softfloat_propagateNaNF64UI uiA uiB s;
          invalid = (defaultNaNF64UI, softfloat_raiseFlags softfloat_flag_invalid s);
          infinity = (\<lambda>s. (packToF64UI signZ 0x7FF 0, s));
          zero = (packToF64UI signZ 0 0, s)
      in if expA = 0x7FF
         then (if sigA \<noteq> 0 then propagateNaN
               else if expB = 0x7FF then (if sigB \<noteq> 0 then propagateNaN else invalid)
               else infinity s)
         else if expB = 0x7FF then (if sigB \<noteq> 0 then propagateNaN else zero)
         else if expB = 0 \<and> sigB = 0
         then (if word_of_int expA OR sigA = 0 then invalid
               else infinity (softfloat_raiseFlags softfloat_flag_infinite s))
         else let normB = softfloat_normSubnormalF64Sig sigB;
                  (expB, sigB) = (if expB = 0 then (es64_exp normB, es64_sig normB) else (expB, sigB))
              in if expA = 0 \<and> sigA = 0 then zero
                 else let normA = softfloat_normSubnormalF64Sig sigA;
                          (expA, sigA) = (if expA = 0 then (es64_exp normA, es64_sig normA) else (expA, sigA));
                          expZ = expA - expB + 0x3FE;
                          sigA = sigA OR 0x0010000000000000;
                          sigB = sigB OR 0x0010000000000000;
                          (expZ, sigA) = (if sigA < sigB then (expZ - 1, push_bit 11 sigA)
                                          else (expZ, push_bit 10 sigA));
                          sigB = push_bit 11 sigB
                      in softfloat_roundPackToF64 signZ expZ (f64_div_sigZ sigA sigB) s)"

subsection \<open>Quotients of normalized operands\<close>

context round_pack
begin

lemma quotient_rounds:
  fixes sig :: u64
  assumes a: "normalized a Ea ma" and b: "normalized b Eb mb"
    and nr: "near j ((if ma < mb then 2 else 1) * (real ma / real mb) * 2 ^ (fb + rb)) (unat sig)" "j + 1 \<le> rb"
    and sig: "2 ^ (fb + rb) \<le> unat sig" "unat sig < 2 ^ (Suc fb + rb)"
    and e: "e = Ea - Eb + (2 ^ (ebit - 1) - 2) - of_bool (ma < mb)"
    and w: "ebit \<le> 11" "fb \<le> 52"
    and X: "X = mval fb (least_exp fb ebit) (magn a) / mval fb (least_exp fb ebit) (magn b)"
  shows "rounds_word fb ebit (rmode_of (softfloat_roundingMode s)) sg X (fst (roundPack sg e sig s))"
proof -
  define l where "l = least_exp fb ebit"
  define H G :: int where "H = 2 ^ (ebit - 1)" and "G = 2 ^ ebit"
  have "G \<le> 2 ^ 11" "H \<le> 2 ^ 11" "0 < H"
    unfolding G_def H_def using w(1) power_increasing [of ebit 11 "2::int"] power_increasing [of "ebit - 1" 11 "2::int"]
    by simp_all
  moreover have "- int fb < Ea" "Ea < G" "- int fb < Eb" "Eb < G"
    using a b by (simp_all add: normalized_def G_def)
  moreover have "int fb \<le> 52" using w(2) by simp
  ultimately have range: "- 32768 \<le> e" "e < 32768" unfolding e H_def [symmetric] by simp_all
  have mb: "0 < mb" using b by (auto simp: normalized_def intro: less_le_trans [rotated])
  have "X = (real ma / real mb) * (2 powi (l + Ea - 1) / 2 powi (l + Eb - 1))"
    using a b by (simp add: X normalized_def l_def)
  also have "(2::real) powi (l + Ea - 1) / 2 powi (l + Eb - 1) = 2 powi (Ea - Eb)"
    by (simp add: power_int_diff [symmetric])
  also have "Ea - Eb = (of_bool (ma < mb) + int (fb + rb)) + (l + e - int rb)"
    unfolding e l_def least_exp_def by simp
  also have "(2::real) powi \<dots> = (if ma < mb then 2 else 1) * 2 ^ (fb + rb) * 2 powi (l + e - int rb)"
    unfolding powi_split powi_nat by simp
  finally have "X = (if ma < mb then 2 else 1) * (real ma / real mb) * 2 ^ (fb + rb) * 2 powi (l + e - int rb)"
    by simp
  then show ?thesis
    unfolding l_def by (intro roundPack_rounds_near [OF nr]) (use sig range in simp_all)
qed

end

subsection \<open>The 32-bit quotient\<close>

lemma floor_div_nat: "\<lfloor>real n / real d\<rfloor> = int (n div d)"
  by (simp add: floor_divide_of_nat_eq)

text \<open>A truncated quotient is a good significand unless it is a multiple of \<open>2 ^ j\<close>; then the sticky
  bit is needed.\<close>

lemma near_quotient:
  fixes n d :: nat
  assumes d: "0 < d" and j: "0 < j"
  defines "q \<equiv> n div d"
  shows "near j (real n / real d) (if q mod 2 ^ j = 0 then q + of_bool (d * q \<noteq> n) else q)"
proof (cases "q mod 2 ^ j = 0")
  case True
  show ?thesis
  proof (cases "d * q = n")
    case True
    then have "real n / real d = real q" using d by auto
    then show ?thesis using True by simp
  next
    case False
    have fl: "\<lfloor>real n / real d\<rfloor> = int q" by (simp add: floor_div_nat q_def)
    have ni: "real n / real d \<notin> \<int>"
    proof
      assume "real n / real d \<in> \<int>"
      then have "real n / real d = of_int \<lfloor>real n / real d\<rfloor>" by (metis Ints_cases floor_of_int)
      then have "real n = real (d * q)" using d by (simp add: floor_div_nat q_def field_simps)
      then show False using False by (simp only: of_nat_eq_iff)
    qed
    have "\<lfloor>real n / real d / 2 ^ j\<rfloor> = int (q div 2 ^ j)"
      by (rule floor_div_pow_step [OF fl])
    moreover obtain t where t: "q = 2 ^ j * t" using \<open>q mod 2 ^ j = 0\<close> by auto
    moreover have "(1 + 2 ^ j * t) div 2 ^ j = t" "(1 + 2 ^ j * t) mod 2 ^ j = 1"
      using one_less_power [of "2::nat" j] j div_mult_self2 [of "2 ^ j" 1 t]
      by (simp_all only: mod_mult_self2) simp_all
    moreover have "real n / real d / 2 ^ j \<notin> \<int>"
    proof
      assume "real n / real d / 2 ^ j \<in> \<int>"
      then have "real n / real d / 2 ^ j * 2 ^ j \<in> \<int>" by (intro Ints_mult) simp_all
      then show False using ni by simp
    qed
    ultimately show ?thesis using False by (simp add: near_def)
  qed
next
  case False
  have fl: "\<lfloor>real n / real d\<rfloor> = int q" by (simp add: floor_div_nat q_def)
  have "real n / real d / 2 ^ j \<notin> \<int>"
  proof
    assume "real n / real d / 2 ^ j \<in> \<int>"
    then obtain k where k: "real n / real d / 2 ^ j = of_int k" by (metis Ints_cases)
    have "real n / real d = real n / real d / 2 ^ j * 2 ^ j" by simp
    then have "real n / real d = of_int (k * 2 ^ j)" unfolding k by simp
    then have "int q = k * 2 ^ j" using fl by (metis floor_of_int)
    then have "int q mod int (2 ^ j) = 0" by simp
    then have "int (q mod 2 ^ j) = 0" by (simp only: zmod_int)
    then show False using False by simp
  qed
  with False floor_div_pow_step [OF fl, of j] show ?thesis by (simp add: near_def)
qed

lemma f32_div_core:
  assumes A: "f32.normalized a expA (unat sigA)" and B: "f32.normalized b expB (unat sigB)"
  defines "n \<equiv> if sigA < sigB then push_bit 31 sigA else push_bit 30 sigA"
  defines "q \<equiv> n div sigB"
  defines "sigZ \<equiv> if q AND 0x3F = 0 then q OR of_bool (sigB * q \<noteq> n) else q"
  shows "rounds_word 23 8 (rmode_of (softfloat_roundingMode s)) sg
    (mval 23 (- 149) (f32.magn a) / mval 23 (- 149) (f32.magn b))
    (fst (softfloat_roundPackToF32 sg (if sigA < sigB then expA - expB + 0x7E - 1 else expA - expB + 0x7E) sigZ s))"
proof -
  define ma mb where "ma = unat sigA" and "mb = unat sigB"
  have m: "2 ^ 23 \<le> ma" "ma < 2 ^ 24" "2 ^ 23 \<le> mb" "mb < 2 ^ 24"
    using A B by (simp_all add: f32.normalized_def ma_def mb_def)
  have lt: "sigA < sigB \<longleftrightarrow> ma < mb" by (simp add: word_less_nat_alt ma_def mb_def)
  define N where "N = (if ma < mb then 2 else 1) * ma * 2 ^ 30"
  have n: "unat n = N"
    using m unat_shl_less [of sigA 31] unat_shl_less [of sigA 30] by (simp add: n_def N_def lt ma_def [symmetric])
  define Q where "Q = N div mb"
  have q: "unat q = Q" by (simp add: q_def unat_div_distrib n Q_def mb_def)
  have "2 ^ 30 * mb \<le> N" "N < 2 ^ 31 * mb" using m by (auto simp: N_def)
  then have Qb: "2 ^ 30 \<le> Q" "Q < 2 ^ 31"
    using m(3) by (simp_all add: Q_def less_eq_div_iff_mult_less_eq less_mult_imp_div_less)
  have "mb * Q \<le> N" by (simp add: Q_def)
  moreover have "N < 2 ^ 55" using m(2) by (auto simp: N_def)
  ultimately have "unat (sigB * q) = mb * Q" by (subst unat_mult_less) (simp_all add: q mb_def)
  then have eq: "sigB * q \<noteq> n \<longleftrightarrow> mb * Q \<noteq> N" by (simp add: word_unat_eq_iff n)
  have low: "q AND 0x3F = 0 \<longleftrightarrow> Q mod 2 ^ 6 = 0"
    using unat_and_63 [of q] by (simp add: word_unat_eq_iff q)
  define S where "S = (if Q mod 2 ^ 6 = 0 then Q + of_bool (mb * Q \<noteq> N) else Q)"
  have ev: "Q mod 2 ^ 6 = 0 \<Longrightarrow> even Q" by (simp add: mod_eq_0_iff_dvd) (metis dvd_trans even_numeral)
  have sz: "unat sigZ = S"
    unfolding sigZ_def low eq S_def using ev by (simp add: unat_or_of_bool q)
  have "near 6 (real N / real mb) S" unfolding S_def Q_def using m(3) by (intro near_quotient) simp_all
  moreover have "real N / real mb = (if ma < mb then 2 else 1) * (real ma / real mb) * 2 ^ (23 + 7)" by (simp add: N_def)
  moreover have "2 ^ 30 \<le> S" "S < 2 ^ 31"
  proof -
    show "2 ^ 30 \<le> S" using Qb(1) by (simp add: S_def)
    have "Q \<noteq> 2 ^ 31 - 1" if "Q mod 2 ^ 6 = 0" using ev [OF that] by (intro notI) simp
    then show "S < 2 ^ 31" using Qb(2) by (auto simp: S_def)
  qed
  ultimately have "rounds_word 23 8 (rmode_of (softfloat_roundingMode s)) sg
    (mval 23 (least_exp 23 8) (f32.magn a) / mval 23 (least_exp 23 8) (f32.magn b))
    (fst (softfloat_roundPackToF32 sg (expA - expB + (2 ^ (8 - 1) - 2) - of_bool (ma < mb)) sigZ s))"
    by (intro rp32.quotient_rounds [OF A [folded ma_def] B [folded mb_def], of 6]) (simp_all add: sz)
  moreover have "(if sigA < sigB then expA - expB + 0x7E - 1 else expA - expB + 0x7E)
      = expA - expB + (2 ^ (8 - 1) - 2) - of_bool (ma < mb)" by (simp add: lt)
  ultimately show ?thesis by (simp only: least_exp_f32)
qed

lemma f32_div_rounds:
  assumes fin: "f32_isFinite a" "f32_isFinite b" and nz: "f32_val b \<noteq> 0"
  shows "rounds_word 23 8 (rmode_of (softfloat_roundingMode s)) (f32_sign a \<noteq> f32_sign b)
    \<bar>f32_val a / f32_val b\<bar> (fst (f32_div a b s))"
proof -
  define uA uB :: u64 where "uA = ucast a" and "uB = ucast b"
  have e: "expF32UI uA < 0xFF" "expF32UI uB < 0xFF" using fin by (simp_all add: f32_class_exp uA_def uB_def)
  have X: "\<bar>f32_val a / f32_val b\<bar> = mval 23 (- 149) (f32.magn uA) / mval 23 (- 149) (f32.magn uB)"
    by (simp add: f32_val_def with_sign_def uA_def uB_def abs_divide)
  have sg: "signF32UI uA = f32_sign a" "signF32UI uB = f32_sign b" by (simp_all add: uA_def uB_def)
  have "f32_magn b \<noteq> 0" using nz by (simp add: f32_zero_iff)
  then have nzB: "expF32UI uB \<noteq> 0 \<or> fracF32UI uB \<noteq> 0"
    using f32.magn_eq_0_iff [of uB] by (simp add: uB_def)
  have no: "(expF32UI uA = 0xFF) = False" "(expF32UI uB = 0xFF) = False"
    "(expF32UI uB = 0 \<and> fracF32UI uB = 0) = False" using e nzB by auto
  show ?thesis
  proof (cases "f32.magn uA = 0")
    case True
    then have "(expF32UI uA = 0 \<and> fracF32UI uA = 0) = True" by (simp add: f32.magn_eq_0_iff)
    then have "f32_div a b s = (ucast (packToF32UI (f32_sign a \<noteq> f32_sign b) 0 0), s)"
      unfolding f32_div_def Let_def uA_def [symmetric] uB_def [symmetric] sg split_beta
      by (simp only: no if_False if_True)
    moreover have "mval 23 (- 149) (f32.magn uA) / mval 23 (- 149) (f32.magn uB) = 0" using True by simp
    ultimately show ?thesis
      unfolding X by (simp only: rounds_zero_f32 fst_conv)
  next
    case False
    then have nzA: "expF32UI uA \<noteq> 0 \<or> fracF32UI uA \<noteq> 0" by (simp add: f32.magn_eq_0_iff)
    then have noA: "(expF32UI uA = 0 \<and> fracF32UI uA = 0) = False" by auto
    obtain eA gA where A: "(eA, gA) = (if expF32UI uA = 0
      then (es32_exp (softfloat_normSubnormalF32Sig (fracF32UI uA)), es32_sig (softfloat_normSubnormalF32Sig (fracF32UI uA)))
      else (expF32UI uA, fracF32UI uA))" by (metis surj_pair)
    obtain eB gB where B: "(eB, gB) = (if expF32UI uB = 0
      then (es32_exp (softfloat_normSubnormalF32Sig (fracF32UI uB)), es32_sig (softfloat_normSubnormalF32Sig (fracF32UI uB)))
      else (expF32UI uB, fracF32UI uB))" by (metis surj_pair)
    show ?thesis
      using f32_div_core [OF unpackF32_normalized [OF e(1) nzA A] unpackF32_normalized [OF e(2) nzB B],
        of s "f32_sign a \<noteq> f32_sign b"]
      unfolding X f32_div_def Let_def uA_def [symmetric] uB_def [symmetric] A [symmetric] B [symmetric] sg prod.case
      by (cases "gA OR 0x00800000 < gB OR 0x00800000") (simp_all only: no noA if_False if_True prod.case)
  qed
qed

subsection \<open>The 64-bit quotient\<close>

text \<open>
  One digit of the quotient of \<open>A\<close> by \<open>B = h * 2 ^ 32 + l\<close>: multiplying the high half of \<open>A\<close> by the
  approximate reciprocal \<open>R\<close> never exceeds the quotient and falls short of it by a bounded amount.
\<close>

lemma recip_digit:
  fixes A h l R :: nat
  assumes h: "2 ^ 31 \<le> h" "h < 2 ^ 32" and l: "l < 2 ^ 32"
    and R: "h * (R + 2) < 2 ^ 63" "2 ^ 63 \<le> h * (R + 3)"
  defines "B \<equiv> h * 2 ^ 32 + l" and "a \<equiv> A div 2 ^ 32" and "z \<equiv> A div 2 ^ 32 * R div 2 ^ 32"
  shows "0 < A \<Longrightarrow> 2 * z * B < A * 2 ^ 32" and "A * 2 ^ 32 < 2 * z * B + 2 ^ 64 + 6 * (a * h) + 2 * B"
proof -
  have zR: "z * 2 ^ 32 \<le> a * R" "a * R < (z + 1) * 2 ^ 32"
    unfolding z_def a_def by (simp_all add: less_mult_imp_div_less dividend_less_div_times div_times_less_eq_dividend)
  have aA: "a * 2 ^ 32 \<le> A" "A < (a + 1) * 2 ^ 32"
    unfolding a_def by (simp_all add: dividend_less_div_times div_times_less_eq_dividend)
  have "R + 2 < 2 ^ 32"
  proof (rule ccontr)
    assume "\<not> ?thesis"
    then have "2 ^ 31 * 2 ^ 32 \<le> h * (R + 2)" using h(1) by (intro mult_le_mono) simp_all
    then show False using R(1) by simp
  qed
  then have "R \<le> 2 * h" using h(1) by simp
  then have Rh: "R * (h + 1) \<le> 2 ^ 63" using R(1) by (simp add: algebra_simps)
  have "0 < R"
  proof (rule ccontr)
    assume "\<not> ?thesis"
    then have "2 ^ 63 \<le> h * 3" using R(2) by simp
    then show False using h(2) by simp
  qed
  have "B < (h + 1) * 2 ^ 32" using l by (simp add: B_def)
  then have "R * B < R * ((h + 1) * 2 ^ 32)" using \<open>0 < R\<close> by simp
  also have "\<dots> \<le> 2 ^ 63 * 2 ^ 32" unfolding mult.assoc [symmetric] using Rh by (rule mult_le_mono1)
  finally have RB: "R * B < 2 ^ 95" by simp
  show "2 * z * B < A * 2 ^ 32" if "0 < A"
  proof (cases "a = 0")
    case True
    then have "z = 0" by (simp add: z_def a_def)
    then show ?thesis using that by simp
  next
    case False
    have "(2 * z * B) * 2 ^ 32 = z * 2 ^ 32 * (2 * B)" by (simp only: ac_simps)
    also have "\<dots> \<le> a * R * (2 * B)" using zR(1) by (rule mult_le_mono1)
    also have "\<dots> = 2 * a * (R * B)" by (simp only: ac_simps)
    also have "\<dots> < 2 * a * 2 ^ 95" using RB False by (intro mult_strict_left_mono) simp_all
    also have "\<dots> = (a * 2 ^ 32) * 2 ^ 64" by simp
    also have "\<dots> \<le> A * 2 ^ 64" using aA(1) by (rule mult_le_mono1)
    also have "\<dots> = (A * 2 ^ 32) * 2 ^ 32" by simp
    finally show ?thesis by (simp only: mult_less_cancel2)
  qed
  have "(A * 2 ^ 32) * 2 ^ 32 = A * 2 ^ 64" by simp
  also have "\<dots> < ((a + 1) * 2 ^ 32) * 2 ^ 64" using aA(2) by (rule mult_strict_right_mono) simp
  also have "\<dots> = 2 * a * 2 ^ 32 * 2 ^ 63 + 2 ^ 96" by simp
  also have "\<dots> \<le> 2 * a * 2 ^ 32 * (h * (R + 3)) + 2 ^ 96" using R(2) by (intro add_le_mono1 mult_le_mono2)
  also have "\<dots> = (a * R) * (2 * (h * 2 ^ 32)) + 6 * (a * h) * 2 ^ 32 + 2 ^ 96" by (simp add: algebra_simps)
  also have "(a * R) * (2 * (h * 2 ^ 32)) \<le> ((z + 1) * 2 ^ 32) * (2 * B)"
    using zR(2) by (rule mult_le_mono [OF less_imp_le]) (simp add: B_def)
  also have "((z + 1) * 2 ^ 32) * (2 * B) + 6 * (a * h) * 2 ^ 32 + 2 ^ 96
      = (2 * z * B + 2 ^ 64 + 6 * (a * h) + 2 * B) * 2 ^ 32" by (simp add: algebra_simps)
  finally show "A * 2 ^ 32 < 2 * z * B + 2 ^ 64 + 6 * (a * h) + 2 * B" by (simp only: mult_less_cancel2)
qed

text \<open>Both digits: the sum is within 64 units of the quotient, and the remainders fit in a word.\<close>

lemma two_digits:
  fixes A h l R :: nat
  assumes h: "2 ^ 31 \<le> h" "h < 2 ^ 32" and l: "l < 2 ^ 32" "16 dvd l"
    and R: "h * (R + 2) < 2 ^ 63" "2 ^ 63 \<le> h * (R + 3)"
  defines "B \<equiv> h * 2 ^ 32 + l"
  assumes A: "A < B" "0 < A"
  defines "z \<equiv> A div 2 ^ 32 * R div 2 ^ 32"
  defines "r \<equiv> (A * 2 ^ 32 - 2 * z * B) div 16"
  defines "q \<equiv> r div 2 ^ 32 * R div 2 ^ 32"
  shows "2 * z * B < A * 2 ^ 32" and "16 * r = A * 2 ^ 32 - 2 * z * B" and "16 * r < 9 * 2 ^ 64" "z < 2 ^ 31"
    and "2 * q * B < r * 2 ^ 32" and "r * 2 ^ 32 < 2 * (q + 4) * B" and "q + 4 < 2 ^ 31"
proof -
  define a where "a = A div 2 ^ 32"
  have B: "h * 2 ^ 32 \<le> B" "2 ^ 63 \<le> B" "B < 2 ^ 64" using h l by (simp_all add: B_def)
  note d1 = recip_digit [OF h l(1) R, of A, folded B_def, folded z_def]
  show lt1: "2 * z * B < A * 2 ^ 32" by (rule d1(1) [OF A(2)])
  then have le1: "2 * z * B \<le> A * 2 ^ 32" by simp
  have "16 dvd B" using l(2) by (simp add: B_def)
  then have "16 dvd A * 2 ^ 32 - 2 * z * B" using le1 by (intro dvd_diff_nat) simp_all
  then show r16: "16 * r = A * 2 ^ 32 - 2 * z * B" by (simp add: r_def)
  have "a \<le> h"
  proof -
    have "A < (h + 1) * 2 ^ 32" using A(1) l(1) by (simp add: B_def)
    then have "a < h + 1" unfolding a_def by (rule less_mult_imp_div_less)
    then show ?thesis by simp
  qed
  then have ah: "a * h \<le> h * h" "a * h \<le> 2 ^ 32 * h" using h(2) by (intro mult_le_mono1, simp)+
  have "h * h < 2 ^ 32 * 2 ^ 32" using h(2) by (intro mult_strict_mono) simp_all
  with ah(1) have "a * h < 2 ^ 32 * 2 ^ 32" by (rule le_less_trans)
  then have "6 * (a * h) < 6 * 2 ^ 64" by simp
  then show r9: "16 * r < 9 * 2 ^ 64" using d1(2) le1 B(3) unfolding r16 a_def [symmetric] by simp
  have "z * (2 * B) = 2 * z * B" by simp
  also have "\<dots> \<le> A * 2 ^ 32" by (rule le1)
  also have "\<dots> < B * 2 ^ 32" using A(1) by simp
  also have "\<dots> = 2 ^ 31 * (2 * B)" by simp
  finally show "z < 2 ^ 31" by (simp only: mult_less_cancel2)
  have "a * h \<le> B" using ah(2) B(1) by (rule order_trans [OF _ order_trans [OF eq_refl [OF mult.commute]]])
  moreover define W where "W = 2 * z * B"
  ultimately have "A * 2 ^ 32 < 10 * B + W"
    using d1(2) B(2) unfolding a_def [symmetric] W_def [symmetric] by simp
  then have r10: "16 * r < 10 * B"
    using le1 unfolding r16 W_def by (simp only: less_diff_conv2)
  note d2 = recip_digit [OF h l(1) R, of r, folded B_def, folded q_def]
  have "0 < 16 * r" using lt1 unfolding r16 by simp
  then show lt2: "2 * q * B < r * 2 ^ 32" by (intro d2(1)) simp
  have "16 * (r div 2 ^ 32) < 9 * 2 ^ 32"
  proof -
    have "r div 2 ^ 32 * 2 ^ 32 \<le> r" by (rule div_times_less_eq_dividend)
    then have "16 * (r div 2 ^ 32) * 2 ^ 32 < 9 * 2 ^ 32 * 2 ^ 32" using r9 by simp
    then show ?thesis by (simp only: mult_less_cancel2)
  qed
  then have "16 * (r div 2 ^ 32) * h \<le> 9 * 2 ^ 32 * h" by (intro mult_le_mono1) simp
  moreover define P V where "P = r div 2 ^ 32 * h" and "V = q * B"
  ultimately have "16 * P \<le> 9 * (h * 2 ^ 32)" by (simp only: P_def ac_simps)
  then have "16 * P \<le> 9 * B" using B(1) by linarith
  moreover have "r * 2 ^ 32 < 2 * V + 2 ^ 64 + 6 * P + 2 * B" using d2(2) by (simp only: P_def V_def mult.assoc)
  ultimately have "r * 2 ^ 32 < 2 * V + 8 * B" using B(2) by simp
  then show "r * 2 ^ 32 < 2 * (q + 4) * B" by (simp add: V_def algebra_simps)
  have "16 * (q * (2 * B)) \<le> 16 * r * 2 ^ 32" using lt2 by simp
  also have "\<dots> < 10 * B * 2 ^ 32" using r10 by simp
  finally have "16 * q * (2 * B) < 5 * 2 ^ 32 * (2 * B)" by (simp add: algebra_simps)
  then have "16 * q < 5 * 2 ^ 32" by (simp only: mult_less_cancel2)
  then show "q + 4 < 2 ^ 31" by simp
qed

lemma approxRecip32_1_bounds:
  assumes "2 ^ 31 \<le> unat h"
  defines "R \<equiv> unat (softfloat_approxRecip32_1 h - 2)"
  shows "unat h * (R + 2) < 2 ^ 63" "2 ^ 63 \<le> unat h * (R + 3)" "R + 2 < 2 ^ 32"
proof -
  define Q where "Q = (2 ^ 63 - 1) div unat h"
  have h: "unat h < 2 ^ 32" using unat_lt_pow [of h] by simp
  have "Q < 2 ^ 32" unfolding Q_def using assms(1) by (intro less_mult_imp_div_less) simp
  moreover have "unat (0x7FFFFFFFFFFFFFFF div (ucast h :: u64)) = Q"
    unfolding unat_div_distrib Q_def by simp
  ultimately have "unat (softfloat_approxRecip32_1 h) = Q"
    unfolding softfloat_approxRecip32_1_def unat_ucast_mod by simp
  moreover have "2 \<le> Q" unfolding Q_def using h assms(1) by (simp add: less_eq_div_iff_mult_less_eq)
  ultimately have R: "R + 2 = Q" unfolding R_def by (subst unat_diff_le) simp_all
  then show "R + 2 < 2 ^ 32" using \<open>Q < 2 ^ 32\<close> by simp
  have "unat h * Q \<le> 2 ^ 63 - 1" "2 ^ 63 - 1 < unat h * (Q + 1)"
    unfolding Q_def using assms(1) by (simp_all add: dividend_less_times_div algebra_simps del: One_nat_def)
  moreover have "R + 3 = Q + 1" using R by simp
  ultimately show "unat h * (R + 2) < 2 ^ 63" "2 ^ 63 \<le> unat h * (R + 3)"
    by (simp_all only: R) simp_all
qed

text \<open>The remainder the code computes in 64-bit arithmetic, as an integer modulo \<open>2 ^ 64\<close>.\<close>

lemma remainder_word:
  fixes x :: u64 and dt h l :: u32
  assumes "int (unat x) * 2 ^ 32 - int (unat dt) * (int (unat h) * 2 ^ 32 + int (unat l)) = 16 * v" and "16 dvd unat l"
  shows "push_bit 28 (x - ucast dt * ucast h) - ucast dt * ucast (drop_bit 4 l) = (word_of_int v :: u64)"
proof -
  obtain k where k: "unat l = 16 * k" using assms(2) by blast
  have u: "ucast w = (word_of_int (int (unat w)) :: u64)" for w :: u32
    using unat_lt_pow [of w] by (simp add: word_unat_eq_iff unat_of_nat)
  have x: "x = word_of_int (int (unat x))" using unat_lt_pow [of x] by (simp add: word_unat_eq_iff unat_of_nat)
  have l: "int (unat (drop_bit 4 l)) = int k" by (simp add: unat_shr k)
  have v: "v = (int (unat x) - int (unat dt) * int (unat h)) * 2 ^ 28 - int (unat dt) * int k"
    using assms(1) by (simp add: k algebra_simps)
  have "push_bit 28 (x - ucast dt * ucast h) - ucast dt * ucast (drop_bit 4 l)
      = (x - ucast dt * ucast h) * 2 ^ 28 - ucast dt * ucast (drop_bit 4 l)"
    by (simp add: push_bit_eq_mult)
  also have "\<dots> = word_of_int v"
    unfolding v u l by (subst x) simp
  finally show ?thesis .
qed


lemma quotient_split:
  fixes A B r z k :: int
  assumes "0 < B" and "A * 2 ^ 32 = 2 * z * B + 16 * r"
  shows "of_int A / of_int B * 2 ^ 63 = (of_int (z * 2 ^ 32 + 16 * k) + 8 * of_int (r * 2 ^ 32 - 2 * k * B) / of_int B :: real)"
proof -
  have "2 * (A * 2 ^ 63) = (A * 2 ^ 32) * 2 ^ 32" by simp
  also have "\<dots> = 2 * ((z * 2 ^ 32 + 16 * k) * B + 8 * (r * 2 ^ 32 - 2 * k * B))"
    unfolding assms(2) by (simp add: algebra_simps)
  finally have "A * 2 ^ 63 = (z * 2 ^ 32 + 16 * k) * B + 8 * (r * 2 ^ 32 - 2 * k * B)" by simp
  then have "of_int (A * 2 ^ 63) = (of_int ((z * 2 ^ 32 + 16 * k) * B + 8 * (r * 2 ^ 32 - 2 * k * B)) :: real)"
    by (simp only:)
  then show ?thesis using assms(1) by (simp add: field_simps)
qed

text \<open>The decision of the code on the quotient digits: \<open>Q\<close> is the second digit plus four.\<close>

lemma digits_near:
  fixes A B r z Q :: nat
  assumes B: "0 < B" "16 dvd B" and A: "0 < A" and d1: "A * 2 ^ 32 = 2 * z * B + 16 * r"
    and d2: "2 * (Q - 4) * B < r * 2 ^ 32" "r * 2 ^ 32 < 2 * Q * B" "4 \<le> Q"
  defines "x \<equiv> real A / real B * 2 ^ 63" and "S \<equiv> z * 2 ^ 32 + 16 * Q"
  defines "T \<equiv> S - S mod 512"
  defines "v \<equiv> (int r * 2 ^ 32 - 2 * int (Q - Q mod 32) * int B) div 16"
  shows "64 \<le> S mod 512 \<Longrightarrow> near 9 x S"
    and "16 * v = int r * 2 ^ 32 - 2 * int (Q - Q mod 32) * int B"
    and "S mod 512 < 64 \<Longrightarrow> - int B < 2 * v \<and> 2 * v < int B"
    and "S mod 512 < 64 \<Longrightarrow> v < 0 \<Longrightarrow> 512 \<le> T \<and> near 9 x (T - 128)"
    and "S mod 512 < 64 \<Longrightarrow> 0 \<le> v \<Longrightarrow> near 9 x (T + of_bool (v \<noteq> 0))"
proof -
  have split: "x = real (z * 2 ^ 32 + 16 * k) + 8 * of_int (int r * 2 ^ 32 - 2 * int k * int B) / real B" for k
    using quotient_split [of "int B" "int A" "int z" "int r" "int k"] B(1) arg_cong [OF d1, of int] by (simp add: x_def)
  have "real (2 * (Q - 4) * B) < real (r * 2 ^ 32)" "real (r * 2 ^ 32) < real (2 * Q * B)"
    using d2(1,2) by (simp_all only: of_nat_less_iff)
  then have "0 < 8 * of_int (int r * 2 ^ 32 - 2 * int (Q - 4) * int B) / real B"
    "8 * of_int (int r * 2 ^ 32 - 2 * int Q * int B) / real B < 0"
    using B(1) by (intro divide_pos_pos divide_neg_pos; simp)+
  then have x: "real S - 64 < x" "x < real S"
    using split [of "Q - 4"] split [of Q] d2(3) by (simp_all add: S_def of_nat_diff)
  define t where "t = S div 512"
  have T: "T = 512 * t" by (simp add: T_def t_def minus_mod_eq_mult_div)
  have S: "S = 512 * t + S mod 512" "S mod 512 < 512" by (simp_all add: t_def)
  show "near 9 x S" if "64 \<le> S mod 512"
    using near_between [of 9 t x S "S mod 512"] x that S by simp
  have "16 dvd int B" using B(2) by (metis int_dvd_int_iff of_nat_numeral)
  then have "16 dvd int r * 2 ^ 32 - 2 * int (Q - Q mod 32) * int B" by (intro dvd_diff dvd_mult) simp_all
  then show v: "16 * v = int r * 2 ^ 32 - 2 * int (Q - Q mod 32) * int B" by (simp add: v_def)
  have "S mod 512 = 16 * Q mod (16 * 32)"
    unfolding S_def using mod_mult_self3 [of "z * 2 ^ 23" 512 "16 * Q"] by (simp add: mult.commute)
  then have "S mod 512 = 16 * (Q mod 32)" by (simp only: mult_mod_right [symmetric])
  then have Tk: "T = z * 2 ^ 32 + 16 * (Q - Q mod 32)" by (simp add: T_def S_def)
  have xT: "x = real T + 128 * of_int v / real B"
    using split [of "Q - Q mod 32"] unfolding Tk [symmetric] v [symmetric] by simp
  {
    assume s: "S mod 512 < 64"
    have xb: "real T - 64 < x" "x < real T + 64" using s x S T by simp_all
    then have "\<bar>128 * of_int v / real B\<bar> < 64" unfolding xT by linarith
    then have "2 * \<bar>of_int v\<bar> < real B" using B(1) by (simp add: abs_mult field_simps)
    then have "real_of_int (2 * \<bar>v\<bar>) < real_of_int (int B)" by simp
    then have "2 * \<bar>v\<bar> < int B" by (simp only: of_int_less_iff)
    then show "- int B < 2 * v \<and> 2 * v < int B" by linarith
    have x0: "0 < x" using A B(1) by (simp add: x_def)
    show "512 \<le> T \<and> near 9 x (T - 128)" if "v < 0"
    proof -
      have "128 * of_int v / real B < 0" using that B(1) by (simp add: divide_less_0_iff)
      then have lt: "x < real T" unfolding xT by simp
      then have "0 < real T" using x0 by linarith
      then have t0: "0 < t" by (simp add: T)
      then have "512 \<le> T" by (simp add: T)
      moreover have "T - 128 = 2 ^ 9 * (t - 1) + 384" using t0 by (simp add: T diff_mult_distrib2)
      ultimately show ?thesis
        using near_between [of 9 "t - 1" x "T - 128" 384] t0 lt xb by (simp add: T of_nat_diff)
    qed
    show "near 9 x (T + of_bool (v \<noteq> 0))" if "0 \<le> v"
    proof (cases "v = 0")
      case True
      then show ?thesis using xT by simp
    next
      case False
      then have "0 < 128 * of_int v / real B" using that B(1) by simp
      then have "real T < x" unfolding xT by simp
      then show ?thesis using near_between [of 9 t x "T + 1" 1] False xb by (simp add: T)
    qed
  }
qed


lemma sign_bit_word_of_int:
  assumes "- (2 ^ 63) \<le> v" "v < 2 ^ 63"
  shows "(word_of_int v :: u64) AND 0x8000000000000000 \<noteq> 0 \<longleftrightarrow> v < 0"
    and "(word_of_int v :: u64) = 0 \<longleftrightarrow> v = 0"
proof -
  have "bit v 63 \<longleftrightarrow> v < 0"
  proof (cases "v < 0")
    case True
    then have "v div 2 ^ 63 = - 1" using assms div_add_self2 [of "2 ^ 63" v] by simp
    then show ?thesis using True by (simp add: bit_iff_odd)
  next
    case False
    then show ?thesis using assms by (simp add: bit_iff_odd div_pos_pos_trivial)
  qed
  then show "(word_of_int v :: u64) AND 0x8000000000000000 \<noteq> 0 \<longleftrightarrow> v < 0"
    using and_exp_eq_0_iff_not_bit [of "word_of_int v :: u64" 63] by (simp add: bit_word_of_int_iff)
  have "v = 0" if "2 ^ 64 dvd v"
    using that assms by (auto dest: zdvd_imp_le simp: dvd_def)
  then show "(word_of_int v :: u64) = 0 \<longleftrightarrow> v = 0"
    by (auto simp: word_of_int_eq_0_iff)
qed

lemma f64_div_sigZ_near:
  assumes B: "2 ^ 63 \<le> unat sigB" "16 dvd unat sigB" and A: "0 < unat sigA" "unat sigA < unat sigB"
  shows "near 9 (real (unat sigA) / real (unat sigB) * 2 ^ 63) (unat (f64_div_sigZ sigA sigB))"
proof -
  define h32 l32 :: u32 where "h32 = ucast (drop_bit 32 sigB)" and "l32 = ucast sigB"
  define h l where "h = unat h32" and "l = unat l32"
  have hl: "h = unat sigB div 2 ^ 32" "l = unat sigB mod 2 ^ 32"
    using unat_lt_pow [of sigB] by (simp_all add: h_def l_def h32_def l32_def unat_conv less_mult_imp_div_less)
  then have Bhl: "unat sigB = h * 2 ^ 32 + l" by simp
  have hb: "2 ^ 31 \<le> h" "h < 2 ^ 32" "l < 2 ^ 32"
    using B(1) unat_lt_pow [of h32] hl by (simp_all add: h_def less_eq_div_iff_mult_less_eq)
  have l16: "16 dvd l" using B(2) unfolding hl(2) by (simp add: dvd_mod)
  define R32 where "R32 = softfloat_approxRecip32_1 h32 - 2"
  define R where "R = unat R32"
  note Rb = approxRecip32_1_bounds [OF hb(1) [unfolded h_def], folded R32_def, folded h_def R_def]
  define z where "z = unat sigA div 2 ^ 32 * R div 2 ^ 32"
  define r where "r = (unat sigA * 2 ^ 32 - 2 * z * (h * 2 ^ 32 + l)) div 16"
  define q where "q = r div 2 ^ 32 * R div 2 ^ 32"
  note d = two_digits [OF hb(1-3) l16 Rb(1,2) A(2) [unfolded Bhl] A(1), folded z_def, folded r_def, folded q_def, folded Bhl]
  have prod: "unat (drop_bit 32 (ucast (ucast (drop_bit 32 x) :: u32) * ucast R32 :: u64)) = unat x div 2 ^ 32 * R div 2 ^ 32"
    for x :: u64
  proof -
    have x: "unat x div 2 ^ 32 < 2 ^ 32" using unat_lt_pow [of x] by (intro less_mult_imp_div_less) simp
    then have "unat x div 2 ^ 32 * R < 2 ^ 32 * 2 ^ 32" using Rb(3) by (intro mult_strict_mono) simp_all
    then show ?thesis
      unfolding unat_shr using x Rb(3) by (subst unat_mult_less) (simp_all add: unat_conv R_def)
  qed
  define z32 :: u32 where "z32 = ucast (drop_bit 32 (ucast (ucast (drop_bit 32 sigA) :: u32) * ucast R32 :: u64))"
  have z32: "unat z32 = z" unfolding z32_def unat_ucast_mod prod z_def [symmetric] using d(4) by simp
  then have dz: "unat (push_bit 1 z32) = 2 * z" using d(4) by (subst unat_shl_less) simp_all
  have d1: "unat sigA * 2 ^ 32 = 2 * z * unat sigB + 16 * r" using d(1,2) by simp
  define rem where "rem = push_bit 28 (sigA - ucast (push_bit 1 z32) * ucast h32)
    - ucast (push_bit 1 z32) * ucast (drop_bit 4 l32)"
  have "rem = word_of_int (int r)"
    unfolding rem_def using arg_cong [OF d1, of int] l16
    by (intro remainder_word) (simp_all only: dz Bhl h_def l_def, simp)
  moreover have "r < 2 ^ 64" using d(3) by simp
  ultimately have rem: "unat rem = r" by (simp add: unat_of_nat)
  define Q32 :: u32 where "Q32 = ucast (drop_bit 32 (ucast (ucast (drop_bit 32 rem) :: u32) * ucast R32 :: u64) + 4)"
  have Q: "unat Q32 = q + 4"
    unfolding Q32_def unat_ucast_mod using d(7)
    by (subst unat_add_less) (simp_all only: prod rem q_def [symmetric], simp_all)
  define S where "S = push_bit 32 (ucast z32) + push_bit 4 (ucast Q32 :: u64)"
  have "unat (push_bit 32 (ucast z32) :: u64) = z * 2 ^ 32" "unat (push_bit 4 (ucast Q32 :: u64)) = 16 * (q + 4)"
    using d(4,7) by (subst unat_shl_less; simp add: unat_conv z32 Q)+
  then have S: "unat S = z * 2 ^ 32 + 16 * (q + 4)"
    unfolding S_def using d(4,7) by (subst unat_add_less) simp_all
  define x where "x = real (unat sigA) / real (unat sigB) * 2 ^ 63"
  have d2: "2 * (q + 4 - 4) * unat sigB < r * 2 ^ 32" using d(5) by simp
  have B0: "0 < unat sigB" using B(1) by simp
  note near = digits_near [OF B0 B(2) A(1) d1 d2 d(6) le_add2, folded S x_def]
  have cond: "S AND 0x1FF < push_bit 4 4 \<longleftrightarrow> unat S mod 512 < 64"
    using unat_take_bit [of 9 S] by (simp add: take_bit_eq_mask word_less_nat_alt push_bit_eq_mult mask_eq_exp_minus_1)
  show ?thesis
  proof (cases "unat S mod 512 < 64")
    case False
    then have "f64_div_sigZ sigA sigB = S"
      unfolding f64_div_sigZ_def Let_def h32_def [symmetric] l32_def [symmetric] R32_def [symmetric] z32_def [symmetric]
        rem_def [symmetric] Q32_def [symmetric] S_def [symmetric] cond by (simp only: if_False)
    then show ?thesis using near(1) False unfolding x_def by simp
  next
    case True
    define T where "T = unat S - unat S mod 512"
    define v where "v = (int r * 2 ^ 32 - 2 * int (q + 4 - (q + 4) mod 32) * int (unat sigB)) div 16"
    note near' = near(2-5) [folded T_def v_def]
    define rem' where "rem' = push_bit 28 (rem - ucast (push_bit 1 (Q32 AND NOT 7)) * ucast h32)
      - ucast (push_bit 1 (Q32 AND NOT 7)) * ucast (drop_bit 4 l32)"
    define S' where "S' = S AND NOT 0x7F"
    have code: "f64_div_sigZ sigA sigB = (if rem' AND 0x8000000000000000 \<noteq> 0 then S' - push_bit 7 1
        else if rem' \<noteq> 0 then S' OR 1 else S')"
      unfolding f64_div_sigZ_def Let_def h32_def [symmetric] l32_def [symmetric] R32_def [symmetric] z32_def [symmetric]
        rem_def [symmetric] Q32_def [symmetric] S_def [symmetric] cond rem'_def [symmetric] S'_def [symmetric]
      using True by (simp only: if_True)
    have v: "- (2 ^ 63) \<le> v" "v < 2 ^ 63" using near'(2) True unat_lt_pow [of sigB] by simp_all
    have mod32: "unat S mod 512 = 16 * ((q + 4) mod 32)"
      unfolding S mult_mod_right using mod_mult_self3 [of "z * 2 ^ 23" 512 "16 * (q + 4)"] by (simp add: mult.commute)
    then have "(q + 4) mod 32 < 4" using True by simp
    moreover have "(q + 4) mod 8 = (q + 4) mod 32 mod 8" by (simp add: mod_mod_cancel)
    ultimately have "(q + 4) mod 8 = (q + 4) mod 32" by simp
    then have low: "(q + 4) div 8 * 8 = q + 4 - (q + 4) mod 32" by (simp add: minus_mod_eq_div_mult [symmetric])
    have "unat S mod 128 = unat S mod 512 mod 128" by (simp add: mod_mod_cancel)
    then have "unat S mod 128 = unat S mod 512" using True by simp
    then have T: "unat S' = T"
      unfolding S'_def using unat_and_not_mask [of S 7] by (simp add: mask_eq_exp_minus_1 T_def minus_mod_eq_div_mult [symmetric])
    define k where "k = q + 4 - (q + 4) mod 32"
    have "unat (Q32 AND NOT 7) = k"
      using unat_and_not_mask [of Q32 3] Q low by (simp add: mask_eq_exp_minus_1 k_def)
    then have "unat (push_bit 1 (Q32 AND NOT 7)) = 2 * k"
      using d(7) by (subst unat_shl_less) (simp_all add: k_def)
    then have "rem' = word_of_int v"
      unfolding rem'_def using near'(1) l16 unfolding k_def [symmetric]
      by (intro remainder_word) (simp_all add: rem Bhl h_def l_def)
    then have sgn: "rem' AND 0x8000000000000000 \<noteq> 0 \<longleftrightarrow> v < 0" "rem' = 0 \<longleftrightarrow> v = 0"
      using sign_bit_word_of_int [OF v] by simp_all
    have "even T" unfolding T_def by (simp add: minus_mod_eq_mult_div)
    then have "unat (S' OR 1) = T + 1"
      using unat_or_of_bool [of S' True] by (simp add: T)
    moreover have "unat (S' - push_bit 7 1) = T - 128" if "v < 0"
      using near'(3) [OF True that] T by (subst unat_diff_le) (simp_all add: push_bit_eq_mult)
    ultimately have "unat (f64_div_sigZ sigA sigB) = (if v < 0 then T - 128 else T + of_bool (v \<noteq> 0))"
      unfolding code sgn by (simp add: T)
    then show ?thesis using near'(3,4) [OF True] unfolding x_def by simp
  qed
qed


lemma f64_div_core:
  assumes A: "f64.normalized a expA (unat sigA)" and B: "f64.normalized b expB (unat sigB)"
  defines "n \<equiv> if sigA < sigB then push_bit 11 sigA else push_bit 10 sigA"
  shows "rounds_word 52 11 (rmode_of (softfloat_roundingMode s)) sg
    (mval 52 (- 1074) (f64.magn a) / mval 52 (- 1074) (f64.magn b))
    (fst (softfloat_roundPackToF64 sg (if sigA < sigB then expA - expB + 0x3FE - 1 else expA - expB + 0x3FE)
      (f64_div_sigZ n (push_bit 11 sigB)) s))"
proof -
  define ma mb where "ma = unat sigA" and "mb = unat sigB"
  have m: "2 ^ 52 \<le> ma" "ma < 2 ^ 53" "2 ^ 52 \<le> mb" "mb < 2 ^ 53"
    using A B by (simp_all add: f64.normalized_def ma_def mb_def)
  have lt: "sigA < sigB \<longleftrightarrow> ma < mb" by (simp add: word_less_nat_alt ma_def mb_def)
  define N where "N = (if ma < mb then 2 else 1) * ma * 2 ^ 10"
  have n: "unat n = N"
    using m unat_shl_less [of sigA 11] unat_shl_less [of sigA 10] by (simp add: n_def N_def lt ma_def [symmetric])
  have d: "unat (push_bit 11 sigB) = mb * 2 ^ 11"
    using m unat_shl_less [of sigB 11] by (simp add: mb_def [symmetric])
  define S where "S = unat (f64_div_sigZ n (push_bit 11 sigB))"
  have N: "0 < N" "N < mb * 2 ^ 11" "mb * 2 ^ 10 \<le> N" using m by (auto simp: N_def)
  have "near 9 (real N / real (mb * 2 ^ 11) * 2 ^ 63) S"
    unfolding S_def using f64_div_sigZ_near [of "push_bit 11 sigB" n] N m unfolding d n by simp
  moreover have "real N / real (mb * 2 ^ 11) * 2 ^ 63 = (if ma < mb then 2 else 1) * (real ma / real mb) * 2 ^ (52 + 10)"
    by (simp add: N_def)
  ultimately have near: "near 9 ((if ma < mb then 2 else 1) * (real ma / real mb) * 2 ^ (52 + 10)) S" by (simp only:)
  define y where "y = (if ma < mb then 2 else 1) * (real ma / real mb)"
  have y: "1 \<le> y" "y < 2" using m by (auto simp: y_def divide_less_eq)
  have "2 ^ 62 \<le> S"
    using near_bounds(2) [OF near, of 62] y(1) unfolding y_def [symmetric] by (simp add: not_less [symmetric]) blast
  moreover have "S < 2 ^ 63"
    using near_bounds(1) [OF near, of 63] y(2) unfolding y_def [symmetric] by (simp add: not_le [symmetric]) blast
  ultimately have "rounds_word 52 11 (rmode_of (softfloat_roundingMode s)) sg
    (mval 52 (least_exp 52 11) (f64.magn a) / mval 52 (least_exp 52 11) (f64.magn b))
    (fst (softfloat_roundPackToF64 sg (expA - expB + (2 ^ (11 - 1) - 2) - of_bool (ma < mb)) (f64_div_sigZ n (push_bit 11 sigB)) s))"
    using near by (intro rp64.quotient_rounds [OF A [folded ma_def] B [folded mb_def], of 9]) (simp_all add: S_def)
  moreover have "(if sigA < sigB then expA - expB + 0x3FE - 1 else expA - expB + 0x3FE)
      = expA - expB + (2 ^ (11 - 1) - 2) - of_bool (ma < mb)" by (simp add: lt)
  ultimately show ?thesis by (simp only: least_exp_f64)
qed

lemma f64_div_rounds:
  assumes fin: "f64_isFinite a" "f64_isFinite b" and nz: "f64_val b \<noteq> 0"
  shows "rounds_word 52 11 (rmode_of (softfloat_roundingMode s)) (f64_sign a \<noteq> f64_sign b)
    \<bar>f64_val a / f64_val b\<bar> (fst (f64_div a b s))"
proof -
  have e: "expF64UI a < 0x7FF" "expF64UI b < 0x7FF" using fin by (simp_all add: f64_class_exp)
  have X: "\<bar>f64_val a / f64_val b\<bar> = mval 52 (- 1074) (f64.magn a) / mval 52 (- 1074) (f64.magn b)"
    by (simp add: f64_val_def with_sign_def abs_divide)
  have sg: "signF64UI a = f64_sign a" "signF64UI b = f64_sign b" by (simp_all)
  have "f64_magn b \<noteq> 0" using nz by (simp add: f64_zero_iff)
  then have nzB: "expF64UI b \<noteq> 0 \<or> fracF64UI b \<noteq> 0"
    using f64.magn_eq_0_iff [of b] by simp
  have no: "(expF64UI a = 0x7FF) = False" "(expF64UI b = 0x7FF) = False"
    "(expF64UI b = 0 \<and> fracF64UI b = 0) = False" using e nzB by auto
  show ?thesis
  proof (cases "f64.magn a = 0")
    case True
    then have "(expF64UI a = 0 \<and> fracF64UI a = 0) = True" by (simp add: f64_magn_eq_0_iff)
    then have "f64_div a b s = (packToF64UI (f64_sign a \<noteq> f64_sign b) 0 0, s)"
      unfolding f64_div_def Let_def sg split_beta
      by (simp only: no if_False if_True)
    moreover have "mval 52 (- 1074) (f64.magn a) / mval 52 (- 1074) (f64.magn b) = 0" using True by simp
    ultimately show ?thesis
      unfolding X by (simp only: rounds_zero_f64 fst_conv)
  next
    case False
    then have nzA: "expF64UI a \<noteq> 0 \<or> fracF64UI a \<noteq> 0" by (simp add: f64_magn_eq_0_iff)
    then have noA: "(expF64UI a = 0 \<and> fracF64UI a = 0) = False" by auto
    obtain eA gA where A: "(eA, gA) = (if expF64UI a = 0
      then (es64_exp (softfloat_normSubnormalF64Sig (fracF64UI a)), es64_sig (softfloat_normSubnormalF64Sig (fracF64UI a)))
      else (expF64UI a, fracF64UI a))" by (metis surj_pair)
    obtain eB gB where B: "(eB, gB) = (if expF64UI b = 0
      then (es64_exp (softfloat_normSubnormalF64Sig (fracF64UI b)), es64_sig (softfloat_normSubnormalF64Sig (fracF64UI b)))
      else (expF64UI b, fracF64UI b))" by (metis surj_pair)
    show ?thesis
      using f64_div_core [OF unpackF64_normalized [OF e(1) nzA A] unpackF64_normalized [OF e(2) nzB B],
        of s "f64_sign a \<noteq> f64_sign b"]
      unfolding X f64_div_def Let_def A [symmetric] B [symmetric] sg prod.case
      by (cases "gA OR 0x0010000000000000 < gB OR 0x0010000000000000") (simp_all only: no noA if_False if_True prod.case)
  qed
qed

end
