(* ===== verification/SoftFloat_ToInt.thy ===== *)
theory SoftFloat_ToInt
  imports SoftFloat_Mul
begin

text \<open>
  Conversion of a float to an integer in a given rounding mode: \<^verbatim>\<open>f32_to_i32.c\<close> and its seven relatives, which
  shift the significand and call \<^verbatim>\<open>softfloat_roundPackToI32\<close> etc.  All of them refine one specification,
  \<open>to_int\<close>: round the value to an integer in the mode, return it if it is in the range of the type, else
  return the end of the range and raise the invalid flag.  A NaN converts like a positive value out of
  range, which is what its bit pattern reads as: its exponent field is the largest.
\<close>

subsection \<open>Conversion in a rounding mode\<close>

text \<open>\<^verbatim>\<open>specialize.h\<close> has the same result for a NaN as for a positive overflow of the 32-bit types, so that the
  preprocessor leaves \<^verbatim>\<open>sign = 0\<close> of the code for a NaN.\<close>

definition f32_to_i32 :: "u32 \<Rightarrow> u8 \<Rightarrow> bool \<Rightarrow> softfloat_state \<Rightarrow> int \<times> softfloat_state" where
  "f32_to_i32 a roundingMode exact s =
     (let uiA = ucast a; sign = signF32UI uiA; expn = expF32UI uiA; sig = fracF32UI uiA;
          sign = (if expn = 0xFF \<and> sig \<noteq> 0 then False else sign);
          sig = (if expn \<noteq> 0 then sig OR 0x00800000 else sig);
          sig64 = push_bit 32 sig;
          shiftDist = 0xAF - expn;
          sig64 = (if 0 < shiftDist then softfloat_shiftRightJam64 sig64 (word_of_int shiftDist) else sig64)
      in softfloat_roundPackToI32 sign sig64 roundingMode exact s)"

definition f32_to_ui32 :: "u32 \<Rightarrow> u8 \<Rightarrow> bool \<Rightarrow> softfloat_state \<Rightarrow> u64 \<times> softfloat_state" where
  "f32_to_ui32 a roundingMode exact s =
     (let uiA = ucast a; sign = signF32UI uiA; expn = expF32UI uiA; sig = fracF32UI uiA;
          sign = (if expn = 0xFF \<and> sig \<noteq> 0 then False else sign);
          sig = (if expn \<noteq> 0 then sig OR 0x00800000 else sig);
          sig64 = push_bit 32 sig;
          shiftDist = 0xAF - expn;
          sig64 = (if 0 < shiftDist then softfloat_shiftRightJam64 sig64 (word_of_int shiftDist) else sig64)
      in softfloat_roundPackToUI32 sign sig64 roundingMode exact s)"

definition f32_to_i64 :: "u32 \<Rightarrow> u8 \<Rightarrow> bool \<Rightarrow> softfloat_state \<Rightarrow> int \<times> softfloat_state" where
  "f32_to_i64 a roundingMode exact s =
     (let uiA = ucast a; sign = signF32UI uiA; expn = expF32UI uiA; sig = fracF32UI uiA;
          shiftDist = 0xBE - expn
      in if shiftDist < 0
         then (if expn = 0xFF \<and> sig \<noteq> 0 then i64_fromNaN
               else if sign then i64_fromNegOverflow else i64_fromPosOverflow,
               softfloat_raiseFlags softfloat_flag_invalid s)
         else let sig = (if expn \<noteq> 0 then sig OR 0x00800000 else sig);
                  sig64 = push_bit 40 sig;
                  sig64Extra = softfloat_shiftRightJam64Extra sig64 0 (word_of_int shiftDist);
                  (sig64, extra) = (if shiftDist \<noteq> 0 then (ext_v sig64Extra, ext_extra sig64Extra) else (sig64, 0))
              in softfloat_roundPackToI64 sign sig64 extra roundingMode exact s)"

definition f32_to_ui64 :: "u32 \<Rightarrow> u8 \<Rightarrow> bool \<Rightarrow> softfloat_state \<Rightarrow> u64 \<times> softfloat_state" where
  "f32_to_ui64 a roundingMode exact s =
     (let uiA = ucast a; sign = signF32UI uiA; expn = expF32UI uiA; sig = fracF32UI uiA;
          shiftDist = 0xBE - expn
      in if shiftDist < 0
         then (if expn = 0xFF \<and> sig \<noteq> 0 then ui64_fromNaN
               else if sign then ui64_fromNegOverflow else ui64_fromPosOverflow,
               softfloat_raiseFlags softfloat_flag_invalid s)
         else let sig = (if expn \<noteq> 0 then sig OR 0x00800000 else sig);
                  sig64 = push_bit 40 sig;
                  sig64Extra = softfloat_shiftRightJam64Extra sig64 0 (word_of_int shiftDist);
                  (sig64, extra) = (if shiftDist \<noteq> 0 then (ext_v sig64Extra, ext_extra sig64Extra) else (sig64, 0))
              in softfloat_roundPackToUI64 sign sig64 extra roundingMode exact s)"

definition f64_to_i32 :: "u64 \<Rightarrow> u8 \<Rightarrow> bool \<Rightarrow> softfloat_state \<Rightarrow> int \<times> softfloat_state" where
  "f64_to_i32 a roundingMode exact s =
     (let uiA = a; sign = signF64UI uiA; expn = expF64UI uiA; sig = fracF64UI uiA;
          sign = (if expn = 0x7FF \<and> sig \<noteq> 0 then False else sign);
          sig = (if expn \<noteq> 0 then sig OR 0x0010000000000000 else sig);
          shiftDist = 0x42C - expn;
          sig = (if 0 < shiftDist then softfloat_shiftRightJam64 sig (word_of_int shiftDist) else sig)
      in softfloat_roundPackToI32 sign sig roundingMode exact s)"

definition f64_to_ui32 :: "u64 \<Rightarrow> u8 \<Rightarrow> bool \<Rightarrow> softfloat_state \<Rightarrow> u64 \<times> softfloat_state" where
  "f64_to_ui32 a roundingMode exact s =
     (let uiA = a; sign = signF64UI uiA; expn = expF64UI uiA; sig = fracF64UI uiA;
          sign = (if expn = 0x7FF \<and> sig \<noteq> 0 then False else sign);
          sig = (if expn \<noteq> 0 then sig OR 0x0010000000000000 else sig);
          shiftDist = 0x42C - expn;
          sig = (if 0 < shiftDist then softfloat_shiftRightJam64 sig (word_of_int shiftDist) else sig)
      in softfloat_roundPackToUI32 sign sig roundingMode exact s)"

definition f64_to_i64 :: "u64 \<Rightarrow> u8 \<Rightarrow> bool \<Rightarrow> softfloat_state \<Rightarrow> int \<times> softfloat_state" where
  "f64_to_i64 a roundingMode exact s =
     (let uiA = a; sign = signF64UI uiA; expn = expF64UI uiA; sig = fracF64UI uiA;
          invalid = (if expn = 0x7FF \<and> fracF64UI uiA \<noteq> 0 then i64_fromNaN
                     else if sign then i64_fromNegOverflow else i64_fromPosOverflow,
                     softfloat_raiseFlags softfloat_flag_invalid s);
          sig = (if expn \<noteq> 0 then sig OR 0x0010000000000000 else sig);
          shiftDist = 0x433 - expn
      in if shiftDist < - 11 then invalid
         else let sigExtra = (if shiftDist \<le> 0 then \<lparr>ext_extra = 0, ext_v = push_bit (nat (- shiftDist)) sig\<rparr>
                              else softfloat_shiftRightJam64Extra sig 0 (word_of_int shiftDist))
              in softfloat_roundPackToI64 sign (ext_v sigExtra) (ext_extra sigExtra) roundingMode exact s)"

definition f64_to_ui64 :: "u64 \<Rightarrow> u8 \<Rightarrow> bool \<Rightarrow> softfloat_state \<Rightarrow> u64 \<times> softfloat_state" where
  "f64_to_ui64 a roundingMode exact s =
     (let uiA = a; sign = signF64UI uiA; expn = expF64UI uiA; sig = fracF64UI uiA;
          invalid = (if expn = 0x7FF \<and> fracF64UI uiA \<noteq> 0 then ui64_fromNaN
                     else if sign then ui64_fromNegOverflow else ui64_fromPosOverflow,
                     softfloat_raiseFlags softfloat_flag_invalid s);
          sig = (if expn \<noteq> 0 then sig OR 0x0010000000000000 else sig);
          shiftDist = 0x433 - expn
      in if shiftDist < - 11 then invalid
         else let sigExtra = (if shiftDist \<le> 0 then \<lparr>ext_extra = 0, ext_v = push_bit (nat (- shiftDist)) sig\<rparr>
                              else softfloat_shiftRightJam64Extra sig 0 (word_of_int shiftDist))
              in softfloat_roundPackToUI64 sign (ext_v sigExtra) (ext_extra sigExtra) roundingMode exact s)"

subsection \<open>The specification\<close>

definition to_int :: "int \<Rightarrow> int \<Rightarrow> rmode \<Rightarrow> bool \<Rightarrow> bool \<Rightarrow> real \<Rightarrow> softfloat_state \<Rightarrow> int \<times> softfloat_state" where
  "to_int lo hi m exact neg X s =
     (let v = (if neg then - rnd m neg X else rnd m neg X)
      in if lo \<le> v \<and> v \<le> hi
         then (v, if exact \<and> X \<notin> \<int> then softfloat_raiseFlags softfloat_flag_inexact s else s)
         else (if neg then lo else hi, softfloat_raiseFlags softfloat_flag_invalid s))"

lemma to_int_overflow:
  assumes "hi < \<lfloor>X\<rfloor>" "- lo < \<lfloor>X\<rfloor>"
  shows "to_int lo hi m exact neg X s = (if neg then lo else hi, softfloat_raiseFlags softfloat_flag_invalid s)"
  using assms rnd_bounds(1) [of X m neg] by (cases neg) (auto simp: to_int_def)

text \<open>The rounded significand \<open>N\<close> decides the result.\<close>

lemma to_int_nrnd:
  assumes "near j (X * 2 ^ k) n" "j + 1 \<le> k"
  shows "to_int lo hi m exact neg X s =
    (let v = (if neg then - int (nrnd m neg n k) else int (nrnd m neg n k))
     in if lo \<le> v \<and> v \<le> hi
        then (v, if exact \<and> n mod 2 ^ k \<noteq> 0 then softfloat_raiseFlags softfloat_flag_inexact s else s)
        else (if neg then lo else hi, softfloat_raiseFlags softfloat_flag_invalid s))"
proof -
  have "X * 2 ^ k / 2 ^ k = X" by simp
  then have "rnd m neg X = int (nrnd m neg n k)" "X \<notin> \<int> \<longleftrightarrow> n mod 2 ^ k \<noteq> 0"
    using rnd_near [OF assms] by simp_all
  then show ?thesis unfolding to_int_def by (simp only:)
qed

subsection \<open>The packing routines\<close>

lemma sint_two_complement:
  fixes w :: "'a::len word"
  defines "H \<equiv> 2 ^ (LENGTH('a) - 1)"
  shows "sint w = (if unat w < H then int (unat w) else int (unat w) - 2 * int H)"
proof -
  have L: "(2::nat) ^ LENGTH('a) = 2 * H" by (simp add: H_def flip: power_Suc)
  have w: "unat w < 2 * H" using unat_lt_pow [of w] unfolding L .
  have "bit (unat w) (LENGTH('a) - 1) \<longleftrightarrow> H \<le> unat w"
  proof (cases "unat w < H")
    case True
    then show ?thesis unfolding bit_iff_odd H_def [symmetric] by simp
  next
    case False
    then have "unat w div H = 1" using w by (simp add: div_nat_eqI)
    then show ?thesis using False unfolding bit_iff_odd H_def [symmetric] by simp
  qed
  then have b: "bit (uint w) (LENGTH('a) - 1) \<longleftrightarrow> H \<le> unat w"
    unfolding uint_nat by (simp add: bit_of_nat_iff_bit)
  have "sint w = take_bit (Suc (LENGTH('a) - 1)) (uint w) - 2 ^ Suc (LENGTH('a) - 1) * of_bool (H \<le> unat w)"
    using b unfolding sint_uint signed_take_bit_eq_take_bit_minus by simp
  also have "take_bit (Suc (LENGTH('a) - 1)) (uint w) = int (unat w)"
    using unsigned_less [where w = w] by (subst take_bit_int_eq_self) (simp_all add: uint_nat)
  also have "2 ^ Suc (LENGTH('a) - 1) = 2 * int H" by (simp only: H_def power_Suc of_nat_power) simp
  finally show ?thesis by simp
qed

lemma signed_magnitude:
  fixes w :: "'a::len word" and neg :: bool
  defines "v \<equiv> if neg then - int (unat w) else int (unat w)" and "z \<equiv> sint (if neg then - w else w)"
  shows "z \<noteq> 0 \<and> ((z < 0) \<noteq> neg) \<longleftrightarrow> \<not> (- (2 ^ (LENGTH('a) - 1)) \<le> v \<and> v \<le> 2 ^ (LENGTH('a) - 1) - 1)"
    and "- (2 ^ (LENGTH('a) - 1)) \<le> v \<Longrightarrow> v \<le> 2 ^ (LENGTH('a) - 1) - 1 \<Longrightarrow> z = v"
proof -
  define H where "H = (2::nat) ^ (LENGTH('a) - 1)"
  have L: "(2::nat) ^ LENGTH('a) = 2 * H" by (simp add: H_def flip: power_Suc)
  have h: "(2::int) ^ (LENGTH('a) - 1) = int H" "0 < H" by (simp_all add: H_def)
  have w: "unat w < 2 * H" using unat_lt_pow [of w] unfolding L .
  have m: "unat (- w) = (if unat w = 0 then 0 else 2 * H - unat w)"
    using unat_neg [of w] unfolding L by (simp add: unat_eq_zero)
  have z: "z = (if neg then if unat w = 0 then 0 else if 2 * H - unat w < H then int (2 * H - unat w) else - int (unat w)
      else if unat w < H then int (unat w) else int (unat w) - 2 * int H)"
    unfolding z_def unfolding sint_two_complement H_def [symmetric] using w h(2)
    by (cases neg) (simp_all only: if_True if_False m sint_two_complement, auto simp: of_nat_diff)
  show "z \<noteq> 0 \<and> ((z < 0) \<noteq> neg) \<longleftrightarrow> \<not> (- (2 ^ (LENGTH('a) - 1)) \<le> v \<and> v \<le> 2 ^ (LENGTH('a) - 1) - 1)"
    unfolding h z v_def using w h(2) by (cases neg) auto
  show "- (2 ^ (LENGTH('a) - 1)) \<le> v \<Longrightarrow> v \<le> 2 ^ (LENGTH('a) - 1) - 1 \<Longrightarrow> z = v"
    unfolding h z v_def using w h(2) by (cases neg) auto
qed

text \<open>What the code computes for the magnitude in the four routines.\<close>

lemma rounded32:
  fixes sig :: u64 and rm :: u8 and sg :: bool
  assumes sig: "unat sig < 2 ^ 63"
  defines "inc \<equiv> (if rm \<noteq> softfloat_round_near_even \<and> rm \<noteq> softfloat_round_near_maxMag
    then (if rm = (if sg then softfloat_round_min else softfloat_round_max) then 0x7F else 0) else 0x40) :: u8"
  defines "bits \<equiv> ucast (sig AND 0x7F) :: u8" and "N \<equiv> nrnd (rmode_of rm) sg (unat sig) 7"
  shows "(sig + ucast inc) AND 0xFFFFFF8000000000 \<noteq> 0 \<longleftrightarrow> 2 ^ 32 \<le> N"
    and "unat (drop_bit 7 (sig + ucast inc) AND NOT (of_bool (bits XOR 0x40 = 0 \<and> rm = softfloat_round_near_even))) = N"
    and "bits \<noteq> 0 \<longleftrightarrow> unat sig mod 2 ^ 7 \<noteq> 0"
proof -
  have b: "unat bits = unat sig mod 2 ^ 7" by (simp add: bits_def unat_ucast_mod unat_and_7F)
  then show "bits \<noteq> 0 \<longleftrightarrow> unat sig mod 2 ^ 7 \<noteq> 0" by (metis unat_eq_zero)
  have inc: "unat (ucast inc :: u64) = rinc (rmode_of rm) sg 7"
    using unat_lt_pow [of inc] roundIncrementF32 [of rm sg] by (simp add: unat_ucast_mod inc_def)
  have tie: "(bits XOR 0x40 = 0 \<and> rm = softfloat_round_near_even) \<longleftrightarrow>
      rmode_of rm = RNE \<and> unat sig mod 2 ^ 7 = 2 ^ (7 - 1)"
    unfolding xor_eq_0_iff rmode_of_RNE word_unat_eq_iff [of bits] b by auto
  show z: "unat (drop_bit 7 (sig + ucast inc) AND NOT (of_bool (bits XOR 0x40 = 0 \<and> rm = softfloat_round_near_even))) = N"
    unfolding N_def using sig by (intro unat_rounded_sig inc tie) simp_all
  define w where "w = sig + ucast inc"
  have "(0xFFFFFF8000000000 :: u64) = NOT (mask 39)" by transfer (simp add: mask_eq_exp_minus_1)
  then have "w AND 0xFFFFFF8000000000 \<noteq> 0 \<longleftrightarrow> unat w div 2 ^ 39 * 2 ^ 39 \<noteq> 0"
    using unat_and_not_mask [of w 39] by (metis unat_eq_zero)
  also have "\<dots> \<longleftrightarrow> 2 ^ 32 \<le> unat w div 2 ^ 7"
    by (simp add: less_eq_div_iff_mult_less_eq div_eq_0_iff not_less)
  also have "\<dots> \<longleftrightarrow> 2 ^ 32 \<le> unat w div 2 ^ 7 - of_bool (c \<and> odd (unat w div 2 ^ 7))" for c
    by (cases "c \<and> odd (unat w div 2 ^ 7)") (auto elim: oddE)
  finally show "(sig + ucast inc) AND 0xFFFFFF8000000000 \<noteq> 0 \<longleftrightarrow> 2 ^ 32 \<le> N"
    unfolding z [symmetric] w_def unat_and_not_of_bool unat_shr .
qed

lemma ucast_minus_32: "(ucast (- w :: u64) :: u32) = - ucast w"
proof -
  have "(ucast (- w) :: u32) = ucast (word_of_int (- uint w) :: u64)" by (simp only: word_minus_def)
  also have "\<dots> = word_of_int (- uint w)" by (rule ucast_down_wi) (simp add: is_down)
  finally show ?thesis by simp
qed

lemma roundPackToI32_to_int:
  assumes n: "near 1 (X * 2 ^ 7) (unat sig)" and sig: "unat sig < 2 ^ 63"
  shows "softfloat_roundPackToI32 sg sig rm exact s
    = to_int (- (2 ^ 31)) (2 ^ 31 - 1) (rmode_of rm) exact sg X s"
proof -
  define N where "N = nrnd (rmode_of rm) sg (unat sig) 7"
  define z where "z = drop_bit 7 (sig + ucast (if rm \<noteq> softfloat_round_near_even \<and> rm \<noteq> softfloat_round_near_maxMag
    then (if rm = (if sg then softfloat_round_min else softfloat_round_max) then 0x7F else 0) else 0x40 :: u8))
    AND NOT (of_bool ((ucast (sig AND 0x7F) :: u8) XOR 0x40 = 0 \<and> rm = softfloat_round_near_even))"
  note r = rounded32(1,2) [OF sig, where rm = rm and sg = sg, folded N_def, folded z_def] rounded32(3) [OF sig]
  have ti: "to_int (- (2 ^ 31)) (2 ^ 31 - 1) (rmode_of rm) exact sg X s =
    (let v = (if sg then - int N else int N)
     in if - (2 ^ 31) \<le> v \<and> v \<le> 2 ^ 31 - 1
        then (v, if exact \<and> unat sig mod 2 ^ 7 \<noteq> 0 then softfloat_raiseFlags softfloat_flag_inexact s else s)
        else (if sg then - (2 ^ 31) else 2 ^ 31 - 1, softfloat_raiseFlags softfloat_flag_invalid s))"
    unfolding N_def using n by (intro to_int_nrnd [where j = 1]) simp_all
  show ?thesis
  proof (cases "2 ^ 32 \<le> N")
    case True
    then show ?thesis
      unfolding softfloat_roundPackToI32_def ti Let_def z_def [symmetric] r by (cases sg) simp_all
  next
    case False
    then have w: "unat (ucast z :: u32) = N" using r(2) by (simp add: unat_ucast_mod)
    have u: "(ucast (if sg then - z else z) :: u32) = (if sg then - ucast z else ucast z)"
      by (simp add: ucast_minus_32)
    note sm = signed_magnitude [of sg "ucast z :: u32", unfolded w, folded u, simplified]
    show ?thesis
      using False sm unfolding softfloat_roundPackToI32_def ti Let_def z_def [symmetric] r
      by (cases sg) (auto simp: r)
  qed
qed

lemma roundPackToUI32_to_int:
  assumes n: "near 1 (X * 2 ^ 7) (unat sig)" and sig: "unat sig < 2 ^ 63"
  shows "apfst uint (softfloat_roundPackToUI32 sg sig rm exact s)
    = to_int 0 (2 ^ 32 - 1) (rmode_of rm) exact sg X s"
proof -
  define N where "N = nrnd (rmode_of rm) sg (unat sig) 7"
  define z where "z = drop_bit 7 (sig + ucast (if rm \<noteq> softfloat_round_near_even \<and> rm \<noteq> softfloat_round_near_maxMag
    then (if rm = (if sg then softfloat_round_min else softfloat_round_max) then 0x7F else 0) else 0x40 :: u8))
    AND NOT (of_bool ((ucast (sig AND 0x7F) :: u8) XOR 0x40 = 0 \<and> rm = softfloat_round_near_even))"
  note r = rounded32(1,2) [OF sig, where rm = rm and sg = sg, folded N_def, folded z_def] rounded32(3) [OF sig]
  have ti: "to_int 0 (2 ^ 32 - 1) (rmode_of rm) exact sg X s =
    (let v = (if sg then - int N else int N)
     in if 0 \<le> v \<and> v \<le> 2 ^ 32 - 1
        then (v, if exact \<and> unat sig mod 2 ^ 7 \<noteq> 0 then softfloat_raiseFlags softfloat_flag_inexact s else s)
        else (if sg then 0 else 2 ^ 32 - 1, softfloat_raiseFlags softfloat_flag_invalid s))"
    unfolding N_def using n by (intro to_int_nrnd [where j = 1]) simp_all
  have z0: "z = 0 \<longleftrightarrow> N = 0" using r(2) by (metis unat_eq_zero)
  have "uint z = int N" using r(2) by (simp add: uint_nat)
  then show ?thesis
    unfolding softfloat_roundPackToUI32_def ti Let_def z_def [symmetric] r z0
    by (cases sg) auto
qed

lemma rounded64:
  fixes sig extra :: u64 and rm :: u8 and sg :: bool
  defines "inc \<equiv> (if rm \<noteq> softfloat_round_near_even \<and> rm \<noteq> softfloat_round_near_maxMag
             then rm = (if sg then softfloat_round_min else softfloat_round_max) \<and> extra \<noteq> 0
             else 0x8000000000000000 \<le> extra)"
  defines "N \<equiv> nrnd (rmode_of rm) sg (unat sig * 2 ^ 64 + unat extra) 64"
  shows "inc \<and> sig + 1 = 0 \<longleftrightarrow> 2 ^ 64 \<le> N"
    and "\<not> 2 ^ 64 \<le> N \<Longrightarrow> unat (if inc then (sig + 1) AND NOT (of_bool (extra AND 0x7FFFFFFFFFFFFFFF = 0 \<and> rm = softfloat_round_near_even))
                         else sig) = N"
    and "(unat sig * 2 ^ 64 + unat extra) mod 2 ^ 64 \<noteq> 0 \<longleftrightarrow> extra \<noteq> 0"
proof -
  have e: "unat extra < 2 ^ 64" using unat_lt_pow [of extra] by simp
  have n: "(unat sig * 2 ^ 64 + unat extra) div 2 ^ 64 = unat sig" "(unat sig * 2 ^ 64 + unat extra) mod 2 ^ 64 = unat extra"
    using e by simp_all
  show "(unat sig * 2 ^ 64 + unat extra) mod 2 ^ 64 \<noteq> 0 \<longleftrightarrow> extra \<noteq> 0" unfolding n by (simp add: unat_eq_zero)
  define ri where "ri = rinc (rmode_of rm) sg 64"
  have ri: "ri < 2 ^ 64" unfolding ri_def by (rule rinc_less) simp
  have "extra \<noteq> 0 \<longleftrightarrow> 1 \<le> unat extra" by (metis One_nat_def Suc_leI le_zero_eq not_gr_zero unat_eq_zero zero_neq_one)
  then have inc: "inc \<longleftrightarrow> 2 ^ 64 \<le> unat extra + ri"
    unfolding inc_def ri_def rmode_of_def using e by (simp add: word_le_nat_alt)
  have dv: "(unat sig * 2 ^ 64 + unat extra + ri) div 2 ^ 64 = unat sig + of_bool inc"
    using div_add_small [OF ri, of "unat sig * 2 ^ 64 + unat extra"] unfolding n inc .
  have low: "extra AND 0x7FFFFFFFFFFFFFFF = 0 \<longleftrightarrow> unat extra mod 2 ^ 63 = 0"
    using unat_and_mask [of extra 63] by (simp add: mask_eq_exp_minus_1) (metis unat_eq_zero)
  have N: "N = unat sig + of_bool inc - of_bool (rm = softfloat_round_near_even \<and> unat extra = 2 ^ 63 \<and> odd (unat sig + of_bool inc))"
    unfolding N_def by (subst nrnd_via_rinc) (simp_all only: ri_def [symmetric] dv n rmode_of_RNE, simp)
  have s1: "sig + 1 \<noteq> 0 \<Longrightarrow> unat (sig + 1) = unat sig + 1"
    using unatSuc [of sig] by (simp add: add.commute)
  have s: "unat sig < 2 ^ 64" using unat_lt_pow [of sig] by simp
  have "sig + 1 = 0 \<longleftrightarrow> sig = - 1" by (simp add: eq_neg_iff_add_eq_0)
  also have "\<dots> \<longleftrightarrow> unat sig = 2 ^ 64 - 1" using unat_neg [of "1 :: u64"] by (simp add: word_unat_eq_iff)
  finally have top: "sig + 1 = 0 \<longleftrightarrow> unat sig = 2 ^ 64 - 1" .
  show ov: "inc \<and> sig + 1 = 0 \<longleftrightarrow> 2 ^ 64 \<le> N"
  proof (cases "unat sig = 2 ^ 64 - 1 \<and> inc")
    case True
    then show ?thesis unfolding N top by simp
  next
    case False
    then have "unat sig + of_bool inc < 2 ^ 64" using s by (cases inc) simp_all
    then have "N < 2 ^ 64" unfolding N by simp
    then show ?thesis unfolding top using False by auto
  qed
  have half: "inc \<Longrightarrow> rm = softfloat_round_near_even \<Longrightarrow> unat extra mod 2 ^ 63 = 0 \<longleftrightarrow> unat extra = 2 ^ 63"
    unfolding inc_def using e by (auto simp: word_le_nat_alt le_mod_geq)
  have half': "\<not> inc \<Longrightarrow> rm = softfloat_round_near_even \<Longrightarrow> unat extra \<noteq> 2 ^ 63"
    unfolding inc_def by (auto simp: word_le_nat_alt)
  show "unat (if inc then (sig + 1) AND NOT (of_bool (extra AND 0x7FFFFFFFFFFFFFFF = 0 \<and> rm = softfloat_round_near_even))
                         else sig) = N" if "\<not> 2 ^ 64 \<le> N"
  proof (cases inc)
    case True
    then have "unat (sig + 1) = unat sig + 1" using that ov s1 by simp
    moreover have "(unat extra mod 2 ^ 63 = 0 \<and> rm = softfloat_round_near_even) \<longleftrightarrow> (rm = softfloat_round_near_even \<and> unat extra = 2 ^ 63)"
      using half [OF True] by auto
    ultimately show ?thesis using True by (simp only: if_True unat_and_not_of_bool low N of_bool_eq conj_assoc)
  next
    case False
    then have "\<not> (rm = softfloat_round_near_even \<and> unat extra = 2 ^ 63)" using half' by auto
    then show ?thesis unfolding N using False by auto
  qed
qed

lemma roundPackToI64_to_int:
  assumes n: "near 63 (X * 2 ^ 64) (unat sig * 2 ^ 64 + unat extra)"
  shows "softfloat_roundPackToI64 sg sig extra rm exact s
    = to_int (- (2 ^ 63)) (2 ^ 63 - 1) (rmode_of rm) exact sg X s"
proof -
  define N where "N = nrnd (rmode_of rm) sg (unat sig * 2 ^ 64 + unat extra) 64"
  define inc where "inc = (if rm \<noteq> softfloat_round_near_even \<and> rm \<noteq> softfloat_round_near_maxMag
             then rm = (if sg then softfloat_round_min else softfloat_round_max) \<and> extra \<noteq> 0
             else 0x8000000000000000 \<le> extra)"
  define z where "z = (if inc then (sig + 1) AND NOT (of_bool (extra AND 0x7FFFFFFFFFFFFFFF = 0 \<and> rm = softfloat_round_near_even))
                         else sig)"
  note r = rounded64(1,2) [where rm = rm and sg = sg and sig = sig and extra = extra, folded N_def inc_def, folded z_def]
    rounded64(3) [of sig extra]
  have ti: "to_int (- (2 ^ 63)) (2 ^ 63 - 1) (rmode_of rm) exact sg X s =
    (let v = (if sg then - int N else int N)
     in if - (2 ^ 63) \<le> v \<and> v \<le> 2 ^ 63 - 1
        then (v, if exact \<and> extra \<noteq> 0 then softfloat_raiseFlags softfloat_flag_inexact s else s)
        else (if sg then - (2 ^ 63) else 2 ^ 63 - 1, softfloat_raiseFlags softfloat_flag_invalid s))"
    unfolding N_def r(3) [symmetric] using n by (intro to_int_nrnd [where j = 63]) simp_all
  have ends: "i64_fromNegOverflow = - (2 ^ 63)" "i64_fromPosOverflow = 2 ^ 63 - 1"
    by (simp_all add: i64_fromNegOverflow_def i64_fromPosOverflow_def)
  show ?thesis
  proof (cases "2 ^ 64 \<le> N")
    case True
    then show ?thesis
      unfolding softfloat_roundPackToI64_def ti Let_def inc_def [symmetric] z_def [symmetric] r(1) ends
      by (cases sg) simp_all
  next
    case False
    note sm = signed_magnitude [of sg z, unfolded r(2) [OF False], simplified]
    show ?thesis
      using False sm unfolding softfloat_roundPackToI64_def ti Let_def inc_def [symmetric] z_def [symmetric] r(1) ends
      by (cases sg) auto
  qed
qed

lemma roundPackToUI64_to_int:
  assumes n: "near 63 (X * 2 ^ 64) (unat sig * 2 ^ 64 + unat extra)"
  shows "apfst uint (softfloat_roundPackToUI64 sg sig extra rm exact s)
    = to_int 0 (2 ^ 64 - 1) (rmode_of rm) exact sg X s"
proof -
  define N where "N = nrnd (rmode_of rm) sg (unat sig * 2 ^ 64 + unat extra) 64"
  define inc where "inc = (if rm \<noteq> softfloat_round_near_even \<and> rm \<noteq> softfloat_round_near_maxMag
             then rm = (if sg then softfloat_round_min else softfloat_round_max) \<and> extra \<noteq> 0
             else 0x8000000000000000 \<le> extra)"
  define z where "z = (if inc then (sig + 1) AND NOT (of_bool (extra AND 0x7FFFFFFFFFFFFFFF = 0 \<and> rm = softfloat_round_near_even))
                         else sig)"
  note r = rounded64(1,2) [where rm = rm and sg = sg and sig = sig and extra = extra, folded N_def inc_def, folded z_def]
    rounded64(3) [of sig extra]
  have ti: "to_int 0 (2 ^ 64 - 1) (rmode_of rm) exact sg X s =
    (let v = (if sg then - int N else int N)
     in if 0 \<le> v \<and> v \<le> 2 ^ 64 - 1
        then (v, if exact \<and> extra \<noteq> 0 then softfloat_raiseFlags softfloat_flag_inexact s else s)
        else (if sg then 0 else 2 ^ 64 - 1, softfloat_raiseFlags softfloat_flag_invalid s))"
    unfolding N_def r(3) [symmetric] using n by (intro to_int_nrnd [where j = 63]) simp_all
  show ?thesis
  proof (cases "2 ^ 64 \<le> N")
    case True
    then show ?thesis
      unfolding softfloat_roundPackToUI64_def ti Let_def inc_def [symmetric] z_def [symmetric] r(1)
      by (cases sg) simp_all
  next
    case False
    then have "uint z = int N" "z = 0 \<longleftrightarrow> N = 0" using r(2) by (simp_all add: uint_nat unat_eq_zero flip: unat_eq_zero)
    then show ?thesis
      using False unfolding softfloat_roundPackToUI64_def ti Let_def inc_def [symmetric] z_def [symmetric] r(1)
      by (cases sg) auto
  qed
qed

subsection \<open>Shifting with an extra word\<close>

text \<open>The value and its extra word stand for the shifted value, exactly up to a shift by 64.\<close>

lemma shiftRightJam64Extra_near:
  fixes a c :: u64
  assumes c: "c \<noteq> 0"
  defines "z \<equiv> softfloat_shiftRightJam64Extra a 0 c"
  shows "near 63 (real (unat a) / 2 ^ unat c * 2 ^ 64) (unat (ext_v z) * 2 ^ 64 + unat (ext_extra z))"
proof -
  have c0: "0 < unat c" using c by (simp add: unat_gt_0)
  have lt: "c < 64 \<longleftrightarrow> unat c < 64" "c = 64 \<longleftrightarrow> unat c = 64" by (simp_all add: word_less_nat_alt word_unat_eq_iff)
  have a: "unat a < 2 ^ 64" using unat_lt_pow [of a] by simp
  consider "unat c < 64" | "unat c = 64" | "64 < unat c" by linarith
  then show ?thesis
  proof cases
    case 1
    define d where "d = 64 - unat c"
    have cd: "unat c + d = 64" using 1 by (simp add: d_def)
    then have P: "(2::nat) ^ 64 = 2 ^ unat c * 2 ^ d" "(2::real) ^ 64 = 2 ^ unat c * 2 ^ d" by (simp_all flip: power_add)
    have "unat (ext_extra z) = unat a * 2 ^ d mod 2 ^ 64"
      using 1 unat_neg_and_63 [OF c0 1] by (simp add: z_def softfloat_shiftRightJam64Extra_def lt unat_shl d_def)
    also have "\<dots> = unat a mod 2 ^ unat c * 2 ^ d" unfolding P by (simp only: mult_mod_left)
    finally have "unat (ext_v z) * 2 ^ 64 + unat (ext_extra z) = (unat a div 2 ^ unat c * 2 ^ unat c + unat a mod 2 ^ unat c) * 2 ^ d"
      unfolding P distrib_right mult.assoc [symmetric]
      using 1 by (simp only: z_def softfloat_shiftRightJam64Extra_def lt unat_shr Let_def uint64_extra.simps if_True)
    also have "\<dots> = unat a * 2 ^ d" by (simp only: div_mult_mod_eq)
    finally have e: "unat (ext_v z) * 2 ^ 64 + unat (ext_extra z) = unat a * 2 ^ d" .
    moreover have "real (unat a) / 2 ^ unat c * 2 ^ 64 = real (unat a * 2 ^ d)" unfolding P by simp
    ultimately show ?thesis by (simp only: near_exact)
  next
    case 2
    then have "unat (ext_v z) * 2 ^ 64 + unat (ext_extra z) = unat a"
      by (simp add: z_def softfloat_shiftRightJam64Extra_def lt)
    moreover have "real (unat a) / 2 ^ unat c * 2 ^ 64 = real (unat a)" unfolding 2 by simp
    ultimately show ?thesis by (simp only: near_exact)
  next
    case 3
    then have z: "unat (ext_v z) * 2 ^ 64 + unat (ext_extra z) = of_bool (unat a \<noteq> 0)"
      by (simp add: z_def softfloat_shiftRightJam64Extra_def lt unat_eq_zero)
    define x where "x = real (unat a) / 2 ^ unat c * 2 ^ 64"
    have "(2::real) ^ 65 \<le> 2 ^ unat c" using 3 by (intro power_increasing) simp_all
    moreover have "real (unat a) < 2 ^ 64" using a by (metis of_nat_less_iff of_nat_numeral of_nat_power)
    ultimately have "real (unat a) * 2 ^ 65 < 2 ^ 64 * 2 ^ unat c" by (intro mult_less_le_imp_less) simp_all
    then have x63: "x < 2 ^ 63" by (simp add: x_def field_simps)
    show ?thesis
    proof (cases "unat a = 0")
      case True
      then have "x = real 0" by (simp add: x_def)
      then show ?thesis unfolding z x_def [symmetric] using True by (simp only: near_exact of_bool_eq simp_thms)
    next
      case False
      then have "0 < x" by (simp add: x_def)
      then show ?thesis
        unfolding z x_def [symmetric] using False x63 by (intro near_between [of 63 0 x _ 1]) simp_all
    qed
  qed
qed

subsection \<open>The significand the code shifts\<close>

text \<open>
  The code takes the exponent of a subnormal number as 0 where the value has exponent 1.  The number is
  then so small that the shifted significand is just its sticky bit.
\<close>

context float_format
begin

definition csig :: "u64 \<Rightarrow> nat" where
  "csig a = (if expUI a = 0 then unat (fracUI a) else unat (fracUI a) + 2 ^ fb)"

lemma csig_less: "csig a < 2 ^ Suc fb" "expUI a = 0 \<Longrightarrow> csig a < 2 ^ fb"
  using fracUI_less [of a] by (simp_all add: csig_def)

lemma csig_ge: "expUI a \<noteq> 0 \<Longrightarrow> 2 ^ fb \<le> csig a"
  by (simp add: csig_def)

lemma lsig_csig: "lsig a = (if expUI a = 0 then 2 * csig a else csig a)"
  by (simp add: lsig_def csig_def)

lemma mval_csig:
  assumes "expUI a \<noteq> 0" and D: "int k - int D = q - 1" and d: "int d = int D - expUI a"
  shows "mval fb q (magn a) = real (csig a * 2 ^ k) / 2 ^ d"
proof -
  have "q + expUI a - 1 = int k + (- int d)" using D d by simp
  then have "mval fb q (magn a) = real (csig a) * 2 powi (int k + (- int d))"
    using assms(1) by (simp only: mval_lsig lsig_csig if_False)
  then show ?thesis unfolding powi_split by (simp add: power_int_minus field_simps)
qed

lemma mval_scale: "mval fb q (magn a) * 2 ^ p = mval fb (q + int p) (magn a)"
proof -
  have "q + int p + expUI a - 1 = (q + expUI a - 1) + int p" by simp
  then show ?thesis unfolding mval_lsig by (simp only: powi_split powi_nat mult.assoc)
qed

lemma mval_csig_tiny:
  assumes "expUI a = 0" and D: "int k - int D = q - 1" "fb + k + j < D"
  shows "mval fb q (magn a) < 1 / 2 ^ j" and "mval fb q (magn a) = 0 \<longleftrightarrow> csig a = 0"
proof -
  have "real (csig a) < real (2 ^ fb)" using csig_less(2) [OF assms(1)] by (simp only: of_nat_less_iff)
  then have "mval fb q (magn a) < real (2 * 2 ^ fb) * 2 powi (q - 1)"
    using assms(1) by (simp add: mval_lsig lsig_csig)
  also have "q - 1 = int k + (- int D)" using D(1) by simp
  also have "real (2 * 2 ^ fb) * 2 powi (int k + (- int D)) = 2 ^ (Suc fb + k) / 2 ^ D"
    unfolding powi_split by (simp add: power_int_minus field_simps power_add)
  also have "\<dots> \<le> 1 / 2 ^ j"
    using D(2) power_increasing [of "Suc fb + k + j" D "2::real"] by (simp add: field_simps power_add)
  finally show "mval fb q (magn a) < 1 / 2 ^ j" .
  show "mval fb q (magn a) = 0 \<longleftrightarrow> csig a = 0" using assms(1) by (simp add: mval_lsig lsig_csig)
qed

lemma jam_csig_near:
  assumes D: "int k - int D = q - 1 + int p" "fb + k < D" and d: "int d = int D - expUI a"
  shows "near 1 (mval fb q (magn a) * 2 ^ p) (jam d (csig a * 2 ^ k))"
proof (cases "expUI a = 0")
  case False
  have "mval fb (q + int p) (magn a) = real (csig a * 2 ^ k) / 2 ^ d"
    by (rule mval_csig [OF False _ d]) (use D(1) in simp)
  then show ?thesis unfolding mval_scale using stk_near [OF stk_jam_nat [of "csig a * 2 ^ k" d]] by simp
next
  case True
  define y where "y = mval fb q (magn a) * 2 ^ p"
  have q: "y = mval fb (q + int p) (magn a)"
    by (simp only: mval_scale y_def)
  have "csig a * 2 ^ k < 2 ^ (fb + k)" using csig_less(2) [OF True] by (simp add: power_add)
  moreover have "d = D" using d True by simp
  ultimately have j: "jam d (csig a * 2 ^ k) = of_bool (csig a \<noteq> 0)"
    using D(2) jam_large [of "csig a * 2 ^ k" "fb + k" D] by simp
  have y: "y < 1" "y = 0 \<longleftrightarrow> csig a = 0"
    unfolding q using mval_csig_tiny [OF True, of k D "q + int p" 0] D by simp_all
  have "0 \<le> y" unfolding q by simp
  then show ?thesis
    unfolding y_def [symmetric] j using y near_between [of 1 0 y 1 1] near_exact [of 1 0]
    by (cases "csig a = 0") auto
qed

lemma shiftRightJam64Extra_csig_near:
  fixes sig c :: u64
  assumes sig: "unat sig = csig a * 2 ^ k" and D: "int k - int D = q - 1" "fb + k + 64 < D"
    and c: "int (unat c) = int D - expUI a" "c \<noteq> 0"
  defines "z \<equiv> softfloat_shiftRightJam64Extra sig 0 c"
  shows "near 63 (mval fb q (magn a) * 2 ^ 64) (unat (ext_v z) * 2 ^ 64 + unat (ext_extra z))"
proof (cases "expUI a = 0")
  case False
  show ?thesis
    using shiftRightJam64Extra_near [OF c(2), of sig] unfolding z_def mval_csig [OF False D(1) c(1)] sig .
next
  case True
  define y where "y = mval fb q (magn a) * 2 ^ 64"
  have "64 < unat c" using c(1) True D(2) by simp
  then have z: "unat (ext_v z) * 2 ^ 64 + unat (ext_extra z) = of_bool (csig a \<noteq> 0)"
    using sig by (simp add: z_def softfloat_shiftRightJam64Extra_def word_less_nat_alt word_unat_eq_iff unat_eq_zero)
  have "mval fb q (magn a) < 1 / 2 ^ 64" by (rule mval_csig_tiny(1) [OF True D])
  then have y: "y < 1" "y = 0 \<longleftrightarrow> csig a = 0" "0 \<le> y"
    using mval_csig_tiny(2) [OF True D] by (simp_all add: y_def field_simps)
  then show ?thesis
    unfolding y_def [symmetric] z using y near_between [of 63 0 y 1 1] near_exact [of 63 0]
    by (cases "csig a = 0") auto
qed

lemma mval_csig_big:
  assumes "expUI a \<noteq> 0" and "D \<le> expUI a" and "int k \<le> D - 1 + q + int fb"
  shows "2 ^ k \<le> mval fb q (magn a)"
proof -
  have "(2::real) ^ k = 2 powi (int k)" by simp
  also have "\<dots> \<le> 2 powi (int fb + (q + expUI a - 1))" using assms(2,3) by (intro power_int_increasing) simp_all
  also have "\<dots> = real (2 ^ fb) * 2 powi (q + expUI a - 1)" unfolding powi_split by simp
  also have "\<dots> \<le> real (csig a) * 2 powi (q + expUI a - 1)"
    using csig_ge [OF assms(1)] by (intro mult_right_mono) (simp_all only: of_nat_le_iff, simp)
  also have "\<dots> = mval fb q (magn a)" using assms(1) by (simp add: mval_lsig lsig_csig)
  finally show ?thesis .
qed

end

lemma f32_csig: "unat (if expF32UI u \<noteq> 0 then fracF32UI u OR 0x00800000 else fracF32UI u) = f32.csig u"
  using unat_or_hidden [of "fracF32UI u" 23 "0x00800000"] f32.fracUI_less [of u] by (simp add: f32.csig_def)

lemma f64_csig: "unat (if expF64UI u \<noteq> 0 then fracF64UI u OR 0x0010000000000000 else fracF64UI u) = f64.csig u"
  using unat_or_hidden [of "fracF64UI u" 52 "0x0010000000000000"] f64.fracUI_less [of u] by (simp add: f64.csig_def)

subsection \<open>The conversions in a rounding mode refine the specification\<close>

lemma to_int_saturates:
  assumes "2 ^ k \<le> X" "hi < 2 ^ k" "- lo < 2 ^ k"
  shows "to_int lo hi m exact neg X s = (if neg then lo else hi, softfloat_raiseFlags softfloat_flag_invalid s)"
proof -
  have "2 ^ k \<le> \<lfloor>X\<rfloor>" using assms(1) by (simp add: le_floor_iff)
  then show ?thesis using assms(2,3) by (intro to_int_overflow) linarith+
qed

text \<open>The 32-bit integers: the significand with seven round bits is near, or both it and the value are out of range.\<close>

lemma pack32_to_int:
  fixes sig :: u64
  assumes pack: "\<And>X. near 1 (X * 2 ^ 7) (unat sig) \<Longrightarrow> r = to_int lo hi m exact sg X s"
    and near: "0 < d \<Longrightarrow> near 1 (X * 2 ^ 7) (unat sig)"
    and big: "\<not> 0 < d \<Longrightarrow> 2 ^ 45 \<le> X \<and> 2 ^ 52 \<le> unat sig" and range: "hi < 2 ^ 45" "- lo < 2 ^ 45"
  shows "r = to_int lo hi m exact sg X s"
proof (cases "0 < d")
  case True
  then show ?thesis by (intro pack near)
next
  case False
  define Y where "Y = real (unat sig) / 2 ^ 7"
  have "2 ^ 52 \<le> real (unat sig)" using big [OF False] by (metis of_nat_le_iff of_nat_numeral of_nat_power)
  then have "2 ^ 45 \<le> Y" by (simp add: Y_def)
  then have "to_int lo hi m exact sg Y s = to_int lo hi m exact sg X s"
    using to_int_saturates [OF _ range] big [OF False] by simp
  moreover have "r = to_int lo hi m exact sg Y s" by (rule pack) (simp add: Y_def)
  ultimately show ?thesis by simp
qed

lemma f32_shifted32:
  fixes u :: u64
  defines "g \<equiv> push_bit 32 (if expF32UI u \<noteq> 0 then fracF32UI u OR 0x00800000 else fracF32UI u)"
    and "d \<equiv> 0xAF - expF32UI u"
  defines "sig \<equiv> if 0 < d then softfloat_shiftRightJam64 g (word_of_int d) else g"
  shows "unat sig < 2 ^ 63"
    and "0 < d \<Longrightarrow> near 1 (mval 23 (- 149) (f32.magn u) * 2 ^ 7) (unat sig)"
    and "\<not> 0 < d \<Longrightarrow> 2 ^ 45 \<le> mval 23 (- 149) (f32.magn u) \<and> 2 ^ 52 \<le> unat sig"
proof -
  have "f32.csig u * 2 ^ 32 < 2 ^ 24 * 2 ^ 32" using f32.csig_less(1) [of u] by simp
  then have g: "unat g = f32.csig u * 2 ^ 32" "unat g < 2 ^ 56"
    using unat_shl_less [of "if expF32UI u \<noteq> 0 then fracF32UI u OR 0x00800000 else fracF32UI u" 32]
    unfolding g_def f32_csig by simp_all
  have e: "0 \<le> expF32UI u" "expF32UI u < 256" using f32.expUI_bounds [of u] by simp_all
  have jam: "unat sig = jam (nat d) (unat g)" if "0 < d"
  proof -
    have c: "unat (word_of_int d :: u64) = nat d" using that e(1) by (intro unat_word_of_int_less) (simp_all add: d_def)
    then have "(word_of_int d :: u64) \<noteq> 0" using that by (metis nat_0_iff not_le unat_0)
    from unat_shiftRightJam64 [OF this, of g] show ?thesis using that by (simp only: sig_def if_True c)
  qed
  show "unat sig < 2 ^ 63"
  proof (cases "0 < d")
    case True
    have "unat g < 2 ^ 63" using g(2) by simp
    then show ?thesis unfolding jam [OF True] by (intro jam_less) simp_all
  next
    case False
    then show ?thesis using g(2) by (simp add: sig_def)
  qed
  show "near 1 (mval 23 (- 149) (f32.magn u) * 2 ^ 7) (unat sig)" if "0 < d"
    unfolding jam [OF that] g(1) using that by (intro f32.jam_csig_near [where D = 175]) (simp_all add: d_def)
  show "2 ^ 45 \<le> mval 23 (- 149) (f32.magn u) \<and> 2 ^ 52 \<le> unat sig" if "\<not> 0 < d"
  proof
    have e': "expF32UI u \<noteq> 0" "175 \<le> expF32UI u" using that by (simp_all add: d_def)
    then show "2 ^ 45 \<le> mval 23 (- 149) (f32.magn u)" by (intro f32.mval_csig_big [where D = 175]) simp_all
    have "2 ^ 23 * 2 ^ 32 \<le> f32.csig u * 2 ^ 32" using f32.csig_ge [OF e'(1)] by (intro mult_le_mono1)
    then show "2 ^ 52 \<le> unat sig" using that g(1) by (simp add: sig_def)
  qed
qed

lemma f32_abs_val: "\<bar>f32_val a\<bar> = mval 23 (- 149) (f32.magn (ucast a))"
  by (simp add: f32_val_def with_sign_def)

lemma f32_to_i32_eq:
  "f32_to_i32 a rm exact s = to_int (- (2 ^ 31)) (2 ^ 31 - 1) (rmode_of rm) exact
     (f32_sign a \<and> \<not> f32_isNaN a) \<bar>f32_val a\<bar> s"
proof -
  define u :: u64 where "u = ucast a"
  note sh = f32_shifted32 [of u]
  have sg: "(if expF32UI u = 0xFF \<and> fracF32UI u \<noteq> 0 then False else signF32UI u) = (f32_sign a \<and> \<not> f32_isNaN a)"
    unfolding u_def f32_class_exp by simp
  show ?thesis
    unfolding f32_to_i32_def Let_def u_def [symmetric] sg f32_abs_val
    by (rule pack32_to_int [where d = "0xAF - expF32UI u", OF roundPackToI32_to_int [OF _ sh(1)]],
      assumption, erule sh(2), erule sh(3), simp_all)
qed

lemma f32_to_ui32_eq:
  "apfst uint (f32_to_ui32 a rm exact s) = to_int 0 (2 ^ 32 - 1) (rmode_of rm) exact
     (f32_sign a \<and> \<not> f32_isNaN a) \<bar>f32_val a\<bar> s"
proof -
  define u :: u64 where "u = ucast a"
  note sh = f32_shifted32 [of u]
  have sg: "(if expF32UI u = 0xFF \<and> fracF32UI u \<noteq> 0 then False else signF32UI u) = (f32_sign a \<and> \<not> f32_isNaN a)"
    unfolding u_def f32_class_exp by simp
  show ?thesis
    unfolding f32_to_ui32_def Let_def u_def [symmetric] sg f32_abs_val
    by (rule pack32_to_int [where d = "0xAF - expF32UI u", OF roundPackToUI32_to_int [OF _ sh(1)]],
      assumption, erule sh(2), erule sh(3), simp_all)
qed

lemma f64_shifted32:
  fixes u :: u64
  defines "g \<equiv> (if expF64UI u \<noteq> 0 then fracF64UI u OR 0x0010000000000000 else fracF64UI u)"
    and "d \<equiv> 0x42C - expF64UI u"
  defines "sig \<equiv> if 0 < d then softfloat_shiftRightJam64 g (word_of_int d) else g"
  shows "unat sig < 2 ^ 63"
    and "0 < d \<Longrightarrow> near 1 (mval 52 (- 1074) (f64.magn u) * 2 ^ 7) (unat sig)"
    and "\<not> 0 < d \<Longrightarrow> 2 ^ 45 \<le> mval 52 (- 1074) (f64.magn u) \<and> 2 ^ 52 \<le> unat sig"
proof -
  have g: "unat g = f64.csig u * 2 ^ 0" "unat g < 2 ^ 53"
    unfolding g_def f64_csig using f64.csig_less(1) [of u] by simp_all
  have e: "0 \<le> expF64UI u" "expF64UI u < 2048" using f64.expUI_bounds [of u] by simp_all
  have jam: "unat sig = jam (nat d) (unat g)" if "0 < d"
  proof -
    have c: "unat (word_of_int d :: u64) = nat d" using that e(1) by (intro unat_word_of_int_less) (simp_all add: d_def)
    then have "(word_of_int d :: u64) \<noteq> 0" using that by (metis nat_0_iff not_le unat_0)
    from unat_shiftRightJam64 [OF this, of g] show ?thesis using that by (simp only: sig_def if_True c)
  qed
  show "unat sig < 2 ^ 63"
  proof (cases "0 < d")
    case True
    have "unat g < 2 ^ 63" using g(2) by simp
    then show ?thesis unfolding jam [OF True] by (intro jam_less) simp_all
  next
    case False
    then show ?thesis using g(2) by (simp add: sig_def)
  qed
  show "near 1 (mval 52 (- 1074) (f64.magn u) * 2 ^ 7) (unat sig)" if "0 < d"
    unfolding jam [OF that] g(1) using that by (intro f64.jam_csig_near [where D = 1068]) (simp_all add: d_def)
  show "2 ^ 45 \<le> mval 52 (- 1074) (f64.magn u) \<and> 2 ^ 52 \<le> unat sig" if "\<not> 0 < d"
  proof
    have e': "expF64UI u \<noteq> 0" "1068 \<le> expF64UI u" using that by (simp_all add: d_def)
    then show "2 ^ 45 \<le> mval 52 (- 1074) (f64.magn u)" by (intro f64.mval_csig_big [where D = 1068]) simp_all
    show "2 ^ 52 \<le> unat sig" using f64.csig_ge [OF e'(1)] that g(1) by (simp add: sig_def)
  qed
qed

lemma f64_abs_val: "\<bar>f64_val a\<bar> = mval 52 (- 1074) (f64.magn a)"
  by (simp add: f64_val_def with_sign_def)

lemma f64_to_i32_eq:
  "f64_to_i32 a rm exact s = to_int (- (2 ^ 31)) (2 ^ 31 - 1) (rmode_of rm) exact
     (f64_sign a \<and> \<not> f64_isNaN a) \<bar>f64_val a\<bar> s"
proof -
  note sh = f64_shifted32 [of a]
  have sg: "(if expF64UI a = 0x7FF \<and> fracF64UI a \<noteq> 0 then False else signF64UI a) = (f64_sign a \<and> \<not> f64_isNaN a)"
    unfolding f64_class_exp by simp
  show ?thesis
    unfolding f64_to_i32_def Let_def sg f64_abs_val
    by (rule pack32_to_int [where d = "0x42C - expF64UI a", OF roundPackToI32_to_int [OF _ sh(1)]],
      assumption, erule sh(2), erule sh(3), simp_all)
qed

lemma f64_to_ui32_eq:
  "apfst uint (f64_to_ui32 a rm exact s) = to_int 0 (2 ^ 32 - 1) (rmode_of rm) exact
     (f64_sign a \<and> \<not> f64_isNaN a) \<bar>f64_val a\<bar> s"
proof -
  note sh = f64_shifted32 [of a]
  have sg: "(if expF64UI a = 0x7FF \<and> fracF64UI a \<noteq> 0 then False else signF64UI a) = (f64_sign a \<and> \<not> f64_isNaN a)"
    unfolding f64_class_exp by simp
  show ?thesis
    unfolding f64_to_ui32_def Let_def sg f64_abs_val
    by (rule pack32_to_int [where d = "0x42C - expF64UI a", OF roundPackToUI32_to_int [OF _ sh(1)]],
      assumption, erule sh(2), erule sh(3), simp_all)
qed

text \<open>The 64-bit integers: the significand and its extra word.\<close>

lemma f32_shifted64:
  fixes u :: u64
  defines "g \<equiv> push_bit 40 (if expF32UI u \<noteq> 0 then fracF32UI u OR 0x00800000 else fracF32UI u)"
    and "d \<equiv> 0xBE - expF32UI u"
  defines "z \<equiv> softfloat_shiftRightJam64Extra g 0 (word_of_int d)"
  shows "0 < d \<Longrightarrow> near 63 (mval 23 (- 149) (f32.magn u) * 2 ^ 64) (unat (ext_v z) * 2 ^ 64 + unat (ext_extra z))"
    and "d = 0 \<Longrightarrow> near 63 (mval 23 (- 149) (f32.magn u) * 2 ^ 64) (unat g * 2 ^ 64 + unat (0 :: u64))"
    and "d < 0 \<Longrightarrow> 2 ^ 64 \<le> mval 23 (- 149) (f32.magn u)"
proof -
  have "f32.csig u * 2 ^ 40 < 2 ^ 24 * 2 ^ 40" using f32.csig_less(1) [of u] by simp
  then have g: "unat g = f32.csig u * 2 ^ 40"
    using unat_shl_less [of "if expF32UI u \<noteq> 0 then fracF32UI u OR 0x00800000 else fracF32UI u" 40]
    unfolding g_def f32_csig by simp
  have e: "0 \<le> expF32UI u" "expF32UI u < 256" using f32.expUI_bounds [of u] by simp_all
  show "near 63 (mval 23 (- 149) (f32.magn u) * 2 ^ 64) (unat (ext_v z) * 2 ^ 64 + unat (ext_extra z))" if "0 < d"
  proof -
    have c: "unat (word_of_int d :: u64) = nat d" using that e(1) by (intro unat_word_of_int_less) (simp_all add: d_def)
    then have "(word_of_int d :: u64) \<noteq> 0" using that by (metis nat_0_iff not_le unat_0)
    then show ?thesis
      unfolding z_def using that
      by (intro f32.shiftRightJam64Extra_csig_near [OF g, where D = 190]) (simp_all only: c, simp_all add: d_def)
  qed
  show "near 63 (mval 23 (- 149) (f32.magn u) * 2 ^ 64) (unat g * 2 ^ 64 + unat (0 :: u64))" if "d = 0"
  proof -
    have "mval 23 (- 149) (f32.magn u) = real (f32.csig u * 2 ^ 40) / 2 ^ 0"
      using that by (intro f32.mval_csig [where D = 190]) (simp_all add: d_def)
    then have "mval 23 (- 149) (f32.magn u) * 2 ^ 64 = real (unat g * 2 ^ 64 + unat (0 :: u64))" by (simp add: g)
    then show ?thesis by (simp only: near_exact)
  qed
  show "2 ^ 64 \<le> mval 23 (- 149) (f32.magn u)" if "d < 0"
    using that by (intro f32.mval_csig_big [where D = 191]) (simp_all add: d_def)
qed

lemma f32_to_i64_eq:
  "f32_to_i64 a rm exact s = to_int (- (2 ^ 63)) (2 ^ 63 - 1) (rmode_of rm) exact
     (f32_sign a \<and> \<not> f32_isNaN a) \<bar>f32_val a\<bar> s"
proof -
  define u :: u64 where "u = ucast a"
  define d where "d = 0xBE - expF32UI u"
  note sh = f32_shifted64 [of u, folded d_def]
  have ends: "i64_fromNegOverflow = - (2 ^ 63)" "i64_fromPosOverflow = 2 ^ 63 - 1" "i64_fromNaN = 2 ^ 63 - 1"
    by (simp_all add: i64_fromNegOverflow_def i64_fromPosOverflow_def i64_fromNaN_def)
  have nan: "expF32UI u = 0xFF \<and> fracF32UI u \<noteq> 0 \<longleftrightarrow> f32_isNaN a" "signF32UI u = f32_sign a"
    unfolding u_def f32_class_exp by simp_all
  have no: "f32_isNaN a \<Longrightarrow> d < 0" unfolding nan(1) [symmetric] d_def by simp
  note unf = f32_to_i64_def Let_def u_def [symmetric] d_def [symmetric] nan f32_abs_val prod.case
  consider "d < 0" | "d = 0" | "0 < d" by linarith
  then show ?thesis
  proof cases
    case 1
    then show ?thesis using to_int_saturates [OF sh(3), of "2 ^ 63 - 1" "- (2 ^ 63)"] unfolding unf ends by auto
  next
    case 2
    then have "\<not> f32_isNaN a" using no by auto
    then show ?thesis using 2 roundPackToI64_to_int [OF sh(2)] unfolding unf by simp
  next
    case 3
    then have "\<not> f32_isNaN a" using no by auto
    then show ?thesis using 3 roundPackToI64_to_int [OF sh(1)] unfolding unf by simp
  qed
qed

lemma f32_to_ui64_eq:
  "apfst uint (f32_to_ui64 a rm exact s) = to_int 0 (2 ^ 64 - 1) (rmode_of rm) exact
     (f32_sign a \<and> \<not> f32_isNaN a) \<bar>f32_val a\<bar> s"
proof -
  define u :: u64 where "u = ucast a"
  define d where "d = 0xBE - expF32UI u"
  note sh = f32_shifted64 [of u, folded d_def]
  have nan: "expF32UI u = 0xFF \<and> fracF32UI u \<noteq> 0 \<longleftrightarrow> f32_isNaN a" "signF32UI u = f32_sign a"
    unfolding u_def f32_class_exp by simp_all
  have no: "f32_isNaN a \<Longrightarrow> d < 0" unfolding nan(1) [symmetric] d_def by simp
  note unf = f32_to_ui64_def Let_def u_def [symmetric] d_def [symmetric] nan f32_abs_val prod.case
  consider "d < 0" | "d = 0" | "0 < d" by linarith
  then show ?thesis
  proof cases
    case 1
    then show ?thesis using to_int_saturates [OF sh(3), of "2 ^ 64 - 1" 0] unfolding unf by auto
  next
    case 2
    then have "\<not> f32_isNaN a" using no by auto
    then show ?thesis using 2 roundPackToUI64_to_int [OF sh(2)] unfolding unf by simp
  next
    case 3
    then have "\<not> f32_isNaN a" using no by auto
    then show ?thesis using 3 roundPackToUI64_to_int [OF sh(1)] unfolding unf by simp
  qed
qed

lemma f64_shifted64:
  fixes u :: u64
  defines "g \<equiv> (if expF64UI u \<noteq> 0 then fracF64UI u OR 0x0010000000000000 else fracF64UI u)"
    and "d \<equiv> 0x433 - expF64UI u"
  defines "z \<equiv> softfloat_shiftRightJam64Extra g 0 (word_of_int d)"
  shows "0 < d \<Longrightarrow> near 63 (mval 52 (- 1074) (f64.magn u) * 2 ^ 64) (unat (ext_v z) * 2 ^ 64 + unat (ext_extra z))"
    and "d \<le> 0 \<Longrightarrow> - 11 \<le> d \<Longrightarrow>
      near 63 (mval 52 (- 1074) (f64.magn u) * 2 ^ 64) (unat (push_bit (nat (- d)) g) * 2 ^ 64 + unat (0 :: u64))"
    and "d < - 11 \<Longrightarrow> 2 ^ 64 \<le> mval 52 (- 1074) (f64.magn u)"
proof -
  have g: "unat g = f64.csig u * 2 ^ 0"
    unfolding g_def f64_csig by simp
  have e: "0 \<le> expF64UI u" "expF64UI u < 2048" using f64.expUI_bounds [of u] by simp_all
  show "near 63 (mval 52 (- 1074) (f64.magn u) * 2 ^ 64) (unat (ext_v z) * 2 ^ 64 + unat (ext_extra z))" if "0 < d"
  proof -
    have c: "unat (word_of_int d :: u64) = nat d" using that e(1) by (intro unat_word_of_int_less) (simp_all add: d_def)
    then have "(word_of_int d :: u64) \<noteq> 0" using that by (metis nat_0_iff not_le unat_0)
    then show ?thesis
      unfolding z_def using that
      by (intro f64.shiftRightJam64Extra_csig_near [OF g, where D = 1075]) (simp_all only: c, simp_all add: d_def)
  qed
  show "near 63 (mval 52 (- 1074) (f64.magn u) * 2 ^ 64) (unat (push_bit (nat (- d)) g) * 2 ^ 64 + unat (0 :: u64))"
    if "d \<le> 0" "- 11 \<le> d"
  proof -
    define k where "k = nat (- d)"
    have k: "k \<le> 11" "int k = - d" using that by (simp_all add: k_def)
    have "f64.csig u * 2 ^ k < 2 ^ 53 * 2 ^ 11"
      using f64.csig_less(1) [of u] power_increasing [OF k(1), of "2::nat"] by (intro mult_less_le_imp_less) simp_all
    then have "unat (push_bit k g) = f64.csig u * 2 ^ k" using g by (subst unat_shl_less) simp_all
    moreover have "mval 52 (- 1074) (f64.magn u) = real (f64.csig u * 2 ^ k) / 2 ^ 0"
      using k that by (intro f64.mval_csig [where D = "1075 + k"]) (simp_all add: d_def)
    ultimately have "mval 52 (- 1074) (f64.magn u) * 2 ^ 64 = real (unat (push_bit k g) * 2 ^ 64 + unat (0 :: u64))" by simp
    then show ?thesis unfolding k_def by (simp only: near_exact)
  qed
  show "2 ^ 64 \<le> mval 52 (- 1074) (f64.magn u)" if "d < - 11"
    using that by (intro f64.mval_csig_big [where D = 1087]) (simp_all add: d_def)
qed

lemma f64_to_i64_eq:
  "f64_to_i64 a rm exact s = to_int (- (2 ^ 63)) (2 ^ 63 - 1) (rmode_of rm) exact
     (f64_sign a \<and> \<not> f64_isNaN a) \<bar>f64_val a\<bar> s"
proof -
  define d where "d = 0x433 - expF64UI a"
  note sh = f64_shifted64 [of a, folded d_def]
  have ends: "i64_fromNegOverflow = - (2 ^ 63)" "i64_fromPosOverflow = 2 ^ 63 - 1" "i64_fromNaN = 2 ^ 63 - 1"
    by (simp_all add: i64_fromNegOverflow_def i64_fromPosOverflow_def i64_fromNaN_def)
  have nan: "expF64UI a = 0x7FF \<and> fracF64UI a \<noteq> 0 \<longleftrightarrow> f64_isNaN a" "signF64UI a = f64_sign a"
    unfolding f64_class_exp by simp_all
  have no: "f64_isNaN a \<Longrightarrow> d < - 11" unfolding nan(1) [symmetric] d_def by simp
  note unf = f64_to_i64_def Let_def d_def [symmetric] nan f64_abs_val prod.case
  consider "d < - 11" | "- 11 \<le> d" "d \<le> 0" | "0 < d" by linarith
  then show ?thesis
  proof cases
    case 1
    then show ?thesis using to_int_saturates [OF sh(3), of "2 ^ 63 - 1" "- (2 ^ 63)"] unfolding unf ends by auto
  next
    case 2
    then have "\<not> f64_isNaN a" using no by auto
    then show ?thesis using 2 roundPackToI64_to_int [OF sh(2)] unfolding unf by simp
  next
    case 3
    then have "\<not> f64_isNaN a" using no by auto
    then show ?thesis using 3 roundPackToI64_to_int [OF sh(1)] unfolding unf by simp
  qed
qed

lemma f64_to_ui64_eq:
  "apfst uint (f64_to_ui64 a rm exact s) = to_int 0 (2 ^ 64 - 1) (rmode_of rm) exact
     (f64_sign a \<and> \<not> f64_isNaN a) \<bar>f64_val a\<bar> s"
proof -
  define d where "d = 0x433 - expF64UI a"
  note sh = f64_shifted64 [of a, folded d_def]
  have nan: "expF64UI a = 0x7FF \<and> fracF64UI a \<noteq> 0 \<longleftrightarrow> f64_isNaN a" "signF64UI a = f64_sign a"
    unfolding f64_class_exp by simp_all
  have no: "f64_isNaN a \<Longrightarrow> d < - 11" unfolding nan(1) [symmetric] d_def by simp
  note unf = f64_to_ui64_def Let_def d_def [symmetric] nan f64_abs_val prod.case
  consider "d < - 11" | "- 11 \<le> d" "d \<le> 0" | "0 < d" by linarith
  then show ?thesis
  proof cases
    case 1
    then show ?thesis using to_int_saturates [OF sh(3), of "2 ^ 64 - 1" 0] unfolding unf by auto
  next
    case 2
    then have "\<not> f64_isNaN a" using no by auto
    then show ?thesis using 2 roundPackToUI64_to_int [OF sh(2)] unfolding unf by simp
  next
    case 3
    then have "\<not> f64_isNaN a" using no by auto
    then show ?thesis using 3 roundPackToUI64_to_int [OF sh(1)] unfolding unf by simp
  qed
qed

end
