(* ===== verification/SoftFloat_Truncate.thy ===== *)
theory SoftFloat_Truncate
  imports SoftFloat_ToInt
begin

text \<open>
  Truncating conversion of a float to an integer: the \<^verbatim>\<open>_r_minMag\<close> routines.  They shift the significand
  directly instead of rounding; each equals the conversion of theory \<open>SoftFloat_ToInt\<close> in the mode
  \<^verbatim>\<open>softfloat_round_minMag\<close>.
\<close>

subsection \<open>The code\<close>

definition f32_to_i32_r_minMag :: "u32 \<Rightarrow> bool \<Rightarrow> softfloat_state \<Rightarrow> int \<times> softfloat_state" where
  "f32_to_i32_r_minMag a exact s =
     (let uiA = ucast a; sign = signF32UI uiA; expn = expF32UI uiA; sig = fracF32UI uiA;
          inexact = softfloat_raiseFlags softfloat_flag_inexact s;
          invalid = (if expn = 0xFF \<and> sig \<noteq> 0 then i32_fromNaN
                     else if sign then i32_fromNegOverflow else i32_fromPosOverflow,
                     softfloat_raiseFlags softfloat_flag_invalid s);
          shiftDist = 0x9E - expn
      in if 32 \<le> shiftDist then (0, if exact \<and> word_of_int expn OR sig \<noteq> 0 then inexact else s)
         else if shiftDist \<le> 0
         then (if uiA = packToF32UI True 0x9E 0 then (- 0x7FFFFFFF - 1, s) else invalid)
         else let sig = push_bit 8 (sig OR 0x00800000);
                  absZ = sint (drop_bit (nat shiftDist) sig)
              in (if sign then - absZ else absZ,
                  if exact \<and> push_bit (nat shiftDist) (word_of_int absZ) \<noteq> sig then inexact else s))"

definition f32_to_ui32_r_minMag :: "u32 \<Rightarrow> bool \<Rightarrow> softfloat_state \<Rightarrow> u64 \<times> softfloat_state" where
  "f32_to_ui32_r_minMag a exact s =
     (let uiA = ucast a; sign = signF32UI uiA; expn = expF32UI uiA; sig = fracF32UI uiA;
          inexact = softfloat_raiseFlags softfloat_flag_inexact s;
          invalid = (if expn = 0xFF \<and> sig \<noteq> 0 then ui32_fromNaN
                     else if sign then ui32_fromNegOverflow else ui32_fromPosOverflow,
                     softfloat_raiseFlags softfloat_flag_invalid s);
          shiftDist = 0x9E - expn
      in if 32 \<le> shiftDist then (0, if exact \<and> word_of_int expn OR sig \<noteq> 0 then inexact else s)
         else if sign \<or> shiftDist < 0 then invalid
         else let sig = push_bit 8 (sig OR 0x00800000);
                  z = drop_bit (nat shiftDist) sig
              in (z, if exact \<and> push_bit (nat shiftDist) z \<noteq> sig then inexact else s))"

definition f32_to_i64_r_minMag :: "u32 \<Rightarrow> bool \<Rightarrow> softfloat_state \<Rightarrow> int \<times> softfloat_state" where
  "f32_to_i64_r_minMag a exact s =
     (let uiA = ucast a; sign = signF32UI uiA; expn = expF32UI uiA; sig = fracF32UI uiA;
          inexact = softfloat_raiseFlags softfloat_flag_inexact s;
          invalid = (if expn = 0xFF \<and> sig \<noteq> 0 then i64_fromNaN
                     else if sign then i64_fromNegOverflow else i64_fromPosOverflow,
                     softfloat_raiseFlags softfloat_flag_invalid s);
          shiftDist = 0xBE - expn
      in if 64 \<le> shiftDist then (0, if exact \<and> word_of_int expn OR sig \<noteq> 0 then inexact else s)
         else if shiftDist \<le> 0
         then (if uiA = packToF32UI True 0xBE 0 then (- 0x7FFFFFFFFFFFFFFF - 1, s) else invalid)
         else let sig = sig OR 0x00800000;
                  sig64 = push_bit 40 sig;
                  absZ = sint (drop_bit (nat shiftDist) sig64);
                  shiftDist = 40 - shiftDist
              in (if sign then - absZ else absZ,
                  if exact \<and> shiftDist < 0 \<and> (ucast (push_bit (nat (shiftDist AND 31)) sig) :: u32) \<noteq> 0
                  then inexact else s))"

definition f32_to_ui64_r_minMag :: "u32 \<Rightarrow> bool \<Rightarrow> softfloat_state \<Rightarrow> u64 \<times> softfloat_state" where
  "f32_to_ui64_r_minMag a exact s =
     (let uiA = ucast a; sign = signF32UI uiA; expn = expF32UI uiA; sig = fracF32UI uiA;
          inexact = softfloat_raiseFlags softfloat_flag_inexact s;
          invalid = (if expn = 0xFF \<and> sig \<noteq> 0 then ui64_fromNaN
                     else if sign then ui64_fromNegOverflow else ui64_fromPosOverflow,
                     softfloat_raiseFlags softfloat_flag_invalid s);
          shiftDist = 0xBE - expn
      in if 64 \<le> shiftDist then (0, if exact \<and> word_of_int expn OR sig \<noteq> 0 then inexact else s)
         else if sign \<or> shiftDist < 0 then invalid
         else let sig = sig OR 0x00800000;
                  sig64 = push_bit 40 sig;
                  z = drop_bit (nat shiftDist) sig64;
                  shiftDist = 40 - shiftDist
              in (z, if exact \<and> shiftDist < 0 \<and> (ucast (push_bit (nat (shiftDist AND 31)) sig) :: u32) \<noteq> 0
                     then inexact else s))"

definition f64_to_i32_r_minMag :: "u64 \<Rightarrow> bool \<Rightarrow> softfloat_state \<Rightarrow> int \<times> softfloat_state" where
  "f64_to_i32_r_minMag a exact s =
     (let uiA = a; sign = signF64UI uiA; expn = expF64UI uiA; sig = fracF64UI uiA;
          inexact = softfloat_raiseFlags softfloat_flag_inexact s;
          invalid = (if expn = 0x7FF \<and> sig \<noteq> 0 then i32_fromNaN
                     else if sign then i32_fromNegOverflow else i32_fromPosOverflow,
                     softfloat_raiseFlags softfloat_flag_invalid s);
          shiftDist = 0x433 - expn
      in if 53 \<le> shiftDist then (0, if exact \<and> word_of_int expn OR sig \<noteq> 0 then inexact else s)
         else if shiftDist < 22
         then (if sign \<and> expn = 0x41E \<and> sig < 0x0000000000200000
               then (- 0x7FFFFFFF - 1, if exact \<and> sig \<noteq> 0 then inexact else s)
               else invalid)
         else let sig = sig OR 0x0010000000000000;
                  absZ = sint (drop_bit (nat shiftDist) sig)
              in (if sign then - absZ else absZ,
                  if exact \<and> push_bit (nat shiftDist) (word_of_int absZ) \<noteq> sig then inexact else s))"

definition f64_to_ui32_r_minMag :: "u64 \<Rightarrow> bool \<Rightarrow> softfloat_state \<Rightarrow> u64 \<times> softfloat_state" where
  "f64_to_ui32_r_minMag a exact s =
     (let uiA = a; sign = signF64UI uiA; expn = expF64UI uiA; sig = fracF64UI uiA;
          inexact = softfloat_raiseFlags softfloat_flag_inexact s;
          invalid = (if expn = 0x7FF \<and> sig \<noteq> 0 then ui32_fromNaN
                     else if sign then ui32_fromNegOverflow else ui32_fromPosOverflow,
                     softfloat_raiseFlags softfloat_flag_invalid s);
          shiftDist = 0x433 - expn
      in if 53 \<le> shiftDist then (0, if exact \<and> word_of_int expn OR sig \<noteq> 0 then inexact else s)
         else if sign \<or> shiftDist < 21 then invalid
         else let sig = sig OR 0x0010000000000000;
                  z = drop_bit (nat shiftDist) sig
              in (z, if exact \<and> push_bit (nat shiftDist) z \<noteq> sig then inexact else s))"

definition f64_to_i64_r_minMag :: "u64 \<Rightarrow> bool \<Rightarrow> softfloat_state \<Rightarrow> int \<times> softfloat_state" where
  "f64_to_i64_r_minMag a exact s =
     (let uiA = a; sign = signF64UI uiA; expn = expF64UI uiA; sig = fracF64UI uiA;
          inexact = softfloat_raiseFlags softfloat_flag_inexact s;
          invalid = (if expn = 0x7FF \<and> sig \<noteq> 0 then i64_fromNaN
                     else if sign then i64_fromNegOverflow else i64_fromPosOverflow,
                     softfloat_raiseFlags softfloat_flag_invalid s);
          shiftDist = 0x433 - expn
      in if shiftDist \<le> 0
         then (if shiftDist < - 10
               then (if uiA = packToF64UI True 0x43E 0 then (- 0x7FFFFFFFFFFFFFFF - 1, s) else invalid)
               else let sig = sig OR 0x0010000000000000;
                        absZ = sint (push_bit (nat (- shiftDist)) sig)
                    in (if sign then - absZ else absZ, s))
         else if 53 \<le> shiftDist then (0, if exact \<and> word_of_int expn OR sig \<noteq> 0 then inexact else s)
         else let sig = sig OR 0x0010000000000000;
                  absZ = sint (drop_bit (nat shiftDist) sig)
              in (if sign then - absZ else absZ,
                  if exact \<and> push_bit (nat shiftDist) (word_of_int absZ) \<noteq> sig then inexact else s))"

definition f64_to_ui64_r_minMag :: "u64 \<Rightarrow> bool \<Rightarrow> softfloat_state \<Rightarrow> u64 \<times> softfloat_state" where
  "f64_to_ui64_r_minMag a exact s =
     (let uiA = a; sign = signF64UI uiA; expn = expF64UI uiA; sig = fracF64UI uiA;
          inexact = softfloat_raiseFlags softfloat_flag_inexact s;
          invalid = (if expn = 0x7FF \<and> sig \<noteq> 0 then ui64_fromNaN
                     else if sign then ui64_fromNegOverflow else ui64_fromPosOverflow,
                     softfloat_raiseFlags softfloat_flag_invalid s);
          shiftDist = 0x433 - expn
      in if 53 \<le> shiftDist then (0, if exact \<and> word_of_int expn OR sig \<noteq> 0 then inexact else s)
         else if sign then invalid
         else if shiftDist \<le> 0
         then (if shiftDist < - 11 then invalid
               else (push_bit (nat (- shiftDist)) (sig OR 0x0010000000000000), s))
         else let sig = sig OR 0x0010000000000000;
                  z = drop_bit (nat shiftDist) sig
              in (z, if exact \<and> push_bit (nat ((- shiftDist) AND 63)) sig \<noteq> 0 then inexact else s))"

subsection \<open>Truncation of a shifted significand\<close>

lemma to_int_trunc:
  assumes X: "X = real n / 2 ^ d"
    and range: "lo \<le> (if neg then - int (n div 2 ^ d) else int (n div 2 ^ d))"
      "(if neg then - int (n div 2 ^ d) else int (n div 2 ^ d)) \<le> hi"
  shows "to_int lo hi RTZ exact neg X s = (if neg then - int (n div 2 ^ d) else int (n div 2 ^ d),
    if exact \<and> n mod 2 ^ d \<noteq> 0 then softfloat_raiseFlags softfloat_flag_inexact s else s)"
proof -
  have "rnd RTZ neg X = int (n div 2 ^ d)" by (simp add: X rnd_nat nrnd_def)
  moreover have "X \<notin> \<int> \<longleftrightarrow> n mod 2 ^ d \<noteq> 0" unfolding X by (rule frac_half_iff(4))
  ultimately show ?thesis using range unfolding to_int_def Let_def by (simp only: simp_thms if_True)
qed

lemma to_int_small:
  assumes "0 \<le> X" "X < 1" "lo \<le> 0" "0 \<le> hi"
  shows "to_int lo hi RTZ exact neg X s = (0, if exact \<and> X \<noteq> 0 then softfloat_raiseFlags softfloat_flag_inexact s else s)"
proof -
  have "\<lfloor>X\<rfloor> = 0" using assms by (simp add: floor_eq_iff)
  then have "rnd RTZ neg X = 0" "X \<notin> \<int> \<longleftrightarrow> X \<noteq> 0" by (auto simp: rnd_def elim!: Ints_cases)
  then show ?thesis using assms(3,4) unfolding to_int_def Let_def
    by (simp only: minus_zero if_cancel simp_thms if_True)
qed

lemma to_int_neg_ge_1:
  assumes "1 \<le> X"
  shows "to_int 0 hi RTZ exact True X s = (0, softfloat_raiseFlags softfloat_flag_invalid s)"
proof -
  have "1 \<le> rnd RTZ True X" using assms by (simp add: rnd_def)
  then show ?thesis by (simp add: to_int_def)
qed

lemma to_int_nat:
  "to_int lo hi m exact neg (real n) s =
     (if lo \<le> (if neg then - int n else int n) \<and> (if neg then - int n else int n) \<le> hi
      then (if neg then - int n else int n, s)
      else (if neg then lo else hi, softfloat_raiseFlags softfloat_flag_invalid s))"
proof -
  have "rnd m neg (real n) = int n" using rnd_of_int [of m neg "int n"] by simp
  moreover have "real n \<in> \<int>" by simp
  ultimately show ?thesis unfolding to_int_def Let_def by (simp only: simp_thms if_False)
qed

lemma shift_back_iff:
  fixes w :: u64
  assumes "d < 64"
  shows "push_bit d (drop_bit d w) \<noteq> w \<longleftrightarrow> unat w mod 2 ^ d \<noteq> 0"
proof -
  have "unat w div 2 ^ d * 2 ^ d \<le> unat w" by (rule div_times_less_eq_dividend)
  also have "unat w < 2 ^ LENGTH(64)" by (rule unat_lt_pow)
  finally have "unat (push_bit d (drop_bit d w)) = unat w div 2 ^ d * 2 ^ d"
    by (subst unat_shl_less) (simp_all add: unat_shr)
  then show ?thesis
    unfolding word_unat_eq_iff using div_mult_mod_eq [of "unat w" "2 ^ d"] by simp linarith
qed

lemma shift_back_sint_iff:
  fixes w :: u64
  assumes "d < 64"
  shows "push_bit d (word_of_int (sint (drop_bit d w))) \<noteq> w \<longleftrightarrow> unat w mod 2 ^ d \<noteq> 0"
  using shift_back_iff [OF assms, of w] by simp

lemma sint_small: "unat w < 2 ^ 63 \<Longrightarrow> sint w = int (unat w)" for w :: u64
  by (simp add: sint_two_complement)

lemma truncate_signed:
  fixes g :: u64
  assumes g: "unat g = n" and X: "X = real n / 2 ^ d"
    and z: "n div 2 ^ d < 2 ^ k" "k \<le> 63" "lo \<le> - (2 ^ k) + 1" "2 ^ k - 1 \<le> hi" and e: "e \<longleftrightarrow> n mod 2 ^ d \<noteq> 0"
  shows "(if neg then - sint (drop_bit d g) else sint (drop_bit d g),
      if exact \<and> e then softfloat_raiseFlags softfloat_flag_inexact s else s) = to_int lo hi RTZ exact neg X s"
proof -
  have "n div 2 ^ d < 2 ^ 63" using z(1) power_increasing [OF z(2), of "2::nat"] by simp
  then have i: "sint (drop_bit d g) = int (n div 2 ^ d)"
    by (subst sint_small) (simp_all only: unat_shr g)
  define v where "v = int (n div 2 ^ d)"
  then have "0 \<le> v" "v < 2 ^ k" using z(1) by (simp_all only: v_def of_nat_less_numeral_power_cancel_iff of_nat_0_le_iff)
  then have "lo \<le> (if neg then - int (n div 2 ^ d) else int (n div 2 ^ d))"
    "(if neg then - int (n div 2 ^ d) else int (n div 2 ^ d)) \<le> hi" using z(3,4) unfolding v_def [symmetric] by auto
  note r = to_int_trunc [OF X this]
  show ?thesis unfolding r e i ..
qed

lemma truncate_unsigned:
  fixes g :: u64
  assumes g: "unat g = n" and X: "X = real n / 2 ^ d" and z: "n div 2 ^ d < 2 ^ k" "2 ^ k - 1 \<le> hi" "lo \<le> 0"
    and e: "e \<longleftrightarrow> n mod 2 ^ d \<noteq> 0"
  shows "apfst uint (drop_bit d g, if exact \<and> e then softfloat_raiseFlags softfloat_flag_inexact s else s)
    = to_int lo hi RTZ exact False X s"
proof -
  define v where "v = int (n div 2 ^ d)"
  then have "0 \<le> v" "v < 2 ^ k" using z(1) by (simp_all only: v_def of_nat_less_numeral_power_cancel_iff of_nat_0_le_iff)
  then have "lo \<le> (if False then - int (n div 2 ^ d) else int (n div 2 ^ d))"
    "(if False then - int (n div 2 ^ d) else int (n div 2 ^ d)) \<le> hi" using z(2,3) unfolding v_def [symmetric] by auto
  note r = to_int_trunc [OF X this]
  show ?thesis unfolding r e by (simp add: uint_nat unat_shr g)
qed

context float_format
begin

lemma mval_lt_1:
  assumes "q + expUI a + int fb \<le> 0"
  shows "mval fb q (magn a) < 1"
proof -
  have "real (lsig a) < real (2 ^ Suc fb)" using lsig_less by (simp only: of_nat_less_iff)
  then have "mval fb q (magn a) < real (2 ^ Suc fb) * 2 powi (q + expUI a - 1)" by (simp add: mval_lsig)
  also have "\<dots> = 2 powi (int (Suc fb)) * 2 powi (q + expUI a - 1)" unfolding powi_nat by simp
  also have "\<dots> = 2 powi (int (Suc fb) + (q + expUI a - 1))" by (rule powi_split [symmetric])
  also have "\<dots> \<le> 2 powi 0" using assms by (intro power_int_increasing) simp_all
  also have "\<dots> = (1 :: real)" by simp
  finally show ?thesis .
qed

lemma exp_or_frac_iff: "(word_of_int (expUI a) :: u64) OR fracUI a \<noteq> 0 \<longleftrightarrow> mval fb q (magn a) \<noteq> 0"
proof -
  have "unat (word_of_int (expUI a) :: u64) = nat (expUI a)"
  proof (rule unat_word_of_int_less)
    have "(2::int) ^ ebit \<le> 2 ^ 64" using width(1) by (intro power_increasing) simp_all
    then show "expUI a < 2 ^ LENGTH(64)" using expUI_bounds(2) [of a] by simp
  qed (rule expUI_bounds)
  then have "(word_of_int (expUI a) :: u64) = 0 \<longleftrightarrow> expUI a = 0"
    using expUI_bounds(1) [of a] by (metis nat_0_iff order_antisym unat_eq_zero order_refl)
  then show ?thesis by (simp add: magn_eq_0_iff or_eq_0_iff)
qed

end

subsection \<open>Conversion of 32-bit floats\<close>

lemma f32_min_int_iff:
  assumes "0 \<le> e" "e < 256"
  shows "(ucast a :: u64) = packToF32UI True e 0 \<longleftrightarrow> f32_sign a \<and> expF32UI (ucast a) = e \<and> fracF32UI (ucast a) = 0"
proof
  assume "(ucast a :: u64) = packToF32UI True e 0"
  then show "f32_sign a \<and> expF32UI (ucast a) = e \<and> fracF32UI (ucast a) = 0"
    using f32.fields_pack [of e 0 True] assms by (simp flip: f32_sign_ucast)
next
  assume "f32_sign a \<and> expF32UI (ucast a) = e \<and> fracF32UI (ucast a) = 0"
  then show "(ucast a :: u64) = packToF32UI True e 0" using f32.pack_fields [of "ucast a"] by simp
qed

lemma f32_trunc_value:
  assumes "int d + e = int k + 150" and "expF32UI u = e" "0 < e"
  shows "mval 23 (- 149) (f32.magn u) = real ((unat (fracF32UI u) + 2 ^ 23) * 2 ^ k) / 2 ^ d"
  using f32.mval_csig [of u k "nat (int k + 150)" "- 149" d] assms by (simp add: f32.csig_def)

lemma f32_to_i32_r_minMag_eq:
  "f32_to_i32_r_minMag a exact s = to_int (- (2 ^ 31)) (2 ^ 31 - 1) RTZ exact
     (f32_sign a \<and> \<not> f32_isNaN a) \<bar>f32_val a\<bar> s"
proof -
  define u :: u64 where "u = ucast a"
  define d where "d = 0x9E - expF32UI u"
  have nan: "expF32UI u = 0xFF \<and> fracF32UI u \<noteq> 0 \<longleftrightarrow> f32_isNaN a" "signF32UI u = f32_sign a"
    unfolding u_def f32_class_exp by simp_all
  have no: "f32_isNaN a \<Longrightarrow> d < 0" unfolding nan(1) [symmetric] d_def by simp
  note unf = f32_to_i32_r_minMag_def Let_def u_def [symmetric] d_def [symmetric] nan f32_abs_val f32.exp_or_frac_iff [where q = "- 149"]
  consider "32 \<le> d" | "d < 0" | "d = 0" | "0 < d" "d < 32" by linarith
  then show ?thesis
  proof cases
    case 1
    have "mval 23 (- 149) (f32.magn u) < 1" using 1 by (intro f32.mval_lt_1) (simp add: d_def)
    then show ?thesis using 1 unfolding unf by (simp add: to_int_small)
  next
    case 2
    have "2 ^ 32 \<le> mval 23 (- 149) (f32.magn u)" using 2 by (intro f32.mval_csig_big [where D = 159]) (simp_all add: d_def)
    moreover have "u \<noteq> packToF32UI True 0x9E 0" using 2 f32_min_int_iff [of "0x9E" a] by (simp add: d_def u_def)
    ultimately show ?thesis using 2 unfolding unf by (simp add: to_int_saturates [where k = 32])
  next
    case 3
    then have nn: "\<not> f32_isNaN a" using no by auto
    define n where "n = (unat (fracF32UI u) + 2 ^ 23) * 2 ^ 8"
    have X: "mval 23 (- 149) (f32.magn u) = real n"
      unfolding n_def using 3 f32_trunc_value [of 0 158 8 u] by (simp add: d_def)
    have e: "expF32UI u = 0x9E" using 3 by (simp add: d_def)
    have m: "u = packToF32UI True 0x9E 0 \<longleftrightarrow> f32_sign a \<and> n = 2 ^ 31"
      using e f32_min_int_iff [of "0x9E" a] by (auto simp: n_def u_def unat_eq_zero)
    have "2 ^ 31 \<le> n" by (simp add: n_def)
    then show ?thesis using 3 nn unfolding unf X to_int_nat m by auto
  next
    case 4
    then have nn: "\<not> f32_isNaN a" using no by auto
    define n where "n = (unat (fracF32UI u) + 2 ^ 23) * 2 ^ 8"
    have X: "mval 23 (- 149) (f32.magn u) = real n / 2 ^ nat d"
      unfolding n_def using 4 by (intro f32_trunc_value [of _ "expF32UI u"]) (simp_all add: d_def)
    have n: "unat (push_bit 8 (fracF32UI u OR 0x00800000)) = n" "n < 2 ^ 32"
      using f32.fracUI_less [of u] unat_or_hidden [of "fracF32UI u" 23 "0x00800000"]
        unat_shl_less [of "fracF32UI u OR 0x00800000" 8] by (simp_all add: n_def)
    have "n < 2 ^ 31 * 2 ^ nat d" using n(2) 4(1) self_le_power [of "2::nat" "nat d"] by simp
    then have z: "n div 2 ^ nat d < 2 ^ 31" by (rule less_mult_imp_div_less)
    have "nat d < 64" using 4 by simp
    note b = shift_back_sint_iff [OF this, of "push_bit 8 (fracF32UI u OR 0x00800000)", unfolded n(1)]
    show ?thesis
      using 4 nn truncate_signed [OF n(1) X z _ _ _ b, of "- (2 ^ 31)" "2 ^ 31 - 1" "f32_sign a" exact s]
      unfolding unf by simp
  qed
qed

lemma f32_to_ui32_r_minMag_eq:
  "apfst uint (f32_to_ui32_r_minMag a exact s) = to_int 0 (2 ^ 32 - 1) RTZ exact
     (f32_sign a \<and> \<not> f32_isNaN a) \<bar>f32_val a\<bar> s"
proof -
  define u :: u64 where "u = ucast a"
  define d where "d = 0x9E - expF32UI u"
  have nan: "expF32UI u = 0xFF \<and> fracF32UI u \<noteq> 0 \<longleftrightarrow> f32_isNaN a" "signF32UI u = f32_sign a"
    unfolding u_def f32_class_exp by simp_all
  have no: "f32_isNaN a \<Longrightarrow> d < 0" unfolding nan(1) [symmetric] d_def by simp
  note unf = f32_to_ui32_r_minMag_def Let_def u_def [symmetric] d_def [symmetric] nan f32_abs_val f32.exp_or_frac_iff [where q = "- 149"]
  consider "32 \<le> d" | "d < 0" | "0 \<le> d" "d < 32" by linarith
  then show ?thesis
  proof cases
    case 1
    have "mval 23 (- 149) (f32.magn u) < 1" using 1 by (intro f32.mval_lt_1) (simp add: d_def)
    then show ?thesis using 1 unfolding unf by (simp add: to_int_small)
  next
    case 2
    have "2 ^ 32 \<le> mval 23 (- 149) (f32.magn u)" using 2 by (intro f32.mval_csig_big [where D = 159]) (simp_all add: d_def)
    then show ?thesis using 2 unfolding unf by (simp add: to_int_saturates [where k = 32])
  next
    case 3
    then have nn: "\<not> f32_isNaN a" using no by auto
    define n where "n = (unat (fracF32UI u) + 2 ^ 23) * 2 ^ 8"
    have X: "mval 23 (- 149) (f32.magn u) = real n / 2 ^ nat d"
      unfolding n_def using 3 by (intro f32_trunc_value [of _ "expF32UI u"]) (simp_all add: d_def)
    have n: "unat (push_bit 8 (fracF32UI u OR 0x00800000)) = n" "n < 2 ^ 32"
      using f32.fracUI_less [of u] unat_or_hidden [of "fracF32UI u" 23 "0x00800000"]
        unat_shl_less [of "fracF32UI u OR 0x00800000" 8] by (simp_all add: n_def)
    have z: "n div 2 ^ nat d < 2 ^ 32" using n(2) by (rule le_less_trans [OF div_le_dividend])
    show ?thesis
    proof (cases "f32_sign a")
      case True
      have "1 \<le> mval 23 (- 149) (f32.magn u)"
        using f32.mval_csig_big [of u 127 0 "- 149"] 3 by (simp add: d_def)
      then have "to_int 0 (2 ^ 32 - 1) RTZ exact True (mval 23 (- 149) (f32.magn u)) s
          = (0, softfloat_raiseFlags softfloat_flag_invalid s)" by (rule to_int_neg_ge_1)
      then show ?thesis using 3 nn True unfolding unf by simp
    next
      case False
      have "nat d < 64" using 3 by simp
      note b = shift_back_iff [OF this, of "push_bit 8 (fracF32UI u OR 0x00800000)", unfolded n(1)]
      show ?thesis
        using 3 nn False truncate_unsigned [OF n(1) X z _ _ b, of "2 ^ 32 - 1" 0 exact s] unfolding unf by simp
    qed
  qed
qed

text \<open>The inexactness test of the conversions to 64 bits looks at the bits shifted out of a 32-bit word.\<close>

lemma low_bits_f32:
  fixes sig :: u64
  assumes d: "0 \<le> d" "d < 64"
  shows "40 - d < 0 \<and> (ucast (push_bit (nat ((40 - d) AND 31)) sig) :: u32) \<noteq> 0 \<longleftrightarrow>
    unat sig * 2 ^ 40 mod 2 ^ nat d \<noteq> 0"
proof (cases "d \<le> 40")
  case True
  then have "(2::nat) ^ nat d dvd 2 ^ 40" by (intro le_imp_power_dvd) simp
  then show ?thesis using True by (simp add: mod_eq_0_iff_dvd)
next
  case False
  define k where "k = nat (d - 40)"
  have k: "0 < k" "k < 24" "nat d = k + 40" "40 - d = - int k" using False d by (simp_all add: k_def)
  have "(- int k) AND 31 = take_bit 5 (- int k)" by (simp add: take_bit_eq_mask mask_eq_exp_minus_1)
  also have "\<dots> = (- int k) mod 32" by (simp add: take_bit_eq_mod)
  also have "\<dots> = 32 - int k" using k(1,2) zmod_zminus1_eq_if [of "int k" 32] by simp
  finally have a: "nat ((40 - d) AND 31) = 32 - k" by (simp add: k)
  define c where "c = 32 - k"
  have c: "(2::nat) ^ 32 = 2 ^ k * 2 ^ c" using k(2) by (simp add: c_def flip: power_add)
  have c64: "(2::nat) ^ 32 dvd 2 ^ 64" by (simp add: dvd_def) 
  have "unat (ucast (push_bit c sig) :: u32) = unat sig * 2 ^ c mod 2 ^ 32"
    unfolding unat_ucast_mod unat_shl using mod_mod_cancel [OF c64, of "unat sig * 2 ^ c"] by simp
  also have "\<dots> = unat sig mod 2 ^ k * 2 ^ c" unfolding c by (simp only: mult_mod_left)
  finally have "(ucast (push_bit c sig) :: u32) \<noteq> 0 \<longleftrightarrow> unat sig mod 2 ^ k \<noteq> 0"
    by (simp add: word_unat_eq_iff)
  moreover have "unat sig * 2 ^ 40 mod 2 ^ nat d = unat sig mod 2 ^ k * 2 ^ 40"
    unfolding k power_add by (simp only: mult_mod_left)
  ultimately show ?thesis using False unfolding a c_def by simp
qed

lemma low_bits_f64:
  fixes sig :: u64
  assumes d: "0 < d" "d < 64"
  shows "push_bit (nat ((- d) AND 63)) sig \<noteq> 0 \<longleftrightarrow> unat sig mod 2 ^ nat d \<noteq> 0"
proof -
  have "(- d) AND 63 = take_bit 6 (- d)" by (simp add: take_bit_eq_mask mask_eq_exp_minus_1)
  also have "\<dots> = (- d) mod 64" by (simp add: take_bit_eq_mod)
  also have "\<dots> = 64 - d" using d zmod_zminus1_eq_if [of d 64] by simp
  finally have "nat ((- d) AND 63) = 64 - nat d" using d by (simp add: nat_diff_distrib)
  then show ?thesis using shl_lost_zero_iff [of "nat d" sig] d by simp
qed

lemma f32_to_i64_r_minMag_eq:
  "f32_to_i64_r_minMag a exact s = to_int (- (2 ^ 63)) (2 ^ 63 - 1) RTZ exact
     (f32_sign a \<and> \<not> f32_isNaN a) \<bar>f32_val a\<bar> s"
proof -
  define u :: u64 where "u = ucast a"
  define d where "d = 0xBE - expF32UI u"
  have ends: "i64_fromNegOverflow = - (2 ^ 63)" "i64_fromPosOverflow = 2 ^ 63 - 1" "i64_fromNaN = 2 ^ 63 - 1"
    by (simp_all add: i64_fromNegOverflow_def i64_fromPosOverflow_def i64_fromNaN_def)
  have nan: "expF32UI u = 0xFF \<and> fracF32UI u \<noteq> 0 \<longleftrightarrow> f32_isNaN a" "signF32UI u = f32_sign a"
    unfolding u_def f32_class_exp by simp_all
  have no: "f32_isNaN a \<Longrightarrow> d < 0" unfolding nan(1) [symmetric] d_def by simp
  note unf = ends f32_to_i64_r_minMag_def Let_def u_def [symmetric] d_def [symmetric] nan f32_abs_val f32.exp_or_frac_iff [where q = "- 149"]
  consider "64 \<le> d" | "d < 0" | "d = 0" | "0 < d" "d < 64" by linarith
  then show ?thesis
  proof cases
    case 1
    have "mval 23 (- 149) (f32.magn u) < 1" using 1 by (intro f32.mval_lt_1) (simp add: d_def)
    then show ?thesis using 1 unfolding unf by (simp add: to_int_small)
  next
    case 2
    have "2 ^ 64 \<le> mval 23 (- 149) (f32.magn u)" using 2 by (intro f32.mval_csig_big [where D = 191]) (simp_all add: d_def)
    moreover have "u \<noteq> packToF32UI True 0xBE 0" using 2 f32_min_int_iff [of "0xBE" a] by (simp add: d_def u_def)
    ultimately show ?thesis using 2 unfolding unf by (simp add: to_int_saturates [where k = 64])
  next
    case 3
    then have nn: "\<not> f32_isNaN a" using no by auto
    define n where "n = (unat (fracF32UI u) + 2 ^ 23) * 2 ^ 40"
    have X: "mval 23 (- 149) (f32.magn u) = real n"
      unfolding n_def using 3 f32_trunc_value [of 0 190 40 u] by (simp add: d_def)
    have e: "expF32UI u = 0xBE" using 3 by (simp add: d_def)
    have m: "u = packToF32UI True 0xBE 0 \<longleftrightarrow> f32_sign a \<and> n = 2 ^ 63"
      using e f32_min_int_iff [of "0xBE" a] by (auto simp: n_def u_def unat_eq_zero)
    have "2 ^ 63 \<le> n" by (simp add: n_def)
    then show ?thesis using 3 nn unfolding unf X to_int_nat m by auto
  next
    case 4
    then have nn: "\<not> f32_isNaN a" using no by auto
    define n where "n = (unat (fracF32UI u) + 2 ^ 23) * 2 ^ 40"
    have X: "mval 23 (- 149) (f32.magn u) = real n / 2 ^ nat d"
      unfolding n_def using 4 by (intro f32_trunc_value [of _ "expF32UI u"]) (simp_all add: d_def)
    have n: "unat (push_bit 40 (fracF32UI u OR 0x00800000)) = n" "n < 2 ^ 64"
      using f32.fracUI_less [of u] unat_or_hidden [of "fracF32UI u" 23 "0x00800000"]
        unat_shl_less [of "fracF32UI u OR 0x00800000" 40] by (simp_all add: n_def)
    have "n < 2 ^ 63 * 2 ^ nat d" using n(2) 4(1) self_le_power [of "2::nat" "nat d"] by simp
    then have z: "n div 2 ^ nat d < 2 ^ 63" by (rule less_mult_imp_div_less)
    have h: "unat (fracF32UI u OR 0x00800000) = unat (fracF32UI u) + 2 ^ 23"
      using f32.fracUI_less [of u] by (intro unat_or_hidden) simp_all
    have "0 \<le> d" "d < 64" using 4 by simp_all
    note b = low_bits_f32 [OF this, of "fracF32UI u OR 0x00800000", unfolded h, folded n_def]
    show ?thesis
      using 4 nn truncate_signed [OF n(1) X z _ _ _ b, of "- (2 ^ 63)" "2 ^ 63 - 1" "f32_sign a" exact s]
      unfolding unf by simp
  qed
qed

lemma f32_to_ui64_r_minMag_eq:
  "apfst uint (f32_to_ui64_r_minMag a exact s) = to_int 0 (2 ^ 64 - 1) RTZ exact
     (f32_sign a \<and> \<not> f32_isNaN a) \<bar>f32_val a\<bar> s"
proof -
  define u :: u64 where "u = ucast a"
  define d where "d = 0xBE - expF32UI u"
  have nan: "expF32UI u = 0xFF \<and> fracF32UI u \<noteq> 0 \<longleftrightarrow> f32_isNaN a" "signF32UI u = f32_sign a"
    unfolding u_def f32_class_exp by simp_all
  have no: "f32_isNaN a \<Longrightarrow> d < 0" unfolding nan(1) [symmetric] d_def by simp
  note unf = f32_to_ui64_r_minMag_def Let_def u_def [symmetric] d_def [symmetric] nan f32_abs_val f32.exp_or_frac_iff [where q = "- 149"]
  consider "64 \<le> d" | "d < 0" | "0 \<le> d" "d < 64" by linarith
  then show ?thesis
  proof cases
    case 1
    have "mval 23 (- 149) (f32.magn u) < 1" using 1 by (intro f32.mval_lt_1) (simp add: d_def)
    then show ?thesis using 1 unfolding unf by (simp add: to_int_small)
  next
    case 2
    have "2 ^ 64 \<le> mval 23 (- 149) (f32.magn u)" using 2 by (intro f32.mval_csig_big [where D = 191]) (simp_all add: d_def)
    then show ?thesis using 2 unfolding unf by (simp add: to_int_saturates [where k = 64])
  next
    case 3
    then have nn: "\<not> f32_isNaN a" using no by auto
    define n where "n = (unat (fracF32UI u) + 2 ^ 23) * 2 ^ 40"
    have X: "mval 23 (- 149) (f32.magn u) = real n / 2 ^ nat d"
      unfolding n_def using 3 by (intro f32_trunc_value [of _ "expF32UI u"]) (simp_all add: d_def)
    have n: "unat (push_bit 40 (fracF32UI u OR 0x00800000)) = n" "n < 2 ^ 64"
      using f32.fracUI_less [of u] unat_or_hidden [of "fracF32UI u" 23 "0x00800000"]
        unat_shl_less [of "fracF32UI u OR 0x00800000" 40] by (simp_all add: n_def)
    have z: "n div 2 ^ nat d < 2 ^ 64" using n(2) by (rule le_less_trans [OF div_le_dividend])
    show ?thesis
    proof (cases "f32_sign a")
      case True
      have "1 \<le> mval 23 (- 149) (f32.magn u)"
        using f32.mval_csig_big [of u 127 0 "- 149"] 3 by (simp add: d_def)
      then have "to_int 0 (2 ^ 64 - 1) RTZ exact True (mval 23 (- 149) (f32.magn u)) s
          = (0, softfloat_raiseFlags softfloat_flag_invalid s)" by (rule to_int_neg_ge_1)
      then show ?thesis using 3 nn True unfolding unf by simp
    next
      case False
      have h: "unat (fracF32UI u OR 0x00800000) = unat (fracF32UI u) + 2 ^ 23"
        using f32.fracUI_less [of u] by (intro unat_or_hidden) simp_all
      have "0 \<le> d" "d < 64" using 3 by simp_all
      note b = low_bits_f32 [OF this, of "fracF32UI u OR 0x00800000", unfolded h, folded n_def]
      show ?thesis
        using 3 nn False truncate_unsigned [OF n(1) X z _ _ b, of "2 ^ 64 - 1" 0 exact s] unfolding unf by simp
    qed
  qed
qed

subsection \<open>Conversion of 64-bit floats\<close>

lemma f64_min_int_iff:
  assumes "0 \<le> e" "e < 2048"
  shows "a = packToF64UI True e 0 \<longleftrightarrow> f64_sign a \<and> expF64UI a = e \<and> fracF64UI a = 0"
proof
  assume "a = packToF64UI True e 0"
  then show "f64_sign a \<and> expF64UI a = e \<and> fracF64UI a = 0"
    using f64.fields_pack [of e 0 True] assms by (simp flip: f64_sign_eq)
next
  assume "f64_sign a \<and> expF64UI a = e \<and> fracF64UI a = 0"
  then show "a = packToF64UI True e 0" using f64.pack_fields [of a] by simp
qed

lemma f64_trunc_value:
  assumes "int d = 0x433 - expF64UI a" "0 < expF64UI a"
  shows "mval 52 (- 1074) (f64.magn a) = real (unat (fracF64UI a) + 2 ^ 52) / 2 ^ d"
  using f64.mval_csig [of a 0 1075 "- 1074" d] assms by (simp add: f64.csig_def)

lemma f64_shl_value:
  assumes "int k = expF64UI a - 0x433"
  shows "mval 52 (- 1074) (f64.magn a) = real ((unat (fracF64UI a) + 2 ^ 52) * 2 ^ k)"
  using f64.mval_csig [of a k "1075 + k" "- 1074" 0] assms by (simp add: f64.csig_def)

lemma f64_to_i32_r_minMag_eq:
  "f64_to_i32_r_minMag a exact s = to_int (- (2 ^ 31)) (2 ^ 31 - 1) RTZ exact
     (f64_sign a \<and> \<not> f64_isNaN a) \<bar>f64_val a\<bar> s"
proof -
  define d where "d = 0x433 - expF64UI a"
  have nan: "expF64UI a = 0x7FF \<and> fracF64UI a \<noteq> 0 \<longleftrightarrow> f64_isNaN a" "signF64UI a = f64_sign a"
    unfolding f64_class_exp by simp_all
  have no: "f64_isNaN a \<Longrightarrow> d < - 11" unfolding nan(1) [symmetric] d_def by simp
  define g where "g = fracF64UI a OR 0x0010000000000000"
  define n where "n = unat (fracF64UI a) + 2 ^ 52"
  have f: "unat (fracF64UI a) < 2 ^ 52" using f64.fracUI_less [of a] by simp
  have n: "unat g = n" "n < 2 ^ 53" using unat_or_hidden [of "fracF64UI a" 52 "0x0010000000000000"] f by (simp_all add: n_def g_def)
  note unf = f64_to_i32_r_minMag_def Let_def d_def [symmetric] g_def [symmetric] nan f64_abs_val f64.exp_or_frac_iff [where q = "- 1074"]
  consider "53 \<le> d" | "d < 21" | "d = 21" | "22 \<le> d" "d < 53" by linarith
  then show ?thesis
  proof cases
    case 1
    have "mval 52 (- 1074) (f64.magn a) < 1" using 1 by (intro f64.mval_lt_1) (simp add: d_def)
    then show ?thesis using 1 unfolding unf by (simp add: to_int_small)
  next
    case 2
    have "2 ^ 32 \<le> mval 52 (- 1074) (f64.magn a)" using 2 by (intro f64.mval_csig_big [where D = 1055]) (simp_all add: d_def)
    moreover have "expF64UI a \<noteq> 0x41E" using 2 by (simp add: d_def)
    ultimately show ?thesis using 2 unfolding unf by (simp add: to_int_saturates [where k = 32])
  next
    case 3
    then have nn: "\<not> f64_isNaN a" using no by auto
    have e: "expF64UI a = 0x41E" using 3 by (simp add: d_def)
    have X: "mval 52 (- 1074) (f64.magn a) = real n / 2 ^ 21"
      unfolding n_def using 3 by (intro f64_trunc_value) (simp_all add: d_def)
    have q: "n div 2 ^ 21 = unat (fracF64UI a) div 2 ^ 21 + 2 ^ 31" "n mod 2 ^ 21 = unat (fracF64UI a) mod 2 ^ 21"
      using div_mult_self1 [of "2 ^ 21" "unat (fracF64UI a)" "2 ^ 31"] mod_mult_self1 [of "unat (fracF64UI a)" "2 ^ 31" "2 ^ 21"]
      by (simp_all add: n_def)
    have c: "fracF64UI a < 0x200000 \<longleftrightarrow> unat (fracF64UI a) div 2 ^ 21 = 0"
      by (simp add: word_less_nat_alt div_eq_0_iff)
    have r: "rnd RTZ neg (real n / 2 ^ 21) = int (unat (fracF64UI a) div 2 ^ 21) + 2 ^ 31" for neg
      unfolding rnd_nat nrnd_def q by simp
    have i: "real n / 2 ^ 21 \<notin> \<int> \<longleftrightarrow> unat (fracF64UI a) mod 2 ^ 21 \<noteq> 0" using frac_half_iff(4) [of n 21] by (simp only: q)
    have m: "unat (fracF64UI a) div 2 ^ 21 = 0 \<Longrightarrow> unat (fracF64UI a) mod 2 ^ 21 \<noteq> 0 \<longleftrightarrow> fracF64UI a \<noteq> 0"
      using div_mult_mod_eq [of "unat (fracF64UI a)" "2 ^ 21"] by (simp add: unat_eq_zero)
    define k where "k = unat (fracF64UI a) div 2 ^ 21"
    show ?thesis
      using 3 nn e m unfolding unf X to_int_def r i c k_def [symmetric]
      by (cases "f64_sign a"; cases "k = 0") auto
  next
    case 4
    then have nn: "\<not> f64_isNaN a" using no by auto
    have X: "mval 52 (- 1074) (f64.magn a) = real n / 2 ^ nat d"
      unfolding n_def using 4 by (intro f64_trunc_value) (simp_all add: d_def)
    have "(2::nat) ^ 22 \<le> 2 ^ nat d" using 4 by (intro power_increasing) simp_all
    then have "n < 2 ^ 31 * 2 ^ nat d" using n(2) by simp
    then have z: "n div 2 ^ nat d < 2 ^ 31" by (rule less_mult_imp_div_less)
    have "nat d < 64" using 4 by simp
    note b = shift_back_sint_iff [OF this, of g, unfolded n(1)]
    show ?thesis
      using 4 nn truncate_signed [OF n(1) X z _ _ _ b, of "- (2 ^ 31)" "2 ^ 31 - 1" "f64_sign a" exact s]
      unfolding unf by simp
  qed
qed

lemma f64_to_ui32_r_minMag_eq:
  "apfst uint (f64_to_ui32_r_minMag a exact s) = to_int 0 (2 ^ 32 - 1) RTZ exact
     (f64_sign a \<and> \<not> f64_isNaN a) \<bar>f64_val a\<bar> s"
proof -
  define d where "d = 0x433 - expF64UI a"
  have nan: "expF64UI a = 0x7FF \<and> fracF64UI a \<noteq> 0 \<longleftrightarrow> f64_isNaN a" "signF64UI a = f64_sign a"
    unfolding f64_class_exp by simp_all
  have no: "f64_isNaN a \<Longrightarrow> d < - 11" unfolding nan(1) [symmetric] d_def by simp
  define g where "g = fracF64UI a OR 0x0010000000000000"
  define n where "n = unat (fracF64UI a) + 2 ^ 52"
  have f: "unat (fracF64UI a) < 2 ^ 52" using f64.fracUI_less [of a] by simp
  have n: "unat g = n" "n < 2 ^ 53" using unat_or_hidden [of "fracF64UI a" 52 "0x0010000000000000"] f by (simp_all add: n_def g_def)
  note unf = f64_to_ui32_r_minMag_def Let_def d_def [symmetric] g_def [symmetric] nan f64_abs_val f64.exp_or_frac_iff [where q = "- 1074"]
  consider "53 \<le> d" | "d < 21" | "21 \<le> d" "d < 53" by linarith
  then show ?thesis
  proof cases
    case 1
    have "mval 52 (- 1074) (f64.magn a) < 1" using 1 by (intro f64.mval_lt_1) (simp add: d_def)
    then show ?thesis using 1 unfolding unf by (simp add: to_int_small)
  next
    case 2
    have "2 ^ 32 \<le> mval 52 (- 1074) (f64.magn a)" using 2 by (intro f64.mval_csig_big [where D = 1055]) (simp_all add: d_def)
    then show ?thesis using 2 unfolding unf by (simp add: to_int_saturates [where k = 32])
  next
    case 3
    then have nn: "\<not> f64_isNaN a" using no by auto
    have X: "mval 52 (- 1074) (f64.magn a) = real n / 2 ^ nat d"
      unfolding n_def using 3 by (intro f64_trunc_value) (simp_all add: d_def)
    have "(2::nat) ^ 21 \<le> 2 ^ nat d" using 3 by (intro power_increasing) simp_all
    then have "n < 2 ^ 32 * 2 ^ nat d" using n(2) by simp
    then have z: "n div 2 ^ nat d < 2 ^ 32" by (rule less_mult_imp_div_less)
    show ?thesis
    proof (cases "f64_sign a")
      case True
      have "1 \<le> mval 52 (- 1074) (f64.magn a)"
        using f64.mval_csig_big [of a 1023 0 "- 1074"] 3 by (simp add: d_def)
      then have "to_int 0 (2 ^ 32 - 1) RTZ exact True (mval 52 (- 1074) (f64.magn a)) s
          = (0, softfloat_raiseFlags softfloat_flag_invalid s)" by (rule to_int_neg_ge_1)
      then show ?thesis using 3 nn True unfolding unf by simp
    next
      case False
      have "nat d < 64" using 3 by simp
      note b = shift_back_iff [OF this, of g, unfolded n(1)]
      show ?thesis
        using 3 nn False truncate_unsigned [OF n(1) X z _ _ b, of "2 ^ 32 - 1" 0 exact s] unfolding unf by simp
    qed
  qed
qed

lemma f64_to_i64_r_minMag_eq:
  "f64_to_i64_r_minMag a exact s = to_int (- (2 ^ 63)) (2 ^ 63 - 1) RTZ exact
     (f64_sign a \<and> \<not> f64_isNaN a) \<bar>f64_val a\<bar> s"
proof -
  define d where "d = 0x433 - expF64UI a"
  have ends: "i64_fromNegOverflow = - (2 ^ 63)" "i64_fromPosOverflow = 2 ^ 63 - 1" "i64_fromNaN = 2 ^ 63 - 1"
    by (simp_all add: i64_fromNegOverflow_def i64_fromPosOverflow_def i64_fromNaN_def)
  have nan: "expF64UI a = 0x7FF \<and> fracF64UI a \<noteq> 0 \<longleftrightarrow> f64_isNaN a" "signF64UI a = f64_sign a"
    unfolding f64_class_exp by simp_all
  have no: "f64_isNaN a \<Longrightarrow> d < - 11" unfolding nan(1) [symmetric] d_def by simp
  define g where "g = fracF64UI a OR 0x0010000000000000"
  define n where "n = unat (fracF64UI a) + 2 ^ 52"
  have f: "unat (fracF64UI a) < 2 ^ 52" using f64.fracUI_less [of a] by simp
  have n: "unat g = n" "n < 2 ^ 53" using unat_or_hidden [of "fracF64UI a" 52 "0x0010000000000000"] f by (simp_all add: n_def g_def)
  note unf = ends f64_to_i64_r_minMag_def Let_def d_def [symmetric] g_def [symmetric] nan f64_abs_val f64.exp_or_frac_iff [where q = "- 1074"]
  consider "53 \<le> d" | "d < - 11" | "d = - 11" | "- 10 \<le> d" "d \<le> 0" | "0 < d" "d < 53" by linarith
  then show ?thesis
  proof cases
    case 1
    have "mval 52 (- 1074) (f64.magn a) < 1" using 1 by (intro f64.mval_lt_1) (simp add: d_def)
    then show ?thesis using 1 unfolding unf by (simp add: to_int_small)
  next
    case 2
    have "2 ^ 64 \<le> mval 52 (- 1074) (f64.magn a)" using 2 by (intro f64.mval_csig_big [where D = 1087]) (simp_all add: d_def)
    moreover have "a \<noteq> packToF64UI True 0x43E 0" using 2 f64_min_int_iff [of "0x43E" a] by (simp add: d_def)
    ultimately show ?thesis using 2 unfolding unf by (simp add: to_int_saturates [where k = 64])
  next
    case 3
    then have nn: "\<not> f64_isNaN a" using no by auto
    have X: "mval 52 (- 1074) (f64.magn a) = real (n * 2 ^ 11)"
      unfolding n_def using 3 by (intro f64_shl_value) (simp add: d_def)
    have e: "expF64UI a = 0x43E" using 3 by (simp add: d_def)
    have m: "a = packToF64UI True 0x43E 0 \<longleftrightarrow> f64_sign a \<and> n * 2 ^ 11 = 2 ^ 63"
      using e f64_min_int_iff [of "0x43E" a] by (auto simp: n_def unat_eq_zero)
    have "2 ^ 63 \<le> n * 2 ^ 11" by (simp add: n_def)
    then show ?thesis using 3 nn unfolding unf X to_int_nat m by auto
  next
    case 4
    then have nn: "\<not> f64_isNaN a" using no by auto
    define k where "k = nat (- d)"
    have X: "mval 52 (- 1074) (f64.magn a) = real (n * 2 ^ k)"
      unfolding n_def using 4 by (intro f64_shl_value) (simp add: d_def k_def)
    have k: "k \<le> 10" using 4 by (simp add: k_def)
    have lt: "n * 2 ^ k < 2 ^ 53 * 2 ^ 10"
      using n(2) power_increasing [OF k, of "2::nat"] by (intro mult_less_le_imp_less) (simp_all add: n_def)
    then have "unat (push_bit k g) = n * 2 ^ k" by (subst unat_shl_less) (simp_all add: n)
    then have i: "sint (push_bit k g) = int (n * 2 ^ k)" using lt by (subst sint_small) simp_all
    define v where "v = int (n * 2 ^ k)"
    have "0 \<le> v" "v < 2 ^ 63" unfolding v_def using lt by (simp_all only: of_nat_less_numeral_power_cancel_iff of_nat_0_le_iff) simp
    then show ?thesis
      using 4 nn unfolding unf X to_int_nat k_def [symmetric] i v_def [symmetric] by auto
  next
    case 5
    then have nn: "\<not> f64_isNaN a" using no by auto
    have X: "mval 52 (- 1074) (f64.magn a) = real n / 2 ^ nat d"
      unfolding n_def using 5 by (intro f64_trunc_value) (simp_all add: d_def)
    have z: "n div 2 ^ nat d < 2 ^ 53" using n(2) by (rule le_less_trans [OF div_le_dividend])
    have "nat d < 64" using 5 by simp
    note b = shift_back_sint_iff [OF this, of g, unfolded n(1)]
    show ?thesis
      using 5 nn truncate_signed [OF n(1) X z _ _ _ b, of "- (2 ^ 63)" "2 ^ 63 - 1" "f64_sign a" exact s]
      unfolding unf by simp
  qed
qed

lemma f64_to_ui64_r_minMag_eq:
  "apfst uint (f64_to_ui64_r_minMag a exact s) = to_int 0 (2 ^ 64 - 1) RTZ exact
     (f64_sign a \<and> \<not> f64_isNaN a) \<bar>f64_val a\<bar> s"
proof -
  define d where "d = 0x433 - expF64UI a"
  have nan: "expF64UI a = 0x7FF \<and> fracF64UI a \<noteq> 0 \<longleftrightarrow> f64_isNaN a" "signF64UI a = f64_sign a"
    unfolding f64_class_exp by simp_all
  have no: "f64_isNaN a \<Longrightarrow> d < - 11" unfolding nan(1) [symmetric] d_def by simp
  define g where "g = fracF64UI a OR 0x0010000000000000"
  define n where "n = unat (fracF64UI a) + 2 ^ 52"
  have f: "unat (fracF64UI a) < 2 ^ 52" using f64.fracUI_less [of a] by simp
  have n: "unat g = n" "n < 2 ^ 53" using unat_or_hidden [of "fracF64UI a" 52 "0x0010000000000000"] f by (simp_all add: n_def g_def)
  note unf = f64_to_ui64_r_minMag_def Let_def d_def [symmetric] g_def [symmetric] nan f64_abs_val f64.exp_or_frac_iff [where q = "- 1074"]
  consider "53 \<le> d" | "d < - 11" | "- 11 \<le> d" "d < 53" by linarith
  then show ?thesis
  proof cases
    case 1
    have "mval 52 (- 1074) (f64.magn a) < 1" using 1 by (intro f64.mval_lt_1) (simp add: d_def)
    then show ?thesis using 1 unfolding unf by (simp add: to_int_small)
  next
    case 2
    have "2 ^ 64 \<le> mval 52 (- 1074) (f64.magn a)" using 2 by (intro f64.mval_csig_big [where D = 1087]) (simp_all add: d_def)
    then show ?thesis using 2 unfolding unf by (simp add: to_int_saturates [where k = 64])
  next
    case 3
    then have nn: "\<not> f64_isNaN a" using no by auto
    show ?thesis
    proof (cases "f64_sign a")
      case True
      have "1 \<le> mval 52 (- 1074) (f64.magn a)"
        using f64.mval_csig_big [of a 1023 0 "- 1074"] 3 by (simp add: d_def)
      then have "to_int 0 (2 ^ 64 - 1) RTZ exact True (mval 52 (- 1074) (f64.magn a)) s
          = (0, softfloat_raiseFlags softfloat_flag_invalid s)" by (rule to_int_neg_ge_1)
      then show ?thesis using 3 nn True unfolding unf by simp
    next
      case pos: False
      show ?thesis
      proof (cases "0 < d")
        case True
        have X: "mval 52 (- 1074) (f64.magn a) = real n / 2 ^ nat d"
          unfolding n_def using 3 True by (intro f64_trunc_value) (simp_all add: d_def)
        have z: "n div 2 ^ nat d < 2 ^ 53" using n(2) by (rule le_less_trans [OF div_le_dividend])
        have "d < 64" using 3 by simp
        note b = low_bits_f64 [OF True this, of g, unfolded n(1)]
        show ?thesis
          using 3 nn pos True truncate_unsigned [OF n(1) X z _ _ b, of "2 ^ 64 - 1" 0 exact s] unfolding unf by simp
      next
        case False
        define k where "k = nat (- d)"
        have X: "mval 52 (- 1074) (f64.magn a) = real (n * 2 ^ k)"
          unfolding n_def using False by (intro f64_shl_value) (simp add: d_def k_def)
        have k: "k \<le> 11" using 3 by (simp add: k_def)
        have lt: "n * 2 ^ k < 2 ^ 53 * 2 ^ 11"
          using n(2) power_increasing [OF k, of "2::nat"] by (intro mult_less_le_imp_less) (simp_all add: n_def)
        then have "unat (push_bit k g) = n * 2 ^ k" by (subst unat_shl_less) (simp_all add: n)
        then have i: "uint (push_bit k g) = int (n * 2 ^ k)" by (simp add: uint_nat)
        define v where "v = int (n * 2 ^ k)"
        have "0 \<le> v" "v < 2 ^ 64" unfolding v_def using lt by (simp_all only: of_nat_less_numeral_power_cancel_iff of_nat_0_le_iff) simp
        then show ?thesis
          using 3 nn pos False unfolding unf X to_int_nat k_def [symmetric] i [folded v_def, symmetric] by (auto simp: v_def i)
      qed
    qed
  qed
qed

end
