(* ===== verification/SoftFloat_FromInt.thy ===== *)
theory SoftFloat_FromInt
  imports SoftFloat_ToInt
begin

text \<open>
  Conversion of integers to floats: \<^verbatim>\<open>i32_to_f32.c\<close>, \<^verbatim>\<open>ui32_to_f32.c\<close> and their relatives.  A signed argument
  is its two's complement word, read by \<open>sint\<close>.  Every conversion returns the correctly rounded value of
  its argument; those of 32-bit integers to 64-bit floats are exact.
\<close>

subsection \<open>The code\<close>

definition i32_to_f32 :: "u32 \<Rightarrow> softfloat_state \<Rightarrow> u32 \<times> softfloat_state" where
  "i32_to_f32 a s =
     (let sign = (sint a < 0)
      in if a AND 0x7FFFFFFF = 0 then (ucast (if sign then packToF32UI True 0x9E 0 else 0), s)
         else let absA = (if sign then - scast a else scast a :: u64)
              in softfloat_normRoundPackToF32 sign 0x9C absA s)"

definition i32_to_f64 :: "u32 \<Rightarrow> softfloat_state \<Rightarrow> u64 \<times> softfloat_state" where
  "i32_to_f64 a s =
     (if a = 0 then (0, s)
      else let sign = (sint a < 0);
               absA = (if sign then - scast a else scast a :: u64);
               shiftCount = int (unat (softfloat_countLeadingZeros32 (ucast absA))) + 21
           in (packToF64UI sign (0x432 - shiftCount) (push_bit (nat shiftCount) absA), s))"

definition i64_to_f32 :: "u64 \<Rightarrow> softfloat_state \<Rightarrow> u32 \<times> softfloat_state" where
  "i64_to_f32 a s =
     (let sign = (sint a < 0);
          absA = (if sign then - a else a);
          shiftCount = int (unat (softfloat_countLeadingZeros64 absA)) - 40
      in if 0 \<le> shiftCount
         then (ucast (if a \<noteq> 0 then packToF32UI sign (0x95 - shiftCount) (push_bit (nat shiftCount) absA) else 0), s)
         else let shiftCount = shiftCount + 7;
                  sig = (if shiftCount < 0 then softfloat_shortShiftRightJam64 absA (word_of_int (- shiftCount))
                         else push_bit (nat shiftCount) absA)
              in softfloat_roundPackToF32 sign (0x9C - shiftCount) sig s)"

definition i64_to_f64 :: "u64 \<Rightarrow> softfloat_state \<Rightarrow> u64 \<times> softfloat_state" where
  "i64_to_f64 a s =
     (let sign = (sint a < 0)
      in if a AND 0x7FFFFFFFFFFFFFFF = 0 then (if sign then packToF64UI True 0x43E 0 else 0, s)
         else let absA = (if sign then - a else a)
              in softfloat_normRoundPackToF64 sign 0x43C absA s)"

definition ui32_to_f32 :: "u32 \<Rightarrow> softfloat_state \<Rightarrow> u32 \<times> softfloat_state" where
  "ui32_to_f32 a s =
     (if a = 0 then (0, s)
      else if a AND 0x80000000 \<noteq> 0
      then softfloat_roundPackToF32 False 0x9D (ucast (drop_bit 1 a OR (a AND 1))) s
      else softfloat_normRoundPackToF32 False 0x9C (ucast a) s)"

definition ui32_to_f64 :: "u32 \<Rightarrow> softfloat_state \<Rightarrow> u64 \<times> softfloat_state" where
  "ui32_to_f64 a s =
     (if a = 0 then (0, s)
      else let shiftCount = int (unat (softfloat_countLeadingZeros32 a)) + 21
           in (packToF64UI False (0x432 - shiftCount) (push_bit (nat shiftCount) (ucast a)), s))"

definition ui64_to_f32 :: "u64 \<Rightarrow> softfloat_state \<Rightarrow> u32 \<times> softfloat_state" where
  "ui64_to_f32 a s =
     (let shiftCount = int (unat (softfloat_countLeadingZeros64 a)) - 40
      in if 0 \<le> shiftCount
         then (ucast (if a \<noteq> 0 then packToF32UI False (0x95 - shiftCount) (push_bit (nat shiftCount) a) else 0), s)
         else let shiftCount = shiftCount + 7;
                  sig = (if shiftCount < 0 then softfloat_shortShiftRightJam64 a (word_of_int (- shiftCount))
                         else push_bit (nat shiftCount) a)
              in softfloat_roundPackToF32 False (0x9C - shiftCount) sig s)"

definition ui64_to_f64 :: "u64 \<Rightarrow> softfloat_state \<Rightarrow> u64 \<times> softfloat_state" where
  "ui64_to_f64 a s =
     (if a = 0 then (0, s)
      else if a AND 0x8000000000000000 \<noteq> 0
      then softfloat_roundPackToF64 False 0x43D (softfloat_shortShiftRightJam64 a 1) s
      else softfloat_normRoundPackToF64 False 0x43C a s)"

subsection \<open>Magnitudes\<close>

lemma unat_abs:
  fixes a :: "'a::len word"
  shows "unat (if sint a < 0 then - a else a) = nat \<bar>sint a\<bar>"
proof -
  define H where "H = (2::nat) ^ (LENGTH('a) - 1)"
  have L: "(2::nat) ^ LENGTH('a) = 2 * H" by (simp add: H_def flip: power_Suc)
  have a: "unat a < 2 * H" using unat_lt_pow [of a] unfolding L .
  have s: "sint a = (if unat a < H then int (unat a) else int (unat a) - 2 * int H)"
    unfolding H_def by (rule sint_two_complement)
  have m: "0 < unat a \<Longrightarrow> unat (- a) = 2 * H - unat a"
    using unat_neg [of a] unfolding L by (simp add: unat_gt_0)
  have "0 < H" by (simp add: H_def)
  then show ?thesis unfolding s using a m by (cases "unat a < H") (simp_all add: nat_diff_distrib)
qed

lemma scast_abs:
  fixes a :: u32
  shows "unat (if sint a < 0 then - scast a else scast a :: u64) = nat \<bar>sint a\<bar>"
proof -
  have "sint (scast a :: u64) = sint a" by (rule sint_up_scast) (simp add: is_up)
  then show ?thesis using unat_abs [of "scast a :: u64"] by simp
qed

lemma abs_sint_le: "nat \<bar>sint a\<bar> \<le> 2 ^ (LENGTH('a) - 1)" for a :: "'a::len word"
  using sint_greater_eq [of a] sint_less [of a] by (simp add: nat_le_iff)

lemma min_int_iff:
  fixes a :: u32
  shows "a AND 0x7FFFFFFF = 0 \<longleftrightarrow> sint a = 0 \<or> sint a = - (2 ^ 31)"
proof -
  have "a AND 0x7FFFFFFF = 0 \<longleftrightarrow> unat a mod 2 ^ 31 = 0"
    using unat_and_mask [of a 31] by (simp add: mask_eq_exp_minus_1) (metis unat_eq_zero)
  also have "\<dots> \<longleftrightarrow> unat a = 0 \<or> unat a = 2 ^ 31"
    using unat_lt_pow [of a] by (auto simp: mod_if split: if_splits)
  also have "\<dots> \<longleftrightarrow> sint a = 0 \<or> sint a = - (2 ^ 31)"
    using unat_lt_pow [of a] by (auto simp: sint_two_complement)
  finally show ?thesis .
qed

lemma min_int64_iff:
  fixes a :: u64
  shows "a AND 0x7FFFFFFFFFFFFFFF = 0 \<longleftrightarrow> sint a = 0 \<or> sint a = - (2 ^ 63)"
proof -
  have "a AND 0x7FFFFFFFFFFFFFFF = 0 \<longleftrightarrow> unat a mod 2 ^ 63 = 0"
    using unat_and_mask [of a 63] by (simp add: mask_eq_exp_minus_1) (metis unat_eq_zero)
  also have "\<dots> \<longleftrightarrow> unat a = 0 \<or> unat a = 2 ^ 63"
    using unat_lt_pow [of a] by (auto simp: mod_if split: if_splits)
  also have "\<dots> \<longleftrightarrow> sint a = 0 \<or> sint a = - (2 ^ 63)"
    using unat_lt_pow [of a] by (auto simp: sint_two_complement)
  finally show ?thesis .
qed

lemma softfloat_countLeadingZeros64_zero: "softfloat_countLeadingZeros64 0 = 64"
  by code_simp

subsection \<open>Exact results\<close>

lemma mval_of_nat:
  assumes n: "2 ^ fb \<le> n * 2 ^ c" "n * 2 ^ c < 2 ^ Suc fb" and q: "q + int E = - int c"
  shows "mval fb q (E * 2 ^ fb + n * 2 ^ c) = real n"
proof -
  obtain f where f: "n * 2 ^ c = 2 ^ fb + f" using n(1) le_Suc_ex by blast
  then have "f < 2 ^ fb" using n(2) by simp
  then have "mval fb q (Suc E * 2 ^ fb + f) = real (f + 2 ^ fb) * 2 powi (q + int E)" by (rule mval_normal)
  also have "f + 2 ^ fb = n * 2 ^ c" by (simp add: f)
  also have "real (n * 2 ^ c) * 2 powi (q + int E) = real n" by (simp add: q power_int_minus)
  finally show ?thesis by (simp add: f algebra_simps)
qed

lemma pack_int_f64:
  fixes w :: u64 and sg :: bool and c :: nat
  assumes n: "2 ^ 52 \<le> unat w * 2 ^ c" "unat w * 2 ^ c < 2 ^ 53"
  defines "r \<equiv> packToF64UI sg (0x432 - int c) (push_bit c w)"
  shows "rounds_word 52 11 m sg (real (unat w)) r" and "f64_val r = with_sign sg (real (unat w))" and "f64_isFinite r"
proof -
  have c: "c \<le> 52"
  proof (rule ccontr)
    assume "\<not> c \<le> 52"
    then have "(2::nat) ^ 53 \<le> 2 ^ c" by (intro power_increasing) simp_all
    moreover have "unat w \<noteq> 0" using n(1) by (intro notI) simp
    then have "2 ^ c \<le> unat w * 2 ^ c" by simp
    ultimately show False using n(2) by linarith
  qed
  define E where "E = 0x432 - c"
  have E: "int E = 0x432 - int c" "E \<le> 0x432" "nat (0x432 - int c) = E" using c by (simp_all add: E_def)
  have g: "unat (push_bit c w) = unat w * 2 ^ c" using n(2) by (intro unat_shl_less) simp
  define M where "M = E * 2 ^ 52 + unat w * 2 ^ c"
  have "E * 2 ^ 52 \<le> 0x432 * 2 ^ 52" using E(2) by (intro mult_le_mono1)
  then have M: "M < inf_magn 52 11" "M < 2 ^ 63" using n(2) by (simp_all add: M_def inf_magn_def)
  have r: "unat r = of_bool sg * 2 ^ 63 + M"
    unfolding r_def M_def using packToF64UI_eq [of "0x432 - int c" "push_bit c w" sg] M(2) c
    by (simp add: g M_def E(3))
  have v: "mval 52 (- 1074) M = real (unat w)"
    unfolding M_def using n E(1) by (intro mval_of_nat) simp_all
  show "rounds_word 52 11 m sg (real (unat w)) r"
    using rounds_word_exact [of r sg 52 11 M m] r M(1) v by simp
  have "f64_magn r = M" "f64_sign r = sg" using r M(2) by (cases sg; simp add: f64_magn_def f64_sign_def)+
  then show "f64_val r = with_sign sg (real (unat w))" "f64_isFinite r"
    using v M(1) by (simp_all add: f64_val_def f64_isFinite_def)
qed

lemma pack_int_f32:
  fixes w :: u64
  assumes n: "2 ^ 23 \<le> unat w * 2 ^ c" "unat w * 2 ^ c < 2 ^ 24"
  shows "rounds_word 23 8 m sg (real (unat w)) (ucast (packToF32UI sg (0x95 - int c) (push_bit c w)) :: u32)"
proof -
  have c: "c \<le> 23"
  proof (rule ccontr)
    assume "\<not> c \<le> 23"
    then have "(2::nat) ^ 24 \<le> 2 ^ c" by (intro power_increasing) simp_all
    moreover have "unat w \<noteq> 0" using n(1) by (intro notI) simp
    then have "2 ^ c \<le> unat w * 2 ^ c" by simp
    ultimately show False using n(2) by linarith
  qed
  define E where "E = 0x95 - c"
  have E: "int E = 0x95 - int c" "E \<le> 0x95" "nat (0x95 - int c) = E" using c by (simp_all add: E_def)
  have g: "unat (push_bit c w) = unat w * 2 ^ c" using n(2) by (intro unat_shl_less) simp
  define M where "M = E * 2 ^ 23 + unat w * 2 ^ c"
  have "E * 2 ^ 23 \<le> 0x95 * 2 ^ 23" using E(2) by (intro mult_le_mono1)
  then have M: "M < inf_magn 23 8" "M < 2 ^ 31" using n(2) by (simp_all add: M_def inf_magn_def)
  have "unat (packToF32UI sg (0x95 - int c) (push_bit c w)) = of_bool sg * 2 ^ 31 + M"
    unfolding M_def using packToF32UI_eq [of "0x95 - int c" "push_bit c w" sg] M(2) c
    by (simp add: g M_def E(3))
  then have r: "unat (ucast (packToF32UI sg (0x95 - int c) (push_bit c w)) :: u32) = of_bool sg * 2 ^ (23 + 8) + M"
    using M(2) by (cases sg) (simp_all add: unat_ucast_mod)
  have "mval 23 (- 149) M = real (unat w)"
    unfolding M_def using n E(1) by (intro mval_of_nat) simp_all
  then show ?thesis using rounds_word_exact [OF r M(1), of m] by simp
qed


subsection \<open>Rounded results\<close>

lemma zero_rounds: "rounds_word 23 8 m False 0 (0 :: u32)" "rounds_word 52 11 m False 0 (0 :: u64)"
  using rounds_zero_f32 [of m False] rounds_zero_f64 [of m False] by (simp_all add: packToF32UI_def packToF64UI_def)

lemma norm_int_f32:
  assumes "unat w = n" "0 < n" "n < 2 ^ 31"
  shows "rounds_word 23 8 (rmode_of (softfloat_roundingMode s)) sg (real n) (fst (softfloat_normRoundPackToF32 sg 0x9C w s))"
  using assms by (intro rp32.normRoundPack_rounds [where x = "real n"]) (auto simp: unat_gt_0 [symmetric])

lemma norm_int_f64:
  assumes "unat w = n" "0 < n" "n < 2 ^ 63"
  shows "rounds_word 52 11 (rmode_of (softfloat_roundingMode s)) sg (real n) (fst (softfloat_normRoundPackToF64 sg 0x43C w s))"
  using assms by (intro rp64.normRoundPack_rounds [where x = "real n"]) (auto simp: unat_gt_0 [symmetric])

text \<open>The 64-bit integers to 32-bit floats: the same code for both signs.\<close>

lemma int64_to_f32:
  fixes w :: u64
  assumes w: "w \<noteq> 0"
  defines "c \<equiv> int (unat (softfloat_countLeadingZeros64 w)) - 40"
  shows "0 \<le> c \<Longrightarrow> rounds_word 23 8 m sg (real (unat w)) (ucast (packToF32UI sg (0x95 - c) (push_bit (nat c) w)) :: u32)"
    and "\<not> 0 \<le> c \<Longrightarrow> rounds_word 23 8 (rmode_of (softfloat_roundingMode s)) sg (real (unat w))
      (fst (softfloat_roundPackToF32 sg (0x9C - (c + 7))
        (if c + 7 < 0 then softfloat_shortShiftRightJam64 w (word_of_int (- (c + 7))) else push_bit (nat (c + 7)) w) s))"
proof -
  define k where "k = unat (softfloat_countLeadingZeros64 w)"
  have k: "2 ^ 63 \<le> unat w * 2 ^ k" "unat w * 2 ^ k < 2 ^ 64" "k \<le> 63"
    using countLeadingZeros64_normalizes [OF w] by (simp_all add: normalizes_def k_def)
  have ck: "c = int k - 40" by (simp add: c_def k_def)
  show "rounds_word 23 8 m sg (real (unat w)) (ucast (packToF32UI sg (0x95 - c) (push_bit (nat c) w)) :: u32)" if "0 \<le> c"
  proof -
    define j where "j = k - 40"
    have j: "k = j + 40" using that ck by (simp add: j_def)
    then have "2 ^ 23 \<le> unat w * 2 ^ j" "unat w * 2 ^ j < 2 ^ 24" using k by (simp_all add: power_add)
    from pack_int_f32 [OF this, of m sg] show ?thesis using j by (simp add: ck)
  qed
  show "rounds_word 23 8 (rmode_of (softfloat_roundingMode s)) sg (real (unat w))
      (fst (softfloat_roundPackToF32 sg (0x9C - (c + 7))
        (if c + 7 < 0 then softfloat_shortShiftRightJam64 w (word_of_int (- (c + 7))) else push_bit (nat (c + 7)) w) s))"
    if "\<not> 0 \<le> c"
  proof (cases "c + 7 < 0")
    case True
    define d where "d = 33 - k"
    have d: "33 = k + d" "0 < d" using True ck by (simp_all add: d_def)
    have "unat (word_of_int (- (c + 7)) :: u8) = d"
      using d by (subst unat_word_of_int_less) (simp_all add: ck)
    then have sig: "unat (softfloat_shortShiftRightJam64 w (word_of_int (- (c + 7)))) = jam d (unat w)"
      using d unat_shortShiftRightJam64 [of "word_of_int (- (c + 7))" w] by simp
    have P: "(2::nat) ^ 33 = 2 ^ k * 2 ^ d" unfolding d(1) power_add ..
    have "2 ^ 30 * 2 ^ d * (2 ^ k) \<le> unat w * 2 ^ k" "unat w * 2 ^ k < 2 ^ 31 * 2 ^ d * (2 ^ k)"
      using k P by (simp_all add: mult.assoc mult.commute [of "2 ^ d" "2 ^ k :: nat"] flip: P)
    then have "2 ^ (30 + d) \<le> unat w" "unat w < 2 ^ (31 + d)" by (simp_all add: power_add)
    then have b: "2 ^ 30 \<le> jam d (unat w)" "jam d (unat w) < 2 ^ 31" by (intro jam_ge_pow jam_less_pow; simp)+
    have "rounds_word 23 8 (rmode_of (softfloat_roundingMode s)) sg (real (unat w))
      (fst (softfloat_roundPackToF32 sg (0x9C - (c + 7)) (softfloat_shortShiftRightJam64 w (word_of_int (- (c + 7)))) s))"
    proof (rule rp32.roundPack_rounds [of 0 "real (unat w) / 2 ^ d"], unfold sig)
      show "stk 0 (real (unat w) / 2 ^ d) (jam d (unat w))" by (rule stk_jam_nat)
      have "0x9C - (c + 7) = 0x9C + int d" using d(1) by (simp add: ck)
      then have "least_exp 23 8 + (0x9C - (c + 7)) - int 7 = int d" by simp
      then show "real (unat w) = real (unat w) / 2 ^ d * 2 powi (least_exp 23 8 + (0x9C - (c + 7)) - int 7)"
        by (simp only:) simp
    qed (use b k(3) ck True in simp_all)
    then show ?thesis using True by simp
  next
    case False
    define j where "j = k - 33"
    have j: "k = j + 33" using False ck by (simp add: j_def)
    then have b: "2 ^ 30 \<le> unat w * 2 ^ j" "unat w * 2 ^ j < 2 ^ 31" using k by (simp_all add: power_add)
    have nj: "nat (c + 7) = j" "c + 7 = int j" using j by (simp_all add: ck)
    have sig: "unat (push_bit j w) = unat w * 2 ^ j" using b(2) by (intro unat_shl_less) simp
    have "rounds_word 23 8 (rmode_of (softfloat_roundingMode s)) sg (real (unat w))
      (fst (softfloat_roundPackToF32 sg (0x9C - int j) (push_bit j w) s))"
    proof (rule rp32.roundPack_rounds [of 0 "real (unat w * 2 ^ j)"], unfold sig)
      show "real (unat w) = real (unat w * 2 ^ j) * 2 powi (least_exp 23 8 + (0x9C - int j) - int 7)"
        by (simp add: power_int_minus)
      show "stk 0 (real (unat w * 2 ^ j)) (unat w * 2 ^ j)" by (rule stk_exact)
    qed (use b j k(3) in simp_all)
    then show ?thesis using False nj by simp
  qed
qed


subsection \<open>The conversions\<close>

lemma abs_sint_real: "real (nat \<bar>sint a\<bar>) = \<bar>real_of_int (sint a)\<bar>"
  by simp

lemma i32_to_f32_rounds:
  "rounds_word 23 8 (rmode_of (softfloat_roundingMode s)) (sint a < 0) \<bar>real_of_int (sint a)\<bar> (fst (i32_to_f32 a s))"
proof (cases "a AND 0x7FFFFFFF = 0")
  case True
  then consider "sint a = 0" | "sint a = - (2 ^ 31)" unfolding min_int_iff by blast
  then show ?thesis
  proof cases
    case 1
    then show ?thesis using True zero_rounds(1) by (simp add: i32_to_f32_def)
  next
    case 2
    have "unat (packToF32UI True 0x9E 0) = 2 ^ 31 + 0x9E * 2 ^ 23" using packToF32UI_eq [of "0x9E" 0 True] by simp
    then have r: "unat (ucast (packToF32UI True 0x9E 0) :: u32) = of_bool True * 2 ^ (23 + 8) + 0x9E * 2 ^ 23"
      by (simp add: unat_ucast_mod)
    have "mval 23 (- 149) (0x9E * 2 ^ 23) = 2 ^ 31" using mval_normal [of 0 23 "- 149" 157] by simp
    then show ?thesis using True 2 rounds_word_exact [OF r, of "rmode_of (softfloat_roundingMode s)"]
      by (simp add: i32_to_f32_def inf_magn_def)
  qed
next
  case False
  define n where "n = nat \<bar>sint a\<bar>"
  have "sint a \<noteq> 0" "sint a \<noteq> - (2 ^ 31)" using False unfolding min_int_iff by simp_all
  then have "0 < n" "n < 2 ^ 31"
    using sint_greater_eq [of a] sint_less [of a] by (simp_all add: n_def nat_less_iff)
  then show ?thesis
    using False norm_int_f32 [OF scast_abs [of a, folded n_def], of s "sint a < 0"] abs_sint_real [of a]
    unfolding n_def [symmetric] i32_to_f32_def Let_def by simp
qed


lemma with_sign_int: "with_sign (k < 0) (real (nat \<bar>k\<bar>)) = of_int k"
  by (simp add: with_sign_def)

lemma i32_to_f64_exact:
  "f64_val (fst (i32_to_f64 a s)) = of_int (sint a) \<and> f64_isFinite (fst (i32_to_f64 a s)) \<and> snd (i32_to_f64 a s) = s"
proof (cases "a = 0")
  case True
  then show ?thesis by (simp add: i32_to_f64_def f64_val_def f64_sign_def f64_magn_def f64_isFinite_def inf_magn_def with_sign_def)
next
  case False
  define w :: u64 where "w = (if sint a < 0 then - scast a else scast a)"
  have n: "unat w = nat \<bar>sint a\<bar>" unfolding w_def by (rule scast_abs)
  have nz: "sint a \<noteq> 0" using False by (simp add: signed_eq_0_iff)
  have lt: "unat w \<le> 2 ^ 31" unfolding n using abs_sint_le [of a] by simp
  have u: "unat (ucast w :: u32) = unat w" using lt by (simp add: unat_ucast_mod)
  have "(ucast w :: u32) \<noteq> 0" using nz n u by (metis nat_0_iff not_le unat_0 zero_less_abs_iff)
  from countLeadingZeros32_normalizes(1) [OF this]
  have k: "2 ^ 31 \<le> unat w * 2 ^ unat (softfloat_countLeadingZeros32 (ucast w))"
    "unat w * 2 ^ unat (softfloat_countLeadingZeros32 (ucast w)) < 2 ^ 32"
    unfolding normalizes_def u by simp_all
  define c where "c = unat (softfloat_countLeadingZeros32 (ucast w)) + 21"
  have b: "2 ^ 52 \<le> unat w * 2 ^ c" "unat w * 2 ^ c < 2 ^ 53" using k by (simp_all add: c_def power_add)
  have r: "i32_to_f64 a s = (packToF64UI (sint a < 0) (0x432 - int c) (push_bit c w), s)"
    unfolding i32_to_f64_def Let_def w_def [symmetric] c_def using False by (simp add: nat_add_distrib)
  show ?thesis using pack_int_f64(2,3) [OF b, of "sint a < 0"] unfolding r n with_sign_int by simp
qed

lemma ui32_to_f64_exact:
  "f64_val (fst (ui32_to_f64 a s)) = of_int (uint a) \<and> f64_isFinite (fst (ui32_to_f64 a s)) \<and> snd (ui32_to_f64 a s) = s"
proof (cases "a = 0")
  case True
  then show ?thesis by (simp add: ui32_to_f64_def f64_val_def f64_sign_def f64_magn_def f64_isFinite_def inf_magn_def with_sign_def)
next
  case False
  define w :: u64 where "w = ucast a"
  have u: "unat w = unat a" by (simp add: w_def)
  from countLeadingZeros32_normalizes(1) [OF False]
  have k: "2 ^ 31 \<le> unat w * 2 ^ unat (softfloat_countLeadingZeros32 a)"
    "unat w * 2 ^ unat (softfloat_countLeadingZeros32 a) < 2 ^ 32"
    unfolding normalizes_def u by simp_all
  define c where "c = unat (softfloat_countLeadingZeros32 a) + 21"
  have b: "2 ^ 52 \<le> unat w * 2 ^ c" "unat w * 2 ^ c < 2 ^ 53" using k by (simp_all add: c_def power_add)
  have r: "ui32_to_f64 a s = (packToF64UI False (0x432 - int c) (push_bit c w), s)"
    unfolding ui32_to_f64_def Let_def w_def [symmetric] c_def using False by (simp add: nat_add_distrib)
  show ?thesis using pack_int_f64(2,3) [OF b, of False] unfolding r u by (simp add: with_sign_def uint_nat)
qed

lemma i64_to_f32_rounds:
  "rounds_word 23 8 (rmode_of (softfloat_roundingMode s)) (sint a < 0) \<bar>real_of_int (sint a)\<bar> (fst (i64_to_f32 a s))"
proof (cases "a = 0")
  case True
  then show ?thesis using zero_rounds(1) by (simp add: i64_to_f32_def softfloat_countLeadingZeros64_zero)
next
  case False
  define w where "w = (if sint a < 0 then - a else a)"
  have n: "unat w = nat \<bar>sint a\<bar>" unfolding w_def by (rule unat_abs)
  have w: "w \<noteq> 0" using False by (simp add: w_def)
  show ?thesis
    using int64_to_f32(1) [OF w, of "rmode_of (softfloat_roundingMode s)" "sint a < 0"] int64_to_f32(2) [OF w, of s "sint a < 0"] False
    unfolding i64_to_f32_def Let_def w_def [symmetric] n abs_sint_real by simp
qed

lemma ui64_to_f32_rounds:
  "rounds_word 23 8 (rmode_of (softfloat_roundingMode s)) False (real_of_int (uint a)) (fst (ui64_to_f32 a s))"
proof (cases "a = 0")
  case True
  then show ?thesis using zero_rounds(1) by (simp add: ui64_to_f32_def softfloat_countLeadingZeros64_zero)
next
  case False
  show ?thesis
    using int64_to_f32(1) [OF False, of "rmode_of (softfloat_roundingMode s)" False] int64_to_f32(2) [OF False, of s False] False
    unfolding ui64_to_f32_def Let_def by (simp add: uint_nat)
qed

lemma i64_to_f64_rounds:
  "rounds_word 52 11 (rmode_of (softfloat_roundingMode s)) (sint a < 0) \<bar>real_of_int (sint a)\<bar> (fst (i64_to_f64 a s))"
proof (cases "a AND 0x7FFFFFFFFFFFFFFF = 0")
  case True
  then consider "sint a = 0" | "sint a = - (2 ^ 63)" unfolding min_int64_iff by blast
  then show ?thesis
  proof cases
    case 1
    then show ?thesis using True zero_rounds(2) by (simp add: i64_to_f64_def)
  next
    case 2
    have r: "unat (packToF64UI True 0x43E 0) = of_bool True * 2 ^ (52 + 11) + 0x43E * 2 ^ 52"
      using packToF64UI_eq [of "0x43E" 0 True] by simp
    have "mval 52 (- 1074) (0x43E * 2 ^ 52) = 2 ^ 63" using mval_normal [of 0 52 "- 1074" 1085] by simp
    then show ?thesis using True 2 rounds_word_exact [OF r, of "rmode_of (softfloat_roundingMode s)"]
      by (simp add: i64_to_f64_def inf_magn_def)
  qed
next
  case False
  define n where "n = nat \<bar>sint a\<bar>"
  have "sint a \<noteq> 0" "sint a \<noteq> - (2 ^ 63)" using False unfolding min_int64_iff by simp_all
  then have "0 < n" "n < 2 ^ 63"
    using sint_greater_eq [of a] sint_less [of a] by (simp_all add: n_def nat_less_iff)
  then show ?thesis
    using False norm_int_f64 [OF unat_abs [of a, folded n_def], of s "sint a < 0"] abs_sint_real [of a]
    unfolding n_def [symmetric] i64_to_f64_def Let_def by simp
qed

lemma ui32_to_f32_rounds:
  "rounds_word 23 8 (rmode_of (softfloat_roundingMode s)) False (real_of_int (uint a)) (fst (ui32_to_f32 a s))"
proof -
  define n where "n = unat a"
  have n: "n < 2 ^ 32" using unat_lt_pow [of a] by (simp add: n_def)
  have top: "a AND 0x80000000 \<noteq> 0 \<longleftrightarrow> 2 ^ 31 \<le> n"
    using n unat_and_shifted_mask [of 31 1 a]
    by (simp add: n_def mask_eq_exp_minus_1 push_bit_eq_mult word_unat_eq_iff div_eq_0_iff not_less)
  consider "n = 0" | "2 ^ 31 \<le> n" | "0 < n" "n < 2 ^ 31" by linarith
  then show ?thesis
  proof cases
    case 1
    then have "a = 0" by (simp add: n_def unat_eq_zero)
    then show ?thesis using zero_rounds(1) by (simp add: ui32_to_f32_def)
  next
    case 2
    then have "a \<noteq> 0" by (auto simp: n_def)
    have "unat (drop_bit 1 a OR of_bool (odd a)) = jam 1 n"
      unfolding unat_or_of_bool unat_shr jam_def Let_def n_def even_unat_iff [symmetric] by (simp add: odd_iff_mod_2_eq_one)
    then have sig: "unat (ucast (drop_bit 1 a OR (a AND 1)) :: u64) = jam 1 n"
      by (simp add: and_one_eq mod_2_eq_odd)
    have b: "2 ^ 30 \<le> jam 1 n" "jam 1 n < 2 ^ 31" using 2 n by (intro jam_ge_pow jam_less_pow; simp)+
    have "rounds_word 23 8 (rmode_of (softfloat_roundingMode s)) False (real n)
      (fst (softfloat_roundPackToF32 False 0x9D (ucast (drop_bit 1 a OR (a AND 1))) s))"
      by (rule rp32.roundPack_rounds [of 0 "real n / 2 ^ 1"]; (unfold sig)?) (use b stk_jam_nat [of n 1] in simp_all)
    then show ?thesis using 2 top \<open>a \<noteq> 0\<close> unfolding ui32_to_f32_def by (simp add: n_def uint_nat)
  next
    case 3
    then have "a \<noteq> 0" by (auto simp: n_def)
    then show ?thesis using 3 top norm_int_f32 [of "ucast a" n s False] unfolding ui32_to_f32_def by (simp add: n_def uint_nat)
  qed
qed

lemma ui64_to_f64_rounds:
  "rounds_word 52 11 (rmode_of (softfloat_roundingMode s)) False (real_of_int (uint a)) (fst (ui64_to_f64 a s))"
proof -
  define n where "n = unat a"
  have n: "n < 2 ^ 64" using unat_lt_pow [of a] by (simp add: n_def)
  have top: "a AND 0x8000000000000000 \<noteq> 0 \<longleftrightarrow> 2 ^ 63 \<le> n"
    using n unat_and_shifted_mask [of 63 1 a]
    by (simp add: n_def mask_eq_exp_minus_1 push_bit_eq_mult word_unat_eq_iff div_eq_0_iff not_less)
  consider "n = 0" | "2 ^ 63 \<le> n" | "0 < n" "n < 2 ^ 63" by linarith
  then show ?thesis
  proof cases
    case 1
    then have "a = 0" by (simp add: n_def unat_eq_zero)
    then show ?thesis using zero_rounds(2) by (simp add: ui64_to_f64_def)
  next
    case 2
    then have "a \<noteq> 0" by (auto simp: n_def)
    have sig: "unat (softfloat_shortShiftRightJam64 a 1) = jam 1 n"
      using unat_shortShiftRightJam64 [of 1 a] by (simp add: n_def)
    have b: "2 ^ 62 \<le> jam 1 n" "jam 1 n < 2 ^ 63" using 2 n by (intro jam_ge_pow jam_less_pow; simp)+
    have "rounds_word 52 11 (rmode_of (softfloat_roundingMode s)) False (real n)
      (fst (softfloat_roundPackToF64 False 0x43D (softfloat_shortShiftRightJam64 a 1) s))"
      by (rule rp64.roundPack_rounds [of 0 "real n / 2 ^ 1"]; (unfold sig)?) (use b stk_jam_nat [of n 1] in simp_all)
    then show ?thesis using 2 top \<open>a \<noteq> 0\<close> unfolding ui64_to_f64_def by (simp add: n_def uint_nat)
  next
    case 3
    then have "a \<noteq> 0" by (auto simp: n_def)
    then show ?thesis using 3 top norm_int_f64 [of a n s False] unfolding ui64_to_f64_def by (simp add: n_def uint_nat)
  qed
qed

end
