(* ===== verification/SoftFloat_Convert.thy ===== *)
theory SoftFloat_Convert
  imports SoftFloat_ToInt
begin

text \<open>
  Conversion between the two formats: \<^verbatim>\<open>f32_to_f64.c\<close>, which is exact, and \<^verbatim>\<open>f64_to_f32.c\<close>, which rounds;
  narrowing after widening gives back every number.
\<close>

subsection \<open>The code\<close>

definition f32_to_f64 :: "u32 \<Rightarrow> softfloat_state \<Rightarrow> u64 \<times> softfloat_state" where
  "f32_to_f64 a s =
     (let uiA = ucast a; sign = signF32UI uiA; expn = expF32UI uiA; sig = fracF32UI uiA
      in if expn = 0xFF
         then (if sig \<noteq> 0 then (defaultNaNF64UI, softfloat_f32UIToCommonNaN uiA s)
               else (packToF64UI sign 0x7FF 0, s))
         else if expn = 0 \<and> sig = 0 then (packToF64UI sign 0 0, s)
         else let normExpSig = softfloat_normSubnormalF32Sig sig;
                  (expn, sig) = (if expn = 0 then (es32_exp normExpSig - 1, es32_sig normExpSig) else (expn, sig))
              in (packToF64UI sign (expn + 0x380) (push_bit 29 sig), s))"

definition f64_to_f32 :: "u64 \<Rightarrow> softfloat_state \<Rightarrow> u32 \<times> softfloat_state" where
  "f64_to_f32 a s =
     (let uiA = a; sign = signF64UI uiA; expn = expF64UI uiA; sig = fracF64UI uiA
      in if expn = 0x7FF
         then (if sig \<noteq> 0 then (ucast defaultNaNF32UI, softfloat_f64UIToCommonNaN uiA s)
               else (ucast (packToF32UI sign 0xFF 0), s))
         else let sig32 = softfloat_shortShiftRightJam64 sig 22
              in if word_of_int expn OR sig32 = 0 then (ucast (packToF32UI sign 0 0), s)
                 else softfloat_roundPackToF32 sign (expn - 0x381) (sig32 OR 0x40000000) s)"

subsection \<open>Widening is exact\<close>

lemma widened:
  assumes m: "2 ^ 23 \<le> m" "m < 2 ^ 24" and E: "E \<le> 0x7FD"
    and r: "unat r = of_bool sg * 2 ^ 63 + (E * 2 ^ 52 + m * 2 ^ 29)"
  shows "f64_val r = with_sign sg (real m * 2 powi (int E - 1045))" "f64_isFinite r" "f64_sign r = sg"
proof -
  define M where "M = E * 2 ^ 52 + m * 2 ^ 29"
  have "E * 2 ^ 52 \<le> 0x7FD * 2 ^ 52" using E by (intro mult_le_mono1)
  then have M: "M < inf_magn 52 11" "M < 2 ^ 63" using m(2) by (simp_all add: M_def inf_magn_def)
  have "f64_magn r = M" "f64_sign r = sg"
    using r M(2) unfolding M_def [symmetric] by (cases sg; simp add: f64_magn_def f64_sign_def)+
  moreover obtain f where f: "m * 2 ^ 29 = 2 ^ 52 + f" using m(1) le_Suc_ex [of "2 ^ 52" "m * 2 ^ 29"] by auto
  then have "f < 2 ^ 52" using m(2) by simp
  then have "mval 52 (- 1074) (Suc E * 2 ^ 52 + f) = real (f + 2 ^ 52) * 2 powi (- 1074 + int E)" by (rule mval_normal)
  moreover have "Suc E * 2 ^ 52 + f = M" using f by (simp add: M_def)
  moreover have "real (f + 2 ^ 52) = real m * 2 ^ 29"
  proof -
    have "real (f + 2 ^ 52) = real (m * 2 ^ 29)" using f by (simp only: add.commute)
    then show ?thesis by simp
  qed
  moreover have "(2::real) ^ 29 * 2 powi (- 1074 + int E) = 2 powi (int E - 1045)"
    using powi_split [of 29 "- 1074 + int E"] by (simp add: add.commute)
  ultimately show "f64_val r = with_sign sg (real m * 2 powi (int E - 1045))" "f64_isFinite r" "f64_sign r = sg"
    using M(1) by (simp_all add: f64_val_def f64_isFinite_def mult.assoc)
qed

lemma f32_to_f64_finite:
  fixes a :: u32 and s :: softfloat_state
  assumes fin: "f32_isFinite a"
  defines "r \<equiv> fst (f32_to_f64 a s)"
  shows "f64_val r = f32_val a" "f64_isFinite r" "f64_sign r = f32_sign a" "snd (f32_to_f64 a s) = s"
proof -
  define u :: u64 where "u = ucast a"
  have e: "expF32UI u < 0xFF" using fin by (simp add: f32_class_exp u_def)
  have no: "(expF32UI u = 0xFF) = False" using e by simp
  have sg: "signF32UI u = f32_sign a" by (simp add: u_def)
  have fr: "unat (fracF32UI u) < 2 ^ 23" using f32.fracUI_less [of u] by simp
  note unf = f32_to_f64_def Let_def u_def [symmetric] sg no if_False
  have "f64_val r = f32_val a \<and> f64_isFinite r \<and> f64_sign r = f32_sign a \<and> snd (f32_to_f64 a s) = s"
  proof (cases "expF32UI u = 0")
    case False
    define E where "E = nat (expF32UI u) + 895"
    have E: "expF32UI u = int E - 895" "E \<le> 0x7FD" "895 < E" using False f32.expUI_bounds(1) [of u] e by (simp_all add: E_def)
    have g: "unat (push_bit 29 (fracF32UI u)) = unat (fracF32UI u) * 2 ^ 29" using fr by (intro unat_shl_less) simp
    have "nat (expF32UI u + 0x380) = Suc E" using E by simp
    then have "unat (packToF64UI (f32_sign a) (expF32UI u + 0x380) (push_bit 29 (fracF32UI u)))
        = of_bool (f32_sign a) * 2 ^ 63 + (Suc E * 2 ^ 52 + unat (fracF32UI u) * 2 ^ 29)"
      using packToF64UI_eq [of "expF32UI u + 0x380" "push_bit 29 (fracF32UI u)" "f32_sign a"] E fr e by (simp add: g)
    also have "\<dots> = of_bool (f32_sign a) * 2 ^ 63 + (E * 2 ^ 52 + (unat (fracF32UI u) + 2 ^ 23) * 2 ^ 29)" by simp
    finally have "unat (packToF64UI (f32_sign a) (expF32UI u + 0x380) (push_bit 29 (fracF32UI u)))
        = of_bool (f32_sign a) * 2 ^ 63 + (E * 2 ^ 52 + (unat (fracF32UI u) + 2 ^ 23) * 2 ^ 29)" .
    note w = widened [OF _ _ E(2) this]
    have "f32_val a = with_sign (f32_sign a) (real (unat (fracF32UI u) + 2 ^ 23) * 2 powi (int E - 1045))"
      using f32_val_fields [of a] False E(1) unfolding u_def [symmetric] by simp
    then show ?thesis using w fr False unfolding r_def unf by simp
  next
    case True
    show ?thesis
    proof (cases "fracF32UI u = 0")
      case True
      have "f32_val a = 0" using f32_val_fields [of a] True \<open>expF32UI u = 0\<close> unfolding u_def [symmetric] by simp
      moreover have "unat (packToF64UI (f32_sign a) 0 0) = of_bool (f32_sign a) * 2 ^ 63"
        using packToF64UI_eq [of 0 0 "f32_sign a"] by simp
      then have "f64_magn (packToF64UI (f32_sign a) 0 0) = 0" "f64_sign (packToF64UI (f32_sign a) 0 0) = f32_sign a"
        by (simp_all add: f64_magn_def f64_sign_def)
      ultimately show ?thesis using True \<open>expF32UI u = 0\<close> unfolding r_def unf
        by (simp add: f64_val_def f64_isFinite_def inf_magn_def)
    next
      case False
      from normSubnormalF32Sig_eq [OF False fr] obtain sh where
        sh: "es32_exp (softfloat_normSubnormalF32Sig (fracF32UI u)) = 1 - int sh"
          "unat (es32_sig (softfloat_normSubnormalF32Sig (fracF32UI u))) = unat (fracF32UI u) * 2 ^ sh"
          "2 ^ 23 \<le> unat (fracF32UI u) * 2 ^ sh" "unat (fracF32UI u) * 2 ^ sh < 2 ^ Suc 23" .
      define g where "g = unat (fracF32UI u) * 2 ^ sh"
      define z where "z = es32_sig (softfloat_normSubnormalF32Sig (fracF32UI u))"
      have z: "unat z = g" using sh(2) by (simp add: z_def g_def)
      have gb: "2 ^ 23 \<le> g" "g < 2 ^ 24" using sh(3,4) by (simp_all add: g_def)
      have "0 < unat (fracF32UI u)" using False by (simp add: unat_gt_0)
      then have "2 ^ sh \<le> g" by (simp add: g_def)
      then have "(2::nat) ^ sh < 2 ^ 24" using gb(2) by (rule le_less_trans)
      then have s24: "sh < 24" by (simp only: power_strict_increasing_iff one_less_numeral_iff semiring_norm)
      define E where "E = 896 - sh"
      have E: "nat (896 - int sh) = E" "E \<le> 0x7FD" "int E = 896 - int sh" using s24 by (simp_all add: E_def)
      have g29: "unat (push_bit 29 z) = g * 2 ^ 29" using gb(2) z by (subst unat_shl_less) simp_all
      have "E * 2 ^ 52 \<le> 896 * 2 ^ 52" by (intro mult_le_mono1) (simp add: E_def)
      then have "unat (packToF64UI (f32_sign a) (896 - int sh) (push_bit 29 z))
          = of_bool (f32_sign a) * 2 ^ 63 + (E * 2 ^ 52 + g * 2 ^ 29)"
        using packToF64UI_eq [of "896 - int sh" "push_bit 29 z" "f32_sign a"] s24 gb(2) by (simp add: g29 E(1))
      note w = widened [OF gb E(2) this]
      have "real g * 2 powi (int E - 1045) = real (unat (fracF32UI u)) * (2 ^ sh * 2 powi (- 149 - int sh))"
        by (simp add: g_def E(3))
      also have "(2::real) ^ sh * 2 powi (- 149 - int sh) = 2 powi (- 149)"
        using powi_split [of "int sh" "- 149 - int sh"] by simp
      finally have "f32_val a = with_sign (f32_sign a) (real g * 2 powi (int E - 1045))"
        using f32_val_fields [of a] True unfolding u_def [symmetric] by (simp only: if_True simp_thms)
      moreover have "f32_to_f64 a s = (packToF64UI (f32_sign a) (896 - int sh) (push_bit 29 z), s)"
        unfolding unf z_def [symmetric] sh(1) using True False by simp
      ultimately show ?thesis using w unfolding r_def by simp
    qed
  qed
  then show "f64_val r = f32_val a" "f64_isFinite r" "f64_sign r = f32_sign a" "snd (f32_to_f64 a s) = s" by simp_all
qed


subsection \<open>Narrowing is correctly rounded\<close>

text \<open>A subnormal 64-bit number is below every 32-bit number: only its sticky bit reaches the rounding.\<close>

lemma jam_add: "jam c (n + 2 ^ c * (2 * t)) = jam c n + 2 * t"
  by (simp add: jam_def Let_def)

lemma roundPackToF32_tiny:
  assumes "unat sig < 2 ^ 31" "sig \<noteq> 0" "e \<le> - 100" "- 32768 \<le> e" "0 < X" "X < 2 powi (- 300)"
  shows "rounds_word 23 8 (rmode_of (softfloat_roundingMode s)) sg X (fst (softfloat_roundPackToF32 sg e sig s))"
proof -
  define m where "m = rmode_of (softfloat_roundingMode s)"
  have "jam (nat (- e)) (unat sig) = of_bool (unat sig \<noteq> 0)"
    using assms by (intro jam_large [of _ 31]) simp_all
  then have j: "jam (nat (- e)) (unat sig) = 1" using assms(2) by (simp add: unat_eq_zero)
  have j1: "jam 100 1 = 1" using jam_large [of 1 1 100] by simp
  have "rp_magn 23 8 7 m sg e (unat sig) = rp_magn 23 8 7 m sg (- 100) (unat (1 :: u64))"
    using assms(3) by (simp add: rp_magn_def rp_sig_def rp_overflow_def j j1 [unfolded One_nat_def])
  then have "unat (fst (softfloat_roundPackToF32 sg e sig s)) = unat (fst (softfloat_roundPackToF32 sg (- 100) 1 s))"
    using softfloat_roundPackToF32_eq(1) [of sig e sg s] softfloat_roundPackToF32_eq(1) [of 1 "- 100" sg s] assms
    unfolding m_def [symmetric] by simp
  then have "fst (softfloat_roundPackToF32 sg e sig s) = fst (softfloat_roundPackToF32 sg (- 100) 1 s)"
    by (rule word_of_nat_unat_eqI)
  moreover have "rounds_word 23 8 m sg X (fst (softfloat_roundPackToF32 sg (- 100) 1 s))"
    unfolding m_def
  proof (rule rp32.roundPack_rounds_near [of 1 "X * 2 powi 256"])
    have "X * 2 powi 256 < 2 powi (- 300) * 2 powi 256" using assms(6) by (rule mult_strict_right_mono) simp
    also have "(2::real) powi (- 300) * 2 powi 256 \<le> 1" unfolding powi_split [symmetric] by simp
    finally show "near 1 (X * 2 powi 256) (unat (1 :: u64))"
      using assms(5) by (intro near_between [of 1 0 _ _ 1]) simp_all
  qed (use assms in simp_all)
  ultimately show ?thesis by (simp add: m_def)
qed

lemma f64_to_f32_rounds:
  assumes fin: "f64_isFinite a"
  shows "rounds_word 23 8 (rmode_of (softfloat_roundingMode s)) (f64_sign a) \<bar>f64_val a\<bar> (fst (f64_to_f32 a s))"
proof -
  have e: "expF64UI a < 0x7FF" "0 \<le> expF64UI a" using fin f64.expUI_bounds(1) [of a] by (simp_all add: f64_class_exp)
  have fr: "unat (fracF64UI a) < 2 ^ 52" using f64.fracUI_less [of a] by simp
  define z where "z = softfloat_shortShiftRightJam64 (fracF64UI a) 22"
  have z: "unat z = jam 22 (unat (fracF64UI a))" unfolding z_def by (subst unat_shortShiftRightJam64) simp_all
  have zb: "unat z < 2 ^ 30" unfolding z using fr by (intro jam_less_pow) simp_all
  define y where "y = z OR 0x40000000"
  have y: "unat y = unat z + 2 ^ 30" unfolding y_def using zb by (intro unat_or_hidden) simp_all
  have z0: "z = 0 \<longleftrightarrow> fracF64UI a = 0" using z by (metis jam_eq_0_iff unat_eq_zero)
  have "unat (word_of_int (expF64UI a) :: u64) = nat (expF64UI a)" using e by (intro unat_word_of_int_less) simp_all
  then have "(word_of_int (expF64UI a) :: u64) = 0 \<longleftrightarrow> expF64UI a = 0" using e(2) by (metis nat_0_iff order_antisym unat_eq_zero order_refl)
  then have c: "word_of_int (expF64UI a) OR z = 0 \<longleftrightarrow> f64_magn a = 0" by (simp add: f64_magn_eq_0_iff z0 or_eq_0_iff)
  have no: "(expF64UI a = 0x7FF) = False" using e by simp
  note unf = f64_to_f32_def Let_def z_def [symmetric] y_def [symmetric] c f64_sign_eq no if_False
  show ?thesis
  proof (cases "f64_magn a = 0")
    case True
    then have "f64_val a = 0" by (simp add: f64_zero_iff)
    then show ?thesis using True rounds_zero_f32 [of _ "f64_sign a"] unfolding unf by simp
  next
    case nz: False
    show ?thesis
    proof (cases "expF64UI a = 0")
      case True
      have "rounds_word 23 8 (rmode_of (softfloat_roundingMode s)) (f64_sign a) \<bar>f64_val a\<bar>
        (fst (softfloat_roundPackToF32 (f64_sign a) (expF64UI a - 0x381) y s))"
      proof (rule roundPackToF32_tiny)
        show "unat y < 2 ^ 31" using y zb by simp
        show "y \<noteq> 0" using y by (metis add_is_0 power_not_zero unat_0 zero_neq_numeral)
        show "0 < \<bar>f64_val a\<bar>" using nz by (simp add: f64_zero_iff)
        have "real (unat (fracF64UI a)) < 2 ^ 52" using fr by (simp only: of_nat_less_numeral_power_cancel_iff)
        then have "\<bar>f64_val a\<bar> < 2 ^ 52 * 2 powi (- 1074)"
          using f64_val_fields [of a] True by (simp add: with_sign_def)
        also have "(2::real) ^ 52 * 2 powi (- 1074) = 2 powi (- 1022)" using powi_split [of 52 "- 1074"] by simp
        also have "(2::real) powi (- 1022) \<le> 2 powi (- 300)" by (intro power_int_increasing) simp_all
        finally show "\<bar>f64_val a\<bar> < 2 powi (- 300)" .
      qed (use True in simp_all)
      then show ?thesis using nz unfolding unf by simp
    next
      case False
      define n where "n = unat (fracF64UI a) + 2 ^ 52"
      have "jam 22 n = jam 22 (unat (fracF64UI a)) + 2 ^ 30"
        using jam_add [of 22 "unat (fracF64UI a)" "2 ^ 29"] by (simp add: n_def)
      then have yn: "unat y = jam 22 n" by (simp add: y z)
      have "rounds_word 23 8 (rmode_of (softfloat_roundingMode s)) (f64_sign a) \<bar>f64_val a\<bar>
        (fst (softfloat_roundPackToF32 (f64_sign a) (expF64UI a - 0x381) y s))"
      proof (rule rp32.roundPack_rounds [of 0 "real n / 2 ^ 22"])
        show "stk 0 (real n / 2 ^ 22) (unat y)" unfolding yn by (rule stk_jam_nat)
        have "\<bar>f64_val a\<bar> = real n * 2 powi (expF64UI a - 1075)"
          using f64_val_fields [of a] False by (simp add: with_sign_def n_def)
        also have "expF64UI a - 1075 = - 22 + (least_exp 23 8 + (expF64UI a - 0x381) - int 7)" by simp
        finally show "\<bar>f64_val a\<bar> = real n / 2 ^ 22 * 2 powi (least_exp 23 8 + (expF64UI a - 0x381) - int 7)"
          unfolding powi_split by (simp add: power_int_minus)
      qed (use y zb e in simp_all)
      then show ?thesis using nz unfolding unf by simp
    qed
  qed
qed


subsection \<open>Infinities, NaNs and the round trip\<close>

lemma rounds_word_exactD:
  assumes r: "rounds_word fb ebit m sg (mval fb (least_exp fb ebit) M) r" and "M < inf_magn fb ebit" and "1 < ebit"
  shows "unat r = of_bool sg * 2 ^ (fb + ebit) + M"
proof -
  define x where "x = mval fb (least_exp fb ebit) M"
  from r obtain N z where N: "unat r = of_bool sg * 2 ^ (fb + ebit) + N" and "0 \<le> z"
    and cr: "correctly_rounded (Suc fb) (least_exp fb ebit) m (with_sign sg x) (with_sign sg z)"
    and z: "if z < 2 powi (2 ^ (ebit - 1)) then N < inf_magn fb ebit \<and> mval fb (least_exp fb ebit) N = z
            else N = inf_magn fb ebit - of_bool (toward_zero m sg)"
    unfolding rounds_word_def ieee_rounds_def x_def by blast
  have "representable (Suc fb) (least_exp fb ebit) (with_sign sg x)"
    by (simp add: with_sign_def x_def mval_representable)
  from correctly_rounded_exact [OF this cr] have "z = x" by (simp add: with_sign_def split: if_splits)
  moreover have "x < 2 powi (2 ^ (ebit - 1))"
    unfolding x_def using assms(2) by (simp only: inf_magn_value [OF assms(3), of fb, symmetric] mval_less_iff)
  ultimately have "mval fb (least_exp fb ebit) N = x" using z by simp
  then show ?thesis using N unfolding x_def by simp
qed

lemma f32_quiet_bit:
  assumes "f32_isNaN a"
  shows "(ucast a :: u64) AND 0x00400000 = 0 \<longleftrightarrow> f32_isSNaN a"
proof -
  define u :: u64 where "u = ucast a"
  define f where "f = unat (fracF32UI u)"
  have e: "expF32UI u = 0xFF" using assms unfolding u_def f32_class_exp(1) [symmetric] by simp
  have m: "f32_magn a = inf_magn 23 8 + f" using f32.magn_fields [of u] e by (simp add: u_def f_def inf_magn_def)
  have f: "f < 2 ^ 23" using f32.fracUI_less [of u] by (simp add: f_def)
  have "unat (u AND 0x00400000) = unat u div 2 ^ 22 mod 2 ^ 1 * 2 ^ 22"
    using unat_and_shifted_mask [of 22 1 u] by (simp add: mask_eq_exp_minus_1 push_bit_eq_mult)
  moreover have "f div 2 ^ 22 = unat u div 2 ^ 22 mod 2 ^ 1"
  proof -
    have "f = unat u mod (2 ^ 22 * 2)" unfolding f_def fracF32UI_eq by simp
    also have "\<dots> = 2 ^ 22 * (unat u div 2 ^ 22 mod 2) + unat u mod 2 ^ 22" by (rule mod_mult2_eq)
    finally show ?thesis by simp
  qed
  ultimately have "u AND 0x00400000 = 0 \<longleftrightarrow> f div 2 ^ 22 = 0" by (simp add: word_unat_eq_iff)
  then show ?thesis
    using assms unfolding u_def [symmetric] f32_isSNaN_def m by (simp add: div_eq_0_iff)
qed

lemma f64_quiet_bit:
  assumes "f64_isNaN a"
  shows "a AND 0x0008000000000000 = 0 \<longleftrightarrow> f64_isSNaN a"
proof -
  define f where "f = unat (fracF64UI a)"
  have e: "expF64UI a = 0x7FF" using assms unfolding f64_class_exp(1) [symmetric] by simp
  have m: "f64_magn a = inf_magn 52 11 + f" using f64_magn_fields [of a] e by (simp add: f_def inf_magn_def)
  have "unat (a AND 0x0008000000000000) = unat a div 2 ^ 51 mod 2 ^ 1 * 2 ^ 51"
    using unat_and_shifted_mask [of 51 1 a] by (simp add: mask_eq_exp_minus_1 push_bit_eq_mult)
  moreover have "f div 2 ^ 51 = unat a div 2 ^ 51 mod 2 ^ 1"
  proof -
    have "f = unat a mod (2 ^ 51 * 2)" unfolding f_def fracF64UI_eq by simp
    also have "\<dots> = 2 ^ 51 * (unat a div 2 ^ 51 mod 2) + unat a mod 2 ^ 51" by (rule mod_mult2_eq)
    finally show ?thesis by simp
  qed
  ultimately have "a AND 0x0008000000000000 = 0 \<longleftrightarrow> f div 2 ^ 51 = 0" by (simp add: word_unat_eq_iff)
  then show ?thesis
    using assms unfolding f64_isSNaN_def m by (simp add: div_eq_0_iff)
qed

text \<open>What the conversions do with infinities and NaNs.\<close>

lemma f32_to_f64_special:
  "f32_isInf a \<Longrightarrow> f32_to_f64 a s = (packToF64UI (f32_sign a) 0x7FF 0, s)"
  "f32_isNaN a \<Longrightarrow> f32_to_f64 a s =
     (defaultNaNF64UI, if f32_isSNaN a then softfloat_raiseFlags softfloat_flag_invalid s else s)"
  using f32_quiet_bit [of a]
  by (simp_all add: f32_to_f64_def Let_def softfloat_f32UIToCommonNaN_def flip: f32_class_exp(1,2))

lemma f64_to_f32_special:
  "f64_isInf a \<Longrightarrow> f64_to_f32 a s = (ucast (packToF32UI (f64_sign a) 0xFF 0), s)"
  "f64_isNaN a \<Longrightarrow> f64_to_f32 a s =
     (ucast defaultNaNF32UI, if f64_isSNaN a then softfloat_raiseFlags softfloat_flag_invalid s else s)"
  using f64_quiet_bit [of a]
  by (simp_all add: f64_to_f32_def Let_def softfloat_f64UIToCommonNaN_def flip: f64_class_exp(1,2))

lemma f32_round_trip:
  assumes "\<not> f32_isNaN a"
  shows "fst (f64_to_f32 (fst (f32_to_f64 a s)) s') = a"
proof (cases "f32_isInf a")
  case True
  define r where "r = packToF64UI (f32_sign a) 0x7FF 0"
  have "f64_isInf r" "f64_sign r = f32_sign a"
    unfolding r_def using f64.fields_pack [of "0x7FF" 0 "f32_sign a"] by (simp_all flip: f64_class_exp(2) f64_sign_eq)
  moreover have "(ucast (packToF32UI (f32_sign a) 0xFF 0) :: u32) = a"
  proof -
    have "(ucast a :: u64) = packToF32UI (f32_sign a) 0xFF 0"
      using f32.pack_fields [of "ucast a"] True by (simp flip: f32_class_exp(2))
    then have "unat (packToF32UI (f32_sign a) 0xFF 0) = unat a" by (metis unat_ucast_32_64)
    then show ?thesis using unat_lt_pow [of a] by (intro word_of_nat_unat_eqI) (simp add: unat_ucast_mod)
  qed
  ultimately show ?thesis using True by (simp add: f32_to_f64_special f64_to_f32_special flip: r_def)
next
  case False
  then have fin: "f32_isFinite a" using assms by (simp add: f32_isNaN_def f32_isInf_def f32_isFinite_def)
  define r where "r = fst (f32_to_f64 a s)"
  note w = f32_to_f64_finite [OF fin, of s, folded r_def]
  have "rounds_word 23 8 (rmode_of (softfloat_roundingMode s')) (f32_sign a) (mval 23 (- 149) (f32_magn a)) (fst (f64_to_f32 r s'))"
    using f64_to_f32_rounds [OF w(2), of s'] unfolding w(1,3) by (simp add: f32_abs_val)
  then have "unat (fst (f64_to_f32 r s')) = of_bool (f32_sign a) * 2 ^ (23 + 8) + f32_magn a"
    using rounds_word_exactD [of 23 8 _ "f32_sign a" "f32_magn a" "fst (f64_to_f32 r s')"] fin by (simp add: f32_isFinite_def)
  also have "\<dots> = unat a" using f32.pattern_split [of "ucast a"] by simp
  finally show ?thesis unfolding r_def by (rule word_of_nat_unat_eqI)
qed

end
