(* ===== verification/SoftFloat_RoundToInt.thy ===== *)
theory SoftFloat_RoundToInt
  imports SoftFloat_Truncate
begin

text \<open>
  Rounding a float to an integral float: \<^verbatim>\<open>f32_roundToInt.c\<close> and \<^verbatim>\<open>f64_roundToInt.c\<close>.  The code rounds the
  bit pattern itself, so that a carry out of the fraction increments the exponent.
\<close>

subsection \<open>The code\<close>

definition f32_roundToInt :: "u32 \<Rightarrow> u8 \<Rightarrow> bool \<Rightarrow> softfloat_state \<Rightarrow> u32 \<times> softfloat_state" where
  "f32_roundToInt a roundingMode exact s =
     (let uiA = ucast a; expn = expF32UI uiA
      in if expn \<le> 0x7E
         then (if (ucast (push_bit 1 uiA) :: u32) = 0 then (a, s)
               else let s = (if exact then softfloat_raiseFlags softfloat_flag_inexact s else s);
                        uiZ = uiA AND packToF32UI True 0 0;
                        half = (if expn = 0x7E then uiZ OR packToF32UI False 0x7F 0 else uiZ);
                        uiZ = (if roundingMode = softfloat_round_near_even
                               then (if fracF32UI uiA = 0 then uiZ else half)
                               else if roundingMode = softfloat_round_near_maxMag then half
                               else if roundingMode = softfloat_round_min
                               then (if uiZ \<noteq> 0 then packToF32UI True 0x7F 0 else uiZ)
                               else if roundingMode = softfloat_round_max
                               then (if uiZ = 0 then packToF32UI False 0x7F 0 else uiZ)
                               else uiZ)
                    in (ucast uiZ, s))
         else if 0x96 \<le> expn
         then (if expn = 0xFF \<and> fracF32UI uiA \<noteq> 0 then apfst ucast (softfloat_propagateNaNF32UI uiA 0 s) else (a, s))
         else let uiZ = uiA;
                  lastBitMask = push_bit (nat (0x96 - expn)) 1;
                  roundBitsMask = lastBitMask - 1;
                  uiZ = (if roundingMode = softfloat_round_near_maxMag then uiZ + drop_bit 1 lastBitMask
                         else if roundingMode = softfloat_round_near_even
                         then let uiZ = uiZ + drop_bit 1 lastBitMask
                              in if uiZ AND roundBitsMask = 0 then uiZ AND NOT lastBitMask else uiZ
                         else if roundingMode \<noteq> softfloat_round_minMag
                         then (if signF32UI uiZ \<noteq> (roundingMode = softfloat_round_max) then uiZ + roundBitsMask else uiZ)
                         else uiZ);
                  uiZ = uiZ AND NOT roundBitsMask
              in (ucast uiZ, if exact \<and> uiZ \<noteq> uiA then softfloat_raiseFlags softfloat_flag_inexact s else s))"

definition f64_roundToInt :: "u64 \<Rightarrow> u8 \<Rightarrow> bool \<Rightarrow> softfloat_state \<Rightarrow> u64 \<times> softfloat_state" where
  "f64_roundToInt a roundingMode exact s =
     (let uiA = a; expn = expF64UI uiA
      in if expn \<le> 0x3FE
         then (if uiA AND 0x7FFFFFFFFFFFFFFF = 0 then (a, s)
               else let s = (if exact then softfloat_raiseFlags softfloat_flag_inexact s else s);
                        uiZ = uiA AND packToF64UI True 0 0;
                        half = (if expn = 0x3FE then uiZ OR packToF64UI False 0x3FF 0 else uiZ);
                        uiZ = (if roundingMode = softfloat_round_near_even
                               then (if fracF64UI uiA = 0 then uiZ else half)
                               else if roundingMode = softfloat_round_near_maxMag then half
                               else if roundingMode = softfloat_round_min
                               then (if uiZ \<noteq> 0 then packToF64UI True 0x3FF 0 else uiZ)
                               else if roundingMode = softfloat_round_max
                               then (if uiZ = 0 then packToF64UI False 0x3FF 0 else uiZ)
                               else uiZ)
                    in (uiZ, s))
         else if 0x433 \<le> expn
         then (if expn = 0x7FF \<and> fracF64UI uiA \<noteq> 0 then softfloat_propagateNaNF64UI uiA 0 s else (a, s))
         else let uiZ = uiA;
                  lastBitMask = push_bit (nat (0x433 - expn)) 1;
                  roundBitsMask = lastBitMask - 1;
                  uiZ = (if roundingMode = softfloat_round_near_maxMag then uiZ + drop_bit 1 lastBitMask
                         else if roundingMode = softfloat_round_near_even
                         then let uiZ = uiZ + drop_bit 1 lastBitMask
                              in if uiZ AND roundBitsMask = 0 then uiZ AND NOT lastBitMask else uiZ
                         else if roundingMode \<noteq> softfloat_round_minMag
                         then (if signF64UI uiZ \<noteq> (roundingMode = softfloat_round_max) then uiZ + roundBitsMask else uiZ)
                         else uiZ);
                  uiZ = uiZ AND NOT roundBitsMask
              in (uiZ, if exact \<and> uiZ \<noteq> uiA then softfloat_raiseFlags softfloat_flag_inexact s else s))"

subsection \<open>Rounding the bit pattern\<close>

text \<open>The word the middle branch computes, for the mode \<open>rm\<close> and a pattern \<open>w\<close> of sign \<open>sg\<close>.\<close>

definition round_bits :: "u8 \<Rightarrow> bool \<Rightarrow> nat \<Rightarrow> u64 \<Rightarrow> u64" where
  "round_bits rm sg d w =
     (if rm = softfloat_round_near_maxMag then w + drop_bit 1 (push_bit d 1)
      else if rm = softfloat_round_near_even
      then (if (w + drop_bit 1 (push_bit d 1)) AND (push_bit d 1 - 1) = 0
            then (w + drop_bit 1 (push_bit d 1)) AND NOT (push_bit d 1) else w + drop_bit 1 (push_bit d 1))
      else if rm \<noteq> softfloat_round_minMag
      then (if sg \<noteq> (rm = softfloat_round_max) then w + (push_bit d 1 - 1) else w)
      else w) AND NOT (push_bit d 1 - 1)"

lemma clear_low_bits:
  fixes u :: u64
  assumes "d < 64"
  shows "(if c then u AND NOT (push_bit d 1) else u) AND NOT (push_bit d 1 - 1) = push_bit d (drop_bit d u AND NOT (of_bool c))"
proof -
  have "push_bit d 1 - 1 = (mask d :: u64)" by (simp add: mask_eq_decr_exp push_bit_eq_mult)
  then show ?thesis using assms by (cases c) (auto intro!: bit_word_eqI simp: bit_simps)
qed

lemma round_bits_nrnd:
  assumes d: "0 < d" "d < 63" and w: "unat w + 2 ^ d < 2 ^ 64" and rm: "rm \<le> 4"
  shows "unat (round_bits rm sg d w) = nrnd (rmode_of rm) sg (unat w) d * 2 ^ d"
proof -
  define h where "h = (2::nat) ^ (d - 1)"
  have D: "(2::nat) ^ d = 2 * h" using d(1) by (simp add: h_def power_eq_if)
  have P: "unat (push_bit d 1 :: u64) = 2 ^ d" 
    using power_strict_increasing [of d 64 "2::nat"] d(2) by (subst unat_shl_less) simp_all
  have H: "unat (drop_bit 1 (push_bit d 1) :: u64) = h" unfolding unat_shr P D by simp
  have Q: "unat (push_bit d 1 - 1 :: u64) = 2 ^ d - 1" using P by (subst unat_diff_le) simp_all
  define r where "r = rinc (rmode_of rm) sg d"
  have r: "r < 2 ^ d" unfolding r_def using d(1) by (rule rinc_less)
  define i :: u64 where "i = (if rm = softfloat_round_near_maxMag \<or> rm = softfloat_round_near_even then drop_bit 1 (push_bit d 1)
    else if rm \<noteq> softfloat_round_minMag \<and> sg \<noteq> (rm = softfloat_round_max) then push_bit d 1 - 1 else 0)"
  have rm': "rm = 0 \<or> rm = 1 \<or> rm = 2 \<or> rm = 3 \<or> rm = 4"
  proof -
    have "unat rm \<le> 4" using rm by (simp add: word_le_nat_alt)
    then have "unat rm = 0 \<or> unat rm = 1 \<or> unat rm = 2 \<or> unat rm = 3 \<or> unat rm = 4" by linarith
    then show ?thesis by (simp add: word_unat_eq_iff)
  qed
  then have i: "unat i = r" unfolding i_def r_def rmode_of_def using H Q by (auto simp: h_def)
  have u: "unat (w + i) = unat w + r" using w r i by (subst unat_add_less) simp_all
  define c where "c \<longleftrightarrow> rm = softfloat_round_near_even \<and> (w + i) AND (push_bit d 1 - 1) = 0"
  have "push_bit d 1 - 1 = (mask d :: u64)" by (simp add: mask_eq_decr_exp push_bit_eq_mult)
  then have "unat ((w + i) AND (push_bit d 1 - 1)) = (unat w + r) mod 2 ^ d" by (simp only: unat_and_mask u)
  then have z: "(w + i) AND (push_bit d 1 - 1) = 0 \<longleftrightarrow> (unat w + r) mod 2 ^ d = 0" by (metis unat_eq_zero)
  have tie: "(n + h) mod (2 * h) = 0 \<longleftrightarrow> n mod (2 * h) = h" for n
  proof -
    have "(n + h) mod (2 * h) = (n mod (2 * h) + h) mod (2 * h)" by (simp add: mod_simps)
    moreover have "n mod (2 * h) < 2 * h" "0 < h" by (simp_all add: h_def)
    ultimately show ?thesis by (cases "n mod (2 * h) < h") (simp_all add: le_mod_geq)
  qed
  have c: "c \<longleftrightarrow> rmode_of rm = RNE \<and> unat w mod 2 ^ d = 2 ^ (d - 1)"
  proof (cases "rm = softfloat_round_near_even")
    case True
    then have "r = h" by (simp add: r_def rmode_of_def h_def)
    then show ?thesis using True tie [of "unat w"] unfolding c_def z D h_def [symmetric] by (simp add: rmode_of_def)
  next
    case False
    then show ?thesis by (simp add: c_def rmode_of_RNE)
  qed
  have "round_bits rm sg d w = (if c then (w + i) AND NOT (push_bit d 1) else w + i) AND NOT (push_bit d 1 - 1)"
    unfolding round_bits_def c_def i_def using rm' by auto
  also have "\<dots> = push_bit d (drop_bit d (w + i) AND NOT (of_bool c))" using d by (intro clear_low_bits) simp
  finally have rb: "round_bits rm sg d w = push_bit d (drop_bit d (w + i) AND NOT (of_bool c))" .
  have "unat (drop_bit d (w + i) AND NOT (of_bool c)) = nrnd (rmode_of rm) sg (unat w) d"
    unfolding unat_and_not_of_bool unat_shr u c nrnd_via_rinc [OF d(1)] r_def by (simp add: conj_assoc)
  moreover have "nrnd (rmode_of rm) sg (unat w) d * 2 ^ d < 2 ^ 64"
  proof -
    have "nrnd (rmode_of rm) sg (unat w) d \<le> (unat w + r) div 2 ^ d"
      unfolding nrnd_via_rinc [OF d(1)] r_def by simp
    then have "nrnd (rmode_of rm) sg (unat w) d * 2 ^ d \<le> (unat w + r) div 2 ^ d * 2 ^ d" by (rule mult_le_mono1)
    also have "\<dots> \<le> unat w + r" by (rule div_times_less_eq_dividend)
    finally show ?thesis using w r by linarith
  qed
  ultimately show ?thesis unfolding rb by (subst unat_shl_less) simp_all
qed


lemma nrnd_add:
  assumes "even k"
  shows "nrnd m neg (2 ^ d * k + n) d = k + nrnd m neg n d"
proof -
  have "nrnd_inc m neg (2 ^ d * k + n) d = nrnd_inc m neg n d" using assms by (cases m) simp_all
  then show ?thesis by (simp add: nrnd_def)
qed

context float_format
begin

lemma round_pattern:
  fixes m :: rmode and sg :: bool and d :: nat
  assumes E: "0 < expUI a" and d: "q + expUI a - 1 = - int d" "d \<le> fb" and odd: "d = fb \<Longrightarrow> odd (expUI a)"
  defines "M \<equiv> nrnd m sg (magn a) d * 2 ^ d"
  shows "mval fb q M = of_int (rnd m sg (mval fb q (magn a)))"
    and "M \<le> Suc (nat (expUI a)) * 2 ^ fb"
    and "M = magn a \<longleftrightarrow> mval fb q (magn a) \<in> \<int>"
proof -
  define n where "n = unat (fracUI a) + 2 ^ fb"
  have n: "2 ^ fb \<le> n" "n < 2 ^ Suc fb" using fracUI_less [of a] by (simp_all add: n_def)
  obtain e where e: "expUI a = int (Suc e)" using E by (metis gr0_conv_Suc zero_less_imp_eq_int)
  define c where "c = fb - d"
  have fb: "fb = d + c" using d(2) by (simp add: c_def)
  define k where "k = e * 2 ^ c"
  have "even k" using odd e fb by (cases "c = 0") (simp_all add: k_def)
  have P: "(2::nat) ^ fb = 2 ^ d * 2 ^ c" by (simp only: fb power_add)
  have ma: "magn a = 2 ^ d * k + n" unfolding magn_fields e nat_int n_def k_def P by (simp add: algebra_simps)
  define N where "N = nrnd m sg n d"
  have "M = (k + N) * 2 ^ d" unfolding M_def ma nrnd_add [OF \<open>even k\<close>] N_def ..
  then have M: "M = e * 2 ^ fb + N * 2 ^ d" by (simp add: k_def P algebra_simps)
  have "2 ^ c \<le> N" unfolding N_def using n(1) by (intro nrnd_ge) (simp add: fb add.commute)
  moreover have "N \<le> 2 ^ Suc c" unfolding N_def using n(2) by (intro nrnd_le) (simp add: fb add.commute)
  ultimately have "2 ^ c * 2 ^ d \<le> N * 2 ^ d" "N * 2 ^ d \<le> 2 ^ Suc c * 2 ^ d" by (auto intro: mult_le_mono1 simp del: power_Suc)
  then have g: "2 ^ fb \<le> N * 2 ^ d" "N * 2 ^ d \<le> 2 ^ Suc fb" by (simp_all add: fb power_add mult.commute)
  have v: "mval fb q (magn a) = real n / 2 ^ d"
    using magn_value [of q a] e d(1) by (simp add: n_def power_int_minus field_simps)
  have q: "q + int e = - int d" using d(1) e by simp
  have "mval fb q M = real (N * 2 ^ d) * 2 powi (q + int e)" unfolding M by (rule mval_pack) (use g in simp_all)
  also have "\<dots> = real N" unfolding q by (simp add: power_int_minus)
  finally show m: "mval fb q M = of_int (rnd m sg (mval fb q (magn a)))" unfolding v rnd_nat N_def by simp
  show "M \<le> Suc (nat (expUI a)) * 2 ^ fb" unfolding M e nat_int using g(2) by simp
  show "M = magn a \<longleftrightarrow> mval fb q (magn a) \<in> \<int>"
  proof
    assume "M = magn a"
    then show "mval fb q (magn a) \<in> \<int>" using m by (metis Ints_of_int)
  next
    assume "mval fb q (magn a) \<in> \<int>"
    then have "of_int (rnd m sg (mval fb q (magn a))) = mval fb q (magn a)" by (metis Ints_cases rnd_of_int)
    then show "M = magn a" using m by simp
  qed
qed

lemma mval_integral:
  assumes "1 \<le> q + expUI a" "expUI a \<noteq> 0"
  shows "mval fb q (magn a) \<in> \<int>"
proof -
  define k where "k = nat (q + expUI a - 1)"
  have "mval fb q (magn a) = real (unat (fracUI a) + 2 ^ fb) * 2 powi (int k)"
    using assms by (simp add: magn_value k_def)
  then have "mval fb q (magn a) = of_int (int ((unat (fracUI a) + 2 ^ fb) * 2 ^ k))" by simp
  then show ?thesis by (metis Ints_of_int)
qed

end

lemma rnd_integral: "x \<in> \<int> \<Longrightarrow> of_int (rnd m neg x) = x"
  by (metis Ints_cases rnd_of_int)

lemma rnd_below_1:
  assumes "0 < x" "x < 1"
  shows "rnd m neg x = (case m of RNE \<Rightarrow> of_bool (1 / 2 < x) | RMM \<Rightarrow> of_bool (1 / 2 \<le> x) | RTZ \<Rightarrow> 0
    | RDN \<Rightarrow> of_bool neg | RUP \<Rightarrow> of_bool (\<not> neg))" and "x \<notin> \<int>"
proof -
  have fl: "\<lfloor>x\<rfloor> = 0" using assms by (simp add: floor_eq_iff)
  show ni: "x \<notin> \<int>" using fl assms by (metis Ints_cases floor_of_int less_irrefl of_int_0)
  have "frac x = x" using fl by (simp add: frac_def)
  then show "rnd m neg x = (case m of RNE \<Rightarrow> of_bool (1 / 2 < x) | RMM \<Rightarrow> of_bool (1 / 2 \<le> x) | RTZ \<Rightarrow> 0
    | RDN \<Rightarrow> of_bool neg | RUP \<Rightarrow> of_bool (\<not> neg))"
    using fl ni by (cases m) (simp_all add: rnd_def)
qed


subsection \<open>Rounding 32-bit floats\<close>

lemma f32_unat: "unat a = of_bool (f32_sign a) * 2 ^ 31 + f32_magn a"
  using f32.pattern_split [of "ucast a"] by simp

lemma f32_of_magn:
  assumes "unat (r :: u32) = of_bool sg * 2 ^ 31 + M" "M < 2 ^ 31"
  shows "f32_sign r = sg" "f32_magn r = M" "f32_val r = with_sign sg (mval 23 (- 149) M)"
  using assms by (cases sg; simp add: f32_sign_def f32_magn_def f32_val_def)+

lemma f32_roundToInt_mid:
  fixes a :: u32
  assumes e: "0x7E < expF32UI (ucast a)" "expF32UI (ucast a) < 0x96" and rm: "rm \<le> 4"
  defines "r \<equiv> ucast (round_bits rm (f32_sign a) (nat (0x96 - expF32UI (ucast a))) (ucast a)) :: u32"
  shows "f32_sign r = f32_sign a" "f32_val r = with_sign (f32_sign a) (of_int (rnd (rmode_of rm) (f32_sign a) \<bar>f32_val a\<bar>))"
    and "round_bits rm (f32_sign a) (nat (0x96 - expF32UI (ucast a))) (ucast a) \<noteq> ucast a \<longleftrightarrow> \<bar>f32_val a\<bar> \<notin> \<int>"
proof -
  define u :: u64 where "u = ucast a"
  define d where "d = nat (0x96 - expF32UI u)"
  have d: "0 < d" "d \<le> 23" "- 149 + expF32UI u - 1 = - int d" using e by (simp_all add: d_def u_def)
  have E: "0 < expF32UI u" using e by (simp add: u_def)
  have odd: "d = 23 \<Longrightarrow> odd (expF32UI u)" using d(3) by simp
  define M where "M = nrnd (rmode_of rm) (f32_sign a) (f32.magn u) d * 2 ^ d"
  note rp = f32.round_pattern [OF E d(3,2) odd, where m = "rmode_of rm" and sg = "f32_sign a", folded M_def]
  have "nat (expF32UI u) \<le> 0x95" using e by (simp add: u_def)
  then have "Suc (nat (expF32UI u)) * 2 ^ 23 \<le> 0x96 * 2 ^ 23" by (intro mult_le_mono1) simp
  then have M: "M < 2 ^ 31" using rp(2) by simp
  define k where "k = of_bool (f32_sign a) * (2::nat) ^ (31 - d)"
  have kd: "of_bool (f32_sign a) * 2 ^ 31 = 2 ^ d * k" "even k" using d(2) by (simp_all add: k_def flip: power_add)
  have u: "unat u = 2 ^ d * k + f32.magn u" using f32_unat [of a] by (simp add: u_def kd(1) flip: kd(1))
  have "(2::nat) ^ d \<le> 2 ^ 23" using d(2) by (intro power_increasing) simp_all
  then have "unat (round_bits rm (f32_sign a) d u) = nrnd (rmode_of rm) (f32_sign a) (unat u) d * 2 ^ d"
    using d rm unat_lt_pow [of a] by (intro round_bits_nrnd) (simp_all add: u_def)
  also have "\<dots> = of_bool (f32_sign a) * 2 ^ 31 + M"
    unfolding u nrnd_add [OF kd(2)] M_def kd(1) by (simp add: algebra_simps)
  finally have rb: "unat (round_bits rm (f32_sign a) d u) = of_bool (f32_sign a) * 2 ^ 31 + M" .
  then have "unat r = of_bool (f32_sign a) * 2 ^ 31 + M"
    unfolding r_def u_def [symmetric] d_def [symmetric] unat_ucast_mod using M by (cases "f32_sign a") simp_all
  note r = f32_of_magn [OF this M]
  show "f32_sign r = f32_sign a" by (rule r)
  show "f32_val r = with_sign (f32_sign a) (of_int (rnd (rmode_of rm) (f32_sign a) \<bar>f32_val a\<bar>))"
    using rp(1) unfolding r(3) f32_abs_val u_def by simp
  have "round_bits rm (f32_sign a) d u \<noteq> u \<longleftrightarrow> M \<noteq> f32.magn u"
    unfolding word_unat_eq_iff rb kd(1) u by simp
  then show "round_bits rm (f32_sign a) (nat (0x96 - expF32UI (ucast a))) (ucast a) \<noteq> ucast a \<longleftrightarrow> \<bar>f32_val a\<bar> \<notin> \<int>"
    using rp(3) unfolding f32_abs_val u_def d_def by simp
qed


lemma f32_exp_le_7E:
  assumes "expF32UI (ucast a) \<le> 0x7E"
  shows "\<bar>f32_val a\<bar> < 1" "1 / 2 \<le> \<bar>f32_val a\<bar> \<longleftrightarrow> expF32UI (ucast a) = 0x7E"
    "1 / 2 < \<bar>f32_val a\<bar> \<longleftrightarrow> expF32UI (ucast a) = 0x7E \<and> fracF32UI (ucast a) \<noteq> 0"
proof -
  define u :: u64 where "u = ucast a"
  define f where "f = unat (fracF32UI u)"
  have f: "f < 2 ^ 23" using f32.fracUI_less [of u] by (simp add: f_def)
  have M: "f32.magn u = nat (expF32UI u) * 2 ^ 23 + f" by (simp add: f32.magn_fields f_def)
  have half: "mval 23 (- 149) (0x7E * 2 ^ 23) = 1 / 2" "mval 23 (- 149) (0x7F * 2 ^ 23) = 1"
    using mval_normal [of 0 23 "- 149" 125] mval_normal [of 0 23 "- 149" 126] by (simp_all add: power_int_minus)
  have lt: "x < y * 2 ^ 23 \<longleftrightarrow> x div 2 ^ 23 < y" for x y :: nat by (simp add: div_less_iff_less_mult)
  have dv: "f32.magn u div 2 ^ 23 = nat (expF32UI u)" using f unfolding M by simp
  have e: "0 \<le> expF32UI u" by (rule f32.expUI_bounds)
  have i: "f32.magn u < y * 2 ^ 23 \<longleftrightarrow> expF32UI u < int y" for y
    unfolding lt dv using e by (simp add: nat_less_iff)
  show "\<bar>f32_val a\<bar> < 1"
    unfolding f32_abs_val half(2) [symmetric] mval_less_iff u_def [symmetric] i using assms by (simp add: u_def)
  show ge: "1 / 2 \<le> \<bar>f32_val a\<bar> \<longleftrightarrow> expF32UI (ucast a) = 0x7E"
    unfolding f32_abs_val half(1) [symmetric] mval_le_iff u_def [symmetric]
    using i [of "0x7E"] assms unfolding u_def [symmetric] not_less [symmetric] by auto
  have "1 / 2 = \<bar>f32_val a\<bar> \<longleftrightarrow> f32.magn u = 0x7E * 2 ^ 23"
    unfolding f32_abs_val half(1) [symmetric] u_def by auto
  also have "\<dots> \<longleftrightarrow> expF32UI u = 0x7E \<and> f = 0"
  proof
    assume "f32.magn u = 0x7E * 2 ^ 23"
    then have "nat (expF32UI u) = 0x7E" "f = 0" using dv M by simp_all
    then show "expF32UI u = 0x7E \<and> f = 0" using e by simp
  qed (simp add: M)
  finally show "1 / 2 < \<bar>f32_val a\<bar> \<longleftrightarrow> expF32UI (ucast a) = 0x7E \<and> fracF32UI (ucast a) \<noteq> 0"
    using ge unfolding less_le f_def u_def by (auto simp: unat_eq_zero)
qed


lemma packF32_one:
  "f32_sign (ucast (packToF32UI sg (if b then 0x7F else 0) 0) :: u32) = sg"
  "f32_val (ucast (packToF32UI sg (if b then 0x7F else 0) 0) :: u32) = with_sign sg (of_bool b)"
proof -
  define e :: int where "e = (if b then 0x7F else 0)"
  define M where "M = (if b then 0x7F * 2 ^ 23 else 0 :: nat)"
  have "unat (packToF32UI sg e 0) = of_bool sg * 2 ^ 31 + M"
    using packToF32UI_eq [of e 0 sg] by (simp add: e_def M_def)
  moreover have M: "M < 2 ^ 31" by (simp add: M_def)
  ultimately have "unat (ucast (packToF32UI sg e 0) :: u32) = of_bool sg * 2 ^ 31 + M"
    by (cases sg) (simp_all add: unat_ucast_mod)
  note r = f32_of_magn [OF this M]
  have "mval 23 (- 149) M = of_bool b"
    using mval_normal [of 0 23 "- 149" 126] by (simp add: M_def power_int_minus)
  then show "f32_sign (ucast (packToF32UI sg (if b then 0x7F else 0) 0) :: u32) = sg"
    "f32_val (ucast (packToF32UI sg (if b then 0x7F else 0) 0) :: u32) = with_sign sg (of_bool b)"
    using r unfolding e_def by simp_all
qed

lemma packF32_sign_bit:
  "(ucast a :: u64) AND packToF32UI True 0 0 = packToF32UI (f32_sign a) 0 0"
  "packToF32UI sg 0 0 OR packToF32UI False 0x7F 0 = packToF32UI sg 0x7F 0"
  "packToF32UI sg 0 0 = 0 \<longleftrightarrow> \<not> sg"
proof -
  have "unat ((ucast a :: u64) AND push_bit 31 (mask 1)) = unat a div 2 ^ 31 mod 2 ^ 1 * 2 ^ 31"
    using unat_and_shifted_mask [of 31 1 "ucast a :: u64"] by simp
  moreover have "unat a div 2 ^ 31 mod 2 ^ 1 = of_bool (f32_sign a)"
    using unat_lt_pow [of a] by (auto simp: f32_sign_def div_eq_0_iff div_nat_eqI)
  moreover have "packToF32UI True 0 0 = push_bit 31 (mask 1)" by (simp add: packToF32UI_def mask_eq_exp_minus_1)
  moreover have "unat (packToF32UI (f32_sign a) 0 0) = of_bool (f32_sign a) * 2 ^ 31"
    using packToF32UI_eq [of 0 0 "f32_sign a"] by simp
  ultimately show "(ucast a :: u64) AND packToF32UI True 0 0 = packToF32UI (f32_sign a) 0 0"
    by (intro word_of_nat_unat_eqI) simp
  show "packToF32UI sg 0 0 OR packToF32UI False 0x7F 0 = packToF32UI sg 0x7F 0" "packToF32UI sg 0 0 = 0 \<longleftrightarrow> \<not> sg"
    by (cases sg; simp add: packToF32UI_def)+
qed

lemma f32_roundToInt_finite:
  fixes a :: u32
  assumes fin: "f32_isFinite a" and rm: "rm \<le> 4"
  shows "f32_sign (fst (f32_roundToInt a rm exact s)) = f32_sign a \<and>
    f32_val (fst (f32_roundToInt a rm exact s))
      = with_sign (f32_sign a) (of_int (rnd (rmode_of rm) (f32_sign a) \<bar>f32_val a\<bar>)) \<and>
    snd (f32_roundToInt a rm exact s)
      = (if exact \<and> \<bar>f32_val a\<bar> \<notin> \<int> then softfloat_raiseFlags softfloat_flag_inexact s else s)"
proof -
  define u :: u64 where "u = ucast a"
  have e: "expF32UI u < 0xFF" using fin by (simp add: f32_class_exp u_def)
  have sg: "signF32UI u = f32_sign a" by (simp add: u_def)
  have zero: "(ucast (push_bit 1 u) :: u32) = 0 \<longleftrightarrow> f32_magn a = 0"
  proof -
    have "unat (ucast (push_bit 1 u) :: u32) = 2 * unat a mod 2 ^ 32"
      unfolding unat_ucast_mod using unat_lt_pow [of a] by (subst unat_shl_less) (simp_all add: u_def mult.commute)
    also have "\<dots> = 2 * f32_magn a" using mult_mod_right [of 2 "unat a" "2 ^ 31"] by (simp add: f32_magn_def)
    finally show ?thesis by (simp add: word_unat_eq_iff)
  qed
  have val: "f32_val a = with_sign (f32_sign a) \<bar>f32_val a\<bar>" by (simp add: f32_val_def with_sign_def)
  consider "expF32UI u \<le> 0x7E" "f32_magn a = 0" | "expF32UI u \<le> 0x7E" "f32_magn a \<noteq> 0"
    | "0x96 \<le> expF32UI u" | "0x7E < expF32UI u" "expF32UI u < 0x96" by linarith
  then show ?thesis
  proof cases
    case 1
    then have "f32_val a = 0" by (simp add: f32_zero_iff)
    moreover have "f32_roundToInt a rm exact s = (a, s)"
      unfolding f32_roundToInt_def Let_def u_def [symmetric] zero using 1 by simp
    ultimately show ?thesis using rnd_of_int [of "rmode_of rm" "f32_sign a" 0] by simp
  next
    case 2
    define b where "b \<longleftrightarrow> (case rmode_of rm of RNE \<Rightarrow> 1 / 2 < \<bar>f32_val a\<bar> | RMM \<Rightarrow> 1 / 2 \<le> \<bar>f32_val a\<bar> | RTZ \<Rightarrow> False
      | RDN \<Rightarrow> f32_sign a | RUP \<Rightarrow> \<not> f32_sign a)"
    note lo = f32_exp_le_7E [OF 2(1) [unfolded u_def]]
    have pos: "0 < \<bar>f32_val a\<bar>" using 2(2) by (simp add: f32_zero_iff)
    have r: "rnd (rmode_of rm) (f32_sign a) \<bar>f32_val a\<bar> = of_bool b"
      unfolding rnd_below_1(1) [OF pos lo(1)] b_def by (cases "rmode_of rm") simp_all
    have "f32_roundToInt a rm exact s = (ucast (packToF32UI (f32_sign a) (if b then 0x7F else 0) 0),
      if exact then softfloat_raiseFlags softfloat_flag_inexact s else s)"
      unfolding f32_roundToInt_def Let_def u_def [symmetric] zero
      unfolding u_def packF32_sign_bit b_def lo(2,3) rmode_of_def using 2 by (simp add: u_def)
    then show ?thesis using rnd_below_1(2) [OF pos lo(1)] r by (simp add: packF32_one)
  next
    case 3
    then have "\<bar>f32_val a\<bar> \<in> \<int>" unfolding f32_abs_val u_def [symmetric] by (intro f32.mval_integral) simp_all
    then show ?thesis using 3 e val unfolding f32_roundToInt_def Let_def u_def [symmetric] by (simp add: rnd_integral)
  next
    case 4
    have "f32_roundToInt a rm exact s = (let z = round_bits rm (f32_sign a) (nat (0x96 - expF32UI u)) u in
      (ucast z, if exact \<and> z \<noteq> u then softfloat_raiseFlags softfloat_flag_inexact s else s))"
      unfolding f32_roundToInt_def Let_def u_def [symmetric] sg round_bits_def using 4 by simp
    then show ?thesis using f32_roundToInt_mid [of a rm] 4 rm unfolding u_def by (simp add: Let_def)
  qed
qed

subsection \<open>Rounding 64-bit floats\<close>

lemma f64_unat: "unat a = of_bool (f64_sign a) * 2 ^ 63 + f64_magn a"
  using f64.pattern_split [of a] by simp

lemma f64_of_magn:
  assumes "unat (r :: u64) = of_bool sg * 2 ^ 63 + M" "M < 2 ^ 63"
  shows "f64_sign r = sg" "f64_magn r = M" "f64_val r = with_sign sg (mval 52 (- 1074) M)"
  using assms by (cases sg; simp add: f64_sign_def f64_magn_def f64_val_def)+

lemma f64_roundToInt_mid:
  fixes a :: u64
  assumes e: "0x3FE < expF64UI a" "expF64UI a < 0x433" and rm: "rm \<le> 4"
  defines "r \<equiv> round_bits rm (f64_sign a) (nat (0x433 - expF64UI a)) a"
  shows "f64_sign r = f64_sign a" "f64_val r = with_sign (f64_sign a) (of_int (rnd (rmode_of rm) (f64_sign a) \<bar>f64_val a\<bar>))"
    and "round_bits rm (f64_sign a) (nat (0x433 - expF64UI a)) a \<noteq> a \<longleftrightarrow> \<bar>f64_val a\<bar> \<notin> \<int>"
proof -
  define d where "d = nat (0x433 - expF64UI a)"
  have d: "0 < d" "d \<le> 52" "- 1074 + expF64UI a - 1 = - int d" using e by (simp_all add: d_def)
  have E: "0 < expF64UI a" using e by simp
  have odd: "d = 52 \<Longrightarrow> odd (expF64UI a)" using d(3) by simp
  define M where "M = nrnd (rmode_of rm) (f64_sign a) (f64_magn a) d * 2 ^ d"
  note rp = f64.round_pattern [OF E d(3,2) odd, where m = "rmode_of rm" and sg = "f64_sign a", folded M_def, unfolded f64_magn_eq, folded M_def]
  have "nat (expF64UI a) \<le> 0x432" using e by simp
  then have "Suc (nat (expF64UI a)) * 2 ^ 52 \<le> 0x433 * 2 ^ 52" by (intro mult_le_mono1) simp
  then have M: "M < 2 ^ 63" using rp(2) by simp
  define k where "k = of_bool (f64_sign a) * (2::nat) ^ (63 - d)"
  have kd: "of_bool (f64_sign a) * 2 ^ 63 = 2 ^ d * k" "even k" using d(2) by (simp_all add: k_def flip: power_add)
  have ua: "unat a = 2 ^ d * k + f64_magn a" using f64_unat [of a] by (simp add: kd(1) flip: kd(1))
  have "nat (expF64UI a) \<le> 0x432" using e by simp
  then have "nat (expF64UI a) * 2 ^ 52 \<le> 0x432 * 2 ^ 52" by (rule mult_le_mono1)
  then have mb: "f64_magn a < 0x433 * 2 ^ 52" using f64.fracUI_less [of a] by (simp add: f64_magn_fields)
  have "(2::nat) ^ d \<le> 2 ^ 52" using d(2) by (intro power_increasing) simp_all
  then have "unat a + 2 ^ d < 2 ^ 64" using f64_unat [of a] mb by (cases "f64_sign a") simp_all
  then have "unat (round_bits rm (f64_sign a) d a) = nrnd (rmode_of rm) (f64_sign a) (unat a) d * 2 ^ d"
    using d rm by (intro round_bits_nrnd) simp_all
  also have "\<dots> = of_bool (f64_sign a) * 2 ^ 63 + M"
    unfolding ua nrnd_add [OF kd(2)] M_def kd(1) by (simp add: algebra_simps)
  finally have rb: "unat (round_bits rm (f64_sign a) d a) = of_bool (f64_sign a) * 2 ^ 63 + M" .
  then have "unat r = of_bool (f64_sign a) * 2 ^ 63 + M"
    unfolding r_def d_def [symmetric] unat_ucast_mod using M by (cases "f64_sign a") simp_all
  note r = f64_of_magn [OF this M]
  show "f64_sign r = f64_sign a" by (rule r)
  show "f64_val r = with_sign (f64_sign a) (of_int (rnd (rmode_of rm) (f64_sign a) \<bar>f64_val a\<bar>))"
    using rp(1) unfolding r(3) f64_abs_val by simp
  have "round_bits rm (f64_sign a) d a \<noteq> a \<longleftrightarrow> M \<noteq> f64_magn a"
    unfolding word_unat_eq_iff rb kd(1) ua by simp
  then show "round_bits rm (f64_sign a) (nat (0x433 - expF64UI a)) a \<noteq> a \<longleftrightarrow> \<bar>f64_val a\<bar> \<notin> \<int>"
    using rp(3) unfolding f64_abs_val d_def by simp
qed


lemma f64_exp_le_3FE:
  assumes "expF64UI a \<le> 0x3FE"
  shows "\<bar>f64_val a\<bar> < 1" "1 / 2 \<le> \<bar>f64_val a\<bar> \<longleftrightarrow> expF64UI a = 0x3FE"
    "1 / 2 < \<bar>f64_val a\<bar> \<longleftrightarrow> expF64UI a = 0x3FE \<and> fracF64UI a \<noteq> 0"
proof -
  define f where "f = unat (fracF64UI a)"
  have f: "f < 2 ^ 52" using f64.fracUI_less [of a] by (simp add: f_def)
  have M: "f64_magn a = nat (expF64UI a) * 2 ^ 52 + f" by (simp add: f64_magn_fields f_def)
  have half: "mval 52 (- 1074) (0x3FE * 2 ^ 52) = 1 / 2" "mval 52 (- 1074) (0x3FF * 2 ^ 52) = 1"
    using mval_normal [of 0 52 "- 1074" 1021] mval_normal [of 0 52 "- 1074" 1022] by (simp_all add: power_int_minus)
  have lt: "x < y * 2 ^ 52 \<longleftrightarrow> x div 2 ^ 52 < y" for x y :: nat by (simp add: div_less_iff_less_mult)
  have dv: "f64_magn a div 2 ^ 52 = nat (expF64UI a)" using f unfolding M by simp
  have e: "0 \<le> expF64UI a" by (rule f64.expUI_bounds)
  have i: "f64_magn a < y * 2 ^ 52 \<longleftrightarrow> expF64UI a < int y" for y
    unfolding lt dv using e by (simp add: nat_less_iff)
  show "\<bar>f64_val a\<bar> < 1"
    unfolding f64_abs_val f64_magn_eq half(2) [symmetric] mval_less_iff i using assms by simp
  show ge: "1 / 2 \<le> \<bar>f64_val a\<bar> \<longleftrightarrow> expF64UI a = 0x3FE"
    unfolding f64_abs_val f64_magn_eq half(1) [symmetric] mval_le_iff
    using i [of "0x3FE"] assms unfolding not_less [symmetric] by auto
  have "1 / 2 = \<bar>f64_val a\<bar> \<longleftrightarrow> f64_magn a = 0x3FE * 2 ^ 52"
    unfolding f64_abs_val half(1) [symmetric] by auto
  also have "\<dots> \<longleftrightarrow> expF64UI a = 0x3FE \<and> f = 0"
  proof
    assume "f64_magn a = 0x3FE * 2 ^ 52"
    then have "nat (expF64UI a) = 0x3FE" "f = 0" using dv M by simp_all
    then show "expF64UI a = 0x3FE \<and> f = 0" using e by simp
  qed (simp add: M)
  finally show "1 / 2 < \<bar>f64_val a\<bar> \<longleftrightarrow> expF64UI a = 0x3FE \<and> fracF64UI a \<noteq> 0"
    using ge unfolding less_le f_def by (auto simp: unat_eq_zero)
qed


lemma packF64_one:
  "f64_sign (packToF64UI sg (if b then 0x3FF else 0) 0) = sg"
  "f64_val (packToF64UI sg (if b then 0x3FF else 0) 0) = with_sign sg (of_bool b)"
proof -
  define e :: int where "e = (if b then 0x3FF else 0)"
  define M where "M = (if b then 0x3FF * 2 ^ 52 else 0 :: nat)"
  have "unat (packToF64UI sg e 0) = of_bool sg * 2 ^ 63 + M"
    using packToF64UI_eq [of e 0 sg] by (simp add: e_def M_def)
  moreover have M: "M < 2 ^ 63" by (simp add: M_def)
  ultimately have "unat (packToF64UI sg e 0) = of_bool sg * 2 ^ 63 + M"
    by (cases sg) (simp_all add: unat_ucast_mod)
  note r = f64_of_magn [OF this M]
  have "mval 52 (- 1074) M = of_bool b"
    using mval_normal [of 0 52 "- 1074" 1022] by (simp add: M_def power_int_minus)
  then show "f64_sign (packToF64UI sg (if b then 0x3FF else 0) 0) = sg"
    "f64_val (packToF64UI sg (if b then 0x3FF else 0) 0) = with_sign sg (of_bool b)"
    using r unfolding e_def by simp_all
qed

lemma packF64_sign_bit:
  "a AND packToF64UI True 0 0 = packToF64UI (f64_sign a) 0 0"
  "packToF64UI sg 0 0 OR packToF64UI False 0x3FF 0 = packToF64UI sg 0x3FF 0"
  "packToF64UI sg 0 0 = 0 \<longleftrightarrow> \<not> sg"
proof -
  have "unat (a AND push_bit 63 (mask 1)) = unat a div 2 ^ 63 mod 2 ^ 1 * 2 ^ 63"
    using unat_and_shifted_mask [of 63 1 a] by simp
  moreover have "unat a div 2 ^ 63 mod 2 ^ 1 = of_bool (f64_sign a)"
    using unat_lt_pow [of a] by (auto simp: f64_sign_def div_eq_0_iff div_nat_eqI)
  moreover have "packToF64UI True 0 0 = push_bit 63 (mask 1)" by (simp add: packToF64UI_def mask_eq_exp_minus_1)
  moreover have "unat (packToF64UI (f64_sign a) 0 0) = of_bool (f64_sign a) * 2 ^ 63"
    using packToF64UI_eq [of 0 0 "f64_sign a"] by simp
  ultimately show "a AND packToF64UI True 0 0 = packToF64UI (f64_sign a) 0 0"
    by (intro word_of_nat_unat_eqI) simp
  show "packToF64UI sg 0 0 OR packToF64UI False 0x3FF 0 = packToF64UI sg 0x3FF 0" "packToF64UI sg 0 0 = 0 \<longleftrightarrow> \<not> sg"
    by (cases sg; simp add: packToF64UI_def)+
qed

lemma f64_roundToInt_finite:
  fixes a :: u64
  assumes fin: "f64_isFinite a" and rm: "rm \<le> 4"
  shows "f64_sign (fst (f64_roundToInt a rm exact s)) = f64_sign a \<and>
    f64_val (fst (f64_roundToInt a rm exact s))
      = with_sign (f64_sign a) (of_int (rnd (rmode_of rm) (f64_sign a) \<bar>f64_val a\<bar>)) \<and>
    snd (f64_roundToInt a rm exact s)
      = (if exact \<and> \<bar>f64_val a\<bar> \<notin> \<int> then softfloat_raiseFlags softfloat_flag_inexact s else s)"
proof -
  have e: "expF64UI a < 0x7FF" using fin by (simp add: f64_class_exp )
  have sg: "signF64UI a = f64_sign a" by simp
  have zero: "a AND 0x7FFFFFFFFFFFFFFF = 0 \<longleftrightarrow> f64_magn a = 0"
    using unat_and_mask [of a 63] unfolding f64_magn_def by (simp add: mask_eq_exp_minus_1) (metis unat_eq_zero)
  have val: "f64_val a = with_sign (f64_sign a) \<bar>f64_val a\<bar>" by (simp add: f64_val_def with_sign_def)
  consider "expF64UI a \<le> 0x3FE" "f64_magn a = 0" | "expF64UI a \<le> 0x3FE" "f64_magn a \<noteq> 0"
    | "0x433 \<le> expF64UI a" | "0x3FE < expF64UI a" "expF64UI a < 0x433" by linarith
  then show ?thesis
  proof cases
    case 1
    then have "f64_val a = 0" by (simp add: f64_zero_iff)
    moreover have "f64_roundToInt a rm exact s = (a, s)"
      unfolding f64_roundToInt_def Let_def zero using 1 by simp
    ultimately show ?thesis using rnd_of_int [of "rmode_of rm" "f64_sign a" 0] by simp
  next
    case 2
    define b where "b \<longleftrightarrow> (case rmode_of rm of RNE \<Rightarrow> 1 / 2 < \<bar>f64_val a\<bar> | RMM \<Rightarrow> 1 / 2 \<le> \<bar>f64_val a\<bar> | RTZ \<Rightarrow> False
      | RDN \<Rightarrow> f64_sign a | RUP \<Rightarrow> \<not> f64_sign a)"
    note lo = f64_exp_le_3FE [OF 2(1)]
    have pos: "0 < \<bar>f64_val a\<bar>" using 2(2) by (simp add: f64_zero_iff)
    have r: "rnd (rmode_of rm) (f64_sign a) \<bar>f64_val a\<bar> = of_bool b"
      unfolding rnd_below_1(1) [OF pos lo(1)] b_def by (cases "rmode_of rm") simp_all
    have "f64_roundToInt a rm exact s = (packToF64UI (f64_sign a) (if b then 0x3FF else 0) 0,
      if exact then softfloat_raiseFlags softfloat_flag_inexact s else s)"
      unfolding f64_roundToInt_def Let_def zero
      unfolding packF64_sign_bit b_def lo(2,3) rmode_of_def using 2 by simp
    then show ?thesis using rnd_below_1(2) [OF pos lo(1)] r by (simp add: packF64_one)
  next
    case 3
    then have "\<bar>f64_val a\<bar> \<in> \<int>" unfolding f64_abs_val by (intro f64.mval_integral) simp_all
    then show ?thesis using 3 e val unfolding f64_roundToInt_def Let_def by (simp add: rnd_integral)
  next
    case 4
    have "f64_roundToInt a rm exact s = (let z = round_bits rm (f64_sign a) (nat (0x433 - expF64UI a)) a in
      (z, if exact \<and> z \<noteq> a then softfloat_raiseFlags softfloat_flag_inexact s else s))"
      unfolding f64_roundToInt_def Let_def sg round_bits_def using 4 by simp
    then show ?thesis using f64_roundToInt_mid [of a rm] 4 rm by (simp add: Let_def)
  qed
qed

end
