(* ===== verification/SoftFloat_Special.thy ===== *)
theory SoftFloat_Special
  imports SoftFloat_Compare SoftFloat_Div SoftFloat_Truncate SoftFloat_FromInt SoftFloat_Convert SoftFloat_RoundToInt
begin

text \<open>
  Exceptional operands and the library state.  Every operation leaves the rounding mode and the
  tininess mode alone and only adds exception flags; the NaN rule, the infinities and the zero
  divisors of the four binary operations are stated once in a locale and interpreted for the eight
  functions.
\<close>

subsection \<open>Only flags are written, and they are only added\<close>

named_theorems op_unfold "definitions of the operations"

lemmas rounding_unfold =
  softfloat_roundPackToF32_def roundPackToF32_pack_def softfloat_roundPackToF64_def roundPackToF64_pack_def
  softfloat_normRoundPackToF32_def softfloat_normRoundPackToF64_def

lemma flags_propagate [flags_intro]:
  "flags_raised s (snd (softfloat_propagateNaNF32UI uiA uiB s))"
  "flags_raised s (snd (softfloat_propagateNaNF64UI uiA uiB s))"
  by (simp_all add: softfloat_propagateNaNF32UI_def softfloat_propagateNaNF64UI_def flags_intro)

lemma flags_roundPack [flags_intro]:
  "flags_raised s (snd (softfloat_roundPackToF32 sg e g s))"
  "flags_raised s (snd (softfloat_roundPackToF64 sg e g' s))"
  by (simp_all add: softfloat_roundPackToF32_def roundPackToF32_pack_def softfloat_roundPackToF64_def
      roundPackToF64_pack_def Let_def flags_intro)

lemma flags_normRoundPack [flags_intro]:
  "flags_raised s (snd (softfloat_normRoundPackToF32 sg e g s))"
  "flags_raised s (snd (softfloat_normRoundPackToF64 sg e g' s))"
  by (simp_all add: softfloat_normRoundPackToF32_def softfloat_normRoundPackToF64_def Let_def flags_intro)

lemma flags_if [flags_intro]:
  "flags_raised s (snd x) \<Longrightarrow> flags_raised s (snd y) \<Longrightarrow> flags_raised s (snd (if b then x else y))"
  by simp

lemma flags_add_sub [flags_intro]:
  "flags_raised s (snd (softfloat_addMagsF32 uiA uiB sg s))"
  "flags_raised s (snd (softfloat_subMagsF32 uiA uiB sg s))"
  "flags_raised s (snd (softfloat_addMagsF64 uiA uiB sg s))"
  "flags_raised s (snd (softfloat_subMagsF64 uiA uiB sg s))"
  by (simp_all add: softfloat_addMagsF32_def softfloat_subMagsF32_def addMagsF32_sum_def
      softfloat_addMagsF64_def softfloat_subMagsF64_def addMagsF64_sum_def Let_def flags_intro)

lemma flags_f32_arith [flags_intro]:
  "flags_raised s (snd (f32_add a b s))" "flags_raised s (snd (f32_sub a b s))"
  "flags_raised s (snd (f32_mul a b s))" "flags_raised s (snd (f32_div a b s))"
  by (simp_all add: f32_add_def f32_sub_def f32_mul_def f32_mul_infArg_def f32_div_def Let_def flags_intro
      split: prod.split)

lemma flags_f64_arith [flags_intro]:
  "flags_raised s (snd (f64_add a b s))" "flags_raised s (snd (f64_sub a b s))"
  "flags_raised s (snd (f64_mul a b s))" "flags_raised s (snd (f64_div a b s))"
  by (simp_all add: f64_add_def f64_sub_def f64_mul_def f64_mul_infArg_def f64_div_def Let_def flags_intro
      split: prod.split)

lemma flags_compare [flags_intro]:
  "flags_raised s (snd (f32_eq a b s))" "flags_raised s (snd (f32_eq_signaling a b s))"
  "flags_raised s (snd (f32_le a b s))" "flags_raised s (snd (f32_le_quiet a b s))"
  "flags_raised s (snd (f32_lt a b s))" "flags_raised s (snd (f32_lt_quiet a b s))"
  "flags_raised s (snd (f64_eq c d s))" "flags_raised s (snd (f64_eq_signaling c d s))"
  "flags_raised s (snd (f64_le c d s))" "flags_raised s (snd (f64_le_quiet c d s))"
  "flags_raised s (snd (f64_lt c d s))" "flags_raised s (snd (f64_lt_quiet c d s))"
  by (simp_all add: f32_eq_def f32_eq_signaling_def f32_le_def f32_le_quiet_def f32_lt_def f32_lt_quiet_def
      f64_eq_def f64_eq_signaling_def f64_le_def f64_le_quiet_def f64_lt_def f64_lt_quiet_def Let_def flags_intro)

lemma flags_to_int [flags_intro]: "flags_raised s (snd (to_int lo hi m exact neg X s))"
  by (simp add: to_int_def Let_def flags_intro)

lemma flags_to_integers [flags_intro]:
  "flags_raised s (snd (f32_to_i32 a rm exact s))" "flags_raised s (snd (f32_to_i64 a rm exact s))"
  "flags_raised s (snd (f32_to_ui32 a rm exact s))" "flags_raised s (snd (f32_to_ui64 a rm exact s))"
  "flags_raised s (snd (f64_to_i32 b rm exact s))" "flags_raised s (snd (f64_to_i64 b rm exact s))"
  "flags_raised s (snd (f64_to_ui32 b rm exact s))" "flags_raised s (snd (f64_to_ui64 b rm exact s))"
  using flags_to_int
  by (simp_all only: f32_to_i32_eq f32_to_i64_eq f64_to_i32_eq f64_to_i64_eq)
    (metis snd_apfst f32_to_ui32_eq f32_to_ui64_eq f64_to_ui32_eq f64_to_ui64_eq)+

lemma flags_truncating [flags_intro]:
  "flags_raised s (snd (f32_to_i32_r_minMag a exact s))" "flags_raised s (snd (f32_to_i64_r_minMag a exact s))"
  "flags_raised s (snd (f32_to_ui32_r_minMag a exact s))" "flags_raised s (snd (f32_to_ui64_r_minMag a exact s))"
  "flags_raised s (snd (f64_to_i32_r_minMag b exact s))" "flags_raised s (snd (f64_to_i64_r_minMag b exact s))"
  "flags_raised s (snd (f64_to_ui32_r_minMag b exact s))" "flags_raised s (snd (f64_to_ui64_r_minMag b exact s))"
  using flags_to_int
  by (simp_all only: f32_to_i32_r_minMag_eq f32_to_i64_r_minMag_eq f64_to_i32_r_minMag_eq f64_to_i64_r_minMag_eq)
    (metis snd_apfst f32_to_ui32_r_minMag_eq f32_to_ui64_r_minMag_eq f64_to_ui32_r_minMag_eq f64_to_ui64_r_minMag_eq)+

lemma flags_from_integers [flags_intro]:
  "flags_raised s (snd (i32_to_f32 w s))" "flags_raised s (snd (i64_to_f32 l s))"
  "flags_raised s (snd (ui32_to_f32 w s))" "flags_raised s (snd (ui64_to_f32 l s))"
  "flags_raised s (snd (i32_to_f64 w s))" "flags_raised s (snd (i64_to_f64 l s))"
  "flags_raised s (snd (ui32_to_f64 w s))" "flags_raised s (snd (ui64_to_f64 l s))"
  by (simp_all add: i32_to_f32_def i64_to_f32_def ui32_to_f32_def ui64_to_f32_def i32_to_f64_def i64_to_f64_def
      ui32_to_f64_def ui64_to_f64_def Let_def flags_intro)

lemma flags_formats [flags_intro]:
  "flags_raised s (snd (f32_to_f64 a s))" "flags_raised s (snd (f64_to_f32 b s))"
  "flags_raised s (snd (f32_roundToInt a rm exact s))" "flags_raised s (snd (f64_roundToInt b rm exact s))"
  by (simp_all add: f32_to_f64_def f64_to_f32_def softfloat_f32UIToCommonNaN_def softfloat_f64UIToCommonNaN_def
      f32_roundToInt_def f64_roundToInt_def Let_def flags_intro split: prod.split)

subsection \<open>The NaN rule\<close>

text \<open>
  The contract of a two-operand arithmetic operation for NaNs, as \<^verbatim>\<open>specialize.h\<close> fixes it: the result
  is the default NaN and the invalid flag is raised exactly for a signaling operand.
\<close>

locale nan_operation =
  fixes isNaN isSNaN :: "'a \<Rightarrow> bool" and default :: 'a
    and oper :: "'a \<Rightarrow> 'a \<Rightarrow> softfloat_state \<Rightarrow> 'a \<times> softfloat_state"
  assumes oper_nan: "isNaN a \<or> isNaN b \<Longrightarrow> oper a b s =
      (default, if isSNaN a \<or> isSNaN b then softfloat_raiseFlags softfloat_flag_invalid s else s)"
    and default_nan: "isNaN default" "\<not> isSNaN default"
    and oper_flags: "flags_raised s (snd (oper a b s))"
begin

lemma quiet_nan_silent: "isNaN a \<or> isNaN b \<Longrightarrow> \<not> isSNaN a \<Longrightarrow> \<not> isSNaN b \<Longrightarrow> oper a b s = (default, s)"
  by (simp add: oper_nan)

text \<open>An accumulation that has met a NaN stays the default NaN, and keeps the flags it has.\<close>

definition accumulate :: "'a list \<Rightarrow> 'a \<Rightarrow> softfloat_state \<Rightarrow> 'a \<times> softfloat_state" where
  "accumulate xs x s = fold (\<lambda>y (x, s). oper x y s) xs (x, s)"

lemma accumulate_Cons: "accumulate (y # ys) x s = (case oper x y s of (x', s') \<Rightarrow> accumulate ys x' s')"
  by (simp add: accumulate_def split: prod.split)

lemma accumulate_nan: "fst (accumulate xs default s) = default"
proof (induction xs arbitrary: s)
  case (Cons y ys)
  then show ?case using default_nan(1) by (simp add: accumulate_Cons oper_nan)
qed (simp add: accumulate_def)

lemma accumulate_absorbs:
  assumes "isNaN y" and "y \<in> set xs"
  shows "fst (accumulate xs x s) = default"
  using assms(2)
proof (induction xs arbitrary: x s)
  case (Cons z zs)
  show ?case
  proof (cases "y = z")
    case True
    then show ?thesis using assms(1) by (simp add: accumulate_Cons oper_nan accumulate_nan)
  next
    case False
    then show ?thesis using Cons by (simp add: accumulate_Cons split: prod.split)
  qed
qed simp

lemma accumulate_flags: "flags_raised s (snd (accumulate xs x s))"
proof (induction xs arbitrary: x s)
  case (Cons y ys)
  obtain x' s' where o: "oper x y s = (x', s')" by fastforce
  then have "flags_raised s s'" using oper_flags [of s x y] by simp
  then show ?case using Cons [of s' x'] by (simp add: accumulate_Cons o) (rule flags_raised_trans)
qed (simp add: accumulate_def flags_intro)

end

lemma f32_default_nan: "f32_isNaN 0x7FC00000" "\<not> f32_isSNaN 0x7FC00000"
  by (simp_all add: f32_isNaN_def f32_isSNaN_def f32_magn_def inf_magn_def)

lemma f64_default_nan: "f64_isNaN 0x7FF8000000000000" "\<not> f64_isSNaN 0x7FF8000000000000"
  by (simp_all add: f64_isNaN_def f64_isSNaN_def f64_magn_def inf_magn_def)

lemma propagateNaN_f32:
  "apfst ucast (softfloat_propagateNaNF32UI (ucast a) (ucast b) s) =
     (0x7FC00000 :: u32, if f32_isSNaN a \<or> f32_isSNaN b then softfloat_raiseFlags softfloat_flag_invalid s else s)"
  by (simp add: softfloat_propagateNaNF32UI_def)

lemma propagateNaN_f64:
  "softfloat_propagateNaNF64UI a b s =
     (0x7FF8000000000000, if f64_isSNaN a \<or> f64_isSNaN b then softfloat_raiseFlags softfloat_flag_invalid s else s)"
  by (simp add: softfloat_propagateNaNF64UI_def)

lemma f32_nan_fields:
  assumes "f32_isNaN a \<or> f32_isNaN b"
  shows "expF32UI (ucast a) = 0xFF \<and> fracF32UI (ucast a) \<noteq> 0 \<or> expF32UI (ucast b) = 0xFF \<and> fracF32UI (ucast b) \<noteq> 0"
  using assms by (simp only: f32_class_exp)

lemma f64_nan_fields:
  assumes "f64_isNaN a \<or> f64_isNaN b"
  shows "expF64UI a = 0x7FF \<and> fracF64UI a \<noteq> 0 \<or> expF64UI b = 0x7FF \<and> fracF64UI b \<noteq> 0"
  using assms by (simp only: f64_class_exp)

lemma frac_shift_eq_0:
  "push_bit 6 (fracF32UI w) = 0 \<longleftrightarrow> fracF32UI w = 0" "push_bit 7 (fracF32UI w) = 0 \<longleftrightarrow> fracF32UI w = 0"
  "push_bit 9 (fracF64UI w) = 0 \<longleftrightarrow> fracF64UI w = 0" "push_bit 10 (fracF64UI w) = 0 \<longleftrightarrow> fracF64UI w = 0"
  using f32.fracUI_less [of w] f64.fracUI_less [of w]
  by (simp_all only: unat_eq_zero [symmetric] unat_shl_less) (simp_all add: unat_shl_less)

lemma f32_exp_le: "expF32UI w \<le> 0xFF" and f64_exp_le: "expF64UI w \<le> 0x7FF"
  using f32.expUI_bounds [of w] f64.expUI_bounds [of w] by simp_all

lemma f32_addMags_nan:
  assumes "f32_isNaN a \<or> f32_isNaN b"
  shows "softfloat_addMagsF32 (ucast a) (ucast b) sg s = apfst ucast (softfloat_propagateNaNF32UI (ucast a) (ucast b) s)"
    and "softfloat_subMagsF32 (ucast a) (ucast b) sg s = apfst ucast (softfloat_propagateNaNF32UI (ucast a) (ucast b) s)"
  using f32_nan_fields [OF assms] f32_exp_le [of "ucast a"] f32_exp_le [of "ucast b"]
  by (auto simp: softfloat_addMagsF32_def softfloat_subMagsF32_def Let_def frac_shift_eq_0 or_eq_0_iff)

lemma f64_addMags_nan:
  assumes "f64_isNaN a \<or> f64_isNaN b"
  shows "softfloat_addMagsF64 a b sg s = softfloat_propagateNaNF64UI a b s"
    and "softfloat_subMagsF64 a b sg s = softfloat_propagateNaNF64UI a b s"
  using f64_nan_fields [OF assms] f64_exp_le [of a] f64_exp_le [of b]
  by (auto simp: softfloat_addMagsF64_def softfloat_subMagsF64_def Let_def frac_shift_eq_0 or_eq_0_iff)

lemma f32_mul_div_nan:
  assumes "f32_isNaN a \<or> f32_isNaN b"
  shows "f32_mul a b s = apfst ucast (softfloat_propagateNaNF32UI (ucast a) (ucast b) s)"
    and "f32_div a b s = apfst ucast (softfloat_propagateNaNF32UI (ucast a) (ucast b) s)"
proof -
  consider "expF32UI (ucast a) = 0xFF" "fracF32UI (ucast a) \<noteq> 0"
    | "expF32UI (ucast a) = 0xFF" "fracF32UI (ucast a) = 0" "expF32UI (ucast b) = 0xFF" "fracF32UI (ucast b) \<noteq> 0"
    | "expF32UI (ucast a) \<noteq> 0xFF" "expF32UI (ucast b) = 0xFF" "fracF32UI (ucast b) \<noteq> 0"
    using f32_nan_fields [OF assms] by blast
  note c = this
  show "f32_mul a b s = apfst ucast (softfloat_propagateNaNF32UI (ucast a) (ucast b) s)" by (rule c) (simp_all add: f32_mul_def Let_def)
  show "f32_div a b s = apfst ucast (softfloat_propagateNaNF32UI (ucast a) (ucast b) s)" by (rule c) (simp_all add: f32_div_def Let_def)
qed

lemma f64_mul_div_nan:
  assumes "f64_isNaN a \<or> f64_isNaN b"
  shows "f64_mul a b s = softfloat_propagateNaNF64UI a b s"
    and "f64_div a b s = softfloat_propagateNaNF64UI a b s"
proof -
  consider "expF64UI a = 0x7FF" "fracF64UI a \<noteq> 0"
    | "expF64UI a = 0x7FF" "fracF64UI a = 0" "expF64UI b = 0x7FF" "fracF64UI b \<noteq> 0"
    | "expF64UI a \<noteq> 0x7FF" "expF64UI b = 0x7FF" "fracF64UI b \<noteq> 0"
    using f64_nan_fields [OF assms] by blast
  note c = this
  show "f64_mul a b s = softfloat_propagateNaNF64UI a b s" by (rule c) (simp_all add: f64_mul_def Let_def)
  show "f64_div a b s = softfloat_propagateNaNF64UI a b s" by (rule c) (simp_all add: f64_div_def Let_def)
qed

lemmas f32_nan_simps = f32_add_def f32_sub_def Let_def f32_addMags_nan f32_mul_div_nan propagateNaN_f32
lemmas f64_nan_simps = f64_add_def f64_sub_def Let_def f64_addMags_nan f64_mul_div_nan propagateNaN_f64

interpretation add32: nan_operation f32_isNaN f32_isSNaN "0x7FC00000" f32_add
  by unfold_locales (simp_all add: f32_nan_simps f32_default_nan flags_intro)
interpretation sub32: nan_operation f32_isNaN f32_isSNaN "0x7FC00000" f32_sub
  by unfold_locales (simp_all add: f32_nan_simps f32_default_nan flags_intro)
interpretation mul32: nan_operation f32_isNaN f32_isSNaN "0x7FC00000" f32_mul
  by unfold_locales (simp_all add: f32_nan_simps f32_default_nan flags_intro)
interpretation div32: nan_operation f32_isNaN f32_isSNaN "0x7FC00000" f32_div
  by unfold_locales (simp_all add: f32_nan_simps f32_default_nan flags_intro)
interpretation add64: nan_operation f64_isNaN f64_isSNaN "0x7FF8000000000000" f64_add
  by unfold_locales (simp_all add: f64_nan_simps f64_default_nan flags_intro)
interpretation sub64: nan_operation f64_isNaN f64_isSNaN "0x7FF8000000000000" f64_sub
  by unfold_locales (simp_all add: f64_nan_simps f64_default_nan flags_intro)
interpretation mul64: nan_operation f64_isNaN f64_isSNaN "0x7FF8000000000000" f64_mul
  by unfold_locales (simp_all add: f64_nan_simps f64_default_nan flags_intro)
interpretation div64: nan_operation f64_isNaN f64_isSNaN "0x7FF8000000000000" f64_div
  by unfold_locales (simp_all add: f64_nan_simps f64_default_nan flags_intro)

subsection \<open>Infinities and zero divisors\<close>

definition f32_infinity :: "bool \<Rightarrow> u32" where
  "f32_infinity sg = (if sg then 0xFF800000 else 0x7F800000)"

definition f64_infinity :: "bool \<Rightarrow> u64" where
  "f64_infinity sg = (if sg then 0xFFF0000000000000 else 0x7FF0000000000000)"

lemma f32_pack_infinity: "ucast (packToF32UI sg 0xFF 0) = f32_infinity sg"
  by (cases sg) (simp_all add: packToF32UI_def f32_infinity_def)

lemma f64_pack_infinity: "packToF64UI sg 0x7FF 0 = f64_infinity sg"
  by (cases sg) (simp_all add: packToF64UI_def f64_infinity_def)

lemma f32_isInf_iff: "f32_isInf a \<longleftrightarrow> a = f32_infinity (f32_sign a)"
proof -
  have "f32_magn (f32_infinity sg) = inf_magn 23 8" for sg
    by (simp add: f32_magn_def f32_infinity_def inf_magn_def)
  moreover have "f32_sign (f32_infinity sg) = sg" for sg
    by (simp add: f32_sign_def f32_infinity_def)
  moreover have "unat a = of_bool (f32_sign a) * 2 ^ 31 + f32_magn a" for a
    using f32.pattern_split [of "ucast a"] by simp
  moreover have "a = b" if "f32_sign a = f32_sign b" "f32_magn a = f32_magn b" for a b
    using calculation(3) [of a] calculation(3) [of b] that by (intro word_of_nat_unat_eqI) simp
  ultimately show ?thesis unfolding f32_isInf_def by metis
qed

lemma f64_isInf_iff: "f64_isInf a \<longleftrightarrow> a = f64_infinity (f64_sign a)"
proof -
  have "f64_magn (f64_infinity sg) = inf_magn 52 11" for sg
    by (simp add: f64_magn_def f64_infinity_def inf_magn_def)
  moreover have "f64_sign (f64_infinity sg) = sg" for sg
    by (simp add: f64_sign_def f64_infinity_def)
  moreover have "unat a = of_bool (f64_sign a) * 2 ^ 63 + f64_magn a" for a
    using f64.pattern_split [of a] by simp
  moreover have "a = b" if "f64_sign a = f64_sign b" "f64_magn a = f64_magn b" for a b
    using calculation(3) [of a] calculation(3) [of b] that by (intro word_of_nat_unat_eqI) simp
  ultimately show ?thesis unfolding f64_isInf_def by metis
qed

lemma ucast_ucast_32 [simp]: "ucast (ucast a :: u64) = a" for a :: u32
  using unat_lt_pow [of a] by (intro word_of_nat_unat_eqI) (simp add: unat_ucast_mod)

lemma f32_zero_bits: "word_of_int (expF32UI (ucast a)) OR fracF32UI (ucast a) = (0 :: u64) \<longleftrightarrow> f32_val a = 0"
proof -
  have "unat (word_of_int (expF32UI (ucast a)) :: u64) = nat (expF32UI (ucast a))"
    using f32.expUI_bounds [of "ucast a"] by (intro unat_word_of_int_less) simp_all
  then have "(word_of_int (expF32UI (ucast a)) :: u64) = 0 \<longleftrightarrow> expF32UI (ucast a) = 0"
    using f32.expUI_bounds [of "ucast a"] by (simp flip: unat_eq_zero)
  then show ?thesis
    using f32.magn_eq_0_iff [of "ucast a"] by (simp add: or_eq_0_iff f32_zero_iff)
qed

lemma f32_not_nan: "\<not> f32_isNaN a \<longleftrightarrow> f32_isInf a \<or> f32_isFinite a"
  by (auto simp: f32_isNaN_def f32_isInf_def f32_isFinite_def)

lemma f32_infinite_value: "f32_isInf a \<Longrightarrow> f32_val a \<noteq> 0"
  by (simp add: f32_zero_iff f32_isInf_def inf_magn_def)

lemma f32_infinity_sign [simp]: "f32_sign (f32_infinity sg) = sg"
  by (simp add: f32_sign_def f32_infinity_def)

lemma f32_add_infinity:
  assumes "f32_isInf a"
  shows "f32_isInf b \<Longrightarrow> f32_sign a \<noteq> f32_sign b \<Longrightarrow>
           f32_add a b s = (0x7FC00000, softfloat_raiseFlags softfloat_flag_invalid s)"
    and "f32_isInf b \<Longrightarrow> f32_sign a = f32_sign b \<Longrightarrow> f32_add a b s = (a, s)"
    and "f32_isFinite b \<Longrightarrow> f32_add a b s = (a, s)"
    and "f32_isFinite b \<Longrightarrow> f32_add b a s = (a, s)"
  using assms f32_isInf_iff [of a]
  by (auto simp: f32_add_def softfloat_addMagsF32_def softfloat_subMagsF32_def f32_pack_infinity
      Let_def frac_shift_eq_0 simp flip: f32_class_exp(2,3))

lemma f32_sub_infinity:
  assumes "f32_isInf a"
  shows "f32_isInf b \<Longrightarrow> f32_sign a = f32_sign b \<Longrightarrow>
           f32_sub a b s = (0x7FC00000, softfloat_raiseFlags softfloat_flag_invalid s)"
    and "f32_isInf b \<Longrightarrow> f32_sign a \<noteq> f32_sign b \<Longrightarrow> f32_sub a b s = (a, s)"
    and "f32_isFinite b \<Longrightarrow> f32_sub a b s = (a, s)"
    and "f32_isFinite b \<Longrightarrow> f32_sub b a s = (f32_infinity (\<not> f32_sign a), s)"
  using assms f32_isInf_iff [of a]
  by (auto simp: f32_sub_def softfloat_addMagsF32_def softfloat_subMagsF32_def f32_pack_infinity
      Let_def frac_shift_eq_0 simp flip: f32_class_exp(2,3))

lemma f32_mul_infinity:
  assumes "f32_isInf a" "\<not> f32_isNaN b"
  shows "f32_mul a b s =
           (if f32_val b = 0 then (0x7FC00000, softfloat_raiseFlags softfloat_flag_invalid s)
            else (f32_infinity (f32_sign a \<noteq> f32_sign b), s))"
    and "f32_mul b a s = f32_mul a b s"
proof -
  have a: "expF32UI (ucast a) = 0xFF" "fracF32UI (ucast a) = 0" using assms(1) by (simp_all flip: f32_class_exp(2))
  have b: "expF32UI (ucast b) = 0xFF \<Longrightarrow> fracF32UI (ucast b) = 0" using assms(2) by (simp flip: f32_class_exp(1))
  then have nb: "(expF32UI (ucast b) = 0xFF \<and> fracF32UI (ucast b) \<noteq> 0) = False" by blast
  have sw: "f32_sign b = (\<not> f32_sign a) \<longleftrightarrow> f32_sign a = (\<not> f32_sign b)" by blast
  have v: "f32_val a \<noteq> 0" by (rule f32_infinite_value [OF assms(1)])
  have bz: "expF32UI (ucast b) = 0xFF \<Longrightarrow> f32_val b \<noteq> 0"
    using b by (intro f32_infinite_value) (simp flip: f32_class_exp(2))
  show m: "f32_mul a b s =
           (if f32_val b = 0 then (0x7FC00000, softfloat_raiseFlags softfloat_flag_invalid s)
            else (f32_infinity (f32_sign a \<noteq> f32_sign b), s))"
    by (simp add: nb f32_mul_def Let_def a f32_mul_infArg_def f32_zero_bits f32_pack_infinity)
  show "f32_mul b a s = f32_mul a b s"
  proof (cases "expF32UI (ucast b) = 0xFF")
    case True
    then show ?thesis unfolding m using b v bz f32_zero_bits [of a] a
      by (simp add: f32_mul_def Let_def f32_mul_infArg_def f32_zero_bits f32_pack_infinity sw)
  next
    case False
    then show ?thesis unfolding m
      by (simp add: f32_mul_def Let_def a f32_mul_infArg_def f32_zero_bits f32_pack_infinity sw)
  qed
qed

lemma f32_div_infinity:
  assumes "f32_isInf a"
  shows "f32_isInf b \<Longrightarrow> f32_div a b s = (0x7FC00000, softfloat_raiseFlags softfloat_flag_invalid s)"
    and "f32_isFinite b \<Longrightarrow> f32_div a b s = (f32_infinity (f32_sign a \<noteq> f32_sign b), s)"
    and "f32_isFinite b \<Longrightarrow> fst (f32_div b a s) = ucast (packToF32UI (f32_sign b \<noteq> f32_sign a) 0 0) \<and> snd (f32_div b a s) = s"
proof -
  have a: "expF32UI (ucast a) = 0xFF" "fracF32UI (ucast a) = 0" using assms(1) by (simp_all flip: f32_class_exp(2))
  show "f32_div a b s = (0x7FC00000, softfloat_raiseFlags softfloat_flag_invalid s)" if "f32_isInf b"
    using that by (simp add: f32_div_def Let_def a flip: f32_class_exp(2))
  show "f32_div a b s = (f32_infinity (f32_sign a \<noteq> f32_sign b), s)" if "f32_isFinite b"
    using that by (simp add: f32_div_def Let_def a f32_pack_infinity flip: f32_class_exp(3))
  show "fst (f32_div b a s) = ucast (packToF32UI (f32_sign b \<noteq> f32_sign a) 0 0) \<and> snd (f32_div b a s) = s" if "f32_isFinite b"
    using that by (simp add: f32_div_def Let_def a flip: f32_class_exp(3))
qed

lemma f32_div_zero:
  assumes "f32_isFinite a" "f32_val b = 0"
  shows "f32_div a b s =
    (if f32_val a = 0 then (0x7FC00000, softfloat_raiseFlags softfloat_flag_invalid s)
     else (f32_infinity (f32_sign a \<noteq> f32_sign b), softfloat_raiseFlags softfloat_flag_infinite s))"
proof -
  have "expF32UI (ucast a) \<noteq> 0xFF" using assms(1) by (simp flip: f32_class_exp(3))
  moreover have "expF32UI (ucast b) = 0" "fracF32UI (ucast b) = 0"
    using assms(2) f32.magn_eq_0_iff [of "ucast b"] by (simp_all add: f32_zero_iff)
  ultimately show ?thesis by (simp add: f32_div_def Let_def f32_zero_bits f32_pack_infinity)
qed

definition f32_zero :: "bool \<Rightarrow> u32" where
  "f32_zero sg = (if sg then 0x80000000 else 0)"

lemma f32_pack_zero: "ucast (packToF32UI sg 0 0) = f32_zero sg"
  by (cases sg) (simp_all add: packToF32UI_def f32_zero_def)

lemma f32_infinite_cases:
  assumes "f32_isInf a"
  shows "f32_isInf b \<Longrightarrow>
      f32_add a b s = (if f32_sign a = f32_sign b then (a, s) else (0x7FC00000, softfloat_raiseFlags softfloat_flag_invalid s)) \<and>
      f32_sub a b s = (if f32_sign a \<noteq> f32_sign b then (a, s) else (0x7FC00000, softfloat_raiseFlags softfloat_flag_invalid s)) \<and>
      f32_div a b s = (0x7FC00000, softfloat_raiseFlags softfloat_flag_invalid s)"
    "f32_isFinite b \<Longrightarrow>
      f32_add a b s = (a, s) \<and> f32_add b a s = (a, s) \<and> f32_sub a b s = (a, s) \<and> f32_sub b a s = (f32_infinity (\<not> f32_sign a), s) \<and>
      f32_div a b s = (f32_infinity (f32_sign a \<noteq> f32_sign b), s) \<and> f32_div b a s = (f32_zero (f32_sign b \<noteq> f32_sign a), s)"
  using f32_add_infinity [OF assms, of b s] f32_sub_infinity [OF assms, of b s] f32_div_infinity [OF assms, of b s]
  by (auto simp: f32_pack_zero prod_eq_iff)

lemma f64_zero_bits: "word_of_int (expF64UI a) OR fracF64UI a = (0 :: u64) \<longleftrightarrow> f64_val a = 0"
proof -
  have "unat (word_of_int (expF64UI a) :: u64) = nat (expF64UI a)"
    using f64.expUI_bounds [of a] by (intro unat_word_of_int_less) simp_all
  then have "(word_of_int (expF64UI a) :: u64) = 0 \<longleftrightarrow> expF64UI a = 0"
    using f64.expUI_bounds [of a] by (simp flip: unat_eq_zero)
  then show ?thesis
    using f64_magn_eq_0_iff [of a] by (simp add: or_eq_0_iff f64_zero_iff)
qed

lemma f64_not_nan: "\<not> f64_isNaN a \<longleftrightarrow> f64_isInf a \<or> f64_isFinite a"
  by (auto simp: f64_isNaN_def f64_isInf_def f64_isFinite_def)

lemma f64_infinite_value: "f64_isInf a \<Longrightarrow> f64_val a \<noteq> 0"
  by (simp add: f64_zero_iff f64_isInf_def inf_magn_def)

lemma f64_infinity_sign [simp]: "f64_sign (f64_infinity sg) = sg"
  by (simp add: f64_sign_def f64_infinity_def)

lemma f64_add_infinity:
  assumes "f64_isInf a"
  shows "f64_isInf b \<Longrightarrow> f64_sign a \<noteq> f64_sign b \<Longrightarrow>
           f64_add a b s = (0x7FF8000000000000, softfloat_raiseFlags softfloat_flag_invalid s)"
    and "f64_isInf b \<Longrightarrow> f64_sign a = f64_sign b \<Longrightarrow> f64_add a b s = (a, s)"
    and "f64_isFinite b \<Longrightarrow> f64_add a b s = (a, s)"
    and "f64_isFinite b \<Longrightarrow> f64_add b a s = (a, s)"
  using assms f64_isInf_iff [of a]
  by (auto simp: f64_add_def softfloat_addMagsF64_def softfloat_subMagsF64_def f64_pack_infinity
      Let_def frac_shift_eq_0 simp flip: f64_class_exp(2,3))

lemma f64_sub_infinity:
  assumes "f64_isInf a"
  shows "f64_isInf b \<Longrightarrow> f64_sign a = f64_sign b \<Longrightarrow>
           f64_sub a b s = (0x7FF8000000000000, softfloat_raiseFlags softfloat_flag_invalid s)"
    and "f64_isInf b \<Longrightarrow> f64_sign a \<noteq> f64_sign b \<Longrightarrow> f64_sub a b s = (a, s)"
    and "f64_isFinite b \<Longrightarrow> f64_sub a b s = (a, s)"
    and "f64_isFinite b \<Longrightarrow> f64_sub b a s = (f64_infinity (\<not> f64_sign a), s)"
  using assms f64_isInf_iff [of a]
  by (auto simp: f64_sub_def softfloat_addMagsF64_def softfloat_subMagsF64_def f64_pack_infinity
      Let_def frac_shift_eq_0 simp flip: f64_class_exp(2,3))

lemma f64_mul_infinity:
  assumes "f64_isInf a" "\<not> f64_isNaN b"
  shows "f64_mul a b s =
           (if f64_val b = 0 then (0x7FF8000000000000, softfloat_raiseFlags softfloat_flag_invalid s)
            else (f64_infinity (f64_sign a \<noteq> f64_sign b), s))"
    and "f64_mul b a s = f64_mul a b s"
proof -
  have a: "expF64UI a = 0x7FF" "fracF64UI a = 0" using assms(1) by (simp_all flip: f64_class_exp(2))
  have b: "expF64UI b = 0x7FF \<Longrightarrow> fracF64UI b = 0" using assms(2) by (simp flip: f64_class_exp(1))
  then have nb: "(expF64UI b = 0x7FF \<and> fracF64UI b \<noteq> 0) = False" by blast
  have sw: "f64_sign b = (\<not> f64_sign a) \<longleftrightarrow> f64_sign a = (\<not> f64_sign b)" by blast
  have v: "f64_val a \<noteq> 0" by (rule f64_infinite_value [OF assms(1)])
  have bz: "expF64UI b = 0x7FF \<Longrightarrow> f64_val b \<noteq> 0"
    using b by (intro f64_infinite_value) (simp flip: f64_class_exp(2))
  show m: "f64_mul a b s =
           (if f64_val b = 0 then (0x7FF8000000000000, softfloat_raiseFlags softfloat_flag_invalid s)
            else (f64_infinity (f64_sign a \<noteq> f64_sign b), s))"
    by (simp add: nb f64_mul_def Let_def a f64_mul_infArg_def f64_zero_bits f64_pack_infinity)
  show "f64_mul b a s = f64_mul a b s"
  proof (cases "expF64UI b = 0x7FF")
    case True
    then show ?thesis unfolding m using b v bz f64_zero_bits [of a] a
      by (simp add: f64_mul_def Let_def f64_mul_infArg_def f64_zero_bits f64_pack_infinity sw)
  next
    case False
    then show ?thesis unfolding m
      by (simp add: f64_mul_def Let_def a f64_mul_infArg_def f64_zero_bits f64_pack_infinity sw)
  qed
qed

lemma f64_div_infinity:
  assumes "f64_isInf a"
  shows "f64_isInf b \<Longrightarrow> f64_div a b s = (0x7FF8000000000000, softfloat_raiseFlags softfloat_flag_invalid s)"
    and "f64_isFinite b \<Longrightarrow> f64_div a b s = (f64_infinity (f64_sign a \<noteq> f64_sign b), s)"
    and "f64_isFinite b \<Longrightarrow> fst (f64_div b a s) = packToF64UI (f64_sign b \<noteq> f64_sign a) 0 0 \<and> snd (f64_div b a s) = s"
proof -
  have a: "expF64UI a = 0x7FF" "fracF64UI a = 0" using assms(1) by (simp_all flip: f64_class_exp(2))
  show "f64_div a b s = (0x7FF8000000000000, softfloat_raiseFlags softfloat_flag_invalid s)" if "f64_isInf b"
    using that by (simp add: f64_div_def Let_def a flip: f64_class_exp(2))
  show "f64_div a b s = (f64_infinity (f64_sign a \<noteq> f64_sign b), s)" if "f64_isFinite b"
    using that by (simp add: f64_div_def Let_def a f64_pack_infinity flip: f64_class_exp(3))
  show "fst (f64_div b a s) = packToF64UI (f64_sign b \<noteq> f64_sign a) 0 0 \<and> snd (f64_div b a s) = s" if "f64_isFinite b"
    using that by (simp add: f64_div_def Let_def a flip: f64_class_exp(3))
qed

lemma f64_div_zero:
  assumes "f64_isFinite a" "f64_val b = 0"
  shows "f64_div a b s =
    (if f64_val a = 0 then (0x7FF8000000000000, softfloat_raiseFlags softfloat_flag_invalid s)
     else (f64_infinity (f64_sign a \<noteq> f64_sign b), softfloat_raiseFlags softfloat_flag_infinite s))"
proof -
  have "expF64UI a \<noteq> 0x7FF" using assms(1) by (simp flip: f64_class_exp(3))
  moreover have "expF64UI b = 0" "fracF64UI b = 0"
    using assms(2) f64_magn_eq_0_iff [of b] by (simp_all add: f64_zero_iff)
  ultimately show ?thesis by (simp add: f64_div_def Let_def f64_zero_bits f64_pack_infinity)
qed

definition f64_zero :: "bool \<Rightarrow> u64" where
  "f64_zero sg = (if sg then 0x8000000000000000 else 0)"

lemma f64_pack_zero: "packToF64UI sg 0 0 = f64_zero sg"
  by (cases sg) (simp_all add: packToF64UI_def f64_zero_def)

lemma f64_infinite_cases:
  assumes "f64_isInf a"
  shows "f64_isInf b \<Longrightarrow>
      f64_add a b s = (if f64_sign a = f64_sign b then (a, s) else (0x7FF8000000000000, softfloat_raiseFlags softfloat_flag_invalid s)) \<and>
      f64_sub a b s = (if f64_sign a \<noteq> f64_sign b then (a, s) else (0x7FF8000000000000, softfloat_raiseFlags softfloat_flag_invalid s)) \<and>
      f64_div a b s = (0x7FF8000000000000, softfloat_raiseFlags softfloat_flag_invalid s)"
    "f64_isFinite b \<Longrightarrow>
      f64_add a b s = (a, s) \<and> f64_add b a s = (a, s) \<and> f64_sub a b s = (a, s) \<and> f64_sub b a s = (f64_infinity (\<not> f64_sign a), s) \<and>
      f64_div a b s = (f64_infinity (f64_sign a \<noteq> f64_sign b), s) \<and> f64_div b a s = (f64_zero (f64_sign b \<noteq> f64_sign a), s)"
  using f64_add_infinity [OF assms, of b s] f64_sub_infinity [OF assms, of b s] f64_div_infinity [OF assms, of b s]
  by (auto simp: f64_pack_zero prod_eq_iff)

end
