(* ===== verification/Oram_Sim.thy ===== *)
theory Oram_Sim
  imports Prelude
begin

text \<open>
  The ORAM controller model of \<^verbatim>\<open>riscv/oramsim.cc\<close>: a binary tree of one-block buckets, a position map
  and a stash whose first \<open>tree_height + 1\<close> entries hold the path that is being accessed.  Node numbers
  are natural numbers (the root is 1 and node \<open>n\<close> has the parent \<open>n div 2\<close>); they are at most
  \<open>tree_nodes\<close>, so the \<^verbatim>\<open>uint64_t\<close> arithmetic on them does not wrap, nor that of the \<^verbatim>\<open>int\<close> variables of the two loops
  over a path as long as the tree has fewer than 31 levels below the root, about 2^31 blocks.  Block numbers are 64-bit
  words, because \<^verbatim>\<open>(uint64_t) -1\<close> marks an empty bucket.  A failed \<^verbatim>\<open>assert\<close> is an error value; the value
  \<^verbatim>\<open>rand()\<close> returns is an argument, and the accesses of the DRAM model are collected in a trace.
\<close>

subsection \<open>The state\<close>

datatype access_type = LOAD | STORE | FETCH

datatype oram_error = Assert_block_id | Assert_is_leaf | Assert_stash_overflow | Undefined_index

record oram_sim =
  bucketsz :: u64
  cacheline_sz :: u64
  num_of_blocks :: u64
  stashsz :: nat
  stash :: "u64 list"
  position_map :: "u64 \<rightharpoonup> nat"
  tree_height :: nat
  tree_leaves :: nat
  tree_nodes :: nat
  oram_tree :: "nat \<rightharpoonup> u64"
  oram_requests :: u64
  stash_hit :: u64
  stash_miss :: u64
  dram_trace :: "(u64 \<times> u64 \<times> access_type) list"

abbreviation (input) no_block :: u64 where "no_block \<equiv> - 1"

text \<open>
  \<^verbatim>\<open>operator[]\<close> of \<^verbatim>\<open>std::map\<close> gives 0 for a missing key; that it also inserts the key is not observable,
  because no code iterates over the maps or asks for their size.
\<close>

definition read_map :: "('k \<rightharpoonup> 'v::zero) \<Rightarrow> 'k \<Rightarrow> 'v" where
  "read_map m k = (case m k of None \<Rightarrow> 0 | Some v \<Rightarrow> v)"

text \<open>
  \<^verbatim>\<open>tree_height = log2(num_of_blocks)\<close>, truncated to an integer; the code takes the logarithm in floating point, which is exact for
  powers of two and gives the same integer below 2^47 blocks.
\<close>

function log2 :: "u64 \<Rightarrow> nat" where
  "log2 n = (if n \<le> 1 then 0 else Suc (log2 (drop_bit 1 n)))"
  by pat_completeness auto
termination
proof (relation "measure unat")
  fix n :: u64
  assume "\<not> n \<le> 1"
  then have "1 < unat n" by (simp add: word_le_nat_alt)
  then have "unat (drop_bit 1 n) < unat n" by (simp only: unat_shr) simp
  then show "(drop_bit 1 n, n) \<in> measure unat" by simp
qed simp

declare log2.simps [simp del]

definition oram_init :: "u64 \<Rightarrow> nat \<Rightarrow> u64 \<Rightarrow> u64 \<Rightarrow> oram_sim" where
  "oram_init bucketsz' stashsz' mem_mb cacheline_sz' =
     (let num = mem_mb * 1024 * 1024 div cacheline_sz' div bucketsz';
          height = log2 num;
          leaves = 2 ^ height; nodes = 2 ^ (height + 1) - 1
      in \<lparr>bucketsz = bucketsz', cacheline_sz = cacheline_sz', num_of_blocks = num,
          stashsz = stashsz', stash = replicate stashsz' no_block,
          position_map = (\<lambda>bid. if bid < of_nat leaves then Some (leaves + unat bid) else None),
          tree_height = height, tree_leaves = leaves, tree_nodes = nodes,
          oram_tree = (\<lambda>n. if 1 \<le> n \<and> n < leaves then Some no_block
                           else if leaves \<le> n \<and> n \<le> nodes then Some (of_nat (n - leaves)) else None),
          oram_requests = 0, stash_hit = 0, stash_miss = 0, dram_trace = []\<rparr>)"

subsection \<open>Addresses and leaves\<close>

definition block_is_in_stash :: "u64 \<Rightarrow> oram_sim \<Rightarrow> bool" where
  "block_is_in_stash block_id st \<longleftrightarrow> block_id \<in> set (stash st)"

definition get_block_id :: "u64 \<Rightarrow> oram_sim \<Rightarrow> u64" where
  "get_block_id addr st = (addr - 0x80000000) div cacheline_sz st"

definition block_id_to_addr :: "u64 \<Rightarrow> oram_sim \<Rightarrow> u64" where
  "block_id_to_addr block_id st = block_id * cacheline_sz st + 0x80000000"

definition is_leaf :: "nat \<Rightarrow> oram_sim \<Rightarrow> bool" where
  "is_leaf leaf st \<longleftrightarrow> tree_leaves st \<le> leaf \<and> leaf \<le> tree_nodes st"

subsection \<open>Reading a path\<close>

definition load_bucket :: "nat \<Rightarrow> nat \<Rightarrow> oram_sim \<Rightarrow> oram_sim" where
  "load_bucket s cur st =
     (let b = read_map (oram_tree st) cur
      in st\<lparr>stash := (stash st)[s := b],
            dram_trace := dram_trace st @ [(block_id_to_addr b st, cacheline_sz st, LOAD)]\<rparr>)"

fun load_path :: "nat \<Rightarrow> nat \<Rightarrow> oram_sim \<Rightarrow> oram_sim" where
  "load_path 0 cur st = load_bucket 0 cur st"
| "load_path (Suc s) cur st = load_path s (cur div 2) (load_bucket (Suc s) cur st)"

definition load_path_to_stash :: "nat \<Rightarrow> oram_sim \<Rightarrow> oram_error + oram_sim" where
  "load_path_to_stash leaf st =
     (if is_leaf leaf st then Inr (load_path (tree_height st) leaf st) else Inl Assert_is_leaf)"

subsection \<open>Writing it back\<close>

text \<open>The height at which the paths to two leaves meet; \<open>None\<close> when the loop runs out.\<close>

fun nearest_ancestor :: "nat \<Rightarrow> nat \<Rightarrow> nat \<Rightarrow> nat option" where
  "nearest_ancestor h a b =
     (if a = b then Some h
      else case h of 0 \<Rightarrow> None | Suc k \<Rightarrow> nearest_ancestor k (a div 2) (b div 2))"

declare nearest_ancestor.simps [simp del]

definition find_index :: "('a \<Rightarrow> bool) \<Rightarrow> nat list \<Rightarrow> 'a list \<Rightarrow> nat option" where
  "find_index P is xs = List.find (\<lambda>i. P (xs ! i)) is"

definition stash_remove :: "u64 \<Rightarrow> nat \<Rightarrow> u64 list \<Rightarrow> u64 list" where
  "stash_remove bid n xs =
     (case find_index (\<lambda>b. b = bid) [0..<n] xs of None \<Rightarrow> xs | Some sid \<Rightarrow> xs[sid := no_block])"

text \<open>
  One step of the loop that brings evicted blocks back.  The statement that should clear the entry
  \<open>sid\<close> is the comparison \<^verbatim>\<open>stash[sid] == (uint64_t) -1\<close>, which has no effect.
\<close>

definition bring_evicted :: "nat \<Rightarrow> nat \<Rightarrow> (u64 \<rightharpoonup> nat) \<Rightarrow> nat \<Rightarrow> u64 list \<Rightarrow> u64 list" where
  "bring_evicted height leaf pm sid xs =
     (if read_map pm (xs ! sid) = leaf
      then case find_index (\<lambda>b. b = no_block) [0..<height] xs of
             None \<Rightarrow> xs | Some ssid \<Rightarrow> xs[ssid := xs ! sid]
      else xs)"

definition write_bucket :: "nat \<Rightarrow> nat \<Rightarrow> oram_sim \<Rightarrow> oram_sim" where
  "write_bucket cursor cur st =
     (let b = stash st ! cursor
      in st\<lparr>oram_tree := (oram_tree st)(cur \<mapsto> b),
            dram_trace := dram_trace st @ [(block_id_to_addr b st, cacheline_sz st, STORE)],
            stash := (stash st)[cursor := no_block]\<rparr>)"

fun write_path :: "nat \<Rightarrow> nat \<Rightarrow> oram_sim \<Rightarrow> oram_sim" where
  "write_path 0 cur st = write_bucket 0 cur st"
| "write_path (Suc cursor) cur st = write_path cursor (cur div 2) (write_bucket (Suc cursor) cur st)"

text \<open>
  The part of \<^verbatim>\<open>stash_write_back\<close> that arranges the stash: the block leaves its bucket and moves to the
  deepest free bucket that lies on the path to its new leaf as well, or to the area behind the path.
\<close>

definition rearrange_stash :: "nat \<Rightarrow> u64 \<Rightarrow> nat \<Rightarrow> oram_sim \<Rightarrow> oram_error + u64 list" where
  "rearrange_stash leaf bid new_leaf st =
     (case nearest_ancestor (tree_height st) new_leaf leaf of
        None \<Rightarrow> Inl Undefined_index
      | Some cur_height \<Rightarrow>
          let xs = stash_remove bid (stashsz st) (stash st);
              slot = find_index (\<lambda>b. b = no_block) (rev [0..<Suc cur_height]) xs;
              xs = (case slot of None \<Rightarrow> xs | Some sid \<Rightarrow> xs[sid := bid]);
              xs = fold (bring_evicted (tree_height st) leaf (position_map st)) [tree_height st + 1..<stashsz st] xs
          in if slot \<noteq> None then Inr xs
             else case find_index (\<lambda>b. b = no_block) [tree_height st + 1..<stashsz st] xs of
                    Some sid \<Rightarrow> Inr (xs[sid := bid])
                  | None \<Rightarrow> if tree_height st + 1 < stashsz st then Inl Assert_stash_overflow else Inr xs)"

definition stash_write_back :: "nat \<Rightarrow> u64 \<Rightarrow> nat \<Rightarrow> oram_sim \<Rightarrow> oram_error + oram_sim" where
  "stash_write_back leaf bid new_leaf st =
     (case rearrange_stash leaf bid new_leaf st of
        Inl e \<Rightarrow> Inl e
      | Inr xs \<Rightarrow> Inr (write_path (tree_height st) leaf (st\<lparr>stash := xs\<rparr>)))"

subsection \<open>An access\<close>

definition oram_access :: "nat \<Rightarrow> u64 \<Rightarrow> oram_sim \<Rightarrow> oram_error + oram_sim" where
  "oram_access rand addr st =
     (let st = st\<lparr>oram_requests := oram_requests st + 1\<rparr>;
          block_id = get_block_id addr st
      in if \<not> block_id < num_of_blocks st then Inl Assert_block_id
         else if block_is_in_stash block_id st then Inr (st\<lparr>stash_hit := stash_hit st + 1\<rparr>)
         else let st = st\<lparr>stash_miss := stash_miss st + 1\<rparr>;
                  leaf = read_map (position_map st) block_id;
                  new_leaf = rand mod tree_leaves st + tree_leaves st;
                  st = st\<lparr>position_map := (position_map st)(block_id \<mapsto> new_leaf)\<rparr>
              in case load_path_to_stash leaf st of
                   Inl e \<Rightarrow> Inl e
                 | Inr st \<Rightarrow> stash_write_back leaf block_id new_leaf st)"

fun oram_accesses :: "(nat \<times> u64) list \<Rightarrow> oram_sim \<Rightarrow> oram_error + oram_sim" where
  "oram_accesses [] st = Inr st"
| "oram_accesses ((rand, addr) # as) st =
     (case oram_access rand addr st of Inl e \<Rightarrow> Inl e | Inr st' \<Rightarrow> oram_accesses as st')"

subsection \<open>Paths\<close>

text \<open>The node at depth \<open>i\<close> on the path to a leaf of a tree of height \<open>h\<close>.\<close>

definition path_node :: "nat \<Rightarrow> nat \<Rightarrow> nat \<Rightarrow> nat" where
  "path_node h leaf i = leaf div 2 ^ (h - i)"

definition leaf_of :: "nat \<Rightarrow> nat \<Rightarrow> bool" where
  "leaf_of h leaf \<longleftrightarrow> 2 ^ h \<le> leaf \<and> leaf < 2 ^ Suc h"

lemma leaf_half: "leaf_of (Suc h) leaf \<Longrightarrow> leaf_of h (leaf div 2)"
  by (auto simp: leaf_of_def)

lemma path_node_half: "i \<le> h \<Longrightarrow> path_node (Suc h) leaf i = path_node h (leaf div 2) i"
  by (simp add: path_node_def Suc_diff_le div_mult2_eq)

lemma path_node_map:
  "map (\<lambda>i. f (path_node (Suc s) cur i)) [0..<s] = map (\<lambda>i. f (path_node s (cur div 2) i)) [0..<s]"
  "map (\<lambda>i. f (path_node (Suc s) cur i)) (rev [0..<s]) = map (\<lambda>i. f (path_node s (cur div 2) i)) (rev [0..<s])"
  by (simp_all add: path_node_half)

lemma path_node_top [simp]: "path_node h leaf h = leaf"
  by (simp add: path_node_def)

lemma path_node_bounds:
  assumes "leaf_of h leaf" "i \<le> h"
  shows "2 ^ i \<le> path_node h leaf i" "path_node h leaf i < 2 ^ Suc i"
proof -
  have p: "(2::nat) ^ h = 2 ^ i * 2 ^ (h - i)" "(2::nat) ^ Suc h = 2 ^ Suc i * 2 ^ (h - i)"
    using assms(2) by (simp_all flip: power_add power_Suc)
  show "2 ^ i \<le> path_node h leaf i"
    using assms(1) unfolding leaf_of_def p path_node_def by (simp add: less_eq_div_iff_mult_less_eq)
  show "path_node h leaf i < 2 ^ Suc i"
    using assms(1) unfolding leaf_of_def p path_node_def by (simp only: div_less_iff_less_mult zero_less_power zero_less_numeral)
qed

lemma path_node_depth:
  assumes "leaf_of h a" "leaf_of h b" "i \<le> h" "j \<le> h" "path_node h a i = path_node h b j"
  shows "i = j"
proof -
  have "(2::nat) ^ i < 2 ^ Suc j" "(2::nat) ^ j < 2 ^ Suc i"
    using path_node_bounds [of h a i] path_node_bounds [of h b j] assms by linarith+
  then have "i < Suc j" "j < Suc i" by (simp_all only: power_strict_increasing_iff)
  then show ?thesis by simp
qed

lemma nearest_ancestor_meets:
  "nearest_ancestor h a b = Some k \<Longrightarrow> k \<le> h \<and> (\<forall>i \<le> k. path_node h a i = path_node h b i)"
proof (induction h arbitrary: a b)
  case 0
  then show ?case by (simp add: nearest_ancestor.simps split: if_splits)
next
  case (Suc h)
  show ?case
  proof (cases "a = b")
    case True
    with Suc.prems show ?thesis by (simp add: nearest_ancestor.simps)
  next
    case False
    with Suc.prems have "nearest_ancestor h (a div 2) (b div 2) = Some k"
      by (simp add: nearest_ancestor.simps [of "Suc h"])
    from Suc.IH [OF this] show ?thesis by (simp add: path_node_half)
  qed
qed

lemma nearest_ancestor_exists:
  "leaf_of h a \<Longrightarrow> leaf_of h b \<Longrightarrow> \<exists>k. nearest_ancestor h a b = Some k"
proof (induction h arbitrary: a b)
  case 0
  then have "a = 1" "b = 1" by (simp_all add: leaf_of_def)
  then show ?case by (simp add: nearest_ancestor.simps)
next
  case (Suc h)
  from Suc.IH [OF leaf_half leaf_half, OF Suc.prems]
  show ?case by (simp add: nearest_ancestor.simps [of "Suc h"])
qed

subsection \<open>What reading and writing a path does\<close>

lemma upt_take_map: "xs[n := v] = take n xs @ v # drop (Suc n) xs" if "n < length xs"
  using that by (rule upd_conv_take_nth_drop)

lemma load_path_eq:
  assumes "s < length (stash st)"
  shows "load_path s cur st = st\<lparr>
     stash := map (\<lambda>i. read_map (oram_tree st) (path_node s cur i)) [0..<Suc s] @ drop (Suc s) (stash st),
     dram_trace := dram_trace st @
       map (\<lambda>i. (block_id_to_addr (read_map (oram_tree st) (path_node s cur i)) st, cacheline_sz st, LOAD)) (rev [0..<Suc s])\<rparr>"
  using assms
proof (induction s arbitrary: cur st)
  case 0
  then have "stash st \<noteq> []" by auto
  then show ?case by (simp add: load_bucket_def Let_def path_node_def list_update_code neq_Nil_conv split: list.split) auto
next
  case (Suc s)
  define t where "t = load_bucket (Suc s) cur st"
  have t: "oram_tree t = oram_tree st" "cacheline_sz t = cacheline_sz st" "length (stash t) = length (stash st)"
    "stash t = (stash st)[Suc s := read_map (oram_tree st) cur]"
    "\<And>b. block_id_to_addr b t = block_id_to_addr b st"
    by (simp_all add: t_def load_bucket_def Let_def block_id_to_addr_def)
  have d: "drop (Suc s) (stash t) = read_map (oram_tree st) cur # drop (Suc (Suc s)) (stash st)"
    using Suc.prems by (simp add: t(4) drop_update_swap Cons_nth_drop_Suc [symmetric])
  show ?case
    using Suc.IH [of t "cur div 2"] Suc.prems
    by (simp add: t(1-3,5) d path_node_half path_node_map(1)
        path_node_map(2) [where f = "\<lambda>n. (block_id_to_addr (read_map (oram_tree st) n) st, cacheline_sz st, LOAD)"]
        flip: t_def) (simp add: t_def load_bucket_def Let_def)
qed

lemma write_path_frame:
  assumes "s < length (stash st)"
  shows "write_path s cur st = st\<lparr>stash := replicate (Suc s) no_block @ drop (Suc s) (stash st),
    oram_tree := oram_tree (write_path s cur st),
    dram_trace := dram_trace st @
      map (\<lambda>i. (block_id_to_addr (stash st ! i) st, cacheline_sz st, STORE)) (rev [0..<Suc s])\<rparr>"
  using assms
proof (induction s arbitrary: cur st)
  case 0
  then show ?case by (cases "stash st") (simp_all add: write_bucket_def Let_def fun_upd_def)
next
  case (Suc s)
  define t where "t = write_bucket (Suc s) cur st"
  have t: "length (stash t) = length (stash st)" "stash t = (stash st)[Suc s := no_block]"
    "\<And>b. block_id_to_addr b t = block_id_to_addr b st" "cacheline_sz t = cacheline_sz st"
    "dram_trace t = dram_trace st @ [(block_id_to_addr (stash st ! Suc s) st, cacheline_sz st, STORE)]"
    by (simp_all add: t_def write_bucket_def Let_def block_id_to_addr_def)
  have w: "write_path (Suc s) cur st = write_path s (cur div 2) t" by (simp add: t_def)
  have "drop (Suc s) (stash st) = stash st ! Suc s # drop (Suc (Suc s)) (stash st)"
    using Suc.prems by (simp add: Cons_nth_drop_Suc)
  then have d: "drop (Suc s) (stash t) = no_block # drop (Suc (Suc s)) (stash st)"
    by (simp add: t(2) drop_update_swap)
  have m: "map (\<lambda>i. (block_id_to_addr (stash t ! i) t, cacheline_sz t, STORE)) (rev [0..<Suc s])
      = map (\<lambda>i. (block_id_to_addr (stash st ! i) st, cacheline_sz st, STORE)) (rev [0..<Suc s])"
    by (simp add: t(2-4))
  have "write_path s (cur div 2) t = t\<lparr>stash := replicate (Suc s) no_block @ no_block # drop (Suc (Suc s)) (stash st),
    oram_tree := oram_tree (write_path s (cur div 2) t),
    dram_trace := dram_trace t @ map (\<lambda>i. (block_id_to_addr (stash st ! i) st, cacheline_sz st, STORE)) (rev [0..<Suc s])\<rparr>"
    using Suc.IH [of t "cur div 2"] Suc.prems unfolding t(1) d m by simp
  then show ?case
    unfolding w by (rule trans) (simp add: t_def write_bucket_def Let_def replicate_append_same)
qed

lemma write_path_tree:
  assumes "s < length (stash st)" "leaf_of s cur"
  shows "(\<forall>i \<le> s. oram_tree (write_path s cur st) (path_node s cur i) = Some (stash st ! i)) \<and>
    (\<forall>n. (\<forall>i \<le> s. n \<noteq> path_node s cur i) \<longrightarrow> oram_tree (write_path s cur st) n = oram_tree st n)"
  using assms
proof (induction s arbitrary: cur st)
  case 0
  then show ?case by (simp add: write_bucket_def Let_def)
next
  case (Suc s)
  define t where "t = write_bucket (Suc s) cur st"
  have t: "length (stash t) = length (stash st)" "stash t = (stash st)[Suc s := no_block]"
    "oram_tree t = (oram_tree st)(cur \<mapsto> stash st ! Suc s)"
    by (simp_all add: t_def write_bucket_def Let_def)
  have w: "write_path (Suc s) cur st = write_path s (cur div 2) t" by (simp add: t_def)
  note ih = Suc.IH [of t "cur div 2", unfolded t(1), OF Suc_lessD [OF Suc.prems(1)] leaf_half [OF Suc.prems(2)]]
  have cur: "cur \<noteq> path_node s (cur div 2) j" if "j \<le> s" for j
    using path_node_depth [OF Suc.prems(2,2), of "Suc s" j] that path_node_half [OF that, of cur] by auto
  show ?case
  proof (intro conjI allI impI)
    fix i assume i: "i \<le> Suc s"
    show "oram_tree (write_path (Suc s) cur st) (path_node (Suc s) cur i) = Some (stash st ! i)"
    proof (cases "i = Suc s")
      case True
      have "oram_tree (write_path s (cur div 2) t) cur = oram_tree t cur"
        using ih cur by blast
      then show ?thesis unfolding w True by (simp add: t(3))
    next
      case False
      then have "i \<le> s" using i by simp
      with ih have "oram_tree (write_path s (cur div 2) t) (path_node s (cur div 2) i) = Some (stash t ! i)" by blast
      then show ?thesis unfolding w using \<open>i \<le> s\<close> by (simp add: path_node_half t(2))
    qed
  next
    fix n assume n: "\<forall>i \<le> Suc s. n \<noteq> path_node (Suc s) cur i"
    then have "n \<noteq> cur" using path_node_top [of "Suc s" cur] by auto
    moreover have "\<forall>i \<le> s. n \<noteq> path_node s (cur div 2) i"
      using n path_node_half [of _ s cur] by (metis le_SucI)
    ultimately show "oram_tree (write_path (Suc s) cur st) n = oram_tree st n"
      unfolding w using ih by (simp add: t(3))
  qed
qed

subsection \<open>Rearranging the stash\<close>

text \<open>\<open>keeps xs ys\<close>: every block of \<open>xs\<close> is still where it was; only free entries were filled.\<close>

definition keeps :: "u64 list \<Rightarrow> u64 list \<Rightarrow> bool" where
  "keeps xs ys \<longleftrightarrow> length ys = length xs \<and> (\<forall>i < length xs. xs ! i \<noteq> no_block \<longrightarrow> ys ! i = xs ! i)"

lemma keeps_refl: "keeps xs xs"
  by (simp add: keeps_def)

lemma keeps_trans: "keeps xs ys \<Longrightarrow> keeps ys zs \<Longrightarrow> keeps xs zs"
  by (simp add: keeps_def)

lemma keeps_fill: "xs ! i = no_block \<Longrightarrow> keeps xs (xs[i := b])"
  by (simp add: keeps_def) (metis nth_list_update_neq)

lemma find_index_SomeD:
  assumes "find_index P is xs = Some i"
  shows "P (xs ! i)" "i \<in> set is"
  using assms by (auto simp: find_index_def find_Some_iff)

lemma find_index_NoneD: "find_index P is xs = None \<Longrightarrow> i \<in> set is \<Longrightarrow> \<not> P (xs ! i)"
  by (simp add: find_index_def find_None_iff)

lemma keeps_bring_evicted: "keeps xs (bring_evicted h leaf pm sid xs)"
  by (auto simp: bring_evicted_def keeps_refl keeps_fill split: option.split dest: find_index_SomeD(1))

lemma keeps_fold_bring_evicted: "keeps xs (fold (bring_evicted h leaf pm) sids xs)"
proof (induction sids arbitrary: xs)
  case (Cons sid sids)
  show ?case using keeps_trans [OF keeps_bring_evicted Cons.IH] by simp
qed (simp add: keeps_refl)

lemma stash_remove_nth:
  assumes "i < length xs" "xs ! i \<noteq> bid"
  shows "stash_remove bid n xs ! i = xs ! i" "length (stash_remove bid n xs) = length xs"
proof -
  have "x2 \<noteq> i" if "find_index (\<lambda>b. b = bid) [0..<n] xs = Some x2" for x2
    using find_index_SomeD(1) [OF that] assms(2) by auto
  then show "stash_remove bid n xs ! i = xs ! i" "length (stash_remove bid n xs) = length xs"
    by (simp_all add: stash_remove_def split: option.split)
qed

lemma length_stash_remove [simp]: "length (stash_remove bid n xs) = length xs"
  by (simp add: stash_remove_def split: option.split)

text \<open>
  After rearranging, all other blocks are where they were and the block itself is at a node that both
  paths share or behind the path; with room behind the path, the only error is an overflow.
\<close>

lemma rearrange_stash_ok:
  assumes r: "rearrange_stash leaf bid new_leaf st = Inr ys"
    and len: "length (stash st) = stashsz st" "tree_height st + 1 < stashsz st" and bid: "bid \<noteq> no_block"
  shows "length ys = stashsz st"
    and "i < stashsz st \<Longrightarrow> stash st ! i \<noteq> bid \<Longrightarrow> stash st ! i \<noteq> no_block \<Longrightarrow> ys ! i = stash st ! i"
    and "\<exists>j < stashsz st. ys ! j = bid \<and>
       (tree_height st < j \<or> (\<exists>k. nearest_ancestor (tree_height st) new_leaf leaf = Some k \<and> j \<le> k))"
proof -
  obtain k where k: "nearest_ancestor (tree_height st) new_leaf leaf = Some k"
    using r by (auto simp: rearrange_stash_def split: option.splits)
  define xs0 where "xs0 = stash_remove bid (stashsz st) (stash st)"
  define slot where "slot = find_index (\<lambda>b. b = no_block) (rev [0..<Suc k]) xs0"
  define xs1 where "xs1 = (case slot of None \<Rightarrow> xs0 | Some sid \<Rightarrow> xs0[sid := bid])"
  define xs2 where "xs2 = fold (bring_evicted (tree_height st) leaf (position_map st)) [tree_height st + 1..<stashsz st] xs1"
  define rest where "rest = find_index (\<lambda>b. b = no_block) [tree_height st + 1..<stashsz st] xs2"
  have eq: "rearrange_stash leaf bid new_leaf st =
      (if slot \<noteq> None then Inr xs2
       else case rest of Some sid \<Rightarrow> Inr (xs2[sid := bid]) | None \<Rightarrow> Inl Assert_stash_overflow)"
    unfolding rearrange_stash_def k option.case Let_def xs0_def [symmetric] slot_def [symmetric] xs1_def [symmetric]
      xs2_def [symmetric] rest_def [symmetric]
    using len(2) by simp
  have k01: "keeps xs0 xs1"
    by (auto simp: xs1_def keeps_refl keeps_fill slot_def split: option.split dest: find_index_SomeD(1))
  have k12: "keeps xs1 xs2" unfolding xs2_def by (rule keeps_fold_bring_evicted)
  have k2y: "keeps xs2 ys"
    using r unfolding eq rest_def by (auto simp: keeps_refl keeps_fill split: if_splits option.splits dest: find_index_SomeD(1))
  have k0y: "keeps xs0 ys" by (rule keeps_trans [OF keeps_trans [OF k01 k12] k2y])
  have kle: "k \<le> tree_height st" using nearest_ancestor_meets [OF k] by simp
  show l: "length ys = stashsz st" using k0y by (simp add: keeps_def xs0_def len)
  show "ys ! i = stash st ! i" if "i < stashsz st" "stash st ! i \<noteq> bid" "stash st ! i \<noteq> no_block"
    using k0y that stash_remove_nth [of i "stash st" bid "stashsz st"] by (simp add: keeps_def xs0_def len)
  show "\<exists>j < stashsz st. ys ! j = bid \<and>
       (tree_height st < j \<or> (\<exists>k. nearest_ancestor (tree_height st) new_leaf leaf = Some k \<and> j \<le> k))"
  proof (cases slot)
    case (Some sid)
    then have sid: "sid \<le> k" using find_index_SomeD(2) [OF slot_def [symmetric, unfolded Some]] by auto
    have "xs1 ! sid = bid" using sid kle len by (simp add: xs1_def Some xs0_def)
    moreover have "length xs1 = stashsz st" using k01 by (simp add: keeps_def xs0_def len)
    ultimately have "ys ! sid = bid"
      using keeps_trans [OF k12 k2y] sid kle len bid by (simp add: keeps_def)
    then show ?thesis using k sid kle len by (intro exI [of _ sid]) simp
  next
    case None
    then obtain sid where sid: "rest = Some sid" "ys = xs2[sid := bid]"
      using r unfolding eq by (auto split: option.splits)
    then have s: "tree_height st < sid" "sid < stashsz st"
      using find_index_SomeD(2) [OF rest_def [symmetric, unfolded sid(1)]] by auto
    then have "ys ! sid = bid" using l by (simp add: sid(2))
    then show ?thesis using s by blast
  qed
qed

lemma rearrange_stash_error:
  assumes "rearrange_stash leaf bid new_leaf st = Inl e" "leaf_of (tree_height st) leaf" "leaf_of (tree_height st) new_leaf"
  shows "e = Assert_stash_overflow"
  using assms nearest_ancestor_exists [OF assms(3,2)]
  by (auto simp: rearrange_stash_def Let_def split: if_splits option.splits)

subsection \<open>No block is lost\<close>

definition oram_wf :: "oram_sim \<Rightarrow> bool" where
  "oram_wf st \<longleftrightarrow> tree_leaves st = 2 ^ tree_height st \<and> tree_nodes st = 2 ^ (tree_height st + 1) - 1 \<and>
     tree_height st < 64 \<and> tree_height st + 1 < stashsz st \<and> length (stash st) = stashsz st"

text \<open>The block is in the stash behind the path area, or on the path to the leaf the position map gives it.\<close>

definition block_present :: "u64 \<Rightarrow> oram_sim \<Rightarrow> bool" where
  "block_present b st \<longleftrightarrow> (\<exists>j. tree_height st < j \<and> j < stashsz st \<and> stash st ! j = b) \<or>
     (\<exists>i \<le> tree_height st. oram_tree st (path_node (tree_height st) (read_map (position_map st) b) i) = Some b)"

definition oram_inv :: "oram_sim \<Rightarrow> bool" where
  "oram_inv st \<longleftrightarrow> oram_wf st \<and> (\<forall>i \<le> tree_height st. stash st ! i = no_block) \<and>
     (\<forall>b. unat b < tree_leaves st \<longrightarrow>
        leaf_of (tree_height st) (read_map (position_map st) b) \<and> block_present b st)"

lemma leaf_of_is_leaf:
  assumes "oram_wf st"
  shows "is_leaf leaf st \<longleftrightarrow> leaf_of (tree_height st) leaf"
proof -
  have "0 < (2::nat) * 2 ^ tree_height st" by simp
  then have "leaf \<le> 2 * 2 ^ tree_height st - 1 \<longleftrightarrow> leaf < 2 * 2 ^ tree_height st" by linarith
  then show ?thesis using assms by (simp add: oram_wf_def is_leaf_def leaf_of_def)
qed

lemma real_block: "oram_wf st \<Longrightarrow> unat b < tree_leaves st \<Longrightarrow> b \<noteq> no_block"
proof
  assume wf: "oram_wf st" and "unat b < tree_leaves st" "b = no_block"
  moreover have "unat (- 1 :: u64) = 2 ^ 64 - 1" by (simp add: unsigned_minus_1_eq_mask mask_eq_exp_minus_1)
  ultimately have "(2::nat) ^ 64 - 1 < 2 ^ tree_height st" by (simp add: oram_wf_def)
  moreover have "(2::nat) ^ tree_height st \<le> 2 ^ 63"
    using wf by (intro power_increasing) (simp_all add: oram_wf_def)
  ultimately show False by simp
qed

text \<open>A stash miss for a block that is assigned to a new leaf.\<close>

lemma stash_miss_ok:
  assumes inv: "oram_inv st" and b: "unat bid < tree_leaves st" "bid \<notin> set (stash st)"
    and new: "leaf_of (tree_height st) new_leaf"
    and leaf: "leaf = read_map (position_map st) bid"
    and t: "t = load_path (tree_height st) leaf (st\<lparr>position_map := (position_map st)(bid \<mapsto> new_leaf)\<rparr>)"
    and w: "stash_write_back leaf bid new_leaf t = Inr u"
  shows "oram_inv u"
proof -
  let ?h = "tree_height st"
  have wf: "oram_wf st" and len: "length (stash st) = stashsz st" "?h + 1 < stashsz st"
    and clear: "\<And>i. i \<le> ?h \<Longrightarrow> stash st ! i = no_block"
    and lf: "\<And>b. unat b < tree_leaves st \<Longrightarrow> leaf_of ?h (read_map (position_map st) b)"
    and pr: "\<And>b. unat b < tree_leaves st \<Longrightarrow> block_present b st"
    using inv by (simp_all add: oram_inv_def oram_wf_def)
  have leafok: "leaf_of ?h leaf" using lf b(1) by (simp add: leaf)
  have tf: "tree_height t = ?h" "tree_leaves t = tree_leaves st" "tree_nodes t = tree_nodes st" "stashsz t = stashsz st"
    "oram_tree t = oram_tree st" "position_map t = (position_map st)(bid \<mapsto> new_leaf)"
    "stash t = map (\<lambda>i. read_map (oram_tree st) (path_node ?h leaf i)) [0..<Suc ?h] @ drop (Suc ?h) (stash st)"
    unfolding t using len by (simp_all add: load_path_eq)
  have tlow: "stash t ! i = read_map (oram_tree st) (path_node ?h leaf i)" if "i \<le> ?h" for i
    using that unfolding tf(7) by (simp add: nth_append del: upt_Suc)
  have thigh: "stash t ! i = stash st ! i" if "?h < i" "i < stashsz st" for i
    using that len unfolding tf(7) by (simp add: nth_append)
  obtain ys where r: "rearrange_stash leaf bid new_leaf t = Inr ys" and u: "u = write_path ?h leaf (t\<lparr>stash := ys\<rparr>)"
    using w by (auto simp: stash_write_back_def tf(1) split: sum.splits)
  have lt: "length (stash t) = stashsz t" using len by (simp add: tf(4) tf(7))
  have nb: "bid \<noteq> no_block" by (rule real_block [OF wf b(1)])
  note ry = rearrange_stash_ok [OF r lt, unfolded tf(1-6), OF len(2) nb]
  obtain T D where u': "u = t\<lparr>stash := replicate (Suc ?h) no_block @ drop (Suc ?h) ys, oram_tree := T, dram_trace := D\<rparr>"
    using write_path_frame [of ?h "t\<lparr>stash := ys\<rparr>" leaf] len ry(1) unfolding u [symmetric] by simp
  have uf: "tree_height u = ?h" "tree_leaves u = tree_leaves st" "tree_nodes u = tree_nodes st" "stashsz u = stashsz st"
    "position_map u = (position_map st)(bid \<mapsto> new_leaf)"
    "stash u = replicate (Suc ?h) no_block @ drop (Suc ?h) ys"
    unfolding u' by (simp_all add: tf)
  have ut: "\<And>i. i \<le> ?h \<Longrightarrow> oram_tree u (path_node ?h leaf i) = Some (ys ! i)"
    and un: "\<And>n. \<forall>i \<le> ?h. n \<noteq> path_node ?h leaf i \<Longrightarrow> oram_tree u n = oram_tree st n"
    using write_path_tree [of ?h "t\<lparr>stash := ys\<rparr>" leaf] len ry(1) leafok unfolding u [symmetric] by (simp_all add: tf)
  have uhigh: "stash u ! i = ys ! i" if "?h < i" "i < stashsz st" for i
    using that ry(1) unfolding uf(6) by (simp add: nth_append del: replicate_Suc)
  have wfu: "oram_wf u" using wf ry(1) by (simp add: oram_wf_def uf)
  have other: "block_present b' u" if b': "unat b' < tree_leaves st" "b' \<noteq> bid" for b'
  proof -
    have nb': "b' \<noteq> no_block" by (rule real_block [OF wf b'(1)])
    have pm: "read_map (position_map u) b' = read_map (position_map st) b'" using b'(2) by (simp add: uf(5) read_map_def)
    from pr [OF b'(1)] consider (stash) j where "?h < j" "j < stashsz st" "stash st ! j = b'"
      | (tree) i where "i \<le> ?h" "oram_tree st (path_node ?h (read_map (position_map st) b') i) = Some b'"
      unfolding block_present_def by blast
    then show ?thesis
    proof cases
      case stash
      then have "ys ! j = b'" using ry(2) [of j] thigh [of j] b'(2) nb' by simp
      then show ?thesis using stash uhigh unfolding block_present_def uf by blast
    next
      case tree
      define n where "n = path_node ?h (read_map (position_map st) b') i"
      have "oram_tree u n = Some b'"
      proof (cases "\<exists>k \<le> ?h. n = path_node ?h leaf k")
        case True
        then obtain k where k: "k \<le> ?h" "n = path_node ?h leaf k" by blast
        have "stash t ! k = b'" using tlow [OF k(1)] tree(2) by (simp add: read_map_def k(2) [symmetric] n_def)
        then have "ys ! k = b'" using ry(2) [of k] k(1) len b'(2) nb' by simp
        then show ?thesis using ut [OF k(1)] by (simp add: k(2))
      next
        case False
        then show ?thesis using un [of n] tree(2) by (simp add: n_def)
      qed
      then show ?thesis using tree(1) unfolding block_present_def uf(1) pm n_def by blast
    qed
  qed
  have self: "block_present bid u"
  proof -
    have pm: "read_map (position_map u) bid = new_leaf" by (simp add: uf(5) read_map_def)
    obtain j where j: "j < stashsz st" "ys ! j = bid"
      "?h < j \<or> (\<exists>k. nearest_ancestor ?h new_leaf leaf = Some k \<and> j \<le> k)" using ry(3) by blast
    from j(3) show ?thesis
    proof
      assume "?h < j"
      then show ?thesis using j uhigh unfolding block_present_def uf by blast
    next
      assume "\<exists>k. nearest_ancestor ?h new_leaf leaf = Some k \<and> j \<le> k"
      then have "j \<le> ?h" "path_node ?h new_leaf j = path_node ?h leaf j"
        using nearest_ancestor_meets [of ?h new_leaf leaf] by (auto intro: order_trans)
      then show ?thesis using ut [of j] j(2) unfolding block_present_def uf(1) pm by metis
    qed
  qed
  have "stash u ! i = no_block" if "i \<le> ?h" for i
    using that unfolding uf(6) by (simp add: nth_append del: replicate_Suc)
  moreover have "leaf_of ?h (read_map (position_map u) b')" if "unat b' < tree_leaves st" for b'
    using lf [OF that] new by (cases "b' = bid") (simp_all add: uf(5) read_map_def)
  ultimately show ?thesis using wfu other self unfolding oram_inv_def uf by blast
qed

lemma oram_inv_cong:
  assumes "tree_height t = tree_height st" "tree_leaves t = tree_leaves st" "tree_nodes t = tree_nodes st"
    "stashsz t = stashsz st" "stash t = stash st" "position_map t = position_map st" "oram_tree t = oram_tree st"
  shows "oram_inv t = oram_inv st"
  by (simp add: oram_inv_def oram_wf_def block_present_def assms)

lemma new_leaf_of: "oram_wf st \<Longrightarrow> leaf_of (tree_height st) (rand mod tree_leaves st + tree_leaves st)"
  by (simp add: oram_wf_def leaf_of_def)

text \<open>The fields an access leaves alone.\<close>

lemma path_frame [simp]:
  "tree_leaves (load_path s cur st) = tree_leaves st" "tree_leaves (write_path s cur st) = tree_leaves st"
  "num_of_blocks (load_path s cur st) = num_of_blocks st" "num_of_blocks (write_path s cur st) = num_of_blocks st"
  "cacheline_sz (load_path s cur st) = cacheline_sz st" "cacheline_sz (write_path s cur st) = cacheline_sz st"
  "tree_height (load_path s cur st) = tree_height st" "tree_height (write_path s cur st) = tree_height st"
  "stashsz (load_path s cur st) = stashsz st" "length (stash (load_path s cur st)) = length (stash st)"
  by (induction s arbitrary: cur st) (simp_all add: load_bucket_def write_bucket_def Let_def)

text \<open>The state in which a miss reads the path, and the whole access in one equation.\<close>

definition missed :: "u64 \<Rightarrow> nat \<Rightarrow> oram_sim \<Rightarrow> oram_sim" where
  "missed bid new st = st\<lparr>oram_requests := oram_requests st + 1, stash_miss := stash_miss st + 1,
     position_map := (position_map st)(bid \<mapsto> new)\<rparr>"

lemma oram_access_eq:
  fixes rand :: nat and addr :: u64 and st :: oram_sim
  defines "bid \<equiv> get_block_id addr st"
  defines "leaf \<equiv> read_map (position_map st) bid" and "new \<equiv> rand mod tree_leaves st + tree_leaves st"
  shows "oram_access rand addr st =
    (if \<not> bid < num_of_blocks st then Inl Assert_block_id
     else if bid \<in> set (stash st)
     then Inr (st\<lparr>oram_requests := oram_requests st + 1, stash_hit := stash_hit st + 1\<rparr>)
     else if \<not> is_leaf leaf st then Inl Assert_is_leaf
     else stash_write_back leaf bid new (load_path (tree_height st) leaf (missed bid new st)))"
  by (simp add: oram_access_def Let_def bid_def leaf_def new_def get_block_id_def block_is_in_stash_def
      load_path_to_stash_def is_leaf_def missed_def)

lemma oram_access_inv:
  assumes inv: "oram_inv st" and bid: "unat (get_block_id addr st) < tree_leaves st"
    and acc: "oram_access rand addr st = Inr u"
  shows "oram_inv u"
proof (cases "get_block_id addr st \<in> set (stash st)")
  case True
  then have "u = st\<lparr>oram_requests := oram_requests st + 1, stash_hit := stash_hit st + 1\<rparr>"
    using acc by (simp add: oram_access_eq split: if_splits)
  then show ?thesis using inv oram_inv_cong [of u st] by simp
next
  case False
  let ?bid = "get_block_id addr st" and ?new = "rand mod tree_leaves st + tree_leaves st"
  let ?s = "st\<lparr>oram_requests := oram_requests st + 1, stash_miss := stash_miss st + 1\<rparr>"
  have i2: "oram_inv ?s" using inv oram_inv_cong [of ?s st] by simp
  have wf: "oram_wf ?s" using i2 by (simp only: oram_inv_def)
  have m: "missed ?bid ?new st = ?s\<lparr>position_map := (position_map ?s)(?bid \<mapsto> ?new)\<rparr>" by (simp add: missed_def)
  have "stash_write_back (read_map (position_map st) ?bid) ?bid ?new
      (load_path (tree_height st) (read_map (position_map st) ?bid) (missed ?bid ?new st)) = Inr u"
    using acc False by (simp add: oram_access_eq split: if_splits)
  from stash_miss_ok [OF i2 _ _ new_leaf_of [OF wf, of rand] refl refl, of ?bid u] this bid False show ?thesis
    by (simp add: m)
qed

text \<open>The initial state, and sequences of accesses.\<close>

lemma log2_bounds: "0 < n \<Longrightarrow> 2 ^ log2 n \<le> unat n \<and> log2 n < 64"
proof (induction n rule: log2.induct)
  case (1 n)
  show ?case
  proof (cases "n \<le> 1")
    case True
    with 1 show ?thesis by (simp add: log2.simps [of n] word_le_nat_alt word_less_nat_alt)
  next
    case False
    have h: "unat (drop_bit 1 n) = unat n div 2" by (simp only: unat_shr) simp
    have "1 < unat n" using False by (simp add: word_le_nat_alt)
    then have "0 < drop_bit 1 n" by (simp only: word_less_nat_alt h unat_0)
    with 1 False have "2 ^ log2 (drop_bit 1 n) \<le> unat n div 2" unfolding h [symmetric] by simp
    then have le: "2 ^ Suc (log2 (drop_bit 1 n)) \<le> unat n" by simp
    also have "\<dots> < 2 ^ 64" using unat_lt_pow [of n] by simp
    finally have "Suc (log2 (drop_bit 1 n)) < 64" by (simp only: power_strict_increasing_iff)
    with le False show ?thesis by (simp add: log2.simps [of n])
  qed
qed

lemma oram_init_inv:
  fixes bsz :: u64 and ssz :: nat and mem cl :: u64
  defines "st \<equiv> oram_init bsz ssz mem cl"
  assumes "0 < num_of_blocks st" "tree_height st + 1 < ssz"
  shows "oram_inv st" "tree_leaves st \<le> unat (num_of_blocks st)"
proof -
  define num where "num = mem * 1024 * 1024 div cl div bsz"
  define h where "h = log2 num"
  have f: "num_of_blocks st = num" "tree_height st = h" "tree_leaves st = 2 ^ h" "tree_nodes st = 2 ^ (h + 1) - 1"
    "stashsz st = ssz" "stash st = replicate ssz no_block"
    "position_map st = (\<lambda>bid. if bid < of_nat (2 ^ h) then Some (2 ^ h + unat bid) else None)"
    "oram_tree st = (\<lambda>n. if 1 \<le> n \<and> n < 2 ^ h then Some no_block
       else if 2 ^ h \<le> n \<and> n \<le> 2 ^ (h + 1) - 1 then Some (of_nat (n - 2 ^ h)) else None)"
    unfolding st_def oram_init_def Let_def num_def [symmetric] h_def [symmetric] by simp_all
  have h: "2 ^ h \<le> unat num" "h < 64" using log2_bounds [of num] assms(2) by (simp_all add: f h_def)
  then show "tree_leaves st \<le> unat (num_of_blocks st)" by (simp add: f)
  have u: "unat (of_nat (2 ^ h) :: u64) = 2 ^ h"
    using h(1) unat_lt_pow [of num] by (simp add: unat_of_nat del: of_nat_power)
  have "leaf_of h (read_map (position_map st) b) \<and> block_present b st" if b: "unat b < 2 ^ h" for b
  proof -
    have r: "read_map (position_map st) b = 2 ^ h + unat b"
      using b by (simp add: f read_map_def word_less_nat_alt u del: of_nat_power)
    have "2 ^ h + unat b \<le> 2 ^ (h + 1) - 1" using b by simp
    then have "oram_tree st (path_node h (2 ^ h + unat b) h) = Some b" by (simp add: f of_nat_unat)
    then show ?thesis using b unfolding block_present_def f(2) r by (auto simp: leaf_of_def intro!: exI [of _ h])
  qed
  then show "oram_inv st"
    using assms(3) h(2) by (simp add: oram_inv_def oram_wf_def f(1-6))
qed

lemma oram_access_frame:
  assumes "oram_access rand addr st = Inr t"
  shows "tree_leaves t = tree_leaves st" "num_of_blocks t = num_of_blocks st" "cacheline_sz t = cacheline_sz st"
    "tree_height t = tree_height st"
  using assms by (auto simp: oram_access_eq stash_write_back_def missed_def split: if_splits sum.splits)

subsection \<open>Which blocks there are\<close>

text \<open>
  Only the blocks below \<open>tree_leaves\<close> have a leaf, although \<^verbatim>\<open>access\<close> admits every block below \<open>num_of_blocks\<close>; the two numbers differ when
  the second is no power of two.
\<close>

definition holds_only :: "(u64 \<Rightarrow> bool) \<Rightarrow> oram_sim \<Rightarrow> bool" where
  "holds_only Q st \<longleftrightarrow> (\<forall>n b. oram_tree st n = Some b \<longrightarrow> Q b) \<and> (\<forall>b \<in> set (stash st). Q b)"

lemma load_bucket_holds: "holds_only Q st \<Longrightarrow> Q 0 \<Longrightarrow> holds_only Q (load_bucket s cur st)"
  using set_update_subset_insert [of "stash st" s "read_map (oram_tree st) cur"]
  by (auto simp: holds_only_def load_bucket_def Let_def read_map_def split: option.splits)

lemma load_path_holds: "holds_only Q st \<Longrightarrow> Q 0 \<Longrightarrow> holds_only Q (load_path s cur st)"
  by (induction s arbitrary: cur st) (simp_all add: load_bucket_holds)

lemma write_bucket_holds:
  "s < length (stash st) \<Longrightarrow> holds_only Q st \<Longrightarrow> Q no_block \<Longrightarrow> holds_only Q (write_bucket s cur st)"
  using set_update_subset_insert [of "stash st" s no_block] by (auto simp: holds_only_def write_bucket_def Let_def)

lemma length_write_bucket [simp]: "length (stash (write_bucket s cur st)) = length (stash st)"
  by (simp add: write_bucket_def Let_def)

lemma write_path_holds: "s < length (stash st) \<Longrightarrow> holds_only Q st \<Longrightarrow> Q no_block \<Longrightarrow> holds_only Q (write_path s cur st)"
  by (induction s arbitrary: cur st) (simp_all add: write_bucket_holds)

lemma bring_evicted_set: "sid < length xs \<Longrightarrow> set xs \<subseteq> S \<Longrightarrow> set (bring_evicted h leaf pm sid xs) \<subseteq> S"
  using subsetD [OF _ nth_mem [of sid xs]] by (simp add: bring_evicted_def set_update_subsetI split: option.split)

lemma length_bring_evicted [simp]: "length (bring_evicted h leaf pm sid xs) = length xs"
  by (simp add: bring_evicted_def split: option.split)

lemma fold_bring_evicted_set:
  "set xs \<subseteq> S \<Longrightarrow> (\<forall>i \<in> set sids. i < length xs) \<Longrightarrow> set (fold (bring_evicted h leaf pm) sids xs) \<subseteq> S"
proof (induction sids arbitrary: xs)
  case (Cons sid sids)
  then show ?case using bring_evicted_set [of sid xs S h leaf pm] by simp
qed simp

lemma rearrange_stash_set:
  assumes "rearrange_stash leaf bid new_leaf st = Inr ys" "length (stash st) = stashsz st" "set (stash st) \<subseteq> S" "bid \<in> S" "no_block \<in> S"
  shows "set ys \<subseteq> S"
proof -
  define xs0 where "xs0 = stash_remove bid (stashsz st) (stash st)"
  define step where "step = (\<lambda>xs. fold (bring_evicted (tree_height st) leaf (position_map st)) [tree_height st + 1..<stashsz st] xs)"
  have 0: "set xs0 \<subseteq> S" "length xs0 = stashsz st"
    unfolding xs0_def stash_remove_def using assms(2,3,5) by (auto split: option.split intro: set_update_subsetI [THEN subsetD])
  have s: "set (step xs) \<subseteq> S" if "set xs \<subseteq> S" "length xs = stashsz st" for xs
    unfolding step_def using that by (intro fold_bring_evicted_set) auto
  obtain k where k: "nearest_ancestor (tree_height st) new_leaf leaf = Some k"
    using assms(1) by (auto simp: rearrange_stash_def split: option.splits)
  define slot where "slot = find_index (\<lambda>b. b = no_block) (rev [0..<Suc k]) xs0"
  have ys: "ys = step (case slot of None \<Rightarrow> xs0 | Some sid \<Rightarrow> xs0[sid := bid]) \<or>
      (\<exists>sid. ys = (step (case slot of None \<Rightarrow> xs0 | Some sid \<Rightarrow> xs0[sid := bid]))[sid := bid])"
    using assms(1) unfolding rearrange_stash_def k option.case Let_def xs0_def [symmetric] step_def [symmetric] slot_def [symmetric]
    by (cases slot) (auto split: option.splits if_splits)
  have "set (step (case slot of None \<Rightarrow> xs0 | Some sid \<Rightarrow> xs0[sid := bid])) \<subseteq> S"
    by (rule s) (use 0 assms(4) in \<open>auto split: option.split intro: set_update_subsetI [THEN subsetD]\<close>)
  then show ?thesis using ys assms(4) by (auto intro: set_update_subsetI [THEN subsetD])
qed

definition known_blocks :: "oram_sim \<Rightarrow> bool" where
  "known_blocks st \<longleftrightarrow> holds_only (\<lambda>b. b = no_block \<or> unat b < tree_leaves st) st \<and> (\<forall>b. tree_leaves st \<le> unat b \<longrightarrow> position_map st b = None)"

text \<open>A block without a leaf fails the assertion on leaves at once.\<close>

lemma stray_access:
  assumes "oram_wf st" "known_blocks st" "tree_leaves st \<le> unat (get_block_id addr st)" "get_block_id addr st < num_of_blocks st"
  shows "oram_access rand addr st = Inl Assert_is_leaf"
proof -
  have "get_block_id addr st \<noteq> no_block" using assms(4) word_order.extremum [of "num_of_blocks st"] by auto
  then have "get_block_id addr st \<notin> set (stash st)" using assms(2,3) by (auto simp: known_blocks_def holds_only_def)
  moreover have "read_map (position_map st) (get_block_id addr st) = 0" using assms(2,3) by (simp add: known_blocks_def read_map_def)
  moreover have "\<not> is_leaf 0 st" using assms(1) by (simp add: is_leaf_def oram_wf_def)
  ultimately show ?thesis using assms(4) by (simp add: oram_access_eq)
qed

lemma access_known:
  assumes wf: "oram_wf st" and k: "known_blocks st" and acc: "oram_access rand addr st = Inr u"
  shows "unat (get_block_id addr st) < tree_leaves st" "known_blocks u"
proof -
  let ?bid = "get_block_id addr st" and ?new = "rand mod tree_leaves st + tree_leaves st"
  let ?Q = "\<lambda>b. b = no_block \<or> unat b < tree_leaves st"
  have "?bid < num_of_blocks st" using acc by (simp add: oram_access_eq split: if_splits)
  then show b: "unat ?bid < tree_leaves st" using acc stray_access [OF wf k, of addr rand] by (metis Inl_Inr_False not_less)
  show "known_blocks u"
  proof (cases "?bid \<in> set (stash st)")
    case True
    then have "u = st\<lparr>oram_requests := oram_requests st + 1, stash_hit := stash_hit st + 1\<rparr>"
      using acc by (simp add: oram_access_eq split: if_splits)
    then show ?thesis using k by (simp add: known_blocks_def holds_only_def)
  next
    case False
    let ?leaf = "read_map (position_map st) ?bid"
    define t where "t = load_path (tree_height st) ?leaf (missed ?bid ?new st)"
    have "0 < tree_leaves st" "length (stash st) = stashsz st" "tree_height st < stashsz st" using wf by (simp_all add: oram_wf_def)
    note wf' = this
    have "holds_only ?Q (missed ?bid ?new st)" using k by (simp add: known_blocks_def holds_only_def missed_def)
    then have t: "holds_only ?Q t" "length (stash t) = stashsz t" "stashsz t = stashsz st" "tree_height t = tree_height st"
      using wf' unfolding t_def by (simp_all add: load_path_holds) (simp_all add: missed_def)
    obtain ys where ys: "rearrange_stash ?leaf ?bid ?new t = Inr ys" "u = write_path (tree_height st) ?leaf (t\<lparr>stash := ys\<rparr>)"
      using acc False by (auto simp: oram_access_eq stash_write_back_def t(4) simp flip: t_def split: if_splits sum.splits)
    have "set ys \<subseteq> {b. ?Q b}" using t(1) b by (intro rearrange_stash_set [OF ys(1) t(2)]) (auto simp: holds_only_def)
    moreover have "length ys = stashsz st"
      using rearrange_stash_ok(1) [OF ys(1) t(2)] t(3,4) wf real_block [OF wf b] by (simp add: oram_wf_def)
    ultimately have "holds_only ?Q u"
      unfolding ys(2) using t(1) wf' by (intro write_path_holds) (auto simp: holds_only_def)
    moreover have "position_map u = (position_map st)(?bid \<mapsto> ?new)"
      unfolding ys(2) t_def using wf' by (subst write_path_frame) (use \<open>length ys = stashsz st\<close> in \<open>simp_all add: load_path_eq missed_def\<close>)
    moreover have "tree_leaves u = tree_leaves st" by (rule oram_access_frame(1) [OF acc])
    ultimately show ?thesis using k b by (auto simp: known_blocks_def)
  qed
qed

text \<open>The initial state and sequences of accesses; no access needs to be assumed to be in range.\<close>

lemma log2_less: "unat n < 2 ^ Suc (log2 n)"
proof (induction n rule: log2.induct)
  case (1 n)
  show ?case
  proof (cases "n \<le> 1")
    case True
    then show ?thesis by (simp add: log2.simps [of n] word_le_nat_alt)
  next
    case False
    have h: "unat (drop_bit 1 n) = unat n div 2" by (simp only: unat_shr) simp
    show ?thesis using 1 [OF False] False unfolding h by (simp add: log2.simps [of n])
  qed
qed

lemma log2_power: "unat n = 2 ^ k \<Longrightarrow> log2 n = k"
proof -
  assume n: "unat n = 2 ^ k"
  then have "0 < unat n" by simp
  then have "0 < n" by (simp add: word_less_nat_alt)
  then have "(2::nat) ^ log2 n \<le> 2 ^ k" "(2::nat) ^ k < 2 ^ Suc (log2 n)" using log2_bounds [of n] log2_less [of n] n by simp_all
  then have "log2 n \<le> k" "k < Suc (log2 n)" by (simp_all only: power_increasing_iff power_strict_increasing_iff one_less_numeral_iff semiring_norm)
  then show ?thesis by simp
qed

lemma oram_init_known:
  assumes "0 < num_of_blocks (oram_init bsz ssz mem cl)"
  shows "known_blocks (oram_init bsz ssz mem cl)"
proof -
  define num where "num = mem * 1024 * 1024 div cl div bsz"
  define h where "h = log2 num"
  have "num_of_blocks (oram_init bsz ssz mem cl) = num" by (simp add: oram_init_def num_def Let_def)
  then have "2 ^ h \<le> unat num" using log2_bounds [of num] assms by (simp add: h_def)
  then have p: "(2::nat) ^ h < 2 ^ 64" using unat_lt_pow [of num] by simp
  have u: "unat (of_nat k :: u64) = k" if "k \<le> 2 ^ h" for k
    using that p by (simp add: unat_of_nat)
  have lt: "(b :: u64) < of_nat (2 ^ h) \<longleftrightarrow> unat b < 2 ^ h" for b
    using u [of "2 ^ h"] by (simp add: word_less_nat_alt del: of_nat_power)
  have "0 < (2::nat) ^ h" by simp
  then have n: "n - 2 ^ h < 2 ^ h" if "n \<le> 2 * 2 ^ h - Suc 0" for n :: nat using that by linarith
  show ?thesis
    unfolding known_blocks_def holds_only_def oram_init_def Let_def num_def [symmetric] h_def [symmetric]
    using lt u n by (auto simp: set_replicate_conv_if split: if_splits simp del: of_nat_power of_nat_diff)
qed

lemma oram_accesses_reached:
  assumes "oram_accesses as st = Inr t" "oram_inv st" "known_blocks st"
  shows "oram_inv t" "known_blocks t" "tree_leaves t = tree_leaves st" "num_of_blocks t = num_of_blocks st"
    "cacheline_sz t = cacheline_sz st" "tree_height t = tree_height st"
proof -
  have "oram_inv t \<and> known_blocks t \<and> tree_leaves t = tree_leaves st \<and> num_of_blocks t = num_of_blocks st \<and>
      cacheline_sz t = cacheline_sz st \<and> tree_height t = tree_height st"
    using assms
  proof (induction as arbitrary: st)
    case (Cons a as)
    obtain rand addr u where u: "a = (rand, addr)" "oram_access rand addr st = Inr u" "oram_accesses as u = Inr t"
      using Cons.prems(1) by (cases a) (auto split: sum.splits)
    have wf: "oram_wf st" using Cons.prems(2) by (simp add: oram_inv_def)
    note k = access_known [OF wf Cons.prems(3) u(2)]
    show ?case using Cons.IH [OF u(3) oram_access_inv [OF Cons.prems(2) k(1) u(2)] k(2)] oram_access_frame [OF u(2)] by simp
  qed simp
  then show "oram_inv t" "known_blocks t" "tree_leaves t = tree_leaves st" "num_of_blocks t = num_of_blocks st"
    "cacheline_sz t = cacheline_sz st" "tree_height t = tree_height st" by blast+
qed

lemma oram_access_stop:
  assumes inv: "oram_inv st" and bid: "unat (get_block_id addr st) < tree_leaves st"
    and num: "get_block_id addr st < num_of_blocks st" and acc: "oram_access rand addr st = Inl e"
  shows "e = Assert_stash_overflow"
proof -
  let ?bid = "get_block_id addr st" and ?new = "rand mod tree_leaves st + tree_leaves st"
  let ?leaf = "read_map (position_map st) ?bid"
  let ?t = "load_path (tree_height st) ?leaf (missed ?bid ?new st)"
  have wf: "oram_wf st" using inv by (simp add: oram_inv_def)
  have l: "leaf_of (tree_height st) ?leaf" using inv bid by (simp add: oram_inv_def)
  have "stash_write_back ?leaf ?bid ?new ?t = Inl e"
    using acc l num leaf_of_is_leaf [OF wf] by (simp add: oram_access_eq split: if_splits)
  then have "rearrange_stash ?leaf ?bid ?new ?t = Inl e" by (simp add: stash_write_back_def split: sum.splits)
  moreover have "tree_height ?t = tree_height st" by (simp add: missed_def)
  ultimately show ?thesis
    using rearrange_stash_error [of ?leaf ?bid ?new ?t] l new_leaf_of [OF wf, of rand] by simp
qed

text \<open>Why a sequence of accesses stops.\<close>

lemma oram_accesses_stop:
  assumes "oram_accesses as st = Inl e" "oram_inv st" "known_blocks st"
  shows "e = Assert_stash_overflow \<or>
    e = Assert_block_id \<and> (\<exists>(rand, addr) \<in> set as. num_of_blocks st \<le> get_block_id addr st) \<or>
    e = Assert_is_leaf \<and> (\<exists>(rand, addr) \<in> set as. tree_leaves st \<le> unat (get_block_id addr st) \<and> get_block_id addr st < num_of_blocks st)"
  using assms
proof (induction as arbitrary: st)
  case (Cons a as)
  obtain rand addr where a: "a = (rand, addr)" by fastforce
  have wf: "oram_wf st" using Cons.prems(2) by (simp add: oram_inv_def)
  show ?case
  proof (cases "oram_access rand addr st")
    case (Inl e')
    consider "num_of_blocks st \<le> get_block_id addr st"
      | "get_block_id addr st < num_of_blocks st" "tree_leaves st \<le> unat (get_block_id addr st)"
      | "get_block_id addr st < num_of_blocks st" "unat (get_block_id addr st) < tree_leaves st" by fastforce
    then show ?thesis
    proof cases
      case 1
      then have "e = Assert_block_id" using Inl Cons.prems(1) by (simp add: a oram_access_eq not_less)
      then show ?thesis using 1 by (simp add: a)
    next
      case 2
      then have "e = Assert_is_leaf" using stray_access [OF wf Cons.prems(3)] Cons.prems(1) by (simp add: a)
      then show ?thesis using 2 by (simp add: a)
    next
      case 3
      then have "e = Assert_stash_overflow" using oram_access_stop [OF Cons.prems(2) 3(2,1) Inl] Cons.prems(1) Inl by (simp add: a)
      then show ?thesis by simp
    qed
  next
    case (Inr u)
    note k = access_known [OF wf Cons.prems(3) Inr]
    have "oram_accesses as u = Inl e" using Cons.prems(1) Inr by (simp add: a)
    from Cons.IH [OF this oram_access_inv [OF Cons.prems(2) k(1) Inr] k(2)] show ?thesis
      using oram_access_frame [OF Inr] by (auto simp: get_block_id_def)
  qed
qed simp

subsection \<open>The stash never gets free\<close>

text \<open>
  A block behind the path area stays where it is for ever: the loop that brings evicted blocks back copies a block to the path, but the
  statement that should clear its entry is a comparison.
\<close>

lemma access_keeps_stash:
  assumes inv: "oram_inv st" and b: "unat (get_block_id addr st) < tree_leaves st" and acc: "oram_access rand addr st = Inr u"
    and i: "tree_height st < i" "i < stashsz st" "stash st ! i \<noteq> no_block"
  shows "stash u ! i = stash st ! i" "stashsz u = stashsz st"
proof -
  let ?bid = "get_block_id addr st" and ?new = "rand mod tree_leaves st + tree_leaves st" and ?h = "tree_height st"
  let ?leaf = "read_map (position_map st) ?bid"
  have wf: "oram_wf st" and len: "length (stash st) = stashsz st" "?h + 1 < stashsz st" using inv by (simp_all add: oram_inv_def oram_wf_def)
  have "stash u ! i = stash st ! i \<and> stashsz u = stashsz st"
  proof (cases "?bid \<in> set (stash st)")
    case True
    then show ?thesis using acc by (auto simp: oram_access_eq split: if_splits)
  next
    case False
    define t where "t = load_path ?h ?leaf (missed ?bid ?new st)"
    have t: "length (stash t) = stashsz t" "stashsz t = stashsz st" "tree_height t = ?h" "stash t ! i = stash st ! i"
      unfolding t_def using len i by (simp_all add: load_path_eq nth_append missed_def)
    obtain ys where ys: "rearrange_stash ?leaf ?bid ?new t = Inr ys" "u = write_path ?h ?leaf (t\<lparr>stash := ys\<rparr>)"
      using acc False by (auto simp: oram_access_eq stash_write_back_def t(3) simp flip: t_def split: if_splits sum.splits)
    note r = rearrange_stash_ok [OF ys(1) t(1), unfolded t(2,3), OF len(2) real_block [OF wf b]]
    have "stash t ! i \<noteq> ?bid" using False i(2) len(1) nth_mem [of i "stash st"] t(4) by metis
    then have "ys ! i = stash st ! i" using r(2) [of i] t(4) i by simp
    moreover have "stash u = replicate (Suc ?h) no_block @ drop (Suc ?h) ys" "stashsz u = stashsz st"
      unfolding ys(2) using r(1) len t(2) by (subst write_path_frame, simp, simp)+
    ultimately show ?thesis using i(1,2) r(1) by (simp add: nth_append del: replicate_Suc)
  qed
  then show "stash u ! i = stash st ! i" "stashsz u = stashsz st" by blast+
qed

lemma accesses_keep_stash:
  assumes "oram_accesses as st = Inr t" "oram_inv st" "known_blocks st" "tree_height st < i" "i < stashsz st" "stash st ! i \<noteq> no_block"
  shows "stash t ! i = stash st ! i \<and> stashsz t = stashsz st"
  using assms
proof (induction as arbitrary: st)
  case (Cons a as)
  obtain rand addr u where u: "a = (rand, addr)" "oram_access rand addr st = Inr u" "oram_accesses as u = Inr t"
    using Cons.prems(1) by (cases a) (auto split: sum.splits)
  have wf: "oram_wf st" using Cons.prems(2) by (simp add: oram_inv_def)
  note k = access_known [OF wf Cons.prems(3) u(2)]
  note a = access_keeps_stash [OF Cons.prems(2) k(1) u(2) Cons.prems(4-6)]
  show ?case using Cons.IH [OF u(3) oram_access_inv [OF Cons.prems(2) k(1) u(2)] k(2)] oram_access_frame [OF u(2)] Cons.prems a by simp
qed simp

subsection \<open>Traffic\<close>

text \<open>The traffic of an access: nothing for a hit; for a miss one read and one write per level.\<close>

lemma path_trace:
  assumes "s < length (stash st)"
  shows "dram_trace (load_path s cur st) = dram_trace st @
      map (\<lambda>i. (block_id_to_addr (read_map (oram_tree st) (path_node s cur i)) st, cacheline_sz st, LOAD)) (rev [0..<Suc s])"
    and "dram_trace (write_path s cur st) = dram_trace st @
      map (\<lambda>i. (block_id_to_addr (stash st ! i) st, cacheline_sz st, STORE)) (rev [0..<Suc s])"
  by (subst load_path_eq [OF assms] write_path_frame [OF assms], simp)+

lemma rearrange_stash_length:
  assumes "rearrange_stash leaf bid new_leaf st = Inr ys"
  shows "length ys = length (stash st)"
  using assms keeps_fold_bring_evicted [of _ "tree_height st" leaf "position_map st" "[tree_height st + 1..<stashsz st]"]
  by (auto simp: rearrange_stash_def Let_def keeps_def split: if_splits option.splits)

lemma oram_access_trace:
  assumes acc: "oram_access rand addr st = Inr t" and wf: "oram_wf st"
  shows "\<exists>rs ws. set (map (snd \<circ> snd) rs) \<subseteq> {LOAD} \<and> set (map (snd \<circ> snd) ws) \<subseteq> {STORE} \<and>
    dram_trace t = dram_trace st @ rs @ ws \<and>
    length rs = (if block_is_in_stash (get_block_id addr st) st then 0 else tree_height st + 1) \<and> length ws = length rs"
proof (cases "block_is_in_stash (get_block_id addr st) st")
  case True
  then have "dram_trace t = dram_trace st"
    using acc by (auto simp: oram_access_def Let_def get_block_id_def block_is_in_stash_def split: if_splits)
  then show ?thesis using True by (intro exI [of _ "[]"]) simp
next
  case False
  let ?bid = "get_block_id addr st" and ?new = "rand mod tree_leaves st + tree_leaves st"
  let ?leaf = "read_map (position_map st) ?bid"
  let ?m = "missed ?bid ?new st"
  let ?t = "load_path (tree_height st) ?leaf ?m"
  have l: "tree_height st < length (stash st)" using wf by (simp add: oram_wf_def)
  have m: "stash ?m = stash st" "tree_height ?m = tree_height st" "dram_trace ?m = dram_trace st" by (simp_all add: missed_def)
  obtain ys where ys: "rearrange_stash ?leaf ?bid ?new ?t = Inr ys" "t = write_path (tree_height st) ?leaf (?t\<lparr>stash := ys\<rparr>)"
    using acc False by (auto simp: oram_access_eq stash_write_back_def block_is_in_stash_def m split: if_splits sum.splits)
  have ly: "length ys = length (stash st)" using rearrange_stash_length [OF ys(1)] by (simp add: m)
  define rs where "rs = map (\<lambda>i. (block_id_to_addr (read_map (oram_tree ?m) (path_node (tree_height st) ?leaf i)) ?m,
    cacheline_sz ?m, LOAD)) (rev [0..<Suc (tree_height st)])"
  define ws where "ws = map (\<lambda>i. (block_id_to_addr (ys ! i) (?t\<lparr>stash := ys\<rparr>), cacheline_sz ?t, STORE)) (rev [0..<Suc (tree_height st)])"
  have "dram_trace ?t = dram_trace st @ rs"
    using path_trace(1) [of "tree_height st" ?m ?leaf] l by (simp add: m rs_def)
  moreover have "dram_trace t = dram_trace ?t @ ws"
    using path_trace(2) [of "tree_height st" "?t\<lparr>stash := ys\<rparr>" ?leaf] l ly by (simp add: ys(2) ws_def)
  ultimately show ?thesis using False by (intro exI [of _ rs] exI [of _ ws]) (auto simp: rs_def ws_def)
qed

end
