(* ===== verification/Cache_Sim.thy ===== *)
theory Cache_Sim
  imports Oram_Sim
begin

text \<open>
  The cache model of \<^verbatim>\<open>riscv/cachesim.cc\<close>: a set-associative cache with random replacement, its
  fully-associative subclass, and the chain of miss handlers behind it, which ends in the ORAM
  controller.  A pointer to a tag is a reference (a way of the array, or a key of the map); the chain of
  miss handlers is the list of the caches behind; \<^verbatim>\<open>std::map\<close> is the list of its entries in key order.
\<close>

subsection \<open>Random numbers\<close>

definition lfsr_next :: "u32 \<Rightarrow> u32" where
  "lfsr_next reg = drop_bit 1 reg XOR (- (reg AND 1) AND 0xD0000001)"

subsection \<open>The state\<close>

record cache_sim =
  lfsr :: u32
  oram_handler :: bool
  sets :: u64
  ways :: u64
  linesz :: u64
  idx_shift :: nat
  tags :: "u64 list"
  fully_assoc :: bool
  fa_tags :: "(u64 \<times> u64) list"
  read_accesses :: u64
  read_misses :: u64
  bytes_read :: u64
  write_accesses :: u64
  write_misses :: u64
  bytes_written :: u64
  writebacks :: u64
  cache_oram_accesses :: u64

datatype tag_ref = Way nat | Key u64

abbreviation (input) VALID :: u64 where "VALID \<equiv> 0x8000000000000000"
abbreviation (input) DIRTY :: u64 where "DIRTY \<equiv> 0x4000000000000000"

text \<open>\<^verbatim>\<open>init\<close>; \<open>None\<close> is the exit in \<^verbatim>\<open>help\<close>.  The loop that counts the shifts is \<^const>\<open>log2\<close>.\<close>

definition cache_init :: "bool \<Rightarrow> u64 \<Rightarrow> u64 \<Rightarrow> u64 \<Rightarrow> cache_sim option" where
  "cache_init fa sets' ways' linesz' =
     (if sets' = 0 \<or> sets' AND (sets' - 1) \<noteq> 0 then None
      else if linesz' < 8 \<or> linesz' AND (linesz' - 1) \<noteq> 0 then None
      else Some \<lparr>lfsr = 1, oram_handler = False, sets = sets', ways = ways', linesz = linesz',
        idx_shift = log2 linesz', tags = replicate (unat (sets' * ways')) 0, fully_assoc = fa, fa_tags = [],
        read_accesses = 0, read_misses = 0, bytes_read = 0, write_accesses = 0, write_misses = 0,
        bytes_written = 0, writebacks = 0, cache_oram_accesses = 0\<rparr>)"

subsection \<open>Configurations\<close>

text \<open>\<^verbatim>\<open>atoi\<close>: white space, a sign, digits.\<close>

definition is_space :: "char \<Rightarrow> bool" where
  "is_space c \<longleftrightarrow> c \<in> set [CHR '' '', CHR 0x09, CHR 0x0A, CHR 0x0B, CHR 0x0C, CHR 0x0D]"

definition is_digit :: "char \<Rightarrow> bool" where
  "is_digit c \<longleftrightarrow> 48 \<le> (of_char c :: nat) \<and> (of_char c :: nat) \<le> 57"

definition digits :: "string \<Rightarrow> int" where
  "digits s = foldl (\<lambda>n c. 10 * n + (of_char c - 48)) 0 (takeWhile is_digit s)"

definition atoi :: "string \<Rightarrow> int" where
  "atoi s = (case dropWhile is_space s of
     [] \<Rightarrow> 0
   | c # cs \<Rightarrow> if c = CHR ''-'' then - digits cs else if c = CHR ''+'' then digits cs else digits (c # cs))"

fun strchr :: "string \<Rightarrow> char \<Rightarrow> string option" where
  "strchr [] c = None"
| "strchr (x # xs) c = (if x = c then Some (x # xs) else strchr xs c)"

text \<open>The three fields are read from the positions after the colons; \<^verbatim>\<open>atoi\<close> stops at the next colon.\<close>

definition cache_construct :: "string \<Rightarrow> cache_sim option" where
  "cache_construct config =
     (case strchr config CHR '':'' of None \<Rightarrow> None
      | Some wp0 \<Rightarrow> let wp = tl wp0 in
     (case strchr wp CHR '':'' of None \<Rightarrow> None
      | Some bp0 \<Rightarrow> let bp = tl bp0;
            sets' = word_of_int (atoi config); ways' = word_of_int (atoi wp); linesz' = word_of_int (atoi bp)
          in if 4 < ways' \<and> sets' = 1 then cache_init True 1 ways' linesz'
             else cache_init False sets' ways' linesz'))"

definition oram_construct :: "string \<Rightarrow> u64 \<Rightarrow> oram_sim option" where
  "oram_construct config mem_mb =
     (case strchr config CHR '':'' of None \<Rightarrow> None
      | Some wp0 \<Rightarrow> let wp = tl wp0 in
     (case strchr wp CHR '':'' of None \<Rightarrow> None
      | Some bp0 \<Rightarrow> let bp = tl bp0;
            bucketsz' = word_of_int (atoi config); stashsz' = word_of_int (atoi wp) :: u64; cacheline_sz' = word_of_int (atoi bp)
          in Some (oram_init bucketsz' (unat stashsz') mem_mb cacheline_sz')))"

subsection \<open>Tags\<close>

definition sa_check_tag :: "u64 \<Rightarrow> cache_sim \<Rightarrow> tag_ref option" where
  "sa_check_tag addr c =
     (let idx = drop_bit (idx_shift c) addr AND (sets c - 1);
          tag = drop_bit (idx_shift c) addr OR VALID
      in map_option (\<lambda>i. Way (unat (idx * ways c) + i))
           (List.find (\<lambda>i. tag = tags c ! (unat (idx * ways c) + i) AND NOT DIRTY) [0..<unat (ways c)]))"

definition sa_victimize :: "u64 \<Rightarrow> cache_sim \<Rightarrow> u64 \<times> cache_sim" where
  "sa_victimize addr c =
     (let idx = drop_bit (idx_shift c) addr AND (sets c - 1);
          r = lfsr_next (lfsr c);
          way = ucast r mod ways c;
          k = unat (idx * ways c) + unat way
      in (tags c ! k, c\<lparr>lfsr := r, tags := (tags c)[k := drop_bit (idx_shift c) addr OR VALID]\<rparr>))"

fun map_put :: "u64 \<Rightarrow> u64 \<Rightarrow> (u64 \<times> u64) list \<Rightarrow> (u64 \<times> u64) list" where
  "map_put k v [] = [(k, v)]"
| "map_put k v ((k', v') # m) =
     (if k < k' then (k, v) # (k', v') # m else if k = k' then (k, v) # m else (k', v') # map_put k v m)"

definition fa_check_tag :: "u64 \<Rightarrow> cache_sim \<Rightarrow> tag_ref option" where
  "fa_check_tag addr c =
     (if map_of (fa_tags c) (drop_bit (idx_shift c) addr) = None then None
      else Some (Key (drop_bit (idx_shift c) addr)))"

definition fa_victimize :: "u64 \<Rightarrow> cache_sim \<Rightarrow> u64 \<times> cache_sim" where
  "fa_victimize addr c =
     (let line = drop_bit (idx_shift c) addr
      in if length (fa_tags c) = unat (ways c)
         then let r = lfsr_next (lfsr c); k = unat (ucast r mod ways c)
              in (snd (fa_tags c ! k),
                  c\<lparr>lfsr := r, fa_tags := map_put line (line OR VALID) (take k (fa_tags c) @ drop (Suc k) (fa_tags c))\<rparr>)
         else (0, c\<lparr>fa_tags := map_put line (line OR VALID) (fa_tags c)\<rparr>))"

text \<open>The virtual functions.\<close>

definition check_tag :: "u64 \<Rightarrow> cache_sim \<Rightarrow> tag_ref option" where
  "check_tag addr c = (if fully_assoc c then fa_check_tag addr c else sa_check_tag addr c)"

definition victimize :: "u64 \<Rightarrow> cache_sim \<Rightarrow> u64 \<times> cache_sim" where
  "victimize addr c = (if fully_assoc c then fa_victimize addr c else sa_victimize addr c)"

text \<open>\<^verbatim>\<open>*ref |= DIRTY\<close>.\<close>

definition set_dirty :: "tag_ref \<Rightarrow> cache_sim \<Rightarrow> cache_sim" where
  "set_dirty ref c =
     (case ref of
        Way k \<Rightarrow> c\<lparr>tags := (tags c)[k := tags c ! k OR DIRTY]\<rparr>
      | Key l \<Rightarrow> c\<lparr>fa_tags := map (\<lambda>(k, v). if k = l then (k, v OR DIRTY) else (k, v)) (fa_tags c)\<rparr>)"

subsection \<open>An access\<close>

definition count_access :: "bool \<Rightarrow> u64 \<Rightarrow> cache_sim \<Rightarrow> cache_sim" where
  "count_access store bytes c =
     (if store then c\<lparr>write_accesses := write_accesses c + 1, bytes_written := bytes_written c + bytes\<rparr>
      else c\<lparr>read_accesses := read_accesses c + 1, bytes_read := bytes_read c + bytes\<rparr>)"

definition count_miss :: "bool \<Rightarrow> cache_sim \<Rightarrow> cache_sim" where
  "count_miss store c =
     (if store then c\<lparr>write_misses := write_misses c + 1\<rparr> else c\<lparr>read_misses := read_misses c + 1\<rparr>)"

text \<open>The ORAM controller and the values \<^verbatim>\<open>rand()\<close> will return; only a stash miss draws one.\<close>

type_synonym memory = "oram_sim \<times> (nat \<Rightarrow> nat)"

definition memory_access :: "u64 \<Rightarrow> memory \<Rightarrow> oram_error + memory" where
  "memory_access addr m =
     (case oram_access (snd m 0) addr (fst m) of Inl e \<Rightarrow> Inl e | Inr st \<Rightarrow>
        Inr (st, if block_is_in_stash (get_block_id addr (fst m)) (fst m) then snd m else (\<lambda>n. snd m (Suc n))))"

text \<open>
  \<^verbatim>\<open>access\<close> of one cache.  \<open>next\<close> is \<^verbatim>\<open>miss_handler->access\<close>, \<open>None\<close> without a miss handler; \<open>r\<close> is the state
  behind the cache: the caches of the chain and the memory.
\<close>

definition finish_access :: "u64 \<Rightarrow> bool \<Rightarrow> cache_sim \<Rightarrow> 'r \<Rightarrow> oram_error + cache_sim \<times> 'r" where
  "finish_access addr store c r =
     (if store
      then case check_tag addr c of Some ref \<Rightarrow> Inr (set_dirty ref c, r) | None \<Rightarrow> Inl Undefined_index
      else Inr (c, r))"

definition access_level ::
  "(u64 \<Rightarrow> u64 \<Rightarrow> bool \<Rightarrow> cache_sim list \<times> memory \<Rightarrow> oram_error + cache_sim list \<times> memory) option \<Rightarrow>
   u64 \<Rightarrow> u64 \<Rightarrow> bool \<Rightarrow> cache_sim \<Rightarrow> cache_sim list \<times> memory \<Rightarrow> oram_error + cache_sim \<times> cache_sim list \<times> memory" where
  "access_level next addr bytes store c r =
     (let c = count_access store bytes c
      in case check_tag addr c of
           Some ref \<Rightarrow> Inr (if store then set_dirty ref c else c, r)
         | None \<Rightarrow>
             let c = count_miss store c;
                 (victim, c) = victimize addr c;
                 dirty = (victim AND (VALID OR DIRTY) = VALID OR DIRTY);
                 dirty_addr = push_bit (idx_shift c) (victim AND NOT (VALID OR DIRTY));
                 written = (case next of
                              Some access \<Rightarrow> if dirty then access dirty_addr (linesz c) True r else Inr r
                            | None \<Rightarrow> Inr r);
                 c = (if dirty then c\<lparr>writebacks := writebacks c + 1\<rparr> else c)
             in case written of
                  Inl e \<Rightarrow> Inl e
                | Inr r \<Rightarrow>
                   (case next of
                      Some access \<Rightarrow>
                        (case access (addr AND NOT (linesz c - 1)) (linesz c) False r of
                           Inl e \<Rightarrow> Inl e
                         | Inr r \<Rightarrow> finish_access addr store c r)
                    | None \<Rightarrow>
                        if oram_handler c \<and> 0x80000000 \<le> addr \<and> addr < 0x80000000 + 4194304
                        then (case memory_access addr (snd r) of
                                Inl e \<Rightarrow> Inl e
                              | Inr m \<Rightarrow> finish_access addr store
                                  (c\<lparr>cache_oram_accesses := cache_oram_accesses c + 1\<rparr>) (fst r, m))
                        else finish_access addr store c r))"

text \<open>The first of \<open>n\<close> caches is accessed; the ones after it are its miss handlers.\<close>

fun chain_access :: "nat \<Rightarrow> u64 \<Rightarrow> u64 \<Rightarrow> bool \<Rightarrow> cache_sim list \<times> memory \<Rightarrow> oram_error + cache_sim list \<times> memory" where
  "chain_access 0 addr bytes store r = Inr r"
| "chain_access (Suc n) addr bytes store r =
     (case r of
        ([], m) \<Rightarrow> Inr ([], m)
      | (c # rest, m) \<Rightarrow>
          map_sum id (\<lambda>(c, rest, m). (c # rest, m))
            (access_level (if n = 0 then None else Some (chain_access n)) addr bytes store c (rest, m)))"

definition cache_access :: "u64 \<Rightarrow> u64 \<Rightarrow> bool \<Rightarrow> cache_sim list \<times> memory \<Rightarrow> oram_error + cache_sim list \<times> memory" where
  "cache_access addr bytes store r = chain_access (length (fst r)) addr bytes store r"

text \<open>\<^verbatim>\<open>icache_sim_t::trace\<close> and \<^verbatim>\<open>dcache_sim_t::trace\<close>: the accesses of the hart that reach the caches.\<close>

definition icache_trace :: "u64 \<Rightarrow> u64 \<Rightarrow> access_type \<Rightarrow> cache_sim list \<times> memory \<Rightarrow> oram_error + cache_sim list \<times> memory" where
  "icache_trace addr bytes type r = (if type = FETCH then cache_access addr bytes False r else Inr r)"

definition dcache_trace :: "u64 \<Rightarrow> u64 \<Rightarrow> access_type \<Rightarrow> cache_sim list \<times> memory \<Rightarrow> oram_error + cache_sim list \<times> memory" where
  "dcache_trace addr bytes type r =
     (if type = LOAD \<or> type = STORE then cache_access addr bytes (type = STORE) r else Inr r)"

subsection \<open>The contract of a tag store\<close>

text \<open>The word stored for a line: its number, the valid bit and the dirty bit.\<close>

definition tag_word :: "u64 \<Rightarrow> bool \<Rightarrow> u64" where
  "tag_word l d = l OR VALID OR (if d then DIRTY else 0)"

abbreviation (input) line_of :: "cache_sim \<Rightarrow> u64 \<Rightarrow> u64" where
  "line_of c addr \<equiv> drop_bit (idx_shift c) addr"

definition small :: "u64 \<Rightarrow> bool" where
  "small l \<longleftrightarrow> \<not> bit l 62 \<and> \<not> bit l 63"

lemma bit_VALID: "bit (0x8000000000000000 :: u64) n \<longleftrightarrow> n = 63"
proof -
  have "(0x8000000000000000 :: u64) = push_bit 63 1" by simp
  then show ?thesis by (simp only: bit_push_bit_iff) (auto simp: bit_1_iff)
qed

lemma bit_DIRTY: "bit (0x4000000000000000 :: u64) n \<longleftrightarrow> n = 62"
proof -
  have "(0x4000000000000000 :: u64) = push_bit 62 1" by simp
  then show ?thesis by (simp only: bit_push_bit_iff) (auto simp: bit_1_iff)
qed

lemma bit_both: "bit (VALID OR DIRTY) n \<longleftrightarrow> n = 62 \<or> n = 63"
  by (auto simp only: bit_or_iff bit_VALID bit_DIRTY)

lemma bit_tag_word: "bit (tag_word l d) n \<longleftrightarrow> bit l n \<or> n = 63 \<or> d \<and> n = 62"
  unfolding tag_word_def by (cases d) (auto simp only: bit_or_iff bit_VALID bit_DIRTY if_True if_False bit_0_eq bot_apply bot_bool_def)

lemma tag_word_eq_iff:
  assumes "small l" "small l'"
  shows "tag_word l d = tag_word l' d' \<longleftrightarrow> l = l' \<and> d = d'"
proof
  assume eq: "tag_word l d = tag_word l' d'"
  have b: "bit l n \<or> n = 63 \<or> d \<and> n = 62 \<longleftrightarrow> bit l' n \<or> n = 63 \<or> d' \<and> n = 62" for n
    using arg_cong [OF eq, of "\<lambda>w. bit w n"] by (simp only: bit_tag_word)
  have "d = d'" using b [of 62] assms by (simp add: small_def)
  moreover have "bit l n = bit l' n" for n
    using b [of n] assms by (cases "n = 62 \<or> n = 63") (auto simp: small_def)
  ultimately show "l = l' \<and> d = d'" by (auto intro: bit_word_eqI)
qed auto

lemma masked_tag:
  assumes "small l"
  shows "l OR VALID = t AND NOT DIRTY \<longleftrightarrow> (\<exists>d. t = tag_word l d)"
proof
  assume eq: "l OR VALID = t AND NOT DIRTY"
  have b: "bit l n \<or> n = 63 \<longleftrightarrow> bit t n \<and> n \<noteq> 62 \<or> 64 \<le> n \<and> bit t n" for n
  proof -
    have "bit (l OR VALID) n = bit (t AND NOT DIRTY) n" using eq by (rule arg_cong)
    then show ?thesis
      by (cases "n < 64") (auto simp only: bit_or_iff bit_and_iff bit_not_iff bit_VALID bit_DIRTY possible_bit_word dest: bit_imp_le_length)
  qed
  have "t = tag_word l (bit t 62)"
    by (rule bit_word_eqI) (use b assms in \<open>auto simp: bit_tag_word small_def\<close>)
  then show "\<exists>d. t = tag_word l d" ..
next
  assume "\<exists>d. t = tag_word l d"
  then obtain d where t: "t = tag_word l d" ..
  show "l OR VALID = t AND NOT DIRTY"
    by (rule bit_word_eqI)
      (use assms in \<open>auto simp only: t bit_or_iff bit_and_iff bit_not_iff bit_VALID bit_DIRTY bit_tag_word small_def possible_bit_word len_num1 len_of_numeral_defs\<close>)
qed

lemma tag_word_simps:
  assumes "small l"
  shows "tag_word l d \<noteq> 0" "tag_word l d OR DIRTY = tag_word l True"
    "tag_word l d AND NOT (VALID OR DIRTY) = l"
    "tag_word l d AND (VALID OR DIRTY) = VALID OR DIRTY \<longleftrightarrow> d"
proof -
  have "bit (tag_word l d) 63" by (simp add: bit_tag_word)
  then show "tag_word l d \<noteq> 0" by auto
  show "tag_word l d OR DIRTY = tag_word l True"
    by (rule bit_word_eqI) (auto simp only: bit_or_iff bit_tag_word bit_DIRTY)
  show "tag_word l d AND NOT (VALID OR DIRTY) = l"
    by (rule bit_word_eqI)
      (use assms in \<open>auto simp only: bit_and_iff bit_not_iff bit_tag_word bit_both small_def possible_bit_word\<close>)
  show "tag_word l d AND (VALID OR DIRTY) = VALID OR DIRTY \<longleftrightarrow> d"
  proof
    assume eq: "tag_word l d AND (VALID OR DIRTY) = VALID OR DIRTY"
    have "bit (tag_word l d AND (VALID OR DIRTY)) 62" unfolding eq by (simp only: bit_both) simp
    then show d using assms by (simp only: bit_and_iff bit_tag_word small_def) simp
  next
    assume d
    then show "tag_word l d AND (VALID OR DIRTY) = VALID OR DIRTY"
      by (intro bit_word_eqI) (auto simp only: bit_and_iff bit_tag_word bit_both)
  qed
qed

lemma small_line: "2 \<le> idx_shift c \<Longrightarrow> small (line_of c addr)"
  by (auto simp: small_def bit_drop_bit_eq dest: bit_imp_le_length)

text \<open>
  What \<^verbatim>\<open>access\<close> relies on: \<open>holds c l d\<close> says that the line \<open>l\<close> is in the cache, dirty or not.  A store is
  given by the functions that look a line up, replace a line and by its invariant.
\<close>

locale tag_store =
  fixes inv :: "cache_sim \<Rightarrow> bool" and holds :: "cache_sim \<Rightarrow> u64 \<Rightarrow> bool \<Rightarrow> bool"
    and check :: "u64 \<Rightarrow> cache_sim \<Rightarrow> tag_ref option" and vict :: "u64 \<Rightarrow> cache_sim \<Rightarrow> u64 \<times> cache_sim"
  assumes dispatch: "inv c \<Longrightarrow> check_tag addr c = check addr c \<and> victimize addr c = vict addr c"
    and shift: "inv c \<Longrightarrow> 2 \<le> idx_shift c"
    and holds_small: "holds c l d \<Longrightarrow> inv c \<Longrightarrow> small l"
    and holds_unique: "inv c \<Longrightarrow> holds c l d \<Longrightarrow> holds c l d' \<Longrightarrow> d = d'"
    and check_None: "inv c \<Longrightarrow> check addr c = None \<longleftrightarrow> (\<forall>d. \<not> holds c (line_of c addr) d)"
    and dirty_inv: "inv c \<Longrightarrow> check addr c = Some ref \<Longrightarrow> inv (set_dirty ref c)"
    and dirty_holds: "inv c \<Longrightarrow> check addr c = Some ref \<Longrightarrow>
      holds (set_dirty ref c) l d \<longleftrightarrow> (if l = line_of c addr then d else holds c l d)"
    and vict_inv: "inv c \<Longrightarrow> check addr c = None \<Longrightarrow> inv (snd (vict addr c))"
    and vict_tag: "inv c \<Longrightarrow> check addr c = None \<Longrightarrow>
      fst (vict addr c) = 0 \<or> (\<exists>l d. holds c l d \<and> fst (vict addr c) = tag_word l d)"
    and vict_holds: "inv c \<Longrightarrow> check addr c = None \<Longrightarrow> holds (snd (vict addr c)) l d \<longleftrightarrow>
      (if l = line_of c addr then \<not> d else holds c l d \<and> fst (vict addr c) \<noteq> tag_word l d)"
    and vict_frame: "idx_shift (snd (vict addr c)) = idx_shift c" "linesz (snd (vict addr c)) = linesz c"
      "oram_handler (snd (vict addr c)) = oram_handler c"
    and counters: "lfsr c' = lfsr c \<Longrightarrow> sets c' = sets c \<Longrightarrow> ways c' = ways c \<Longrightarrow> idx_shift c' = idx_shift c \<Longrightarrow>
      tags c' = tags c \<Longrightarrow> fully_assoc c' = fully_assoc c \<Longrightarrow> fa_tags c' = fa_tags c \<Longrightarrow>
      inv c' = inv c \<and> holds c' = holds c \<and> check addr c' = check addr c \<and> fst (vict addr c') = fst (vict addr c)"

subsection \<open>The set-associative array\<close>

definition sa_pos :: "cache_sim \<Rightarrow> u64 \<Rightarrow> nat \<Rightarrow> nat" where
  "sa_pos c l i = unat (l AND (sets c - 1)) * unat (ways c) + i"

definition sa_holds :: "cache_sim \<Rightarrow> u64 \<Rightarrow> bool \<Rightarrow> bool" where
  "sa_holds c l d \<longleftrightarrow> small l \<and> (\<exists>i < unat (ways c). tags c ! sa_pos c l i = tag_word l d)"

definition sa_inv :: "cache_sim \<Rightarrow> bool" where
  "sa_inv c \<longleftrightarrow> \<not> fully_assoc c \<and> 2 \<le> idx_shift c \<and> 0 < unat (sets c) \<and> 0 < unat (ways c) \<and>
     unat (sets c) * unat (ways c) < 2 ^ 64 \<and> length (tags c) = unat (sets c) * unat (ways c) \<and>
     (\<forall>l i j d d'. small l \<longrightarrow> i < unat (ways c) \<longrightarrow> j < unat (ways c) \<longrightarrow>
        tags c ! sa_pos c l i = tag_word l d \<longrightarrow> tags c ! sa_pos c l j = tag_word l d' \<longrightarrow> i = j) \<and>
     (\<forall>l. \<forall>i < unat (ways c). tags c ! sa_pos c l i = 0 \<or>
        (\<exists>l' d. small l' \<and> l' AND (sets c - 1) = l AND (sets c - 1) \<and> tags c ! sa_pos c l i = tag_word l' d))"

lemma sa_invD:
  assumes "sa_inv c"
  shows "2 \<le> idx_shift c" "0 < unat (ways c)" "length (tags c) = unat (sets c) * unat (ways c)"
    "unat (sets c) * unat (ways c) < 2 ^ 64"
    "small l \<Longrightarrow> i < unat (ways c) \<Longrightarrow> j < unat (ways c) \<Longrightarrow> tags c ! sa_pos c l i = tag_word l d \<Longrightarrow>
       tags c ! sa_pos c l j = tag_word l d' \<Longrightarrow> i = j"
    "i < unat (ways c) \<Longrightarrow> tags c ! sa_pos c l i = 0 \<or>
       (\<exists>l' d. small l' \<and> l' AND (sets c - 1) = l AND (sets c - 1) \<and> tags c ! sa_pos c l i = tag_word l' d)"
  using assms by (auto simp: sa_inv_def)

lemma sa_index_less:
  assumes "sa_inv c"
  shows "unat (l AND (sets c - 1)) < unat (sets c)"
proof -
  have "0 < unat (sets c)" using assms by (simp add: sa_inv_def)
  then have "unat (sets c - 1) = unat (sets c) - 1" by (simp add: unat_sub word_le_nat_alt)
  moreover have "unat (l AND (sets c - 1)) \<le> unat (sets c - 1)"
    using word_and_le1 [of l "sets c - 1"] by (simp add: word_le_nat_alt)
  ultimately show ?thesis using \<open>0 < unat (sets c)\<close> by linarith
qed

lemma sa_pos_less:
  assumes "sa_inv c" "i < unat (ways c)"
  shows "sa_pos c l i < length (tags c)"
proof -
  have "sa_pos c l i < Suc (unat (l AND (sets c - 1))) * unat (ways c)" using assms(2) by (simp add: sa_pos_def)
  also have "\<dots> \<le> unat (sets c) * unat (ways c)" using sa_index_less [OF assms(1), of l] by (intro mult_le_mono1) simp
  finally show ?thesis by (simp add: sa_invD(3) [OF assms(1)])
qed

lemma sa_pos_eq_iff:
  assumes "i < unat (ways c)" "j < unat (ways c)"
  shows "sa_pos c l i = sa_pos c l' j \<longleftrightarrow> l AND (sets c - 1) = l' AND (sets c - 1) \<and> i = j"
proof
  assume eq: "sa_pos c l i = sa_pos c l' j"
  have "sa_pos c l i div unat (ways c) = unat (l AND (sets c - 1))" "sa_pos c l' j div unat (ways c) = unat (l' AND (sets c - 1))"
    "sa_pos c l i mod unat (ways c) = i" "sa_pos c l' j mod unat (ways c) = j"
    using assms by (simp_all add: sa_pos_def)
  with eq show "l AND (sets c - 1) = l' AND (sets c - 1) \<and> i = j" by (metis word_unat_eq_iff)
qed (simp add: sa_pos_def)

lemma sa_base:
  assumes "sa_inv c"
  shows "unat ((l AND (sets c - 1)) * ways c) + i = sa_pos c l i"
proof -
  have "unat (l AND (sets c - 1)) * unat (ways c) \<le> unat (sets c) * unat (ways c)"
    using sa_index_less [OF assms, of l] by (intro mult_le_mono1) simp
  then have "unat (l AND (sets c - 1)) * unat (ways c) < 2 ^ 64" using sa_invD(4) [OF assms] by (rule le_less_trans)
  then show ?thesis by (simp add: sa_pos_def unat_word_ariths)
qed

lemma sa_check_tag_eq:
  assumes "sa_inv c"
  shows "sa_check_tag addr c = map_option (\<lambda>i. Way (sa_pos c (line_of c addr) i))
    (List.find (\<lambda>i. \<exists>d. tags c ! sa_pos c (line_of c addr) i = tag_word (line_of c addr) d) [0..<unat (ways c)])"
  using masked_tag [OF small_line [OF sa_invD(1) [OF assms]], of addr]
  by (simp add: sa_check_tag_def Let_def sa_base [OF assms])

lemma sa_check_None:
  assumes "sa_inv c"
  shows "sa_check_tag addr c = None \<longleftrightarrow> (\<forall>d. \<not> sa_holds c (line_of c addr) d)"
  using small_line [OF sa_invD(1) [OF assms], of addr]
  by (auto simp: sa_check_tag_eq [OF assms] find_None_iff sa_holds_def)

lemma sa_check_Some:
  assumes "sa_inv c" "sa_check_tag addr c = Some ref"
  obtains i d where "i < unat (ways c)" "ref = Way (sa_pos c (line_of c addr) i)"
    "tags c ! sa_pos c (line_of c addr) i = tag_word (line_of c addr) d"
  using assms(2) by (auto simp: sa_check_tag_eq [OF assms(1)] find_Some_iff)

text \<open>Writing the tag of a line into a way of its set; no other way holds the line.\<close>

definition sa_put :: "nat \<Rightarrow> u64 \<Rightarrow> bool \<Rightarrow> cache_sim \<Rightarrow> cache_sim" where
  "sa_put i L d c = c\<lparr>tags := (tags c)[sa_pos c L i := tag_word L d]\<rparr>"

lemma sa_put_simps [simp]:
  "sets (sa_put i L d c) = sets c" "ways (sa_put i L d c) = ways c" "idx_shift (sa_put i L d c) = idx_shift c"
  "fully_assoc (sa_put i L d c) = fully_assoc c" "sa_pos (sa_put i L d c) = sa_pos c"
  "length (tags (sa_put i L d c)) = length (tags c)"
  by (simp_all add: sa_put_def sa_pos_def [abs_def])

lemma sa_put_nth:
  assumes "sa_inv c" "i < unat (ways c)" "j < unat (ways c)"
  shows "tags (sa_put i L d c) ! sa_pos c l j =
    (if l AND (sets c - 1) = L AND (sets c - 1) \<and> j = i then tag_word L d else tags c ! sa_pos c l j)"
  using sa_pos_eq_iff [OF assms(2,3), of L l] sa_pos_less [OF assms(1,2), of L]
  by (auto simp: sa_put_def nth_list_update)

lemma sa_put_inv:
  assumes inv: "sa_inv c" and i: "i < unat (ways c)" and L: "small L"
    and only: "\<And>j d'. j < unat (ways c) \<Longrightarrow> tags c ! sa_pos c L j = tag_word L d' \<Longrightarrow> j = i"
  shows "sa_inv (sa_put i L d c)"
proof -
  have "j = k" if l: "small l" and jk: "j < unat (ways c)" "k < unat (ways c)"
    and t: "tags (sa_put i L d c) ! sa_pos c l j = tag_word l d1" "tags (sa_put i L d c) ! sa_pos c l k = tag_word l d2" for l j k d1 d2
  proof (cases "l = L")
    case True
    then show ?thesis using t only jk by (auto simp: sa_put_nth [OF inv i] split: if_splits)
  next
    case False
    then have "tags c ! sa_pos c l j = tag_word l d1" "tags c ! sa_pos c l k = tag_word l d2"
      using t jk tag_word_eq_iff [OF L l] by (auto simp: sa_put_nth [OF inv i] split: if_splits)
    then show ?thesis by (rule sa_invD(5) [OF inv l jk])
  qed
  moreover have "tags (sa_put i L d c) ! sa_pos c l j = 0 \<or> (\<exists>l' d'. small l' \<and> l' AND (sets c - 1) = l AND (sets c - 1) \<and>
      tags (sa_put i L d c) ! sa_pos c l j = tag_word l' d')" if "j < unat (ways c)" for l j
    using sa_invD(6) [OF inv that, of l] L by (auto simp: sa_put_nth [OF inv i that])
  ultimately show ?thesis using inv by (simp add: sa_inv_def)
qed

lemma sa_put_holds:
  assumes inv: "sa_inv c" and i: "i < unat (ways c)" and L: "small L"
    and only: "\<And>j d'. j < unat (ways c) \<Longrightarrow> tags c ! sa_pos c L j = tag_word L d' \<Longrightarrow> j = i"
  shows "sa_holds (sa_put i L d c) l d' \<longleftrightarrow>
    (if l = L then d' = d else sa_holds c l d' \<and> tags c ! sa_pos c L i \<noteq> tag_word l d')"
proof (cases "l = L")
  case True
  have "(\<exists>j < unat (ways c). tags (sa_put i L d c) ! sa_pos c L j = tag_word L d') \<longleftrightarrow> d' = d"
    using i only tag_word_eq_iff [OF L L] by (auto simp: sa_put_nth [OF inv i] split: if_splits)
  then show ?thesis using True L by (simp add: sa_holds_def)
next
  case False
  show ?thesis
  proof (cases "small l")
    case l: True
    have "(\<exists>j < unat (ways c). tags (sa_put i L d c) ! sa_pos c l j = tag_word l d') \<longleftrightarrow>
      (\<exists>j < unat (ways c). tags c ! sa_pos c l j = tag_word l d') \<and> tags c ! sa_pos c L i \<noteq> tag_word l d'"
    proof
      assume "\<exists>j < unat (ways c). tags (sa_put i L d c) ! sa_pos c l j = tag_word l d'"
      then obtain j where j: "j < unat (ways c)" "tags (sa_put i L d c) ! sa_pos c l j = tag_word l d'" by blast
      have other: "\<not> (l AND (sets c - 1) = L AND (sets c - 1) \<and> j = i)" and t: "tags c ! sa_pos c l j = tag_word l d'"
        using j False tag_word_eq_iff [OF L l] by (auto simp: sa_put_nth [OF inv i] split: if_splits)
      have "tags c ! sa_pos c L i \<noteq> tag_word l d'"
      proof
        assume e: "tags c ! sa_pos c L i = tag_word l d'"
        then obtain l' d'' where "small l'" "l' AND (sets c - 1) = L AND (sets c - 1)" "tags c ! sa_pos c L i = tag_word l' d''"
          using sa_invD(6) [OF inv i, of L] tag_word_simps(1) [OF l] by metis
        then have same: "l AND (sets c - 1) = L AND (sets c - 1)" using e tag_word_eq_iff [OF \<open>small l'\<close> l] by metis
        then have "sa_pos c L i = sa_pos c l i" by (simp add: sa_pos_def)
        then have "i = j" using sa_invD(5) [OF inv l i j(1)] e t by metis
        then show False using other same by simp
      qed
      then show "(\<exists>j < unat (ways c). tags c ! sa_pos c l j = tag_word l d') \<and> tags c ! sa_pos c L i \<noteq> tag_word l d'"
        using j(1) t by blast
    next
      assume "(\<exists>j < unat (ways c). tags c ! sa_pos c l j = tag_word l d') \<and> tags c ! sa_pos c L i \<noteq> tag_word l d'"
      then obtain j where j: "j < unat (ways c)" "tags c ! sa_pos c l j = tag_word l d'" "tags c ! sa_pos c L i \<noteq> tag_word l d'" by blast
      then have "\<not> (l AND (sets c - 1) = L AND (sets c - 1) \<and> j = i)" by (auto simp: sa_pos_def)
      then show "\<exists>j < unat (ways c). tags (sa_put i L d c) ! sa_pos c l j = tag_word l d'"
        using j by (intro exI [of _ j]) (auto simp: sa_put_nth [OF inv i])
    qed
    then show ?thesis using False l by (simp add: sa_holds_def)
  next
    case not: False
    then show ?thesis using False by (simp add: sa_holds_def)
  qed
qed

lemma sa_lfsr [simp]:
  "sa_inv (c\<lparr>lfsr := r\<rparr>) = sa_inv c" "sa_holds (c\<lparr>lfsr := r\<rparr>) = sa_holds c"
  by (simp_all add: sa_inv_def sa_holds_def [abs_def] sa_pos_def)

lemma sa_set_dirty:
  assumes inv: "sa_inv c" and "sa_check_tag addr c = Some ref"
  obtains i where "i < unat (ways c)" "set_dirty ref c = sa_put i (line_of c addr) True c"
    "\<And>j d'. j < unat (ways c) \<Longrightarrow> tags c ! sa_pos c (line_of c addr) j = tag_word (line_of c addr) d' \<Longrightarrow> j = i"
    "\<And>l d. l \<noteq> line_of c addr \<Longrightarrow> small l \<Longrightarrow> tags c ! sa_pos c (line_of c addr) i \<noteq> tag_word l d"
proof -
  note L = small_line [OF sa_invD(1) [OF inv], of addr]
  from sa_check_Some [OF assms] obtain i d where i: "i < unat (ways c)" "ref = Way (sa_pos c (line_of c addr) i)"
    "tags c ! sa_pos c (line_of c addr) i = tag_word (line_of c addr) d" .
  show ?thesis
  proof (rule that [OF i(1)])
    show "set_dirty ref c = sa_put i (line_of c addr) True c"
      by (simp add: set_dirty_def sa_put_def i(2,3) tag_word_simps(2) [OF L])
    show "j = i" if "j < unat (ways c)" "tags c ! sa_pos c (line_of c addr) j = tag_word (line_of c addr) d'" for j d'
      using sa_invD(5) [OF inv L that(1) i(1) that(2) i(3)] .
    show "tags c ! sa_pos c (line_of c addr) i \<noteq> tag_word l d" if "l \<noteq> line_of c addr" "small l" for l d
      using that tag_word_eq_iff [OF L that(2)] by (simp add: i(3))
  qed
qed

lemma sa_victimize_eq:
  assumes inv: "sa_inv c"
  obtains i where "i < unat (ways c)" "fst (sa_victimize addr c) = tags c ! sa_pos c (line_of c addr) i"
    "snd (sa_victimize addr c) = (sa_put i (line_of c addr) False c)\<lparr>lfsr := lfsr_next (lfsr c)\<rparr>"
proof -
  define i where "i = unat (ucast (lfsr_next (lfsr c)) mod ways c)"
  have "i < unat (ways c)" using sa_invD(2) [OF inv] by (simp add: i_def unat_mod)
  moreover have "tag_word (line_of c addr) False = line_of c addr OR VALID" by (simp add: tag_word_def)
  ultimately show ?thesis
    by (intro that [of i]) (simp_all add: sa_victimize_def Let_def sa_base [OF inv] sa_put_def i_def)
qed

interpretation sa: tag_store sa_inv sa_holds sa_check_tag sa_victimize
proof
  fix c :: cache_sim and addr l :: u64 and d d' :: bool and ref :: tag_ref
  assume inv: "sa_inv c"
  show "check_tag addr c = sa_check_tag addr c \<and> victimize addr c = sa_victimize addr c"
    using inv by (simp add: check_tag_def victimize_def sa_inv_def)
  show "2 \<le> idx_shift c" by (rule sa_invD(1) [OF inv])
  show "sa_holds c l d \<Longrightarrow> small l" by (simp add: sa_holds_def)
  show "sa_holds c l d \<Longrightarrow> sa_holds c l d' \<Longrightarrow> d = d'"
    using sa_invD(5) [OF inv, of l] tag_word_eq_iff [of l l d d'] by (auto simp: sa_holds_def) metis+
  show "sa_check_tag addr c = None \<longleftrightarrow> (\<forall>d. \<not> sa_holds c (line_of c addr) d)" by (rule sa_check_None [OF inv])
  note L = small_line [OF sa_invD(1) [OF inv], of addr]
  {
    assume "sa_check_tag addr c = Some ref"
    from sa_set_dirty [OF inv this] obtain i where i: "i < unat (ways c)" "set_dirty ref c = sa_put i (line_of c addr) True c"
      "\<And>j d'. j < unat (ways c) \<Longrightarrow> tags c ! sa_pos c (line_of c addr) j = tag_word (line_of c addr) d' \<Longrightarrow> j = i"
      "\<And>l d. l \<noteq> line_of c addr \<Longrightarrow> small l \<Longrightarrow> tags c ! sa_pos c (line_of c addr) i \<noteq> tag_word l d" by blast
    show "sa_inv (set_dirty ref c)" unfolding i(2) by (rule sa_put_inv [OF inv i(1) L i(3)])
    show "sa_holds (set_dirty ref c) l d \<longleftrightarrow> (if l = line_of c addr then d else sa_holds c l d)"
      using sa_put_holds [OF inv i(1) L, of True l d] i(3) i(4) [of l d] unfolding i(2) by (simp add: sa_holds_def [of c]) blast
  }
  {
    assume "sa_check_tag addr c = None"
    then have none: "tags c ! sa_pos c (line_of c addr) j \<noteq> tag_word (line_of c addr) d" if "j < unat (ways c)" for j d
      using that L by (auto simp: sa_check_None [OF inv] sa_holds_def)
    from sa_victimize_eq [OF inv, of addr] obtain i where i: "i < unat (ways c)"
      "fst (sa_victimize addr c) = tags c ! sa_pos c (line_of c addr) i"
      "snd (sa_victimize addr c) = (sa_put i (line_of c addr) False c)\<lparr>lfsr := lfsr_next (lfsr c)\<rparr>" by blast
    have only: "\<And>j d'. j < unat (ways c) \<Longrightarrow> tags c ! sa_pos c (line_of c addr) j = tag_word (line_of c addr) d' \<Longrightarrow> j = i"
      using none by blast
    show "sa_inv (snd (sa_victimize addr c))" unfolding i(3) sa_lfsr by (rule sa_put_inv [OF inv i(1) L only])
    show "fst (sa_victimize addr c) = 0 \<or> (\<exists>l d. sa_holds c l d \<and> fst (sa_victimize addr c) = tag_word l d)"
      using sa_invD(6) [OF inv i(1), of "line_of c addr"] i(1) unfolding i(2) by (auto simp: sa_holds_def sa_pos_def) metis
    show "sa_holds (snd (sa_victimize addr c)) l d \<longleftrightarrow>
      (if l = line_of c addr then \<not> d else sa_holds c l d \<and> fst (sa_victimize addr c) \<noteq> tag_word l d)"
      using sa_put_holds [OF inv i(1) L, of False l d] only unfolding i(2,3) sa_lfsr by simp
  }
qed (simp_all add: sa_victimize_def sa_inv_def sa_holds_def [abs_def] sa_pos_def sa_check_tag_def Let_def)

subsection \<open>The fully-associative map\<close>

definition fa_holds :: "cache_sim \<Rightarrow> u64 \<Rightarrow> bool \<Rightarrow> bool" where
  "fa_holds c l d \<longleftrightarrow> small l \<and> (l, tag_word l d) \<in> set (fa_tags c)"

definition fa_inv :: "cache_sim \<Rightarrow> bool" where
  "fa_inv c \<longleftrightarrow> fully_assoc c \<and> 2 \<le> idx_shift c \<and> 0 < unat (ways c) \<and> length (fa_tags c) \<le> unat (ways c) \<and>
     sorted_wrt (<) (map fst (fa_tags c)) \<and> (\<forall>(k, v) \<in> set (fa_tags c). small k \<and> (\<exists>d. v = tag_word k d))"

lemma set_map_put: "sorted_wrt (<) (map fst m) \<Longrightarrow> set (map_put k v m) = {e \<in> set m. fst e \<noteq> k} \<union> {(k, v)}"
  by (induction k v m rule: map_put.induct) (auto simp: image_iff)

lemma sorted_map_put: "sorted_wrt (<) (map fst m) \<Longrightarrow> sorted_wrt (<) (map fst (map_put k v m))"
  by (induction k v m rule: map_put.induct) (auto simp: set_map_put image_iff)

lemma length_map_put: "length (map_put k v m) \<le> Suc (length m)"
  by (induction k v m rule: map_put.induct) auto

lemma keys_distinct: "sorted_wrt (<) (map fst m) \<Longrightarrow> distinct (map fst m)"
  for m :: "(u64 \<times> u64) list"
  by (induction m) auto

lemma sorted_remove_nth:
  fixes m :: "(u64 \<times> u64) list"
  assumes "sorted_wrt (<) (map fst m)" "k < length m"
  shows "sorted_wrt (<) (map fst (take k m @ drop (Suc k) m))" and "set (take k m @ drop (Suc k) m) = set m - {m ! k}"
proof -
  have m: "m = take k m @ m ! k # drop (Suc k) m" using assms(2) by (rule id_take_nth_drop)
  have "sorted_wrt (<) (map fst (take k m @ m ! k # drop (Suc k) m))" using assms(1) m by simp
  then show s: "sorted_wrt (<) (map fst (take k m @ drop (Suc k) m))" by (auto simp: sorted_wrt_append)
  have "distinct (map fst (take k m @ m ! k # drop (Suc k) m))" using keys_distinct [OF assms(1)] m by simp
  then have d: "m ! k \<notin> set (take k m @ drop (Suc k) m)" by (auto simp: image_iff)
  have "set m = set (take k m @ drop (Suc k) m) \<union> {m ! k}" by (subst m) auto
  with d show "set (take k m @ drop (Suc k) m) = set m - {m ! k}" by blast
qed

lemma fa_check_None:
  assumes "fa_inv c"
  shows "fa_check_tag addr c = None \<longleftrightarrow> (\<forall>d. \<not> fa_holds c (line_of c addr) d)"
proof -
  have "map_of (fa_tags c) l = None \<longleftrightarrow> (\<forall>d. \<not> fa_holds c l d)" if "small l" for l
    using assms that by (auto simp: fa_inv_def fa_holds_def map_of_eq_None_iff image_iff)
  then show ?thesis using small_line [of c addr] assms by (simp add: fa_check_tag_def fa_inv_def)
qed

lemma fa_set_dirty:
  assumes "fa_inv c" "fa_check_tag addr c = Some ref"
  shows "set (fa_tags (set_dirty ref c)) = (\<lambda>(k, v). if k = line_of c addr then (k, v OR DIRTY) else (k, v)) ` set (fa_tags c)"
    "map fst (fa_tags (set_dirty ref c)) = map fst (fa_tags c)"
    "set_dirty ref c = c\<lparr>fa_tags := fa_tags (set_dirty ref c)\<rparr>"
proof -
  have ref: "ref = Key (line_of c addr)" using assms(2) by (simp add: fa_check_tag_def split: if_splits)
  show "set (fa_tags (set_dirty ref c)) = (\<lambda>(k, v). if k = line_of c addr then (k, v OR DIRTY) else (k, v)) ` set (fa_tags c)"
    "set_dirty ref c = c\<lparr>fa_tags := fa_tags (set_dirty ref c)\<rparr>"
    unfolding ref set_dirty_def by simp_all
  show "map fst (fa_tags (set_dirty ref c)) = map fst (fa_tags c)"
    unfolding ref set_dirty_def by (simp add: comp_def split_def if_distrib [of fst])
qed

lemma fa_victimize_eq:
  assumes "fa_inv c"
  obtains m v r where "fa_victimize addr c = (v, c\<lparr>lfsr := r, fa_tags := map_put (line_of c addr) (tag_word (line_of c addr) False) m\<rparr>)"
    "sorted_wrt (<) (map fst m)" "length m < unat (ways c)"
    "v = 0 \<and> m = fa_tags c \<or> (\<exists>k. (k, v) \<in> set (fa_tags c) \<and> set m = set (fa_tags c) - {(k, v)})"
proof (cases "length (fa_tags c) = unat (ways c)")
  case True
  define r where "r = lfsr_next (lfsr c)"
  define k where "k = unat (ucast r mod ways c)"
  have k: "k < length (fa_tags c)" using assms by (simp add: k_def True unat_mod fa_inv_def)
  define m where "m = take k (fa_tags c) @ drop (Suc k) (fa_tags c)"
  have so: "sorted_wrt (<) (map fst (fa_tags c))" using assms by (simp add: fa_inv_def)
  show ?thesis
  proof (rule that [of "snd (fa_tags c ! k)" m r])
    show "fa_victimize addr c = (snd (fa_tags c ! k),
      c\<lparr>lfsr := r, fa_tags := map_put (line_of c addr) (tag_word (line_of c addr) False) m\<rparr>)"
      using True by (simp add: fa_victimize_def Let_def r_def k_def m_def tag_word_def)
    show "sorted_wrt (<) (map fst m)" unfolding m_def by (rule sorted_remove_nth(1) [OF so k])
    show "length m < unat (ways c)" using k by (simp add: m_def True [symmetric])
    show "snd (fa_tags c ! k) = 0 \<and> m = fa_tags c \<or>
      (\<exists>k'. (k', snd (fa_tags c ! k)) \<in> set (fa_tags c) \<and> set m = set (fa_tags c) - {(k', snd (fa_tags c ! k))})"
      using k sorted_remove_nth(2) [OF so k] unfolding m_def by (intro disjI2 exI [of _ "fst (fa_tags c ! k)"]) simp
  qed
next
  case False
  then show ?thesis
    using assms by (intro that [of 0 "fa_tags c" "lfsr c"]) (simp_all add: fa_victimize_def Let_def tag_word_def fa_inv_def)
qed

interpretation fa: tag_store fa_inv fa_holds fa_check_tag fa_victimize
proof
  fix c :: cache_sim and addr l :: u64 and d d' :: bool and ref :: tag_ref
  assume inv: "fa_inv c"
  show "check_tag addr c = fa_check_tag addr c \<and> victimize addr c = fa_victimize addr c"
    using inv by (simp add: check_tag_def victimize_def fa_inv_def)
  show "2 \<le> idx_shift c" using inv by (simp add: fa_inv_def)
  show "fa_holds c l d \<Longrightarrow> small l" by (simp add: fa_holds_def)
  have dist: "distinct (map fst (fa_tags c))" using inv by (intro keys_distinct) (simp add: fa_inv_def)
  have uniq: "v = w" if "(k, v) \<in> set (fa_tags c)" "(k, w) \<in> set (fa_tags c)" for k v w
    using dist that by (rule eq_key_imp_eq_value)
  show "fa_holds c l d \<Longrightarrow> fa_holds c l d' \<Longrightarrow> d = d'"
    using uniq tag_word_eq_iff [of l l d d'] unfolding fa_holds_def by blast
  show "fa_check_tag addr c = None \<longleftrightarrow> (\<forall>d. \<not> fa_holds c (line_of c addr) d)" by (rule fa_check_None [OF inv])
  have L: "small (line_of c addr)" using inv by (intro small_line) (simp add: fa_inv_def)
  have wf: "small k \<and> (\<exists>d. w = tag_word k d)" if "(k, w) \<in> set (fa_tags c)" for k w
    using inv that by (auto simp: fa_inv_def)
  {
    assume s: "fa_check_tag addr c = Some ref"
    note e = fa_set_dirty [OF inv s]
    have present: "\<exists>d. (line_of c addr, tag_word (line_of c addr) d) \<in> set (fa_tags c)"
      using s fa_check_None [OF inv, of addr] L by (auto simp: fa_holds_def)
    have "length (fa_tags (set_dirty ref c)) = length (fa_tags c)" using e(2) by (metis length_map)
    moreover have "small k \<and> (\<exists>d. w = tag_word k d)" if kw: "(k, w) \<in> set (fa_tags (set_dirty ref c))" for k w
    proof -
      from kw obtain w' where "(k, w') \<in> set (fa_tags c)" "w = w' \<or> w = w' OR DIRTY" unfolding e(1) by (auto split: if_splits)
      with wf [of k w'] show ?thesis using tag_word_simps(2) [of k] by auto
    qed
    ultimately show "fa_inv (set_dirty ref c)"
      using inv by (subst e(3)) (auto simp: fa_inv_def e(2))
    show "fa_holds (set_dirty ref c) l d \<longleftrightarrow> (if l = line_of c addr then d else fa_holds c l d)"
    proof (cases "l = line_of c addr")
      case True
      obtain d0 where d0: "(line_of c addr, tag_word (line_of c addr) d0) \<in> set (fa_tags c)" using present by blast
      have "(line_of c addr, w) \<in> set (fa_tags (set_dirty ref c)) \<longleftrightarrow> w = tag_word (line_of c addr) True" for w
      proof
        assume "(line_of c addr, w) \<in> set (fa_tags (set_dirty ref c))"
        then obtain v where "(line_of c addr, v) \<in> set (fa_tags c)" "w = v OR DIRTY"
          unfolding e(1) by (auto split: if_splits)
        then show "w = tag_word (line_of c addr) True" using uniq [OF d0] tag_word_simps(2) [OF L, of d0] by metis
      next
        assume "w = tag_word (line_of c addr) True"
        then show "(line_of c addr, w) \<in> set (fa_tags (set_dirty ref c))"
          unfolding e(1) using tag_word_simps(2) [OF L, of d0] by (intro image_eqI [OF _ d0]) simp
      qed
      then show ?thesis using True L tag_word_eq_iff [OF L L] by (simp add: fa_holds_def)
    next
      case False
      then have "(l, w) \<in> set (fa_tags (set_dirty ref c)) \<longleftrightarrow> (l, w) \<in> set (fa_tags c)" for w
        unfolding e(1) by (force simp: image_iff split: if_splits)
      then show ?thesis using False by (simp add: fa_holds_def)
    qed
  }
  {
    assume none: "fa_check_tag addr c = None"
    obtain m v r
      where v: "fa_victimize addr c = (v, c\<lparr>lfsr := r, fa_tags := map_put (line_of c addr) (tag_word (line_of c addr) False) m\<rparr>)"
        "sorted_wrt (<) (map fst m)" "length m < unat (ways c)"
        "v = 0 \<and> m = fa_tags c \<or> (\<exists>k. (k, v) \<in> set (fa_tags c) \<and> set m = set (fa_tags c) - {(k, v)})" by (rule fa_victimize_eq [OF inv])
    have sub: "set m \<subseteq> set (fa_tags c)" using v(4) by auto
    show "fa_inv (snd (fa_victimize addr c))"
      using inv sub wf L sorted_map_put [OF v(2)]
        le_trans [OF length_map_put Suc_leI [OF v(3)], of "line_of c addr" "tag_word (line_of c addr) False"]
      by (auto simp: fa_inv_def v(1) set_map_put [OF v(2)])
    show "fst (fa_victimize addr c) = 0 \<or> (\<exists>l d. fa_holds c l d \<and> fst (fa_victimize addr c) = tag_word l d)"
      using v(4) wf by (auto simp: v(1) fa_holds_def)
    show "fa_holds (snd (fa_victimize addr c)) l d \<longleftrightarrow>
      (if l = line_of c addr then \<not> d else fa_holds c l d \<and> fst (fa_victimize addr c) \<noteq> tag_word l d)"
    proof (cases "l = line_of c addr")
      case True
      then show ?thesis using L tag_word_eq_iff [OF L L] by (auto simp: fa_holds_def v(1) set_map_put [OF v(2)])
    next
      case False
      then have "fa_holds (snd (fa_victimize addr c)) l d \<longleftrightarrow> small l \<and> (l, tag_word l d) \<in> set m"
        by (auto simp: fa_holds_def v(1) set_map_put [OF v(2)])
      moreover have "(l, tag_word l d) \<in> set m \<longleftrightarrow> (l, tag_word l d) \<in> set (fa_tags c) \<and> v \<noteq> tag_word l d" if l: "small l"
        using v(4)
      proof
        assume "v = 0 \<and> m = fa_tags c"
        then show ?thesis using tag_word_simps(1) [OF l, of d] by auto
      next
        assume "\<exists>k. (k, v) \<in> set (fa_tags c) \<and> set m = set (fa_tags c) - {(k, v)}"
        then obtain k where k: "(k, v) \<in> set (fa_tags c)" "set m = set (fa_tags c) - {(k, v)}" by blast
        then obtain d' where "small k" "v = tag_word k d'" using wf by blast
        then have "(k, v) = (l, tag_word l d) \<longleftrightarrow> v = tag_word l d" 
          by (simp add: \<open>v = tag_word k d'\<close> tag_word_eq_iff [OF \<open>small k\<close> l])
        then show ?thesis using k(2) by auto
      qed
      ultimately show ?thesis using False by (simp add: fa_holds_def [of c] v(1)) blast
    qed
  }
qed (simp_all add: fa_victimize_def fa_inv_def fa_holds_def [abs_def] fa_check_tag_def Let_def)

subsection \<open>What an access does to one cache and to what is behind it\<close>

definition same_tags :: "cache_sim \<Rightarrow> cache_sim \<Rightarrow> bool" where
  "same_tags c' c \<longleftrightarrow> lfsr c' = lfsr c \<and> sets c' = sets c \<and> ways c' = ways c \<and> idx_shift c' = idx_shift c \<and>
     tags c' = tags c \<and> fully_assoc c' = fully_assoc c \<and> fa_tags c' = fa_tags c \<and> linesz c' = linesz c"

lemma same_tags_counters:
  "same_tags (count_access store bytes c) c" "same_tags (count_miss store (count_access store bytes c)) c"
  "same_tags (c\<lparr>writebacks := n\<rparr>) c" "same_tags (c\<lparr>cache_oram_accesses := n\<rparr>) c"
  by (simp_all add: same_tags_def count_access_def count_miss_def)

context tag_store
begin

lemma same: "same_tags c' c \<Longrightarrow> inv c' = inv c \<and> holds c' = holds c \<and> check addr c' = check addr c \<and>
    fst (vict addr c') = fst (vict addr c) \<and> line_of c' addr = line_of c addr"
  using counters [of c' c addr] by (simp add: same_tags_def)

lemma access_hit:
  assumes inv: "inv c" and h: "holds c (line_of c addr) d"
  shows "\<exists>c'. access_level next addr bytes store c r = Inr (c', r) \<and> inv c' \<and>
    (\<forall>l e. holds c' l e \<longleftrightarrow> (if l = line_of c addr then e = (d \<or> store) else holds c l e))"
proof -
  let ?c = "count_access store bytes c"
  note sm = same [OF same_tags_counters(1) [of store bytes c], of addr]
  have inv': "inv ?c" using sm inv by simp
  have u: "holds c (line_of c addr) e \<longleftrightarrow> e = d" for e using h holds_unique [OF inv h] by blast
  obtain ref where ref: "check addr ?c = Some ref" using check_None [OF inv', of addr] h sm by (cases "check addr ?c") auto
  then have a: "access_level next addr bytes store c r = Inr (if store then set_dirty ref ?c else ?c, r)"
    using dispatch [OF inv', of addr] by (simp add: access_level_def Let_def)
  show ?thesis
  proof (cases store)
    case True
    then show ?thesis using a dirty_inv [OF inv' ref] dirty_holds [OF inv' ref] sm by simp
  next
    case False
    then show ?thesis using a inv' sm u by auto
  qed
qed

lemma finish_access_ok:
  assumes inv: "inv c" and h: "\<And>l e. holds c l e \<longleftrightarrow> (if l = line_of c addr then \<not> e else H l e)"
  shows "\<exists>c'. finish_access addr store c r = Inr (c', r) \<and> inv c' \<and>
    (\<forall>l e. holds c' l e \<longleftrightarrow> (if l = line_of c addr then e = store else H l e))"
proof (cases store)
  case True
  have "holds c (line_of c addr) False" by (simp add: h)
  then obtain ref where ref: "check addr c = Some ref" using check_None [OF inv, of addr] by (cases "check addr c") auto
  then have "finish_access addr store c r = Inr (set_dirty ref c, r)"
    using True dispatch [OF inv, of addr] by (simp add: finish_access_def)
  then show ?thesis using True dirty_inv [OF inv ref] dirty_holds [OF inv ref] h by simp
next
  case False
  then show ?thesis using inv h by (simp add: finish_access_def)
qed

text \<open>The traffic behind the cache: a dirty victim is written back before the line is fetched.\<close>

definition refill :: "(u64 \<Rightarrow> u64 \<Rightarrow> bool \<Rightarrow> 'r \<Rightarrow> oram_error + 'r) \<Rightarrow> u64 \<Rightarrow> cache_sim \<Rightarrow> 'r \<Rightarrow> 'r \<Rightarrow> bool" where
  "refill nxt addr c r r' \<longleftrightarrow>
     (\<exists>r1. (if \<exists>l. fst (vict addr c) = tag_word l True \<and> holds c l True
            then \<exists>l. holds c l True \<and> fst (vict addr c) = tag_word l True \<and>
                 nxt (push_bit (idx_shift c) l) (linesz c) True r = Inr r1
            else r1 = r) \<and>
        nxt (addr AND NOT (linesz c - 1)) (linesz c) False r1 = Inr r')"

lemma access_miss:
  assumes inv: "inv c" and h: "\<And>d. \<not> holds c (line_of c addr) d"
    and acc: "access_level next addr bytes store c r = Inr (c', r')"
  shows "inv c' \<and>
    (\<forall>l e. holds c' l e \<longleftrightarrow> (if l = line_of c addr then e = store else holds c l e \<and> fst (vict addr c) \<noteq> tag_word l e)) \<and>
    (case next of Some nxt \<Rightarrow> refill nxt addr c r r' | None \<Rightarrow> fst r' = fst r)"
proof -
  define c1 where "c1 = count_miss store (count_access store bytes c)"
  have s1: "same_tags c1 c" by (simp add: c1_def same_tags_counters)
  note sm = same [OF s1, of addr]
  have inv1: "inv c1" using sm inv by simp
  have n1: "check addr c1 = None" using check_None [OF inv1, of addr] sm h by simp
  have n0: "check addr (count_access store bytes c) = None" using n1 sm same [OF same_tags_counters(1) [of store bytes c], of addr] by simp
  obtain v c2 where v: "vict addr c1 = (v, c2)" by fastforce
  have v0: "v = fst (vict addr c)" using sm v by simp
  define dirty where "dirty = (v AND (VALID OR DIRTY) = VALID OR DIRTY)"
  define c3 where "c3 = (if dirty then c2\<lparr>writebacks := writebacks c2 + 1\<rparr> else c2)"
  have s3: "same_tags c3 c2" by (simp add: c3_def same_tags_def)
  note sm3 = same [OF s3, of addr]
  have f2: "idx_shift c2 = idx_shift c" "linesz c2 = linesz c"
    using vict_frame [of addr c1] s1 by (simp_all add: v same_tags_def)
  have inv3: "inv c3" using vict_inv [OF inv1 n1] sm3 by (simp add: v)
  have h3: "holds c3 l e \<longleftrightarrow> (if l = line_of c3 addr then \<not> e else holds c l e \<and> v \<noteq> tag_word l e)" for l e
    using vict_holds [OF inv1 n1, of l e] sm sm3 f2 by (simp add: v)
  have tag: "v = 0 \<or> (\<exists>l d. holds c l d \<and> v = tag_word l d)" using vict_tag [OF inv1 n1] sm by (simp add: v)
  have d: "dirty \<longleftrightarrow> (\<exists>l. v = tag_word l True \<and> holds c l True)"
    and da: "holds c l True \<Longrightarrow> v = tag_word l True \<Longrightarrow> push_bit (idx_shift c2) (v AND NOT (VALID OR DIRTY)) = push_bit (idx_shift c) l" for l
  proof -
    have z: "\<not> (0 AND (VALID OR DIRTY) = VALID OR DIRTY)" by simp
    have ti: "(tag_word l e AND (VALID OR DIRTY) = VALID OR DIRTY) = e" if "holds c l e'" for l e e'
      using tag_word_simps(4) [OF holds_small [OF that inv]] by simp
    show "dirty \<longleftrightarrow> (\<exists>l. v = tag_word l True \<and> holds c l True)"
      unfolding dirty_def using tag ti z by (metis (full_types))
    show "push_bit (idx_shift c2) (v AND NOT (VALID OR DIRTY)) = push_bit (idx_shift c) l" if "holds c l True" "v = tag_word l True"
      using tag_word_simps(3) [OF holds_small [OF that(1) inv], of True] that(2) f2(1) by metis
  qed
  have line3: "line_of c3 addr = line_of c addr" using sm3 f2 by simp
  define written where "written = (case next of
      Some access \<Rightarrow> if dirty then access (push_bit (idx_shift c2) (v AND NOT (VALID OR DIRTY))) (linesz c2) True r else Inr r
    | None \<Rightarrow> Inr r)"
  have chk: "check_tag addr (count_access store bytes c) = None"
    using dispatch [of "count_access store bytes c" addr] same [OF same_tags_counters(1) [of store bytes c], of addr] inv n0 by simp
  have vt: "victimize addr c1 = (v, c2)" using dispatch [OF inv1, of addr] v by simp
  have eq: "access_level next addr bytes store c r =
     (case written of Inl e \<Rightarrow> Inl e
      | Inr r \<Rightarrow> (case next of
          Some access \<Rightarrow> (case access (addr AND NOT (linesz c3 - 1)) (linesz c3) False r of
             Inl e \<Rightarrow> Inl e | Inr r \<Rightarrow> finish_access addr store c3 r)
        | None \<Rightarrow> if oram_handler c3 \<and> 0x80000000 \<le> addr \<and> addr < 0x80000000 + 4194304
            then (case memory_access addr (snd r) of Inl e \<Rightarrow> Inl e
                | Inr m \<Rightarrow> finish_access addr store (c3\<lparr>cache_oram_accesses := cache_oram_accesses c3 + 1\<rparr>) (fst r, m))
            else finish_access addr store c3 r))"
    unfolding access_level_def Let_def chk option.case c1_def [symmetric] vt prod.case dirty_def [symmetric]
      written_def [symmetric] c3_def [symmetric] by (rule refl)
  show ?thesis
  proof (cases "next")
    case None
    define c4 where "c4 = (if oram_handler c3 \<and> 0x80000000 \<le> addr \<and> addr < 0x80000000 + 4194304
      then c3\<lparr>cache_oram_accesses := cache_oram_accesses c3 + 1\<rparr> else c3)"
    have "same_tags c4 c3" by (simp add: c4_def same_tags_def)
    note sm4 = same [OF this, of addr]
    obtain r1 where r1: "fst r1 = fst r" "finish_access addr store c4 r1 = Inr (c', r')"
      using acc unfolding eq by (auto simp: None written_def c4_def split: if_splits sum.splits)
    have "\<exists>c''. finish_access addr store c4 r1 = Inr (c'', r1) \<and> inv c'' \<and>
      (\<forall>l e. holds c'' l e \<longleftrightarrow> (if l = line_of c4 addr then e = store else holds c l e \<and> v \<noteq> tag_word l e))"
      using inv3 h3 sm4 by (intro finish_access_ok) simp_all
    then show ?thesis using r1 sm4 line3 by (simp add: None v0)
  next
    case (Some nxt)
    obtain r1 where w: "written = Inr r1" and n: "nxt (addr AND NOT (linesz c3 - 1)) (linesz c3) False r1 = Inr r'"
      and f: "finish_access addr store c3 r' = Inr (c', r')"
    proof -
      from acc obtain r1 r2 where r: "written = Inr r1" "nxt (addr AND NOT (linesz c3 - 1)) (linesz c3) False r1 = Inr r2"
        "finish_access addr store c3 r2 = Inr (c', r')"
        unfolding eq by (auto simp: Some split: sum.splits)
      then have "r2 = r'" by (auto simp: finish_access_def split: if_splits option.splits)
      with r show ?thesis by (intro that) simp_all
    qed
    have "linesz c3 = linesz c" using s3 f2 by (simp add: same_tags_def)
    then have n': "nxt (addr AND NOT (linesz c - 1)) (linesz c) False r1 = Inr r'" using n by simp
    have "refill nxt addr c r r'"
    proof (cases dirty)
      case True
      then obtain l where l: "holds c l True" "v = tag_word l True" using d by blast
      have "nxt (push_bit (idx_shift c) l) (linesz c) True r = Inr r1"
        using w True da [OF l] f2(2) unfolding written_def Some by simp
      then show ?thesis unfolding refill_def v0 [symmetric] using True d l n' by (intro exI [of _ r1]) auto
    next
      case False
      then have "r1 = r" using w by (simp add: written_def Some)
      then show ?thesis unfolding refill_def v0 [symmetric] using False d n' by (intro exI [of _ r1]) auto
    qed
    moreover have "\<exists>c''. finish_access addr store c3 r' = Inr (c'', r') \<and> inv c'' \<and>
      (\<forall>l e. holds c'' l e \<longleftrightarrow> (if l = line_of c3 addr then e = store else holds c l e \<and> v \<noteq> tag_word l e))"
      using inv3 h3 by (rule finish_access_ok)
    ultimately show ?thesis using f line3 by (simp add: Some v0)
  qed
qed

end

subsection \<open>Fresh caches\<close>

lemma log2_ge_3: "8 \<le> n \<Longrightarrow> 3 \<le> log2 n"
proof -
  have half: "log2 n = Suc (log2 (drop_bit 1 n))" "k \<le> unat (drop_bit 1 n)" if "2 * k \<le> unat n" "1 \<le> k" for n k
  proof -
    show "k \<le> unat (drop_bit 1 n)" using that by (simp only: unat_shr) simp
    have "\<not> n \<le> 1" using that by (simp add: word_le_nat_alt)
    then show "log2 n = Suc (log2 (drop_bit 1 n))" by (subst log2.simps) simp
  qed
  assume "8 \<le> n"
  then have "2 * 4 \<le> unat n" by (simp add: word_le_nat_alt)
  note 1 = half [OF this]
  have "2 * 2 \<le> unat (drop_bit 1 n)" using 1(2) by simp
  note 2 = half [OF this]
  have "2 * 1 \<le> unat (drop_bit 1 (drop_bit 1 n))" using 2(2) by simp
  note 3 = half [OF this]
  show "3 \<le> log2 n" using 1(1) 2(1) 3(1) by simp
qed

lemma cache_init_inv:
  assumes c: "cache_init fa s w b = Some c" and w: "0 < w" and no_wrap: "unat s * unat w < 2 ^ 64"
  shows "if fa then fa_inv c else sa_inv c" "\<not> sa_holds c l d" "\<not> fa_holds c l d"
proof -
  have f: "sets c = s" "ways c = w" "idx_shift c = log2 b" "tags c = replicate (unat (s * w)) 0" "fully_assoc c = fa" "fa_tags c = []"
    and b: "8 \<le> b" and s: "s \<noteq> 0"
    using c by (auto simp: cache_init_def split: if_splits)
  have w': "0 < unat w" "0 < unat s" using w s by (simp_all add: word_less_nat_alt unat_gt_0)
  have sw: "unat (s * w) = unat s * unat w" using no_wrap by (simp add: unat_word_ariths)
  have sh: "2 \<le> idx_shift c" using log2_ge_3 [OF b] by (simp add: f)
  have pos: "tags c ! sa_pos c l i = 0" if "i < unat w" for l i
  proof -
    have "unat (s - 1) = unat s - 1" using w'(2) by (simp add: unat_sub word_le_nat_alt)
    moreover have "unat (l AND (s - 1)) \<le> unat (s - 1)" using word_and_le1 [of l "s - 1"] by (simp add: word_le_nat_alt)
    ultimately have "Suc (unat (l AND (s - 1))) * unat w \<le> unat s * unat w" using w'(2) by (intro mult_le_mono1) linarith
    then have "sa_pos c l i < unat (s * w)" using that by (simp add: sa_pos_def f sw)
    then show ?thesis by (simp add: f)
  qed
  show "\<not> sa_holds c l d" using pos tag_word_simps(1) by (auto simp: sa_holds_def f)
  show "\<not> fa_holds c l d" by (simp add: fa_holds_def f)
  have "sa_inv c" if "\<not> fa"
    using that sh w' no_wrap pos tag_word_simps(1) unfolding sa_inv_def f(1,2,5) by (auto simp: f(4) sw)
  then show "if fa then fa_inv c else sa_inv c" using sh w' by (simp add: fa_inv_def f)
qed

text \<open>The generator of the replacement policy never gets stuck at zero.\<close>

lemma lfsr_next_nonzero: "lfsr_next r \<noteq> 0" if "r \<noteq> 0"
proof (cases "bit r 0")
  case True
  have "r AND 1 = 1" using True by (intro bit_word_eqI) (auto simp: bit_simps)
  moreover have "bit (0xD0000001 :: u32) 31" by simp
  moreover have "\<not> bit r 32" using bit_imp_le_length [of r 32] by auto
  ultimately have "bit (lfsr_next r) 31" by (simp add: lfsr_next_def bit_simps)
  then show ?thesis by auto
next
  case False
  have "r AND 1 = 0" using False by (intro bit_word_eqI) (auto simp: bit_simps intro: gr0I)
  then have "lfsr_next r = drop_bit 1 r" by (simp add: lfsr_next_def)
  moreover have "\<exists>n. bit r n" using that by (auto simp: bit_eq_iff)
  then obtain n where "bit r n" ..
  moreover have "n \<noteq> 0" using False calculation by metis
  ultimately have "bit (lfsr_next r) (n - 1)" by (simp add: bit_drop_bit_eq)
  then show ?thesis by auto
qed

subsection \<open>Chains of caches\<close>

definition cache_ok :: "cache_sim \<Rightarrow> bool" where
  "cache_ok c \<longleftrightarrow> sa_inv c \<or> fa_inv c"

definition cache_holds :: "cache_sim \<Rightarrow> u64 \<Rightarrow> bool \<Rightarrow> bool" where
  "cache_holds c l d \<longleftrightarrow> (if fully_assoc c then fa_holds c l d else sa_holds c l d)"

lemma sa_not_fa: "sa_inv c \<Longrightarrow> \<not> fully_assoc c" and fa_is_fa: "fa_inv c \<Longrightarrow> fully_assoc c"
  by (simp_all add: sa_inv_def fa_inv_def)

lemma cache_holds_sa: "sa_inv c \<Longrightarrow> cache_holds c = sa_holds c" and cache_holds_fa: "fa_inv c \<Longrightarrow> cache_holds c = fa_holds c"
  by (auto simp: fun_eq_iff cache_holds_def dest: sa_not_fa fa_is_fa)

lemma cache_okI: "sa_inv c \<Longrightarrow> cache_ok c" "fa_inv c \<Longrightarrow> cache_ok c"
  by (simp_all add: cache_ok_def)

lemma cache_okE:
  assumes "cache_ok c"
  obtains (sa) "sa_inv c" "cache_holds c = sa_holds c" | (fa) "fa_inv c" "cache_holds c = fa_holds c"
  using assms cache_holds_sa cache_holds_fa by (auto simp: cache_ok_def)

lemma access_level_hit:
  assumes ok: "cache_ok c" and h: "cache_holds c (line_of c addr) d"
  shows "\<exists>c'. access_level next addr bytes store c r = Inr (c', r) \<and> cache_ok c' \<and>
    (\<forall>l e. cache_holds c' l e \<longleftrightarrow> (if l = line_of c addr then e = (d \<or> store) else cache_holds c l e))"
  using ok
proof (cases rule: cache_okE)
  case sa
  with h obtain c' where "access_level next addr bytes store c r = Inr (c', r)" "sa_inv c'"
    "\<forall>l e. sa_holds c' l e \<longleftrightarrow> (if l = line_of c addr then e = (d \<or> store) else sa_holds c l e)"
    using sa.access_hit [of c addr d "next" bytes store r] by auto
  then show ?thesis using cache_holds_sa [of c'] sa(2) by (intro exI [of _ c']) (simp add: cache_okI)
next
  case fa
  with h obtain c' where "access_level next addr bytes store c r = Inr (c', r)" "fa_inv c'"
    "\<forall>l e. fa_holds c' l e \<longleftrightarrow> (if l = line_of c addr then e = (d \<or> store) else fa_holds c l e)"
    using fa.access_hit [of c addr d "next" bytes store r] by auto
  then show ?thesis using cache_holds_fa [of c'] fa(2) by (intro exI [of _ c']) (simp add: cache_okI)
qed

lemma access_level_miss:
  assumes ok: "cache_ok c" and h: "\<And>d. \<not> cache_holds c (line_of c addr) d"
    and acc: "access_level next addr bytes store c r = Inr (c', r')"
  shows "cache_ok c' \<and> (\<forall>l e. cache_holds c' l e \<longleftrightarrow>
    (if l = line_of c addr then e = store else cache_holds c l e \<and> fst (victimize addr c) \<noteq> tag_word l e))"
  using ok
proof (cases rule: cache_okE)
  case sa
  note m = sa.access_miss [OF sa(1) _ acc] sa.dispatch [OF sa(1), of addr]
  show ?thesis using m h cache_holds_sa [of c'] by (simp add: sa(2) cache_okI)
next
  case fa
  note m = fa.access_miss [OF fa(1) _ acc] fa.dispatch [OF fa(1), of addr]
  show ?thesis using m h cache_holds_fa [of c'] by (simp add: fa(2) cache_okI)
qed

lemma access_level_rest:
  assumes "access_level next addr bytes store c r = Inr (c', r')" "Q r"
    and "\<And>f a b s r r'. next = Some f \<Longrightarrow> f a b s r = Inr r' \<Longrightarrow> Q r \<Longrightarrow> Q r'"
    and "\<And>m. next = None \<Longrightarrow> Q (fst r, m)"
  shows "Q r'"
  using assms(1,2) assms(3) [of _ _ _ _ r] assms(3) assms(4)
  by (auto simp: access_level_def finish_access_def Let_def split: option.splits sum.splits if_splits prod.splits)

lemma chain_access_ok:
  assumes "chain_access n addr bytes store (cs, m) = Inr (cs', m')" "list_all cache_ok cs"
  shows "list_all cache_ok cs' \<and> length cs' = length cs"
  using assms
proof (induction n arbitrary: addr bytes store cs m cs' m')
  case 0
  then show ?case by simp
next
  case (Suc n)
  show ?case
  proof (cases cs)
    case Nil
    then show ?thesis using Suc.prems by simp
  next
    case (Cons c rest)
    let ?next = "if n = 0 then None else Some (chain_access n)"
    obtain c' rest' where a: "access_level ?next addr bytes store c (rest, m) = Inr (c', rest', m')" "cs' = c' # rest'"
      using Suc.prems(1) by (cases "access_level ?next addr bytes store c (rest, m)") (auto simp: Cons)
    have ok: "cache_ok c" "list_all cache_ok rest" using Suc.prems(2) by (simp_all add: Cons)
    have "cache_ok c'"
    proof (cases "\<exists>d. cache_holds c (line_of c addr) d")
      case True
      then obtain d where "cache_holds c (line_of c addr) d" ..
      from access_level_hit [OF ok(1) this, of ?next bytes store "(rest, m)"] show ?thesis using a(1) by auto
    next
      case False
      then show ?thesis using access_level_miss [OF ok(1) _ a(1)] by blast
    qed
    moreover have "(\<lambda>r. list_all cache_ok (fst r) \<and> length (fst r) = length rest) (rest', m')"
      by (rule access_level_rest [OF a(1)]) (use ok Suc.IH in \<open>auto split: if_splits\<close>)
    ultimately show ?thesis by (simp add: a(2) Cons)
  qed
qed

text \<open>After an access the first cache holds the line, dirty if it was a store.\<close>

lemma cache_access_present:
  assumes "cache_access addr bytes store (c # rest, m) = Inr (cs', m')" "list_all cache_ok (c # rest)"
  shows "\<exists>c' rest' d. cs' = c' # rest' \<and> cache_holds c' (line_of c addr) d \<and> (store \<longrightarrow> d)"
proof -
  let ?next = "if length rest = 0 then None else Some (chain_access (length rest))"
  obtain c' rest' where a: "access_level ?next addr bytes store c (rest, m) = Inr (c', rest', m')" "cs' = c' # rest'"
    using assms(1) by (cases "access_level ?next addr bytes store c (rest, m)") (auto simp: cache_access_def)
  have ok: "cache_ok c" using assms(2) by simp
  show ?thesis
  proof (cases "\<exists>d. cache_holds c (line_of c addr) d")
    case True
    then obtain d where "cache_holds c (line_of c addr) d" ..
    from access_level_hit [OF ok this, of ?next bytes store "(rest, m)"] show ?thesis using a by auto
  next
    case False
    then have "cache_holds c' (line_of c addr) store" using access_level_miss [OF ok _ a(1)] by auto
    then show ?thesis using a(2) by auto
  qed
qed

end
