(* ===== verification/Riscv_Decode.thy ===== *)
theory Riscv_Decode
  imports SoftFloat_Primitives
begin

text \<open>
  The instruction word of \<^verbatim>\<open>riscv/decode.h\<close>: its fields and immediates, the register file, the field and
  extension macros, and the high multiplications of \<^verbatim>\<open>riscv/mulhi.h\<close>.  \<^verbatim>\<open>reg_t\<close> and \<^verbatim>\<open>insn_bits_t\<close> are 64-bit
  words; signed shifts to the right are \<^const>\<open>signed_drop_bit\<close>.  An instruction of 32 (or 16) bits is held
  sign-extended in its word.
\<close>

type_synonym reg_t = u64

abbreviation (input) asr :: "nat \<Rightarrow> u64 \<Rightarrow> u64" where "asr n w \<equiv> signed_drop_bit n w"

subsection \<open>Extensions and fields of registers\<close>

definition sext32 :: "u64 \<Rightarrow> u64" where "sext32 x = scast (ucast x :: u32)"
definition zext32 :: "u64 \<Rightarrow> u64" where "zext32 x = ucast (ucast x :: u32)"

definition sext_xlen :: "nat \<Rightarrow> u64 \<Rightarrow> u64" where
  "sext_xlen xlen x = asr (64 - xlen) (push_bit (64 - xlen) x)"

definition zext_xlen :: "nat \<Rightarrow> u64 \<Rightarrow> u64" where
  "zext_xlen xlen x = drop_bit (64 - xlen) (push_bit (64 - xlen) x)"

definition get_field :: "u64 \<Rightarrow> u64 \<Rightarrow> u64" where
  "get_field reg mask' = (reg AND mask') div (mask' AND NOT (push_bit 1 mask'))"

definition set_field :: "u64 \<Rightarrow> u64 \<Rightarrow> u64 \<Rightarrow> u64" where
  "set_field reg mask' val = (reg AND NOT mask') OR (val * (mask' AND NOT (push_bit 1 mask')) AND mask')"

subsection \<open>The instruction word\<close>

definition insn_length :: "u64 \<Rightarrow> nat" where
  "insn_length x = (if x AND 0x03 < 0x03 then 2 else if x AND 0x1F < 0x1F then 4 else if x AND 0x3F < 0x3F then 6 else 8)"

definition insn_x :: "u64 \<Rightarrow> nat \<Rightarrow> nat \<Rightarrow> u64" where
  "insn_x b lo len = drop_bit lo b AND (push_bit len 1 - 1)"

definition insn_xs :: "u64 \<Rightarrow> nat \<Rightarrow> nat \<Rightarrow> u64" where
  "insn_xs b lo len = asr (64 - len) (push_bit (64 - lo - len) b)"

definition imm_sign :: "u64 \<Rightarrow> u64" where "imm_sign b = insn_xs b 63 1"

definition i_imm :: "u64 \<Rightarrow> u64" where "i_imm b = asr 20 b"
definition s_imm :: "u64 \<Rightarrow> u64" where "s_imm b = insn_x b 7 5 + push_bit 5 (insn_xs b 25 7)"
definition sb_imm :: "u64 \<Rightarrow> u64" where
  "sb_imm b = push_bit 1 (insn_x b 8 4) + push_bit 5 (insn_x b 25 6) + push_bit 11 (insn_x b 7 1) + push_bit 12 (imm_sign b)"
definition u_imm :: "u64 \<Rightarrow> u64" where "u_imm b = push_bit 12 (asr 12 b)"
definition uj_imm :: "u64 \<Rightarrow> u64" where
  "uj_imm b = push_bit 1 (insn_x b 21 10) + push_bit 11 (insn_x b 20 1) + push_bit 12 (insn_x b 12 8) + push_bit 20 (imm_sign b)"

definition rd :: "u64 \<Rightarrow> u64" where "rd b = insn_x b 7 5"
definition rs1 :: "u64 \<Rightarrow> u64" where "rs1 b = insn_x b 15 5"
definition rs2 :: "u64 \<Rightarrow> u64" where "rs2 b = insn_x b 20 5"
definition rs3 :: "u64 \<Rightarrow> u64" where "rs3 b = insn_x b 27 5"
definition insn_rm :: "u64 \<Rightarrow> u64" where "insn_rm b = insn_x b 12 3"
definition csr :: "u64 \<Rightarrow> u64" where "csr b = insn_x b 20 12"

definition rvc_imm :: "u64 \<Rightarrow> u64" where "rvc_imm b = insn_x b 2 5 + push_bit 5 (insn_xs b 12 1)"
definition rvc_zimm :: "u64 \<Rightarrow> u64" where "rvc_zimm b = insn_x b 2 5 + push_bit 5 (insn_x b 12 1)"
definition rvc_addi4spn_imm :: "u64 \<Rightarrow> u64" where
  "rvc_addi4spn_imm b = push_bit 2 (insn_x b 6 1) + push_bit 3 (insn_x b 5 1) + push_bit 4 (insn_x b 11 2) + push_bit 6 (insn_x b 7 4)"
definition rvc_addi16sp_imm :: "u64 \<Rightarrow> u64" where
  "rvc_addi16sp_imm b = push_bit 4 (insn_x b 6 1) + push_bit 5 (insn_x b 2 1) + push_bit 6 (insn_x b 5 1)
     + push_bit 7 (insn_x b 3 2) + push_bit 9 (insn_xs b 12 1)"
definition rvc_lwsp_imm :: "u64 \<Rightarrow> u64" where
  "rvc_lwsp_imm b = push_bit 2 (insn_x b 4 3) + push_bit 5 (insn_x b 12 1) + push_bit 6 (insn_x b 2 2)"
definition rvc_ldsp_imm :: "u64 \<Rightarrow> u64" where
  "rvc_ldsp_imm b = push_bit 3 (insn_x b 5 2) + push_bit 5 (insn_x b 12 1) + push_bit 6 (insn_x b 2 3)"
definition rvc_swsp_imm :: "u64 \<Rightarrow> u64" where
  "rvc_swsp_imm b = push_bit 2 (insn_x b 9 4) + push_bit 6 (insn_x b 7 2)"
definition rvc_sdsp_imm :: "u64 \<Rightarrow> u64" where
  "rvc_sdsp_imm b = push_bit 3 (insn_x b 10 3) + push_bit 6 (insn_x b 7 3)"
definition rvc_lw_imm :: "u64 \<Rightarrow> u64" where
  "rvc_lw_imm b = push_bit 2 (insn_x b 6 1) + push_bit 3 (insn_x b 10 3) + push_bit 6 (insn_x b 5 1)"
definition rvc_ld_imm :: "u64 \<Rightarrow> u64" where
  "rvc_ld_imm b = push_bit 3 (insn_x b 10 3) + push_bit 6 (insn_x b 5 2)"
definition rvc_j_imm :: "u64 \<Rightarrow> u64" where
  "rvc_j_imm b = push_bit 1 (insn_x b 3 3) + push_bit 4 (insn_x b 11 1) + push_bit 5 (insn_x b 2 1) + push_bit 6 (insn_x b 7 1)
     + push_bit 7 (insn_x b 6 1) + push_bit 8 (insn_x b 9 2) + push_bit 10 (insn_x b 8 1) + push_bit 11 (insn_xs b 12 1)"
definition rvc_b_imm :: "u64 \<Rightarrow> u64" where
  "rvc_b_imm b = push_bit 1 (insn_x b 3 2) + push_bit 3 (insn_x b 10 2) + push_bit 5 (insn_x b 2 1) + push_bit 6 (insn_x b 5 2)
     + push_bit 8 (insn_xs b 12 1)"

definition rvc_simm3 :: "u64 \<Rightarrow> u64" where "rvc_simm3 b = insn_x b 10 3"

definition rvc_rd :: "u64 \<Rightarrow> u64" where "rvc_rd b = rd b"
definition rvc_rs1 :: "u64 \<Rightarrow> u64" where "rvc_rs1 b = rd b"
definition rvc_rs2 :: "u64 \<Rightarrow> u64" where "rvc_rs2 b = insn_x b 2 5"
definition rvc_rs1s :: "u64 \<Rightarrow> u64" where "rvc_rs1s b = 8 + insn_x b 7 3"
definition rvc_rs2s :: "u64 \<Rightarrow> u64" where "rvc_rs2s b = 8 + insn_x b 2 3"

subsection \<open>Register files\<close>

text \<open>\<^verbatim>\<open>regfile_t::write\<close>; \<open>zero_reg\<close> is the template parameter.\<close>

definition regfile_write :: "bool \<Rightarrow> u64 \<Rightarrow> 'a \<Rightarrow> 'a list \<Rightarrow> 'a list" where
  "regfile_write zero_reg i value data = (if \<not> zero_reg \<or> i \<noteq> 0 then data[unat i := value] else data)"

subsection \<open>High multiplication\<close>

text \<open>
  Signed arithmetic wraps here: negating the most negative operand and the products \<^verbatim>\<open>a * b\<close> of the signed variants overflow in
  \<^verbatim>\<open>mulhi.h\<close>, which C leaves undefined and the compilers it is built with translate to the wrapped value.
\<close>

definition mulhu :: "u64 \<Rightarrow> u64 \<Rightarrow> u64" where
  "mulhu a b =
     (let a0 = ucast (ucast a :: u32); a1 = drop_bit 32 a;
          b0 = ucast (ucast b :: u32); b1 = drop_bit 32 b;
          t = a1 * b0 + drop_bit 32 (a0 * b0);
          y1 = ucast t :: u32; y2 = ucast (drop_bit 32 t) :: u32;
          t = a0 * b1 + ucast y1;
          t = a1 * b1 + ucast y2 + drop_bit 32 t;
          y2 = ucast t :: u32; y3 = ucast (drop_bit 32 t) :: u32
      in push_bit 32 (ucast y3) OR ucast y2)"

definition mulh :: "u64 \<Rightarrow> u64 \<Rightarrow> u64" where
  "mulh a b =
     (let negate = ((a <s 0) \<noteq> (b <s 0));
          res = mulhu (if a <s 0 then - a else a) (if b <s 0 then - b else b)
      in if negate then NOT res + of_bool (a * b = 0) else res)"

definition mulhsu :: "u64 \<Rightarrow> u64 \<Rightarrow> u64" where
  "mulhsu a b =
     (let negate = (a <s 0);
          res = mulhu (if a <s 0 then - a else a) b
      in if negate then NOT res + of_bool (a * b = 0) else res)"

subsection \<open>The bits of the immediates\<close>

lemma bit_insn_x: "bit (insn_x b lo len) n \<longleftrightarrow> n < len \<and> bit b (lo + n)"
proof -
  have "insn_x b lo len = take_bit len (drop_bit lo b)"
    by (simp add: insn_x_def take_bit_eq_mask mask_eq_decr_exp push_bit_eq_mult)
  then show ?thesis by (simp add: bit_simps)
qed

lemma bit_asr: "bit (asr n w) m \<longleftrightarrow> m < 64 \<and> bit w (if m + n < 64 then m + n else 63)"
proof (cases "m < 64")
  case True
  have "LENGTH(64) - 1 = 63" "LENGTH(64) - n \<le> m \<longleftrightarrow> \<not> m + n < 64" "m < LENGTH(64)" using True by auto
  then show ?thesis using True by (simp only: bit_signed_drop_bit_iff add.commute simp_thms split: if_split) blast
next
  case False
  then show ?thesis using bit_imp_le_length [of "asr n w" m] by auto
qed

lemma bit_insn_xs:
  assumes "0 < len" "lo + len \<le> 64"
  shows "bit (insn_xs b lo len) n \<longleftrightarrow> n < 64 \<and> bit b (if n < len then lo + n else lo + len - 1)"
  using assms by (auto simp: insn_xs_def bit_asr bit_push_bit_iff add.commute dest: bit_imp_le_length)

lemma add_disjoint: "(\<And>n. \<not> bit v n \<or> \<not> bit w n) \<Longrightarrow> v + w = v OR w"
  for v w :: u64
  by (rule disjunctive_add)

lemma bit_shl: "bit (push_bit n w) m \<longleftrightarrow> n \<le> m \<and> m < 64 \<and> bit w (m - n)" for w :: u64
  by (auto simp: bit_push_bit_iff)

lemma bit_imm_sign: "bit (imm_sign b) n \<longleftrightarrow> n < 64 \<and> bit b 63"
  by (simp add: imm_sign_def bit_insn_xs)

lemmas imm_bits = bit_insn_x bit_shl bit_or_iff bit_imm_sign

lemma bit_i_imm: "bit (i_imm b) n \<longleftrightarrow> n < 64 \<and> bit b (if n < 44 then n + 20 else 63)"
  by (auto simp: i_imm_def bit_asr)

lemma bit_u_imm: "bit (u_imm b) n \<longleftrightarrow> 12 \<le> n \<and> n < 64 \<and> bit b n"
  by (auto simp: u_imm_def bit_shl bit_asr)

lemma bit_s_imm: "bit (s_imm b) n \<longleftrightarrow> n < 64 \<and> bit b (if n < 5 then n + 7 else if n < 12 then n + 20 else 31)"
proof -
  have "s_imm b = insn_x b 7 5 OR push_bit 5 (insn_xs b 25 7)"
    unfolding s_imm_def by (rule add_disjoint) (auto simp: imm_bits)
  then show ?thesis by (auto simp: imm_bits bit_insn_xs add.commute)
qed

lemma bit_sb_imm: "bit (sb_imm b) n \<longleftrightarrow> n < 64 \<and> n \<noteq> 0 \<and>
    bit b (if n < 5 then n + 7 else if n < 11 then n + 20 else if n = 11 then 7 else 63)"
proof -
  have "sb_imm b = ((push_bit 1 (insn_x b 8 4) OR push_bit 5 (insn_x b 25 6)) OR push_bit 11 (insn_x b 7 1)) OR push_bit 12 (imm_sign b)"
    unfolding sb_imm_def by ((subst add_disjoint, simp only: imm_bits, linarith)+, rule refl)
  then show ?thesis
    by (simp only: imm_bits) (auto simp: add.commute)
qed

lemma bit_uj_imm: "bit (uj_imm b) n \<longleftrightarrow> n < 64 \<and> n \<noteq> 0 \<and>
    bit b (if n < 11 then n + 20 else if n = 11 then 20 else if n < 20 then n else 63)"
proof -
  have "uj_imm b = ((push_bit 1 (insn_x b 21 10) OR push_bit 11 (insn_x b 20 1)) OR push_bit 12 (insn_x b 12 8)) OR push_bit 20 (imm_sign b)"
    unfolding uj_imm_def by ((subst add_disjoint, simp only: imm_bits, linarith)+, rule refl)
  then show ?thesis
    by (simp only: imm_bits) (auto simp: add.commute)
qed

subsection \<open>Encodings\<close>

text \<open>The instruction formats of the architecture: \<open>put lo from len w\<close> places \<open>len\<close> bits of \<open>w\<close>, from its bit
  \<open>from\<close> on, at bit \<open>lo\<close> of the instruction.\<close>

definition put :: "nat \<Rightarrow> nat \<Rightarrow> nat \<Rightarrow> 'a::len word \<Rightarrow> u32" where
  "put lo from len w = push_bit lo (take_bit len (ucast (drop_bit from w)))"

definition encode_r :: "7 word \<Rightarrow> 3 word \<Rightarrow> 7 word \<Rightarrow> 5 word \<Rightarrow> 5 word \<Rightarrow> 5 word \<Rightarrow> u32" where
  "encode_r op f3 f7 d r1 r2 = put 0 0 7 op OR put 7 0 5 d OR put 12 0 3 f3 OR put 15 0 5 r1 OR put 20 0 5 r2 OR put 25 0 7 f7"

definition encode_i :: "7 word \<Rightarrow> 3 word \<Rightarrow> 5 word \<Rightarrow> 5 word \<Rightarrow> 12 word \<Rightarrow> u32" where
  "encode_i op f3 d r1 imm = put 0 0 7 op OR put 7 0 5 d OR put 12 0 3 f3 OR put 15 0 5 r1 OR put 20 0 12 imm"

definition encode_s :: "7 word \<Rightarrow> 3 word \<Rightarrow> 5 word \<Rightarrow> 5 word \<Rightarrow> 12 word \<Rightarrow> u32" where
  "encode_s op f3 r1 r2 imm = put 0 0 7 op OR put 7 0 5 imm OR put 12 0 3 f3 OR put 15 0 5 r1 OR put 20 0 5 r2 OR put 25 5 7 imm"

text \<open>Branch and jump offsets are even: \<open>imm\<close> holds their bits from bit 1 on.\<close>

definition encode_sb :: "7 word \<Rightarrow> 3 word \<Rightarrow> 5 word \<Rightarrow> 5 word \<Rightarrow> 12 word \<Rightarrow> u32" where
  "encode_sb op f3 r1 r2 imm = put 0 0 7 op OR put 7 10 1 imm OR put 8 0 4 imm OR put 12 0 3 f3 OR put 15 0 5 r1 OR put 20 0 5 r2
     OR put 25 4 6 imm OR put 31 11 1 imm"

definition encode_u :: "7 word \<Rightarrow> 5 word \<Rightarrow> 20 word \<Rightarrow> u32" where
  "encode_u op d imm = put 0 0 7 op OR put 7 0 5 d OR put 12 0 20 imm"

definition encode_uj :: "7 word \<Rightarrow> 5 word \<Rightarrow> 20 word \<Rightarrow> u32" where
  "encode_uj op d imm = put 0 0 7 op OR put 7 0 5 d OR put 12 11 8 imm OR put 20 10 1 imm OR put 21 0 10 imm OR put 31 19 1 imm"

lemma bit_put: "bit (put lo from len w) n \<longleftrightarrow> lo \<le> n \<and> n < 32 \<and> n < lo + len \<and> bit w (from + (n - lo))"
  by (auto simp: put_def bit_simps)

lemma bit_scast: "bit (scast (w :: 'a::len word) :: u64) n \<longleftrightarrow> n < 64 \<and> bit w (if n < LENGTH('a) then n else LENGTH('a) - 1)"
proof (cases "n < LENGTH('a) - 1")
  case True
  then show ?thesis by (auto simp: bit_signed_iff min_def)
next
  case False
  then have "min (LENGTH('a) - 1) n = LENGTH('a) - 1" "n < LENGTH('a) \<Longrightarrow> n = LENGTH('a) - 1" by auto
  then show ?thesis by (auto simp: bit_signed_iff)
qed

lemma field_word:
  assumes "\<And>n. n < len \<Longrightarrow> bit b (lo + n) = bit w n" and "LENGTH('a) = len"
  shows "insn_x b lo len = ucast (w :: 'a::len word)"
  by (rule bit_word_eqI) (use assms in \<open>auto simp: bit_insn_x bit_unsigned_iff dest: bit_imp_le_length\<close>)

lemmas encodings = encode_r_def encode_i_def encode_s_def encode_sb_def encode_u_def encode_uj_def

lemmas decode_bits = bit_i_imm bit_s_imm bit_sb_imm bit_u_imm bit_uj_imm bit_scast encodings bit_or_iff bit_put bit_double_iff

lemma decode_i: "i_imm (scast (encode_i op f3 d r1 imm)) = scast imm"
  by (rule bit_word_eqI) (auto simp: decode_bits)

lemma decode_s: "s_imm (scast (encode_s op f3 r1 r2 imm)) = scast imm"
  by (rule bit_word_eqI) (auto simp: decode_bits)

lemma decode_sb: "sb_imm (scast (encode_sb op f3 r1 r2 imm)) = 2 * scast imm"
  proof (rule bit_word_eqI, goal_cases)
  case (1 n)
  then show ?case by (cases "n = 12") (auto simp: decode_bits)
qed

lemma decode_u: "u_imm (scast (encode_u op d imm)) = push_bit 12 (scast imm)"
  by (rule bit_word_eqI) (auto simp: decode_bits bit_shl)

lemma decode_uj: "uj_imm (scast (encode_uj op d imm)) = 2 * scast imm"
  proof (rule bit_word_eqI, goal_cases)
  case (1 n)
  then show ?case by (cases "n = 20") (auto simp: decode_bits)
qed

lemma decode_fields_r:
  "rd (scast (encode_r op f3 f7 d r1 r2)) = ucast d" "rs1 (scast (encode_r op f3 f7 d r1 r2)) = ucast r1"
  "rs2 (scast (encode_r op f3 f7 d r1 r2)) = ucast r2" "insn_rm (scast (encode_r op f3 f7 d r1 r2)) = ucast f3"
  unfolding rd_def rs1_def rs2_def insn_rm_def
  by (rule field_word; auto simp: bit_scast encodings bit_or_iff bit_put dest: bit_imp_le_length)+

subsection \<open>High multiplication is exact\<close>

lemma mulhi_halves:
  fixes N A0 A1 B0 B1 :: nat
  assumes "0 < N"
  defines "t1 \<equiv> A1 * B0 + A0 * B0 div N"
  shows "(A1 * N + A0) * (B1 * N + B0) div (N * N) = A1 * B1 + t1 div N + (A0 * B1 + t1 mod N) div N"
proof -
  define t2 where "t2 = A0 * B1 + t1 mod N"
  define low where "low = t2 mod N * N + A0 * B0 mod N"
  have "(A1 * N + A0) * (B1 * N + B0) = A1 * B1 * N * N + (A1 * B0 + A0 * B1) * N + (A0 * B0 div N * N + A0 * B0 mod N)"
    unfolding div_mult_mod_eq by (simp add: algebra_simps)
  also have "\<dots> = A1 * B1 * N * N + (t1 + A0 * B1) * N + A0 * B0 mod N"
    by (simp add: t1_def algebra_simps)
  also have "\<dots> = A1 * B1 * N * N + (t1 div N * N + t1 mod N + A0 * B1) * N + A0 * B0 mod N"
    by (simp only: div_mult_mod_eq)
  also have "\<dots> = (A1 * B1 + t1 div N) * (N * N) + t2 * N + A0 * B0 mod N"
    by (simp only: t2_def distrib_right distrib_left ac_simps)
  also have "\<dots> = (A1 * B1 + t1 div N) * (N * N) + (t2 div N * N + t2 mod N) * N + A0 * B0 mod N"
    by (simp only: div_mult_mod_eq)
  also have "\<dots> = (A1 * B1 + t1 div N + t2 div N) * (N * N) + low"
    by (simp only: low_def distrib_right distrib_left ac_simps)
  finally have eq: "(A1 * N + A0) * (B1 * N + B0) = (A1 * B1 + t1 div N + t2 div N) * (N * N) + low" .
  have "low < N * N"
  proof -
    have "t2 mod N * N + A0 * B0 mod N < t2 mod N * N + N" using assms by simp
    also have "\<dots> = Suc (t2 mod N) * N" by simp
    also have "\<dots> \<le> N * N" using assms by (intro mult_right_mono) (simp_all add: Suc_le_eq)
    finally show ?thesis by (simp add: low_def)
  qed
  then show ?thesis using assms(1) unfolding eq t2_def by (subst div_mult_self3) simp_all
qed

lemma unat_ucast_u32: "unat (ucast (w :: u32) :: u64) = unat w"
  using unat_lt_pow [of w] by (simp add: unat_ucast_mod)

lemma unat_low: "unat (ucast (w :: u64) :: u32) = unat w mod 2 ^ 32"
  by (simp only: unat_ucast_mod) simp

lemma unat_high: "unat (ucast (drop_bit 32 (w :: u64)) :: u32) = unat w div 2 ^ 32"
  using unat_split32 [of w] unat_lt_pow [of "ucast w :: u32"] by simp

lemma concat_halves: "push_bit 32 (ucast (ucast (drop_bit 32 t) :: u32)) OR ucast (ucast t :: u32) = t" for t :: u64
  by (rule bit_word_eqI) (auto simp: bit_simps)

lemma unat_muladd_32:
  fixes x y z :: u64
  assumes "unat x < 2 ^ 32" "unat y < 2 ^ 32" "unat z < 2 ^ 32"
  shows "unat (x * y + z) = unat x * unat y + unat z"
proof -
  have *: "unat x * unat y \<le> 0xFFFFFFFF * 0xFFFFFFFF" using assms by (intro mult_mono) simp_all
  then have "unat (x * y) = unat x * unat y" by (simp add: unat_mult_less)
  then show ?thesis using * assms by (simp add: unat_add_less)
qed

lemma unat_mulhu: "unat (mulhu a b) = unat a * unat b div 2 ^ 64"
proof -
  define a0 a1 b0 b1 :: u64 where d: "a0 = ucast (ucast a :: u32)" "a1 = drop_bit 32 a" "b0 = ucast (ucast b :: u32)" "b1 = drop_bit 32 b"
  have split: "unat a = unat a1 * 2 ^ 32 + unat a0" "unat b = unat b1 * 2 ^ 32 + unat b0"
    by (simp_all only: d unat_shr unat_low unat_ucast_u32 div_mult_mod_eq)
  have lt: "unat a0 < 2 ^ 32" "unat a1 < 2 ^ 32" "unat b0 < 2 ^ 32" "unat b1 < 2 ^ 32"
    using unat_lt_pow [of a] unat_lt_pow [of b]
    by (simp_all only: d unat_shr unat_low unat_ucast_u32) (simp_all add: less_mult_imp_div_less)
  define t1 where "t1 = a1 * b0 + drop_bit 32 (a0 * b0)"
  define t2 where "t2 = a0 * b1 + ucast (ucast t1 :: u32)"
  define t3 where "t3 = a1 * b1 + ucast (ucast (drop_bit 32 t1) :: u32) + drop_bit 32 t2"
  have hi: "unat (drop_bit 32 w) < 2 ^ 32" for w :: u64
    using unat_lt_pow [of w] by (simp add: unat_shr less_mult_imp_div_less)
  have lo: "unat (ucast (v :: u32) :: u64) < 2 ^ 32" for v
    using unat_lt_pow [of v] by (simp add: unat_ucast_u32)
  have t1: "unat t1 = unat a1 * unat b0 + unat a0 * unat b0 div 2 ^ 32"
    unfolding t1_def using unat_muladd_32 [OF lt(2,3) hi] unat_muladd_32 [OF lt(1,3), of 0] by (simp add: unat_shr)
  have t2: "unat t2 = unat a0 * unat b1 + unat t1 mod 2 ^ 32"
    unfolding t2_def using unat_muladd_32 [OF lt(1,4) lo] by (simp only: unat_ucast_u32 unat_low)
  have m: "unat (a1 * b1 + ucast (ucast (drop_bit 32 t1) :: u32)) = unat a1 * unat b1 + unat t1 div 2 ^ 32"
    using unat_muladd_32 [OF lt(2,4) lo] by (simp only: unat_ucast_u32 unat_high)
  have total: "unat a1 * unat b1 + unat t1 div 2 ^ 32 + unat t2 div 2 ^ 32 = unat a * unat b div 2 ^ 64"
    using mulhi_halves [of "2 ^ 32" "unat a1" "unat a0" "unat b1" "unat b0"] by (simp add: split t1 t2)
  have "unat a * unat b < 2 ^ 64 * 2 ^ 64"
    using unat_lt_pow [of a] unat_lt_pow [of b] by (intro mult_strict_mono) simp_all
  then have "unat a * unat b div 2 ^ 64 < 2 ^ 64" by (intro less_mult_imp_div_less) simp
  then have "unat t3 = unat a * unat b div 2 ^ 64"
    unfolding t3_def total [symmetric] by (subst unat_add_less) (simp_all add: m unat_shr)
  moreover have "mulhu a b = t3"
    unfolding mulhu_def Let_def d [symmetric] t1_def [symmetric] t2_def [symmetric] t3_def [symmetric] concat_halves ..
  ultimately show ?thesis by simp
qed

text \<open>The two signed products negate the magnitude's high half; \<open>~res + (a * b == 0)\<close> is the floor of the negated
  quotient.\<close>

lemma div_minus_high: "(- P) div 2 ^ 64 = - (P div 2 ^ 64) - 1 + of_bool (P mod 2 ^ 64 = 0)" for P :: int
  by (simp add: zdiv_zminus1_eq_if)

lemma mulhu_word: "mulhu a b = word_of_int (uint a * uint b div 2 ^ 64)"
proof -
  have "uint (mulhu a b) = uint a * uint b div 2 ^ 64"
    using arg_cong [OF unat_mulhu [of a b], of int] by (simp only: uint_nat of_nat_mult zdiv_int of_nat_power of_nat_numeral)
  then show ?thesis by (metis word_of_int_uint)
qed

lemma mulhu_negated: "NOT (mulhu a b) + of_bool (a * b = 0) = word_of_int ((- (uint a * uint b)) div 2 ^ 64)"
proof -
  have "a * b = 0 \<longleftrightarrow> uint a * uint b mod 2 ^ 64 = 0"
    by (simp add: word_uint_eq_iff uint_word_ariths)
  then show ?thesis
    unfolding div_minus_high mulhu_word by (simp add: minus_eq_not_plus_1 [symmetric] not_eq_complement)
qed

lemma uint_abs: "uint (if a <s 0 then - a else a) = \<bar>sint a\<bar>" for a :: u64
proof -
  have r: "- (2 ^ 63) \<le> sint a" "sint a < 2 ^ 63"
    using sint_range_size [of a] by (simp_all add: word_size)
  have "(if a <s 0 then - a else a) = word_of_int \<bar>sint a\<bar>"
    by (simp add: word_sless_alt word_of_int_minus abs_if)
  then show ?thesis using r by (simp add: uint_word_of_int abs_if)
qed

lemma mulh_word: "mulh a b = word_of_int (sint a * sint b div 2 ^ 64)"
proof -
  define A B where AB: "A = (if a <s 0 then - a else a)" "B = (if b <s 0 then - b else b)"
  have u: "uint A = \<bar>sint a\<bar>" "uint B = \<bar>sint b\<bar>" unfolding AB by (rule uint_abs)+
  have z: "a * b = 0 \<longleftrightarrow> A * B = 0" by (simp add: AB)
  show ?thesis
  proof (cases "(a <s 0) = (b <s 0)")
    case True
    then have *: "sint a * sint b = uint A * uint B" by (auto simp: u word_sless_alt abs_if)
    have "mulh a b = mulhu A B" using True by (simp only: mulh_def Let_def AB) simp
    then show ?thesis unfolding mulhu_word * .
  next
    case False
    then have *: "sint a * sint b = - (uint A * uint B)" by (auto simp: u word_sless_alt abs_if)
    have "mulh a b = NOT (mulhu A B) + of_bool (a * b = 0)" using False by (simp only: mulh_def Let_def AB) simp
    then show ?thesis unfolding z mulhu_negated * .
  qed
qed

lemma mulhsu_word: "mulhsu a b = word_of_int (sint a * uint b div 2 ^ 64)"
proof (cases "a <s 0")
  case False
  then have "sint a = \<bar>sint a\<bar>" by (auto simp: word_sless_alt)
  with False show ?thesis using uint_abs [of a] by (simp only: mulhsu_def Let_def mulhu_word) simp
next
  case True
  then have *: "sint a * uint b = - (uint (- a) * uint b)" using uint_abs [of a] by (simp add: word_sless_alt)
  have "mulhsu a b = NOT (mulhu (- a) b) + of_bool (- a * b = 0)"
    using True by (simp only: mulhsu_def Let_def) simp
  then show ?thesis unfolding mulhu_negated * .
qed

end
