(* ===== verification/Riscv_Opcodes.thy ===== *)
theory Riscv_Opcodes
  imports Prelude "HOL-Library.Multiset"
begin

text \<open>
  The opcode map of \<^verbatim>\<open>riscv/processor.cc\<close>: the instructions the processor registers, with the match and mask
  words of \<^verbatim>\<open>riscv/encoding.h\<close>, and \<^verbatim>\<open>decode_insn\<close>, which looks an instruction word up in a direct-mapped cache
  and falls back to a linear search that moves the entry it finds to the front.  A pointer to the function
  of an instruction is its name; a search that runs past the end of the vector is \<open>None\<close>.
\<close>

subsection \<open>The instructions\<close>

text \<open>
  The instructions \<^verbatim>\<open>DECLARE_INSN\<close> declares that are in \<^verbatim>\<open>riscv_insn_list\<close> of the build, with the literals of their
  match and mask words, in the order of \<^verbatim>\<open>encoding.h\<close>.  The build registers them in the order of its list;
  the table is sorted afterwards and the keys are different, so the order of registration does not matter
  (\<open>sort_descs_perm\<close>).
\<close>

definition base_insns_1 :: "(string \<times> int \<times> int) list" where
  "base_insns_1 =
    [
     (''beq'', 0x63, 0x707F), (''bne'', 0x1063, 0x707F), (''blt'', 0x4063, 0x707F), (''bge'', 0x5063, 0x707F),
     (''bltu'', 0x6063, 0x707F), (''bgeu'', 0x7063, 0x707F), (''jalr'', 0x67, 0x707F), (''jal'', 0x6F, 0x7F),
     (''lui'', 0x37, 0x7F), (''auipc'', 0x17, 0x7F), (''addi'', 0x13, 0x707F), (''slli'', 0x1013, 0xFC00707F),
     (''slti'', 0x2013, 0x707F), (''sltiu'', 0x3013, 0x707F), (''xori'', 0x4013, 0x707F),
     (''srli'', 0x5013, 0xFC00707F), (''srai'', 0x40005013, 0xFC00707F), (''ori'', 0x6013, 0x707F),
     (''andi'', 0x7013, 0x707F), (''add'', 0x33, 0xFE00707F), (''sub'', 0x40000033, 0xFE00707F),
     (''sll'', 0x1033, 0xFE00707F), (''slt'', 0x2033, 0xFE00707F), (''sltu'', 0x3033, 0xFE00707F),
     (''xor'', 0x4033, 0xFE00707F), (''srl'', 0x5033, 0xFE00707F), (''sra'', 0x40005033, 0xFE00707F),
     (''or'', 0x6033, 0xFE00707F), (''and'', 0x7033, 0xFE00707F), (''addiw'', 0x1B, 0x707F),
     (''slliw'', 0x101B, 0xFE00707F), (''srliw'', 0x501B, 0xFE00707F), (''sraiw'', 0x4000501B, 0xFE00707F),
     (''addw'', 0x3B, 0xFE00707F), (''subw'', 0x4000003B, 0xFE00707F), (''sllw'', 0x103B, 0xFE00707F),
     (''srlw'', 0x503B, 0xFE00707F), (''sraw'', 0x4000503B, 0xFE00707F), (''lb'', 0x3, 0x707F),
     (''lh'', 0x1003, 0x707F), (''lw'', 0x2003, 0x707F), (''ld'', 0x3003, 0x707F), (''lbu'', 0x4003, 0x707F),
     (''lhu'', 0x5003, 0x707F), (''lwu'', 0x6003, 0x707F), (''sb'', 0x23, 0x707F), (''sh'', 0x1023, 0x707F),
     (''sw'', 0x2023, 0x707F), (''sd'', 0x3023, 0x707F), (''fence'', 0xF, 0x707F), (''fence_i'', 0x100F, 0x707F),
     (''mul'', 0x2000033, 0xFE00707F), (''mulh'', 0x2001033, 0xFE00707F), (''mulhsu'', 0x2002033, 0xFE00707F),
     (''mulhu'', 0x2003033, 0xFE00707F), (''div'', 0x2004033, 0xFE00707F), (''divu'', 0x2005033, 0xFE00707F),
     (''rem'', 0x2006033, 0xFE00707F), (''remu'', 0x2007033, 0xFE00707F), (''mulw'', 0x200003B, 0xFE00707F),
     (''divw'', 0x200403B, 0xFE00707F), (''divuw'', 0x200503B, 0xFE00707F), (''remw'', 0x200603B, 0xFE00707F),
     (''remuw'', 0x200703B, 0xFE00707F), (''amoadd_w'', 0x202F, 0xF800707F), (''amoxor_w'', 0x2000202F, 0xF800707F),
     (''amoor_w'', 0x4000202F, 0xF800707F), (''amoand_w'', 0x6000202F, 0xF800707F),
     (''amomin_w'', 0x8000202F, 0xF800707F), (''amomax_w'', 0xA000202F, 0xF800707F),
     (''amominu_w'', 0xC000202F, 0xF800707F), (''amomaxu_w'', 0xE000202F, 0xF800707F),
     (''amoswap_w'', 0x800202F, 0xF800707F), (''lr_w'', 0x1000202F, 0xF9F0707F), (''sc_w'', 0x1800202F, 0xF800707F),
     (''amoadd_d'', 0x302F, 0xF800707F), (''amoxor_d'', 0x2000302F, 0xF800707F),
     (''amoor_d'', 0x4000302F, 0xF800707F), (''amoand_d'', 0x6000302F, 0xF800707F),
     (''amomin_d'', 0x8000302F, 0xF800707F), (''amomax_d'', 0xA000302F, 0xF800707F),
     (''amominu_d'', 0xC000302F, 0xF800707F), (''amomaxu_d'', 0xE000302F, 0xF800707F),
     (''amoswap_d'', 0x800302F, 0xF800707F), (''lr_d'', 0x1000302F, 0xF9F0707F), (''sc_d'', 0x1800302F, 0xF800707F),
     (''ecall'', 0x73, 0xFFFFFFFF), (''ebreak'', 0x100073, 0xFFFFFFFF), (''sret'', 0x10200073, 0xFFFFFFFF),
     (''mret'', 0x30200073, 0xFFFFFFFF), (''dret'', 0x7B200073, 0xFFFFFFFF), (''sfence_vm'', 0x10400073, 0xFFF07FFF),
     (''wfi'', 0x10500073, 0xFFFFFFFF), (''csrrw'', 0x1073, 0x707F), (''csrrs'', 0x2073, 0x707F),
     (''csrrc'', 0x3073, 0x707F), (''csrrwi'', 0x5073, 0x707F), (''csrrsi'', 0x6073, 0x707F),
     (''csrrci'', 0x7073, 0x707F), (''fadd_s'', 0x53, 0xFE00007F), (''fsub_s'', 0x8000053, 0xFE00007F),
     (''fmul_s'', 0x10000053, 0xFE00007F), (''fdiv_s'', 0x18000053, 0xFE00007F),
     (''fsgnj_s'', 0x20000053, 0xFE00707F), (''fsgnjn_s'', 0x20001053, 0xFE00707F),
     (''fsgnjx_s'', 0x20002053, 0xFE00707F), (''fmin_s'', 0x28000053, 0xFE00707F),
     (''fmax_s'', 0x28001053, 0xFE00707F), (''fsqrt_s'', 0x58000053, 0xFFF0007F),
     (''fadd_d'', 0x2000053, 0xFE00007F), (''fsub_d'', 0xA000053, 0xFE00007F), (''fmul_d'', 0x12000053, 0xFE00007F),
     (''fdiv_d'', 0x1A000053, 0xFE00007F), (''fsgnj_d'', 0x22000053, 0xFE00707F),
     (''fsgnjn_d'', 0x22001053, 0xFE00707F), (''fsgnjx_d'', 0x22002053, 0xFE00707F),
     (''fmin_d'', 0x2A000053, 0xFE00707F), (''fmax_d'', 0x2A001053, 0xFE00707F),
     (''fcvt_s_d'', 0x40100053, 0xFFF0007F), (''fcvt_d_s'', 0x42000053, 0xFFF0007F),
     (''fsqrt_d'', 0x5A000053, 0xFFF0007F), (''fle_s'', 0xA0000053, 0xFE00707F), (''flt_s'', 0xA0001053, 0xFE00707F),
     (''feq_s'', 0xA0002053, 0xFE00707F), (''fle_d'', 0xA2000053, 0xFE00707F), (''flt_d'', 0xA2001053, 0xFE00707F),
     (''feq_d'', 0xA2002053, 0xFE00707F), (''fcvt_w_s'', 0xC0000053, 0xFFF0007F),
     (''fcvt_wu_s'', 0xC0100053, 0xFFF0007F), (''fcvt_l_s'', 0xC0200053, 0xFFF0007F),
     (''fcvt_lu_s'', 0xC0300053, 0xFFF0007F), (''fmv_x_s'', 0xE0000053, 0xFFF0707F),
     (''fclass_s'', 0xE0001053, 0xFFF0707F), (''fcvt_w_d'', 0xC2000053, 0xFFF0007F),
     (''fcvt_wu_d'', 0xC2100053, 0xFFF0007F), (''fcvt_l_d'', 0xC2200053, 0xFFF0007F),
     (''fcvt_lu_d'', 0xC2300053, 0xFFF0007F), (''fmv_x_d'', 0xE2000053, 0xFFF0707F),
     (''fclass_d'', 0xE2001053, 0xFFF0707F), (''fcvt_s_w'', 0xD0000053, 0xFFF0007F),
     (''fcvt_s_wu'', 0xD0100053, 0xFFF0007F), (''fcvt_s_l'', 0xD0200053, 0xFFF0007F),
     (''fcvt_s_lu'', 0xD0300053, 0xFFF0007F), (''fmv_s_x'', 0xF0000053, 0xFFF0707F),
     (''fcvt_d_w'', 0xD2000053, 0xFFF0007F), (''fcvt_d_wu'', 0xD2100053, 0xFFF0007F),
     (''fcvt_d_l'', 0xD2200053, 0xFFF0007F), (''fcvt_d_lu'', 0xD2300053, 0xFFF0007F)]"

definition base_insns_2 :: "(string \<times> int \<times> int) list" where
  "base_insns_2 =
    [
     (''fmv_d_x'', 0xF2000053, 0xFFF0707F), (''flw'', 0x2007, 0x707F), (''fld'', 0x3007, 0x707F),
     (''fsw'', 0x2027, 0x707F), (''fsd'', 0x3027, 0x707F), (''fmadd_s'', 0x43, 0x600007F),
     (''fmsub_s'', 0x47, 0x600007F), (''fnmsub_s'', 0x4B, 0x600007F), (''fnmadd_s'', 0x4F, 0x600007F),
     (''fmadd_d'', 0x2000043, 0x600007F), (''fmsub_d'', 0x2000047, 0x600007F), (''fnmsub_d'', 0x200004B, 0x600007F),
     (''fnmadd_d'', 0x200004F, 0x600007F), (''c_jr'', 0x8002, 0xF07F), (''c_jalr'', 0x9002, 0xF07F),
     (''c_ebreak'', 0x9002, 0xFFFF), (''c_addi4spn'', 0x0, 0xE003), (''c_fld'', 0x2000, 0xE003),
     (''c_lw'', 0x4000, 0xE003), (''c_flw'', 0x6000, 0xE003), (''c_fsd'', 0xA000, 0xE003),
     (''c_sw'', 0xC000, 0xE003), (''c_fsw'', 0xE000, 0xE003), (''c_addi'', 0x1, 0xE003), (''c_jal'', 0x2001, 0xE003),
     (''c_li'', 0x4001, 0xE003), (''c_lui'', 0x6001, 0xE003), (''c_srli'', 0x8001, 0xEC03),
     (''c_srai'', 0x8401, 0xEC03), (''c_andi'', 0x8801, 0xEC03), (''c_sub'', 0x8C01, 0xFC63),
     (''c_xor'', 0x8C21, 0xFC63), (''c_or'', 0x8C41, 0xFC63), (''c_and'', 0x8C61, 0xFC63),
     (''c_subw'', 0x9C01, 0xFC63), (''c_addw'', 0x9C21, 0xFC63), (''c_j'', 0xA001, 0xE003),
     (''c_beqz'', 0xC001, 0xE003), (''c_bnez'', 0xE001, 0xE003), (''c_slli'', 0x2, 0xE003),
     (''c_fldsp'', 0x2002, 0xE003), (''c_lwsp'', 0x4002, 0xE003), (''c_flwsp'', 0x6002, 0xE003),
     (''c_mv'', 0x8002, 0xF003), (''c_add'', 0x9002, 0xF003), (''c_fsdsp'', 0xA002, 0xE003),
     (''c_swsp'', 0xC002, 0xE003), (''c_fswsp'', 0xE002, 0xE003)]"

record insn_desc =
  insn_match :: u64
  insn_mask :: u64
  rv32 :: string
  rv64 :: string

record decoder =
  instructions :: "insn_desc list"
  opcode_cache :: "u64 \<Rightarrow> insn_desc"

definition illegal_desc :: insn_desc where
  "illegal_desc = \<lparr>insn_match = 0, insn_mask = 0, rv32 = ''illegal_instruction'', rv64 = ''illegal_instruction''\<rparr>"

definition register_insn :: "insn_desc \<Rightarrow> insn_desc list \<Rightarrow> insn_desc list" where
  "register_insn desc l = l @ [desc]"

text \<open>\<^verbatim>\<open>std::sort\<close> with the comparison of \<^verbatim>\<open>build_opcode_map\<close>: larger matches first, then larger masks.\<close>

definition desc_before :: "insn_desc \<Rightarrow> insn_desc \<Rightarrow> bool" where
  "desc_before lhs rhs =
     (if insn_match lhs = insn_match rhs then insn_mask lhs > insn_mask rhs else insn_match lhs > insn_match rhs)"

fun insert_desc :: "insn_desc \<Rightarrow> insn_desc list \<Rightarrow> insn_desc list" where
  "insert_desc d [] = [d]"
| "insert_desc d (e # l) = (if desc_before e d then e # insert_desc d l else d # e # l)"

definition sort_descs :: "insn_desc list \<Rightarrow> insn_desc list" where
  "sort_descs l = foldr insert_desc l []"

definition build_opcode_map :: "insn_desc list \<Rightarrow> decoder" where
  "build_opcode_map l = \<lparr>instructions = sort_descs l, opcode_cache = (\<lambda>_. illegal_desc)\<rparr>"

definition base_desc :: "string \<times> int \<times> int \<Rightarrow> insn_desc" where
  "base_desc = (\<lambda>(name, match, mask').
     \<lparr>insn_match = word_of_int match, insn_mask = word_of_int mask', rv32 = ''rv32_'' @ name, rv64 = ''rv64_'' @ name\<rparr>)"

definition register_base_instructions :: decoder where
  "register_base_instructions =
     build_opcode_map (register_insn illegal_desc (fold (register_insn \<circ> base_desc) (base_insns_1 @ base_insns_2) []))"

subsection \<open>Decoding\<close>

definition insn_matches :: "u64 \<Rightarrow> insn_desc \<Rightarrow> bool" where
  "insn_matches bits d \<longleftrightarrow> bits AND insn_mask d = insn_match d"

fun linear_search :: "u64 \<Rightarrow> insn_desc list \<Rightarrow> nat option" where
  "linear_search bits [] = None"
| "linear_search bits (d # l) = (if insn_matches bits d then Some 0 else map_option Suc (linear_search bits l))"

definition move_to_front :: "nat \<Rightarrow> insn_desc list \<Rightarrow> insn_desc list" where
  "move_to_front p l = l ! p # take p l @ drop (Suc p) l"

text \<open>The part after the linear search has found the entry at \<open>p\<close>; reading \<^verbatim>\<open>(p+1)->match\<close> behind the vector is \<open>None\<close>.\<close>

definition reorder_insns :: "nat \<Rightarrow> insn_desc list \<Rightarrow> insn_desc list option" where
  "reorder_insns p l =
     (if insn_mask (l ! p) \<noteq> 0 \<and> 0 < p
      then if Suc p < length l
           then Some (if insn_match (l ! p) \<noteq> insn_match (l ! (p - 1)) \<and> insn_match (l ! p) \<noteq> insn_match (l ! (p + 1))
                      then move_to_front p l else l)
           else None
      else Some l)"

definition decode_insn :: "u64 \<Rightarrow> nat \<Rightarrow> decoder \<Rightarrow> (string \<times> decoder) option" where
  "decode_insn bits xlen d =
     (let idx = bits mod 8191;
          desc = opcode_cache d idx;
          func = (\<lambda>desc. if xlen = 64 then rv64 desc else rv32 desc)
      in if bits \<noteq> insn_match desc
         then (case linear_search bits (instructions d) of
                 None \<Rightarrow> None
               | Some p \<Rightarrow>
                   let desc = instructions d ! p
                   in map_option (\<lambda>l. (func desc, d\<lparr>instructions := l,
                          opcode_cache := (opcode_cache d)(idx := desc\<lparr>insn_match := bits\<rparr>)\<rparr>))
                        (reorder_insns p (instructions d)))
         else Some (func desc, d))"

text \<open>Decoding a sequence of instruction words.\<close>

fun decode_insns :: "u64 list \<Rightarrow> nat \<Rightarrow> decoder \<Rightarrow> (string list \<times> decoder) option" where
  "decode_insns [] xlen d = Some ([], d)"
| "decode_insns (b # bs) xlen d =
     (case decode_insn b xlen d of None \<Rightarrow> None
      | Some (f, d) \<Rightarrow> map_option (\<lambda>(fs, d). (f # fs, d)) (decode_insns bs xlen d))"

subsection \<open>The reference\<close>

text \<open>The first matching entry of a table, and the function that stands for it.\<close>

definition lookup_insn :: "u64 \<Rightarrow> insn_desc list \<Rightarrow> insn_desc option" where
  "lookup_insn bits T = List.find (insn_matches bits) T"

text \<open>
  What the sorted table satisfies: the last entry and only that one matches everything, entries with the same
  match word stand together, and two entries with different match words never match the same instruction.
\<close>

definition disjoint_descs :: "insn_desc \<Rightarrow> insn_desc \<Rightarrow> bool" where
  "disjoint_descs d e \<longleftrightarrow> (\<forall>b. insn_matches b d \<longrightarrow> insn_matches b e \<longrightarrow> insn_match d = insn_match e)"

fun grouped :: "u64 list \<Rightarrow> bool" where
  "grouped [] = True"
| "grouped (x # xs) = ((x \<notin> set xs \<or> xs \<noteq> [] \<and> hd xs = x) \<and> grouped xs)"

definition table_ok :: "insn_desc list \<Rightarrow> bool" where
  "table_ok T \<longleftrightarrow> (\<exists>R. T = R @ [illegal_desc] \<and> (\<forall>d \<in> set R. insn_mask d \<noteq> 0) \<and>
     grouped (map insn_match R) \<and> (\<forall>d \<in> set R. \<forall>e \<in> set R. disjoint_descs d e))"

subsection \<open>Moving an entry to the front\<close>

lemma grouped_remove:
  assumes "grouped (xs @ p # ys)" "p \<notin> set xs" "p \<notin> set ys"
  shows "grouped (xs @ ys)"
  using assms
proof (induction xs)
  case Nil
  then show ?case by simp
next
  case (Cons x xs)
  then show ?case by (cases xs) auto
qed

lemma grouped_alone:
  assumes "grouped (xs @ p # ys)" "xs \<noteq> [] \<Longrightarrow> last xs \<noteq> p" "ys \<noteq> [] \<Longrightarrow> hd ys \<noteq> p"
  shows "p \<notin> set xs \<and> p \<notin> set ys"
  using assms
proof (induction xs)
  case Nil
  then show ?case by auto
next
  case (Cons x xs)
  show ?case
  proof (cases xs)
    case Nil
    then show ?thesis using Cons by auto
  next
    case (Cons y zs)
    have "p \<notin> set xs \<and> p \<notin> set ys" using Cons.IH Cons.prems Cons by auto
    moreover have "x \<noteq> p" using Cons.prems(1) calculation Cons by auto
    ultimately show ?thesis by simp
  qed
qed

lemma find_append: "List.find P (xs @ ys) = (case List.find P xs of None \<Rightarrow> List.find P ys | Some x \<Rightarrow> Some x)"
  by (induction xs) auto

lemma find_move:
  assumes "\<And>x. x \<in> set xs \<Longrightarrow> P p \<Longrightarrow> \<not> P x"
  shows "List.find P (p # xs @ ys) = List.find P (xs @ p # ys)"
proof (cases "P p")
  case True
  then have "List.find P xs = None" using assms by (simp add: find_None_iff)
  then show ?thesis using True by (simp add: find_append)
next
  case False
  then show ?thesis by (simp add: find_append split: option.split)
qed

lemma linear_search_find:
  "linear_search b l = None \<longleftrightarrow> List.find (insn_matches b) l = None"
  "linear_search b l = Some p \<Longrightarrow> p < length l \<and> List.find (insn_matches b) l = Some (l ! p)"
  by (induction l arbitrary: p) (auto split: if_splits)

lemma table_ok_last:
  assumes "table_ok T"
  shows "\<exists>d. lookup_insn b T = Some d"
proof -
  obtain R where "T = R @ [illegal_desc]" using assms by (auto simp: table_ok_def)
  moreover have "insn_matches b illegal_desc" by (simp add: insn_matches_def illegal_desc_def)
  ultimately show ?thesis by (auto simp: lookup_insn_def find_append split: option.split)
qed

lemma reorder_insns_ok:
  assumes ok: "table_ok l" and p: "p < length l"
  shows "\<exists>l'. reorder_insns p l = Some l' \<and> table_ok l' \<and> (\<forall>b. lookup_insn b l' = lookup_insn b l)"
proof -
  obtain R where R: "l = R @ [illegal_desc]" "\<forall>d \<in> set R. insn_mask d \<noteq> 0" "grouped (map insn_match R)"
    "\<forall>d \<in> set R. \<forall>e \<in> set R. disjoint_descs d e"
    using ok by (auto simp: table_ok_def)
  show ?thesis
  proof (cases "insn_mask (l ! p) \<noteq> 0 \<and> 0 < p \<and> insn_match (l ! p) \<noteq> insn_match (l ! (p - 1)) \<and> insn_match (l ! p) \<noteq> insn_match (l ! (p + 1))")
    case False
    have "Suc p < length l" if "insn_mask (l ! p) \<noteq> 0"
      using that p R(1) by (cases "p = length R") (auto simp: illegal_desc_def)
    then show ?thesis using False ok by (auto simp: reorder_insns_def)
  next
    case True
    then have pR: "p < length R" using p R(1) by (cases "p = length R") (auto simp: illegal_desc_def)
    define xs ys where "xs = take p R" and "ys = drop (Suc p) R"
    have split: "R = xs @ R ! p # ys" using pR by (simp add: xs_def ys_def id_take_nth_drop)
    have ne: "xs \<noteq> []" using pR True by (auto simp: xs_def)
    then have "last xs = R ! (p - 1)" using pR True by (simp add: last_conv_nth) (simp add: xs_def min_def)
    then have lp: "l ! p = R ! p" "l ! (p - 1) = last xs" using pR R(1) by (simp_all add: nth_append)
    have hd: "l ! (p + 1) = hd ys" if "ys \<noteq> []"
      using that pR R(1) by (simp add: nth_append ys_def hd_drop_conv_nth)
    have "insn_match (R ! p) \<notin> set (map insn_match xs) \<and> insn_match (R ! p) \<notin> set (map insn_match ys)"
      using R(3) True lp hd by (intro grouped_alone) (auto simp: split [symmetric] last_map hd_map simp flip: map_append list.map(2))
    then have alone: "insn_match (R ! p) \<notin> insn_match ` set xs" "insn_match (R ! p) \<notin> insn_match ` set ys" by auto
    define R' where "R' = R ! p # xs @ ys"
    have l': "move_to_front p l = R' @ [illegal_desc]"
      using pR R(1) lp by (simp add: move_to_front_def R'_def xs_def ys_def)
    have set: "set R' = set R" using arg_cong [OF split, of set] by (auto simp: R'_def)
    have "grouped (map insn_match (xs @ ys))"
      using R(3) alone grouped_remove [of "map insn_match xs" "insn_match (R ! p)" "map insn_match ys"]
      by (subst (asm) split) simp
    then have g: "grouped (map insn_match R')" using alone by (auto simp: R'_def)
    have "table_ok (move_to_front p l)" unfolding table_ok_def using l' set R(2,4) g by (intro exI [of _ R']) simp
    moreover have "lookup_insn b (move_to_front p l) = lookup_insn b l" for b
    proof -
      have "\<not> insn_matches b x" if "x \<in> set xs" "insn_matches b (R ! p)" for x
        using that alone(1) R(4) pR split by (metis (no_types, lifting) UnI1 disjoint_descs_def image_eqI nth_mem set_append)
      then have "List.find (insn_matches b) (R ! p # xs @ ys @ [illegal_desc]) = List.find (insn_matches b) (xs @ R ! p # ys @ [illegal_desc])"
        by (rule find_move)
      moreover have "l = xs @ R ! p # ys @ [illegal_desc]" using R(1) split by simp
      ultimately show ?thesis unfolding lookup_insn_def l' R'_def by simp
    qed
    ultimately show ?thesis using True pR R(1) by (simp add: reorder_insns_def)
  qed
qed

subsection \<open>The decoder agrees with the table\<close>

text \<open>
  The invariant: the vector finds what the table finds, and an entry of the cache is the fresh one or holds what
  the table finds for its word.
\<close>

definition decoder_ok :: "insn_desc list \<Rightarrow> decoder \<Rightarrow> bool" where
  "decoder_ok T d \<longleftrightarrow> table_ok (instructions d) \<and> (\<forall>b. lookup_insn b (instructions d) = lookup_insn b T) \<and>
     (\<forall>i. opcode_cache d i = illegal_desc \<or>
        (\<exists>b e. lookup_insn b T = Some e \<and> opcode_cache d i = e\<lparr>insn_match := b\<rparr>))"

definition insn_func :: "nat \<Rightarrow> insn_desc \<Rightarrow> string" where
  "insn_func xlen e = (if xlen = 64 then rv64 e else rv32 e)"

lemma build_opcode_map_ok: "table_ok (sort_descs l) \<Longrightarrow> decoder_ok (sort_descs l) (build_opcode_map l)"
  by (simp add: decoder_ok_def build_opcode_map_def)

text \<open>The word 0 hits the fresh cache entry, which stands for the illegal instruction.\<close>

lemma decode_insn_ok:
  assumes ok: "decoder_ok T d"
  shows "\<exists>f d' e. decode_insn b xlen d = Some (f, d') \<and> decoder_ok T d' \<and> lookup_insn b T = Some e \<and>
    (f = insn_func xlen e \<or> b = 0 \<and> f = insn_func xlen illegal_desc)"
proof -
  have t: "table_ok (instructions d)" "\<And>b. lookup_insn b (instructions d) = lookup_insn b T"
    using ok by (simp_all add: decoder_ok_def)
  obtain e where e: "lookup_insn b T = Some e" using table_ok_last [OF t(1), of b] t(2) by auto
  show ?thesis
  proof (cases "b = insn_match (opcode_cache d (b mod 8191))")
    case True
    then have "decode_insn b xlen d = Some (insn_func xlen (opcode_cache d (b mod 8191)), d)"
      by (simp add: decode_insn_def Let_def insn_func_def)
    moreover have "opcode_cache d (b mod 8191) = illegal_desc \<and> b = 0 \<or> opcode_cache d (b mod 8191) = e\<lparr>insn_match := b\<rparr>"
    proof -
      consider "opcode_cache d (b mod 8191) = illegal_desc" |
        b' e' where "lookup_insn b' T = Some e'" "opcode_cache d (b mod 8191) = e'\<lparr>insn_match := b'\<rparr>"
        using ok unfolding decoder_ok_def by meson
      then show ?thesis using True e by cases (auto simp: illegal_desc_def)
    qed
    ultimately show ?thesis using ok e by (auto simp: insn_func_def)
  next
    case False
    obtain p where p: "linear_search b (instructions d) = Some p"
      using linear_search_find(1) [of b "instructions d"] e t(2) [of b] by (auto simp: lookup_insn_def)
    have lp: "p < length (instructions d)" "instructions d ! p = e"
      using linear_search_find(2) [OF p] e t(2) [of b] by (simp_all add: lookup_insn_def)
    obtain l' where l': "reorder_insns p (instructions d) = Some l'" "table_ok l'" "\<And>b. lookup_insn b l' = lookup_insn b T"
      using reorder_insns_ok [OF t(1) lp(1)] t(2) by auto
    let ?d = "d\<lparr>instructions := l', opcode_cache := (opcode_cache d)(b mod 8191 := e\<lparr>insn_match := b\<rparr>)\<rparr>"
    have "decode_insn b xlen d = Some (insn_func xlen e, ?d)"
      using False by (simp add: decode_insn_def Let_def p lp l' insn_func_def)
    moreover have "decoder_ok T ?d" using ok l' e by (auto simp: decoder_ok_def)
    ultimately show ?thesis using e by blast
  qed
qed

lemma decode_insns_all:
  assumes "decoder_ok T d"
  shows "\<exists>fs d'. decode_insns bs xl d = Some (fs, d') \<and> decoder_ok T d' \<and>
    list_all2 (\<lambda>b f. \<exists>e. lookup_insn b T = Some e \<and> (f = insn_func xl e \<or> b = 0 \<and> f = insn_func xl illegal_desc)) bs fs"
  using assms
proof (induction bs arbitrary: d)
  case (Cons b bs)
  obtain f d' e where d: "decode_insn b xl d = Some (f, d')" "decoder_ok T d'" "lookup_insn b T = Some e"
    "f = insn_func xl e \<or> b = 0 \<and> f = insn_func xl illegal_desc"
    using decode_insn_ok [OF Cons.prems] by blast
  moreover obtain fs d'' where "decode_insns bs xl d' = Some (fs, d'')" "decoder_ok T d''"
    "list_all2 (\<lambda>b f. \<exists>e. lookup_insn b T = Some e \<and> (f = insn_func xl e \<or> b = 0 \<and> f = insn_func xl illegal_desc)) bs fs"
    using Cons.IH [OF d(2)] by blast
  ultimately show ?case by auto
qed simp

subsection \<open>The sorted table\<close>

lemma set_insert_desc [simp]: "set (insert_desc d l) = insert d (set l)"
  by (induction l) auto

lemma set_sort_descs [simp]: "set (sort_descs l) = set l"
  unfolding sort_descs_def by (induction l) auto

lemma mset_sort_descs: "mset (sort_descs l) = mset l"
proof -
  have "mset (insert_desc d l) = add_mset d (mset l)" for d l by (induction l) auto
  then show ?thesis unfolding sort_descs_def by (induction l) auto
qed

abbreviation (input) desc_key :: "insn_desc \<Rightarrow> u64 \<times> u64" where
  "desc_key d \<equiv> (insn_match d, insn_mask d)"

lemma desc_before_total: "desc_before d e \<or> desc_before e d \<or> desc_key d = desc_key e"
  by (auto simp: desc_before_def)

lemma desc_before_trans: "desc_before d e \<Longrightarrow> desc_before e f \<Longrightarrow> desc_before d f"
  by (auto simp: desc_before_def split: if_splits)

lemma desc_before_irrefl: "\<not> desc_before d d"
  by (simp add: desc_before_def)

lemma sorted_insert_desc:
  assumes "sorted_wrt desc_before l" "desc_key d \<notin> desc_key ` set l"
  shows "sorted_wrt desc_before (insert_desc d l)"
  using assms
proof (induction l)
  case (Cons e l)
  then show ?case using desc_before_total [of d e] desc_before_trans [of d e] by auto
qed simp

lemma sorted_sort_descs:
  assumes "distinct (map desc_key l)"
  shows "sorted_wrt desc_before (sort_descs l)"
  using assms
proof (induction l)
  case (Cons d l)
  have "sort_descs (d # l) = insert_desc d (sort_descs l)" by (simp add: sort_descs_def)
  then show ?case using Cons sorted_insert_desc [of "sort_descs l" d] by auto
qed (simp add: sort_descs_def)

text \<open>Two registrations of the same instructions give the same table.\<close>

lemma sorted_desc_unique:
  assumes "sorted_wrt desc_before l" "sorted_wrt desc_before l'" "set l = set l'"
  shows "l = l'"
  using assms
proof (induction l arbitrary: l')
  case (Cons d l)
  then obtain d' k where l': "l' = d' # k" by (cases l') auto
  have "d = d'"
    using Cons.prems by (auto simp: l') (metis desc_before_irrefl desc_before_trans insert_iff)
  moreover have "d \<notin> set l" "d' \<notin> set k" using Cons.prems(1,2) desc_before_irrefl by (auto simp: l')
  ultimately have "set l = set k" using Cons.prems(3) by (simp add: l' insert_ident)
  then show ?case using Cons.IH [of k] Cons.prems \<open>d = d'\<close> by (simp add: l')
qed simp

lemma sort_descs_perm:
  assumes "mset l = mset l'" "distinct (map desc_key l)"
  shows "sort_descs l = sort_descs l'"
proof -
  have "mset (map desc_key l) = mset (map desc_key l')" using assms(1) by simp
  then have "distinct (map desc_key l')" using assms(2) mset_eq_imp_distinct_iff by blast
  then show ?thesis
    using assms(2) mset_eq_setD [OF assms(1)] by (intro sorted_desc_unique sorted_sort_descs) simp_all
qed

lemma grouped_sorted: "sorted_wrt (\<ge>) (ms :: u64 list) \<Longrightarrow> grouped ms"
proof (induction ms)
  case (Cons m ms)
  then show ?case by (cases ms) fastforce+
qed simp

lemma register_illegal_distinct:
  assumes "distinct (map desc_key l)" "\<forall>d \<in> set l. insn_mask d \<noteq> 0"
  shows "distinct (map desc_key (register_insn illegal_desc l))"
  using assms by (auto simp: register_insn_def illegal_desc_def)

lemma table_ok_sort:
  assumes d: "distinct (map desc_key l)" and nz: "\<forall>d \<in> set l. insn_mask d \<noteq> 0"
    and disj: "\<forall>d \<in> set l. \<forall>e \<in> set l. disjoint_descs d e"
  shows "table_ok (sort_descs (register_insn illegal_desc l))"
proof -
  have z: "desc_before d illegal_desc" if "insn_mask d \<noteq> 0" for d
    using that by (auto simp: desc_before_def illegal_desc_def word_neq_0_conv)
  have s: "sorted_wrt desc_before (sort_descs l @ [illegal_desc])"
    using sorted_sort_descs [OF d] nz z by (simp add: sorted_wrt_append)
  have k: "distinct (map desc_key (l @ [illegal_desc]))"
    using register_illegal_distinct [OF d nz] by (simp only: register_insn_def)
  have "sort_descs (l @ [illegal_desc]) = sort_descs l @ [illegal_desc]"
    by (rule sorted_desc_unique [OF sorted_sort_descs [OF k] s]) simp
  moreover have "grouped (map insn_match (sort_descs l))"
  proof (rule grouped_sorted)
    show "sorted_wrt (\<ge>) (map insn_match (sort_descs l))"
      using sorted_sort_descs [OF d] unfolding sorted_wrt_map
      by (rule sorted_wrt_mono_rel [rotated]) (auto simp: desc_before_def split: if_splits)
  qed
  ultimately show ?thesis unfolding table_ok_def register_insn_def using nz disj by (intro exI [of _ "sort_descs l"]) simp
qed

subsection \<open>The base instructions\<close>

text \<open>
  Different match words differ in a bit both masks have.  The pairs are compared on integers; a pair with different
  major opcodes needs no further comparison.
\<close>

definition pair_ok :: "int \<times> int \<Rightarrow> int \<times> int \<Rightarrow> bool" where
  "pair_ok = (\<lambda>(m, k) (m', k'). if m = m' then k \<noteq> k' else (m XOR m') AND k AND k' \<noteq> 0)"

definition major_opcode :: "int \<times> int \<Rightarrow> int" where
  "major_opcode = (\<lambda>(m, k). if m AND 0x3 = 0x3 then m AND 0x7F else m AND 0x3)"

definition word_ok :: "int \<times> int \<Rightarrow> bool" where
  "word_ok = (\<lambda>(m, k). 0 \<le> m \<and> m < 2 ^ 64 \<and> 0 < k \<and> k < 2 ^ 64 \<and>
     k AND 0x3 = 0x3 \<and> (m AND 0x3 = 0x3 \<longrightarrow> k AND 0x7F = 0x7F))"

definition keyed_ok :: "int \<times> int \<times> int \<Rightarrow> int \<times> int \<times> int \<Rightarrow> bool" where
  "keyed_ok = (\<lambda>(c, a) (c', a'). c \<noteq> c' \<or> pair_ok a a')"

fun rows_ok :: "nat \<Rightarrow> (int \<times> int \<times> int) list \<Rightarrow> bool" where
  "rows_ok 0 l = True"
| "rows_ok (Suc n) [] = True"
| "rows_ok (Suc n) (a # l) = (list_all (keyed_ok a) l \<and> rows_ok n l)"

definition base_keys :: "(int \<times> int \<times> int) list" where
  "base_keys = map (\<lambda>(name, a). (major_opcode a, a)) (base_insns_1 @ base_insns_2)"

lemma base_rows_1: "rows_ok 25 base_keys" by code_simp
lemma base_rows_2: "rows_ok 25 (drop 25 base_keys)" by code_simp
lemma base_rows_3: "rows_ok 40 (drop 50 base_keys)" by code_simp
lemma base_rows_4: "rows_ok 40 (drop 90 base_keys)" by code_simp
lemma base_rows_5: "rows_ok 66 (drop 130 base_keys)" by code_simp

lemma base_words_ok: "list_all word_ok (map snd (base_insns_1 @ base_insns_2))"
  by code_simp

lemma rows_ok_add: "rows_ok (m + n) l \<longleftrightarrow> rows_ok m l \<and> rows_ok n (drop m l)"
proof (induction m arbitrary: l)
  case (Suc m)
  then show ?case by (cases l) (auto intro: rows_ok.elims(3))
qed simp

lemma rows_ok_sorted: "rows_ok n l \<Longrightarrow> length l \<le> n \<Longrightarrow> sorted_wrt keyed_ok l"
proof (induction n arbitrary: l)
  case (Suc n)
  then show ?case by (cases l) (auto simp: list_all_iff)
qed simp

lemma base_keys_ok: "sorted_wrt keyed_ok base_keys"
proof (rule rows_ok_sorted)
  show "rows_ok (25 + (25 + (40 + (40 + 66)))) base_keys"
    unfolding rows_ok_add drop_drop using base_rows_1 base_rows_2 base_rows_3 base_rows_4 base_rows_5 by simp
  show "length base_keys \<le> 25 + (25 + (40 + (40 + 66)))" by (simp add: base_keys_def base_insns_1_def base_insns_2_def)
qed

lemma and_submask: "(x AND f \<noteq> y AND f) \<Longrightarrow> k AND f = f \<Longrightarrow> k' AND f = f \<Longrightarrow> (x XOR y) AND k AND k' \<noteq> 0" for x y k k' f :: int
proof
  assume a: "x AND f \<noteq> y AND f" "k AND f = f" "k' AND f = f" "(x XOR y) AND k AND k' = 0"
  have "(x XOR y) AND f = ((x XOR y) AND k AND k') AND f" using a(2,3) by (metis and.assoc)
  then have "(x XOR y) AND f = 0" using a(4) by simp
  then have "bit (x AND f) n = bit (y AND f) n" for n
    by (auto simp: bit_eq_iff bit_simps)
  with a(1) show False by (auto simp: bit_eq_iff)
qed

lemma keyed_pair_ok:
  assumes "word_ok a" "word_ok b" "keyed_ok (major_opcode a, a) (major_opcode b, b)"
  shows "pair_ok a b"
proof (cases "major_opcode a = major_opcode b")
  case True
  then show ?thesis using assms(3) by (simp add: keyed_ok_def)
next
  case False
  obtain m k m' k' where ab: "a = (m, k)" "b = (m', k')" by fastforce
  have w: "k AND 0x3 = 0x3" "k' AND 0x3 = 0x3" "m AND 0x3 = 0x3 \<Longrightarrow> k AND 0x7F = 0x7F" "m' AND 0x3 = 0x3 \<Longrightarrow> k' AND 0x7F = 0x7F"
    using assms(1,2) by (auto simp: word_ok_def ab)
  have "m \<noteq> m'" using False by (auto simp: ab major_opcode_def)
  moreover have "(m XOR m') AND k AND k' \<noteq> 0"
  proof (cases "m AND 0x3 = m' AND 0x3")
    case True
    then show ?thesis using False w and_submask [of m "0x7F" m' k k'] by (auto simp: major_opcode_def ab split: if_splits)
  next
    case False
    then show ?thesis using w and_submask [of m "0x3" m' k k'] by simp
  qed
  ultimately show ?thesis by (simp add: pair_ok_def ab)
qed

lemma pair_ok_disjoint:
  assumes "pair_ok (m, k) (m', k')" "word_ok (m, k)" "word_ok (m', k')"
  shows "desc_key (base_desc (n, m, k)) \<noteq> desc_key (base_desc (n', m', k'))"
    and "disjoint_descs (base_desc (n, m, k)) (base_desc (n', m', k'))"
proof -
  have u: "uint (word_of_int x :: u64) = x" if "0 \<le> x" "x < 2 ^ 64" for x using that by (simp add: uint_word_of_int)
  have r: "0 \<le> m" "m < 2 ^ 64" "0 \<le> k" "k < 2 ^ 64" "0 \<le> m'" "m' < 2 ^ 64" "0 \<le> k'" "k' < 2 ^ 64"
    using assms(2,3) by (auto simp: word_ok_def)
  have inj: "(word_of_int x :: u64) = word_of_int y \<Longrightarrow> x = y" if "0 \<le> x" "x < 2 ^ 64" "0 \<le> y" "y < 2 ^ 64" for x y
    using u that by metis
  show "desc_key (base_desc (n, m, k)) \<noteq> desc_key (base_desc (n', m', k'))"
    using assms(1) r inj by (auto simp: base_desc_def pair_ok_def split: if_splits)
  show "disjoint_descs (base_desc (n, m, k)) (base_desc (n', m', k'))"
    unfolding disjoint_descs_def
  proof (intro allI impI, rule ccontr)
    fix b :: u64
    assume b: "insn_matches b (base_desc (n, m, k))" "insn_matches b (base_desc (n', m', k'))"
      and ne: "insn_match (base_desc (n, m, k)) \<noteq> insn_match (base_desc (n', m', k'))"
    then have "m \<noteq> m'" by (auto simp: base_desc_def)
    then have nz: "(m XOR m') AND k AND k' \<noteq> 0" using assms(1) by (simp add: pair_ok_def)
    have a: "uint b AND x = y" if "b AND word_of_int x = word_of_int y" "0 \<le> x" "x < 2 ^ 64" "0 \<le> y" "y < 2 ^ 64" for x y
      using arg_cong [OF that(1), of uint] unfolding uint_and u [OF that(2,3)] u [OF that(4,5)] .
    have "uint b AND k = m" "uint b AND k' = m'"
      using b by (auto simp: insn_matches_def base_desc_def intro!: a r)
    then have "(m XOR m') AND k AND k' = 0" by (auto simp: bit_eq_iff bit_simps)
    with nz show False by simp
  qed
qed

lemma base_desc_mask: "word_ok (snd x) \<Longrightarrow> insn_mask (base_desc x) \<noteq> 0"
proof -
  assume "word_ok (snd x)"
  then obtain n m k where x: "x = (n, m, k)" "0 < k" "k < 2 ^ 64" by (cases x) (auto simp: word_ok_def)
  then have "uint (word_of_int k :: u64) \<noteq> 0" by (simp add: uint_word_of_int)
  then show ?thesis by (auto simp: x base_desc_def)
qed

lemma distinct_map_wrt: "sorted_wrt (\<lambda>x y. f x \<noteq> f y) l \<Longrightarrow> distinct (map f l)"
  by (induction l) auto

lemma sorted_wrt_pair: "sorted_wrt P l \<Longrightarrow> x \<in> set l \<Longrightarrow> y \<in> set l \<Longrightarrow> x = y \<or> P x y \<or> P y x"
  by (induction l) auto

lemma base_descs:
  defines "B \<equiv> base_insns_1 @ base_insns_2"
  shows "distinct (map desc_key (map base_desc B))" "\<forall>d \<in> set (map base_desc B). insn_mask d \<noteq> 0"
    "\<forall>d \<in> set (map base_desc B). \<forall>e \<in> set (map base_desc B). disjoint_descs d e"
proof -
  let ?B = "base_insns_1 @ base_insns_2"
  have w: "word_ok (snd x)" if "x \<in> set ?B" for x using base_words_ok that by (auto simp: list_all_iff)
  have s: "sorted_wrt (\<lambda>x y. pair_ok (snd x) (snd y)) ?B"
  proof -
    have "sorted_wrt (\<lambda>x y. keyed_ok (major_opcode (snd x), snd x) (major_opcode (snd y), snd y)) ?B"
      using base_keys_ok unfolding base_keys_def sorted_wrt_map case_prod_unfold .
    then show ?thesis by (rule sorted_wrt_mono_rel [rotated]) (use w keyed_pair_ok in blast)
  qed
  have sym: "pair_ok x y \<longleftrightarrow> pair_ok y x" for x y
    by (cases x; cases y) (auto simp: pair_ok_def xor.commute and.assoc and.left_commute and.commute)
  have "sorted_wrt (\<lambda>x y. desc_key (base_desc x) \<noteq> desc_key (base_desc y)) ?B"
    using s by (rule sorted_wrt_mono_rel [rotated]) (use w pair_ok_disjoint(1) in fastforce)
  then show d: "distinct (map desc_key (map base_desc B))" using distinct_map_wrt [of "\<lambda>x. desc_key (base_desc x)" ?B] by (simp add: comp_def B_def)
  have disj: "disjoint_descs (base_desc x) (base_desc y)" if xy: "x \<in> set ?B" "y \<in> set ?B" for x y
  proof (cases "x = y")
    case True
    then show ?thesis by (simp add: disjoint_descs_def)
  next
    case False
    then have "pair_ok (snd x) (snd y)" using sorted_wrt_pair [OF s xy] sym by blast
    then show ?thesis using w [OF xy(1)] w [OF xy(2)] pair_ok_disjoint(2) by (cases x; cases y) auto
  qed
  show "\<forall>d \<in> set (map base_desc B). insn_mask d \<noteq> 0"
    unfolding B_def using w base_desc_mask by fastforce
  show "\<forall>d \<in> set (map base_desc B). \<forall>e \<in> set (map base_desc B). disjoint_descs d e"
    unfolding set_map B_def using disj by blast
qed

lemma base_instructions_eq:
  "instructions register_base_instructions = sort_descs (register_insn illegal_desc (map base_desc (base_insns_1 @ base_insns_2)))"
proof -
  have f: "fold (register_insn \<circ> base_desc) xs l = l @ map base_desc xs" for xs l
    by (induction xs arbitrary: l) (simp_all add: register_insn_def)
  show ?thesis unfolding register_base_instructions_def build_opcode_map_def f by simp
qed

lemma base_table_ok: "table_ok (instructions register_base_instructions)"
  unfolding base_instructions_eq by (rule table_ok_sort [OF base_descs])

text \<open>The instruction found is the most specific one: any other instruction that matches comes after it.\<close>

lemma find_first:
  "sorted_wrt P l \<Longrightarrow> List.find Q l = Some x \<Longrightarrow> y \<in> set l \<Longrightarrow> Q y \<Longrightarrow> y = x \<or> P x y"
  by (induction l) (auto split: if_splits)

lemma base_lookup:
  assumes "lookup_insn b (instructions register_base_instructions) = Some e"
  shows "insn_matches b e" "e \<in> set (instructions register_base_instructions)"
    "e' \<in> set (instructions register_base_instructions) \<Longrightarrow> insn_matches b e' \<Longrightarrow> e' = e \<or> desc_before e e'"
proof -
  have s: "sorted_wrt desc_before (instructions register_base_instructions)"
    unfolding base_instructions_eq by (rule sorted_sort_descs [OF register_illegal_distinct [OF base_descs(1,2)]])
  show "insn_matches b e" "e \<in> set (instructions register_base_instructions)"
    using assms by (auto simp: lookup_insn_def find_Some_iff)
  show "e' \<in> set (instructions register_base_instructions) \<Longrightarrow> insn_matches b e' \<Longrightarrow> e' = e \<or> desc_before e e'"
    using find_first [OF s] assms unfolding lookup_insn_def by blast
qed

lemma base_decoder_ok: "decoder_ok (instructions register_base_instructions) register_base_instructions"
  using base_table_ok build_opcode_map_ok unfolding register_base_instructions_def build_opcode_map_def by simp

end
