(* ===== verification/Riscv_Hart.thy ===== *)
theory Riscv_Hart
  imports Riscv_Decode Riscv_Opcodes Oram_Sim
begin

text \<open>
  The architectural state of a hart (\<^verbatim>\<open>state_t\<close> of \<^verbatim>\<open>riscv/processor.h\<close>) and the operations of \<^verbatim>\<open>riscv/processor.cc\<close> on it: reset,
  reading and writing the control and status registers, interrupts, traps, debug mode, hardware triggers, and
  the privileged instructions of \<^verbatim>\<open>riscv/insns/\<close> that use them.  A failed \<^verbatim>\<open>assert\<close> or a shift that is undefined in C
  is \<open>None\<close> or \<open>Abort\<close>; an instruction that throws a trap returns it with the state at that point, because a
  C++ exception does not undo what was written before it.
\<close>

subsection \<open>Constants of \<^verbatim>\<open>encoding.h\<close>\<close>

abbreviation (input) MSTATUS_FS :: u64 where "MSTATUS_FS \<equiv> 0x6000"
abbreviation (input) MSTATUS64_SD :: u64 where "MSTATUS64_SD \<equiv> 0x8000000000000000"
abbreviation (input) MSTATUS32_SD :: u64 where "MSTATUS32_SD \<equiv> 0x80000000"
abbreviation (input) MSTATUS_SIE :: u64 where "MSTATUS_SIE \<equiv> 0x2"
abbreviation (input) MSTATUS_SPIE :: u64 where "MSTATUS_SPIE \<equiv> 0x20"
abbreviation (input) MSTATUS_MIE :: u64 where "MSTATUS_MIE \<equiv> 0x8"
abbreviation (input) MSTATUS_MPIE :: u64 where "MSTATUS_MPIE \<equiv> 0x80"
abbreviation (input) MSTATUS_SPP :: u64 where "MSTATUS_SPP \<equiv> 0x100"
abbreviation (input) MSTATUS_MPRV :: u64 where "MSTATUS_MPRV \<equiv> 0x20000"
abbreviation (input) MSTATUS_PUM :: u64 where "MSTATUS_PUM \<equiv> 0x40000"
abbreviation (input) MSTATUS_MPP :: u64 where "MSTATUS_MPP \<equiv> 0x1800"
abbreviation (input) MSTATUS_MXR :: u64 where "MSTATUS_MXR \<equiv> 0x80000"
abbreviation (input) MSTATUS_XS :: u64 where "MSTATUS_XS \<equiv> 0x18000"
abbreviation (input) MSTATUS_VM :: u64 where "MSTATUS_VM \<equiv> 0x1F000000"
abbreviation (input) SSTATUS_SIE :: u64 where "SSTATUS_SIE \<equiv> 0x2"
abbreviation (input) SSTATUS_SPIE :: u64 where "SSTATUS_SPIE \<equiv> 0x20"
abbreviation (input) SSTATUS_SPP :: u64 where "SSTATUS_SPP \<equiv> 0x100"
abbreviation (input) SSTATUS_FS :: u64 where "SSTATUS_FS \<equiv> 0x6000"
abbreviation (input) SSTATUS_XS :: u64 where "SSTATUS_XS \<equiv> 0x18000"
abbreviation (input) SSTATUS_PUM :: u64 where "SSTATUS_PUM \<equiv> 0x40000"
abbreviation (input) CSR_FFLAGS :: u64 where "CSR_FFLAGS \<equiv> 0x1"
abbreviation (input) CSR_FRM :: u64 where "CSR_FRM \<equiv> 0x2"
abbreviation (input) CSR_FCSR :: u64 where "CSR_FCSR \<equiv> 0x3"
abbreviation (input) CSR_MSTATUS :: u64 where "CSR_MSTATUS \<equiv> 0x300"
abbreviation (input) CSR_MIP :: u64 where "CSR_MIP \<equiv> 0x344"
abbreviation (input) CSR_MIE :: u64 where "CSR_MIE \<equiv> 0x304"
abbreviation (input) CSR_MIDELEG :: u64 where "CSR_MIDELEG \<equiv> 0x303"
abbreviation (input) CSR_MEDELEG :: u64 where "CSR_MEDELEG \<equiv> 0x302"
abbreviation (input) CSR_MINSTRET :: u64 where "CSR_MINSTRET \<equiv> 0xB02"
abbreviation (input) CSR_MCYCLE :: u64 where "CSR_MCYCLE \<equiv> 0xB00"
abbreviation (input) CSR_MINSTRETH :: u64 where "CSR_MINSTRETH \<equiv> 0xB82"
abbreviation (input) CSR_MCYCLEH :: u64 where "CSR_MCYCLEH \<equiv> 0xB80"
abbreviation (input) CSR_MUCOUNTEREN :: u64 where "CSR_MUCOUNTEREN \<equiv> 0x320"
abbreviation (input) CSR_MSCOUNTEREN :: u64 where "CSR_MSCOUNTEREN \<equiv> 0x321"
abbreviation (input) CSR_SSTATUS :: u64 where "CSR_SSTATUS \<equiv> 0x100"
abbreviation (input) CSR_SIP :: u64 where "CSR_SIP \<equiv> 0x144"
abbreviation (input) CSR_SIE :: u64 where "CSR_SIE \<equiv> 0x104"
abbreviation (input) CSR_SPTBR :: u64 where "CSR_SPTBR \<equiv> 0x180"
abbreviation (input) CSR_SEPC :: u64 where "CSR_SEPC \<equiv> 0x141"
abbreviation (input) CSR_STVEC :: u64 where "CSR_STVEC \<equiv> 0x105"
abbreviation (input) CSR_SSCRATCH :: u64 where "CSR_SSCRATCH \<equiv> 0x140"
abbreviation (input) CSR_SCAUSE :: u64 where "CSR_SCAUSE \<equiv> 0x142"
abbreviation (input) CSR_SBADADDR :: u64 where "CSR_SBADADDR \<equiv> 0x143"
abbreviation (input) CSR_MEPC :: u64 where "CSR_MEPC \<equiv> 0x341"
abbreviation (input) CSR_MTVEC :: u64 where "CSR_MTVEC \<equiv> 0x305"
abbreviation (input) CSR_MSCRATCH :: u64 where "CSR_MSCRATCH \<equiv> 0x340"
abbreviation (input) CSR_MCAUSE :: u64 where "CSR_MCAUSE \<equiv> 0x342"
abbreviation (input) CSR_MBADADDR :: u64 where "CSR_MBADADDR \<equiv> 0x343"
abbreviation (input) CSR_MISA :: u64 where "CSR_MISA \<equiv> 0x301"
abbreviation (input) CSR_TSELECT :: u64 where "CSR_TSELECT \<equiv> 0x7A0"
abbreviation (input) CSR_TDATA1 :: u64 where "CSR_TDATA1 \<equiv> 0x7A1"
abbreviation (input) CSR_TDATA2 :: u64 where "CSR_TDATA2 \<equiv> 0x7A2"
abbreviation (input) CSR_DCSR :: u64 where "CSR_DCSR \<equiv> 0x7B0"
abbreviation (input) CSR_DPC :: u64 where "CSR_DPC \<equiv> 0x7B1"
abbreviation (input) CSR_DSCRATCH :: u64 where "CSR_DSCRATCH \<equiv> 0x7B2"
abbreviation (input) CAUSE_ILLEGAL_INSTRUCTION :: u64 where "CAUSE_ILLEGAL_INSTRUCTION \<equiv> 0x2"
abbreviation (input) CAUSE_MISALIGNED_FETCH :: u64 where "CAUSE_MISALIGNED_FETCH \<equiv> 0x0"
abbreviation (input) SSTATUS32_SD :: u64 where "SSTATUS32_SD \<equiv> 0x80000000"
abbreviation (input) SSTATUS64_SD :: u64 where "SSTATUS64_SD \<equiv> 0x8000000000000000"
abbreviation (input) CSR_HPMCOUNTER3 :: u64 where "CSR_HPMCOUNTER3 \<equiv> 0xC03"
abbreviation (input) CSR_HPMCOUNTER31 :: u64 where "CSR_HPMCOUNTER31 \<equiv> 0xC1F"
abbreviation (input) CSR_HPMCOUNTER3H :: u64 where "CSR_HPMCOUNTER3H \<equiv> 0xC83"
abbreviation (input) CSR_HPMCOUNTER31H :: u64 where "CSR_HPMCOUNTER31H \<equiv> 0xC9F"
abbreviation (input) CSR_MHPMCOUNTER3 :: u64 where "CSR_MHPMCOUNTER3 \<equiv> 0xB03"
abbreviation (input) CSR_MHPMCOUNTER31 :: u64 where "CSR_MHPMCOUNTER31 \<equiv> 0xB1F"
abbreviation (input) CSR_MHPMEVENT3 :: u64 where "CSR_MHPMEVENT3 \<equiv> 0x323"
abbreviation (input) CSR_MHPMEVENT31 :: u64 where "CSR_MHPMEVENT31 \<equiv> 0x33F"
abbreviation (input) CSR_INSTRET :: u64 where "CSR_INSTRET \<equiv> 0xC02"
abbreviation (input) CSR_CYCLE :: u64 where "CSR_CYCLE \<equiv> 0xC00"
abbreviation (input) CSR_MARCHID :: u64 where "CSR_MARCHID \<equiv> 0xF12"
abbreviation (input) CSR_MIMPID :: u64 where "CSR_MIMPID \<equiv> 0xF13"
abbreviation (input) CSR_MVENDORID :: u64 where "CSR_MVENDORID \<equiv> 0xF11"
abbreviation (input) CSR_MHARTID :: u64 where "CSR_MHARTID \<equiv> 0xF14"
abbreviation (input) CSR_TDATA3 :: u64 where "CSR_TDATA3 \<equiv> 0x7A3"
abbreviation (input) MSTATUS_UIE :: u64 where "MSTATUS_UIE \<equiv> 0x1"
abbreviation (input) CAUSE_BREAKPOINT :: u64 where "CAUSE_BREAKPOINT \<equiv> 0x3"
abbreviation (input) CAUSE_USER_ECALL :: u64 where "CAUSE_USER_ECALL \<equiv> 0x8"
abbreviation (input) CAUSE_SUPERVISOR_ECALL :: u64 where "CAUSE_SUPERVISOR_ECALL \<equiv> 0x9"
abbreviation (input) CAUSE_HYPERVISOR_ECALL :: u64 where "CAUSE_HYPERVISOR_ECALL \<equiv> 0xA"
abbreviation (input) CAUSE_MACHINE_ECALL :: u64 where "CAUSE_MACHINE_ECALL \<equiv> 0xB"

abbreviation (input) PRV_U :: u64 where "PRV_U \<equiv> 0"
abbreviation (input) PRV_S :: u64 where "PRV_S \<equiv> 1"
abbreviation (input) PRV_H :: u64 where "PRV_H \<equiv> 2"
abbreviation (input) PRV_M :: u64 where "PRV_M \<equiv> 3"

abbreviation (input) MIP_SSIP :: u64 where "MIP_SSIP \<equiv> 0x2"
abbreviation (input) MIP_MSIP :: u64 where "MIP_MSIP \<equiv> 0x8"
abbreviation (input) MIP_STIP :: u64 where "MIP_STIP \<equiv> 0x20"
abbreviation (input) MIP_MTIP :: u64 where "MIP_MTIP \<equiv> 0x80"
abbreviation (input) MIP_SEIP :: u64 where "MIP_SEIP \<equiv> 0x200"
abbreviation (input) IRQ_COP_bit :: u64 where "IRQ_COP_bit \<equiv> 0x1000"

subsection \<open>The state\<close>

record dcsr_t =
  dcsr_prv :: u8
  dcsr_step :: bool
  dcsr_ebreakm :: bool
  dcsr_ebreakh :: bool
  dcsr_ebreaks :: bool
  dcsr_ebreaku :: bool
  dcsr_halt :: bool
  dcsr_cause :: u8

record mcontrol_t =
  mc_type :: u8
  mc_dmode :: bool
  mc_maskmax :: u8
  mc_select :: bool
  mc_timing :: bool
  mc_action :: u64
  mc_chain :: bool
  mc_match :: u64
  mc_m :: bool
  mc_h :: bool
  mc_s :: bool
  mc_u :: bool
  mc_execute :: bool
  mc_store :: bool
  mc_load :: bool

datatype step_mode = STEP_NONE | STEP_STEPPING | STEP_STEPPED

record state_t =
  st_pc :: u64
  XPR :: "u64 list"
  FPR :: "u64 list"
  prv :: u64
  mstatus :: u64
  mepc :: u64
  mbadaddr :: u64
  mscratch :: u64
  mtvec :: u64
  mcause :: u64
  minstret :: u64
  mie :: u64
  mip :: u64
  medeleg :: u64
  mideleg :: u64
  mucounteren :: u32
  mscounteren :: u32
  sepc :: u64
  sbadaddr :: u64
  sscratch :: u64
  stvec :: u64
  sptbr :: u64
  scause :: u64
  dpc :: u64
  dscratch :: u64
  dcsr :: dcsr_t
  tselect :: u64
  mcontrol :: "mcontrol_t list"
  tdata2 :: "u64 list"
  fflags :: u32
  frm :: u32
  serialized :: bool
  single_step :: step_mode
  load_reservation :: u64

text \<open>
  The MMU of a hart: the TLB, the instruction cache (each array a function from its index), which kinds of access
  have to look at the triggers, and the trigger that has matched.  A host pointer into target memory is its offset
  from \<^verbatim>\<open>mem\<close>; \<open>fetch_temp_at\<close> stands for the place of the buffer \<^verbatim>\<open>fetch_temp\<close> relative to target memory.  An entry
  of the instruction cache holds the instruction word; the function of the entry is the one \<^verbatim>\<open>decode_insn\<close> gives
  for it.  \<open>tracer\<close> holds what each hooked tracer is interested in and \<open>traced\<close> the accesses handed to them,
  latest first.
\<close>

datatype trigger_operation = OPERATION_EXECUTE | OPERATION_STORE | OPERATION_LOAD

record trigger_matched_t =
  tm_index :: nat
  tm_operation :: trigger_operation
  tm_address :: u64
  tm_data :: u64

record mmu_t =
  tlb_insn_tag :: "u64 \<Rightarrow> u64"
  tlb_load_tag :: "u64 \<Rightarrow> u64"
  tlb_store_tag :: "u64 \<Rightarrow> u64"
  tlb_data :: "u64 \<Rightarrow> u64"
  icache_tag :: "u64 \<Rightarrow> u64"
  icache_data :: "u64 \<Rightarrow> string \<times> u64"
  fetch_temp :: u16
  fetch_temp_at :: u64
  check_triggers_fetch :: bool
  check_triggers_load :: bool
  check_triggers_store :: bool
  matched_trigger :: "trigger_matched_t option"
  tracer :: "(u64 \<Rightarrow> u64 \<Rightarrow> access_type \<Rightarrow> bool) list"
  traced :: "(u64 \<times> nat \<times> access_type) list"

text \<open>\<open>has_ext\<close> says whether an extension is registered; \<open>hart_id\<close> is \<^verbatim>\<open>id\<close> and \<open>proc_debug\<close> is \<^verbatim>\<open>debug\<close>.\<close>

record processor_t =
  state :: state_t
  mmu :: mmu_t
  hart_id :: u32
  max_xlen :: nat
  xlen :: nat
  isa :: u64
  max_isa :: u64
  has_ext :: bool
  halt_on_reset :: bool
  proc_debug :: bool
  opcodes :: decoder

definition flush_icache :: "mmu_t \<Rightarrow> mmu_t" where
  "flush_icache m = m\<lparr>icache_tag := (\<lambda>_. - 1)\<rparr>"

definition flush_tlb :: "mmu_t \<Rightarrow> mmu_t" where
  "flush_tlb m = flush_icache (m\<lparr>tlb_insn_tag := (\<lambda>_. - 1), tlb_load_tag := (\<lambda>_. - 1), tlb_store_tag := (\<lambda>_. - 1)\<rparr>)"

definition mmu_flush_tlb :: "processor_t \<Rightarrow> processor_t" where
  "mmu_flush_tlb p = p\<lparr>mmu := flush_tlb (mmu p)\<rparr>"

definition update_state :: "(state_t \<Rightarrow> state_t) \<Rightarrow> processor_t \<Rightarrow> processor_t" where
  "update_state f p = p\<lparr>state := f (state p)\<rparr>"

definition dcsr_reset :: dcsr_t where
  "dcsr_reset = \<lparr>dcsr_prv = 0, dcsr_step = False, dcsr_ebreakm = False, dcsr_ebreakh = False, dcsr_ebreaks = False,
     dcsr_ebreaku = False, dcsr_halt = False, dcsr_cause = 0\<rparr>"

definition mcontrol_reset :: mcontrol_t where
  "mcontrol_reset = \<lparr>mc_type = 2, mc_dmode = False, mc_maskmax = 0, mc_select = False, mc_timing = False, mc_action = 0,
     mc_chain = False, mc_match = 0, mc_m = False, mc_h = False, mc_s = False, mc_u = False,
     mc_execute = False, mc_store = False, mc_load = False\<rparr>"

definition state_reset :: state_t where
  "state_reset = \<lparr>st_pc = 0x1000, XPR = replicate 32 0, FPR = replicate 32 0, prv = PRV_M, mstatus = 0, mepc = 0,
     mbadaddr = 0, mscratch = 0, mtvec = 0x1010, mcause = 0, minstret = 0, mie = 0, mip = 0, medeleg = 0, mideleg = 0,
     mucounteren = 0, mscounteren = 0, sepc = 0, sbadaddr = 0, sscratch = 0, stvec = 0, sptbr = 0, scause = 0, dpc = 0,
     dscratch = 0, dcsr = dcsr_reset, tselect = 0, mcontrol = replicate 4 mcontrol_reset, tdata2 = replicate 4 0,
     fflags = 0, frm = 0, serialized = False, single_step = STEP_NONE, load_reservation = - 1\<rparr>"

definition supports_extension :: "char \<Rightarrow> processor_t \<Rightarrow> bool" where
  "supports_extension c p =
     (let n = (of_char c :: nat); n = (if 97 \<le> n \<and> n \<le> 122 then n - 32 else n)
      in 65 \<le> n \<and> n \<le> 90 \<and> bit (isa p) (n - 65))"

subsection \<open>Privilege and debug mode\<close>

definition set_privilege :: "u64 \<Rightarrow> processor_t \<Rightarrow> processor_t option" where
  "set_privilege prv' p =
     (if prv' \<le> PRV_M
      then let prv' = (if prv' = PRV_H then PRV_U else prv')
           in Some (update_state (prv_update (\<lambda>_. prv')) (mmu_flush_tlb p))
      else None)"

definition enter_debug_mode :: "u8 \<Rightarrow> processor_t \<Rightarrow> processor_t option" where
  "enter_debug_mode cause p =
     (let p = update_state (\<lambda>s. s\<lparr>dcsr := (dcsr s)\<lparr>dcsr_cause := cause, dcsr_prv := ucast (prv s)\<rparr>\<rparr>) p
      in map_option (update_state (\<lambda>s. s\<lparr>dpc := st_pc s, st_pc := 0x800\<rparr>)) (set_privilege PRV_M p))"

subsection \<open>Writing control and status registers\<close>

definition dirty_fp_state :: "processor_t \<Rightarrow> processor_t" where
  "dirty_fp_state p = update_state (\<lambda>s. s\<lparr>mstatus := mstatus s OR (MSTATUS_FS OR (if xlen p = 64 then MSTATUS64_SD else MSTATUS32_SD))\<rparr>) p"

definition validate_vm :: "nat \<Rightarrow> u64 \<Rightarrow> bool" where
  "validate_vm max_xlen' vm \<longleftrightarrow> max_xlen' = 64 \<and> (vm = 9 \<or> vm = 10) \<or> max_xlen' = 32 \<and> vm = 8 \<or> vm = 0"

definition paddr_bits :: "processor_t \<Rightarrow> nat option" where
  "paddr_bits p = (if xlen p = max_xlen p then Some (if max_xlen p = 64 then 50 else 34) else None)"

definition trigger_updated :: "processor_t \<Rightarrow> processor_t" where
  "trigger_updated p = p\<lparr>mmu := (flush_tlb (mmu p))\<lparr>
     check_triggers_fetch := list_ex mc_execute (mcontrol (state p)),
     check_triggers_load := list_ex mc_load (mcontrol (state p)),
     check_triggers_store := list_ex mc_store (mcontrol (state p))\<rparr>\<rparr>"

abbreviation (input) delegable_ints :: u64 where "delegable_ints \<equiv> MIP_SSIP OR MIP_STIP OR MIP_SEIP OR IRQ_COP_bit"
abbreviation (input) all_ints :: u64 where "all_ints \<equiv> delegable_ints OR MIP_MSIP OR MIP_MTIP"

text \<open>\<open>(old & ~mask) | (val & mask)\<close>.\<close>

definition masked_write :: "u64 \<Rightarrow> u64 \<Rightarrow> u64 \<Rightarrow> u64" where
  "masked_write mask' old val = (old AND NOT mask') OR (val AND mask')"

definition mstatus_mask :: "processor_t \<Rightarrow> u64 \<Rightarrow> u64" where
  "mstatus_mask p val =
     (MSTATUS_SIE OR MSTATUS_SPIE OR MSTATUS_MIE OR MSTATUS_MPIE OR MSTATUS_SPP OR MSTATUS_FS OR MSTATUS_MPRV
      OR MSTATUS_PUM OR MSTATUS_MPP OR MSTATUS_MXR OR (if has_ext p then MSTATUS_XS else 0))
     OR (if validate_vm (max_xlen p) (get_field val MSTATUS_VM) then MSTATUS_VM else 0)"

definition mstatus_SD :: "processor_t \<Rightarrow> u64" where
  "mstatus_SD p = (if max_xlen p = 32 then MSTATUS32_SD else MSTATUS64_SD)"

text \<open>The case \<^verbatim>\<open>CSR_MSTATUS\<close>.\<close>

definition set_mstatus :: "u64 \<Rightarrow> processor_t \<Rightarrow> processor_t" where
  "set_mstatus val p =
     (let val = zext_xlen (xlen p) val;
          old = mstatus (state p);
          p' = (if (val XOR old) AND (MSTATUS_VM OR MSTATUS_MPP OR MSTATUS_MPRV OR MSTATUS_PUM OR MSTATUS_MXR) \<noteq> 0
                then mmu_flush_tlb p else p);
          new = masked_write (mstatus_mask p val) old val;
          dirty = (new AND MSTATUS_FS = MSTATUS_FS \<or> new AND MSTATUS_XS = MSTATUS_XS);
          new = set_field new (mstatus_SD p) (of_bool dirty)
      in update_state (\<lambda>s. s\<lparr>mstatus := new\<rparr>) (p'\<lparr>xlen := max_xlen p\<rparr>))"

text \<open>The cases \<^verbatim>\<open>CSR_MIP\<close> and \<^verbatim>\<open>CSR_MIE\<close>.\<close>

definition set_mip :: "u64 \<Rightarrow> processor_t \<Rightarrow> processor_t" where
  "set_mip val p = update_state (\<lambda>s. s\<lparr>mip := masked_write (MIP_SSIP OR MIP_STIP) (mip s) (zext_xlen (xlen p) val)\<rparr>) p"

definition set_mie :: "u64 \<Rightarrow> processor_t \<Rightarrow> processor_t" where
  "set_mie val p = update_state (\<lambda>s. s\<lparr>mie := masked_write all_ints (mie s) (zext_xlen (xlen p) val)\<rparr>) p"

definition sstatus_mask :: u64 where
  "sstatus_mask = SSTATUS_SIE OR SSTATUS_SPIE OR SSTATUS_SPP OR SSTATUS_FS OR SSTATUS_XS OR SSTATUS_PUM"

text \<open>The bits of the causes \<^verbatim>\<open>DECLARE_CAUSE\<close> declares, 0 to 11.\<close>

definition medeleg_mask :: u64 where "medeleg_mask = 0xFFF"

definition misa_mask :: "processor_t \<Rightarrow> u64" where
  "misa_mask p = (0x1000 OR 0x1 OR 0x20 OR 0x8 OR 0x4) AND max_isa p"

definition set_misa :: "u64 \<Rightarrow> processor_t \<Rightarrow> processor_t" where
  "set_misa val p =
     (let val = (if val AND 0x20 = 0 then val AND NOT 0x8 else val)
      in p\<lparr>isa := (val AND misa_mask p) OR (isa p AND NOT (misa_mask p))\<rparr>)"

definition write_mcontrol :: "nat \<Rightarrow> u64 \<Rightarrow> mcontrol_t \<Rightarrow> mcontrol_t" where
  "write_mcontrol xlen' val mc =
     (let exec = get_field val 0x4 \<noteq> 0
      in mc\<lparr>mc_dmode := get_field val (push_bit (xlen' - 5) 1) \<noteq> 0,
            mc_select := get_field val 0x80000 \<noteq> 0,
            mc_timing := (if exec then False else get_field val 0x40000 \<noteq> 0),
            mc_action := get_field val 0x3F000,
            mc_chain := get_field val 0x800 \<noteq> 0,
            mc_match := get_field val 0x780,
            mc_m := get_field val 0x40 \<noteq> 0,
            mc_h := get_field val 0x20 \<noteq> 0,
            mc_s := get_field val 0x10 \<noteq> 0,
            mc_u := get_field val 0x8 \<noteq> 0,
            mc_execute := exec,
            mc_store := get_field val 0x2 \<noteq> 0,
            mc_load := get_field val 0x1 \<noteq> 0\<rparr>)"

definition set_tdata1 :: "u64 \<Rightarrow> processor_t \<Rightarrow> processor_t" where
  "set_tdata1 val p =
     (let s = state p; i = unat (tselect s); mc = mcontrol s ! i
      in if mc_dmode mc \<and> dcsr_cause (dcsr s) = 0 then p
         else trigger_updated (update_state (\<lambda>s. s\<lparr>mcontrol := (mcontrol s)[i := write_mcontrol (xlen p) val mc]\<rparr>) p))"

definition set_tdata2 :: "u64 \<Rightarrow> processor_t \<Rightarrow> processor_t" where
  "set_tdata2 val p =
     (let s = state p; i = unat (tselect s)
      in if mc_dmode (mcontrol s ! i) \<and> dcsr_cause (dcsr s) = 0 then p
         else if tselect s < 4 then update_state (\<lambda>s. s\<lparr>tdata2 := (tdata2 s)[i := val]\<rparr>) p
         else p)"

definition write_dcsr :: "u64 \<Rightarrow> dcsr_t \<Rightarrow> dcsr_t" where
  "write_dcsr val d =
     d\<lparr>dcsr_prv := ucast (get_field val 0x3), dcsr_step := get_field val 0x4 \<noteq> 0,
       dcsr_ebreakm := get_field val 0x8000 \<noteq> 0, dcsr_ebreakh := get_field val 0x4000 \<noteq> 0,
       dcsr_ebreaks := get_field val 0x2000 \<noteq> 0, dcsr_ebreaku := get_field val 0x1000 \<noteq> 0,
       dcsr_halt := get_field val 0x8 \<noteq> 0\<rparr>"

text \<open>\<^verbatim>\<open>set_csr\<close>; a number that no case has is ignored.\<close>

definition set_csr :: "u64 \<Rightarrow> u64 \<Rightarrow> processor_t \<Rightarrow> processor_t option" where
  "set_csr which val0 p =
     (let val = zext_xlen (xlen p) val0; upd = (\<lambda>f. Some (update_state f p)); s = state p
      in if which = CSR_FFLAGS then Some (update_state (\<lambda>s. s\<lparr>fflags := ucast (val AND 0x1F)\<rparr>) (dirty_fp_state p))
         else if which = CSR_FRM then Some (update_state (\<lambda>s. s\<lparr>frm := ucast (val AND 0x7)\<rparr>) (dirty_fp_state p))
         else if which = CSR_FCSR
         then Some (update_state (\<lambda>s. s\<lparr>fflags := ucast (val AND 0x1F), frm := ucast (drop_bit 5 (val AND 0xE0))\<rparr>) (dirty_fp_state p))
         else if which = CSR_MSTATUS then Some (set_mstatus val p)
         else if which = CSR_MIP then Some (set_mip val p)
         else if which = CSR_MIE then Some (set_mie val p)
         else if which = CSR_MIDELEG then upd (\<lambda>s. s\<lparr>mideleg := masked_write delegable_ints (mideleg s) val\<rparr>)
         else if which = CSR_MEDELEG then upd (\<lambda>s. s\<lparr>medeleg := masked_write medeleg_mask (medeleg s) val\<rparr>)
         else if which = CSR_MINSTRET \<or> which = CSR_MCYCLE
         then upd (\<lambda>s. s\<lparr>minstret := if xlen p = 32 then push_bit 32 (drop_bit 32 (minstret s)) OR (val AND 0xFFFFFFFF) else val\<rparr>)
         else if which = CSR_MINSTRETH \<or> which = CSR_MCYCLEH
         then upd (\<lambda>s. s\<lparr>minstret := push_bit 32 val OR drop_bit 32 (push_bit 32 (minstret s))\<rparr>)
         else if which = CSR_MUCOUNTEREN then upd (\<lambda>s. s\<lparr>mucounteren := ucast val\<rparr>)
         else if which = CSR_MSCOUNTEREN then upd (\<lambda>s. s\<lparr>mscounteren := ucast val\<rparr>)
         else if which = CSR_SSTATUS then Some (set_mstatus (masked_write sstatus_mask (mstatus s) val) p)
         else if which = CSR_SIP then Some (set_mip (masked_write (MIP_SSIP AND mideleg s) (mip s) val) p)
         else if which = CSR_SIE then Some (set_mie (masked_write (mideleg s) (mie s) val) p)
         else if which = CSR_SPTBR
         then map_option (\<lambda>n. update_state (\<lambda>s. s\<lparr>sptbr := val AND (push_bit (n - 12) 1 - 1)\<rparr>) p) (paddr_bits p)
         else if which = CSR_SEPC then upd (\<lambda>s. s\<lparr>sepc := val\<rparr>)
         else if which = CSR_STVEC then upd (\<lambda>s. s\<lparr>stvec := push_bit 2 (drop_bit 2 val)\<rparr>)
         else if which = CSR_SSCRATCH then upd (\<lambda>s. s\<lparr>sscratch := val\<rparr>)
         else if which = CSR_SCAUSE then upd (\<lambda>s. s\<lparr>scause := val\<rparr>)
         else if which = CSR_SBADADDR then upd (\<lambda>s. s\<lparr>sbadaddr := val\<rparr>)
         else if which = CSR_MEPC then upd (\<lambda>s. s\<lparr>mepc := val\<rparr>)
         else if which = CSR_MTVEC then upd (\<lambda>s. s\<lparr>mtvec := push_bit 2 (drop_bit 2 val)\<rparr>)
         else if which = CSR_MSCRATCH then upd (\<lambda>s. s\<lparr>mscratch := val\<rparr>)
         else if which = CSR_MCAUSE then upd (\<lambda>s. s\<lparr>mcause := val\<rparr>)
         else if which = CSR_MBADADDR then upd (\<lambda>s. s\<lparr>mbadaddr := val\<rparr>)
         else if which = CSR_MISA then Some (set_misa val p)
         else if which = CSR_TSELECT then (if val < 4 then upd (\<lambda>s. s\<lparr>tselect := val\<rparr>) else Some p)
         else if which = CSR_TDATA1 then Some (set_tdata1 val p)
         else if which = CSR_TDATA2 then Some (set_tdata2 val p)
         else if which = CSR_DCSR then upd (\<lambda>s. s\<lparr>dcsr := write_dcsr val (dcsr s)\<rparr>)
         else if which = CSR_DPC then upd (\<lambda>s. s\<lparr>dpc := val\<rparr>)
         else if which = CSR_DSCRATCH then upd (\<lambda>s. s\<lparr>dscratch := val\<rparr>)
         else Some p)"

definition reset :: "processor_t \<Rightarrow> processor_t" where
  "reset p =
     (let s = state_reset\<lparr>dcsr := dcsr_reset\<lparr>dcsr_halt := halt_on_reset p\<rparr>\<rparr>;
          p = p\<lparr>state := s, halt_on_reset := False\<rparr>
      in set_mstatus (mstatus s) p)"

subsection \<open>Reading control and status registers\<close>

record trap_t =
  trap_cause :: u64
  trap_badaddr :: "u64 option"

definition trap_illegal_instruction :: trap_t where
  "trap_illegal_instruction = \<lparr>trap_cause = CAUSE_ILLEGAL_INSTRUCTION, trap_badaddr = None\<rparr>"

definition trap_instruction_address_misaligned :: "u64 \<Rightarrow> trap_t" where
  "trap_instruction_address_misaligned addr = \<lparr>trap_cause = CAUSE_MISALIGNED_FETCH, trap_badaddr = Some addr\<rparr>"

definition read_mcontrol :: "nat \<Rightarrow> mcontrol_t \<Rightarrow> u64" where
  "read_mcontrol xlen' mc =
     (let v = set_field 0 (push_bit (xlen' - 4) 0xF) (ucast (mc_type mc));
          v = set_field v (push_bit (xlen' - 5) 1) (of_bool (mc_dmode mc));
          v = set_field v (push_bit (xlen' - 11) 0x3F) (ucast (mc_maskmax mc));
          v = set_field v 0x80000 (of_bool (mc_select mc));
          v = set_field v 0x40000 (of_bool (mc_timing mc));
          v = set_field v 0x3F000 (mc_action mc);
          v = set_field v 0x800 (of_bool (mc_chain mc));
          v = set_field v 0x780 (mc_match mc);
          v = set_field v 0x40 (of_bool (mc_m mc));
          v = set_field v 0x20 (of_bool (mc_h mc));
          v = set_field v 0x10 (of_bool (mc_s mc));
          v = set_field v 0x8 (of_bool (mc_u mc));
          v = set_field v 0x4 (of_bool (mc_execute mc));
          v = set_field v 0x2 (of_bool (mc_store mc))
      in set_field v 0x1 (of_bool (mc_load mc)))"

text \<open>\<open>debugint\<close> is \<^verbatim>\<open>sim->debug_module.get_interrupt(id)\<close>.\<close>

definition read_dcsr :: "bool \<Rightarrow> dcsr_t \<Rightarrow> u64" where
  "read_dcsr debugint d =
     (let v = set_field 0 0xC0000000 1;
          v = set_field v 0x20000000 0;
          v = set_field v 0x10000000 0;
          v = set_field v 0x3 (ucast (dcsr_prv d));
          v = set_field v 0x4 (of_bool (dcsr_step d));
          v = set_field v 0x20 (of_bool debugint);
          v = set_field v 0x400 0;
          v = set_field v 0x200 0;
          v = set_field v 0x8000 (of_bool (dcsr_ebreakm d));
          v = set_field v 0x4000 (of_bool (dcsr_ebreakh d));
          v = set_field v 0x2000 (of_bool (dcsr_ebreaks d));
          v = set_field v 0x1000 (of_bool (dcsr_ebreaku d));
          v = set_field v 0x8 (of_bool (dcsr_halt d))
      in set_field v 0x1C0 (ucast (dcsr_cause d)))"

definition read_sstatus :: "processor_t \<Rightarrow> u64" where
  "read_sstatus p =
     (let sstatus = mstatus (state p) AND sstatus_mask
      in if sstatus AND SSTATUS_FS = SSTATUS_FS \<or> sstatus AND SSTATUS_XS = SSTATUS_XS
         then sstatus OR (if xlen p = 32 then SSTATUS32_SD else SSTATUS64_SD) else sstatus)"

definition get_csr :: "bool \<Rightarrow> u64 \<Rightarrow> processor_t \<Rightarrow> trap_t + u64" where
  "get_csr debugint which p =
     (let s = state p;
          ctr_en = (if prv s = PRV_U then ucast (mucounteren s) else if prv s = PRV_S then ucast (mscounteren s) else 0xFFFFFFFF) :: u64;
          ctr_ok = bit ctr_en (unat (which AND 31));
          illegal = Inl trap_illegal_instruction;
          fp = (\<lambda>v. if mstatus s AND MSTATUS_FS = 0 then illegal else if supports_extension CHR ''F'' p then Inr v else illegal)
      in if ctr_ok \<and> CSR_HPMCOUNTER3 \<le> which \<and> which \<le> CSR_HPMCOUNTER31 then Inr 0
         else if ctr_ok \<and> xlen p = 32 \<and> CSR_HPMCOUNTER3H \<le> which \<and> which \<le> CSR_HPMCOUNTER31H then Inr 0
         else if CSR_MHPMCOUNTER3 \<le> which \<and> which \<le> CSR_MHPMCOUNTER31 then Inr 0
         else if xlen p = 32 \<and> CSR_MHPMCOUNTER3 \<le> which \<and> which \<le> CSR_MHPMCOUNTER31 then Inr 0
         else if CSR_MHPMEVENT3 \<le> which \<and> which \<le> CSR_MHPMEVENT31 then Inr 0
         else if which = CSR_FFLAGS then fp (ucast (fflags s))
         else if which = CSR_FRM then fp (ucast (frm s))
         else if which = CSR_FCSR then fp (ucast (fflags s OR push_bit 5 (frm s)))
         else if which = CSR_INSTRET \<or> which = CSR_CYCLE then (if ctr_ok then Inr (minstret s) else illegal)
         else if which = CSR_MINSTRET \<or> which = CSR_MCYCLE then Inr (minstret s)
         else if which = CSR_MINSTRETH \<or> which = CSR_MCYCLEH then (if xlen p = 32 then Inr (drop_bit 32 (minstret s)) else illegal)
         else if which = CSR_MUCOUNTEREN then Inr (ucast (mucounteren s))
         else if which = CSR_MSCOUNTEREN then Inr (ucast (mscounteren s))
         else if which = CSR_SSTATUS then Inr (read_sstatus p)
         else if which = CSR_SIP then Inr (mip s AND mideleg s)
         else if which = CSR_SIE then Inr (mie s AND mideleg s)
         else if which = CSR_SEPC then Inr (sepc s)
         else if which = CSR_SBADADDR then Inr (sbadaddr s)
         else if which = CSR_STVEC then Inr (stvec s)
         else if which = CSR_SCAUSE
         then Inr (if xlen p < max_xlen p then scause s OR push_bit (xlen p - 1) (drop_bit (max_xlen p - 1) (scause s)) else scause s)
         else if which = CSR_SPTBR then Inr (sptbr s)
         else if which = CSR_SSCRATCH then Inr (sscratch s)
         else if which = CSR_MSTATUS then Inr (mstatus s)
         else if which = CSR_MIP then Inr (mip s)
         else if which = CSR_MIE then Inr (mie s)
         else if which = CSR_MEPC then Inr (mepc s)
         else if which = CSR_MSCRATCH then Inr (mscratch s)
         else if which = CSR_MCAUSE then Inr (mcause s)
         else if which = CSR_MBADADDR then Inr (mbadaddr s)
         else if which = CSR_MISA then Inr (isa p)
         else if which = CSR_MARCHID \<or> which = CSR_MIMPID \<or> which = CSR_MVENDORID then Inr 0
         else if which = CSR_MHARTID then Inr (ucast (hart_id p))
         else if which = CSR_MTVEC then Inr (mtvec s)
         else if which = CSR_MEDELEG then Inr (medeleg s)
         else if which = CSR_MIDELEG then Inr (mideleg s)
         else if which = CSR_TSELECT then Inr (tselect s)
         else if which = CSR_TDATA1 then Inr (if tselect s < 4 then read_mcontrol (xlen p) (mcontrol s ! unat (tselect s)) else 0)
         else if which = CSR_TDATA2 then Inr (if tselect s < 4 then tdata2 s ! unat (tselect s) else 0)
         else if which = CSR_TDATA3 then Inr 0
         else if which = CSR_DCSR then Inr (read_dcsr debugint (dcsr s))
         else if which = CSR_DPC then Inr (dpc s)
         else if which = CSR_DSCRATCH then Inr (dscratch s)
         else illegal)"

subsection \<open>Interrupts and traps\<close>

function ctz :: "u64 \<Rightarrow> nat" where
  "ctz val = (if val \<noteq> 0 \<and> val AND 1 = 0 then Suc (ctz (drop_bit 1 val)) else 0)"
  by pat_completeness auto
termination
proof (relation "measure unat")
  fix val :: u64
  assume "val \<noteq> 0 \<and> val AND 1 = 0"
  then have "0 < unat val" by (simp add: unat_gt_0)
  then show "(drop_bit 1 val, val) \<in> measure unat" by (simp add: unat_shr)
qed simp

declare ctz.simps [simp del]

definition interrupt_trap :: "u64 \<Rightarrow> processor_t \<Rightarrow> trap_t" where
  "interrupt_trap which p = \<lparr>trap_cause = push_bit (max_xlen p - 1) 1 OR which, trap_badaddr = None\<rparr>"

text \<open>The trap \<^verbatim>\<open>take_interrupt\<close> throws, if any.\<close>

definition take_interrupt :: "processor_t \<Rightarrow> trap_t option" where
  "take_interrupt p =
     (let s = state p;
          pending = mip s AND mie s;
          m_enabled = of_bool (prv s < PRV_M \<or> prv s = PRV_M \<and> get_field (mstatus s) MSTATUS_MIE \<noteq> 0) :: u64;
          enabled = pending AND NOT (mideleg s) AND - m_enabled;
          s_enabled = of_bool (prv s < PRV_S \<or> prv s = PRV_S \<and> get_field (mstatus s) MSTATUS_SIE \<noteq> 0) :: u64;
          enabled = enabled OR (pending AND mideleg s AND - s_enabled)
      in if enabled \<noteq> 0 then Some (interrupt_trap (of_nat (ctz enabled)) p) else None)"

definition yield_load_reservation :: "processor_t \<Rightarrow> processor_t" where
  "yield_load_reservation = update_state (\<lambda>s. s\<lparr>load_reservation := - 1\<rparr>)"

definition delegated :: "trap_t \<Rightarrow> processor_t \<Rightarrow> bool" where
  "delegated t p =
     (let s = state p; top = push_bit (max_xlen p - 1) 1; interrupt = (trap_cause t AND top \<noteq> 0);
          deleg = (if interrupt then mideleg s else medeleg s);
          n = (if interrupt then trap_cause t AND NOT top else trap_cause t)
      in prv s \<le> PRV_S \<and> n < of_nat (max_xlen p) \<and> bit deleg (unat n))"

definition trap_to_S :: "trap_t \<Rightarrow> u64 \<Rightarrow> processor_t \<Rightarrow> processor_t option" where
  "trap_to_S t epc p =
     (let p = update_state (\<lambda>s. s\<lparr>st_pc := stvec s, scause := trap_cause t, sepc := epc,
                sbadaddr := (case trap_badaddr t of Some a \<Rightarrow> a | None \<Rightarrow> sbadaddr s)\<rparr>) p;
          m = mstatus (state p); old_prv = prv (state p);
          m = set_field m MSTATUS_SPIE (get_field m (push_bit (unat old_prv) MSTATUS_UIE));
          m = set_field m MSTATUS_SPP old_prv;
          m = set_field m MSTATUS_SIE 0
      in set_privilege PRV_S (set_mstatus m p))"

definition trap_to_M :: "trap_t \<Rightarrow> u64 \<Rightarrow> processor_t \<Rightarrow> processor_t option" where
  "trap_to_M t epc p =
     (let p = update_state (\<lambda>s. s\<lparr>st_pc := mtvec s, mepc := epc, mcause := trap_cause t,
                mbadaddr := (case trap_badaddr t of Some a \<Rightarrow> a | None \<Rightarrow> mbadaddr s)\<rparr>) p;
          m = mstatus (state p); old_prv = prv (state p);
          m = set_field m MSTATUS_MPIE (get_field m (push_bit (unat old_prv) MSTATUS_UIE));
          m = set_field m MSTATUS_MPP old_prv;
          m = set_field m MSTATUS_MIE 0
      in set_privilege PRV_M (set_mstatus m p))"

definition ebreak_to_debug :: "state_t \<Rightarrow> bool" where
  "ebreak_to_debug s \<longleftrightarrow> prv s = PRV_M \<and> dcsr_ebreakm (dcsr s) \<or> prv s = PRV_H \<and> dcsr_ebreakh (dcsr s) \<or>
     prv s = PRV_S \<and> dcsr_ebreaks (dcsr s) \<or> prv s = PRV_U \<and> dcsr_ebreaku (dcsr s)"

definition take_trap :: "trap_t \<Rightarrow> u64 \<Rightarrow> processor_t \<Rightarrow> processor_t option" where
  "take_trap t epc p =
     (if trap_cause t = CAUSE_BREAKPOINT \<and> ebreak_to_debug (state p) then enter_debug_mode 1 p
      else if dcsr_cause (dcsr (state p)) \<noteq> 0 then Some (update_state (\<lambda>s. s\<lparr>st_pc := 0x808\<rparr>) p)
      else map_option yield_load_reservation (if delegated t p then trap_to_S t epc p else trap_to_M t epc p))"

subsection \<open>The interprocessor interrupt\<close>

text \<open>\<^verbatim>\<open>processor_t::store\<close>, the software interrupt as a device register; \<open>None\<close> when it returns false.\<close>

definition processor_store :: "u64 \<Rightarrow> u8 list \<Rightarrow> processor_t \<Rightarrow> processor_t option" where
  "processor_store addr bytes p =
     (if addr = 0
      then Some (update_state (\<lambda>s. s\<lparr>mip := (mip s AND NOT MIP_MSIP) OR (if bytes ! 0 AND 1 \<noteq> 0 then MIP_MSIP else 0)\<rparr>) p)
      else None)"

subsection \<open>Hardware triggers\<close>

function cto :: "u64 \<Rightarrow> nat" where
  "cto val = (if val AND 1 = 1 then Suc (cto (drop_bit 1 val)) else 0)"
  by pat_completeness auto
termination
proof (relation "measure unat")
  fix val :: u64
  assume "val AND 1 = 1"
  then have "val \<noteq> 0" by auto
  then have "0 < unat val" by (simp add: unat_gt_0)
  then show "(drop_bit 1 val, val) \<in> measure unat" by (simp add: unat_shr)
qed simp

declare cto.simps [simp del]

definition trigger_skipped :: "trigger_operation \<Rightarrow> u64 \<Rightarrow> mcontrol_t \<Rightarrow> bool" where
  "trigger_skipped operation prv' mc \<longleftrightarrow>
     operation = OPERATION_EXECUTE \<and> \<not> mc_execute mc \<or> operation = OPERATION_STORE \<and> \<not> mc_store mc \<or>
     operation = OPERATION_LOAD \<and> \<not> mc_load mc \<or> prv' = PRV_M \<and> \<not> mc_m mc \<or> prv' = PRV_H \<and> \<not> mc_h mc \<or>
     prv' = PRV_S \<and> \<not> mc_s mc \<or> prv' = PRV_U \<and> \<not> mc_u mc"

text \<open>
  The comparison; \<open>None\<close> when the shift \<^verbatim>\<open>1 << cto(tdata2)\<close> of an \<^verbatim>\<open>int\<close> is undefined.  A match type that no case has
  counts as a match.
\<close>

definition trigger_compare :: "nat \<Rightarrow> mcontrol_t \<Rightarrow> u64 \<Rightarrow> u64 \<Rightarrow> bool option" where
  "trigger_compare xlen' mc td value =
     (if mc_match mc = 0 then Some (value = td)
      else if mc_match mc = 1
      then (if 31 \<le> cto td then None
            else let mask' = NOT (push_bit (cto td) 1 - 1) in Some (value AND mask' = td AND mask'))
      else if mc_match mc = 2 then Some (td \<le> value)
      else if mc_match mc = 3 then Some (value < td)
      else if mc_match mc = 4
      then (let mask' = drop_bit (xlen' div 2) td in Some (value AND mask' = td AND mask'))
      else if mc_match mc = 5
      then (let mask' = drop_bit (xlen' div 2) td in Some (drop_bit (xlen' div 2) value AND mask' = td AND mask'))
      else Some True)"

fun trigger_loop :: "trigger_operation \<Rightarrow> u64 \<Rightarrow> u64 \<Rightarrow> u64 \<Rightarrow> nat \<Rightarrow> nat \<Rightarrow> bool \<Rightarrow> (mcontrol_t \<times> u64) list \<Rightarrow> nat option option" where
  "trigger_loop operation address data prv' xlen' i chain_ok [] = Some None"
| "trigger_loop operation address data prv' xlen' i chain_ok ((mc, td) # l) =
     (if \<not> chain_ok then trigger_loop operation address data prv' xlen' (Suc i) (chain_ok \<or> \<not> mc_chain mc) l
      else if trigger_skipped operation prv' mc then trigger_loop operation address data prv' xlen' (Suc i) chain_ok l
      else let value = (if mc_select mc then data else address);
               value = (if xlen' = 32 then value AND 0xFFFFFFFF else value)
           in case trigger_compare xlen' mc td value of
                None \<Rightarrow> None
              | Some False \<Rightarrow> trigger_loop operation address data prv' xlen' (Suc i) chain_ok l
              | Some True \<Rightarrow> if \<not> mc_chain mc then Some (Some i)
                             else trigger_loop operation address data prv' xlen' (Suc i) True l)"

text \<open>The index of the trigger that matched, \<open>Some None\<close> for the result -1.\<close>

definition trigger_match :: "trigger_operation \<Rightarrow> u64 \<Rightarrow> u64 \<Rightarrow> processor_t \<Rightarrow> nat option option" where
  "trigger_match operation address data p =
     (if dcsr_cause (dcsr (state p)) \<noteq> 0 then Some None
      else trigger_loop operation address data (prv (state p)) (xlen p) 0 True (zip (mcontrol (state p)) (tdata2 (state p))))"

subsection \<open>Privileged instructions\<close>

text \<open>What an instruction does: return the next pc, throw a trap, or abort.\<close>

datatype outcome = Done u64 processor_t | Raise trap_t processor_t | Abort

abbreviation (input) PC_SERIALIZE_BEFORE :: u64 where "PC_SERIALIZE_BEFORE \<equiv> 3"
abbreviation (input) PC_SERIALIZE_AFTER :: u64 where "PC_SERIALIZE_AFTER \<equiv> 5"

definition require_privilege :: "u64 \<Rightarrow> (processor_t \<Rightarrow> outcome) \<Rightarrow> processor_t \<Rightarrow> outcome" where
  "require_privilege prv' k p = (if prv' \<le> prv (state p) then k p else Raise trap_illegal_instruction p)"

definition set_pc_and_serialize :: "u64 \<Rightarrow> (processor_t \<Rightarrow> outcome) \<Rightarrow> processor_t \<Rightarrow> outcome" where
  "set_pc_and_serialize x k p =
     (if x AND 2 \<noteq> 0 \<and> \<not> supports_extension CHR ''C'' p then Raise (trap_instruction_address_misaligned x) p
      else k (update_state (\<lambda>s. s\<lparr>st_pc := x\<rparr>) p))"

text \<open>The end of an instruction that returns \<^verbatim>\<open>PC_SERIALIZE_AFTER\<close>.\<close>

definition serialize_after :: "processor_t option \<Rightarrow> outcome" where
  "serialize_after r = (case r of Some p \<Rightarrow> Done PC_SERIALIZE_AFTER p | None \<Rightarrow> Abort)"

definition insn_mret :: "processor_t \<Rightarrow> outcome" where
  "insn_mret = require_privilege PRV_M (\<lambda>p. set_pc_and_serialize (mepc (state p)) (\<lambda>p.
     let m = mstatus (state p);
         prev_prv = get_field m MSTATUS_MPP;
         m = set_field m (push_bit (unat prev_prv) MSTATUS_UIE) (get_field m MSTATUS_MPIE);
         m = set_field m MSTATUS_MPIE 0;
         m = set_field m MSTATUS_MPP PRV_U
     in serialize_after (map_option (set_mstatus m) (set_privilege prev_prv p))) p)"

definition insn_sret :: "processor_t \<Rightarrow> outcome" where
  "insn_sret = require_privilege PRV_S (\<lambda>p. set_pc_and_serialize (sepc (state p)) (\<lambda>p.
     let m = mstatus (state p);
         prev_prv = get_field m MSTATUS_SPP;
         m = set_field m (push_bit (unat prev_prv) MSTATUS_UIE) (get_field m MSTATUS_SPIE);
         m = set_field m MSTATUS_SPIE 0;
         m = set_field m MSTATUS_SPP PRV_U
     in serialize_after (map_option (set_mstatus m) (set_privilege prev_prv p))) p)"

definition insn_dret :: "processor_t \<Rightarrow> outcome" where
  "insn_dret = require_privilege PRV_M (\<lambda>p. set_pc_and_serialize (dpc (state p)) (\<lambda>p.
     serialize_after (map_option (update_state (\<lambda>s. s\<lparr>dcsr := (dcsr s)\<lparr>dcsr_cause := 0\<rparr>,
         single_step := (if dcsr_step (dcsr s) then STEP_STEPPING else single_step s)\<rparr>))
       (set_privilege (ucast (dcsr_prv (dcsr (state p)))) p))) p)"

definition insn_ecall :: "processor_t \<Rightarrow> outcome" where
  "insn_ecall p =
     (let t = (\<lambda>c. Raise \<lparr>trap_cause = c, trap_badaddr = None\<rparr> p)
      in if prv (state p) = PRV_U then t CAUSE_USER_ECALL
         else if prv (state p) = PRV_S then t CAUSE_SUPERVISOR_ECALL
         else if prv (state p) = PRV_H then t CAUSE_HYPERVISOR_ECALL
         else t CAUSE_MACHINE_ECALL)"

definition insn_ebreak :: "processor_t \<Rightarrow> outcome" where
  "insn_ebreak p = Raise \<lparr>trap_cause = CAUSE_BREAKPOINT, trap_badaddr = None\<rparr> p"

definition insn_sfence_vm :: "u64 \<Rightarrow> processor_t \<Rightarrow> outcome" where
  "insn_sfence_vm npc = require_privilege PRV_S (\<lambda>p. Done npc (mmu_flush_tlb p))"

text \<open>\<^verbatim>\<open>validate_csr\<close>: the body runs once the simulator has serialized.\<close>

definition validate_csr :: "u64 \<Rightarrow> bool \<Rightarrow> (processor_t \<Rightarrow> outcome) \<Rightarrow> processor_t \<Rightarrow> outcome" where
  "validate_csr which write k p =
     (if \<not> serialized (state p) then Done PC_SERIALIZE_BEFORE p
      else let p = update_state (\<lambda>s. s\<lparr>serialized := False\<rparr>) p;
               csr_priv = get_field which 0x300;
               csr_read_only = (get_field which 0xC00 = 3)
           in if write \<and> csr_read_only \<or> prv (state p) < csr_priv then Raise trap_illegal_instruction p else k p)"

definition read_reg :: "u64 \<Rightarrow> processor_t \<Rightarrow> u64" where
  "read_reg r p = XPR (state p) ! unat r"

definition write_reg :: "u64 \<Rightarrow> u64 \<Rightarrow> processor_t \<Rightarrow> processor_t" where
  "write_reg r v = update_state (\<lambda>s. s\<lparr>XPR := regfile_write True r v (XPR s)\<rparr>)"

text \<open>
  The six CSR instructions; \<open>f old\<close> is the value they write, if they write.  \<open>npc\<close> is the address of the next
  instruction and \<open>xl\<close> the width the function was compiled for.
\<close>

definition csr_insn :: "bool \<Rightarrow> nat \<Rightarrow> u64 \<Rightarrow> u64 \<Rightarrow> bool \<Rightarrow> (u64 \<Rightarrow> u64) \<Rightarrow> processor_t \<Rightarrow> outcome" where
  "csr_insn debugint xl npc b write f = validate_csr (csr b) write (\<lambda>p.
     case get_csr debugint (csr b) p of
       Inl t \<Rightarrow> Raise t p
     | Inr old \<Rightarrow> (case (if write then set_csr (csr b) (f old) p else Some p) of
         None \<Rightarrow> Abort | Some p \<Rightarrow> Done npc (write_reg (rd b) (sext_xlen xl old) p)))"

definition insn_csrrw :: "bool \<Rightarrow> nat \<Rightarrow> u64 \<Rightarrow> u64 \<Rightarrow> processor_t \<Rightarrow> outcome" where
  "insn_csrrw dbg xl npc b p = csr_insn dbg xl npc b True (\<lambda>old. read_reg (rs1 b) p) p"
definition insn_csrrs :: "bool \<Rightarrow> nat \<Rightarrow> u64 \<Rightarrow> u64 \<Rightarrow> processor_t \<Rightarrow> outcome" where
  "insn_csrrs dbg xl npc b p = csr_insn dbg xl npc b (rs1 b \<noteq> 0) (\<lambda>old. old OR read_reg (rs1 b) p) p"
definition insn_csrrc :: "bool \<Rightarrow> nat \<Rightarrow> u64 \<Rightarrow> u64 \<Rightarrow> processor_t \<Rightarrow> outcome" where
  "insn_csrrc dbg xl npc b p = csr_insn dbg xl npc b (rs1 b \<noteq> 0) (\<lambda>old. old AND NOT (read_reg (rs1 b) p)) p"
definition insn_csrrwi :: "bool \<Rightarrow> nat \<Rightarrow> u64 \<Rightarrow> u64 \<Rightarrow> processor_t \<Rightarrow> outcome" where
  "insn_csrrwi dbg xl npc b p = csr_insn dbg xl npc b True (\<lambda>old. rs1 b) p"
definition insn_csrrsi :: "bool \<Rightarrow> nat \<Rightarrow> u64 \<Rightarrow> u64 \<Rightarrow> processor_t \<Rightarrow> outcome" where
  "insn_csrrsi dbg xl npc b p = csr_insn dbg xl npc b (rs1 b \<noteq> 0) (\<lambda>old. old OR rs1 b) p"
definition insn_csrrci :: "bool \<Rightarrow> nat \<Rightarrow> u64 \<Rightarrow> u64 \<Rightarrow> processor_t \<Rightarrow> outcome" where
  "insn_csrrci dbg xl npc b p = csr_insn dbg xl npc b (rs1 b \<noteq> 0) (\<lambda>old. old AND NOT (rs1 b)) p"

end
