(* ===== verification/Riscv_Traps.thy ===== *)
theory Riscv_Traps
  imports Riscv_Hart
begin

text \<open>
  What the processor operations guarantee: fields of status words bit by bit, the invariant of the hart and that
  every operation keeps it, and the choice of an interrupt.
\<close>

subsection \<open>Fields\<close>

locale field =
  fixes M :: u64 and k n :: nat
  assumes mask: "M = push_bit k (mask n)" and pos: "0 < n" and fits: "k + n \<le> 64"
begin

lemma bit_M: "bit M i \<longleftrightarrow> k \<le> i \<and> i < k + n"
  using fits by (auto simp: mask bit_simps)

lemma low_bit: "M AND NOT (push_bit 1 M) = push_bit k 1"
proof (rule bit_word_eqI)
  fix i
  assume "i < LENGTH(64)"
  then show "bit (M AND NOT (push_bit 1 M)) i = bit (push_bit k 1 :: u64) i"
    using pos fits by (auto simp: bit_M bit_and_iff bit_not_iff bit_push_bit_iff bit_1_iff possible_bit_word simp del: push_bit_Suc push_bit_of_1)
qed

lemma get_field_eq: "get_field r M = take_bit n (drop_bit k r)"
proof -
  have "get_field r M = drop_bit k (r AND M)"
    unfolding get_field_def low_bit by (simp add: drop_bit_eq_div push_bit_eq_mult)
  then show ?thesis by (simp add: bit_eq_iff bit_simps bit_M) (use fits in \<open>auto dest: bit_imp_le_length\<close>)
qed

lemma bit_get_field: "bit (get_field r M) i \<longleftrightarrow> i < n \<and> bit r (k + i)"
  by (simp add: get_field_eq bit_simps)

lemma bit_set_field: "bit (set_field r M v) i \<longleftrightarrow> (if k \<le> i \<and> i < k + n then bit v (i - k) else bit r i)"
proof -
  have "v * push_bit k 1 = push_bit k v" by (simp add: push_bit_eq_mult mult.commute)
  then have "set_field r M v = (r AND NOT M) OR (push_bit k v AND M)"
    unfolding set_field_def low_bit by simp
  then show ?thesis using fits
    by (auto simp: bit_simps bit_M dest: bit_imp_le_length)
qed

end

interpretation f_UIE: field "0x1" 0 1 by unfold_locales (simp_all add: mask_eq_exp_minus_1)
interpretation f_SIE: field "0x2" 1 1 by unfold_locales (simp_all add: mask_eq_exp_minus_1)
interpretation f_MIE: field "0x8" 3 1 by unfold_locales (simp_all add: mask_eq_exp_minus_1)
interpretation f_SPIE: field "0x20" 5 1 by unfold_locales (simp_all add: mask_eq_exp_minus_1)
interpretation f_MPIE: field "0x80" 7 1 by unfold_locales (simp_all add: mask_eq_exp_minus_1)
interpretation f_SPP: field "0x100" 8 1 by unfold_locales (simp_all add: mask_eq_exp_minus_1)
interpretation f_MPP: field "0x1800" 11 2 by unfold_locales (simp_all add: mask_eq_exp_minus_1)
interpretation f_FS: field "0x6000" 13 2 by unfold_locales (simp_all add: mask_eq_exp_minus_1)
interpretation f_XS: field "0x18000" 15 2 by unfold_locales (simp_all add: mask_eq_exp_minus_1)
interpretation f_VM: field "0x1F000000" 24 5 by unfold_locales (simp_all add: mask_eq_exp_minus_1)
interpretation f_SD32: field "0x80000000" 31 1 by unfold_locales (simp_all add: mask_eq_exp_minus_1)
interpretation f_SD64: field "0x8000000000000000" 63 1 by unfold_locales (simp_all add: mask_eq_exp_minus_1)

interpretation f_MPRV: field "0x20000" 17 1 by unfold_locales (simp_all add: mask_eq_exp_minus_1)
interpretation f_PUM: field "0x40000" 18 1 by unfold_locales (simp_all add: mask_eq_exp_minus_1)
interpretation f_MXR: field "0x80000" 19 1 by unfold_locales (simp_all add: mask_eq_exp_minus_1)

lemmas field_masks = f_UIE.bit_M f_SIE.bit_M f_MIE.bit_M f_SPIE.bit_M f_MPIE.bit_M f_SPP.bit_M f_MPP.bit_M f_FS.bit_M f_XS.bit_M
  f_VM.bit_M f_SD32.bit_M f_SD64.bit_M f_MPRV.bit_M f_PUM.bit_M f_MXR.bit_M

lemmas field_gets = f_UIE.bit_get_field f_SIE.bit_get_field f_MIE.bit_get_field f_SPIE.bit_get_field f_MPIE.bit_get_field
  f_SPP.bit_get_field f_MPP.bit_get_field f_VM.bit_get_field

lemmas field_sets = f_SIE.bit_set_field f_MIE.bit_set_field f_SPIE.bit_set_field f_MPIE.bit_set_field
  f_SPP.bit_set_field f_MPP.bit_set_field f_SD32.bit_set_field f_SD64.bit_set_field

text \<open>The mask of the interrupt enable of a privilege level.\<close>

lemma field_IE: "prv' \<in> {0, 1, 3} \<Longrightarrow> field (push_bit (unat prv') 1) (unat prv') 1" for prv' :: u64
  by unfold_locales auto

lemma field_IE_power: "prv' \<in> {0, 1, 3} \<Longrightarrow> field (2 ^ unat prv') (unat prv') 1" for prv' :: u64
  using field_IE [of prv'] by simp

lemma field_SD: "max_xlen p \<in> {32, 64} \<Longrightarrow> field (mstatus_SD p) (max_xlen p - 1) 1"
  using f_SD32.field_axioms f_SD64.field_axioms by (auto simp: mstatus_SD_def)

lemma bit_masked_write: "bit (masked_write m old v) i \<longleftrightarrow> (if bit m i then bit v i else bit old i)"
  by (auto simp: masked_write_def bit_simps dest: bit_imp_le_length)

lemma bit_zext_xlen: "xl \<le> 64 \<Longrightarrow> bit (zext_xlen xl v) i \<longleftrightarrow> i < xl \<and> bit v i"
  by (auto simp: zext_xlen_def bit_simps dest: bit_imp_le_length)

lemma zext_xlen_64 [simp]: "zext_xlen 64 v = v"
  by (simp add: zext_xlen_def)

lemma zext_xlen_idem [simp]: "xl \<le> 64 \<Longrightarrow> zext_xlen xl (zext_xlen xl v) = zext_xlen xl v"
  by (auto simp: bit_eq_iff bit_zext_xlen)

subsection \<open>Writing the status register\<close>

definition mstatus_writable :: "processor_t \<Rightarrow> nat \<Rightarrow> bool" where
  "mstatus_writable p i \<longleftrightarrow> i \<in> {1, 3, 5, 7, 8, 11, 12, 13, 14, 17, 18, 19} \<or> has_ext p \<and> i \<in> {15, 16}"

lemma status_bits:
  "bit (0x2 :: u64) i \<longleftrightarrow> i = 1" "bit (0x8 :: u64) i \<longleftrightarrow> i = 3" "bit (0x20 :: u64) i \<longleftrightarrow> i = 5" "bit (0x80 :: u64) i \<longleftrightarrow> i = 7"
  "bit (0x100 :: u64) i \<longleftrightarrow> i = 8" "bit (0x1800 :: u64) i \<longleftrightarrow> i = 11 \<or> i = 12" "bit (0x6000 :: u64) i \<longleftrightarrow> i = 13 \<or> i = 14"
  "bit (0x18000 :: u64) i \<longleftrightarrow> i = 15 \<or> i = 16" "bit (0x20000 :: u64) i \<longleftrightarrow> i = 17" "bit (0x40000 :: u64) i \<longleftrightarrow> i = 18"
  "bit (0x80000 :: u64) i \<longleftrightarrow> i = 19" "bit (0x1F000000 :: u64) i \<longleftrightarrow> 24 \<le> i \<and> i < 29"
  unfolding field_masks by auto

lemma bit_mstatus_mask:
  "bit (mstatus_mask p v) i \<longleftrightarrow>
    mstatus_writable p i \<or> validate_vm (max_xlen p) (get_field v 0x1F000000) \<and> 24 \<le> i \<and> i < 29"
  unfolding mstatus_mask_def mstatus_writable_def
  by (cases "has_ext p"; cases "validate_vm (max_xlen p) (get_field v 0x1F000000)";
      simp only: bit_or_iff status_bits if_True if_False bit_0_eq bot_apply bot_bool_def insert_iff empty_iff simp_thms; blast)

text \<open>The dirty summary bit says whether the floating-point or the extension state is dirty.\<close>

definition fp_or_ext_dirty :: "u64 \<Rightarrow> bool" where
  "fp_or_ext_dirty m \<longleftrightarrow> bit m 13 \<and> bit m 14 \<or> bit m 15 \<and> bit m 16"

lemma all_ones_iff: "m AND 0x6000 = 0x6000 \<longleftrightarrow> bit m 13 \<and> bit m 14" "m AND 0x18000 = 0x18000 \<longleftrightarrow> bit m 15 \<and> bit m 16"
  for m :: u64
proof -
  have e: "m AND M = M \<longleftrightarrow> bit m k \<and> bit m (Suc k)" if "field M k 2" for M k
  proof -
    have M: "bit M i \<longleftrightarrow> i = k \<or> i = Suc k" for i using field.bit_M [OF that, of i] by auto
    have "m AND M = M \<longleftrightarrow> (\<forall>i. bit M i \<longrightarrow> bit m i)"
      by (metis (mono_tags, lifting) bit_and_iff bit_word_eqI)
    then show ?thesis unfolding M by blast
  qed
  show "m AND 0x6000 = 0x6000 \<longleftrightarrow> bit m 13 \<and> bit m 14" "m AND 0x18000 = 0x18000 \<longleftrightarrow> bit m 15 \<and> bit m 16"
    using e [OF f_FS.field_axioms] e [OF f_XS.field_axioms] by simp_all
qed

lemma bit_set_mstatus:
  fixes v :: u64
  assumes "max_xlen p \<in> {32, 64}" "xlen p = max_xlen p"
  defines "v' \<equiv> zext_xlen (xlen p) v" and "m' \<equiv> mstatus (state (set_mstatus v p))"
  shows "bit m' i \<longleftrightarrow> (if i = max_xlen p - 1 then fp_or_ext_dirty m'
    else if mstatus_writable p i \<or> validate_vm (max_xlen p) (get_field v' 0x1F000000) \<and> 24 \<le> i \<and> i < 29 then bit v' i
    else bit (mstatus (state p)) i)"
proof -
  define w where "w = masked_write (mstatus_mask p v') (mstatus (state p)) v'"
  have m': "m' = set_field w (mstatus_SD p) (of_bool (fp_or_ext_dirty w))"
    by (simp add: m'_def set_mstatus_def Let_def update_state_def all_ones_iff fp_or_ext_dirty_def w_def v'_def)
  have b: "bit m' i \<longleftrightarrow> (if i = max_xlen p - 1 then fp_or_ext_dirty w else bit w i)" for i
    using field.bit_set_field [OF field_SD [OF assms(1)], of w "of_bool (fp_or_ext_dirty w)" i] assms(1)
    by (auto simp: m')
  have "fp_or_ext_dirty m' = fp_or_ext_dirty w" using assms(1) by (auto simp: fp_or_ext_dirty_def b)
  then show ?thesis by (simp add: b) (simp add: w_def bit_masked_write bit_mstatus_mask)
qed

lemma set_mstatus_frame [simp]:
  "prv (state (set_mstatus v p)) = prv (state p)" "xlen (set_mstatus v p) = max_xlen p" "max_xlen (set_mstatus v p) = max_xlen p"
  "has_ext (set_mstatus v p) = has_ext p" "isa (set_mstatus v p) = isa p" "max_isa (set_mstatus v p) = max_isa p"
  by (simp_all add: set_mstatus_def Let_def update_state_def mmu_flush_tlb_def)

lemma set_mstatus_state: "state (set_mstatus v p) = (state p)\<lparr>mstatus := mstatus (state (set_mstatus v p))\<rparr>"
  by (simp add: set_mstatus_def Let_def update_state_def mmu_flush_tlb_def)

subsection \<open>The invariant of the hart\<close>

text \<open>All bits of \<open>x\<close> are bits of \<open>m\<close>.\<close>

definition bits_in :: "'a::len word \<Rightarrow> 'a word \<Rightarrow> bool" where
  "bits_in m x \<longleftrightarrow> x AND NOT m = 0"

definition state_ok :: "nat \<Rightarrow> state_t \<Rightarrow> bool" where
  "state_ok mx s \<longleftrightarrow>
     prv s \<in> {PRV_U, PRV_S, PRV_M} \<and> (bit (mstatus s) (mx - 1) \<longleftrightarrow> fp_or_ext_dirty (mstatus s)) \<and>
     validate_vm mx (get_field (mstatus s) MSTATUS_VM) \<and>
     bits_in delegable_ints (mideleg s) \<and> bits_in medeleg_mask (medeleg s) \<and> bits_in all_ints (mie s) \<and>
     mtvec s AND 3 = 0 \<and> stvec s AND 3 = 0 \<and> bits_in (mask (if mx = 64 then 38 else 22)) (sptbr s) \<and>
     tselect s < 4 \<and> length (mcontrol s) = 4 \<and> length (tdata2 s) = 4 \<and>
     bits_in 0x1F (fflags s) \<and> bits_in 0x7 (frm s) \<and> dcsr_prv (dcsr s) \<le> 3 \<and>
     length (XPR s) = 32 \<and> XPR s ! 0 = 0 \<and> length (FPR s) = 32"

definition hart_ok :: "processor_t \<Rightarrow> bool" where
  "hart_ok p \<longleftrightarrow> max_xlen p \<in> {32, 64} \<and> xlen p = max_xlen p \<and> state_ok (max_xlen p) (state p)"

lemma hart_okD:
  assumes "hart_ok p"
  shows "max_xlen p \<in> {32, 64}" "xlen p = max_xlen p" "state_ok (max_xlen p) (state p)" "xlen p \<le> 64"
  using assms by (auto simp: hart_ok_def)

lemma hart_ok_mmu [simp]: "hart_ok (mmu_flush_tlb p) \<longleftrightarrow> hart_ok p" "hart_ok (trigger_updated p) \<longleftrightarrow> hart_ok p"
  by (simp_all add: hart_ok_def mmu_flush_tlb_def trigger_updated_def)

lemma hart_ok_update: "hart_ok p \<Longrightarrow> state_ok (max_xlen p) (f (state p)) \<Longrightarrow> hart_ok (update_state f p)"
  by (simp add: hart_ok_def update_state_def)

lemma bits_in_iff: "bits_in m x \<longleftrightarrow> (\<forall>i. bit x i \<longrightarrow> bit m i)"
  by (auto simp: bits_in_def bit_eq_iff bit_simps dest: bit_imp_le_length)

lemma masked_write_bits_in: "bits_in m old \<Longrightarrow> bits_in m (masked_write m old v)"
  by (auto simp: bits_in_iff bit_masked_write)

lemma bits_in_and: "bits_in m (v AND m)"
  by (simp add: bits_in_iff bit_and_iff)

lemma aligned_4: "push_bit 2 (drop_bit 2 v) AND 3 = 0" for v :: u64
proof -
  have "(3 :: u64) = mask 2" by (simp add: mask_eq_exp_minus_1)
  then show ?thesis by (auto simp: bit_eq_iff bit_simps)
qed

lemma get_VM_eq:
  assumes "\<And>i. 24 \<le> i \<Longrightarrow> i < 29 \<Longrightarrow> bit m i = bit m' i"
  shows "get_field m 0x1F000000 = get_field m' 0x1F000000"
  by (rule bit_word_eqI) (auto simp: f_VM.bit_get_field assms)

lemma set_mstatus_ok:
  assumes ok: "hart_ok p"
  shows "hart_ok (set_mstatus v p)"
proof -
  note d = hart_okD [OF ok]
  let ?m = "mstatus (state (set_mstatus v p))" and ?v = "zext_xlen (xlen p) v"
  note b = bit_set_mstatus [OF d(1,2), of v]
  have sd: "bit ?m (max_xlen p - 1) \<longleftrightarrow> fp_or_ext_dirty ?m" using b [of "max_xlen p - 1"] by simp
  have "validate_vm (max_xlen p) (get_field ?m 0x1F000000)"
  proof (cases "validate_vm (max_xlen p) (get_field ?v 0x1F000000)")
    case True
    have "get_field ?m 0x1F000000 = get_field ?v 0x1F000000"
      by (rule get_VM_eq) (subst b, use True d(1) in \<open>auto simp: mstatus_writable_def\<close>)
    then show ?thesis using True by simp
  next
    case False
    have "get_field ?m 0x1F000000 = get_field (mstatus (state p)) 0x1F000000"
      by (rule get_VM_eq) (subst b, use False d(1) in \<open>auto simp: mstatus_writable_def\<close>)
    then show ?thesis using d(3) by (simp add: state_ok_def)
  qed
  then have "state_ok (max_xlen p) (state (set_mstatus v p))"
    using sd d(3) by (subst set_mstatus_state) (simp add: state_ok_def)
  then show ?thesis using d(1) by (simp add: hart_ok_def)
qed

lemma dirty_fp_state_ok:
  assumes ok: "hart_ok p"
  shows "hart_ok (dirty_fp_state p)"
proof -
  note d = hart_okD [OF ok]
  let ?m = "mstatus (state p) OR (0x6000 OR (if xlen p = 64 then 0x8000000000000000 else 0x80000000))"
  have b: "bit ?m i \<longleftrightarrow> bit (mstatus (state p)) i \<or> i = 13 \<or> i = 14 \<or> i = max_xlen p - 1" for i
    using d(1,2) by (auto simp only: bit_or_iff status_bits f_SD32.bit_M f_SD64.bit_M split: if_splits)
  have "get_field ?m 0x1F000000 = get_field (mstatus (state p)) 0x1F000000"
    by (rule get_VM_eq) (subst b, use d(1) in auto)
  then show ?thesis
    using d(3) b unfolding dirty_fp_state_def
    by (intro hart_ok_update [OF ok]) (simp add: state_ok_def fp_or_ext_dirty_def)
qed

text \<open>No write to a control and status register fails an assertion, and each keeps the invariant.\<close>

definition some_ok :: "processor_t option \<Rightarrow> bool" where
  "some_ok r \<longleftrightarrow> (\<exists>p. r = Some p \<and> hart_ok p)"

lemma some_ok_Some [simp]: "some_ok (Some p) \<longleftrightarrow> hart_ok p"
  by (simp add: some_ok_def)

lemma some_ok_if: "(c \<Longrightarrow> some_ok a) \<Longrightarrow> (\<not> c \<Longrightarrow> some_ok b) \<Longrightarrow> some_ok (if c then a else b)"
  by simp

lemma set_tdata_ok:
  assumes ok: "hart_ok p"
  shows "hart_ok (set_tdata1 v p)" "hart_ok (set_tdata2 v p)"
  using ok hart_okD(3) [OF ok]
  by (auto simp: set_tdata1_def set_tdata2_def Let_def state_ok_def intro!: hart_ok_update)

lemma set_mip_mie_ok:
  assumes ok: "hart_ok p"
  shows "hart_ok (set_mip v p)" "hart_ok (set_mie v p)"
  unfolding set_mip_def set_mie_def
  by (rule hart_ok_update [OF ok], use hart_okD(3) [OF ok] in \<open>simp add: state_ok_def masked_write_bits_in\<close>)+

lemma fp_flags_bits_in:
  "bits_in 0x1F (ucast (v AND 0x1F) :: u32)" "bits_in 0x7 (ucast (v AND 0x7) :: u32)"
  "bits_in 0x7 (ucast (drop_bit 5 (v AND 0xE0)) :: u32)" for v :: u64
proof -
  have m: "(0x1F :: u64) = mask 5" "(0x7 :: u64) = mask 3" "(0x1F :: u32) = mask 5" "(0x7 :: u32) = mask 3"
    "(0xE0 :: u64) = push_bit 5 (mask 3)" by (simp_all add: mask_eq_exp_minus_1)
  show "bits_in 0x1F (ucast (v AND 0x1F) :: u32)" "bits_in 0x7 (ucast (v AND 0x7) :: u32)"
    "bits_in 0x7 (ucast (drop_bit 5 (v AND 0xE0)) :: u32)"
    unfolding m by (auto simp: bits_in_iff bit_simps)
qed

lemma get_field_3: "get_field v 0x3 \<le> 3"
proof -
  have "field 0x3 0 2" by unfold_locales (simp_all add: mask_eq_exp_minus_1)
  then have "get_field v 0x3 = take_bit 2 v" by (simp add: field.get_field_eq)
  moreover have "unat (take_bit 2 v) < 4" by (simp only: unat_take_bit) simp
  ultimately show ?thesis by (simp add: word_le_nat_alt)
qed

lemma ucast_le_3: "v \<le> 3 \<Longrightarrow> (ucast v :: u8) \<le> 3" for v :: u64
  by (simp add: word_le_nat_alt unat_ucast_mod)

lemma set_csr_ok:
  assumes ok: "hart_ok p"
  shows "some_ok (set_csr which v p)"
proof -
  note d = hart_okD [OF ok]
  have s: "state_ok (max_xlen p) (state p)" by (rule d(3))
  have "paddr_bits p = Some (if max_xlen p = 64 then 50 else 34)" using d(2) by (simp add: paddr_bits_def)
  moreover have "push_bit n 1 - 1 = (mask n :: u64)" for n by (simp add: mask_eq_decr_exp push_bit_eq_mult)
  ultimately have sp: "some_ok (map_option (\<lambda>n. update_state (\<lambda>s. s\<lparr>sptbr := x AND (push_bit (n - 12) 1 - 1)\<rparr>) p) (paddr_bits p))" for x
    using s by (auto intro!: hart_ok_update [OF ok] simp: state_ok_def bits_in_and)
  note dirty = dirty_fp_state_ok [OF ok]
  have sd: "state_ok (max_xlen (dirty_fp_state p)) (state (dirty_fp_state p))" by (rule hart_okD(3) [OF dirty])
  have misa: "hart_ok (set_misa x p)" for x using ok by (simp add: set_misa_def hart_ok_def Let_def)
  show ?thesis
    unfolding set_csr_def Let_def
    by (intro some_ok_if sp; simp only: some_ok_Some;
        ((rule set_mstatus_ok set_tdata_ok set_mip_mie_ok, rule ok) | rule ok misa |
         (rule hart_ok_update [OF dirty], use sd in \<open>simp add: state_ok_def fp_flags_bits_in\<close>) |
         (rule hart_ok_update [OF ok], use s in \<open>simp add: state_ok_def masked_write_bits_in aligned_4 write_dcsr_def get_field_3 ucast_le_3\<close>)))
qed

lemma le_3_cases: "v \<le> 3 \<Longrightarrow> v = 0 \<or> v = 1 \<or> v = 2 \<or> v = 3" for v :: u64
proof -
  assume "v \<le> 3"
  then have "unat v = 0 \<or> unat v = 1 \<or> unat v = 2 \<or> unat v = 3" by (simp add: word_le_nat_alt) arith
  then have "of_nat (unat v) = (0 :: u64) \<or> of_nat (unat v) = (1 :: u64) \<or> of_nat (unat v) = (2 :: u64) \<or> of_nat (unat v) = (3 :: u64)"
    by (elim disjE) (simp_all only: of_nat_simps of_nat_numeral simp_thms)
  then show ?thesis unfolding of_nat_unat ucast_id .
qed

lemma set_privilege_ok:
  assumes ok: "hart_ok p" and v: "v \<le> 3"
  shows "some_ok (set_privilege v p)"
proof -
  let ?v = "if v = 2 then 0 else v"
  have "?v \<in> {0, 1, 3}" using le_3_cases [OF v] by auto
  then have "state_ok (max_xlen p) ((state p)\<lparr>prv := ?v\<rparr>)" using hart_okD(3) [OF ok] by (simp add: state_ok_def)
  moreover have "set_privilege v p = Some (update_state (\<lambda>s. s\<lparr>prv := ?v\<rparr>) (mmu_flush_tlb p))"
    using v by (simp add: set_privilege_def)
  ultimately show ?thesis using ok by (simp add: hart_ok_def update_state_def mmu_flush_tlb_def)
qed

lemma map_some_ok:
  assumes "some_ok r" "\<And>p. hart_ok p \<Longrightarrow> hart_ok (f p)"
  shows "some_ok (map_option f r)"
  using assms by (auto simp: some_ok_def)

text \<open>Updates of fields the invariant says nothing about.\<close>

lemma free_fields_ok:
  assumes "hart_ok p"
  shows "hart_ok (update_state (\<lambda>s. s\<lparr>st_pc := a s\<rparr>) p)" "hart_ok (update_state (\<lambda>s. s\<lparr>dpc := a s, st_pc := b s\<rparr>) p)"
    "hart_ok (update_state (\<lambda>s. s\<lparr>st_pc := a s, scause := b s, sepc := c s, sbadaddr := d s\<rparr>) p)"
    "hart_ok (update_state (\<lambda>s. s\<lparr>st_pc := a s, mepc := b s, mcause := c s, mbadaddr := d s\<rparr>) p)"
    "hart_ok (update_state (\<lambda>s. s\<lparr>load_reservation := a s\<rparr>) p)" "hart_ok (update_state (\<lambda>s. s\<lparr>serialized := sr s\<rparr>) p)"
    "hart_ok (update_state (\<lambda>s. s\<lparr>mip := a s\<rparr>) p)"
    "hart_ok (update_state (\<lambda>s. s\<lparr>dcsr := (dcsr s)\<lparr>dcsr_cause := ca s\<rparr>, single_step := ss s\<rparr>) p)"
  using hart_okD(3) [OF assms] by (auto intro!: hart_ok_update [OF assms] simp: state_ok_def)

lemma enter_debug_mode_ok:
  assumes ok: "hart_ok p"
  shows "some_ok (enter_debug_mode c p)"
proof -
  have "hart_ok (update_state (\<lambda>s. s\<lparr>dcsr := (dcsr s)\<lparr>dcsr_cause := c, dcsr_prv := ucast (prv s)\<rparr>\<rparr>) p)"
    using hart_okD(3) [OF ok] by (intro hart_ok_update [OF ok]) (auto simp: state_ok_def)
  then show ?thesis
    unfolding enter_debug_mode_def Let_def
    by (intro map_some_ok set_privilege_ok free_fields_ok) simp_all
qed

lemma take_trap_ok:
  assumes ok: "hart_ok p"
  shows "some_ok (take_trap t epc p)"
  unfolding take_trap_def trap_to_S_def trap_to_M_def Let_def yield_load_reservation_def
  by (intro some_ok_if enter_debug_mode_ok map_some_ok set_privilege_ok set_mstatus_ok free_fields_ok ok)
    (auto intro!: set_privilege_ok set_mstatus_ok free_fields_ok ok)

subsection \<open>Instructions keep the invariant\<close>

definition outcome_ok :: "outcome \<Rightarrow> bool" where
  "outcome_ok r = (case r of Done npc p \<Rightarrow> hart_ok p | Raise t p \<Rightarrow> hart_ok p | Abort \<Rightarrow> False)"

lemma outcome_ok_simps [simp]:
  "outcome_ok (Done npc p) \<longleftrightarrow> hart_ok p" "outcome_ok (Raise t p) \<longleftrightarrow> hart_ok p" "\<not> outcome_ok Abort"
  by (simp_all add: outcome_ok_def)

lemma serialize_after_ok: "some_ok r \<Longrightarrow> outcome_ok (serialize_after r)"
  by (auto simp: some_ok_def serialize_after_def)

lemma require_privilege_ok: "hart_ok p \<Longrightarrow> outcome_ok (k p) \<Longrightarrow> outcome_ok (require_privilege v k p)"
  by (simp add: require_privilege_def)

lemma set_pc_and_serialize_ok:
  "hart_ok p \<Longrightarrow> (\<And>q. hart_ok q \<Longrightarrow> outcome_ok (k q)) \<Longrightarrow> outcome_ok (set_pc_and_serialize x k p)"
  by (simp add: set_pc_and_serialize_def free_fields_ok)

lemma get_field_le_3: "field M k n \<Longrightarrow> n \<le> 2 \<Longrightarrow> get_field v M \<le> 3"
proof -
  assume "field M k n" "n \<le> 2"
  then have "get_field v M = take_bit n (drop_bit k v)" by (simp add: field.get_field_eq)
  moreover have "unat (take_bit n (drop_bit k v)) < 2 ^ n" by (simp only: unat_take_bit) simp
  moreover have "(2::nat) ^ n \<le> 2 ^ 2" using \<open>n \<le> 2\<close> by (rule power_increasing) simp
  ultimately show ?thesis by (simp add: word_le_nat_alt)
qed

lemma mret_sret_dret_ok:
  assumes ok: "hart_ok p"
  shows "outcome_ok (insn_mret p)" "outcome_ok (insn_sret p)" "outcome_ok (insn_dret p)"
proof -
  show "outcome_ok (insn_mret p)" "outcome_ok (insn_sret p)"
    unfolding insn_mret_def insn_sret_def Let_def
    by (intro require_privilege_ok set_pc_and_serialize_ok serialize_after_ok map_some_ok set_privilege_ok set_mstatus_ok
        get_field_le_3 [OF f_MPP.field_axioms] get_field_le_3 [OF f_SPP.field_axioms] ok; simp)+
  have "ucast (dcsr_prv (dcsr (state q))) \<le> (3 :: u64)" if "hart_ok q" for q
    using hart_okD(3) [OF that] by (auto simp: state_ok_def word_le_nat_alt unat_ucast_mod)
  then show "outcome_ok (insn_dret p)"
    unfolding insn_dret_def
    by (intro require_privilege_ok set_pc_and_serialize_ok serialize_after_ok map_some_ok set_privilege_ok free_fields_ok ok; simp)
qed

lemma write_reg_ok:
  assumes ok: "hart_ok p"
  shows "hart_ok (write_reg r v p)"
  using hart_okD(3) [OF ok] unfolding write_reg_def
  by (intro hart_ok_update [OF ok]) (auto simp: state_ok_def regfile_write_def nth_list_update unat_eq_0)

lemma csr_insn_ok:
  assumes ok: "hart_ok p"
  shows "outcome_ok (csr_insn dbg xl npc b write f p)"
proof -
  have "outcome_ok (case get_csr dbg (csr b) q of Inl t \<Rightarrow> Raise t q
      | Inr old \<Rightarrow> (case (if write then set_csr (csr b) (f old) q else Some q) of
          None \<Rightarrow> Abort | Some r \<Rightarrow> Done npc (write_reg (rd b) (sext_xlen xl old) r)))" if "hart_ok q" for q
    using that set_csr_ok [OF that, of "csr b"]
    by (auto simp: some_ok_def write_reg_ok split: sum.split option.split)
       (metis option.distinct(1) option.inject write_reg_ok)+
  then show ?thesis
    unfolding csr_insn_def validate_csr_def Let_def using ok by (simp add: free_fields_ok)
qed

subsection \<open>Reachable harts\<close>

lemma set_mstatus_0: "mstatus (state p) = 0 \<Longrightarrow> mstatus (state (set_mstatus 0 p)) = 0"
  by (simp add: set_mstatus_def Let_def update_state_def masked_write_def zext_xlen_def set_field_def)

lemma reset_ok:
  assumes "max_xlen p \<in> {32, 64}"
  shows "hart_ok (reset p)"
proof -
  let ?s = "state_reset\<lparr>dcsr := dcsr_reset\<lparr>dcsr_halt := halt_on_reset p\<rparr>\<rparr>"
  let ?p = "p\<lparr>state := ?s, halt_on_reset := False\<rparr>"
  have "mstatus ?s = 0" by (simp add: state_reset_def)
  then have r: "reset p = set_mstatus 0 ?p" "mstatus (state (set_mstatus 0 ?p)) = 0"
    using set_mstatus_0 [of ?p] by (simp_all add: reset_def Let_def)
  have "state_ok (max_xlen p) (?s\<lparr>mstatus := 0\<rparr>)"
    by (simp add: state_ok_def state_reset_def dcsr_reset_def fp_or_ext_dirty_def validate_vm_def get_field_def bits_in_def)
  then show ?thesis using assms set_mstatus_state [of 0 ?p] unfolding r(1) by (simp add: hart_ok_def r(2))
qed

text \<open>The privileged instructions, and the steps of a hart and of the devices that touch its registers.\<close>

inductive hart_insn :: "(processor_t \<Rightarrow> outcome) \<Rightarrow> bool" where
  mret: "hart_insn insn_mret"
| sret: "hart_insn insn_sret"
| dret: "hart_insn insn_dret"
| ecall: "hart_insn insn_ecall"
| ebreak: "hart_insn insn_ebreak"
| sfence_vm: "hart_insn (insn_sfence_vm npc)"
| csrrw: "hart_insn (insn_csrrw dbg xl npc b)"
| csrrs: "hart_insn (insn_csrrs dbg xl npc b)"
| csrrc: "hart_insn (insn_csrrc dbg xl npc b)"
| csrrwi: "hart_insn (insn_csrrwi dbg xl npc b)"
| csrrsi: "hart_insn (insn_csrrsi dbg xl npc b)"
| csrrci: "hart_insn (insn_csrrci dbg xl npc b)"

inductive hart_step :: "processor_t \<Rightarrow> processor_t \<Rightarrow> bool" where
  insn: "hart_insn k \<Longrightarrow> k p = Done npc q \<Longrightarrow> hart_step p q"
| insn_trap: "hart_insn k \<Longrightarrow> k p = Raise t q \<Longrightarrow> take_trap t epc q = Some r \<Longrightarrow> hart_step p r"
| interrupt: "take_interrupt p = Some t \<Longrightarrow> take_trap t epc p = Some q \<Longrightarrow> hart_step p q"
| memory_trap: "take_trap t epc p = Some q \<Longrightarrow> hart_step p q"
| debug: "enter_debug_mode c p = Some q \<Longrightarrow> hart_step p q"
| serialize: "hart_step p (update_state (\<lambda>s. s\<lparr>serialized := True\<rparr>) p)"
| register: "hart_step p (write_reg r v p)"
| ipi: "processor_store addr bytes p = Some q \<Longrightarrow> hart_step p q"

inductive hart_reachable :: "processor_t \<Rightarrow> bool" where
  start: "max_xlen p \<in> {32, 64} \<Longrightarrow> hart_reachable (reset p)"
| step: "hart_reachable p \<Longrightarrow> hart_step p q \<Longrightarrow> hart_reachable q"

lemma hart_insn_ok:
  assumes "hart_insn k" "hart_ok p"
  shows "outcome_ok (k p)"
  using assms(1)
proof cases
  case sfence_vm
  then show ?thesis using assms(2) by (simp add: insn_sfence_vm_def require_privilege_def)
qed (use assms(2) in \<open>simp_all add: mret_sret_dret_ok csr_insn_ok insn_ecall_def insn_ebreak_def Let_def insn_csrrw_def insn_csrrs_def
    insn_csrrc_def insn_csrrwi_def insn_csrrsi_def insn_csrrci_def\<close>)

lemma some_okD: "some_ok r \<Longrightarrow> r = Some q \<Longrightarrow> hart_ok q"
  by (simp add: some_ok_def)

lemma hart_step_ok:
  assumes "hart_step p q" "hart_ok p"
  shows "hart_ok q"
  using assms
proof (induction rule: hart_step.induct)
  case (insn k p npc q)
  then show ?case using hart_insn_ok [of k p] by simp
next
  case (insn_trap k p t q epc r)
  then have "hart_ok q" using hart_insn_ok [of k p] by simp
  then show ?case using insn_trap(3) by (rule some_okD [OF take_trap_ok])
next
  case (ipi addr bytes p q)
  then show ?case by (auto simp: processor_store_def free_fields_ok split: if_splits)
qed (auto simp: free_fields_ok write_reg_ok intro: some_okD [OF take_trap_ok] some_okD [OF enter_debug_mode_ok])

lemma hart_reachable_ok: "hart_reachable p \<Longrightarrow> hart_ok p"
  by (induction rule: hart_reachable.induct) (simp_all only: reset_ok hart_step_ok)

subsection \<open>The choice of an interrupt\<close>

lemma zero_iff: "v = 0 \<longleftrightarrow> (\<forall>n. \<not> bit v n)" for v :: "'a::len word"
  by (auto intro: bit_word_eqI)

lemma ctz_bits: "v \<noteq> 0 \<Longrightarrow> bit v (ctz v) \<and> (\<forall>n < ctz v. \<not> bit v n)"
proof (induction v rule: ctz.induct)
  case (1 v)
  have odd: "v AND 1 = 0 \<longleftrightarrow> \<not> bit v 0"
    by (auto simp: zero_iff bit_simps intro: gr0I)
  show ?case
  proof (cases "v AND 1 = 0")
    case True
    then have nz: "drop_bit 1 v \<noteq> 0"
      using "1.prems" odd unfolding zero_iff by (metis Suc_pred' bit_drop_bit_eq comp_apply gr0I plus_1_eq_Suc)
    have c: "ctz v = Suc (ctz (drop_bit 1 v))" using True "1.prems" by (subst ctz.simps) simp
    have ih: "bit (drop_bit 1 v) (ctz (drop_bit 1 v))" "\<forall>n < ctz (drop_bit 1 v). \<not> bit (drop_bit 1 v) n"
      using "1.IH" [OF _ nz] True "1.prems" by simp_all
    have "\<not> bit v n" if "n < Suc (ctz (drop_bit 1 v))" for n
      using that ih(2) True odd by (cases n) (auto simp: bit_drop_bit_eq)
    then show ?thesis using ih(1) by (simp add: c bit_drop_bit_eq)
  next
    case False
    then show ?thesis using odd by (subst ctz.simps, subst (2) ctz.simps) simp
  qed
qed

text \<open>An interrupt is taken when it is pending, enabled, and its target level has interrupts enabled.\<close>

definition interruptible :: "state_t \<Rightarrow> nat \<Rightarrow> bool" where
  "interruptible s n \<longleftrightarrow> bit (mip s) n \<and> bit (mie s) n \<and>
     (if bit (mideleg s) n then prv s < PRV_S \<or> prv s = PRV_S \<and> bit (mstatus s) 1
      else prv s < PRV_M \<or> prv s = PRV_M \<and> bit (mstatus s) 3)"

lemma get_field_1_iff: "field M k 1 \<Longrightarrow> get_field m M \<noteq> 0 \<longleftrightarrow> bit m k"
  using field.bit_get_field [of M k 1 m] by (auto simp: zero_iff)

lemma bit_uminus_of_bool: "bit (- of_bool b :: u64) i \<longleftrightarrow> b \<and> i < 64"
  by (cases b) auto

lemma take_interrupt_spec:
  "take_interrupt p = None \<longleftrightarrow> (\<forall>n. \<not> interruptible (state p) n)"
  "take_interrupt p = Some t \<Longrightarrow> \<exists>n. interruptible (state p) n \<and> (\<forall>m < n. \<not> interruptible (state p) m) \<and>
     t = interrupt_trap (of_nat n) p"
proof -
  define s where "s = state p"
  define en where "en = ((mip s AND mie s) AND NOT (mideleg s) AND - of_bool (prv s < 3 \<or> prv s = 3 \<and> get_field (mstatus s) 8 \<noteq> 0)) OR
    ((mip s AND mie s) AND mideleg s AND - of_bool (prv s < 1 \<or> prv s = 1 \<and> get_field (mstatus s) 2 \<noteq> 0))"
  have t: "take_interrupt p = (if en \<noteq> 0 then Some (interrupt_trap (of_nat (ctz en)) p) else None)"
    by (simp add: take_interrupt_def Let_def s_def en_def)
  have b: "bit en n \<longleftrightarrow> interruptible s n" for n
    unfolding en_def interruptible_def
    by (auto simp: bit_simps bit_uminus_of_bool get_field_1_iff [OF f_MIE.field_axioms] get_field_1_iff [OF f_SIE.field_axioms]
        dest: bit_imp_le_length)
  show "take_interrupt p = None \<longleftrightarrow> (\<forall>n. \<not> interruptible (state p) n)"
    using b by (simp add: t s_def [symmetric] zero_iff)
  show "\<exists>n. interruptible (state p) n \<and> (\<forall>m < n. \<not> interruptible (state p) m) \<and> t = interrupt_trap (of_nat n) p"
    if "take_interrupt p = Some t"
    using that ctz_bits [of en] b by (intro exI [of _ "ctz en"]) (auto simp: t s_def split: if_splits)
qed

end
