(* ===== verification/Riscv_Return.thy ===== *)
theory Riscv_Return
  imports Riscv_Traps
begin

text \<open>
  Entering a trap and returning from it.
\<close>

subsection \<open>Entering a trap and returning from it\<close>

text \<open>A status word that differs from the old one in control bits only is written as it is.\<close>

definition control_bits :: "nat set" where
  "control_bits = {1, 3, 5, 7, 8, 11, 12, 17, 18, 19}"

lemma control_bits_writable: "i \<in> control_bits \<Longrightarrow> mstatus_writable p i"
  by (simp only: control_bits_def mstatus_writable_def insert_iff empty_iff simp_thms) blast

lemma not_control_bits: "13 \<notin> control_bits" "14 \<notin> control_bits" "15 \<notin> control_bits" "16 \<notin> control_bits" "31 \<notin> control_bits"
  "63 \<notin> control_bits"
  by (simp_all add: control_bits_def)

lemma writable_low: "mstatus_writable p i \<or> b \<and> 24 \<le> i \<and> i < 29 \<Longrightarrow> i < 31"
  by (auto simp: mstatus_writable_def)

lemma set_mstatus_exact:
  assumes ok: "hart_ok p"
    and v: "\<And>i. i \<notin> control_bits \<Longrightarrow> bit v i = bit (mstatus (state p)) i"
  shows "mstatus (state (set_mstatus v p)) = v"
proof (rule bit_word_eqI)
  fix i
  note d = hart_okD [OF ok]
  let ?m = "mstatus (state (set_mstatus v p))"
  have b: "bit ?m j = bit v j" if j: "j \<noteq> max_xlen p - 1" for j
  proof (cases "mstatus_writable p j \<or> validate_vm (max_xlen p) (get_field (zext_xlen (xlen p) v) 0x1F000000) \<and> 24 \<le> j \<and> j < 29")
    case True
    have "bit (zext_xlen (xlen p) v) j = bit v j"
      using writable_low [OF True] d(1,2) by (auto simp: bit_zext_xlen)
    then show ?thesis unfolding bit_set_mstatus [OF d(1,2), of v j] if_not_P [OF j] if_P [OF True] .
  next
    case False
    then have "bit v j = bit (mstatus (state p)) j" using v control_bits_writable by blast
    then show ?thesis unfolding bit_set_mstatus [OF d(1,2), of v j] if_not_P [OF j] if_not_P [OF False] by (rule sym)
  qed
  note k = not_control_bits [THEN v]
  have "bit ?m (max_xlen p - 1) = fp_or_ext_dirty ?m" using bit_set_mstatus [OF d(1,2), of v "max_xlen p - 1"] by simp
  also have "\<dots> = fp_or_ext_dirty (mstatus (state p))"
    using d(1) b [of 13] b [of 14] b [of 15] b [of 16] k unfolding fp_or_ext_dirty_def by auto
  also have "\<dots> = bit (mstatus (state p)) (max_xlen p - 1)" using d(3) by (simp add: state_ok_def)
  also have "\<dots> = bit v (max_xlen p - 1)" using d(1) k(5,6) by auto
  finally show "bit ?m i = bit v i" using b by (cases "i = max_xlen p - 1") simp_all
qed

text \<open>
  A level that takes traps: the position \<open>e\<close> of its interrupt enable, \<open>q\<close> of the previous interrupt enable and the
  field of the previous privilege level.
\<close>

locale trap_level = ie: field IE e 1 + pie: field PIE q 1 + pp: field PP k n
  for IE PIE PP :: u64 and e q k n :: nat +
  assumes low: "e < 4" and high: "4 \<le> q" "4 \<le> k" and apart: "\<not> (k \<le> q \<and> q < k + n)" and two: "n \<le> 2"
begin

definition enter :: "u64 \<Rightarrow> u64 \<Rightarrow> u64" where
  "enter m v = set_field (set_field (set_field m PIE (get_field m (push_bit (unat v) 1))) PP v) IE 0"

definition leave :: "u64 \<Rightarrow> u64" where
  "leave m = set_field (set_field (set_field m (push_bit (unat (get_field m PP)) 1) (get_field m PIE)) PIE 0) PP 0"

lemma bit_enter:
  assumes "v \<in> {0, 1, 3}"
  shows "bit (enter m v) i \<longleftrightarrow> i \<noteq> e \<and>
    (if k \<le> i \<and> i < k + n then bit v (i - k) else if i = q then bit m (unat v) else bit m i)"
  using low high apart unfolding enter_def
  by (auto simp: ie.bit_set_field pie.bit_set_field pp.bit_set_field field.bit_get_field [OF field_IE_power [OF assms]] not_less_eq_eq le_less_Suc_eq)

lemma previous:
  assumes "v \<in> {0, 1, 3}" "unat v < 2 ^ n"
  shows "get_field (enter m v) PP = v"
proof (rule bit_word_eqI)
  fix i
  have "\<not> bit v i" if "n \<le> i"
  proof -
    have "take_bit n v = v" using assms(2) by (simp add: word_unat_eq_iff unat_take_bit)
    then show ?thesis using that by (metis bit_take_bit_iff leD)
  qed
  then show "bit (get_field (enter m v) PP) i = bit v i"
    using low high by (auto simp: pp.bit_get_field bit_enter [OF assms(1)])
qed

lemma bit_leave_enter:
  assumes v: "v \<in> {0, 1, 3}" "unat v < 2 ^ n"
  shows "bit (leave (enter m v)) i \<longleftrightarrow> \<not> (k \<le> i \<and> i < k + n) \<and> i \<noteq> q \<and> (i = e \<longrightarrow> unat v = e) \<and> bit m i"
proof -
  have "unat v < 4" using v by auto
  then show ?thesis
    using low high apart unfolding leave_def previous [OF v]
    by (auto simp: le_less_Suc_eq pie.bit_set_field pp.bit_set_field field.bit_set_field [OF field_IE_power [OF v(1)]] pie.bit_get_field bit_enter [OF v(1)])
qed

end

interpretation M: trap_level "0x8" "0x80" "0x1800" 3 7 11 2 by unfold_locales simp_all
interpretation S: trap_level "0x2" "0x20" "0x100" 1 5 8 1 by unfold_locales simp_all

text \<open>The status word after a trap to machine mode and after the return are the ones of the levels.\<close>

lemma enter_control_bits:
  assumes "v \<in> {0, 1, 3}" "i \<notin> control_bits"
  shows "bit (M.enter m v) i = bit m i" "bit (S.enter m v) i = bit m i"
proof -
  have "i \<noteq> 1" "i \<noteq> 3" "i \<noteq> 5" "i \<noteq> 7" "i \<noteq> 8" "i \<noteq> 11" "i \<noteq> 12" using assms(2) by (auto simp: control_bits_def)
  moreover from this have "(11 \<le> i \<and> i < 11 + 2) = False" "(8 \<le> i \<and> i < 8 + 1) = False" by arith+
  ultimately show "bit (M.enter m v) i = bit m i" "bit (S.enter m v) i = bit m i"
    by (simp_all only: M.bit_enter [OF assms(1)] S.bit_enter [OF assms(1)] if_False simp_thms)
qed

text \<open>The state after a trap, and the parts of the hart that a trap leaves alone.\<close>

definition same_hart :: "processor_t \<Rightarrow> processor_t \<Rightarrow> bool" where
  "same_hart p q \<longleftrightarrow> isa q = isa p \<and> max_isa q = max_isa p \<and> max_xlen q = max_xlen p \<and> has_ext q = has_ext p \<and> hart_id q = hart_id p"

lemma hart_ok_prv: "hart_ok p \<Longrightarrow> prv (state p) \<in> {0, 1, 3}"
  by (simp add: hart_ok_def state_ok_def)

lemma same_hart_updates [simp]:
  "same_hart p (update_state f p)" "same_hart p (set_mstatus m p)" "same_hart p (mmu_flush_tlb p)" "same_hart p p"
  by (simp_all add: same_hart_def update_state_def set_mstatus_def mmu_flush_tlb_def Let_def)

lemma same_hart_trans: "same_hart p q \<Longrightarrow> same_hart q r \<Longrightarrow> same_hart p r"
  by (simp add: same_hart_def)

lemma state_updates [simp]:
  "state (update_state f p) = f (state p)" "state (mmu_flush_tlb p) = state p"
  by (simp_all add: update_state_def mmu_flush_tlb_def)

lemma set_privilege_state:
  "v \<in> {0, 1, 3} \<Longrightarrow> \<exists>q. set_privilege v p = Some q \<and> state q = (state p)\<lparr>prv := v\<rparr> \<and> same_hart p q"
  by (auto simp: set_privilege_def Let_def intro!: same_hart_trans [OF same_hart_updates(3) same_hart_updates(1)])

text \<open>Writing a status word that \<open>control_bits\<close> tell from the old one and changing the privilege level.\<close>

lemma set_mstatus_state_exact:
  assumes "hart_ok p" "\<And>i. i \<notin> control_bits \<Longrightarrow> bit v i = bit (mstatus (state p)) i"
  shows "state (set_mstatus v p) = (state p)\<lparr>mstatus := v\<rparr>"
  using set_mstatus_state [of v p] set_mstatus_exact [OF assms] by simp

lemma trap_state:
  assumes ok: "hart_ok p" and e: "e = M.enter \<and> l = 3 \<or> e = S.enter \<and> l = 1"
    and f: "hart_ok (update_state f p)" "mstatus (f (state p)) = mstatus (state p)"
  shows "\<exists>q. set_privilege l (set_mstatus (e (mstatus (state p)) (prv (state p))) (update_state f p)) = Some q \<and>
    state q = (f (state p))\<lparr>mstatus := e (mstatus (state p)) (prv (state p)), prv := l\<rparr> \<and> same_hart p q"
proof -
  let ?m = "e (mstatus (state p)) (prv (state p))" and ?p = "update_state f p"
  have m: "state (set_mstatus ?m ?p) = (f (state p))\<lparr>mstatus := ?m\<rparr>"
    using set_mstatus_state_exact [OF f(1), of ?m] enter_control_bits [OF hart_ok_prv [OF ok]] e f(2) by auto
  have "same_hart p (set_mstatus ?m ?p)" by (rule same_hart_trans [OF same_hart_updates(1,2)])
  moreover have "l \<in> {0, 1, 3}" using e by auto
  ultimately show ?thesis
    using set_privilege_state [of l "set_mstatus ?m ?p"] by (auto simp: m intro: same_hart_trans)
qed

lemma trap_to_M_state:
  assumes "hart_ok p"
  shows "\<exists>q. trap_to_M t epc p = Some q \<and> same_hart p q \<and>
    state q = (state p)\<lparr>st_pc := mtvec (state p), mepc := epc, mcause := trap_cause t,
      mbadaddr := (case trap_badaddr t of Some a \<Rightarrow> a | None \<Rightarrow> mbadaddr (state p)),
      mstatus := M.enter (mstatus (state p)) (prv (state p)), prv := 3\<rparr>"
  using trap_state [OF assms disjI1, of _ _ "\<lambda>s. s\<lparr>st_pc := mtvec s, mepc := epc, mcause := trap_cause t,
      mbadaddr := (case trap_badaddr t of Some a \<Rightarrow> a | None \<Rightarrow> mbadaddr s)\<rparr>", OF _ free_fields_ok(4) [OF assms]]
  by (auto simp: trap_to_M_def Let_def M.enter_def)

lemma trap_to_S_state:
  assumes "hart_ok p"
  shows "\<exists>q. trap_to_S t epc p = Some q \<and> same_hart p q \<and>
    state q = (state p)\<lparr>st_pc := stvec (state p), scause := trap_cause t, sepc := epc,
      sbadaddr := (case trap_badaddr t of Some a \<Rightarrow> a | None \<Rightarrow> sbadaddr (state p)),
      mstatus := S.enter (mstatus (state p)) (prv (state p)), prv := 1\<rparr>"
  using trap_state [OF assms disjI2, of _ _ "\<lambda>s. s\<lparr>st_pc := stvec s, scause := trap_cause t, sepc := epc,
      sbadaddr := (case trap_badaddr t of Some a \<Rightarrow> a | None \<Rightarrow> sbadaddr s)\<rparr>", OF _ free_fields_ok(3) [OF assms]]
  by (auto simp: trap_to_S_def Let_def S.enter_def)

text \<open>A trap that neither enters nor happens in debug mode.\<close>

definition plain_trap :: "trap_t \<Rightarrow> processor_t \<Rightarrow> bool" where
  "plain_trap t p \<longleftrightarrow> dcsr_cause (dcsr (state p)) = 0 \<and> \<not> (trap_cause t = CAUSE_BREAKPOINT \<and> ebreak_to_debug (state p))"

lemma take_trap_plain:
  assumes "hart_ok p" "plain_trap t p" "(if delegated t p then trap_to_S t epc p else trap_to_M t epc p) = Some q"
  shows "take_trap t epc p = Some (yield_load_reservation q)" "hart_ok (yield_load_reservation q)"
proof -
  show t: "take_trap t epc p = Some (yield_load_reservation q)"
    using assms(2,3) by (auto simp: take_trap_def plain_trap_def)
  show "hart_ok (yield_load_reservation q)" using take_trap_ok [OF assms(1), of t epc] by (simp add: t)
qed

lemma leave_enter_control_bits:
  assumes "v \<in> {0, 1, 3}" "i \<notin> control_bits"
  shows "bit (M.leave (M.enter m v)) i = bit m i" "unat v < 2 \<Longrightarrow> bit (S.leave (S.enter m v)) i = bit m i"
proof -
  have n: "i \<noteq> 1" "i \<noteq> 3" "i \<noteq> 5" "i \<noteq> 7" "i \<noteq> 8" "i \<noteq> 11" "i \<noteq> 12" using assms(2) by (auto simp: control_bits_def)
  then have "(11 \<le> i \<and> i < 11 + 2) = False" "(8 \<le> i \<and> i < 8 + 1) = False" by arith+
  then show "bit (M.leave (M.enter m v)) i = bit m i" "unat v < 2 \<Longrightarrow> bit (S.leave (S.enter m v)) i = bit m i"
    using n assms(1) by (auto simp: M.bit_leave_enter S.bit_leave_enter)
qed

text \<open>Returning to level \<open>v\<close> with a status word that \<open>control_bits\<close> tell from the old one.\<close>

lemma return_state:
  assumes ok: "hart_ok q" and v: "v \<in> {0, 1, 3}"
    and m: "\<And>i. i \<notin> control_bits \<Longrightarrow> bit m i = bit (mstatus (state q)) i"
  shows "\<exists>r. serialize_after (map_option (set_mstatus m) (set_privilege v q)) = Done PC_SERIALIZE_AFTER r \<and>
    state r = (state q)\<lparr>prv := v, mstatus := m\<rparr> \<and> same_hart q r"
proof -
  obtain q' where q': "set_privilege v q = Some q'" "state q' = (state q)\<lparr>prv := v\<rparr>" "same_hart q q'"
    using set_privilege_state [OF v, of q] by blast
  have "hart_ok q'" using set_privilege_ok [OF ok, of v] v q'(1) by auto
  then have "state (set_mstatus m q') = (state q)\<lparr>prv := v, mstatus := m\<rparr>"
    using set_mstatus_state_exact [of q' m] m q'(2) by simp
  then show ?thesis using q'(1) same_hart_trans [OF q'(3) same_hart_updates(2)] by (simp add: serialize_after_def)
qed

lemma same_hart_supports: "same_hart p q \<Longrightarrow> supports_extension c q = supports_extension c p"
  by (simp add: same_hart_def supports_extension_def)

lemma resume_state:
  assumes ok: "hart_ok q" and v: "v \<in> {0, 1, 3}"
    and m: "\<And>i. i \<notin> control_bits \<Longrightarrow> bit m i = bit (mstatus (state q)) i"
    and epc: "epc AND 2 = 0 \<or> supports_extension CHR ''C'' q"
  shows "\<exists>r. set_pc_and_serialize epc (\<lambda>p. serialize_after (map_option (set_mstatus m) (set_privilege v p))) q =
      Done PC_SERIALIZE_AFTER r \<and> state r = (state q)\<lparr>st_pc := epc, prv := v, mstatus := m\<rparr>"
proof -
  have "set_pc_and_serialize epc k q = k (update_state (\<lambda>s. s\<lparr>st_pc := epc\<rparr>) q)" for k
    using epc by (auto simp: set_pc_and_serialize_def)
  then show ?thesis using return_state [OF free_fields_ok(1) [OF ok, of "\<lambda>s. epc"] v, where m = m] m by auto
qed

text \<open>
  A trap to machine mode followed at once by \<^verbatim>\<open>mret\<close>: execution resumes at the trapped instruction, at its level;
  of the status word only the previous-level fields are cleared and, for a trap from below, the machine enable.
\<close>

lemma trap_mret:
  assumes ok: "hart_ok p" and t: "plain_trap t p" "\<not> delegated t p" and epc: "epc AND 2 = 0 \<or> supports_extension CHR ''C'' p"
  shows "\<exists>q r m. take_trap t epc p = Some q \<and> st_pc (state q) = mtvec (state p) \<and> prv (state q) = 3 \<and>
    mcause (state q) = trap_cause t \<and> \<not> bit (mstatus (state q)) 3 \<and>
    insn_mret q = Done PC_SERIALIZE_AFTER r \<and>
    state r = (state p)\<lparr>st_pc := epc, mepc := epc, mcause := trap_cause t,
      mbadaddr := (case trap_badaddr t of Some a \<Rightarrow> a | None \<Rightarrow> mbadaddr (state p)), load_reservation := - 1, mstatus := m\<rparr> \<and>
    (\<forall>i. bit m i \<longleftrightarrow> i \<notin> {7, 11, 12} \<and> (i = 3 \<longrightarrow> prv (state p) = 3) \<and> bit (mstatus (state p)) i)"
proof -
  define v and m0 where "v = prv (state p)" and "m0 = mstatus (state p)"
  have v: "v \<in> {0, 1, 3}" "unat v < 2 ^ 2" using hart_ok_prv [OF ok] by (auto simp: v_def)
  obtain q0 where q0: "trap_to_M t epc p = Some q0" "same_hart p q0"
    "state q0 = (state p)\<lparr>st_pc := mtvec (state p), mepc := epc, mcause := trap_cause t,
      mbadaddr := (case trap_badaddr t of Some a \<Rightarrow> a | None \<Rightarrow> mbadaddr (state p)), mstatus := M.enter m0 v, prv := 3\<rparr>"
    using trap_to_M_state [OF ok, of t epc] by (auto simp: v_def m0_def)
  let ?q = "yield_load_reservation q0" and ?m = "M.leave (M.enter m0 v)"
  note tt = take_trap_plain [OF ok t(1), of epc q0, unfolded if_not_P [OF t(2)], OF q0(1)]
  have q: "state ?q = (state q0)\<lparr>load_reservation := - 1\<rparr>" "same_hart q0 ?q" by (simp_all add: yield_load_reservation_def)
  have "bit ?m i = bit (mstatus (state ?q)) i" if "i \<notin> control_bits" for i
    using leave_enter_control_bits(1) [OF v(1) that, of m0] enter_control_bits(1) [OF v(1) that, of m0] by (auto simp: q q0)
  from resume_state [OF tt(2) v(1) this] epc same_hart_supports [OF same_hart_trans [OF q0(2) q(2)]]
  obtain r where r: "set_pc_and_serialize epc (\<lambda>p. serialize_after (map_option (set_mstatus ?m) (set_privilege v p))) ?q =
      Done PC_SERIALIZE_AFTER r" "state r = (state ?q)\<lparr>st_pc := epc, prv := v, mstatus := ?m\<rparr>" by blast
  have "insn_mret ?q = Done PC_SERIALIZE_AFTER r"
    using r(1) M.previous [OF v, of m0] unfolding insn_mret_def
    by (simp add: require_privilege_def set_pc_and_serialize_def q q0 M.leave_def split: if_splits)
  moreover have "bit ?m i \<longleftrightarrow> i \<notin> {7, 11, 12} \<and> (i = 3 \<longrightarrow> v = 3) \<and> bit m0 i" for i
    using v(1) unfolding M.bit_leave_enter [OF v] by auto
  ultimately show ?thesis
    using tt(1) M.bit_enter [OF v(1), of m0 3]
    by (intro exI [of _ ?q] exI [of _ r] exI [of _ ?m]) (simp add: r(2) q q0 v_def m0_def)
qed

text \<open>A delegated trap followed at once by \<^verbatim>\<open>sret\<close>.\<close>

lemma trap_sret:
  assumes ok: "hart_ok p" and t: "plain_trap t p" "delegated t p" and epc: "epc AND 2 = 0 \<or> supports_extension CHR ''C'' p"
  shows "\<exists>q r m. take_trap t epc p = Some q \<and> st_pc (state q) = stvec (state p) \<and> prv (state q) = 1 \<and>
    scause (state q) = trap_cause t \<and> \<not> bit (mstatus (state q)) 1 \<and>
    insn_sret q = Done PC_SERIALIZE_AFTER r \<and>
    state r = (state p)\<lparr>st_pc := epc, sepc := epc, scause := trap_cause t,
      sbadaddr := (case trap_badaddr t of Some a \<Rightarrow> a | None \<Rightarrow> sbadaddr (state p)), load_reservation := - 1, mstatus := m\<rparr> \<and>
    (\<forall>i. bit m i \<longleftrightarrow> i \<notin> {5, 8} \<and> (i = 1 \<longrightarrow> prv (state p) = 1) \<and> bit (mstatus (state p)) i)"
proof -
  define v and m0 where "v = prv (state p)" and "m0 = mstatus (state p)"
  have v: "v \<in> {0, 1, 3}" "unat v < 2 ^ 1" using hart_ok_prv [OF ok] t(2) by (auto simp: v_def delegated_def Let_def word_le_nat_alt)
  obtain q0 where q0: "trap_to_S t epc p = Some q0" "same_hart p q0"
    "state q0 = (state p)\<lparr>st_pc := stvec (state p), scause := trap_cause t, sepc := epc,
      sbadaddr := (case trap_badaddr t of Some a \<Rightarrow> a | None \<Rightarrow> sbadaddr (state p)), mstatus := S.enter m0 v, prv := 1\<rparr>"
    using trap_to_S_state [OF ok, of t epc] by (auto simp: v_def m0_def)
  let ?q = "yield_load_reservation q0" and ?m = "S.leave (S.enter m0 v)"
  note tt = take_trap_plain [OF ok t(1), of epc q0, unfolded if_P [OF t(2)], OF q0(1)]
  have q: "state ?q = (state q0)\<lparr>load_reservation := - 1\<rparr>" "same_hart q0 ?q" by (simp_all add: yield_load_reservation_def)
  have "bit ?m i = bit (mstatus (state ?q)) i" if "i \<notin> control_bits" for i
    using leave_enter_control_bits(2) [OF v(1) that, of m0] enter_control_bits(2) [OF v(1) that, of m0] v(2) by (simp add: q q0)
  from resume_state [OF tt(2) v(1) this] epc same_hart_supports [OF same_hart_trans [OF q0(2) q(2)]]
  obtain r where r: "set_pc_and_serialize epc (\<lambda>p. serialize_after (map_option (set_mstatus ?m) (set_privilege v p))) ?q =
      Done PC_SERIALIZE_AFTER r" "state r = (state ?q)\<lparr>st_pc := epc, prv := v, mstatus := ?m\<rparr>" by blast
  have "insn_sret ?q = Done PC_SERIALIZE_AFTER r"
    using r(1) S.previous [OF v, of m0] unfolding insn_sret_def
    by (simp add: require_privilege_def set_pc_and_serialize_def q q0 S.leave_def split: if_splits)
  moreover have "bit ?m i \<longleftrightarrow> i \<notin> {5, 8} \<and> (i = 1 \<longrightarrow> v = 1) \<and> bit m0 i" for i
    using v(1) unfolding S.bit_leave_enter [OF v] by auto
  ultimately show ?thesis
    using tt(1) S.bit_enter [OF v(1), of m0 1]
    by (intro exI [of _ ?q] exI [of _ r] exI [of _ ?m]) (simp add: r(2) q q0 v_def m0_def)
qed

end
