(* ===== verification/Riscv_Isolation.thy ===== *)
theory Riscv_Isolation
  imports Riscv_Return
begin

text \<open>
  What code below machine mode can change through its registers, and the hardware triggers.
\<close>

subsection \<open>What a supervisor can reach\<close>

text \<open>
  What changes from \<open>p\<close> to \<open>q\<close> when code below machine mode writes a register: nothing of the machine level's own
  registers, only the supervisor's part of the status word and the interrupts that are delegated.
\<close>

definition differ_in :: "nat set \<Rightarrow> u64 \<Rightarrow> u64 \<Rightarrow> bool" where
  "differ_in A x y \<longleftrightarrow> (\<forall>i. bit x i \<noteq> bit y i \<longrightarrow> i \<in> A)"

lemma differ_in_refl [simp]: "differ_in A x x"
  by (simp add: differ_in_def)

lemma differ_in_trans: "differ_in A x y \<Longrightarrow> differ_in A y z \<Longrightarrow> differ_in A x z"
  unfolding differ_in_def by metis

definition machine_registers_kept :: "state_t \<Rightarrow> state_t \<Rightarrow> bool" where
  "machine_registers_kept s t \<longleftrightarrow>
     prv t = prv s \<and> mtvec t = mtvec s \<and> mepc t = mepc s \<and> mcause t = mcause s \<and> mscratch t = mscratch s \<and>
     mbadaddr t = mbadaddr s \<and> medeleg t = medeleg s \<and> mideleg t = mideleg s \<and> mucounteren t = mucounteren s \<and>
     mscounteren t = mscounteren s \<and> minstret t = minstret s \<and> dcsr t = dcsr s \<and> dpc t = dpc s \<and> dscratch t = dscratch s \<and>
     tselect t = tselect s \<and> mcontrol t = mcontrol s \<and> tdata2 t = tdata2 s"

definition isolated :: "processor_t \<Rightarrow> processor_t \<Rightarrow> bool" where
  "isolated p q \<longleftrightarrow> machine_registers_kept (state p) (state q) \<and> same_hart p q \<and> xlen q = xlen p \<and>
     differ_in {1, 5, 8, 13, 14, 15, 16, 18, max_xlen p - 1} (mstatus (state p)) (mstatus (state q)) \<and>
     differ_in {i. i = 1 \<and> bit (mideleg (state p)) i} (mip (state p)) (mip (state q)) \<and>
     differ_in {i. bit (mideleg (state p)) i} (mie (state p)) (mie (state q))"

lemma isolated_refl: "isolated p p"
  by (simp add: isolated_def machine_registers_kept_def)

lemma isolated_trans: "isolated p q \<Longrightarrow> isolated q r \<Longrightarrow> isolated p r"
  by (simp add: isolated_def machine_registers_kept_def same_hart_def) (blast intro: differ_in_trans)

definition keeps :: "processor_t \<Rightarrow> processor_t option \<Rightarrow> bool" where
  "keeps p r = (case r of Some q \<Rightarrow> isolated p q | None \<Rightarrow> True)"

lemma keeps_Some [simp]: "keeps p (Some q) \<longleftrightarrow> isolated p q"
  by (simp add: keeps_def)

lemma keeps_if: "(c \<Longrightarrow> keeps p a) \<Longrightarrow> (\<not> c \<Longrightarrow> keeps p b) \<Longrightarrow> keeps p (if c then a else b)"
  by simp

lemma bit_sstatus_mask: "bit sstatus_mask i \<longleftrightarrow> i \<in> {1, 5, 8, 13, 14, 15, 16, 18}"
  unfolding sstatus_mask_def by (simp only: bit_or_iff status_bits insert_iff empty_iff simp_thms disj_assoc)

lemma sstatus_isolated:
  assumes ok: "hart_ok p"
  shows "isolated p (set_mstatus (masked_write sstatus_mask (mstatus (state p)) val) p)"
proof -
  let ?v = "masked_write sstatus_mask (mstatus (state p)) val" and ?m = "mstatus (state p)"
  note d = hart_okD [OF ok]
  have "bit (mstatus (state (set_mstatus ?v p))) i = bit ?m i" if i: "\<not> bit sstatus_mask i" "i \<noteq> max_xlen p - 1" for i
  proof (cases "mstatus_writable p i \<or> validate_vm (max_xlen p) (get_field (zext_xlen (xlen p) ?v) 0x1F000000) \<and> 24 \<le> i \<and> i < 29")
    case True
    have "bit (zext_xlen (xlen p) ?v) i = bit ?m i"
      using writable_low [OF True] d(1,2) i(1) by (auto simp: bit_zext_xlen bit_masked_write)
    then show ?thesis unfolding bit_set_mstatus [OF d(1,2), of ?v i] if_not_P [OF i(2)] if_P [OF True] .
  next
    case False
    show ?thesis unfolding bit_set_mstatus [OF d(1,2), of ?v i] if_not_P [OF i(2)] if_not_P [OF False] by (rule refl)
  qed
  then have m: "differ_in {1, 5, 8, 13, 14, 15, 16, 18, max_xlen p - 1} ?m (mstatus (state (set_mstatus ?v p)))"
    unfolding bit_sstatus_mask differ_in_def by blast
  define m' where "m' = mstatus (state (set_mstatus ?v p))"
  have st: "state (set_mstatus ?v p) = (state p)\<lparr>mstatus := m'\<rparr>" unfolding m'_def by (rule set_mstatus_state)
  show ?thesis
    unfolding isolated_def st using m unfolding m'_def [symmetric] by (simp add: d(2) machine_registers_kept_def)
qed

lemma dirty_fp_isolated:
  assumes ok: "hart_ok p"
  shows "isolated p (update_state (\<lambda>s. s\<lparr>fflags := a s, frm := b s\<rparr>) (dirty_fp_state p))"
    "isolated p (update_state (\<lambda>s. s\<lparr>fflags := a s\<rparr>) (dirty_fp_state p))"
    "isolated p (update_state (\<lambda>s. s\<lparr>frm := b s\<rparr>) (dirty_fp_state p))"
proof -
  define d :: u64 where "d = 0x6000 OR (if xlen p = 64 then 0x8000000000000000 else 0x80000000)"
  have "bit d i \<Longrightarrow> i = 13 \<or> i = 14 \<or> i = max_xlen p - 1" for i
  proof (cases "xlen p = 64")
    case True
    show "bit d i \<Longrightarrow> ?thesis"
      using True hart_okD(2) [OF ok] unfolding d_def if_P [OF True] bit_or_iff status_bits f_SD64.bit_M by linarith
  next
    case False
    then have "max_xlen p = 32" using hart_okD(1,2) [OF ok] by simp
    then show "bit d i \<Longrightarrow> ?thesis"
      unfolding d_def if_not_P [OF False] bit_or_iff status_bits f_SD32.bit_M by linarith
  qed
  then have "differ_in {1, 5, 8, 13, 14, 15, 16, 18, max_xlen p - 1} (mstatus (state p)) (mstatus (state p) OR d)"
    unfolding differ_in_def bit_or_iff by blast
  then show "isolated p (update_state (\<lambda>s. s\<lparr>fflags := a s, frm := b s\<rparr>) (dirty_fp_state p))"
    "isolated p (update_state (\<lambda>s. s\<lparr>fflags := a s\<rparr>) (dirty_fp_state p))"
    "isolated p (update_state (\<lambda>s. s\<lparr>frm := b s\<rparr>) (dirty_fp_state p))"
    unfolding isolated_def dirty_fp_state_def d_def [symmetric] by (simp_all add: same_hart_def update_state_def machine_registers_kept_def)
qed

lemma machine_csrs:
  assumes "get_field which 0x300 \<le> 1"
  shows
    "which \<noteq> 0x300" "which \<noteq> 0x344" "which \<noteq> 0x304" "which \<noteq> 0x303" "which \<noteq> 0x302" "which \<noteq> 0xB02" "which \<noteq> 0xB00" "which \<noteq> 0xB82"
    "which \<noteq> 0xB80" "which \<noteq> 0x320" "which \<noteq> 0x321" "which \<noteq> 0x341" "which \<noteq> 0x305" "which \<noteq> 0x340" "which \<noteq> 0x342" "which \<noteq> 0x343"
    "which \<noteq> 0x301" "which \<noteq> 0x7A0" "which \<noteq> 0x7A1" "which \<noteq> 0x7A2" "which \<noteq> 0x7B0" "which \<noteq> 0x7B1" "which \<noteq> 0x7B2"
  using assms by (auto simp: get_field_def word_le_nat_alt)

lemma free_fields_isolated:
  "isolated p (update_state (\<lambda>s. s\<lparr>sepc := a s\<rparr>) p)" "isolated p (update_state (\<lambda>s. s\<lparr>stvec := a s\<rparr>) p)"
  "isolated p (update_state (\<lambda>s. s\<lparr>sscratch := a s\<rparr>) p)" "isolated p (update_state (\<lambda>s. s\<lparr>scause := a s\<rparr>) p)"
  "isolated p (update_state (\<lambda>s. s\<lparr>sbadaddr := a s\<rparr>) p)" "isolated p (update_state (\<lambda>s. s\<lparr>sptbr := a s\<rparr>) p)"
  by (simp_all add: isolated_def machine_registers_kept_def same_hart_def update_state_def)

lemma interrupts_isolated:
  assumes ok: "hart_ok p"
  shows
  "isolated p (set_mip (masked_write (0x2 AND mideleg (state p)) (mip (state p)) val) p)"
  "isolated p (set_mie (masked_write (mideleg (state p)) (mie (state p)) val) p)"
proof -
  have z: "bit (zext_xlen (xlen p) v) i = bit v i" if "i < 32" for v i
    using that hart_okD(1,2) [OF ok] by (auto simp: bit_zext_xlen)
  have low: "bit (0x22 :: u64) i \<Longrightarrow> i < 32" "bit (0x12AA :: u64) i \<Longrightarrow> i < 32" for i
    using bit_take_bit_iff [of 32 "0x22 :: u64" i] bit_take_bit_iff [of 32 "0x12AA :: u64" i] by simp_all
  show "isolated p (set_mip (masked_write (0x2 AND mideleg (state p)) (mip (state p)) val) p)"
  proof -
    define k where "k = 0x2 AND mideleg (state p)"
    have "bit k i \<longleftrightarrow> i = 1 \<and> bit (mideleg (state p)) i" for i unfolding k_def bit_and_iff status_bits by (rule refl)
    then show ?thesis unfolding k_def [symmetric]
      using z low(1) by (auto simp: isolated_def machine_registers_kept_def set_mip_def same_hart_def update_state_def bit_masked_write differ_in_def)
  qed
  show "isolated p (set_mie (masked_write (mideleg (state p)) (mie (state p)) val) p)"
    using z low(2) by (auto simp: isolated_def machine_registers_kept_def set_mie_def same_hart_def update_state_def bit_masked_write differ_in_def)
qed

lemma sptbr_isolated: "keeps p (map_option (\<lambda>n. update_state (\<lambda>s. s\<lparr>sptbr := a n s\<rparr>) p) r)"
  by (cases r) (simp_all add: free_fields_isolated keeps_def)

lemma set_csr_isolated:
  assumes ok: "hart_ok p" and which: "get_field which 0x300 \<le> 1"
  shows "keeps p (set_csr which val p)"
  unfolding set_csr_def Let_def machine_csrs [OF which, THEN Eq_FalseI] if_False simp_thms
  by (intro keeps_if)
    (simp_all only: keeps_Some dirty_fp_isolated [OF ok] sptbr_isolated sstatus_isolated [OF ok] free_fields_isolated
      interrupts_isolated [OF ok] isolated_refl)

text \<open>A CSR instruction below machine mode.\<close>

lemma csr_insn_isolated:
  assumes ok: "hart_ok p" and below: "prv (state p) < 3" and run: "csr_insn debugint xl npc b write f p = Done npc' q"
  shows "isolated p q"
proof (cases "serialized (state p)")
  case False
  then show ?thesis using run by (auto simp: csr_insn_def validate_csr_def isolated_refl)
next
  case True
  define p1 where "p1 = update_state (\<lambda>s. s\<lparr>serialized := False\<rparr>) p"
  have p1: "hart_ok p1" "isolated p p1" "prv (state p1) = prv (state p)"
    using free_fields_ok(6) [OF ok] by (simp_all add: p1_def isolated_def machine_registers_kept_def same_hart_def update_state_def)
  have run1: "\<not> prv (state p1) < get_field (csr b) 0x300"
    "(case get_csr debugint (csr b) p1 of Inl t \<Rightarrow> Raise t p1 | Inr old \<Rightarrow>
       (case (if write then set_csr (csr b) (f old) p1 else Some p1) of None \<Rightarrow> Abort
        | Some p \<Rightarrow> Done npc (write_reg (rd b) (sext_xlen xl old) p))) = Done npc' q"
    using run True by (auto simp: csr_insn_def validate_csr_def p1_def [symmetric] Let_def split: if_splits)
  have "prv (state p) \<le> 1" using hart_ok_prv [OF ok] below by (auto simp: word_le_nat_alt)
  then have w: "get_field (csr b) 0x300 \<le> 1" using run1(1) p1(3) by simp
  obtain old p2 where p2: "(if write then set_csr (csr b) (f old) p1 else Some p1) = Some p2" "q = write_reg (rd b) (sext_xlen xl old) p2"
    using run1(2) by (auto split: sum.splits option.splits)
  have "isolated p1 p2"
    using p2(1) set_csr_isolated [OF p1(1) w, of "f old"] by (auto simp: isolated_refl split: if_splits)
  moreover have "isolated p2 q" unfolding p2(2) by (simp add: write_reg_def isolated_def machine_registers_kept_def same_hart_def update_state_def)
  ultimately show ?thesis using p1(2) by (blast intro: isolated_trans)
qed

subsection \<open>Hardware triggers\<close>

text \<open>
  A trigger that is chained never holds back the next one: the result is the one of the triggers that are not chained,
  as if the chained ones were not armed at all.
\<close>

definition disarm :: "mcontrol_t \<times> u64 \<Rightarrow> mcontrol_t \<times> u64" where
  "disarm x = (if mc_chain (fst x) then ((fst x)\<lparr>mc_execute := False, mc_store := False, mc_load := False\<rparr>, snd x) else x)"

definition napot_in_range :: "mcontrol_t \<times> u64 \<Rightarrow> bool" where
  "napot_in_range x \<longleftrightarrow> (mc_match (fst x) = 1 \<longrightarrow> cto (snd x) < 31)"

lemma trigger_compare_defined: "napot_in_range (mc, td) \<Longrightarrow> \<exists>b. trigger_compare xl mc td v = Some b"
  by (auto simp: napot_in_range_def trigger_compare_def Let_def)

lemma trigger_loop_disarm:
  assumes "list_all napot_in_range l"
  shows "trigger_loop operation address data prv' xl i True (map disarm l) = trigger_loop operation address data prv' xl i True l"
  using assms
proof (induction l arbitrary: i)
  case (Cons x l)
  obtain mc td where x: "x = (mc, td)" by force
  define v where "v = (let v = if mc_select mc then data else address in if xl = 32 then v AND 0xFFFFFFFF else v)"
  obtain b where b: "trigger_compare xl mc td v = Some b"
    using Cons.prems trigger_compare_defined [of mc td xl v] by (auto simp: x)
  have IH: "trigger_loop operation address data prv' xl j True (map disarm l) = trigger_loop operation address data prv' xl j True l" for j
    using Cons by simp
  have step: "trigger_loop operation address data prv' xl i True (x # k) =
      (if trigger_skipped operation prv' mc \<or> mc_chain mc \<or> \<not> b then trigger_loop operation address data prv' xl (Suc i) True k
       else Some (Some i))" for k
    using b by (cases b) (simp_all add: x v_def Let_def)
  show ?case
  proof (cases "mc_chain mc")
    case True
    then have "trigger_skipped operation prv' (fst (disarm x))"
      by (cases operation) (simp_all add: disarm_def x trigger_skipped_def)
    then have "trigger_loop operation address data prv' xl i True (map disarm (x # l)) = trigger_loop operation address data prv' xl (Suc i) True l"
      using IH by (cases "disarm x") simp
    then show ?thesis using True by (simp add: step del: trigger_loop.simps)
  next
    case False
    then have "disarm x = x" by (simp add: disarm_def x)
    then show ?thesis using IH by (simp add: step del: trigger_loop.simps)
  qed
qed simp

end
