(* ===== verification/Riscv_Devices.thy ===== *)
theory Riscv_Devices
  imports Riscv_Hart SoftFloat_State
begin

text \<open>
  The simulated machine: main memory, the harts, and the memory-mapped devices of \<^verbatim>\<open>riscv/devices.cc\<close>, \<^verbatim>\<open>rtc.cc\<close>,
  \<^verbatim>\<open>rom.cc\<close> and \<^verbatim>\<open>debug_module.cc\<close> behind the bus of \<^verbatim>\<open>sim_t\<close>.  A device access that returns false is \<open>None\<close>; its
  message on stderr is not modelled.
\<close>

subsection \<open>Bytes\<close>

text \<open>The bytes of a word in memory, lowest first, and back.\<close>

fun word_bytes :: "nat \<Rightarrow> u64 \<Rightarrow> u8 list" where
  "word_bytes 0 w = []"
| "word_bytes (Suc n) w = ucast w # word_bytes n (drop_bit 8 w)"

definition reg_from_bytes :: "nat \<Rightarrow> u8 list \<Rightarrow> u64 option" where
  "reg_from_bytes len bytes =
     (let b = (\<lambda>i. push_bit (8 * i) (ucast (bytes ! i) :: u64))
      in if len = 1 then Some (b 0)
         else if len = 2 then Some (b 0 OR b 1)
         else if len = 4 then Some (b 0 OR b 1 OR b 2 OR b 3)
         else if len = 8 then Some (b 0 OR b 1 OR b 2 OR b 3 OR b 4 OR b 5 OR b 6 OR b 7)
         else None)"

text \<open>\<^verbatim>\<open>memcpy\<close> into an array.\<close>

definition memcpy_at :: "nat \<Rightarrow> 'a list \<Rightarrow> 'a list \<Rightarrow> 'a list" where
  "memcpy_at i new old = take i old @ new @ drop (i + length new) old"

fun group8 :: "u8 list \<Rightarrow> u64 list" where
  "group8 (b0 # b1 # b2 # b3 # b4 # b5 # b6 # b7 # bs) = the (reg_from_bytes 8 [b0, b1, b2, b3, b4, b5, b6, b7]) # group8 bs"
| "group8 _ = []"

subsection \<open>The machine\<close>

text \<open>The devices on the bus; a hart is the device of its interprocessor interrupts.\<close>

datatype device = Debug_module | Rtc | Boot_rom | Hart nat

record debug_module_t =
  interrupt :: "u32 \<Rightarrow> bool"
  halt_notification :: "u32 \<Rightarrow> bool"
  debug_ram :: "u8 list"

text \<open>
  \<^verbatim>\<open>mem\<close> is indexed by the offset from the host pointer; \<open>devices\<close> is the \<^verbatim>\<open>std::map\<close> of the bus, whose keys are the
  negated base addresses; \<open>fpu\<close> holds the global variables of SoftFloat.
\<close>

record sim_t =
  mem :: "u64 \<Rightarrow> u8"
  memsz :: u64
  procs :: "processor_t list"
  devices :: "(u64 \<times> device) list"
  rtc_regs :: "u64 list"
  boot_rom :: "u8 list"
  debug_module :: debug_module_t
  fpu :: softfloat_state
  current_step :: nat
  current_proc :: nat

abbreviation (input) DRAM_BASE :: u64 where "DRAM_BASE \<equiv> 0x80000000"
abbreviation (input) DEBUG_START :: u64 where "DEBUG_START \<equiv> 0x100"
abbreviation (input) DEBUG_ROM_START :: u64 where "DEBUG_ROM_START \<equiv> 0x800"
abbreviation (input) DEBUG_ROM_END :: u64 where "DEBUG_ROM_END \<equiv> 0x894"
abbreviation (input) DEBUG_RAM_START :: u64 where "DEBUG_RAM_START \<equiv> 0x400"
abbreviation (input) DEBUG_RAM_END :: u64 where "DEBUG_RAM_END \<equiv> 0x440"
abbreviation (input) DEBUG_CLEARDEBINT :: u64 where "DEBUG_CLEARDEBINT \<equiv> 0x100"
abbreviation (input) DEBUG_SETHALTNOT :: u64 where "DEBUG_SETHALTNOT \<equiv> 0x10C"
abbreviation (input) EXT_IO_BASE :: u64 where "EXT_IO_BASE \<equiv> 0x40000000"
abbreviation (input) DEFAULT_RSTVEC :: u64 where "DEFAULT_RSTVEC \<equiv> 0x1000"
abbreviation (input) MIP_MTIP :: u64 where "MIP_MTIP \<equiv> 0x80"

definition get_proc :: "nat \<Rightarrow> sim_t \<Rightarrow> processor_t" where
  "get_proc i s = procs s ! i"

definition update_proc :: "nat \<Rightarrow> (processor_t \<Rightarrow> processor_t) \<Rightarrow> sim_t \<Rightarrow> sim_t" where
  "update_proc i f s = s\<lparr>procs := (procs s)[i := f (procs s ! i)]\<rparr>"

definition addr_is_mem :: "u64 \<Rightarrow> sim_t \<Rightarrow> bool" where
  "addr_is_mem addr s \<longleftrightarrow> DRAM_BASE \<le> addr \<and> addr < DRAM_BASE + memsz s"

definition addr_to_mem :: "u64 \<Rightarrow> u64" where
  "addr_to_mem addr = addr - DRAM_BASE"

definition mem_to_addr :: "u64 \<Rightarrow> u64" where
  "mem_to_addr x = x + DRAM_BASE"

text \<open>Reading and writing \<open>len\<close> bytes of main memory at a host pointer.\<close>

definition read_mem :: "u64 \<Rightarrow> nat \<Rightarrow> sim_t \<Rightarrow> u8 list" where
  "read_mem ptr len s = map (\<lambda>i. mem s (ptr + of_nat i)) [0..<len]"

fun write_bytes :: "u64 \<Rightarrow> u8 list \<Rightarrow> (u64 \<Rightarrow> u8) \<Rightarrow> u64 \<Rightarrow> u8" where
  "write_bytes ptr [] m = m"
| "write_bytes ptr (b # bs) m = write_bytes (ptr + 1) bs (m(ptr := b))"

definition write_mem :: "u64 \<Rightarrow> u8 list \<Rightarrow> sim_t \<Rightarrow> sim_t" where
  "write_mem ptr bytes s = s\<lparr>mem := write_bytes ptr bytes (mem s)\<rparr>"

subsection \<open>The real-time clock\<close>

definition rtc_size :: "sim_t \<Rightarrow> u64" where
  "rtc_size s = of_nat (length (rtc_regs s)) * 8"

definition rtc_load :: "u64 \<Rightarrow> nat \<Rightarrow> sim_t \<Rightarrow> u8 list option" where
  "rtc_load addr len s =
     (if addr + of_nat len > rtc_size s then None
      else Some (take len (drop (unat addr) (concat (map (word_bytes 8) (rtc_regs s))))))"

definition timer_pending :: "bool \<Rightarrow> processor_t \<Rightarrow> processor_t" where
  "timer_pending due = update_state (\<lambda>s. s\<lparr>mip := (mip s AND NOT MIP_MTIP) OR (if due then MIP_MTIP else 0)\<rparr>)"

definition rtc_increment :: "u64 \<Rightarrow> sim_t \<Rightarrow> sim_t" where
  "rtc_increment inc s =
     (let regs = (rtc_regs s)[0 := rtc_regs s ! 0 + inc]
      in s\<lparr>rtc_regs := regs,
           procs := map (\<lambda>i. timer_pending (regs ! 0 \<ge> regs ! (1 + i)) (procs s ! i)) [0..<length (procs s)]\<rparr>)"

definition rtc_store :: "u64 \<Rightarrow> u8 list \<Rightarrow> sim_t \<Rightarrow> sim_t option" where
  "rtc_store addr bytes s =
     (if addr + of_nat (length bytes) > rtc_size s \<or> addr < 8 then None
      else Some (rtc_increment 0 (s\<lparr>rtc_regs := group8 (memcpy_at (unat addr) bytes (concat (map (word_bytes 8) (rtc_regs s))))\<rparr>)))"

subsection \<open>The boot ROM\<close>

definition rom_load :: "u64 \<Rightarrow> nat \<Rightarrow> sim_t \<Rightarrow> u8 list option" where
  "rom_load addr len s =
     (if addr + of_nat len > of_nat (length (boot_rom s)) then None
      else Some (take len (drop (unat addr) (boot_rom s))))"

definition rom_store :: "u64 \<Rightarrow> u8 list \<Rightarrow> sim_t \<Rightarrow> sim_t option" where
  "rom_store addr bytes s = None"

subsection \<open>The debug module\<close>

definition debug_rom_raw :: "u8 list" where
  "debug_rom_raw =
    [0x6F, 0x00, 0xC0, 0x04, 0x6F, 0x00, 0xC0, 0x00, 0x13, 0x04, 0xF0, 0xFF, 0x6F, 0x00, 0x80, 0x00,
     0x13, 0x04, 0x00, 0x00, 0x0F, 0x00, 0xF0, 0x0F, 0xF3, 0x24, 0x10, 0x30, 0x63, 0xC6, 0x04, 0x00,
     0x83, 0x24, 0xC0, 0x43, 0x6F, 0x00, 0x80, 0x00, 0x83, 0x34, 0x80, 0x43, 0x23, 0x2E, 0x80, 0x42,
     0x73, 0x24, 0x40, 0xF1, 0x23, 0x20, 0x80, 0x10, 0x73, 0x24, 0x00, 0x7B, 0x13, 0x74, 0x84, 0x00,
     0x63, 0x12, 0x04, 0x04, 0x73, 0x24, 0x20, 0x7B, 0x73, 0x00, 0x20, 0x7B, 0x73, 0x10, 0x24, 0x7B,
     0x73, 0x24, 0x00, 0x7B, 0x13, 0x74, 0x04, 0x1C, 0x13, 0x04, 0x04, 0xF4, 0x63, 0x1E, 0x04, 0x00,
     0x73, 0x24, 0x10, 0x30, 0x63, 0x46, 0x04, 0x00, 0x23, 0x2E, 0x90, 0x42, 0x67, 0x00, 0x00, 0x40,
     0x23, 0x3C, 0x90, 0x42, 0x67, 0x00, 0x00, 0x40, 0x73, 0x24, 0x40, 0xF1, 0x23, 0x26, 0x80, 0x10,
     0x73, 0x60, 0x04, 0x7B, 0x73, 0x24, 0x00, 0x7B, 0x13, 0x74, 0x04, 0x02, 0xE3, 0x0C, 0x04, 0xFE,
     0x6F, 0xF0, 0x1F, 0xFD]"

definition set_interrupt :: "u32 \<Rightarrow> debug_module_t \<Rightarrow> debug_module_t" where
  "set_interrupt hartid d = d\<lparr>interrupt := (interrupt d)(hartid := True)\<rparr>"
definition clear_interrupt :: "u32 \<Rightarrow> debug_module_t \<Rightarrow> debug_module_t" where
  "clear_interrupt hartid d = d\<lparr>interrupt := (interrupt d)(hartid := False)\<rparr>"
definition get_interrupt :: "u32 \<Rightarrow> debug_module_t \<Rightarrow> bool" where
  "get_interrupt hartid d = interrupt d hartid"
definition set_halt_notification :: "u32 \<Rightarrow> debug_module_t \<Rightarrow> debug_module_t" where
  "set_halt_notification hartid d = d\<lparr>halt_notification := (halt_notification d)(hartid := True)\<rparr>"
definition clear_halt_notification :: "u32 \<Rightarrow> debug_module_t \<Rightarrow> debug_module_t" where
  "clear_halt_notification hartid d = d\<lparr>halt_notification := (halt_notification d)(hartid := False)\<rparr>"
definition get_halt_notification :: "u32 \<Rightarrow> debug_module_t \<Rightarrow> bool" where
  "get_halt_notification hartid d = halt_notification d hartid"

definition ram_write32 :: "nat \<Rightarrow> u32 \<Rightarrow> debug_module_t \<Rightarrow> debug_module_t" where
  "ram_write32 index value d = d\<lparr>debug_ram := (debug_ram d)[index * 4 := ucast (value AND 0xFF),
     index * 4 + 1 := ucast (drop_bit 8 value AND 0xFF), index * 4 + 2 := ucast (drop_bit 16 value AND 0xFF),
     index * 4 + 3 := ucast (drop_bit 24 value AND 0xFF)]\<rparr>"

definition ram_read32 :: "nat \<Rightarrow> debug_module_t \<Rightarrow> u32" where
  "ram_read32 index d =
     (let b = (\<lambda>i. ucast (debug_ram d ! (index * 4 + i)) :: u32)
      in b 0 OR push_bit 8 (b 1) OR push_bit 16 (b 2) OR push_bit 24 (b 3))"

definition debug_load :: "u64 \<Rightarrow> nat \<Rightarrow> sim_t \<Rightarrow> u8 list option" where
  "debug_load addr0 len s =
     (let addr = DEBUG_START + addr0
      in if DEBUG_RAM_START \<le> addr \<and> addr + of_nat len \<le> DEBUG_RAM_END
         then Some (take len (drop (unat (addr - DEBUG_RAM_START)) (debug_ram (debug_module s))))
         else if DEBUG_ROM_START \<le> addr \<and> addr + of_nat len \<le> DEBUG_ROM_END
         then Some (take len (drop (unat (addr - DEBUG_ROM_START)) debug_rom_raw))
         else None)"

definition debug_store :: "u64 \<Rightarrow> u8 list \<Rightarrow> sim_t \<Rightarrow> sim_t option" where
  "debug_store addr0 bytes s =
     (let addr = DEBUG_START + addr0; len = length bytes;
          hartid = ucast (bytes ! 0) OR push_bit 8 (ucast (bytes ! 1)) OR push_bit 16 (ucast (bytes ! 2)) OR push_bit 24 (ucast (bytes ! 3));
          upd = (\<lambda>f. Some (s\<lparr>debug_module := f (debug_module s)\<rparr>))
      in if addr AND (of_nat len - 1) \<noteq> 0 then None
         else if DEBUG_RAM_START \<le> addr \<and> addr + of_nat len \<le> DEBUG_RAM_END
         then upd (\<lambda>d. d\<lparr>debug_ram := memcpy_at (unat (addr - DEBUG_RAM_START)) bytes (debug_ram d)\<rparr>)
         else if len = 4 \<and> addr = DEBUG_CLEARDEBINT then upd (clear_interrupt hartid)
         else if len = 4 \<and> addr = DEBUG_SETHALTNOT then upd (set_halt_notification hartid)
         else None)"

subsection \<open>The bus\<close>

definition add_device :: "u64 \<Rightarrow> device \<Rightarrow> (u64 \<times> device) list \<Rightarrow> (u64 \<times> device) list" where
  "add_device addr dev m = (- addr, dev) # filter (\<lambda>x. fst x \<noteq> - addr) m"

text \<open>\<^verbatim>\<open>lower_bound\<close>: the entry with the least key that is not below \<open>k\<close>.\<close>

fun lower_bound :: "u64 \<Rightarrow> (u64 \<times> device) list \<Rightarrow> (u64 \<times> device) option" where
  "lower_bound k [] = None"
| "lower_bound k (x # m) =
     (if fst x < k then lower_bound k m
      else case lower_bound k m of Some y \<Rightarrow> Some (if fst y < fst x then y else x) | None \<Rightarrow> Some x)"

definition device_load :: "device \<Rightarrow> u64 \<Rightarrow> nat \<Rightarrow> sim_t \<Rightarrow> u8 list option" where
  "device_load dev addr len s =
     (case dev of Debug_module \<Rightarrow> debug_load addr len s | Rtc \<Rightarrow> rtc_load addr len s | Boot_rom \<Rightarrow> rom_load addr len s
      | Hart i \<Rightarrow> None)"

definition device_store :: "device \<Rightarrow> u64 \<Rightarrow> u8 list \<Rightarrow> sim_t \<Rightarrow> sim_t option" where
  "device_store dev addr bytes s =
     (case dev of Debug_module \<Rightarrow> debug_store addr bytes s | Rtc \<Rightarrow> rtc_store addr bytes s | Boot_rom \<Rightarrow> rom_store addr bytes s
      | Hart i \<Rightarrow> map_option (\<lambda>p. s\<lparr>procs := (procs s)[i := p]\<rparr>) (processor_store addr bytes (procs s ! i)))"

definition bus_load :: "u64 \<Rightarrow> nat \<Rightarrow> sim_t \<Rightarrow> u8 list option" where
  "bus_load addr len s =
     (case lower_bound (- addr) (devices s) of None \<Rightarrow> None
      | Some (k, dev) \<Rightarrow> device_load dev (addr - (- k)) len s)"

definition bus_store :: "u64 \<Rightarrow> u8 list \<Rightarrow> sim_t \<Rightarrow> sim_t option" where
  "bus_store addr bytes s =
     (case lower_bound (- addr) (devices s) of None \<Rightarrow> None
      | Some (k, dev) \<Rightarrow> device_store dev (addr - (- k)) bytes s)"

definition mmio_load :: "u64 \<Rightarrow> nat \<Rightarrow> sim_t \<Rightarrow> u8 list option" where
  "mmio_load addr len s = (if addr + of_nat len < addr then None else bus_load addr len s)"

definition mmio_store :: "u64 \<Rightarrow> u8 list \<Rightarrow> sim_t \<Rightarrow> sim_t option" where
  "mmio_store addr bytes s = (if addr + of_nat (length bytes) < addr then None else bus_store addr bytes s)"

end
