(* ===== verification/Riscv_Mmu.thy ===== *)
theory Riscv_Mmu
  imports Riscv_Devices
begin

text \<open>
  The memory management unit of \<^verbatim>\<open>riscv/mmu.cc\<close> and \<^verbatim>\<open>riscv/mmu.h\<close>: the page-table walk, translation, the TLB, the
  loads, stores and atomic operations with their fast and slow paths, and instruction fetch.  \<open>h\<close> is the hart the
  unit belongs to.
\<close>

subsection \<open>Computations that may throw\<close>

text \<open>
  A C++ exception carries a trap or a matched trigger and does not undo what was written before it; \<open>Undefined\<close> is
  \<^verbatim>\<open>abort\<close> or behaviour C leaves undefined.
\<close>

datatype 'a result = Ok 'a | Throw trap_t | Trigger trigger_matched_t | Undefined

type_synonym 'a exec = "sim_t \<Rightarrow> 'a result \<times> sim_t"

definition return :: "'a \<Rightarrow> 'a exec" where "return x s = (Ok x, s)"
definition throw :: "trap_t \<Rightarrow> 'a exec" where "throw t s = (Throw t, s)"
definition trigger :: "trigger_matched_t \<Rightarrow> 'a exec" where "trigger t s = (Trigger t, s)"
definition undefined_behaviour :: "'a exec" where "undefined_behaviour s = (Undefined, s)"

definition bnd :: "'a exec \<Rightarrow> ('a \<Rightarrow> 'b exec) \<Rightarrow> 'b exec" where
  "bnd m f s = (case m s of (Ok x, s') \<Rightarrow> f x s' | (Throw t, s') \<Rightarrow> (Throw t, s') | (Trigger t, s') \<Rightarrow> (Trigger t, s')
     | (Undefined, s') \<Rightarrow> (Undefined, s'))"

definition gets :: "(sim_t \<Rightarrow> 'a) \<Rightarrow> 'a exec" where "gets f s = (Ok (f s), s)"
definition modify :: "(sim_t \<Rightarrow> sim_t) \<Rightarrow> unit exec" where "modify f s = (Ok (), f s)"

definition hart :: "nat \<Rightarrow> processor_t exec" where "hart h = gets (get_proc h)"
definition update_mmu :: "nat \<Rightarrow> (mmu_t \<Rightarrow> mmu_t) \<Rightarrow> unit exec" where
  "update_mmu h f = modify (update_proc h (\<lambda>p. p\<lparr>mmu := f (mmu p)\<rparr>))"

definition mem_trap :: "u64 \<Rightarrow> u64 \<Rightarrow> trap_t" where
  "mem_trap cause badaddr = \<lparr>trap_cause = cause, trap_badaddr = Some badaddr\<rparr>"

abbreviation (input) CAUSE_FAULT_FETCH :: u64 where "CAUSE_FAULT_FETCH \<equiv> 0x1"
abbreviation (input) CAUSE_MISALIGNED_LOAD :: u64 where "CAUSE_MISALIGNED_LOAD \<equiv> 0x4"
abbreviation (input) CAUSE_FAULT_LOAD :: u64 where "CAUSE_FAULT_LOAD \<equiv> 0x5"
abbreviation (input) CAUSE_MISALIGNED_STORE :: u64 where "CAUSE_MISALIGNED_STORE \<equiv> 0x6"
abbreviation (input) CAUSE_FAULT_STORE :: u64 where "CAUSE_FAULT_STORE \<equiv> 0x7"

subsection \<open>The page-table walk\<close>

abbreviation (input) PTE_V :: u64 where "PTE_V \<equiv> 0x1"
abbreviation (input) PTE_R :: u64 where "PTE_R \<equiv> 0x2"
abbreviation (input) PTE_W :: u64 where "PTE_W \<equiv> 0x4"
abbreviation (input) PTE_X :: u64 where "PTE_X \<equiv> 0x8"
abbreviation (input) PTE_U :: u64 where "PTE_U \<equiv> 0x10"
abbreviation (input) PTE_A :: u64 where "PTE_A \<equiv> 0x40"
abbreviation (input) PTE_D :: u64 where "PTE_D \<equiv> 0x80"

definition PTE_TABLE :: "u64 \<Rightarrow> bool" where
  "PTE_TABLE pte \<longleftrightarrow> pte AND (PTE_V OR PTE_R OR PTE_W OR PTE_X) = PTE_V"

text \<open>The parameters of the walk that do not change on the way.\<close>

record walk_mode =
  ptidxbits :: nat
  ptesize :: nat
  supervisor :: bool
  pum :: bool
  mxr :: bool

definition read_pte :: "nat \<Rightarrow> u64 \<Rightarrow> sim_t \<Rightarrow> u64" where
  "read_pte sz ppte s = (if sz = 4 then the (reg_from_bytes 4 (read_mem ppte 4 s)) else the (reg_from_bytes 8 (read_mem ppte 8 s)))"

definition pte_refused :: "walk_mode \<Rightarrow> access_type \<Rightarrow> u64 \<Rightarrow> bool" where
  "pte_refused w type pte \<longleftrightarrow>
     (if pte AND PTE_U \<noteq> 0 then supervisor w \<and> pum w else \<not> supervisor w) \<or>
     (pte AND PTE_V = 0 \<or> pte AND PTE_R = 0 \<and> pte AND PTE_W \<noteq> 0) \<or>
     (if type = FETCH then pte AND PTE_X = 0
      else if type = LOAD then pte AND PTE_R = 0 \<and> \<not> (mxr w \<and> pte AND PTE_X \<noteq> 0)
      else \<not> (pte AND PTE_R \<noteq> 0 \<and> pte AND PTE_W \<noteq> 0))"

definition set_accessed :: "access_type \<Rightarrow> u64 \<Rightarrow> sim_t \<Rightarrow> sim_t" where
  "set_accessed type ppte s =
     write_mem ppte (word_bytes 4 (the (reg_from_bytes 4 (read_mem ppte 4 s)) OR (PTE_A OR (if type = STORE then PTE_D else 0)))) s"

text \<open>The loop of \<^verbatim>\<open>walk\<close> with \<open>n\<close> levels to go.\<close>

fun walk_loop :: "walk_mode \<Rightarrow> access_type \<Rightarrow> u64 \<Rightarrow> nat \<Rightarrow> u64 \<Rightarrow> sim_t \<Rightarrow> u64 \<times> sim_t" where
  "walk_loop w type addr 0 base s = (- 1, s)"
| "walk_loop w type addr (Suc n) base s =
     (let ptshift = n * ptidxbits w;
          idx = drop_bit (12 + ptshift) addr AND (push_bit (ptidxbits w) 1 - 1);
          pte_addr = base + idx * of_nat (ptesize w)
      in if \<not> addr_is_mem pte_addr s then (- 1, s)
         else let ppte = addr_to_mem pte_addr;
                  pte = read_pte (ptesize w) ppte s;
                  ppn = drop_bit 10 pte
              in if PTE_TABLE pte then walk_loop w type addr n (push_bit 12 ppn) s
                 else if pte_refused w type pte then (- 1, s)
                 else let vpn = drop_bit 12 addr
                      in (push_bit 12 (ppn OR (vpn AND (push_bit ptshift 1 - 1))), set_accessed type ppte s))"

definition vm_geometry :: "u64 \<Rightarrow> (nat \<times> nat \<times> nat) option" where
  "vm_geometry vm = (if vm = 8 then Some (2, 10, 4) else if vm = 9 then Some (3, 9, 8) else if vm = 10 then Some (4, 9, 8) else None)"

definition canonical :: "nat \<Rightarrow> nat \<Rightarrow> u64 \<Rightarrow> bool" where
  "canonical xlen' va_bits addr =
     (let mask' = push_bit (xlen' - (va_bits - 1)) 1 - 1; masked_msbs = drop_bit (va_bits - 1) addr AND mask'
      in masked_msbs = 0 \<or> masked_msbs = mask')"

definition walk :: "nat \<Rightarrow> u64 \<Rightarrow> access_type \<Rightarrow> u64 \<Rightarrow> u64 exec" where
  "walk h addr type mode s =
     (let p = get_proc h s; m = mstatus (state p)
      in case vm_geometry (get_field m MSTATUS_VM) of
           None \<Rightarrow> (Undefined, s)
         | Some (levels, ptidxbits', ptesize') \<Rightarrow>
             if \<not> canonical (xlen p) (12 + levels * ptidxbits') addr then (Ok (- 1), s)
             else let w = \<lparr>ptidxbits = ptidxbits', ptesize = ptesize', supervisor = (mode = PRV_S),
                           pum = (get_field m MSTATUS_PUM \<noteq> 0), mxr = (get_field m MSTATUS_MXR \<noteq> 0)\<rparr>
                  in apfst Ok (walk_loop w type addr levels (push_bit 12 (sptbr (state p))) s))"

definition access_mode :: "access_type \<Rightarrow> processor_t \<Rightarrow> u64" where
  "access_mode type p =
     (let m = mstatus (state p);
          mode = (if type \<noteq> FETCH \<and> dcsr_cause (dcsr (state p)) = 0 \<and> get_field m MSTATUS_MPRV \<noteq> 0
                  then get_field m MSTATUS_MPP else prv (state p))
      in if get_field m MSTATUS_VM = 0 then PRV_M else mode)"

definition translate :: "nat \<Rightarrow> u64 \<Rightarrow> access_type \<Rightarrow> u64 exec" where
  "translate h addr type s =
     (let p = get_proc h s; mode = access_mode type p
      in if mode = PRV_M then (Ok (addr AND (push_bit (xlen p - 1) 2 - 1)), s)
         else bnd (walk h addr type mode) (\<lambda>pg. return (pg OR (addr AND 0xFFF))) s)"

subsection \<open>The TLB\<close>

abbreviation (input) TLB_CHECK_TRIGGERS :: u64 where "TLB_CHECK_TRIGGERS \<equiv> 0x8000000000000000"

definition drop_other :: "u64 \<Rightarrow> u64 \<Rightarrow> (u64 \<Rightarrow> u64) \<Rightarrow> u64 \<Rightarrow> u64" where
  "drop_other idx tag tags = (if tags idx AND NOT TLB_CHECK_TRIGGERS \<noteq> tag then tags(idx := - 1) else tags)"

definition refill_tlb :: "u64 \<Rightarrow> u64 \<Rightarrow> access_type \<Rightarrow> mmu_t \<Rightarrow> mmu_t" where
  "refill_tlb vaddr paddr type m =
     (let expected_tag = drop_bit 12 vaddr; idx = expected_tag mod 256;
          m = m\<lparr>tlb_load_tag := drop_other idx expected_tag (tlb_load_tag m),
                tlb_store_tag := drop_other idx expected_tag (tlb_store_tag m),
                tlb_insn_tag := drop_other idx expected_tag (tlb_insn_tag m)\<rparr>;
          expected_tag = (if check_triggers_fetch m \<and> type = FETCH \<or> check_triggers_load m \<and> type = LOAD \<or>
                             check_triggers_store m \<and> type = STORE
                          then expected_tag OR TLB_CHECK_TRIGGERS else expected_tag);
          m = (case type of FETCH \<Rightarrow> m\<lparr>tlb_insn_tag := (tlb_insn_tag m)(idx := expected_tag)\<rparr>
               | STORE \<Rightarrow> m\<lparr>tlb_store_tag := (tlb_store_tag m)(idx := expected_tag)\<rparr>
               | LOAD \<Rightarrow> m\<lparr>tlb_load_tag := (tlb_load_tag m)(idx := expected_tag)\<rparr>)
      in m\<lparr>tlb_data := (tlb_data m)(idx := addr_to_mem paddr - vaddr)\<rparr>)"

definition interested_in_range :: "u64 \<Rightarrow> u64 \<Rightarrow> access_type \<Rightarrow> mmu_t \<Rightarrow> bool" where
  "interested_in_range begin' end' type m = list_ex (\<lambda>t. t begin' end' type) (tracer m)"

definition trace :: "u64 \<Rightarrow> nat \<Rightarrow> access_type \<Rightarrow> mmu_t \<Rightarrow> mmu_t" where
  "trace addr len type m = m\<lparr>traced := (addr, len, type) # traced m\<rparr>"

definition register_memtracer :: "(u64 \<Rightarrow> u64 \<Rightarrow> access_type \<Rightarrow> bool) \<Rightarrow> mmu_t \<Rightarrow> mmu_t" where
  "register_memtracer t m = (flush_tlb m)\<lparr>tracer := tracer m @ [t]\<rparr>"

text \<open>What the slow paths do once the access is known to be in main memory.\<close>

definition trace_or_refill :: "nat \<Rightarrow> u64 \<Rightarrow> u64 \<Rightarrow> nat \<Rightarrow> access_type \<Rightarrow> unit exec" where
  "trace_or_refill h addr paddr len type =
     update_mmu h (\<lambda>m. if interested_in_range paddr (paddr + 0x1000) type m then trace paddr len type m else refill_tlb addr paddr type m)"

subsection \<open>Triggers\<close>

definition trigger_exception :: "nat \<Rightarrow> trigger_operation \<Rightarrow> u64 \<Rightarrow> u64 \<Rightarrow> trigger_matched_t option exec" where
  "trigger_exception h operation address data s =
     (let p = get_proc h s
      in case trigger_match operation address data p of
           None \<Rightarrow> (Undefined, s)
         | Some None \<Rightarrow> (Ok None, s)
         | Some (Some i) \<Rightarrow>
             (let t = \<lparr>tm_index = i, tm_operation = operation, tm_address = address, tm_data = data\<rparr>
              in if \<not> mc_timing (mcontrol (state p) ! i) then (Trigger t, s) else (Ok (Some t), s)))"

text \<open>The check every load and store makes, unless a trigger has matched before.\<close>

definition check_trigger :: "nat \<Rightarrow> trigger_operation \<Rightarrow> u64 \<Rightarrow> u64 \<Rightarrow> unit exec" where
  "check_trigger h operation addr data =
     bnd (hart h) (\<lambda>p. case matched_trigger (mmu p) of
         Some _ \<Rightarrow> return ()
       | None \<Rightarrow> bnd (trigger_exception h operation addr data) (\<lambda>t.
           bnd (update_mmu h (\<lambda>m. m\<lparr>matched_trigger := t\<rparr>)) (\<lambda>_. case t of Some t \<Rightarrow> trigger t | None \<Rightarrow> return ())))"

definition check_trigger_bytes :: "nat \<Rightarrow> trigger_operation \<Rightarrow> u64 \<Rightarrow> u8 list \<Rightarrow> unit exec" where
  "check_trigger_bytes h operation addr bytes =
     bnd (hart h) (\<lambda>p. if matched_trigger (mmu p) \<noteq> None then return ()
       else case reg_from_bytes (length bytes) bytes of None \<Rightarrow> undefined_behaviour | Some data \<Rightarrow> check_trigger h operation addr data)"

subsection \<open>Loads\<close>

definition load_slow_path :: "nat \<Rightarrow> u64 \<Rightarrow> nat \<Rightarrow> u8 list exec" where
  "load_slow_path h addr len =
     bnd (translate h addr LOAD) (\<lambda>paddr.
     bnd (gets (addr_is_mem paddr)) (\<lambda>is_mem.
     bnd (if is_mem
          then bnd (gets (read_mem (addr_to_mem paddr) len)) (\<lambda>bytes.
               bnd (trace_or_refill h addr paddr len LOAD) (\<lambda>_. return bytes))
          else bnd (gets (mmio_load paddr len)) (\<lambda>r. case r of Some bytes \<Rightarrow> return bytes
               | None \<Rightarrow> throw (mem_trap CAUSE_FAULT_LOAD addr))) (\<lambda>bytes.
     bnd (check_trigger_bytes h OPERATION_LOAD addr bytes) (\<lambda>_. return bytes))))"

text \<open>The value of a C type of \<open>len\<close> bytes, signed or not, in a register.\<close>

definition extend_bytes :: "bool \<Rightarrow> nat \<Rightarrow> u8 list \<Rightarrow> u64" where
  "extend_bytes signed' len bytes =
     (let v = the (reg_from_bytes len bytes)
      in if signed' then asr (64 - 8 * len) (push_bit (64 - 8 * len) v) else v)"

text \<open>\<^verbatim>\<open>load_func\<close> for the type of \<open>len\<close> bytes.\<close>

definition load_func :: "bool \<Rightarrow> nat \<Rightarrow> nat \<Rightarrow> u64 \<Rightarrow> u64 exec" where
  "load_func signed' len h addr =
     (if addr AND (of_nat len - 1) \<noteq> 0 then throw (mem_trap CAUSE_MISALIGNED_LOAD addr)
      else bnd (hart h) (\<lambda>p.
        let vpn = drop_bit 12 addr; idx = vpn mod 256; tag = tlb_load_tag (mmu p) idx;
            fast = gets (\<lambda>s. extend_bytes signed' len (read_mem (tlb_data (mmu p) idx + addr) len s))
        in if tag = vpn then fast
           else if tag = vpn OR TLB_CHECK_TRIGGERS
           then bnd fast (\<lambda>data. bnd (check_trigger h OPERATION_LOAD addr data) (\<lambda>_. return data))
           else bnd (load_slow_path h addr len) (\<lambda>bytes. return (extend_bytes signed' len bytes))))"

subsection \<open>Stores\<close>

definition store_slow_path :: "nat \<Rightarrow> u64 \<Rightarrow> u8 list \<Rightarrow> unit exec" where
  "store_slow_path h addr bytes =
     bnd (translate h addr STORE) (\<lambda>paddr.
     bnd (check_trigger_bytes h OPERATION_STORE addr bytes) (\<lambda>_.
     bnd (gets (addr_is_mem paddr)) (\<lambda>is_mem.
     if is_mem
     then bnd (modify (write_mem (addr_to_mem paddr) bytes)) (\<lambda>_. trace_or_refill h addr paddr (length bytes) STORE)
     else bnd (gets (mmio_store paddr bytes)) (\<lambda>r. case r of Some s' \<Rightarrow> modify (\<lambda>_. s')
          | None \<Rightarrow> throw (mem_trap CAUSE_FAULT_STORE addr)))))"

text \<open>\<^verbatim>\<open>store_func\<close>: the type is unsigned and has \<open>len\<close> bytes.\<close>

definition store_func :: "nat \<Rightarrow> nat \<Rightarrow> u64 \<Rightarrow> u64 \<Rightarrow> unit exec" where
  "store_func len h addr val =
     (if addr AND (of_nat len - 1) \<noteq> 0 then throw (mem_trap CAUSE_MISALIGNED_STORE addr)
      else bnd (hart h) (\<lambda>p.
        let vpn = drop_bit 12 addr; idx = vpn mod 256; tag = tlb_store_tag (mmu p) idx;
            fast = modify (write_mem (tlb_data (mmu p) idx + addr) (word_bytes len val))
        in if tag = vpn then fast
           else if tag = vpn OR TLB_CHECK_TRIGGERS
           then bnd (check_trigger h OPERATION_STORE addr (take_bit (8 * len) val)) (\<lambda>_. fast)
           else store_slow_path h addr (word_bytes len val)))"

subsection \<open>Atomic operations\<close>

definition amo_func :: "nat \<Rightarrow> nat \<Rightarrow> u64 \<Rightarrow> (u64 \<Rightarrow> u64) \<Rightarrow> u64 exec" where
  "amo_func len h addr f s =
     (if addr AND (of_nat len - 1) \<noteq> 0 then (Throw (mem_trap CAUSE_MISALIGNED_STORE addr), s)
      else case bnd (load_func False len h addr) (\<lambda>lhs. bnd (store_func len h addr (f lhs)) (\<lambda>_. return lhs)) s of
             (Throw t, s') \<Rightarrow> (if trap_cause t = CAUSE_FAULT_LOAD
                               then (Throw (mem_trap CAUSE_FAULT_STORE (the (trap_badaddr t))), s') else (Throw t, s'))
           | r \<Rightarrow> r)"

subsection \<open>Instruction fetch\<close>

text \<open>The pointer that fetch returns: into main memory or to the buffer for devices.\<close>

datatype insn_ptr = In_mem u64 | Fetch_temp

definition read_insn :: "nat \<Rightarrow> insn_ptr \<Rightarrow> sim_t \<Rightarrow> u16" where
  "read_insn h ptr s =
     (case ptr of In_mem x \<Rightarrow> ucast (the (reg_from_bytes 2 (read_mem x 2 s))) | Fetch_temp \<Rightarrow> fetch_temp (mmu (get_proc h s)))"

definition fetch_slow_path :: "nat \<Rightarrow> u64 \<Rightarrow> insn_ptr exec" where
  "fetch_slow_path h vaddr =
     bnd (translate h vaddr FETCH) (\<lambda>paddr.
     if paddr = - 1 \<and> vaddr \<noteq> - 1 then throw (mem_trap CAUSE_FAULT_FETCH vaddr)
     else bnd (gets (addr_is_mem paddr)) (\<lambda>is_mem.
     if is_mem
     then bnd (update_mmu h (refill_tlb vaddr paddr FETCH)) (\<lambda>_. return (In_mem (addr_to_mem paddr)))
     else bnd (gets (mmio_load paddr 2)) (\<lambda>r. case r of
            Some bytes \<Rightarrow> bnd (update_mmu h (\<lambda>m. m\<lparr>fetch_temp := ucast (the (reg_from_bytes 2 bytes))\<rparr>)) (\<lambda>_. return Fetch_temp)
          | None \<Rightarrow> throw (mem_trap CAUSE_FAULT_FETCH vaddr))))"

definition translate_insn_addr :: "nat \<Rightarrow> u64 \<Rightarrow> insn_ptr exec" where
  "translate_insn_addr h addr =
     bnd (hart h) (\<lambda>p.
     let vpn = drop_bit 12 addr; idx = vpn mod 256; tag = tlb_insn_tag (mmu p) idx; ptr = tlb_data (mmu p) idx + addr
     in if tag = vpn then return (In_mem ptr)
        else if tag = vpn OR TLB_CHECK_TRIGGERS
        then bnd (gets (\<lambda>s. ucast (read_insn h (In_mem ptr) s))) (\<lambda>data.
             case trigger_match OPERATION_EXECUTE addr data p of
               None \<Rightarrow> undefined_behaviour
             | Some (Some i) \<Rightarrow> trigger \<lparr>tm_index = i, tm_operation = OPERATION_EXECUTE, tm_address = addr, tm_data = data\<rparr>
             | Some None \<Rightarrow> return (In_mem ptr))
        else fetch_slow_path h addr)"

text \<open>One 16-bit parcel, sign-extended or not, at its place in the instruction word.\<close>

definition fetch_parcel :: "bool \<Rightarrow> nat \<Rightarrow> nat \<Rightarrow> u64 \<Rightarrow> u64 exec" where
  "fetch_parcel signed' shift h addr =
     bnd (translate_insn_addr h addr) (\<lambda>ptr. gets (\<lambda>s. push_bit shift (if signed' then scast (read_insn h ptr s) else ucast (read_insn h ptr s))))"

definition icache_index :: "u64 \<Rightarrow> u64" where
  "icache_index addr = (addr div 2) mod 1024"

definition fetch_insn :: "nat \<Rightarrow> u64 \<Rightarrow> (u64 \<times> nat \<times> insn_ptr) exec" where
  "fetch_insn h addr =
     bnd (translate_insn_addr h addr) (\<lambda>iaddr.
     bnd (gets (read_insn h iaddr)) (\<lambda>first.
     let insn = ucast first :: u64; len = insn_length insn
     in bnd (if len = 4 then bnd (fetch_parcel True 16 h (addr + 2)) (\<lambda>a. return (insn OR a))
             else if len = 2 then return (scast first)
             else if len = 6
             then bnd (fetch_parcel True 32 h (addr + 4)) (\<lambda>a. bnd (fetch_parcel False 16 h (addr + 2)) (\<lambda>b. return (insn OR a OR b)))
             else bnd (fetch_parcel True 48 h (addr + 6)) (\<lambda>a. bnd (fetch_parcel False 32 h (addr + 4)) (\<lambda>b.
                  bnd (fetch_parcel False 16 h (addr + 2)) (\<lambda>c. return (insn OR a OR b OR c)))))
          (\<lambda>insn. return (insn, len, iaddr))))"

text \<open>\<^verbatim>\<open>proc->decode_insn\<close>: the function of an instruction word.\<close>

definition decode_bits :: "nat \<Rightarrow> u64 \<Rightarrow> string exec" where
  "decode_bits h insn =
     bnd (hart h) (\<lambda>p. case decode_insn insn (xlen p) (opcodes p) of
         None \<Rightarrow> undefined_behaviour
       | Some (f, d) \<Rightarrow> bnd (modify (update_proc h (\<lambda>p. p\<lparr>opcodes := d\<rparr>))) (\<lambda>_. return f))"

text \<open>\<^verbatim>\<open>refill_icache\<close> into the entry \<open>slot\<close> of the cache, or into a local entry; the result is its \<^verbatim>\<open>data\<close>, a function and a word.\<close>

definition refill_icache :: "nat \<Rightarrow> u64 \<Rightarrow> u64 option \<Rightarrow> (string \<times> u64) exec" where
  "refill_icache h addr slot =
     bnd (fetch_insn h addr) (\<lambda>(insn, len, iaddr).
     bnd (decode_bits h insn) (\<lambda>func.
     bnd (update_mmu h (\<lambda>m.
        let m = (case slot of Some e \<Rightarrow> m\<lparr>icache_tag := (icache_tag m)(e := addr), icache_data := (icache_data m)(e := (func, insn))\<rparr> | None \<Rightarrow> m);
            paddr = mem_to_addr (case iaddr of In_mem x \<Rightarrow> x | Fetch_temp \<Rightarrow> fetch_temp_at m)
        in if interested_in_range paddr (paddr + 1) FETCH m
           then trace paddr len FETCH (case slot of Some e \<Rightarrow> m\<lparr>icache_tag := (icache_tag m)(e := - 1)\<rparr> | None \<Rightarrow> m)
           else m)) (\<lambda>_. return (func, insn))))"

definition access_icache :: "nat \<Rightarrow> u64 \<Rightarrow> (string \<times> u64) exec" where
  "access_icache h addr =
     bnd (hart h) (\<lambda>p. let e = icache_index addr
       in if icache_tag (mmu p) e = addr then return (icache_data (mmu p) e) else refill_icache h addr (Some e))"

definition load_insn :: "nat \<Rightarrow> u64 \<Rightarrow> (string \<times> u64) exec" where
  "load_insn h addr = refill_icache h addr None"

end
