(* ===== verification/Riscv_Paging.thy ===== *)
theory Riscv_Paging
  imports Riscv_Mmu Riscv_Traps
begin

text \<open>
  What the page-table walk guarantees: it finds exactly the leaf entry of the page table and grants exactly what its
  permission bits allow, it depends on the page of the address only, and the accessed and dirty bits it sets do not
  change the outcome of any later walk.
\<close>

subsection \<open>Bytes and words\<close>

lemma length_word_bytes [simp]: "length (word_bytes n w) = n"
  by (induction n arbitrary: w) simp_all

lemma nth_word_bytes: "i < n \<Longrightarrow> word_bytes n w ! i = ucast (drop_bit (8 * i) w)"
proof (induction n arbitrary: w i)
  case (Suc n)
  then show ?case by (cases i) (simp_all add: drop_bit_drop_bit add.commute)
qed simp

lemma bit_byte: "bit (push_bit (8 * i) (ucast (b :: u8)) :: u64) n \<longleftrightarrow> n div 8 = i \<and> n < 64 \<and> bit b (n mod 8)"
proof -
  have "n div 8 = i \<longleftrightarrow> 8 * i \<le> n \<and> n < 8 * i + 8" by arith
  moreover have "n div 8 = i \<Longrightarrow> n - 8 * i = n mod 8" by (metis minus_mult_div_eq_mod)
  ultimately show ?thesis by (auto simp: bit_simps dest: bit_imp_le_length)
qed

lemma ex_less_cases:
  "(\<exists>i<1. P i) \<longleftrightarrow> P 0" "(\<exists>i<2. P i) \<longleftrightarrow> P 0 \<or> P 1" "(\<exists>i<4. P i) \<longleftrightarrow> P 0 \<or> P 1 \<or> P 2 \<or> P 3"
  "(\<exists>i<8. P i) \<longleftrightarrow> P 0 \<or> P 1 \<or> P 2 \<or> P 3 \<or> P 4 \<or> P 5 \<or> P 6 \<or> P 7" for P :: "nat \<Rightarrow> bool"
  by (auto simp: numeral_eq_Suc less_Suc_eq)

definition byte_at :: "u8 list \<Rightarrow> nat \<Rightarrow> u64" where
  "byte_at bs i = push_bit (8 * i) (ucast (bs ! i))"

lemma bit_reg_from_bytes:
  assumes "len \<in> {1, 2, 4, 8}"
  shows "\<exists>v. reg_from_bytes len bs = Some v \<and> (\<forall>n. bit v n \<longleftrightarrow> n < 8 * len \<and> bit (bs ! (n div 8)) (n mod 8))"
proof -
  have "(\<exists>i<len. bit (byte_at bs i) n) \<longleftrightarrow> n < 8 * len \<and> bit (bs ! (n div 8)) (n mod 8)" for n
  proof -
    have "n div 8 < len \<longleftrightarrow> n < 8 * len" by (simp add: div_less_iff_less_mult mult.commute)
    moreover have "n < 8 * len \<Longrightarrow> n < 64" using assms by auto
    ultimately show ?thesis unfolding byte_at_def bit_byte by auto
  qed
  moreover have "\<exists>v. reg_from_bytes len bs = Some v \<and> (\<forall>n. bit v n \<longleftrightarrow> (\<exists>i<len. bit (byte_at bs i) n))"
    unfolding reg_from_bytes_def Let_def byte_at_def [symmetric] using assms
    by (elim insertE emptyE) (simp_all add: ex_less_cases bit_or_iff del: One_nat_def)
  ultimately show ?thesis by simp
qed

lemma reg_from_bytes_eqI:
  assumes "len \<in> {1, 2, 4, 8}" "\<And>n. bit v n \<longleftrightarrow> n < 8 * len \<and> bit (bs ! (n div 8)) (n mod 8)"
  shows "reg_from_bytes len bs = Some v"
proof -
  obtain v' where v': "reg_from_bytes len bs = Some v'" "\<forall>n. bit v' n \<longleftrightarrow> n < 8 * len \<and> bit (bs ! (n div 8)) (n mod 8)"
    using bit_reg_from_bytes [OF assms(1), of bs] by blast
  have "v' = v" by (rule bit_word_eqI) (simp only: v'(2) assms(2))
  then show ?thesis using v'(1) by simp
qed

lemma reg_from_bytes_word_bytes:
  assumes "len \<in> {1, 2, 4, 8}"
  shows "reg_from_bytes len (word_bytes len w) = Some (take_bit (8 * len) w)"
proof (rule reg_from_bytes_eqI [OF assms])
  fix n
  have "n < 8 * len \<Longrightarrow> n div 8 < len" by (simp add: div_less_iff_less_mult mult.commute)
  then show "bit (take_bit (8 * len) w) n \<longleftrightarrow> n < 8 * len \<and> bit (word_bytes len w ! (n div 8)) (n mod 8)"
    by (auto simp: nth_word_bytes bit_simps)
qed

text \<open>Memory holds what was written to it, and nothing else changes.\<close>

lemma write_bytes_apply:
  assumes "length bs \<le> 2 ^ 64"
  shows "write_bytes ptr bs m x = (if unat (x - ptr) < length bs then bs ! unat (x - ptr) else m x)"
  using assms
proof (induction bs arbitrary: ptr m)
  case (Cons b bs)
  have IH: "write_bytes (ptr + 1) bs m' x = (if unat (x - (ptr + 1)) < length bs then bs ! unat (x - (ptr + 1)) else m' x)" for m'
    using Cons by simp
  show ?case
  proof (cases "x = ptr")
    case True
    have "x - (ptr + 1) = - 1" using True by simp
    then have "unat (x - (ptr + 1)) = 2 ^ 64 - 1" by (simp add: unsigned_minus_1_eq_mask mask_eq_exp_minus_1)
    then show ?thesis using IH True Cons.prems by simp
  next
    case False
    then have "x - ptr \<noteq> 0" by simp
    then have "unat (x - ptr) = Suc (unat (x - (ptr + 1)))"
      using unat_minus_one [of "x - ptr"] unat_gt_0 [of "x - ptr"] by (simp add: diff_diff_add)
    then show ?thesis using IH False by simp
  qed
qed simp

lemma read_write_mem:
  assumes "length bs = len" "len < 2 ^ 64"
  shows "read_mem ptr len (write_mem ptr bs s) = bs"
  using assms by (intro nth_equalityI) (simp_all add: read_mem_def write_mem_def write_bytes_apply unsigned_of_nat take_bit_nat_eq_self)

subsection \<open>The leaf of a page table\<close>

definition pte_address :: "walk_mode \<Rightarrow> u64 \<Rightarrow> nat \<Rightarrow> u64 \<Rightarrow> u64" where
  "pte_address w addr n base = base + (drop_bit (12 + n * ptidxbits w) addr AND (push_bit (ptidxbits w) 1 - 1)) * of_nat (ptesize w)"

text \<open>
  \<open>leaf_of w s addr n base a l pte\<close>: following the table at \<open>base\<close>, with \<open>n\<close> levels to go, \<open>addr\<close> leads to the entry \<open>pte\<close> at
  address \<open>a\<close>, which does not point to a further table and has \<open>l\<close> levels below it.
\<close>

inductive leaf_of :: "walk_mode \<Rightarrow> sim_t \<Rightarrow> u64 \<Rightarrow> nat \<Rightarrow> u64 \<Rightarrow> u64 \<Rightarrow> nat \<Rightarrow> u64 \<Rightarrow> bool" for w s addr where
  leaf: "a = pte_address w addr n base \<Longrightarrow> addr_is_mem a s \<Longrightarrow> pte = read_pte (ptesize w) (addr_to_mem a) s \<Longrightarrow> \<not> PTE_TABLE pte \<Longrightarrow>
    leaf_of w s addr (Suc n) base a n pte"
| table: "b = pte_address w addr n base \<Longrightarrow> addr_is_mem b s \<Longrightarrow> t = read_pte (ptesize w) (addr_to_mem b) s \<Longrightarrow> PTE_TABLE t \<Longrightarrow>
    leaf_of w s addr n (push_bit 12 (drop_bit 10 t)) a l pte \<Longrightarrow> leaf_of w s addr (Suc n) base a l pte"

definition page_of :: "walk_mode \<Rightarrow> u64 \<Rightarrow> nat \<Rightarrow> u64 \<Rightarrow> u64" where
  "page_of w addr l pte = push_bit 12 (drop_bit 10 pte OR (drop_bit 12 addr AND (push_bit (l * ptidxbits w) 1 - 1)))"

lemma walk_loop_Suc:
  "walk_loop w type addr (Suc n) base s =
     (let a = pte_address w addr n base; pte = read_pte (ptesize w) (addr_to_mem a) s
      in if \<not> addr_is_mem a s then (- 1, s)
         else if PTE_TABLE pte then walk_loop w type addr n (push_bit 12 (drop_bit 10 pte)) s
         else if pte_refused w type pte then (- 1, s)
         else (page_of w addr n pte, set_accessed type (addr_to_mem a) s))"
  by (simp add: Let_def pte_address_def page_of_def)

lemma walk_loop_leaf:
  assumes "leaf_of w s addr n base a l pte"
  shows "walk_loop w type addr n base s =
    (if pte_refused w type pte then (- 1, s) else (page_of w addr l pte, set_accessed type (addr_to_mem a) s))"
  using assms by induction (simp_all add: walk_loop_Suc Let_def del: walk_loop.simps)

lemma walk_loop_no_leaf:
  assumes "\<nexists>a l pte. leaf_of w s addr n base a l pte"
  shows "walk_loop w type addr n base s = (- 1, s)"
  using assms
proof (induction n arbitrary: base)
  case (Suc n)
  let ?a = "pte_address w addr n base"
  let ?pte = "read_pte (ptesize w) (addr_to_mem ?a) s"
  show ?case
  proof (cases "addr_is_mem ?a s")
    case True
    then have t: "PTE_TABLE ?pte" using Suc.prems leaf [OF refl True refl] by blast
    then have "\<nexists>a l pte. leaf_of w s addr n (push_bit 12 (drop_bit 10 ?pte)) a l pte"
      using Suc.prems table [OF refl True refl t] by blast
    then show ?thesis using Suc.IH True t by (simp add: walk_loop_Suc Let_def del: walk_loop.simps)
  qed (simp add: walk_loop_Suc Let_def del: walk_loop.simps)
qed simp

text \<open>Two accesses that both find a page find the same one.\<close>

lemma walk_loop_unique:
  assumes "fst (walk_loop w t1 addr n base s) \<noteq> - 1" "fst (walk_loop w t2 addr n base s) \<noteq> - 1"
  shows "fst (walk_loop w t1 addr n base s) = fst (walk_loop w t2 addr n base s)"
  using assms walk_loop_no_leaf [of w s addr n base] walk_loop_leaf [of w s addr n base]
  by (cases "\<exists>a l pte. leaf_of w s addr n base a l pte") (auto split: if_splits)

text \<open>The walk sees only the page number of an address.\<close>

lemma drop_bit_page: "drop_bit 12 v = drop_bit 12 v' \<Longrightarrow> drop_bit (12 + k) v = drop_bit (12 + k) v'" for v v' :: u64
  by (simp flip: drop_bit_drop_bit add: add.commute)

lemma walk_loop_page:
  assumes "drop_bit 12 v = drop_bit 12 v'"
  shows "walk_loop w type v n base s = walk_loop w type v' n base s"
  by (induction n arbitrary: base)
    (simp_all add: walk_loop_Suc pte_address_def page_of_def drop_bit_page [OF assms] assms Let_def del: walk_loop.simps(2))

subsection \<open>Accessed and dirty bits\<close>

definition same_pte :: "u64 \<Rightarrow> u64 \<Rightarrow> bool" where
  "same_pte a b \<longleftrightarrow> (\<forall>n. n \<noteq> 6 \<longrightarrow> n \<noteq> 7 \<longrightarrow> bit a n = bit b n)"

text \<open>Memories that differ in the accessed and dirty bits of entries of \<open>sz\<close> bytes only.\<close>

definition ad_eq :: "nat \<Rightarrow> (u64 \<Rightarrow> u8) \<Rightarrow> (u64 \<Rightarrow> u8) \<Rightarrow> bool" where
  "ad_eq sz m m' \<longleftrightarrow> (\<forall>x i. bit (m x) i = bit (m' x) i \<or> unat x mod sz = 0 \<and> (i = 6 \<or> i = 7))"

definition aligned :: "nat \<Rightarrow> u64 \<Rightarrow> bool" where
  "aligned sz x \<longleftrightarrow> (\<exists>k. x = of_nat sz * k)"

lemma ad_eq_refl [simp]: "ad_eq sz m m"
  by (simp add: ad_eq_def)

lemma ad_eq_trans: "ad_eq sz m m' \<Longrightarrow> ad_eq sz m' m'' \<Longrightarrow> ad_eq sz m m''"
  unfolding ad_eq_def by metis

lemma unat_add_mod: "sz \<in> {4, 8} \<Longrightarrow> unat (x + y) mod sz = (unat x + unat y) mod sz" for x y :: u64
  by (auto simp: unat_word_ariths mod_mod_cancel)

lemma aligned_unat: "sz \<in> {4, 8} \<Longrightarrow> aligned sz x \<Longrightarrow> unat x mod sz = 0"
  by (auto simp: aligned_def unat_word_ariths mod_mod_cancel)

lemma aligned_pte: "sz \<in> {4, 8} \<Longrightarrow> aligned sz (addr_to_mem (push_bit 12 x + y * of_nat sz))"
proof -
  assume "sz \<in> {4, 8}"
  then consider "sz = 4" | "sz = 8" by blast
  then show ?thesis
  proof cases
    case 1
    have "addr_to_mem (push_bit 12 x + y * 4) = 4 * (1024 * x + y - 0x20000000)"
      by (simp add: addr_to_mem_def push_bit_eq_mult algebra_simps)
    then show ?thesis unfolding aligned_def 1 of_nat_numeral by (rule exI)
  next
    case 2
    have "addr_to_mem (push_bit 12 x + y * 8) = 8 * (512 * x + y - 0x10000000)"
      by (simp add: addr_to_mem_def push_bit_eq_mult algebra_simps)
    then show ?thesis unfolding aligned_def 2 of_nat_numeral by (rule exI)
  qed
qed

lemma bit_reg_from_mem:
  assumes "len \<in> {1, 2, 4, 8}"
  shows "bit (the (reg_from_bytes len (read_mem ptr len s))) n \<longleftrightarrow> n < 8 * len \<and> bit (mem s (ptr + of_nat (n div 8))) (n mod 8)"
proof -
  obtain v where v: "reg_from_bytes len (read_mem ptr len s) = Some v"
    "\<forall>n. bit v n \<longleftrightarrow> n < 8 * len \<and> bit (read_mem ptr len s ! (n div 8)) (n mod 8)"
    using bit_reg_from_bytes [OF assms, of "read_mem ptr len s"] by blast
  have "n < 8 * len \<Longrightarrow> n div 8 < len" by (simp add: div_less_iff_less_mult mult.commute)
  then show ?thesis unfolding v(1) option.sel v(2) [rule_format] by (auto simp: read_mem_def)
qed

lemma bit_read_pte:
  assumes "sz \<in> {4, 8}"
  shows "bit (read_pte sz ppte s) n \<longleftrightarrow> n < 8 * sz \<and> bit (mem s (ppte + of_nat (n div 8))) (n mod 8)"
proof -
  have "read_pte sz ppte s = the (reg_from_bytes sz (read_mem ppte sz s))" using assms by (auto simp: read_pte_def)
  moreover have "sz \<in> {1, 2, 4, 8}" using assms by blast
  ultimately show ?thesis using bit_reg_from_mem [of sz ppte s n] by simp
qed

lemma read_pte_ad:
  assumes sz: "sz \<in> {4, 8}" and ad: "ad_eq sz (mem s) (mem s')" and al: "aligned sz ppte"
  shows "same_pte (read_pte sz ppte s) (read_pte sz ppte s')"
  unfolding same_pte_def
proof (intro allI impI)
  fix n :: nat
  assume n: "n \<noteq> 6" "n \<noteq> 7"
  have "bit (mem s (ppte + of_nat (n div 8))) (n mod 8) = bit (mem s' (ppte + of_nat (n div 8))) (n mod 8)" if lt: "n < 8 * sz"
  proof (cases "n div 8 = 0")
    case True
    then have "n mod 8 \<noteq> 6" "n mod 8 \<noteq> 7" using n by auto
    then show ?thesis using ad unfolding ad_eq_def by metis
  next
    case False
    have d: "n div 8 < sz" using lt by (simp add: div_less_iff_less_mult mult.commute)
    then have "unat (of_nat (n div 8) :: u64) = n div 8" using sz by (auto simp: unsigned_of_nat take_bit_nat_eq_self)
    then have "unat (ppte + of_nat (n div 8)) mod sz = (unat ppte + n div 8) mod sz" by (simp only: unat_add_mod [OF sz])
    also have "\<dots> = n div 8" using aligned_unat [OF sz al] d by (metis add_0 mod_add_left_eq mod_less)
    finally show ?thesis using ad False unfolding ad_eq_def by metis
  qed
  then show "bit (read_pte sz ppte s) n = bit (read_pte sz ppte s') n" by (auto simp: bit_read_pte [OF sz])
qed

lemma same_pte_facts:
  assumes "same_pte a b"
  shows "drop_bit 10 a = drop_bit 10 b" "PTE_TABLE a = PTE_TABLE b" "pte_refused w type a = pte_refused w type b"
proof -
  show "drop_bit 10 a = drop_bit 10 b"
    using assms by (auto simp: same_pte_def bit_drop_bit_eq intro!: bit_word_eqI)
  have m: "a AND M = b AND M" if "\<not> bit M 6" "\<not> bit M 7" for M
    using assms that by (auto simp: same_pte_def bit_and_iff intro!: bit_word_eqI) (metis+)
  show "PTE_TABLE a = PTE_TABLE b" unfolding PTE_TABLE_def by (subst m) simp_all
  have "a AND 1 = b AND 1" "a AND 2 = b AND 2" "a AND 4 = b AND 4" "a AND 8 = b AND 8" "a AND 16 = b AND 16"
    by (rule m; simp)+
  then show "pte_refused w type a = pte_refused w type b" by (simp only: pte_refused_def)
qed

lemma set_accessed_frame [simp]:
  "procs (set_accessed t x s) = procs s" "memsz (set_accessed t x s) = memsz s" "devices (set_accessed t x s) = devices s"
  "get_proc h (set_accessed t x s) = get_proc h s" "addr_is_mem a (set_accessed t x s) = addr_is_mem a s"
  by (simp_all add: set_accessed_def write_mem_def get_proc_def addr_is_mem_def)

lemma unat_diff_less:
  fixes x ppte :: u64
  assumes "unat (x - ppte) < 4"
  shows "x = ppte + of_nat (unat (x - ppte))" "unat (of_nat (unat (x - ppte)) :: u64) = unat (x - ppte)"
  using assms by (simp_all add: of_nat_unat unsigned_of_nat take_bit_nat_eq_self)

interpretation f_PTE_A: field "0x40" 6 1 by unfold_locales (simp_all add: mask_eq_exp_minus_1)
interpretation f_PTE_AD: field "0xC0" 6 2 by unfold_locales (simp_all add: mask_eq_exp_minus_1)

lemma set_accessed_ad:
  assumes sz: "sz \<in> {4, 8}" and al: "aligned sz ppte"
  shows "ad_eq sz (mem s) (mem (set_accessed type ppte s))"
  unfolding ad_eq_def
proof (intro allI)
  fix x i
  define k where "k = (0x40 OR (if type = STORE then 0x80 else 0) :: u64)"
  define v where "v = the (reg_from_bytes 4 (read_mem ppte 4 s))"
  have k: "bit k n \<Longrightarrow> n = 6 \<or> n = 7" for n
  proof -
    have "k = 0x40 \<or> k = 0xC0" by (simp add: k_def)
    then show "bit k n \<Longrightarrow> n = 6 \<or> n = 7" using f_PTE_A.bit_M [of n] f_PTE_AD.bit_M [of n] by (elim disjE) auto
  qed
  have w: "mem (set_accessed type ppte s) x = (if unat (x - ppte) < 4 then word_bytes 4 (v OR k) ! unat (x - ppte) else mem s x)"
    by (simp add: set_accessed_def write_mem_def write_bytes_apply k_def v_def del: word_bytes.simps)
  show "bit (mem s x) i = bit (mem (set_accessed type ppte s) x) i \<or> unat x mod sz = 0 \<and> (i = 6 \<or> i = 7)"
  proof (cases "unat (x - ppte) < 4 \<and> i < 8")
    case True
    define j where "j = unat (x - ppte)"
    have j: "j < 4" "x = ppte + of_nat j" "unat (of_nat j :: u64) = j" using True unat_diff_less [of x ppte] by (auto simp: j_def)
    have "bit v (8 * j + i) = bit (mem s x) i"
      using j True bit_reg_from_mem [of 4 ppte s "8 * j + i"] by (simp add: v_def)
    then have b: "bit (mem (set_accessed type ppte s) x) i = (bit (mem s x) i \<or> bit k (8 * j + i))"
      using True unfolding w if_P [OF conjunct1 [OF True]] j_def [symmetric] nth_word_bytes [OF j(1)]
      by (simp add: bit_unsigned_iff bit_drop_bit_eq bit_or_iff)
    show ?thesis
    proof (cases "j = 0")
      case True
      then have "unat x mod sz = 0" using aligned_unat [OF sz al] j(2) by simp
      then show ?thesis using b k [of i] True by auto
    next
      case False
      then show ?thesis using b k [of "8 * j + i"] by auto
    qed
  next
    case False
    then show ?thesis using bit_imp_le_length [of "mem s x" i] bit_imp_le_length [of "mem (set_accessed type ppte s) x" i] by (auto simp: w)
  qed
qed

lemma walk_loop_ad:
  assumes sz: "ptesize w \<in> {4, 8}" and ad: "ad_eq (ptesize w) (mem s) (mem s')" and m: "memsz s' = memsz s"
  shows "fst (walk_loop w type addr n (push_bit 12 b) s') = fst (walk_loop w type addr n (push_bit 12 b) s)"
proof (induction n arbitrary: b)
  case (Suc n)
  let ?a = "pte_address w addr n (push_bit 12 b)"
  have al: "aligned (ptesize w) (addr_to_mem ?a)" unfolding pte_address_def by (rule aligned_pte [OF sz])
  note sp = same_pte_facts [OF read_pte_ad [OF sz ad al]]
  have "addr_is_mem ?a s' = addr_is_mem ?a s" using m by (simp add: addr_is_mem_def)
  then show ?case unfolding walk_loop_Suc Let_def sp(1,2,3) [symmetric] using Suc by (simp add: page_of_def sp(1))
qed simp

text \<open>A walk itself only sets such bits.\<close>

lemma walk_loop_state:
  assumes sz: "ptesize w \<in> {4, 8}"
  shows "ad_eq (ptesize w) (mem s) (mem (snd (walk_loop w type addr n (push_bit 12 b) s))) \<and>
    (\<exists>m. snd (walk_loop w type addr n (push_bit 12 b) s) = s\<lparr>mem := m\<rparr>)"
proof (induction n arbitrary: b)
  case 0
  show ?case by (auto intro: exI [of _ "mem s"])
next
  case (Suc n)
  let ?a = "pte_address w addr n (push_bit 12 b)"
  have al: "aligned (ptesize w) (addr_to_mem ?a)" unfolding pte_address_def by (rule aligned_pte [OF sz])
  have 1: "\<exists>m. s = s\<lparr>mem := m\<rparr>" by (rule exI [of _ "mem s"]) simp
  have 2: "\<exists>m. set_accessed type (addr_to_mem ?a) s = s\<lparr>mem := m\<rparr>" unfolding set_accessed_def write_mem_def by blast
  show ?case unfolding walk_loop_Suc Let_def
    using Suc set_accessed_ad [OF sz al, of s type] 1 2 by auto
qed

subsection \<open>The specification of translation\<close>

text \<open>
  What the privileged architecture says of page tables, on the bits of the address, of the entries and of memory and with nothing of the
  code: a little-endian entry of \<open>sz\<close> bytes in main memory; an entry that points to a further table is valid and has no permission; the
  entry for an address at a level is numbered by \<open>b\<close> bits of it.
\<close>

definition entry_at :: "nat \<Rightarrow> sim_t \<Rightarrow> u64 \<Rightarrow> u64 \<Rightarrow> bool" where
  "entry_at sz s a pte \<longleftrightarrow> 0x80000000 \<le> a \<and> a < 0x80000000 + memsz s \<and>
     (\<forall>i. bit pte i \<longleftrightarrow> i < 8 * sz \<and> bit (mem s (a - 0x80000000 + of_nat (i div 8))) (i mod 8))"

definition next_table :: "u64 \<Rightarrow> bool" where
  "next_table pte \<longleftrightarrow> bit pte 0 \<and> \<not> bit pte 1 \<and> \<not> bit pte 2 \<and> \<not> bit pte 3"

inductive mapped :: "nat \<Rightarrow> nat \<Rightarrow> sim_t \<Rightarrow> u64 \<Rightarrow> nat \<Rightarrow> u64 \<Rightarrow> u64 \<Rightarrow> nat \<Rightarrow> u64 \<Rightarrow> bool" for b sz s addr where
  mapped_leaf: "a = base + take_bit b (drop_bit (12 + n * b) addr) * of_nat sz \<Longrightarrow> entry_at sz s a pte \<Longrightarrow> \<not> next_table pte \<Longrightarrow>
    mapped b sz s addr (Suc n) base a n pte"
| mapped_table: "entry_at sz s (base + take_bit b (drop_bit (12 + n * b) addr) * of_nat sz) t \<Longrightarrow> next_table t \<Longrightarrow>
    mapped b sz s addr n (4096 * drop_bit 10 t) a l pte \<Longrightarrow> mapped b sz s addr (Suc n) base a l pte"

text \<open>Bits 0 to 4 of an entry: valid, readable, writable, executable, for user mode.\<close>

definition permits :: "bool \<Rightarrow> bool \<Rightarrow> bool \<Rightarrow> access_type \<Rightarrow> u64 \<Rightarrow> bool" where
  "permits supervisor_mode protect_user executable_readable type pte \<longleftrightarrow>
     bit pte 0 \<and> (bit pte 2 \<longrightarrow> bit pte 1) \<and>
     (if supervisor_mode then bit pte 4 \<longrightarrow> \<not> protect_user else bit pte 4) \<and>
     (case type of FETCH \<Rightarrow> bit pte 3 | LOAD \<Rightarrow> bit pte 1 \<or> executable_readable \<and> bit pte 3 | STORE \<Rightarrow> bit pte 1 \<and> bit pte 2)"

definition sign_extended_from :: "nat \<Rightarrow> nat \<Rightarrow> u64 \<Rightarrow> bool" where
  "sign_extended_from n xl addr \<longleftrightarrow> (\<forall>i. n \<le> i \<longrightarrow> i < xl \<longrightarrow> bit addr i = bit addr n)"

subsection \<open>The walk implements it\<close>

lemma word_bits_eq: "(\<forall>i. bit x i = bit y i) \<longleftrightarrow> x = y" for x y :: u64
  by (auto intro: bit_word_eqI)

lemma entry_at_iff:
  assumes "sz \<in> {4, 8}"
  shows "entry_at sz s a pte \<longleftrightarrow> addr_is_mem a s \<and> pte = read_pte sz (addr_to_mem a) s"
proof -
  have "(\<forall>i. bit pte i \<longleftrightarrow> i < 8 * sz \<and> bit (mem s (a - 0x80000000 + of_nat (i div 8))) (i mod 8)) \<longleftrightarrow>
      (\<forall>i. bit pte i = bit (read_pte sz (addr_to_mem a) s) i)"
    by (simp add: bit_read_pte [OF assms] addr_to_mem_def)
  then show ?thesis unfolding entry_at_def addr_is_mem_def word_bits_eq by simp
qed

lemma and_bit: "pte AND 1 = 0 \<longleftrightarrow> \<not> bit pte 0" "pte AND 2 = 0 \<longleftrightarrow> \<not> bit pte 1" "pte AND 4 = 0 \<longleftrightarrow> \<not> bit pte 2"
  "pte AND 8 = 0 \<longleftrightarrow> \<not> bit pte 3" "pte AND 16 = 0 \<longleftrightarrow> \<not> bit pte 4" for pte :: u64
  using and_exp_eq_0_iff_not_bit [of pte 0] and_exp_eq_0_iff_not_bit [of pte 1] and_exp_eq_0_iff_not_bit [of pte 2]
    and_exp_eq_0_iff_not_bit [of pte 3] and_exp_eq_0_iff_not_bit [of pte 4] by simp_all

lemma all_less_4: "(\<forall>n. n < 4 \<longrightarrow> P n) \<longleftrightarrow> P 0 \<and> P 1 \<and> P 2 \<and> P 3" for P :: "nat \<Rightarrow> bool"
  using ex_less_cases(3) [of "\<lambda>n. \<not> P n"] by blast

lemma next_table_iff: "next_table pte \<longleftrightarrow> PTE_TABLE pte"
proof -
  have b: "bit (15 :: u64) n \<longleftrightarrow> n < 4" for n
  proof -
    have "(15 :: u64) = mask 4" by (simp add: mask_eq_exp_minus_1)
    then show ?thesis by (simp only: bit_mask_iff possible_bit_word) auto
  qed
  have "PTE_TABLE pte \<longleftrightarrow> (\<forall>n. bit (pte AND 15) n = bit (1 :: u64) n)" unfolding word_bits_eq by (simp add: PTE_TABLE_def)
  also have "\<dots> \<longleftrightarrow> (\<forall>n. n < 4 \<longrightarrow> (bit pte n \<longleftrightarrow> n = 0))" by (intro iff_allI) (unfold bit_and_iff b bit_1_iff, auto)
  also have "\<dots> \<longleftrightarrow> next_table pte" unfolding all_less_4 by (simp add: next_table_def)
  finally show ?thesis by blast
qed

lemma permits_iff: "permits (supervisor w) (pum w) (mxr w) type pte \<longleftrightarrow> \<not> pte_refused w type pte"
  by (cases type) (auto simp: permits_def pte_refused_def and_bit)

lemma index_eq: "drop_bit k addr AND (push_bit b 1 - 1) = take_bit b (drop_bit k (addr :: u64))"
  by (simp add: take_bit_eq_mask mask_eq_exp_minus_1 push_bit_of_1)

lemma mapped_iff:
  assumes "ptesize w \<in> {4, 8}"
  shows "mapped (ptidxbits w) (ptesize w) s addr n base a l pte \<longleftrightarrow> leaf_of w s addr n base a l pte"
proof
  have p: "push_bit 12 x = 4096 * x" for x :: u64 by (simp add: push_bit_eq_mult)
  have pa: "pte_address w addr n base = base + take_bit (ptidxbits w) (drop_bit (12 + n * ptidxbits w) addr) * of_nat (ptesize w)" for n base
    unfolding pte_address_def index_eq ..
  show "mapped (ptidxbits w) (ptesize w) s addr n base a l pte \<Longrightarrow> leaf_of w s addr n base a l pte"
    by (induction rule: mapped.induct) (auto simp: entry_at_iff [OF assms] next_table_iff pa p intro: leaf_of.intros)
  show "leaf_of w s addr n base a l pte \<Longrightarrow> mapped (ptidxbits w) (ptesize w) s addr n base a l pte"
    by (induction rule: leaf_of.induct) (auto simp: entry_at_iff [OF assms] next_table_iff pa p intro: mapped.intros)
qed

lemma bit_page_of:
  assumes "l * ptidxbits w < 64"
  shows "bit (page_of w addr l pte) i \<longleftrightarrow> 12 \<le> i \<and> i < 64 \<and> (bit pte (i - 2) \<or> i < 12 + l * ptidxbits w \<and> bit addr i)"
proof (cases "12 \<le> i \<and> i < 64")
  case True
  then have "10 + (i - 12) = i - 2" "12 + (i - 12) = i" by simp_all
  then show ?thesis using True unfolding page_of_def index_eq by (auto simp: bit_simps)
qed (auto simp: page_of_def bit_simps)

lemma canonical_iff:
  assumes "xl \<le> 64" "0 < va"
  shows "canonical xl va addr \<longleftrightarrow> sign_extended_from (va - 1) xl addr"
proof -
  let ?n = "va - 1" and ?k = "xl - (va - 1)"
  have c: "canonical xl va addr \<longleftrightarrow> take_bit ?k (drop_bit ?n addr) = 0 \<or> take_bit ?k (drop_bit ?n addr) = mask ?k"
    unfolding canonical_def Let_def index_eq by (simp add: mask_eq_exp_minus_1)
  have 0: "take_bit ?k (drop_bit ?n addr) = 0 \<longleftrightarrow> (\<forall>i < ?k. \<not> bit addr (?n + i))"
    unfolding word_bits_eq [symmetric] by (simp add: bit_take_bit_iff bit_drop_bit_eq)
  have 1: "take_bit ?k (drop_bit ?n addr) = mask ?k \<longleftrightarrow> (\<forall>i < ?k. bit addr (?n + i))"
  proof -
    have "i < ?k \<Longrightarrow> i < 64" for i using assms by arith
    then show ?thesis unfolding word_bits_eq [symmetric] by (auto simp: bit_take_bit_iff bit_drop_bit_eq bit_mask_iff)
  qed
  have "(\<forall>i. ?n \<le> i \<longrightarrow> i < xl \<longrightarrow> Q i) \<longleftrightarrow> (\<forall>i < ?k. Q (?n + i))" for Q
  proof (intro iffI allI impI)
    show "Q (?n + i)" if "\<forall>i. ?n \<le> i \<longrightarrow> i < xl \<longrightarrow> Q i" "i < ?k" for i using that by simp
    show "Q i" if "\<forall>i < ?k. Q (?n + i)" "?n \<le> i" "i < xl" for i using that(1) [rule_format, of "i - ?n"] that(2,3) by simp
  qed
  then have s: "sign_extended_from ?n xl addr \<longleftrightarrow> (\<forall>i < ?k. bit addr (?n + i) = bit addr ?n)" by (simp add: sign_extended_from_def)
  show ?thesis
  proof (cases "?k = 0")
    case False
    then have "0 < ?k" by simp
    then have "(\<forall>i < ?k. bit addr (?n + i)) \<Longrightarrow> bit addr ?n" "(\<forall>i < ?k. \<not> bit addr (?n + i)) \<Longrightarrow> \<not> bit addr ?n" by force+
    then show ?thesis unfolding c 0 1 s by (cases "bit addr ?n") blast+
  next
    case True
    then have "\<not> i < ?k" for i by simp
    then show ?thesis unfolding c 0 1 s by blast
  qed
qed

lemma bit_set_accessed:
  "bit (mem (set_accessed type ppte s) x) i \<longleftrightarrow> bit (mem s x) i \<or> x = ppte \<and> (i = 6 \<or> i = 7 \<and> type = STORE)"
proof -
  define k where "k = (0x40 OR (if type = STORE then 0x80 else 0) :: u64)"
  define v where "v = the (reg_from_bytes 4 (read_mem ppte 4 s))"
  have k: "bit k n \<longleftrightarrow> n = 6 \<or> n = 7 \<and> type = STORE" for n
  proof -
    have "k = (if type = STORE then 0xC0 else 0x40)" by (simp add: k_def)
    then show ?thesis using f_PTE_A.bit_M [of n] f_PTE_AD.bit_M [of n] by auto
  qed
  have w: "mem (set_accessed type ppte s) x = (if unat (x - ppte) < 4 then word_bytes 4 (v OR k) ! unat (x - ppte) else mem s x)"
    by (simp add: set_accessed_def write_mem_def write_bytes_apply k_def v_def del: word_bytes.simps)
  show ?thesis
  proof (cases "unat (x - ppte) < 4 \<and> i < 8")
    case True
    define j where "j = unat (x - ppte)"
    have j: "j < 4" "x = ppte + of_nat j" "unat (of_nat j :: u64) = j" using True unat_diff_less [of x ppte] by (auto simp: j_def)
    have "bit v (8 * j + i) = bit (mem s x) i"
      using j True bit_reg_from_mem [of 4 ppte s "8 * j + i"] by (simp add: v_def)
    then have b: "bit (mem (set_accessed type ppte s) x) i = (bit (mem s x) i \<or> bit k (8 * j + i))"
      using True unfolding w if_P [OF conjunct1 [OF True]] j_def [symmetric] nth_word_bytes [OF j(1)]
      by (simp add: bit_unsigned_iff bit_drop_bit_eq bit_or_iff)
    have "x = ppte \<longleftrightarrow> (of_nat j :: u64) = 0" using j(2) by simp
    then have "x = ppte \<longleftrightarrow> j = 0" using j(3) by (auto simp: unat_eq_0)
    moreover have "j \<noteq> 0 \<Longrightarrow> \<not> bit k (8 * j + i)" unfolding k by simp
    ultimately show ?thesis using b k [of i] by (cases "j = 0") auto
  next
    case False
    then have "x \<noteq> ppte \<or> 8 \<le> i" by auto
    then show ?thesis using False bit_imp_le_length [of "mem s x" i] bit_imp_le_length [of "mem (set_accessed type ppte s) x" i] by (auto simp: w)
  qed
qed

lemma walk_eq:
  fixes s :: sim_t and h :: nat
  defines "p \<equiv> get_proc h s"
  defines "m \<equiv> mstatus (state p)"
  assumes g: "(take_bit 5 (drop_bit 24 m), levels, bits, sz) \<in> {(8, 2, 10, 4), (9, 3, 9, 8), (10, 4, 9, 8)}" and xl: "xlen p \<le> 64"
  shows "walk h addr type mode s = (if sign_extended_from (11 + levels * bits) (xlen p) addr
    then apfst Ok (walk_loop \<lparr>ptidxbits = bits, ptesize = sz, supervisor = (mode = 1), pum = bit m 18, mxr = bit m 19\<rparr> type addr levels (4096 * sptbr (state p)) s)
    else (Ok (- 1), s))"
proof -
  have "vm_geometry (get_field m MSTATUS_VM) = Some (levels, bits, sz)"
    using g by (auto simp: f_VM.get_field_eq vm_geometry_def)
  moreover have b: "take_bit 1 x \<noteq> 0 \<longleftrightarrow> bit x 0" for x :: u64 by (simp add: take_bit_Suc bit_0 odd_iff_mod_2_eq_one)
  have "get_field m MSTATUS_PUM \<noteq> 0 \<longleftrightarrow> bit m 18" "get_field m MSTATUS_MXR \<noteq> 0 \<longleftrightarrow> bit m 19"
    unfolding f_PUM.get_field_eq f_MXR.get_field_eq b by (simp_all add: bit_drop_bit_eq)
  moreover have "canonical (xlen p) (12 + levels * bits) addr \<longleftrightarrow> sign_extended_from (11 + levels * bits) (xlen p) addr"
    using canonical_iff [OF xl, of "12 + levels * bits"] by simp
  moreover have "push_bit 12 (sptbr (state p)) = 4096 * sptbr (state p)" by (simp add: push_bit_eq_mult)
  ultimately show ?thesis by (simp add: walk_def Let_def flip: p_def m_def)
qed

lemma walk_loop_found:
  assumes l: "leaf_of w s addr n base a l pte" and r: "\<not> pte_refused w type pte" and lb: "n * ptidxbits w < 64"
  shows "\<exists>page m. walk_loop w type addr n base s = (page, s\<lparr>mem := m\<rparr>) \<and>
    (\<forall>i. bit page i \<longleftrightarrow> 12 \<le> i \<and> i < 64 \<and> (bit pte (i - 2) \<or> i < 12 + l * ptidxbits w \<and> bit addr i)) \<and>
    (\<forall>x i. bit (m x) i \<longleftrightarrow> bit (mem s x) i \<or> x = a - 0x80000000 \<and> (i = 6 \<or> i = 7 \<and> type = STORE))"
proof -
  have "l < n" using l by induction auto
  then have lb: "l * ptidxbits w < 64" using lb mult_le_mono1 [of l n "ptidxbits w"] by linarith
  obtain m where m: "set_accessed type (addr_to_mem a) s = s\<lparr>mem := m\<rparr>" unfolding set_accessed_def write_mem_def by blast
  have "bit (m x) i \<longleftrightarrow> bit (mem s x) i \<or> x = a - 0x80000000 \<and> (i = 6 \<or> i = 7 \<and> type = STORE)" for x i
    using bit_set_accessed [of type "addr_to_mem a" s x i] unfolding m by (simp add: addr_to_mem_def)
  moreover have "walk_loop w type addr n base s = (page_of w addr l pte, s\<lparr>mem := m\<rparr>)"
    using walk_loop_leaf [OF l, of type] r by (simp add: m)
  ultimately show ?thesis
    using bit_page_of [OF lb, of addr pte] by (intro exI [of _ "page_of w addr l pte"] exI [of _ m]) (simp only: simp_thms)
qed

lemma walk_loop_nothing:
  assumes "\<nexists>a l pte. leaf_of w s addr n base a l pte \<and> \<not> pte_refused w type pte"
  shows "walk_loop w type addr n base s = (- 1, s)"
proof (cases "\<exists>a l pte. leaf_of w s addr n base a l pte")
  case True
  then obtain a l pte where l: "leaf_of w s addr n base a l pte" by blast
  then have "pte_refused w type pte" using assms by blast
  then show ?thesis by (simp add: walk_loop_leaf [OF l])
next
  case False
  then show ?thesis by (rule walk_loop_no_leaf)
qed

end
