(* ===== verification/Exec_Logic.thy ===== *)
theory Exec_Logic
  imports Riscv_Mmu
begin

text \<open>
  A small logic of computations that may throw: \<open>hoare P m Q E\<close> says that \<open>m\<close>, started in a state that satisfies \<open>P\<close>,
  either returns a value and a state that satisfy \<open>Q\<close>, or ends otherwise in a state that satisfies \<open>E\<close>.
\<close>

definition hoare :: "(sim_t \<Rightarrow> bool) \<Rightarrow> 'a exec \<Rightarrow> ('a \<Rightarrow> sim_t \<Rightarrow> bool) \<Rightarrow> (sim_t \<Rightarrow> bool) \<Rightarrow> bool" where
  "hoare P m Q E \<longleftrightarrow> (\<forall>s. P s \<longrightarrow> (case m s of (Ok x, s') \<Rightarrow> Q x s' | (_, s') \<Rightarrow> E s'))"

named_theorems hoare_intro "rules that follow the structure of a computation"

lemma hoare_bnd: "hoare P m R E \<Longrightarrow> (\<And>x. hoare (R x) (f x) Q E) \<Longrightarrow> hoare P (bnd m f) Q E"
  unfolding hoare_def bnd_def by (fastforce split: prod.splits result.splits)

lemma hoare_conseq: "hoare P' m Q' E' \<Longrightarrow> (\<And>s. P s \<Longrightarrow> P' s) \<Longrightarrow> (\<And>x s. Q' x s \<Longrightarrow> Q x s) \<Longrightarrow> (\<And>s. E' s \<Longrightarrow> E s) \<Longrightarrow> hoare P m Q E"
  unfolding hoare_def by (fastforce split: prod.splits result.splits)

lemma hoare_return: "(\<And>s. P s \<Longrightarrow> Q x s) \<Longrightarrow> hoare P (return x) Q E"
  by (simp add: hoare_def return_def)

lemma hoare_throw: "(\<And>s. P s \<Longrightarrow> E s) \<Longrightarrow> hoare P (throw t) Q E"
  by (simp add: hoare_def throw_def)

lemma hoare_trigger: "(\<And>s. P s \<Longrightarrow> E s) \<Longrightarrow> hoare P (trigger t) Q E"
  by (simp add: hoare_def trigger_def)

lemma hoare_undefined: "(\<And>s. P s \<Longrightarrow> E s) \<Longrightarrow> hoare P undefined_behaviour Q E"
  by (simp add: hoare_def undefined_behaviour_def)

lemma hoare_gets: "(\<And>s. P s \<Longrightarrow> Q (f s) s) \<Longrightarrow> hoare P (gets f) Q E"
  by (simp add: hoare_def gets_def)

lemma hoare_hart: "(\<And>s. P s \<Longrightarrow> Q (get_proc h s) s) \<Longrightarrow> hoare P (hart h) Q E"
  by (simp add: hart_def hoare_gets)

lemma hoare_modify: "(\<And>s. P s \<Longrightarrow> Q () (f s)) \<Longrightarrow> hoare P (modify f) Q E"
  by (simp add: hoare_def modify_def)

lemma hoare_bnd_gets: "(\<And>x. hoare (\<lambda>s. P s \<and> f s = x) (g x) Q E) \<Longrightarrow> hoare P (bnd (gets f) g) Q E"
  by (simp add: hoare_def bnd_def gets_def)

lemma hoareD: "hoare P m Q E \<Longrightarrow> P s \<Longrightarrow> m s = (Ok x, s') \<Longrightarrow> Q x s'"
  unfolding hoare_def by fastforce

text \<open>Computations that keep a predicate however they end.\<close>

definition keeps_inv :: "(sim_t \<Rightarrow> bool) \<Rightarrow> 'a exec \<Rightarrow> bool" where
  "keeps_inv P m \<longleftrightarrow> (\<forall>s. P s \<longrightarrow> P (snd (m s)))"

lemma keeps_inv_hoare: "keeps_inv P m \<longleftrightarrow> hoare P m (\<lambda>_. P) P"
proof -
  have "P (snd r) \<longleftrightarrow> (case r of (Ok x, s') \<Rightarrow> P s' | (_, s') \<Rightarrow> P s')" for r :: "'a result \<times> sim_t"
    by (cases r; cases "fst r") auto
  then show ?thesis unfolding keeps_inv_def hoare_def by simp
qed

lemma keeps_inv_bnd [hoare_intro]: "keeps_inv P m \<Longrightarrow> (\<And>x. keeps_inv P (f x)) \<Longrightarrow> keeps_inv P (bnd m f)"
  unfolding keeps_inv_hoare by (rule hoare_bnd)

lemma keeps_inv_simps [hoare_intro]:
  "keeps_inv P (return x)" "keeps_inv P (throw t)" "keeps_inv P (trigger tr)" "keeps_inv P undefined_behaviour"
  "keeps_inv P (gets f)" "keeps_inv P (hart h)"
  by (simp_all add: keeps_inv_def return_def throw_def trigger_def undefined_behaviour_def gets_def hart_def)

lemma keeps_inv_modify [hoare_intro]: "(\<And>s. P s \<Longrightarrow> P (f s)) \<Longrightarrow> keeps_inv P (modify f)"
  by (simp add: keeps_inv_def modify_def)

lemma keeps_inv_if [hoare_intro]: "(c \<Longrightarrow> keeps_inv P a) \<Longrightarrow> (\<not> c \<Longrightarrow> keeps_inv P b) \<Longrightarrow> keeps_inv P (if c then a else b)"
  by simp

lemma keeps_inv_option [hoare_intro]:
  "(r = None \<Longrightarrow> keeps_inv P a) \<Longrightarrow> (\<And>x. r = Some x \<Longrightarrow> keeps_inv P (b x)) \<Longrightarrow> keeps_inv P (case r of None \<Rightarrow> a | Some x \<Rightarrow> b x)"
  by (cases r) simp_all

lemma hoare_keeps: "keeps_inv P m \<Longrightarrow> (\<And>s. P' s \<Longrightarrow> P s) \<Longrightarrow> hoare P' m (\<lambda>_. P) P"
  unfolding keeps_inv_hoare by (erule hoare_conseq) simp_all

lemma bnd_Ok: "bnd m f s = (Ok x, s') \<longleftrightarrow> (\<exists>y s1. m s = (Ok y, s1) \<and> f y s1 = (Ok x, s'))"
  by (auto simp: bnd_def split: prod.splits result.splits)

end
