(* ===== verification/Riscv_Tlb.thy ===== *)
theory Riscv_Tlb
  imports Riscv_Paging Exec_Logic
begin

text \<open>
  The TLB agrees with the page tables: a hit gives the address a walk would give.  The invariant holds as long as
  fetches and data accesses are translated in the same mode; with \<^verbatim>\<open>MSTATUS_MPRV\<close> set in machine mode it fails, because the
  three tags of an entry share one translation.
\<close>

subsection \<open>Pages\<close>

definition mem_ok :: "sim_t \<Rightarrow> bool" where
  "mem_ok s \<longleftrightarrow> unat (memsz s) mod 4096 = 0 \<and> unat (memsz s) \<le> 2 ^ 63"

lemma and_FFF: "x AND 0xFFF = take_bit 12 x" for x :: u64
  by (simp add: take_bit_eq_mask mask_eq_exp_minus_1)

lemma page_split: "x = push_bit 12 (drop_bit 12 x) + (x AND 0xFFF)" for x :: u64
  by (simp add: and_FFF bits_ident)

lemma page_offset:
  fixes p p' v v' :: u64
  assumes "drop_bit 12 p' = drop_bit 12 p" "drop_bit 12 v' = drop_bit 12 v"
    "p AND 0xFFF = v AND 0xFFF" "p' AND 0xFFF = v' AND 0xFFF"
  shows "p' - v' = p - v"
  using assms page_split [of p] page_split [of p'] page_split [of v] page_split [of v']
  by (metis (no_types, lifting) add_diff_cancel_right)

lemma addr_is_mem_unat:
  assumes "mem_ok s"
  shows "addr_is_mem p s \<longleftrightarrow> 2 ^ 31 \<le> unat p \<and> unat p < 2 ^ 31 + unat (memsz s)"
proof -
  have "unat (0x80000000 + memsz s) = 2 ^ 31 + unat (memsz s)"
    using assms by (subst unat_add_less) (simp_all add: mem_ok_def)
  then show ?thesis unfolding addr_is_mem_def word_le_nat_alt word_less_nat_alt by simp
qed

lemma addr_is_mem_page:
  assumes "mem_ok s" "drop_bit 12 p' = drop_bit 12 p"
  shows "addr_is_mem p' s = addr_is_mem p s"
proof -
  obtain k where k: "unat (memsz s) = 4096 * k" using assms(1) by (auto simp: mem_ok_def)
  have "unat p div 4096 = unat p' div 4096" using arg_cong [OF assms(2), of unat] by (simp add: unat_shr)
  moreover have "addr_is_mem x s \<longleftrightarrow> 524288 \<le> unat x div 4096 \<and> unat x div 4096 < 524288 + k" for x
  proof -
    have "2 ^ 31 \<le> unat x \<longleftrightarrow> 524288 \<le> unat x div 4096" by (simp add: le_div_geq) arith
    moreover have "unat x < 2 ^ 31 + 4096 * k \<longleftrightarrow> unat x div 4096 < 524288 + k" by (simp add: div_less_iff_less_mult algebra_simps)
    ultimately show ?thesis unfolding addr_is_mem_unat [OF assms(1)] k by blast
  qed
  ultimately show ?thesis by simp
qed

lemma not_mem_minus_1: "mem_ok s \<Longrightarrow> \<not> addr_is_mem (- 1) s"
  by (simp add: addr_is_mem_unat mem_ok_def unsigned_minus_1_eq_mask mask_eq_exp_minus_1)

subsection \<open>Translation\<close>

definition hart_geometry :: "processor_t \<Rightarrow> (nat \<times> nat \<times> nat) option" where
  "hart_geometry p = vm_geometry (get_field (mstatus (state p)) MSTATUS_VM)"

definition hart_walk_mode :: "processor_t \<Rightarrow> u64 \<Rightarrow> nat \<Rightarrow> nat \<Rightarrow> walk_mode" where
  "hart_walk_mode p mode b sz = \<lparr>ptidxbits = b, ptesize = sz, supervisor = (mode = PRV_S),
     pum = (get_field (mstatus (state p)) MSTATUS_PUM \<noteq> 0), mxr = (get_field (mstatus (state p)) MSTATUS_MXR \<noteq> 0)\<rparr>"

lemma vm_geometry_sz: "vm_geometry vm = Some (l, b, sz) \<Longrightarrow> sz \<in> {4, 8} \<and> 19 \<le> l * b"
  by (auto simp: vm_geometry_def split: if_splits)

text \<open>The three outcomes of a translation.\<close>

lemma translate_cases:
  assumes "access_mode type (get_proc h s) = mode"
  shows "mode = 3 \<Longrightarrow> translate h v type s = (Ok (v AND (push_bit (xlen (get_proc h s) - 1) 2 - 1)), s)"
    and "mode \<noteq> 3 \<Longrightarrow> hart_geometry (get_proc h s) = None \<Longrightarrow> translate h v type s = (Undefined, s)"
    and "mode \<noteq> 3 \<Longrightarrow> hart_geometry (get_proc h s) = Some (l, b, sz) \<Longrightarrow> \<not> canonical (xlen (get_proc h s)) (12 + l * b) v \<Longrightarrow>
      translate h v type s = (Ok (- 1), s)"
    and "mode \<noteq> 3 \<Longrightarrow> hart_geometry (get_proc h s) = Some (l, b, sz) \<Longrightarrow> canonical (xlen (get_proc h s)) (12 + l * b) v \<Longrightarrow>
      translate h v type s = (let (pg, s') = walk_loop (hart_walk_mode (get_proc h s) mode b sz) type v l (push_bit 12 (sptbr (state (get_proc h s)))) s
        in (Ok (pg OR (v AND 0xFFF)), s'))"
  using assms by (auto simp: translate_def walk_def bnd_def return_def Let_def hart_geometry_def hart_walk_mode_def split: prod.split)

text \<open>Machines that look the same to the page-table walk of hart \<open>h\<close>.\<close>

definition same_view :: "nat \<Rightarrow> sim_t \<Rightarrow> sim_t \<Rightarrow> bool" where
  "same_view h s s' \<longleftrightarrow> state (get_proc h s') = state (get_proc h s) \<and> xlen (get_proc h s') = xlen (get_proc h s) \<and> memsz s' = memsz s \<and>
     (\<forall>l b sz. hart_geometry (get_proc h s) = Some (l, b, sz) \<longrightarrow> ad_eq sz (mem s) (mem s'))"

lemma same_view_refl [simp]: "same_view h s s"
  by (simp add: same_view_def)

lemma same_view_trans: "same_view h s s' \<Longrightarrow> same_view h s' s'' \<Longrightarrow> same_view h s s''"
  unfolding same_view_def hart_geometry_def by (auto intro: ad_eq_trans)

lemma same_view_mode:
  assumes "same_view h s s'"
  shows "access_mode type (get_proc h s') = access_mode type (get_proc h s)" "hart_geometry (get_proc h s') = hart_geometry (get_proc h s)"
    "hart_walk_mode (get_proc h s') = hart_walk_mode (get_proc h s)"
  using assms by (simp_all add: same_view_def access_mode_def hart_geometry_def hart_walk_mode_def fun_eq_iff Let_def)

lemma hart_walk_mode_sz [simp]: "ptesize (hart_walk_mode p mode b sz) = sz"
  by (simp add: hart_walk_mode_def)

lemma translate_same_view:
  assumes "same_view h s s'"
  shows "fst (translate h v type s') = fst (translate h v type s)"
proof -
  let ?m = "access_mode type (get_proc h s)"
  note e = assms [unfolded same_view_def] and sm = same_view_mode [OF assms]
  show ?thesis
  proof (cases "?m = 3")
    case True
    then show ?thesis using e by (simp add: translate_cases(1) [OF refl] sm)
  next
    case m: False
    show ?thesis
    proof (cases "hart_geometry (get_proc h s)")
      case None
      then show ?thesis using m by (simp add: translate_cases(2) [OF refl] sm)
    next
      case (Some g)
      obtain l b sz where g: "hart_geometry (get_proc h s) = Some (l, b, sz)" using Some by (cases g) auto
      have sz: "sz \<in> {4, 8}" using vm_geometry_sz [OF g [unfolded hart_geometry_def]] by blast
      have ad: "ad_eq sz (mem s) (mem s')" using e g by blast
      show ?thesis
      proof (cases "canonical (xlen (get_proc h s)) (12 + l * b) v")
        case True
        then show ?thesis
          using walk_loop_ad [of "hart_walk_mode (get_proc h s) ?m b sz" s s' type v l "sptbr (state (get_proc h s))"] sz ad e m g
          by (simp add: translate_cases(4) [OF refl] sm Let_def case_prod_beta)
      next
        case False
        then show ?thesis using e m g by (simp add: translate_cases(3) [OF refl] sm)
      qed
    qed
  qed
qed

lemma translate_state:
  "\<exists>m. snd (translate h v type s) = s\<lparr>mem := m\<rparr> \<and> (\<forall>l b sz. hart_geometry (get_proc h s) = Some (l, b, sz) \<longrightarrow> ad_eq sz (mem s) m)"
proof -
  let ?m = "access_mode type (get_proc h s)"
  have id: "\<exists>m. s = s\<lparr>mem := m\<rparr> \<and> (\<forall>l b sz. hart_geometry (get_proc h s) = Some (l, b, sz) \<longrightarrow> ad_eq sz (mem s) m)"
    by (rule exI [of _ "mem s"]) simp
  show ?thesis
  proof (cases "?m = 3 \<or> hart_geometry (get_proc h s) = None")
    case True
    then have "snd (translate h v type s) = s"
      by (cases "?m = 3") (simp_all add: translate_cases(1,2) [OF refl])
    then show ?thesis using id by simp
  next
    case False
    then obtain l b sz where g: "hart_geometry (get_proc h s) = Some (l, b, sz)" by auto
    have sz: "sz \<in> {4, 8}" using vm_geometry_sz [OF g [unfolded hart_geometry_def]] by blast
    show ?thesis
    proof (cases "canonical (xlen (get_proc h s)) (12 + l * b) v")
      case True
      then show ?thesis
        using walk_loop_state [of "hart_walk_mode (get_proc h s) ?m b sz" s type v l "sptbr (state (get_proc h s))"] sz g False
        by (auto simp: translate_cases(4) [OF refl] Let_def case_prod_beta)
    next
      case c: False
      have "snd (translate h v type s) = s" using False c g by (simp add: translate_cases(3) [OF refl])
      then show ?thesis using id by simp
    qed
  qed
qed

lemma translate_view: "same_view h s (snd (translate h v type s))"
proof -
  obtain m where "snd (translate h v type s) = s\<lparr>mem := m\<rparr>" "\<forall>l b sz. hart_geometry (get_proc h s) = Some (l, b, sz) \<longrightarrow> ad_eq sz (mem s) m"
    using translate_state [of h v type s] by blast
  then show ?thesis by (simp add: same_view_def get_proc_def)
qed

text \<open>What a translation to main memory looks like: the identity, or the page of the walk with the offset of the address.\<close>

lemma or_offset:
  fixes x v :: u64
  shows "drop_bit 12 (push_bit 12 x OR (v AND 0xFFF)) = drop_bit 12 (push_bit 12 x)" "(push_bit 12 x OR (v AND 0xFFF)) AND 0xFFF = v AND 0xFFF"
  unfolding and_FFF by (auto simp: bit_simps intro!: bit_word_eqI)

lemma xlen_mask:
  fixes v :: u64
  assumes "xl \<in> {32, 64}"
  shows "v AND (push_bit (xl - 1) 2 - 1) = take_bit xl v"
  using assms by (auto simp: take_bit_eq_mask mask_eq_exp_minus_1)

lemma walk_loop_result: "\<exists>x. fst (walk_loop w type v n base s) = - 1 \<or> fst (walk_loop w type v n base s) = push_bit 12 x"
proof (induction n arbitrary: base)
  case (Suc n)
  have "\<exists>x. page_of w v n pte = push_bit 12 x" for pte unfolding page_of_def by blast
  with Suc show ?case by (auto simp: walk_loop_Suc Let_def simp del: walk_loop.simps(2))
qed simp

definition uses_page :: "nat \<Rightarrow> sim_t \<Rightarrow> access_type \<Rightarrow> u64 \<Rightarrow> u64 \<Rightarrow> bool" where
  "uses_page h s type v p \<longleftrightarrow> fst (translate h v type s) = Ok p \<and> addr_is_mem p s"

lemma uses_page_cases:
  assumes ok: "mem_ok s" and u: "uses_page h s type v p"
  shows "access_mode type (get_proc h s) = 3 \<and> p = v AND (push_bit (xlen (get_proc h s) - 1) 2 - 1) \<or>
    (\<exists>l b sz x. access_mode type (get_proc h s) \<noteq> 3 \<and> hart_geometry (get_proc h s) = Some (l, b, sz) \<and>
       canonical (xlen (get_proc h s)) (12 + l * b) v \<and> p = push_bit 12 x OR (v AND 0xFFF) \<and>
       fst (walk_loop (hart_walk_mode (get_proc h s) (access_mode type (get_proc h s)) b sz) type v l
         (push_bit 12 (sptbr (state (get_proc h s)))) s) = push_bit 12 x \<and> push_bit 12 x \<noteq> - 1)"
proof -
  let ?m = "access_mode type (get_proc h s)"
  have p: "fst (translate h v type s) = Ok p" "p \<noteq> - 1"
    using u not_mem_minus_1 [OF ok] by (auto simp: uses_page_def)
  show ?thesis
  proof (cases "?m = 3")
    case True
    then show ?thesis using p by (simp add: translate_cases(1) [OF refl])
  next
    case m: False
    then obtain l b sz where g: "hart_geometry (get_proc h s) = Some (l, b, sz)"
      using p by (cases "hart_geometry (get_proc h s)") (auto simp: translate_cases(2) [OF refl])
    have c: "canonical (xlen (get_proc h s)) (12 + l * b) v"
      using p m g by (rule_tac ccontr) (simp add: translate_cases(3) [OF refl])
    let ?r = "fst (walk_loop (hart_walk_mode (get_proc h s) ?m b sz) type v l (push_bit 12 (sptbr (state (get_proc h s)))) s)"
    have r: "p = ?r OR (v AND 0xFFF)" using p m g c by (simp add: translate_cases(4) [OF refl] Let_def case_prod_beta)
    obtain x where "?r = - 1 \<or> ?r = push_bit 12 x" using walk_loop_result by blast
    moreover have "?r \<noteq> - 1" using r p by auto
    ultimately have x: "?r = push_bit 12 x" "push_bit 12 x \<noteq> (- 1 :: u64)" by auto
    have "p = push_bit 12 x OR (v AND 0xFFF)" using r unfolding x(1) .
    then show ?thesis using m g c x by blast
  qed
qed

lemma uses_page_offset:
  assumes ok: "mem_ok s" and xl: "xlen (get_proc h s) \<in> {32, 64}" and u: "uses_page h s type v p"
  shows "p AND 0xFFF = v AND 0xFFF"
  using uses_page_cases [OF ok u]
proof (elim disjE conjE exE)
  assume "p = v AND (push_bit (xlen (get_proc h s) - 1) 2 - 1)"
  then have "p = take_bit (xlen (get_proc h s)) v" using xlen_mask [OF xl] by simp
  then show ?thesis using xl unfolding and_FFF by (auto simp: bit_simps intro!: bit_word_eqI)
qed (simp add: or_offset)

text \<open>Another address of the page goes to the same page.\<close>

lemma canonical_page:
  assumes "drop_bit 12 v' = drop_bit 12 v" "13 \<le> n"
  shows "canonical xl n v' = canonical xl n v"
  using drop_bit_page [OF assms(1), of "n - 13"] assms(2) by (simp add: canonical_def)

lemma uses_page_same:
  assumes ok: "mem_ok s" and xl: "xlen (get_proc h s) \<in> {32, 64}" and u: "uses_page h s type v p"
    and pg: "drop_bit 12 v' = drop_bit 12 v"
  shows "\<exists>p'. uses_page h s type v' p' \<and> drop_bit 12 p' = drop_bit 12 p"
  using uses_page_cases [OF ok u]
proof (elim disjE conjE exE)
  let ?n = "xlen (get_proc h s)"
  assume m: "access_mode type (get_proc h s) = 3" and p: "p = v AND (push_bit (?n - 1) 2 - 1)"
  have d: "drop_bit 12 (take_bit ?n v') = drop_bit 12 (take_bit ?n v)"
    using pg by (simp add: drop_bit_take_bit)
  have p: "p = take_bit ?n v" using p xlen_mask [OF xl] by simp
  have "fst (translate h v' type s) = Ok (take_bit ?n v')" using m xlen_mask [OF xl] by (simp add: translate_cases(1) [OF refl])
  moreover have "addr_is_mem (take_bit ?n v') s" using addr_is_mem_page [OF ok d] u by (simp add: uses_page_def p)
  ultimately show ?thesis using d by (auto simp: uses_page_def p)
next
  fix l b sz x
  let ?P = "get_proc h s"
  assume a: "access_mode type ?P \<noteq> 3" "hart_geometry ?P = Some (l, b, sz)" "canonical (xlen ?P) (12 + l * b) v"
    "p = push_bit 12 x OR (v AND 0xFFF)"
    "fst (walk_loop (hart_walk_mode ?P (access_mode type ?P) b sz) type v l (push_bit 12 (sptbr (state ?P))) s) = push_bit 12 x"
  have "13 \<le> 12 + l * b" using vm_geometry_sz [OF a(2) [unfolded hart_geometry_def]] by linarith
  then have c: "canonical (xlen ?P) (12 + l * b) v'" using canonical_page [OF pg] a(3) by simp
  let ?p = "push_bit 12 x OR (v' AND 0xFFF)"
  have "fst (translate h v' type s) = Ok ?p"
    using a(1,2,5) c by (simp add: translate_cases(4) [OF refl] Let_def case_prod_beta walk_loop_page [OF pg])
  moreover have d: "drop_bit 12 ?p = drop_bit 12 p" unfolding a(4) or_offset(1) by (rule refl)
  moreover have "addr_is_mem ?p s" using addr_is_mem_page [OF ok d] u by (simp add: uses_page_def)
  ultimately show ?thesis by (auto simp: uses_page_def)
qed

text \<open>Accesses of different types that are translated in the same mode go to the same page.\<close>

lemma uses_page_unique:
  assumes ok: "mem_ok s" and u: "uses_page h s t1 v p1" "uses_page h s t2 v p2"
    and mode: "access_mode t1 (get_proc h s) = access_mode t2 (get_proc h s)"
  shows "p1 = p2"
proof -
  let ?p = "get_proc h s"
  let ?r = "\<lambda>t l b sz. fst (walk_loop (hart_walk_mode ?p (access_mode t2 ?p) b sz) t v l (push_bit 12 (sptbr (state ?p))) s)"
  have "?r t1 l b sz = ?r t2 l b sz" if "?r t1 l b sz \<noteq> - 1" "?r t2 l b sz \<noteq> - 1" for l b sz
    by (rule walk_loop_unique [OF that])
  note eq = this and c = uses_page_cases [OF ok u(1), unfolded mode] uses_page_cases [OF ok u(2)]
  show ?thesis
  proof (cases "access_mode t2 ?p = 3")
    case True
    then show ?thesis using c by simp
  next
    case False
    obtain l b sz x where 1: "hart_geometry ?p = Some (l, b, sz)" "p1 = push_bit 12 x OR (v AND 0xFFF)"
      "?r t1 l b sz = push_bit 12 x" "push_bit 12 x \<noteq> (- 1 :: u64)" using c(1) False by blast
    obtain l' b' sz' y where 2: "hart_geometry ?p = Some (l', b', sz')" "p2 = push_bit 12 y OR (v AND 0xFFF)"
      "?r t2 l' b' sz' = push_bit 12 y" "push_bit 12 y \<noteq> (- 1 :: u64)" using c(2) False by blast
    have "l' = l" "b' = b" "sz' = sz" using 1(1) 2(1) by simp_all
    then have "push_bit 12 x = (push_bit 12 y :: u64)" using eq [of b sz l] 1(3,4) 2(3,4) by simp
    then show ?thesis unfolding 1(2) 2(2) by (rule arg_cong)
  qed
qed

subsection \<open>Coherence of the TLB\<close>

definition tlb_tag :: "access_type \<Rightarrow> mmu_t \<Rightarrow> u64 \<Rightarrow> u64" where
  "tlb_tag type m = (case type of FETCH \<Rightarrow> tlb_insn_tag m | LOAD \<Rightarrow> tlb_load_tag m | STORE \<Rightarrow> tlb_store_tag m)"

definition tlb_index :: "u64 \<Rightarrow> u64" where
  "tlb_index v = drop_bit 12 v mod 256"

definition tlb_hit :: "access_type \<Rightarrow> mmu_t \<Rightarrow> u64 \<Rightarrow> bool" where
  "tlb_hit type m v \<longleftrightarrow> tlb_tag type m (tlb_index v) \<in> {drop_bit 12 v, drop_bit 12 v OR TLB_CHECK_TRIGGERS}"

text \<open>Every hit gives the address in main memory that translation gives.\<close>

definition coherent :: "nat \<Rightarrow> sim_t \<Rightarrow> bool" where
  "coherent h s \<longleftrightarrow> (\<forall>type v. tlb_hit type (mmu (get_proc h s)) v \<longrightarrow>
     (\<exists>p. uses_page h s type v p \<and> tlb_data (mmu (get_proc h s)) (tlb_index v) + v = addr_to_mem p))"

definition uniform :: "processor_t \<Rightarrow> bool" where
  "uniform p \<longleftrightarrow> access_mode FETCH p = access_mode LOAD p"

lemma access_mode_STORE: "access_mode STORE p = access_mode LOAD p"
  by (simp add: access_mode_def)

lemma uniform_mode: "uniform p \<Longrightarrow> access_mode t1 p = access_mode t2 p"
  by (cases t1; cases t2) (simp_all add: uniform_def access_mode_STORE)

lemma vpn_top: "\<not> bit (drop_bit 12 v) 63" "drop_bit 12 v AND NOT TLB_CHECK_TRIGGERS = drop_bit 12 v"
  "(drop_bit 12 v OR TLB_CHECK_TRIGGERS) AND NOT TLB_CHECK_TRIGGERS = drop_bit 12 v" for v :: u64
proof -
  show b: "\<not> bit (drop_bit 12 v) 63" by (auto simp: bit_drop_bit_eq dest: bit_imp_le_length)
  define T :: u64 where "T = TLB_CHECK_TRIGGERS"
  have "bit T n \<longleftrightarrow> n = 63" for n using f_SD64.bit_M [of n] by (auto simp: T_def)
  then have "drop_bit 12 v AND NOT T = drop_bit 12 v" "(drop_bit 12 v OR T) AND NOT T = drop_bit 12 v"
    using b by (auto simp: bit_and_iff bit_or_iff bit_not_iff intro!: bit_word_eqI)
  then show "drop_bit 12 v AND NOT TLB_CHECK_TRIGGERS = drop_bit 12 v"
    "(drop_bit 12 v OR TLB_CHECK_TRIGGERS) AND NOT TLB_CHECK_TRIGGERS = drop_bit 12 v"
    by (simp_all only: T_def)
qed

lemma tag_invalid: "- 1 \<noteq> drop_bit 12 v" "- 1 \<noteq> drop_bit 12 v OR TLB_CHECK_TRIGGERS" for v :: u64
proof -
  have "\<not> bit (drop_bit 12 v) 62" "\<not> bit (0x8000000000000000 :: u64) 62"
    using f_SD64.bit_M [of 62] by (auto simp: bit_drop_bit_eq dest: bit_imp_le_length)
  then have "bit (- 1 :: u64) 62 \<noteq> bit (drop_bit 12 v) 62" "bit (- 1 :: u64) 62 \<noteq> bit (drop_bit 12 v OR TLB_CHECK_TRIGGERS) 62"
    unfolding bit_or_iff by auto
  then show "- 1 \<noteq> drop_bit 12 v" "- 1 \<noteq> drop_bit 12 v OR TLB_CHECK_TRIGGERS" by metis+
qed

lemma tlb_hit_tag: "tlb_hit type m v \<Longrightarrow> tlb_tag type m (tlb_index v) AND NOT TLB_CHECK_TRIGGERS = drop_bit 12 v"
  using vpn_top(2,3) [of v] by (auto simp: tlb_hit_def)

lemma flushed_coherent:
  assumes "h < length (procs s)"
  shows "coherent h (update_proc h mmu_flush_tlb s)"
proof -
  have "\<not> tlb_hit type (flush_tlb m) v" for type m v
    using tag_invalid [of v] by (cases type) (simp_all add: tlb_hit_def tlb_tag_def flush_tlb_def flush_icache_def)
  then show ?thesis using assms by (simp add: coherent_def update_proc_def get_proc_def mmu_flush_tlb_def)
qed

text \<open>Changes that neither the walk nor the TLB sees.\<close>

definition same_tlb :: "mmu_t \<Rightarrow> mmu_t \<Rightarrow> bool" where
  "same_tlb m m' \<longleftrightarrow> tlb_insn_tag m' = tlb_insn_tag m \<and> tlb_load_tag m' = tlb_load_tag m \<and> tlb_store_tag m' = tlb_store_tag m \<and> tlb_data m' = tlb_data m"

lemma uses_page_view: "same_view h s s' \<Longrightarrow> uses_page h s' type v p = uses_page h s type v p"
  using translate_same_view [of h s s'] by (simp add: uses_page_def same_view_def addr_is_mem_def)

lemma same_tlb_hit: "same_tlb m m' \<Longrightarrow> tlb_hit type m' v = tlb_hit type m v"
  by (cases type) (simp_all add: same_tlb_def tlb_hit_def tlb_tag_def)

lemma coherent_view:
  assumes "same_view h s s'" "same_tlb (mmu (get_proc h s)) (mmu (get_proc h s'))"
  shows "coherent h s' = coherent h s"
  using assms(2) unfolding coherent_def uses_page_view [OF assms(1)] same_tlb_hit [OF assms(2)] by (simp add: same_tlb_def)

text \<open>Refilling an entry.\<close>

lemma refill_tag:
  "tlb_tag t (refill_tlb v p type m) i =
    (if i \<noteq> tlb_index v then tlb_tag t m i
     else if t = type then (if check_triggers_fetch m \<and> type = FETCH \<or> check_triggers_load m \<and> type = LOAD \<or> check_triggers_store m \<and> type = STORE
                            then drop_bit 12 v OR TLB_CHECK_TRIGGERS else drop_bit 12 v)
     else if tlb_tag t m i AND NOT TLB_CHECK_TRIGGERS = drop_bit 12 v then tlb_tag t m i else - 1)"
  by (cases t; cases type) (auto simp: tlb_tag_def refill_tlb_def Let_def tlb_index_def drop_other_def)

lemma refill_data: "tlb_data (refill_tlb v p type m) i = (if i = tlb_index v then addr_to_mem p - v else tlb_data m i)"
  by (cases type) (simp_all add: refill_tlb_def Let_def tlb_index_def)

lemma refill_hit:
  assumes "tlb_hit t (refill_tlb v p type m) v'"
  shows "if tlb_index v' = tlb_index v then drop_bit 12 v' = drop_bit 12 v \<and> (t = type \<or> tlb_hit t m v') else tlb_hit t m v'"
proof (cases "tlb_index v' = tlb_index v")
  case True
  note h = tlb_hit_tag [OF assms, unfolded True]
  show ?thesis
  proof (cases "t = type")
    case True
    then show ?thesis using h vpn_top(2,3) [of v] \<open>tlb_index v' = tlb_index v\<close> by (auto simp: refill_tag split: if_splits)
  next
    case False
    let ?t = "tlb_tag t m (tlb_index v)"
    have "?t AND NOT TLB_CHECK_TRIGGERS = drop_bit 12 v"
      using assms tag_invalid [of v'] False True by (auto simp: tlb_hit_def refill_tag split: if_splits)
    then have "tlb_tag t (refill_tlb v p type m) (tlb_index v) = ?t" using False by (simp add: refill_tag)
    then show ?thesis using h assms \<open>?t AND NOT TLB_CHECK_TRIGGERS = drop_bit 12 v\<close> True by (simp add: tlb_hit_def)
  qed
next
  case False
  then show ?thesis using assms by (simp add: tlb_hit_def refill_tag)
qed

definition with_mmu :: "nat \<Rightarrow> (mmu_t \<Rightarrow> mmu_t) \<Rightarrow> sim_t \<Rightarrow> sim_t" where
  "with_mmu h f = update_proc h (\<lambda>q. q\<lparr>mmu := f (mmu q)\<rparr>)"

lemma with_mmu_simps [simp]:
  "h < length (procs s) \<Longrightarrow> mmu (get_proc h (with_mmu h f s)) = f (mmu (get_proc h s))" "same_view h s (with_mmu h f s)"
  "length (procs (with_mmu h f s)) = length (procs s)" "memsz (with_mmu h f s) = memsz s" "mem (with_mmu h f s) = mem s"
  by (cases "h < length (procs s)";
      simp add: with_mmu_def update_proc_def get_proc_def same_view_def list_update_beyond hart_geometry_def)+

lemma refill_coherent:
  assumes ok: "mem_ok s" and xl: "xlen (get_proc h s) \<in> {32, 64}" and h: "h < length (procs s)"
    and uni: "uniform (get_proc h s)" and co: "coherent h s" and u: "uses_page h s type v p"
  shows "coherent h (with_mmu h (refill_tlb v p type) s)"
proof -
  let ?m = "mmu (get_proc h s)"
  have "\<exists>q. uses_page h s t v' q \<and> tlb_data (refill_tlb v p type ?m) (tlb_index v') + v' = addr_to_mem q"
    if hit: "tlb_hit t (refill_tlb v p type ?m) v'" for t v'
  proof (cases "tlb_index v' = tlb_index v")
    case True
    have pg: "drop_bit 12 v' = drop_bit 12 v" and old: "t = type \<or> tlb_hit t ?m v'" using refill_hit [OF hit] True by simp_all
    obtain q where q: "uses_page h s type v' q" "drop_bit 12 q = drop_bit 12 p" using uses_page_same [OF ok xl u pg] by blast
    have "q - v' = p - v" using page_offset [OF q(2) pg] uses_page_offset [OF ok xl] u q(1) by blast
    then have d: "tlb_data (refill_tlb v p type ?m) (tlb_index v') + v' = addr_to_mem q"
      by (simp add: refill_data True addr_to_mem_def algebra_simps)
    have "uses_page h s t v' q"
    proof (cases "t = type")
      case False
      then obtain q' where q': "uses_page h s t v' q'" using old co by (auto simp: coherent_def)
      moreover have "q' = q" by (rule uses_page_unique [OF ok q' q(1) uniform_mode [OF uni]])
      ultimately show ?thesis by simp
    qed (use q in simp)
    then show ?thesis using d by blast
  next
    case False
    then have "tlb_hit t ?m v'" using refill_hit [OF hit] by simp
    then show ?thesis using co False by (auto simp: coherent_def refill_data)
  qed
  then show ?thesis using h uses_page_view [OF with_mmu_simps(2), of h "refill_tlb v p type" s] by (simp add: coherent_def)
qed

subsection \<open>Loads keep the TLB coherent\<close>

definition tlb_ok :: "nat \<Rightarrow> sim_t \<Rightarrow> bool" where
  "tlb_ok h s \<longleftrightarrow> mem_ok s \<and> xlen (get_proc h s) \<in> {32, 64} \<and> h < length (procs s) \<and> uniform (get_proc h s) \<and> coherent h s"

lemma tlb_ok_view:
  assumes "same_view h s s'" "same_tlb (mmu (get_proc h s)) (mmu (get_proc h s'))" "length (procs s') = length (procs s)"
  shows "tlb_ok h s' = tlb_ok h s"
  using coherent_view [OF assms(1,2)] same_view_mode(1) [OF assms(1)] assms
  by (simp add: tlb_ok_def mem_ok_def uniform_def same_view_def)

lemma tlb_ok_with_mmu:
  assumes "tlb_ok h s" "same_tlb (mmu (get_proc h s)) (f (mmu (get_proc h s)))"
  shows "tlb_ok h (with_mmu h f s)"
  using tlb_ok_view [of h s "with_mmu h f s"] assms by (simp add: tlb_ok_def)

lemma update_mmu_eq: "update_mmu h f s = (Ok (), with_mmu h f s)"
  by (simp add: update_mmu_def modify_def with_mmu_def)

text \<open>After a translation the address of a page in main memory is known.\<close>

lemma translate_tlb_ok:
  assumes "tlb_ok h s"
  shows "tlb_ok h (snd (translate h v type s))"
    "fst (translate h v type s) = Ok p \<Longrightarrow> addr_is_mem p (snd (translate h v type s)) \<Longrightarrow> uses_page h (snd (translate h v type s)) type v p"
proof -
  obtain m where m: "snd (translate h v type s) = s\<lparr>mem := m\<rparr>" using translate_state [of h v type s] by blast
  note vw = translate_view [of h s v type]
  show "tlb_ok h (snd (translate h v type s))"
    using tlb_ok_view [OF vw] assms by (simp add: m same_tlb_def get_proc_def)
  show "uses_page h (snd (translate h v type s)) type v p"
    if "fst (translate h v type s) = Ok p" "addr_is_mem p (snd (translate h v type s))"
    using that uses_page_view [OF vw, of type v p] by (simp add: uses_page_def [of h s] m addr_is_mem_def)
qed

lemma hoare_translate:
  "hoare (tlb_ok h) (translate h v type) (\<lambda>p s. tlb_ok h s \<and> (addr_is_mem p s \<longrightarrow> uses_page h s type v p)) (tlb_ok h)"
  unfolding hoare_def using translate_tlb_ok [of h _ v type]
  by (auto split: prod.splits result.splits) (metis fst_conv snd_conv)+

lemma refill_tlb_ok:
  assumes "tlb_ok h s" "uses_page h s type v p"
  shows "tlb_ok h (with_mmu h (refill_tlb v p type) s)"
  using assms refill_coherent [of s h type v p] same_view_mode(1) [OF with_mmu_simps(2) [of h s "refill_tlb v p type"]]
    with_mmu_simps(2) [of h s "refill_tlb v p type"]
  by (simp add: tlb_ok_def uniform_def mem_ok_def same_view_def)

lemma keeps_check_trigger [hoare_intro]: "keeps_inv (tlb_ok h) (check_trigger h op a d)"
proof -
  have "keeps_inv (tlb_ok h) (trigger_exception h op a d)"
    by (auto simp: keeps_inv_def trigger_exception_def Let_def split: option.splits)
  moreover have "keeps_inv (tlb_ok h) (update_mmu h (\<lambda>m. m\<lparr>matched_trigger := t\<rparr>))" for t
    by (simp add: keeps_inv_def update_mmu_eq tlb_ok_with_mmu same_tlb_def)
  ultimately show ?thesis unfolding check_trigger_def by (intro hoare_intro)
qed

lemma keeps_check_trigger_bytes [hoare_intro]: "keeps_inv (tlb_ok h) (check_trigger_bytes h op a bs)"
  unfolding check_trigger_bytes_def by (intro hoare_intro)

lemma hoare_trace_or_refill:
  "hoare (\<lambda>s. tlb_ok h s \<and> uses_page h s type v p) (trace_or_refill h v p len type) (\<lambda>_. tlb_ok h) (tlb_ok h)"
proof -
  have "tlb_ok h (with_mmu h (\<lambda>m. if interested_in_range p (p + 0x1000) type m then trace p len type m else refill_tlb v p type m) s)"
    if "tlb_ok h s" "uses_page h s type v p" for s
  proof (cases "interested_in_range p (p + 0x1000) type (mmu (get_proc h s))")
    case True
    then show ?thesis using that by (intro tlb_ok_with_mmu) (simp_all add: same_tlb_def trace_def)
  next
    case False
    then have "with_mmu h (\<lambda>m. if interested_in_range p (p + 0x1000) type m then trace p len type m else refill_tlb v p type m) s =
        with_mmu h (refill_tlb v p type) s" by (simp add: with_mmu_def update_proc_def get_proc_def)
    then show ?thesis using refill_tlb_ok [OF that] by simp
  qed
  then show ?thesis unfolding trace_or_refill_def hoare_def update_mmu_eq by auto
qed

lemma keeps_load_slow_path: "keeps_inv (tlb_ok h) (load_slow_path h v len)"
proof -
  have "hoare (\<lambda>s. (tlb_ok h s \<and> (addr_is_mem p s \<longrightarrow> uses_page h s LOAD v p)) \<and> addr_is_mem p s = b)
      (if b then bnd (gets (read_mem (addr_to_mem p) len)) (\<lambda>bytes. bnd (trace_or_refill h v p len LOAD) (\<lambda>_. return bytes))
       else bnd (gets (mmio_load p len)) (\<lambda>r. case r of Some bytes \<Rightarrow> return bytes | None \<Rightarrow> throw (mem_trap 5 v))) (\<lambda>_. tlb_ok h) (tlb_ok h)" for p b
  proof (cases b)
    case True
    have t: "hoare (\<lambda>s. tlb_ok h s \<and> uses_page h s LOAD v p) (bnd (trace_or_refill h v p len LOAD) (\<lambda>_. return bs)) (\<lambda>_. tlb_ok h) (tlb_ok h)" for bs
      by (rule hoare_bnd [OF hoare_trace_or_refill hoare_return])
    show ?thesis unfolding if_P [OF True] by (rule hoare_bnd_gets, rule hoare_conseq [OF t]) (use True in auto)
  next
    case False
    have "keeps_inv (tlb_ok h) (bnd (gets (mmio_load p len)) (\<lambda>r. case r of Some bytes \<Rightarrow> return bytes | None \<Rightarrow> throw (mem_trap 5 v)))"
      by (intro hoare_intro)
    then show ?thesis using False by (auto intro!: hoare_keeps)
  qed
  moreover have "keeps_inv (tlb_ok h) (bnd (check_trigger_bytes h OPERATION_LOAD v bs) (\<lambda>_. return bs))" for bs by (intro hoare_intro)
  ultimately show ?thesis
    unfolding keeps_inv_hoare load_slow_path_def
    by (intro hoare_bnd [OF hoare_translate] hoare_bnd_gets) (rule hoare_bnd)
qed

lemma keeps_load_func: "keeps_inv (tlb_ok h) (load_func sg len h v)"
  unfolding load_func_def Let_def by (intro hoare_intro keeps_load_slow_path)

text \<open>Fetching keeps the TLB coherent too.\<close>

lemma keeps_fetch_slow_path [hoare_intro]: "keeps_inv (tlb_ok h) (fetch_slow_path h v)"
proof -
  have "hoare (\<lambda>s. (tlb_ok h s \<and> (addr_is_mem p s \<longrightarrow> uses_page h s FETCH v p)) \<and> addr_is_mem p s = b)
      (if b then bnd (update_mmu h (refill_tlb v p FETCH)) (\<lambda>_. return (In_mem (addr_to_mem p)))
       else bnd (gets (mmio_load p 2)) (\<lambda>r. case r of
            Some bytes \<Rightarrow> bnd (update_mmu h (\<lambda>m. m\<lparr>fetch_temp := ucast (the (reg_from_bytes 2 bytes))\<rparr>)) (\<lambda>_. return Fetch_temp)
          | None \<Rightarrow> throw (mem_trap 1 v))) (\<lambda>_. tlb_ok h) (tlb_ok h)" for p b
  proof (cases b)
    case True
    have "hoare (\<lambda>s. tlb_ok h s \<and> uses_page h s FETCH v p) (update_mmu h (refill_tlb v p FETCH)) (\<lambda>_. tlb_ok h) (tlb_ok h)"
      by (simp add: hoare_def update_mmu_eq refill_tlb_ok)
    then have t: "hoare (\<lambda>s. tlb_ok h s \<and> uses_page h s FETCH v p) (bnd (update_mmu h (refill_tlb v p FETCH)) (\<lambda>_. return (In_mem (addr_to_mem p))))
        (\<lambda>_. tlb_ok h) (tlb_ok h)" by (rule hoare_bnd) (rule hoare_return)
    show ?thesis unfolding if_P [OF True] by (rule hoare_conseq [OF t]) (use True in auto)
  next
    case False
    have "keeps_inv (tlb_ok h) (update_mmu h (\<lambda>m. m\<lparr>fetch_temp := x\<rparr>))" for x
      by (simp add: keeps_inv_def update_mmu_eq tlb_ok_with_mmu same_tlb_def)
    then have "keeps_inv (tlb_ok h) (bnd (gets (mmio_load p 2)) (\<lambda>r. case r of
            Some bytes \<Rightarrow> bnd (update_mmu h (\<lambda>m. m\<lparr>fetch_temp := ucast (the (reg_from_bytes 2 bytes))\<rparr>)) (\<lambda>_. return Fetch_temp)
          | None \<Rightarrow> throw (mem_trap 1 v)))" by (intro hoare_intro)
    then show ?thesis using False by (auto intro!: hoare_keeps)
  qed
  note body = this
  have "hoare (\<lambda>s. tlb_ok h s \<and> (addr_is_mem p s \<longrightarrow> uses_page h s FETCH v p))
      (if p = - 1 \<and> v \<noteq> - 1 then throw (mem_trap 1 v)
       else bnd (gets (addr_is_mem p)) (\<lambda>is_mem.
         if is_mem then bnd (update_mmu h (refill_tlb v p FETCH)) (\<lambda>_. return (In_mem (addr_to_mem p)))
         else bnd (gets (mmio_load p 2)) (\<lambda>r. case r of
            Some bytes \<Rightarrow> bnd (update_mmu h (\<lambda>m. m\<lparr>fetch_temp := ucast (the (reg_from_bytes 2 bytes))\<rparr>)) (\<lambda>_. return Fetch_temp)
          | None \<Rightarrow> throw (mem_trap 1 v)))) (\<lambda>_. tlb_ok h) (tlb_ok h)" for p
    by (auto intro!: hoare_throw hoare_bnd_gets body)
  then show ?thesis unfolding keeps_inv_hoare fetch_slow_path_def by (rule hoare_bnd [OF hoare_translate])
qed

lemma keeps_translate_insn_addr [hoare_intro]: "keeps_inv (tlb_ok h) (translate_insn_addr h v)"
  unfolding translate_insn_addr_def Let_def by (intro hoare_intro)

lemma keeps_fetch_insn [hoare_intro]: "keeps_inv (tlb_ok h) (fetch_insn h v)"
  unfolding fetch_insn_def fetch_parcel_def Let_def by (intro hoare_intro)

lemma keeps_decode_bits [hoare_intro]: "keeps_inv (tlb_ok h) (decode_bits h insn)"
proof -
  have "tlb_ok h (update_proc h (\<lambda>p. p\<lparr>opcodes := d\<rparr>) s)" if ok: "tlb_ok h s" for s d
  proof -
    let ?s = "update_proc h (\<lambda>p. p\<lparr>opcodes := d\<rparr>) s"
    have "h < length (procs s)" using ok by (simp add: tlb_ok_def)
    then have "same_view h s ?s" "same_tlb (mmu (get_proc h s)) (mmu (get_proc h ?s))" "length (procs ?s) = length (procs s)"
      by (simp_all add: same_view_def same_tlb_def get_proc_def update_proc_def)
    then show ?thesis using ok tlb_ok_view by blast
  qed
  then show ?thesis unfolding decode_bits_def by (intro hoare_intro) (auto split: prod.split intro!: hoare_intro)
qed

lemma keeps_refill_icache [hoare_intro]: "keeps_inv (tlb_ok h) (refill_icache h v slot)"
proof -
  have "same_tlb m (let m = (case slot of Some e \<Rightarrow> m\<lparr>icache_tag := (icache_tag m)(e := v), icache_data := (icache_data m)(e := (func, insn))\<rparr> | None \<Rightarrow> m);
            paddr = mem_to_addr (case ia of In_mem x \<Rightarrow> x | Fetch_temp \<Rightarrow> fetch_temp_at m)
        in if interested_in_range paddr (paddr + 1) FETCH m
           then trace paddr len FETCH (case slot of Some e \<Rightarrow> m\<lparr>icache_tag := (icache_tag m)(e := - 1)\<rparr> | None \<Rightarrow> m)
           else m)" for m insn func len ia
    by (cases slot) (simp_all add: same_tlb_def trace_def Let_def)
  note st = this
  have upd: "keeps_inv (tlb_ok h) (update_mmu h f)" if "\<And>m. same_tlb m (f m)" for f
    using that by (auto simp: keeps_inv_def update_mmu_eq intro!: tlb_ok_with_mmu)
  show ?thesis
    unfolding refill_icache_def case_prod_unfold
    by (intro keeps_inv_bnd keeps_fetch_insn keeps_decode_bits keeps_inv_simps upd st)
qed

lemma keeps_access_icache: "keeps_inv (tlb_ok h) (access_icache h v)"
  unfolding access_icache_def Let_def by (intro hoare_intro)

lemma load_slow_path_bytes:
  assumes "translate h v LOAD s = (Ok p, s1)" "addr_is_mem p s1" "load_slow_path h v len s = (Ok bytes, s')"
  shows "bytes = read_mem (addr_to_mem p) len s1"
  using assms by (auto simp: load_slow_path_def bnd_Ok gets_def return_def)

lemma load_physical:
  assumes ok: "tlb_ok h s" and run: "load_func sg len h v s = (Ok x, s')" and p: "fst (translate h v LOAD s) = Ok p" "addr_is_mem p s"
  shows "x = extend_bytes sg len (read_mem (addr_to_mem p) len s) \<or> x = extend_bytes sg len (read_mem (addr_to_mem p) len (snd (translate h v LOAD s)))"
proof (cases "tlb_hit LOAD (mmu (get_proc h s)) v")
  case True
  then obtain q where "uses_page h s LOAD v q" "tlb_data (mmu (get_proc h s)) (tlb_index v) + v = addr_to_mem q"
    using ok by (auto simp: tlb_ok_def coherent_def)
  then have d: "tlb_data (mmu (get_proc h s)) (tlb_index v) + v = addr_to_mem p" using p by (simp add: uses_page_def)
  have "x = extend_bytes sg len (read_mem (tlb_data (mmu (get_proc h s)) (tlb_index v) + v) len s)"
    using run True
    by (auto simp: load_func_def bnd_Ok gets_def return_def hart_def throw_def Let_def tlb_hit_def tlb_tag_def tlb_index_def split: if_splits)
  then show ?thesis by (simp add: d)
next
  case False
  obtain s1 where t: "translate h v LOAD s = (Ok p, s1)" using p(1) by (cases "translate h v LOAD s") auto
  then have m: "addr_is_mem p s1" using p(2) translate_view [of h s v LOAD] by (simp add: same_view_def addr_is_mem_def)
  obtain bytes s2 where "load_slow_path h v len s = (Ok bytes, s2)" "x = extend_bytes sg len bytes"
    using run False
    by (auto simp: load_func_def bnd_Ok gets_def return_def hart_def throw_def Let_def tlb_hit_def tlb_tag_def tlb_index_def split: if_splits)
  then show ?thesis using load_slow_path_bytes [OF t m] t by simp
qed

subsection \<open>A translation that fetches and loads share\<close>

text \<open>
  In machine mode a fetch is not translated, but with \<^verbatim>\<open>MSTATUS_MPRV\<close> set a load is.  The entry keeps one pointer for both:
  once the page of \<open>v\<close> has been fetched from, a load from that page leaves its own translation to the fetches.
\<close>

definition fetches_at :: "nat \<Rightarrow> u64 \<Rightarrow> u64 \<Rightarrow> sim_t \<Rightarrow> bool" where
  "fetches_at h v ptr s \<longleftrightarrow> h < length (procs s) \<and> prv (state (get_proc h s)) = 3 \<and> xlen (get_proc h s) = 64 \<and>
     tlb_insn_tag (mmu (get_proc h s)) (tlb_index v) = drop_bit 12 v \<and> tlb_data (mmu (get_proc h s)) (tlb_index v) + v = ptr"

lemma fetches_at_check_trigger: "keeps_inv (fetches_at h v ptr) (check_trigger_bytes h op a bs)"
proof -
  have m: "fetches_at h v ptr (with_mmu h (\<lambda>m. m\<lparr>matched_trigger := t\<rparr>) s)" if "fetches_at h v ptr s" for t s
    using that with_mmu_simps(2) [of h s "\<lambda>m. m\<lparr>matched_trigger := t\<rparr>"] by (simp add: fetches_at_def same_view_def)
  have "keeps_inv (fetches_at h v ptr) (trigger_exception h op a d)" for d
    by (auto simp: keeps_inv_def trigger_exception_def Let_def split: option.splits)
  moreover have "keeps_inv (fetches_at h v ptr) (update_mmu h (\<lambda>m. m\<lparr>matched_trigger := t\<rparr>))" for t
    by (simp add: keeps_inv_def update_mmu_eq m)
  ultimately show ?thesis unfolding check_trigger_bytes_def check_trigger_def by (intro hoare_intro)
qed

lemma fetches_at_hit:
  assumes "fetches_at h v ptr s"
  shows "translate h v FETCH s = (Ok v, s)" "translate_insn_addr h v s = (Ok (In_mem ptr), s)"
proof -
  have "access_mode FETCH (get_proc h s) = 3" using assms by (simp add: access_mode_def fetches_at_def Let_def)
  then show "translate h v FETCH s = (Ok v, s)"
    using assms xlen_mask [of 64 v] take_bit_word_eq_self [of 64 v] by (simp add: translate_cases(1) [OF refl] fetches_at_def)
  show "translate_insn_addr h v s = (Ok (In_mem ptr), s)"
    using assms by (simp add: translate_insn_addr_def fetches_at_def bnd_def hart_def gets_def return_def tlb_index_def)
qed

lemma load_leaves_pointer:
  assumes f: "fetches_at h v ptr s" and pg: "drop_bit 12 a = drop_bit 12 v" and miss: "\<not> tlb_hit LOAD (mmu (get_proc h s)) a"
    and tr: "tracer (mmu (get_proc h s)) = []" and t: "translate h a LOAD s = (Ok pa, s1)" "addr_is_mem pa s1"
    and l: "load_func sg len h a s = (Ok x, s2)"
  shows "fetches_at h v (addr_to_mem (v + (pa - a))) s2"
proof -
  obtain m where "snd (translate h a LOAD s) = s\<lparr>mem := m\<rparr>" using translate_state [of h a LOAD s] by blast
  then have s1: "s1 = s\<lparr>mem := m\<rparr>" using t(1) by simp
  let ?s = "with_mmu h (refill_tlb a pa LOAD) s1"
  have i: "tlb_index a = tlb_index v" using pg by (simp add: tlb_index_def)
  have w: "state (get_proc h ?s) = state (get_proc h s)" "xlen (get_proc h ?s) = xlen (get_proc h s)"
    using with_mmu_simps(2) [of h s1 "refill_tlb a pa LOAD"] by (simp_all add: same_view_def s1 get_proc_def)
  have mm: "mmu (get_proc h ?s) = refill_tlb a pa LOAD (mmu (get_proc h s))" "length (procs ?s) = length (procs s)"
    using f by (simp_all add: fetches_at_def s1 get_proc_def [of h "s\<lparr>mem := m\<rparr>"]) (simp add: get_proc_def)
  have tag: "tlb_insn_tag (mmu (get_proc h ?s)) (tlb_index v) = drop_bit 12 v"
    using refill_tag [of FETCH a pa LOAD "mmu (get_proc h s)" "tlb_index v"] f vpn_top(2) [of v] pg i by (simp add: mm(1) tlb_tag_def fetches_at_def)
  have "fetches_at h v (addr_to_mem (v + (pa - a))) ?s"
    using f w tag mm refill_data [of a pa LOAD "mmu (get_proc h s)" "tlb_index v"] i by (simp add: fetches_at_def addr_to_mem_def algebra_simps)
  moreover obtain bytes where b: "load_slow_path h a len s = (Ok bytes, s2)"
    using l miss
    by (auto simp: load_func_def bnd_Ok gets_def return_def hart_def throw_def Let_def tlb_hit_def tlb_tag_def tlb_index_def split: if_splits)
  have r: "trace_or_refill h a pa len LOAD s1 = (Ok (), ?s)"
  proof -
    have "tracer (mmu (get_proc h s1)) = []" using tr by (simp add: s1 get_proc_def)
    then have "with_mmu h (\<lambda>m. if interested_in_range pa (pa + 0x1000) LOAD m then trace pa len LOAD m else refill_tlb a pa LOAD m) s1 = ?s"
      by (simp add: with_mmu_def update_proc_def get_proc_def interested_in_range_def)
    then show ?thesis by (simp add: trace_or_refill_def update_mmu_eq)
  qed
  have "\<exists>bytes. check_trigger_bytes h OPERATION_LOAD a bytes ?s = (Ok (), s2)"
    using b t r by (auto simp: load_slow_path_def bnd_Ok gets_def return_def)
  ultimately show ?thesis using fetches_at_check_trigger [of h v "addr_to_mem (v + (pa - a))" OPERATION_LOAD a]
    unfolding keeps_inv_def by (metis snd_conv)
qed

text \<open>
  An example: machine mode with \<^verbatim>\<open>MSTATUS_MPRV\<close> set, the previous mode being the supervisor.  A fetch at \<open>0x80000000\<close> is not
  translated, but a load there is, to the page \<open>0x80002000\<close>.
\<close>

definition mprv_hart :: processor_t where
  "mprv_hart = \<lparr>state = state_reset\<lparr>mstatus := 0x9020800, sptbr := 0x80001\<rparr>, mmu = \<lparr>tlb_insn_tag = (\<lambda>_. - 1), tlb_load_tag = (\<lambda>_. - 1),
     tlb_store_tag = (\<lambda>_. - 1), tlb_data = (\<lambda>_. 0), icache_tag = (\<lambda>_. - 1), icache_data = (\<lambda>_. ('''', 0)), fetch_temp = 0, fetch_temp_at = 0,
     check_triggers_fetch = False, check_triggers_load = False, check_triggers_store = False, matched_trigger = None, tracer = [], traced = []\<rparr>,
     hart_id = 0, max_xlen = 64, xlen = 64, isa = 0, max_isa = 0, has_ext = False, halt_on_reset = False, proc_debug = False,
     opcodes = build_opcode_map [illegal_desc]\<rparr>"

definition mprv_sim :: sim_t where
  "mprv_sim = \<lparr>mem = (\<lambda>_. 0)(0x1010 := 0x0F, 0x1011 := 0x08, 0x1012 := 0x00, 0x1013 := 0x20), memsz = 0x100000, procs = [mprv_hart], devices = [],
     rtc_regs = [0, 0], boot_rom = [], debug_module = \<lparr>interrupt = (\<lambda>_. False), halt_notification = (\<lambda>_. False), debug_ram = []\<rparr>,
     fpu = softfloat_init, current_step = 0, current_proc = 0\<rparr>"

text \<open>The machine above after its first fetch at \<open>0x80000000\<close>.\<close>

definition fetched_sim :: sim_t where
  "fetched_sim = with_mmu 0 (refill_tlb 0x80000000 0x80000000 FETCH) mprv_sim"

text \<open>The same machine without translation, with an empty TLB.\<close>

definition bare_sim :: sim_t where
  "bare_sim = mprv_sim\<lparr>procs := [mprv_hart\<lparr>state := state_reset\<rparr>]\<rparr>"

lemma bare_tlb_ok: "tlb_ok 0 bare_sim"
proof -
  have "\<not> tlb_hit type (mmu (get_proc 0 bare_sim)) v" for type v
    using tag_invalid [of v] by (cases type) (simp_all add: tlb_hit_def tlb_tag_def get_proc_def bare_sim_def mprv_hart_def)
  then have "coherent 0 bare_sim" by (simp add: coherent_def)
  moreover have "mem_ok bare_sim" "xlen (get_proc 0 bare_sim) \<in> {32, 64}" "uniform (get_proc 0 bare_sim)"
    by (simp_all add: mem_ok_def bare_sim_def mprv_sim_def get_proc_def mprv_hart_def uniform_def access_mode_def state_reset_def get_field_def)
  ultimately show ?thesis by (simp add: tlb_ok_def) (simp add: bare_sim_def)
qed

end
