(* ===== verification/SoftFloat_Fused.thy ===== *)
theory SoftFloat_Fused
  imports SoftFloat_Special
begin

text \<open>
  The fused multiply-add of \<^verbatim>\<open>s_mulAddF32.c\<close> and \<^verbatim>\<open>s_mulAddF64.c\<close> (the variant for fast 64-bit integers) and the square roots
  of \<^verbatim>\<open>f32_sqrt.c\<close> and \<^verbatim>\<open>f64_sqrt.c\<close>.  The labels the C code jumps to at the end of \<^verbatim>\<open>softfloat_mulAddF32\<close> and
  \<^verbatim>\<open>softfloat_mulAddF64\<close> are functions of their own.
\<close>

subsection \<open>Fused multiply-add, 32 bits\<close>

abbreviation (input) softfloat_mulAdd_subC :: u8 where "softfloat_mulAdd_subC \<equiv> 1"
abbreviation (input) softfloat_mulAdd_subProd :: u8 where "softfloat_mulAdd_subProd \<equiv> 2"

definition mulAddF32_invalid :: "u64 \<Rightarrow> softfloat_state \<Rightarrow> u64 \<times> softfloat_state" where
  "mulAddF32_invalid uiC s = softfloat_propagateNaNF32UI defaultNaNF32UI uiC (softfloat_raiseFlags softfloat_flag_invalid s)"

definition mulAddF32_infProdArg :: "u64 \<Rightarrow> bool \<Rightarrow> u64 \<Rightarrow> bool \<Rightarrow> softfloat_state \<Rightarrow> u64 \<times> softfloat_state" where
  "mulAddF32_infProdArg magBits signProd uiC signC s =
     (let uiZ = packToF32UI signProd 0xFF 0
      in if magBits \<noteq> 0
         then if expF32UI uiC \<noteq> 0xFF then (uiZ, s)
              else if fracF32UI uiC \<noteq> 0 then softfloat_propagateNaNF32UI uiZ uiC s
              else if signProd = signC then (uiZ, s) else mulAddF32_invalid uiC s
         else mulAddF32_invalid uiC s)"

definition mulAddF32_propagateNaN_ABC :: "u64 \<Rightarrow> u64 \<Rightarrow> u64 \<Rightarrow> softfloat_state \<Rightarrow> u64 \<times> softfloat_state" where
  "mulAddF32_propagateNaN_ABC uiA uiB uiC s = (case softfloat_propagateNaNF32UI uiA uiB s of (uiZ, s) \<Rightarrow> softfloat_propagateNaNF32UI uiZ uiC s)"

definition mulAddF32_zeroProd :: "bool \<Rightarrow> u64 \<Rightarrow> bool \<Rightarrow> softfloat_state \<Rightarrow> u64 \<times> softfloat_state" where
  "mulAddF32_zeroProd signProd uiC signC s =
     (if word_of_int (expF32UI uiC) OR fracF32UI uiC = 0 \<and> signProd \<noteq> signC
      then (packToF32UI (softfloat_roundingMode s = softfloat_round_min) 0 0, s) else (uiC, s))"

text \<open>The sum of the product and a nonzero \<open>c\<close>, with significands normalized.\<close>

definition mulAddF32_sum :: "bool \<Rightarrow> int \<Rightarrow> u64 \<Rightarrow> bool \<Rightarrow> int \<Rightarrow> u64 \<Rightarrow> softfloat_state \<Rightarrow> u32 \<times> softfloat_state" where
  "mulAddF32_sum signProd expProd sigProd signC expC sigC s =
     (let expDiff = expProd - expC
      in if signProd = signC
         then let (expZ, sigZ) =
                    (if expDiff \<le> 0
                     then (expC, sigC + softfloat_shiftRightJam64 sigProd (word_of_int (32 - expDiff)))
                     else let sig64Z = sigProd + softfloat_shiftRightJam64 (push_bit 32 sigC) (word_of_int expDiff)
                          in (expProd, softfloat_shortShiftRightJam64 sig64Z 32))
              in if sigZ < 0x40000000 then softfloat_roundPackToF32 signProd (expZ - 1) (push_bit 1 sigZ) s
                 else softfloat_roundPackToF32 signProd expZ sigZ s
         else let sig64C = push_bit 32 sigC;
                  finish = (\<lambda>signZ expZ sig64Z.
                    let shiftCount = int (unat (softfloat_countLeadingZeros64 sig64Z)) - 1;
                        expZ = expZ - shiftCount;
                        shiftCount = shiftCount - 32;
                        sigZ = (if shiftCount < 0 then softfloat_shortShiftRightJam64 sig64Z (word_of_int (- shiftCount))
                                else push_bit (nat shiftCount) sig64Z)
                    in softfloat_roundPackToF32 signZ expZ sigZ s)
              in if expDiff < 0 then finish signC expC (sig64C - softfloat_shiftRightJam64 sigProd (word_of_int (- expDiff)))
                 else if expDiff = 0
                 then let sig64Z = sigProd - sig64C
                      in if sig64Z = 0 then (ucast (packToF32UI (softfloat_roundingMode s = softfloat_round_min) 0 0), s)
                         else if sig64Z AND 0x8000000000000000 \<noteq> 0 then finish (\<not> signProd) expProd (- sig64Z)
                         else finish signProd expProd sig64Z
                 else finish signProd expProd (sigProd - softfloat_shiftRightJam64 sig64C (word_of_int expDiff)))"

definition softfloat_mulAddF32 :: "u64 \<Rightarrow> u64 \<Rightarrow> u64 \<Rightarrow> u8 \<Rightarrow> softfloat_state \<Rightarrow> u32 \<times> softfloat_state" where
  "softfloat_mulAddF32 uiA uiB uiC op s =
     (let signA = signF32UI uiA; expA = expF32UI uiA; sigA = fracF32UI uiA;
          signB = signF32UI uiB; expB = expF32UI uiB; sigB = fracF32UI uiB;
          signC = (signF32UI uiC \<noteq> (op = softfloat_mulAdd_subC)); expC = expF32UI uiC; sigC = fracF32UI uiC;
          signProd = ((signA \<noteq> signB) \<noteq> (op = softfloat_mulAdd_subProd));
          zeroProd = apfst ucast (mulAddF32_zeroProd signProd uiC signC s);
          propagateNaN_ABC = apfst ucast (mulAddF32_propagateNaN_ABC uiA uiB uiC s)
      in if expA = 0xFF
         then (if sigA \<noteq> 0 \<or> expB = 0xFF \<and> sigB \<noteq> 0 then propagateNaN_ABC
               else apfst ucast (mulAddF32_infProdArg (word_of_int expB OR sigB) signProd uiC signC s))
         else if expB = 0xFF
         then (if sigB \<noteq> 0 then propagateNaN_ABC
               else apfst ucast (mulAddF32_infProdArg (word_of_int expA OR sigA) signProd uiC signC s))
         else if expC = 0xFF
         then (if sigC \<noteq> 0 then apfst ucast (softfloat_propagateNaNF32UI 0 uiC s) else (ucast uiC, s))
         else if expA = 0 \<and> sigA = 0 then zeroProd
         else let normA = softfloat_normSubnormalF32Sig sigA;
                  (expA, sigA) = (if expA = 0 then (es32_exp normA, es32_sig normA) else (expA, sigA))
              in if expB = 0 \<and> sigB = 0 then zeroProd
         else let normB = softfloat_normSubnormalF32Sig sigB;
                  (expB, sigB) = (if expB = 0 then (es32_exp normB, es32_sig normB) else (expB, sigB));
                  expProd = expA + expB - 0x7E;
                  sigA = push_bit 7 (sigA OR 0x00800000);
                  sigB = push_bit 7 (sigB OR 0x00800000);
                  sigProd = sigA * sigB;
                  (expProd, sigProd) = (if sigProd < 0x2000000000000000 then (expProd - 1, push_bit 1 sigProd) else (expProd, sigProd))
              in if expC = 0 \<and> sigC = 0
                 then softfloat_roundPackToF32 signProd (expProd - 1) (softfloat_shortShiftRightJam64 sigProd 31) s
                 else let normC = softfloat_normSubnormalF32Sig sigC;
                          (expC, sigC) = (if expC = 0 then (es32_exp normC, es32_sig normC) else (expC, sigC));
                          sigC = push_bit 6 (sigC OR 0x00800000)
                      in mulAddF32_sum signProd expProd sigProd signC expC sigC s)"

definition f32_mulAdd :: "u32 \<Rightarrow> u32 \<Rightarrow> u32 \<Rightarrow> softfloat_state \<Rightarrow> u32 \<times> softfloat_state" where
  "f32_mulAdd a b c s = softfloat_mulAddF32 (ucast a) (ucast b) (ucast c) 0 s"

subsection \<open>Fused multiply-add, 64 bits\<close>

definition mulAddF64_invalid :: "u64 \<Rightarrow> softfloat_state \<Rightarrow> u64 \<times> softfloat_state" where
  "mulAddF64_invalid uiC s = softfloat_propagateNaNF64UI defaultNaNF64UI uiC (softfloat_raiseFlags softfloat_flag_invalid s)"

definition mulAddF64_infProdArg :: "u64 \<Rightarrow> bool \<Rightarrow> u64 \<Rightarrow> bool \<Rightarrow> softfloat_state \<Rightarrow> u64 \<times> softfloat_state" where
  "mulAddF64_infProdArg magBits signZ uiC signC s =
     (let uiZ = packToF64UI signZ 0x7FF 0
      in if magBits \<noteq> 0
         then if expF64UI uiC \<noteq> 0x7FF then (uiZ, s)
              else if fracF64UI uiC \<noteq> 0 then softfloat_propagateNaNF64UI uiZ uiC s
              else if signZ = signC then (uiZ, s) else mulAddF64_invalid uiC s
         else mulAddF64_invalid uiC s)"

definition mulAddF64_propagateNaN_ABC :: "u64 \<Rightarrow> u64 \<Rightarrow> u64 \<Rightarrow> softfloat_state \<Rightarrow> u64 \<times> softfloat_state" where
  "mulAddF64_propagateNaN_ABC uiA uiB uiC s = (case softfloat_propagateNaNF64UI uiA uiB s of (uiZ, s) \<Rightarrow> softfloat_propagateNaNF64UI uiZ uiC s)"

definition mulAddF64_zeroProd :: "bool \<Rightarrow> u64 \<Rightarrow> bool \<Rightarrow> softfloat_state \<Rightarrow> u64 \<times> softfloat_state" where
  "mulAddF64_zeroProd signZ uiC signC s =
     (if word_of_int (expF64UI uiC) OR fracF64UI uiC = 0 \<and> signZ \<noteq> signC
      then (packToF64UI (softfloat_roundingMode s = softfloat_round_min) 0 0, s) else (uiC, s))"

definition mulAddF64_sum :: "bool \<Rightarrow> int \<Rightarrow> uint128 \<Rightarrow> bool \<Rightarrow> int \<Rightarrow> u64 \<Rightarrow> softfloat_state \<Rightarrow> u64 \<times> softfloat_state" where
  "mulAddF64_sum signZ expZ sig128Z signC expC sigC s =
     (let expDiff = expZ - expC;
          expZ = (if expDiff < 0 then expC else expZ);
          sig128Z = (if expDiff < 0
                     then if signZ = signC \<or> expDiff < - 1
                          then sig128Z\<lparr>u128_v64 := softfloat_shiftRightJam64 (u128_v64 sig128Z) (word_of_int (- expDiff))\<rparr>
                          else softfloat_shortShiftRightJam128 (u128_v64 sig128Z) (u128_v0 sig128Z) 1
                     else sig128Z);
          sig128C = softfloat_shiftRightJam128 sigC 0 (word_of_int expDiff)
      in if signZ = signC
         then let sigZ = (if expDiff \<le> 0 then (sigC + u128_v64 sig128Z) OR of_bool (u128_v0 sig128Z \<noteq> 0)
                          else let z = softfloat_add128 (u128_v64 sig128Z) (u128_v0 sig128Z) (u128_v64 sig128C) (u128_v0 sig128C)
                               in u128_v64 z OR of_bool (u128_v0 z \<noteq> 0))
              in if sigZ < 0x4000000000000000 then softfloat_roundPackToF64 signZ (expZ - 1) (push_bit 1 sigZ) s
                 else softfloat_roundPackToF64 signZ expZ sigZ s
         else let finish = (\<lambda>signZ expZ z.
                    let (expZ, z) = (if u128_v64 z = 0 then (expZ - 64, \<lparr>u128_v0 = 0, u128_v64 = u128_v0 z\<rparr>) else (expZ, z));
                        shiftCount = int (unat (softfloat_countLeadingZeros64 (u128_v64 z))) - 1;
                        expZ = expZ - shiftCount;
                        (sigZ, z) = (if shiftCount < 0 then (softfloat_shortShiftRightJam64 (u128_v64 z) (word_of_int (- shiftCount)), z)
                                     else let z = softfloat_shortShiftLeft128 (u128_v64 z) (u128_v0 z) (word_of_int shiftCount) in (u128_v64 z, z))
                    in softfloat_roundPackToF64 signZ expZ (sigZ OR of_bool (u128_v0 z \<noteq> 0)) s)
              in if expDiff < 0 then finish signC expZ (softfloat_sub128 sigC 0 (u128_v64 sig128Z) (u128_v0 sig128Z))
                 else if expDiff = 0
                 then let hi = u128_v64 sig128Z - sigC; lo = u128_v0 sig128Z
                      in if hi OR lo = 0 then (packToF64UI (softfloat_roundingMode s = softfloat_round_min) 0 0, s)
                         else if hi AND 0x8000000000000000 \<noteq> 0 then finish (\<not> signZ) expZ (softfloat_sub128 0 0 hi lo)
                         else finish signZ expZ \<lparr>u128_v0 = lo, u128_v64 = hi\<rparr>
                 else finish signZ expZ (softfloat_sub128 (u128_v64 sig128Z) (u128_v0 sig128Z) (u128_v64 sig128C) (u128_v0 sig128C)))"

definition softfloat_mulAddF64 :: "u64 \<Rightarrow> u64 \<Rightarrow> u64 \<Rightarrow> u8 \<Rightarrow> softfloat_state \<Rightarrow> u64 \<times> softfloat_state" where
  "softfloat_mulAddF64 uiA uiB uiC op s =
     (let signA = signF64UI uiA; expA = expF64UI uiA; sigA = fracF64UI uiA;
          signB = signF64UI uiB; expB = expF64UI uiB; sigB = fracF64UI uiB;
          signC = (signF64UI uiC \<noteq> (op = softfloat_mulAdd_subC)); expC = expF64UI uiC; sigC = fracF64UI uiC;
          signZ = ((signA \<noteq> signB) \<noteq> (op = softfloat_mulAdd_subProd));
          zeroProd = mulAddF64_zeroProd signZ uiC signC s;
          propagateNaN_ABC = mulAddF64_propagateNaN_ABC uiA uiB uiC s
      in if expA = 0x7FF
         then (if sigA \<noteq> 0 \<or> expB = 0x7FF \<and> sigB \<noteq> 0 then propagateNaN_ABC
               else mulAddF64_infProdArg (word_of_int expB OR sigB) signZ uiC signC s)
         else if expB = 0x7FF
         then (if sigB \<noteq> 0 then propagateNaN_ABC
               else mulAddF64_infProdArg (word_of_int expA OR sigA) signZ uiC signC s)
         else if expC = 0x7FF
         then (if sigC \<noteq> 0 then softfloat_propagateNaNF64UI 0 uiC s else (uiC, s))
         else if expA = 0 \<and> sigA = 0 then zeroProd
         else let normA = softfloat_normSubnormalF64Sig sigA;
                  (expA, sigA) = (if expA = 0 then (es64_exp normA, es64_sig normA) else (expA, sigA))
              in if expB = 0 \<and> sigB = 0 then zeroProd
         else let normB = softfloat_normSubnormalF64Sig sigB;
                  (expB, sigB) = (if expB = 0 then (es64_exp normB, es64_sig normB) else (expB, sigB));
                  expZ = expA + expB - 0x3FE;
                  sigA = push_bit 10 (sigA OR 0x0010000000000000);
                  sigB = push_bit 10 (sigB OR 0x0010000000000000);
                  sig128Z = softfloat_mul64To128 sigA sigB;
                  (expZ, sig128Z) = (if u128_v64 sig128Z < 0x2000000000000000
                     then (expZ - 1, softfloat_add128 (u128_v64 sig128Z) (u128_v0 sig128Z) (u128_v64 sig128Z) (u128_v0 sig128Z)) else (expZ, sig128Z))
              in if expC = 0 \<and> sigC = 0
                 then softfloat_roundPackToF64 signZ (expZ - 1) (push_bit 1 (u128_v64 sig128Z) OR of_bool (u128_v0 sig128Z \<noteq> 0)) s
                 else let normC = softfloat_normSubnormalF64Sig sigC;
                          (expC, sigC) = (if expC = 0 then (es64_exp normC, es64_sig normC) else (expC, sigC));
                          sigC = push_bit 9 (sigC OR 0x0010000000000000)
                      in mulAddF64_sum signZ expZ sig128Z signC expC sigC s)"

definition f64_mulAdd :: "u64 \<Rightarrow> u64 \<Rightarrow> u64 \<Rightarrow> softfloat_state \<Rightarrow> u64 \<times> softfloat_state" where
  "f64_mulAdd a b c s = softfloat_mulAddF64 a b c 0 s"

subsection \<open>Square root\<close>

definition f32_sqrt :: "u32 \<Rightarrow> softfloat_state \<Rightarrow> u32 \<times> softfloat_state" where
  "f32_sqrt a s =
     (let uiA = ucast a; signA = signF32UI uiA; expA = expF32UI uiA; sigA = fracF32UI uiA;
          invalid = (ucast defaultNaNF32UI, softfloat_raiseFlags softfloat_flag_invalid s)
      in if expA = 0xFF
         then (if sigA \<noteq> 0 then apfst ucast (softfloat_propagateNaNF32UI uiA 0 s)
               else if \<not> signA then (a, s) else invalid)
         else if signA then (if word_of_int expA OR sigA = 0 then (a, s) else invalid)
         else if expA = 0 \<and> sigA = 0 then (a, s)
         else let norm = softfloat_normSubnormalF32Sig sigA;
                  (expA, sigA) = (if expA = 0 then (es32_exp norm, es32_sig norm) else (expA, sigA));
                  expZ = (expA - 0x7F) div 2 + 0x7E;
                  odd = expA mod 2;
                  sigA = push_bit 8 (sigA OR 0x00800000);
                  sigZ = drop_bit 32 (sigA * ucast (softfloat_approxRecipSqrt32_1 (word_of_int odd) (ucast sigA)));
                  sigZ = (if odd \<noteq> 0 then drop_bit 1 sigZ else sigZ) + 2;
                  sigZ = (if sigZ AND 0x3F < 2
                          then let shiftedSigZ = drop_bit 2 sigZ;
                                   negRem = ucast (shiftedSigZ * shiftedSigZ) :: u32;
                                   sigZ = push_bit 2 shiftedSigZ
                               in if negRem AND 0x80000000 \<noteq> 0 then sigZ OR 1
                                  else if negRem \<noteq> 0 then sigZ - 1 else sigZ
                          else sigZ)
              in softfloat_roundPackToF32 False expZ sigZ s)"

definition f64_sqrt :: "u64 \<Rightarrow> softfloat_state \<Rightarrow> u64 \<times> softfloat_state" where
  "f64_sqrt a s =
     (let uiA = a; signA = signF64UI uiA; expA = expF64UI uiA; sigA = fracF64UI uiA;
          invalid = (defaultNaNF64UI, softfloat_raiseFlags softfloat_flag_invalid s)
      in if expA = 0x7FF
         then (if sigA \<noteq> 0 then softfloat_propagateNaNF64UI uiA 0 s
               else if \<not> signA then (a, s) else invalid)
         else if signA then (if word_of_int expA OR sigA = 0 then (a, s) else invalid)
         else if expA = 0 \<and> sigA = 0 then (a, s)
         else let norm = softfloat_normSubnormalF64Sig sigA;
                  (expA, sigA) = (if expA = 0 then (es64_exp norm, es64_sig norm) else (expA, sigA));
                  expZ = (expA - 0x3FF) div 2 + 0x3FE;
                  odd = expA mod 2;
                  sigA = sigA OR 0x0010000000000000;
                  sig32A = ucast (drop_bit 21 sigA) :: u32;
                  recipSqrt32 = softfloat_approxRecipSqrt32_1 (word_of_int odd) sig32A;
                  sig32Z = ucast (drop_bit 32 (ucast sig32A * ucast recipSqrt32 :: u64)) :: u32;
                  (sigA, sig32Z) = (if odd \<noteq> 0 then (push_bit 8 sigA, drop_bit 1 sig32Z) else (push_bit 9 sigA, sig32Z));
                  r = sigA - ucast sig32Z * ucast sig32Z;
                  q = ucast (drop_bit 32 (ucast (ucast (drop_bit 2 r) :: u32) * ucast recipSqrt32 :: u64)) :: u32;
                  sigZ = (push_bit 32 (ucast sig32Z) OR push_bit 5 1) + push_bit 3 (ucast q);
                  sigZ = (if sigZ AND 0x1FF < push_bit 5 1
                          then let sigZ = sigZ AND NOT 0x3F;
                                   shiftedSigZ = drop_bit 6 sigZ;
                                   r = push_bit 52 sigA - shiftedSigZ * shiftedSigZ
                               in if r AND 0x8000000000000000 \<noteq> 0 then sigZ - 1 else if r \<noteq> 0 then sigZ OR 1 else sigZ
                          else sigZ)
              in softfloat_roundPackToF64 False expZ sigZ s)"

subsection \<open>Only flags are written\<close>

lemma flags_mulAdd_cases [flags_intro]:
  "flags_raised s (snd (mulAddF32_invalid uiC s))" "flags_raised s (snd (mulAddF64_invalid uiC s))"
  "flags_raised s (snd (mulAddF32_propagateNaN_ABC uiA uiB uiC s))" "flags_raised s (snd (mulAddF64_propagateNaN_ABC uiA uiB uiC s))"
  by (simp_all add: mulAddF32_invalid_def mulAddF64_invalid_def mulAddF32_propagateNaN_ABC_def mulAddF64_propagateNaN_ABC_def
      softfloat_propagateNaNF32UI_def softfloat_propagateNaNF64UI_def flags_intro)

lemma flags_mulAdd_more [flags_intro]:
  "flags_raised s (snd (mulAddF32_infProdArg m sg uiC signC s))" "flags_raised s (snd (mulAddF64_infProdArg m sg uiC signC s))"
  "flags_raised s (snd (mulAddF32_zeroProd sg uiC signC s))" "flags_raised s (snd (mulAddF64_zeroProd sg uiC signC s))"
  by (simp_all add: mulAddF32_infProdArg_def mulAddF64_infProdArg_def mulAddF32_zeroProd_def mulAddF64_zeroProd_def Let_def flags_intro)

lemma flags_mulAdd_sum [flags_intro]:
  "flags_raised s (snd (mulAddF32_sum sg e g sgC eC gC s))" "flags_raised s (snd (mulAddF64_sum sg e g' sgC eC gC s))"
  by (simp_all add: mulAddF32_sum_def mulAddF64_sum_def Let_def flags_intro split: prod.split)

lemma flags_fused [flags_intro]:
  "flags_raised s (snd (f32_mulAdd a b c s))" "flags_raised s (snd (f64_mulAdd d e f s))"
  "flags_raised s (snd (f32_sqrt a s))" "flags_raised s (snd (f64_sqrt d s))"
  by (simp_all add: f32_mulAdd_def f64_mulAdd_def softfloat_mulAddF32_def softfloat_mulAddF64_def f32_sqrt_def f64_sqrt_def Let_def
     flags_intro split: prod.split)

end
