(* ===== verification/Riscv_Insns.thy ===== *)
theory Riscv_Insns
  imports Riscv_Mmu SoftFloat_Fused "HOL-Library.Signed_Division"
begin

text \<open>
  The instruction bodies of \<^verbatim>\<open>riscv/insns/\<close>, one definition per file, in the frame of \<^verbatim>\<open>insn_template.cc\<close>: an instruction
  is a function of the hart \<open>h\<close>, the width \<open>xl\<close> it was compiled for, the address \<open>pc\<close> and the instruction word \<open>b\<close>; it
  returns the address of the next instruction.  The macros of \<^verbatim>\<open>decode.h\<close> are the combinators below.
\<close>

type_synonym insn = "nat \<Rightarrow> nat \<Rightarrow> u64 \<Rightarrow> u64 \<Rightarrow> u64 exec"

subsection \<open>The macros\<close>

abbreviation (input) X_RA :: u64 where "X_RA \<equiv> 1"
abbreviation (input) X_SP :: u64 where "X_SP \<equiv> 2"
abbreviation (input) INT64_MIN :: u64 where "INT64_MIN \<equiv> 0x8000000000000000"

definition npc_of :: "u64 \<Rightarrow> nat \<Rightarrow> u64 \<Rightarrow> u64" where
  "npc_of len xl pc = sext_xlen xl (pc + len)"

definition require :: "bool \<Rightarrow> 'a exec \<Rightarrow> 'a exec" where
  "require x m = (if x then m else throw trap_illegal_instruction)"

definition require_extension :: "nat \<Rightarrow> char \<Rightarrow> 'a exec \<Rightarrow> 'a exec" where
  "require_extension h c m = bnd (hart h) (\<lambda>p. require (supports_extension c p) m)"

definition require_fp :: "nat \<Rightarrow> 'a exec \<Rightarrow> 'a exec" where
  "require_fp h m = bnd (hart h) (\<lambda>p. require (mstatus (state p) AND MSTATUS_FS \<noteq> 0) m)"

definition write_rd :: "nat \<Rightarrow> u64 \<Rightarrow> u64 \<Rightarrow> unit exec" where
  "write_rd h r v = modify (update_proc h (write_reg r v))"

definition read_freg :: "u64 \<Rightarrow> processor_t \<Rightarrow> u64" where
  "read_freg r p = FPR (state p) ! unat r"

definition set_pc :: "nat \<Rightarrow> nat \<Rightarrow> u64 \<Rightarrow> u64 exec" where
  "set_pc h xl x = bnd (hart h) (\<lambda>p.
     if x AND 2 \<noteq> 0 \<and> \<not> supports_extension CHR ''C'' p then throw (trap_instruction_address_misaligned x) else return (sext_xlen xl x))"

text \<open>Common shapes: write a register, load into one, store, an atomic operation, a branch.\<close>

definition write_value :: "nat \<Rightarrow> u64 \<Rightarrow> (processor_t \<Rightarrow> u64) \<Rightarrow> u64 \<Rightarrow> u64 exec" where
  "write_value h r f npc = bnd (hart h) (\<lambda>p. bnd (write_rd h r (f p)) (\<lambda>_. return npc))"

definition load_value :: "nat \<Rightarrow> u64 \<Rightarrow> bool \<Rightarrow> nat \<Rightarrow> (processor_t \<Rightarrow> u64) \<Rightarrow> u64 \<Rightarrow> u64 exec" where
  "load_value h r signed' len addr npc =
     bnd (hart h) (\<lambda>p. bnd (load_func signed' len h (addr p)) (\<lambda>v. bnd (write_rd h r v) (\<lambda>_. return npc)))"

definition store_value :: "nat \<Rightarrow> nat \<Rightarrow> (processor_t \<Rightarrow> u64) \<Rightarrow> (processor_t \<Rightarrow> u64) \<Rightarrow> u64 \<Rightarrow> u64 exec" where
  "store_value h len addr val npc = bnd (hart h) (\<lambda>p. bnd (store_func len h (addr p) (val p)) (\<lambda>_. return npc))"

definition amo_value :: "nat \<Rightarrow> u64 \<Rightarrow> nat \<Rightarrow> (u64 \<Rightarrow> u64) \<Rightarrow> (processor_t \<Rightarrow> u64) \<Rightarrow> (processor_t \<Rightarrow> u64 \<Rightarrow> u64) \<Rightarrow> u64 \<Rightarrow> u64 exec" where
  "amo_value h r len ext addr f npc =
     bnd (hart h) (\<lambda>p. bnd (amo_func len h (addr p) (f p)) (\<lambda>v. bnd (write_rd h r (ext v)) (\<lambda>_. return npc)))"

definition branch :: "nat \<Rightarrow> nat \<Rightarrow> (processor_t \<Rightarrow> bool) \<Rightarrow> u64 \<Rightarrow> u64 \<Rightarrow> u64 exec" where
  "branch h xl c target npc = bnd (hart h) (\<lambda>p. if c p then set_pc h xl target else return npc)"

definition reserve :: "nat \<Rightarrow> u64 \<Rightarrow> unit exec" where
  "reserve h addr = modify (update_proc h (update_state (\<lambda>s. s\<lparr>load_reservation := addr\<rparr>)))"

text \<open>Division of C on signed 64-bit integers.\<close>

definition c_div :: "u64 \<Rightarrow> u64 \<Rightarrow> u64" where
  "c_div a b = word_of_int (sint a sdiv sint b)"

definition c_mod :: "u64 \<Rightarrow> u64 \<Rightarrow> u64" where
  "c_mod a b = word_of_int (sint a smod sint b)"

text \<open>The floating-point macros: the rounding mode, a call of SoftFloat, the write of a register and the exceptions.\<close>

definition dirty_fp :: "nat \<Rightarrow> state_t \<Rightarrow> state_t" where
  "dirty_fp xl s = s\<lparr>mstatus := mstatus s OR (MSTATUS_FS OR (if xl = 64 then MSTATUS64_SD else MSTATUS32_SD))\<rparr>"

definition write_frd :: "nat \<Rightarrow> nat \<Rightarrow> u64 \<Rightarrow> u64 \<Rightarrow> unit exec" where
  "write_frd h xl r v = modify (update_proc h (update_state (\<lambda>s. dirty_fp xl (s\<lparr>FPR := regfile_write False r v (FPR s)\<rparr>))))"

definition set_fp_exceptions :: "nat \<Rightarrow> nat \<Rightarrow> unit exec" where
  "set_fp_exceptions h xl = modify (\<lambda>s.
     let flags = softfloat_exceptionFlags (fpu s);
         s = (if flags \<noteq> 0 then update_proc h (update_state (\<lambda>t. let t = dirty_fp xl t in t\<lparr>fflags := fflags t OR ucast flags\<rparr>)) s else s)
     in s\<lparr>fpu := (fpu s)\<lparr>softfloat_exceptionFlags := 0\<rparr>\<rparr>)"

definition RM :: "nat \<Rightarrow> u64 \<Rightarrow> u8 exec" where
  "RM h b = bnd (hart h) (\<lambda>p.
     let rm = (if insn_rm b = 7 then ucast (frm (state p)) else insn_rm b)
     in if 4 < rm then throw trap_illegal_instruction else return (ucast rm))"

definition call_fpu :: "(softfloat_state \<Rightarrow> 'a \<times> softfloat_state) \<Rightarrow> 'a exec" where
  "call_fpu f s = (Ok (fst (f (fpu s))), s\<lparr>fpu := snd (f (fpu s))\<rparr>)"

definition set_rm :: "u8 \<Rightarrow> unit exec" where
  "set_rm rm = modify (\<lambda>s. s\<lparr>fpu := (fpu s)\<lparr>softfloat_roundingMode := rm\<rparr>\<rparr>)"

definition write_fvalue :: "nat \<Rightarrow> nat \<Rightarrow> u64 \<Rightarrow> (processor_t \<Rightarrow> u64) \<Rightarrow> u64 \<Rightarrow> u64 exec" where
  "write_fvalue h xl r f npc = bnd (hart h) (\<lambda>p. bnd (write_frd h xl r (f p)) (\<lambda>_. return npc))"

definition fload_value :: "nat \<Rightarrow> nat \<Rightarrow> u64 \<Rightarrow> bool \<Rightarrow> nat \<Rightarrow> (processor_t \<Rightarrow> u64) \<Rightarrow> u64 \<Rightarrow> u64 exec" where
  "fload_value h xl r signed' len addr npc =
     bnd (hart h) (\<lambda>p. bnd (load_func signed' len h (addr p)) (\<lambda>v. bnd (write_frd h xl r v) (\<lambda>_. return npc)))"

text \<open>
  An operation that rounds and writes a floating-point or an integer register, a comparison, and a minimum or maximum.
\<close>

definition fp_frd :: "nat \<Rightarrow> nat \<Rightarrow> u64 \<Rightarrow> (processor_t \<Rightarrow> u8 \<Rightarrow> softfloat_state \<Rightarrow> u64 \<times> softfloat_state) \<Rightarrow> u64 \<Rightarrow> u64 exec" where
  "fp_frd h xl b f npc =
     bnd (RM h b) (\<lambda>rm. bnd (set_rm rm) (\<lambda>_. bnd (hart h) (\<lambda>p. bnd (call_fpu (f p rm)) (\<lambda>v.
     bnd (write_frd h xl (rd b) v) (\<lambda>_. bnd (set_fp_exceptions h xl) (\<lambda>_. return npc))))))"

definition fp_rd :: "nat \<Rightarrow> nat \<Rightarrow> u64 \<Rightarrow> (processor_t \<Rightarrow> u8 \<Rightarrow> softfloat_state \<Rightarrow> u64 \<times> softfloat_state) \<Rightarrow> u64 \<Rightarrow> u64 exec" where
  "fp_rd h xl b f npc =
     bnd (RM h b) (\<lambda>rm. bnd (set_rm rm) (\<lambda>_. bnd (hart h) (\<lambda>p. bnd (call_fpu (f p rm)) (\<lambda>v.
     bnd (write_rd h (rd b) v) (\<lambda>_. bnd (set_fp_exceptions h xl) (\<lambda>_. return npc))))))"

definition fp_compare :: "nat \<Rightarrow> nat \<Rightarrow> u64 \<Rightarrow> (processor_t \<Rightarrow> softfloat_state \<Rightarrow> bool \<times> softfloat_state) \<Rightarrow> u64 \<Rightarrow> u64 exec" where
  "fp_compare h xl b f npc =
     bnd (hart h) (\<lambda>p. bnd (call_fpu (f p)) (\<lambda>c.
     bnd (write_rd h (rd b) (of_bool c)) (\<lambda>_. bnd (set_fp_exceptions h xl) (\<lambda>_. return npc))))"

definition fp_select :: "nat \<Rightarrow> nat \<Rightarrow> u64 \<Rightarrow> (processor_t \<Rightarrow> softfloat_state \<Rightarrow> u64 \<times> softfloat_state) \<Rightarrow> u64 \<Rightarrow> u64 exec" where
  "fp_select h xl b f npc =
     bnd (hart h) (\<lambda>p. bnd (call_fpu (f p)) (\<lambda>v.
     bnd (write_frd h xl (rd b) v) (\<lambda>_. bnd (set_fp_exceptions h xl) (\<lambda>_. return npc))))"

text \<open>The privileged and CSR instructions work on the hart alone.\<close>

definition lift_hart :: "nat \<Rightarrow> (processor_t \<Rightarrow> outcome) \<Rightarrow> u64 exec" where
  "lift_hart h k s =
     (case k (get_proc h s) of Done npc p \<Rightarrow> (Ok npc, update_proc h (\<lambda>_. p) s) | Raise t p \<Rightarrow> (Throw t, update_proc h (\<lambda>_. p) s)
      | Abort \<Rightarrow> (Undefined, s))"

definition lift_csr :: "nat \<Rightarrow> (bool \<Rightarrow> processor_t \<Rightarrow> outcome) \<Rightarrow> u64 exec" where
  "lift_csr h k s = lift_hart h (k (get_interrupt (hart_id (get_proc h s)) (debug_module s))) s"

subsection \<open>Integer instructions\<close>

definition insn_add :: insn where
  "insn_add h xl pc b =
     write_value h (rd b) (\<lambda>p. sext_xlen xl (read_reg (rs1 b) p + read_reg (rs2 b) p)) (npc_of 4 xl pc)"

definition insn_addi :: insn where
  "insn_addi h xl pc b =
     write_value h (rd b) (\<lambda>p. sext_xlen xl (read_reg (rs1 b) p + i_imm b)) (npc_of 4 xl pc)"

definition insn_addiw :: insn where
  "insn_addiw h xl pc b =
     require (xl = 64) (write_value h (rd b) (\<lambda>p. sext32 (i_imm b + read_reg (rs1 b) p)) (npc_of 4 xl pc))"

definition insn_addw :: insn where
  "insn_addw h xl pc b =
     require (xl = 64) (write_value h (rd b) (\<lambda>p. sext32 (read_reg (rs1 b) p + read_reg (rs2 b) p)) (npc_of 4 xl pc))"

definition insn_and :: insn where
  "insn_and h xl pc b =
     write_value h (rd b) (\<lambda>p. read_reg (rs1 b) p AND read_reg (rs2 b) p) (npc_of 4 xl pc)"

definition insn_andi :: insn where
  "insn_andi h xl pc b =
     write_value h (rd b) (\<lambda>p. i_imm b AND read_reg (rs1 b) p) (npc_of 4 xl pc)"

definition insn_auipc :: insn where
  "insn_auipc h xl pc b =
     write_value h (rd b) (\<lambda>p. sext_xlen xl (u_imm b + pc)) (npc_of 4 xl pc)"

definition insn_beq :: insn where
  "insn_beq h xl pc b =
     branch h xl (\<lambda>p. read_reg (rs1 b) p = read_reg (rs2 b) p) (pc + sb_imm b) (npc_of 4 xl pc)"

definition insn_bge :: insn where
  "insn_bge h xl pc b =
     branch h xl (\<lambda>p. read_reg (rs2 b) p \<le>s read_reg (rs1 b) p) (pc + sb_imm b) (npc_of 4 xl pc)"

definition insn_bgeu :: insn where
  "insn_bgeu h xl pc b =
     branch h xl (\<lambda>p. read_reg (rs2 b) p \<le> read_reg (rs1 b) p) (pc + sb_imm b) (npc_of 4 xl pc)"

definition insn_blt :: insn where
  "insn_blt h xl pc b =
     branch h xl (\<lambda>p. read_reg (rs1 b) p <s read_reg (rs2 b) p) (pc + sb_imm b) (npc_of 4 xl pc)"

definition insn_bltu :: insn where
  "insn_bltu h xl pc b =
     branch h xl (\<lambda>p. read_reg (rs1 b) p < read_reg (rs2 b) p) (pc + sb_imm b) (npc_of 4 xl pc)"

definition insn_bne :: insn where
  "insn_bne h xl pc b =
     branch h xl (\<lambda>p. read_reg (rs1 b) p \<noteq> read_reg (rs2 b) p) (pc + sb_imm b) (npc_of 4 xl pc)"

definition insn_jal :: insn where
  "insn_jal h xl pc b =
     bnd (set_pc h xl (pc + uj_imm b)) (\<lambda>npc. bnd (write_rd h (rd b) (npc_of 4 xl pc)) (\<lambda>_. return npc))"

definition insn_jalr :: insn where
  "insn_jalr h xl pc b =
     bnd (hart h) (\<lambda>p. bnd (set_pc h xl ((read_reg (rs1 b) p + i_imm b) AND NOT 1)) (\<lambda>npc. bnd (write_rd h (rd
       b) (npc_of 4 xl pc)) (\<lambda>_. return npc)))"

definition insn_lb :: insn where
  "insn_lb h xl pc b =
     load_value h (rd b) True 1 (\<lambda>p. read_reg (rs1 b) p + i_imm b) (npc_of 4 xl pc)"

definition insn_lbu :: insn where
  "insn_lbu h xl pc b =
     load_value h (rd b) False 1 (\<lambda>p. read_reg (rs1 b) p + i_imm b) (npc_of 4 xl pc)"

definition insn_ld :: insn where
  "insn_ld h xl pc b =
     require (xl = 64) (load_value h (rd b) True 8 (\<lambda>p. read_reg (rs1 b) p + i_imm b) (npc_of 4 xl pc))"

definition insn_lh :: insn where
  "insn_lh h xl pc b =
     load_value h (rd b) True 2 (\<lambda>p. read_reg (rs1 b) p + i_imm b) (npc_of 4 xl pc)"

definition insn_lhu :: insn where
  "insn_lhu h xl pc b =
     load_value h (rd b) False 2 (\<lambda>p. read_reg (rs1 b) p + i_imm b) (npc_of 4 xl pc)"

definition insn_lw :: insn where
  "insn_lw h xl pc b =
     load_value h (rd b) True 4 (\<lambda>p. read_reg (rs1 b) p + i_imm b) (npc_of 4 xl pc)"

definition insn_lwu :: insn where
  "insn_lwu h xl pc b =
     require (xl = 64) (load_value h (rd b) False 4 (\<lambda>p. read_reg (rs1 b) p + i_imm b) (npc_of 4 xl pc))"

definition insn_lui :: insn where
  "insn_lui h xl pc b =
     write_value h (rd b) (\<lambda>p. u_imm b) (npc_of 4 xl pc)"

definition insn_or :: insn where
  "insn_or h xl pc b =
     write_value h (rd b) (\<lambda>p. read_reg (rs1 b) p OR read_reg (rs2 b) p) (npc_of 4 xl pc)"

definition insn_ori :: insn where
  "insn_ori h xl pc b =
     write_value h (rd b) (\<lambda>p. i_imm b OR read_reg (rs1 b) p) (npc_of 4 xl pc)"

definition insn_sb :: insn where
  "insn_sb h xl pc b =
     store_value h 1 (\<lambda>p. read_reg (rs1 b) p + s_imm b) (\<lambda>p. read_reg (rs2 b) p) (npc_of 4 xl pc)"

definition insn_sd :: insn where
  "insn_sd h xl pc b =
     require (xl = 64) (store_value h 8 (\<lambda>p. read_reg (rs1 b) p + s_imm b) (\<lambda>p. read_reg (rs2 b) p) (npc_of 4 xl
       pc))"

definition insn_sh :: insn where
  "insn_sh h xl pc b =
     store_value h 2 (\<lambda>p. read_reg (rs1 b) p + s_imm b) (\<lambda>p. read_reg (rs2 b) p) (npc_of 4 xl pc)"

definition insn_sw :: insn where
  "insn_sw h xl pc b =
     store_value h 4 (\<lambda>p. read_reg (rs1 b) p + s_imm b) (\<lambda>p. read_reg (rs2 b) p) (npc_of 4 xl pc)"

definition insn_sll :: insn where
  "insn_sll h xl pc b =
     write_value h (rd b) (\<lambda>p. sext_xlen xl (push_bit (unat (read_reg (rs2 b) p AND of_nat (xl - 1))) (read_reg (rs1 b)
       p))) (npc_of 4 xl pc)"

definition insn_slli :: insn where
  "insn_slli h xl pc b =
     require (unat (i_imm b AND 0x3F) < xl) (write_value h (rd b) (\<lambda>p. sext_xlen xl (push_bit (unat (i_imm b AND 0x3F))
       (read_reg (rs1 b) p))) (npc_of 4 xl pc))"

definition insn_slliw :: insn where
  "insn_slliw h xl pc b =
     require (xl = 64) (write_value h (rd b) (\<lambda>p. sext32 (push_bit (unat (i_imm b AND 0x3F)) (read_reg (rs1 b) p)))
       (npc_of 4 xl pc))"

definition insn_sllw :: insn where
  "insn_sllw h xl pc b =
     require (xl = 64) (write_value h (rd b) (\<lambda>p. sext32 (push_bit (unat (read_reg (rs2 b) p AND 0x1F)) (read_reg (rs1
       b) p))) (npc_of 4 xl pc))"

definition insn_slt :: insn where
  "insn_slt h xl pc b =
     write_value h (rd b) (\<lambda>p. of_bool (read_reg (rs1 b) p <s read_reg (rs2 b) p)) (npc_of 4 xl pc)"

definition insn_slti :: insn where
  "insn_slti h xl pc b =
     write_value h (rd b) (\<lambda>p. of_bool (read_reg (rs1 b) p <s i_imm b)) (npc_of 4 xl pc)"

definition insn_sltiu :: insn where
  "insn_sltiu h xl pc b =
     write_value h (rd b) (\<lambda>p. of_bool (read_reg (rs1 b) p < i_imm b)) (npc_of 4 xl pc)"

definition insn_sltu :: insn where
  "insn_sltu h xl pc b =
     write_value h (rd b) (\<lambda>p. of_bool (read_reg (rs1 b) p < read_reg (rs2 b) p)) (npc_of 4 xl pc)"

definition insn_sra :: insn where
  "insn_sra h xl pc b =
     write_value h (rd b) (\<lambda>p. sext_xlen xl (asr (unat (read_reg (rs2 b) p AND of_nat (xl - 1))) (sext_xlen xl (read_reg
       (rs1 b) p)))) (npc_of 4 xl pc)"

definition insn_srai :: insn where
  "insn_srai h xl pc b =
     require (unat (i_imm b AND 0x3F) < xl) (write_value h (rd b) (\<lambda>p. sext_xlen xl (asr (unat (i_imm b AND 0x3F))
       (sext_xlen xl (read_reg (rs1 b) p)))) (npc_of 4 xl pc))"

definition insn_sraiw :: insn where
  "insn_sraiw h xl pc b =
     require (xl = 64) (write_value h (rd b) (\<lambda>p. scast (signed_drop_bit (unat (i_imm b AND 0x3F)) (ucast (read_reg (rs1
       b) p) :: u32))) (npc_of 4 xl pc))"

definition insn_sraw :: insn where
  "insn_sraw h xl pc b =
     require (xl = 64) (write_value h (rd b) (\<lambda>p. scast (signed_drop_bit (unat (read_reg (rs2 b) p AND 0x1F)) (ucast
       (read_reg (rs1 b) p) :: u32))) (npc_of 4 xl pc))"

definition insn_srl :: insn where
  "insn_srl h xl pc b =
     write_value h (rd b) (\<lambda>p. sext_xlen xl (drop_bit (unat (read_reg (rs2 b) p AND of_nat (xl - 1))) (zext_xlen xl
       (read_reg (rs1 b) p)))) (npc_of 4 xl pc)"

definition insn_srli :: insn where
  "insn_srli h xl pc b =
     require (unat (i_imm b AND 0x3F) < xl) (write_value h (rd b) (\<lambda>p. sext_xlen xl (drop_bit (unat (i_imm b AND 0x3F))
       (zext_xlen xl (read_reg (rs1 b) p)))) (npc_of 4 xl pc))"

definition insn_srliw :: insn where
  "insn_srliw h xl pc b =
     require (xl = 64) (write_value h (rd b) (\<lambda>p. scast (drop_bit (unat (i_imm b AND 0x3F)) (ucast (read_reg (rs1 b) p)
       :: u32))) (npc_of 4 xl pc))"

definition insn_srlw :: insn where
  "insn_srlw h xl pc b =
     require (xl = 64) (write_value h (rd b) (\<lambda>p. scast (drop_bit (unat (read_reg (rs2 b) p AND 0x1F)) (ucast (read_reg
       (rs1 b) p) :: u32))) (npc_of 4 xl pc))"

definition insn_sub :: insn where
  "insn_sub h xl pc b =
     write_value h (rd b) (\<lambda>p. sext_xlen xl (read_reg (rs1 b) p - read_reg (rs2 b) p)) (npc_of 4 xl pc)"

definition insn_subw :: insn where
  "insn_subw h xl pc b =
     require (xl = 64) (write_value h (rd b) (\<lambda>p. sext32 (read_reg (rs1 b) p - read_reg (rs2 b) p)) (npc_of 4 xl pc))"

definition insn_xor :: insn where
  "insn_xor h xl pc b =
     write_value h (rd b) (\<lambda>p. read_reg (rs1 b) p XOR read_reg (rs2 b) p) (npc_of 4 xl pc)"

definition insn_xori :: insn where
  "insn_xori h xl pc b =
     write_value h (rd b) (\<lambda>p. i_imm b XOR read_reg (rs1 b) p) (npc_of 4 xl pc)"

definition insn_fence :: insn where
  "insn_fence h xl pc b =
     return (npc_of 4 xl pc)"

definition insn_wfi :: insn where
  "insn_wfi h xl pc b =
     return (npc_of 4 xl pc)"

definition insn_fence_i :: insn where
  "insn_fence_i h xl pc b =
     bnd (update_mmu h flush_icache) (\<lambda>_. return (npc_of 4 xl pc))"

subsection \<open>Multiplication and division\<close>

definition insn_mul :: insn where
  "insn_mul h xl pc b =
     require_extension h CHR ''M'' (write_value h (rd b) (\<lambda>p. sext_xlen xl (read_reg (rs1 b) p * read_reg (rs2 b) p))
       (npc_of 4 xl pc))"

definition insn_mulw :: insn where
  "insn_mulw h xl pc b =
     require_extension h CHR ''M'' (require (xl = 64) (write_value h (rd b) (\<lambda>p. sext32 (read_reg (rs1 b) p * read_reg
       (rs2 b) p)) (npc_of 4 xl pc)))"

definition insn_mulh :: insn where
  "insn_mulh h xl pc b =
     require_extension h CHR ''M'' (write_value h (rd b) (\<lambda>p. if xl = 64 then mulh (read_reg (rs1 b) p) (read_reg (rs2
       b) p) else sext32 (asr 32 (sext32 (read_reg (rs1 b) p) * sext32 (read_reg (rs2 b) p)))) (npc_of 4 xl pc))"

definition insn_mulhsu :: insn where
  "insn_mulhsu h xl pc b =
     require_extension h CHR ''M'' (write_value h (rd b) (\<lambda>p. if xl = 64 then mulhsu (read_reg (rs1 b) p) (read_reg (rs2
       b) p) else sext32 (drop_bit 32 (sext32 (read_reg (rs1 b) p) * zext32 (read_reg (rs2 b) p)))) (npc_of 4 xl pc))"

definition insn_mulhu :: insn where
  "insn_mulhu h xl pc b =
     require_extension h CHR ''M'' (write_value h (rd b) (\<lambda>p. if xl = 64 then mulhu (read_reg (rs1 b) p) (read_reg (rs2
       b) p) else sext32 (drop_bit 32 (zext32 (read_reg (rs1 b) p) * zext32 (read_reg (rs2 b) p)))) (npc_of 4 xl pc))"

definition insn_div :: insn where
  "insn_div h xl pc b =
     require_extension h CHR ''M'' (write_value h (rd b) (\<lambda>p. let lhs = sext_xlen xl (read_reg (rs1 b) p); rhs =
       sext_xlen xl (read_reg (rs2 b) p) in if rhs = 0 then - 1 else if lhs = INT64_MIN \<and> rhs = - 1 then lhs else sext_xlen
       xl (c_div lhs rhs)) (npc_of 4 xl pc))"

definition insn_divu :: insn where
  "insn_divu h xl pc b =
     require_extension h CHR ''M'' (write_value h (rd b) (\<lambda>p. let lhs = zext_xlen xl (read_reg (rs1 b) p); rhs =
       zext_xlen xl (read_reg (rs2 b) p) in if rhs = 0 then - 1 else sext_xlen xl (lhs div rhs)) (npc_of 4 xl pc))"

definition insn_divuw :: insn where
  "insn_divuw h xl pc b =
     require_extension h CHR ''M'' (require (xl = 64) (write_value h (rd b) (\<lambda>p. let lhs = zext32 (read_reg (rs1 b) p);
       rhs = zext32 (read_reg (rs2 b) p) in if rhs = 0 then - 1 else sext32 (lhs div rhs)) (npc_of 4 xl pc)))"

definition insn_divw :: insn where
  "insn_divw h xl pc b =
     require_extension h CHR ''M'' (require (xl = 64) (write_value h (rd b) (\<lambda>p. let lhs = sext32 (read_reg (rs1 b) p);
       rhs = sext32 (read_reg (rs2 b) p) in if rhs = 0 then - 1 else sext32 (c_div lhs rhs)) (npc_of 4 xl pc)))"

definition insn_rem :: insn where
  "insn_rem h xl pc b =
     require_extension h CHR ''M'' (write_value h (rd b) (\<lambda>p. let lhs = sext_xlen xl (read_reg (rs1 b) p); rhs =
       sext_xlen xl (read_reg (rs2 b) p) in if rhs = 0 then lhs else if lhs = INT64_MIN \<and> rhs = - 1 then 0 else sext_xlen
       xl (c_mod lhs rhs)) (npc_of 4 xl pc))"

definition insn_remu :: insn where
  "insn_remu h xl pc b =
     require_extension h CHR ''M'' (write_value h (rd b) (\<lambda>p. let lhs = zext_xlen xl (read_reg (rs1 b) p); rhs =
       zext_xlen xl (read_reg (rs2 b) p) in if rhs = 0 then sext_xlen xl (read_reg (rs1 b) p) else sext_xlen xl (lhs mod rhs))
       (npc_of 4 xl pc))"

definition insn_remuw :: insn where
  "insn_remuw h xl pc b =
     require_extension h CHR ''M'' (require (xl = 64) (write_value h (rd b) (\<lambda>p. let lhs = zext32 (read_reg (rs1 b) p);
       rhs = zext32 (read_reg (rs2 b) p) in if rhs = 0 then sext32 lhs else sext32 (lhs mod rhs)) (npc_of 4 xl pc)))"

definition insn_remw :: insn where
  "insn_remw h xl pc b =
     require_extension h CHR ''M'' (require (xl = 64) (write_value h (rd b) (\<lambda>p. let lhs = sext32 (read_reg (rs1 b) p);
       rhs = sext32 (read_reg (rs2 b) p) in if rhs = 0 then lhs else sext32 (c_mod lhs rhs)) (npc_of 4 xl pc)))"

subsection \<open>Atomic instructions\<close>

definition insn_amoadd_w :: insn where
  "insn_amoadd_w h xl pc b =
     require_extension h CHR ''A'' (amo_value h (rd b) 4 sext32 (\<lambda>p. read_reg (rs1 b) p) (\<lambda>p lhs. lhs + read_reg
       (rs2 b) p) (npc_of 4 xl pc))"

definition insn_amoadd_d :: insn where
  "insn_amoadd_d h xl pc b =
     require_extension h CHR ''A'' (require (xl = 64) (amo_value h (rd b) 8 id (\<lambda>p. read_reg (rs1 b) p) (\<lambda>p lhs.
       lhs + read_reg (rs2 b) p) (npc_of 4 xl pc)))"

definition insn_amoand_w :: insn where
  "insn_amoand_w h xl pc b =
     require_extension h CHR ''A'' (amo_value h (rd b) 4 sext32 (\<lambda>p. read_reg (rs1 b) p) (\<lambda>p lhs. lhs AND
       read_reg (rs2 b) p) (npc_of 4 xl pc))"

definition insn_amoand_d :: insn where
  "insn_amoand_d h xl pc b =
     require_extension h CHR ''A'' (require (xl = 64) (amo_value h (rd b) 8 id (\<lambda>p. read_reg (rs1 b) p) (\<lambda>p lhs.
       lhs AND read_reg (rs2 b) p) (npc_of 4 xl pc)))"

definition insn_amoor_w :: insn where
  "insn_amoor_w h xl pc b =
     require_extension h CHR ''A'' (amo_value h (rd b) 4 sext32 (\<lambda>p. read_reg (rs1 b) p) (\<lambda>p lhs. lhs OR
       read_reg (rs2 b) p) (npc_of 4 xl pc))"

definition insn_amoor_d :: insn where
  "insn_amoor_d h xl pc b =
     require_extension h CHR ''A'' (require (xl = 64) (amo_value h (rd b) 8 id (\<lambda>p. read_reg (rs1 b) p) (\<lambda>p lhs.
       lhs OR read_reg (rs2 b) p) (npc_of 4 xl pc)))"

definition insn_amoxor_w :: insn where
  "insn_amoxor_w h xl pc b =
     require_extension h CHR ''A'' (amo_value h (rd b) 4 sext32 (\<lambda>p. read_reg (rs1 b) p) (\<lambda>p lhs. lhs XOR
       read_reg (rs2 b) p) (npc_of 4 xl pc))"

definition insn_amoxor_d :: insn where
  "insn_amoxor_d h xl pc b =
     require_extension h CHR ''A'' (require (xl = 64) (amo_value h (rd b) 8 id (\<lambda>p. read_reg (rs1 b) p) (\<lambda>p lhs.
       lhs XOR read_reg (rs2 b) p) (npc_of 4 xl pc)))"

definition insn_amoswap_w :: insn where
  "insn_amoswap_w h xl pc b =
     require_extension h CHR ''A'' (amo_value h (rd b) 4 sext32 (\<lambda>p. read_reg (rs1 b) p) (\<lambda>p lhs. read_reg (rs2
       b) p) (npc_of 4 xl pc))"

definition insn_amoswap_d :: insn where
  "insn_amoswap_d h xl pc b =
     require_extension h CHR ''A'' (require (xl = 64) (amo_value h (rd b) 8 id (\<lambda>p. read_reg (rs1 b) p) (\<lambda>p lhs.
       read_reg (rs2 b) p) (npc_of 4 xl pc)))"

definition insn_amomax_w :: insn where
  "insn_amomax_w h xl pc b =
     require_extension h CHR ''A'' (amo_value h (rd b) 4 sext32 (\<lambda>p. read_reg (rs1 b) p) (\<lambda>p lhs. ucast (if
       (ucast lhs :: u32) <s (ucast (read_reg (rs2 b) p) :: u32) then (ucast (read_reg (rs2 b) p) :: u32) else (ucast lhs ::
       u32))) (npc_of 4 xl pc))"

definition insn_amomax_d :: insn where
  "insn_amomax_d h xl pc b =
     require_extension h CHR ''A'' (require (xl = 64) (amo_value h (rd b) 8 id (\<lambda>p. read_reg (rs1 b) p) (\<lambda>p lhs.
       if lhs <s read_reg (rs2 b) p then read_reg (rs2 b) p else lhs) (npc_of 4 xl pc)))"

definition insn_amomin_w :: insn where
  "insn_amomin_w h xl pc b =
     require_extension h CHR ''A'' (amo_value h (rd b) 4 sext32 (\<lambda>p. read_reg (rs1 b) p) (\<lambda>p lhs. ucast (if
       (ucast (read_reg (rs2 b) p) :: u32) <s (ucast lhs :: u32) then (ucast (read_reg (rs2 b) p) :: u32) else (ucast lhs ::
       u32))) (npc_of 4 xl pc))"

definition insn_amomin_d :: insn where
  "insn_amomin_d h xl pc b =
     require_extension h CHR ''A'' (require (xl = 64) (amo_value h (rd b) 8 id (\<lambda>p. read_reg (rs1 b) p) (\<lambda>p lhs.
       if read_reg (rs2 b) p <s lhs then read_reg (rs2 b) p else lhs) (npc_of 4 xl pc)))"

definition insn_amomaxu_w :: insn where
  "insn_amomaxu_w h xl pc b =
     require_extension h CHR ''A'' (amo_value h (rd b) 4 sext32 (\<lambda>p. read_reg (rs1 b) p) (\<lambda>p lhs. ucast (if
       (ucast lhs :: u32) < (ucast (read_reg (rs2 b) p) :: u32) then (ucast (read_reg (rs2 b) p) :: u32) else (ucast lhs ::
       u32))) (npc_of 4 xl pc))"

definition insn_amomaxu_d :: insn where
  "insn_amomaxu_d h xl pc b =
     require_extension h CHR ''A'' (require (xl = 64) (amo_value h (rd b) 8 id (\<lambda>p. read_reg (rs1 b) p) (\<lambda>p lhs.
       if lhs < read_reg (rs2 b) p then read_reg (rs2 b) p else lhs) (npc_of 4 xl pc)))"

definition insn_amominu_w :: insn where
  "insn_amominu_w h xl pc b =
     require_extension h CHR ''A'' (amo_value h (rd b) 4 sext32 (\<lambda>p. read_reg (rs1 b) p) (\<lambda>p lhs. ucast (if
       (ucast (read_reg (rs2 b) p) :: u32) < (ucast lhs :: u32) then (ucast (read_reg (rs2 b) p) :: u32) else (ucast lhs ::
       u32))) (npc_of 4 xl pc))"

definition insn_amominu_d :: insn where
  "insn_amominu_d h xl pc b =
     require_extension h CHR ''A'' (require (xl = 64) (amo_value h (rd b) 8 id (\<lambda>p. read_reg (rs1 b) p) (\<lambda>p lhs.
       if read_reg (rs2 b) p < lhs then read_reg (rs2 b) p else lhs) (npc_of 4 xl pc)))"

definition insn_lr_w :: insn where
  "insn_lr_w h xl pc b =
     require_extension h CHR ''A'' (bnd (hart h) (\<lambda>p. bnd (reserve h (read_reg (rs1 b) p)) (\<lambda>_. load_value h (rd
       b) True 4 (\<lambda>p. read_reg (rs1 b) p) (npc_of 4 xl pc))))"

definition insn_sc_w :: insn where
  "insn_sc_w h xl pc b =
     require_extension h CHR ''A'' (bnd (hart h) (\<lambda>p. if read_reg (rs1 b) p = load_reservation (state p) then bnd
       (store_func 4 h (read_reg (rs1 b) p) (read_reg (rs2 b) p)) (\<lambda>_. bnd (write_rd h (rd b) 0) (\<lambda>_. return
       (npc_of 4 xl pc))) else bnd (write_rd h (rd b) 1) (\<lambda>_. return (npc_of 4 xl pc))))"

definition insn_lr_d :: insn where
  "insn_lr_d h xl pc b =
     require_extension h CHR ''A'' (require (xl = 64) (bnd (hart h) (\<lambda>p. bnd (reserve h (read_reg (rs1 b) p))
       (\<lambda>_. load_value h (rd b) True 8 (\<lambda>p. read_reg (rs1 b) p) (npc_of 4 xl pc)))))"

definition insn_sc_d :: insn where
  "insn_sc_d h xl pc b =
     require_extension h CHR ''A'' (require (xl = 64) (bnd (hart h) (\<lambda>p. if read_reg (rs1 b) p = load_reservation (state
       p) then bnd (store_func 8 h (read_reg (rs1 b) p) (read_reg (rs2 b) p)) (\<lambda>_. bnd (write_rd h (rd b) 0)
       (\<lambda>_. return (npc_of 4 xl pc))) else bnd (write_rd h (rd b) 1) (\<lambda>_. return (npc_of 4 xl pc)))))"

subsection \<open>Compressed instructions\<close>

definition insn_c_add :: insn where
  "insn_c_add h xl pc b =
     require_extension h CHR ''C'' (require (rvc_rs2 b \<noteq> 0) (write_value h (rd b) (\<lambda>p. sext_xlen xl (read_reg
       (rvc_rs1 b) p + read_reg (rvc_rs2 b) p)) (npc_of 2 xl pc)))"

definition insn_c_addi :: insn where
  "insn_c_addi h xl pc b =
     require_extension h CHR ''C'' (write_value h (rd b) (\<lambda>p. sext_xlen xl (read_reg (rvc_rs1 b) p + rvc_imm b)) (npc_of
       2 xl pc))"

definition insn_c_addi4spn :: insn where
  "insn_c_addi4spn h xl pc b =
     require_extension h CHR ''C'' (require (rvc_addi4spn_imm b \<noteq> 0) (write_value h (rvc_rs2s b) (\<lambda>p. sext_xlen
       xl (read_reg X_SP p + rvc_addi4spn_imm b)) (npc_of 2 xl pc)))"

definition insn_c_addw :: insn where
  "insn_c_addw h xl pc b =
     require_extension h CHR ''C'' (require (xl = 64) (write_value h (rvc_rs1s b) (\<lambda>p. sext32 (read_reg (rvc_rs1s b) p +
       read_reg (rvc_rs2s b) p)) (npc_of 2 xl pc)))"

definition insn_c_and :: insn where
  "insn_c_and h xl pc b =
     require_extension h CHR ''C'' (write_value h (rvc_rs1s b) (\<lambda>p. read_reg (rvc_rs1s b) p AND read_reg (rvc_rs2s b) p)
       (npc_of 2 xl pc))"

definition insn_c_andi :: insn where
  "insn_c_andi h xl pc b =
     require_extension h CHR ''C'' (write_value h (rvc_rs1s b) (\<lambda>p. read_reg (rvc_rs1s b) p AND rvc_imm b) (npc_of 2 xl
       pc))"

definition insn_c_beqz :: insn where
  "insn_c_beqz h xl pc b =
     require_extension h CHR ''C'' (branch h xl (\<lambda>p. read_reg (rvc_rs1s b) p = 0) (pc + rvc_b_imm b) (npc_of 2 xl pc))"

definition insn_c_bnez :: insn where
  "insn_c_bnez h xl pc b =
     require_extension h CHR ''C'' (branch h xl (\<lambda>p. read_reg (rvc_rs1s b) p \<noteq> 0) (pc + rvc_b_imm b) (npc_of 2 xl
       pc))"

definition insn_c_ebreak :: insn where
  "insn_c_ebreak h xl pc b =
     require_extension h CHR ''C'' (throw \<lparr>trap_cause = CAUSE_BREAKPOINT, trap_badaddr = None\<rparr>)"

definition insn_c_fld :: insn where
  "insn_c_fld h xl pc b =
     require_extension h CHR ''C'' (require_extension h CHR ''D'' (require_fp h (fload_value h xl (rvc_rs2s b) True 8
       (\<lambda>p. read_reg (rvc_rs1s b) p + rvc_ld_imm b) (npc_of 2 xl pc))))"

definition insn_c_fldsp :: insn where
  "insn_c_fldsp h xl pc b =
     require_extension h CHR ''C'' (require_extension h CHR ''D'' (require_fp h (fload_value h xl (rd b) True 8 (\<lambda>p.
       read_reg X_SP p + rvc_ldsp_imm b) (npc_of 2 xl pc))))"

definition insn_c_flw :: insn where
  "insn_c_flw h xl pc b =
     require_extension h CHR ''C'' (if xl = 32 then require_extension h CHR ''F'' (require_fp h (fload_value h xl (rvc_rs2s b)
       True 4 (\<lambda>p. read_reg (rvc_rs1s b) p + rvc_lw_imm b) (npc_of 2 xl pc))) else load_value h (rvc_rs2s b) True 8
       (\<lambda>p. read_reg (rvc_rs1s b) p + rvc_ld_imm b) (npc_of 2 xl pc))"

definition insn_c_flwsp :: insn where
  "insn_c_flwsp h xl pc b =
     require_extension h CHR ''C'' (if xl = 32 then require_extension h CHR ''F'' (require_fp h (fload_value h xl (rd b) True 4
       (\<lambda>p. read_reg X_SP p + rvc_lwsp_imm b) (npc_of 2 xl pc))) else require (rvc_rd b \<noteq> 0) (load_value h (rd b)
       True 8 (\<lambda>p. read_reg X_SP p + rvc_ldsp_imm b) (npc_of 2 xl pc)))"

definition insn_c_fsd :: insn where
  "insn_c_fsd h xl pc b =
     require_extension h CHR ''C'' (require_extension h CHR ''D'' (require_fp h (store_value h 8 (\<lambda>p. read_reg (rvc_rs1s
       b) p + rvc_ld_imm b) (\<lambda>p. read_freg (rvc_rs2s b) p) (npc_of 2 xl pc))))"

definition insn_c_fsdsp :: insn where
  "insn_c_fsdsp h xl pc b =
     require_extension h CHR ''C'' (require_extension h CHR ''D'' (require_fp h (store_value h 8 (\<lambda>p. read_reg X_SP p +
       rvc_sdsp_imm b) (\<lambda>p. read_freg (rvc_rs2 b) p) (npc_of 2 xl pc))))"

definition insn_c_fsw :: insn where
  "insn_c_fsw h xl pc b =
     require_extension h CHR ''C'' (if xl = 32 then require_extension h CHR ''F'' (require_fp h (store_value h 4 (\<lambda>p.
       read_reg (rvc_rs1s b) p + rvc_lw_imm b) (\<lambda>p. read_freg (rvc_rs2s b) p) (npc_of 2 xl pc))) else store_value h 8
       (\<lambda>p. read_reg (rvc_rs1s b) p + rvc_ld_imm b) (\<lambda>p. read_reg (rvc_rs2s b) p) (npc_of 2 xl pc))"

definition insn_c_fswsp :: insn where
  "insn_c_fswsp h xl pc b =
     require_extension h CHR ''C'' (if xl = 32 then require_extension h CHR ''F'' (require_fp h (store_value h 4 (\<lambda>p.
       read_reg X_SP p + rvc_swsp_imm b) (\<lambda>p. read_freg (rvc_rs2 b) p) (npc_of 2 xl pc))) else store_value h 8
       (\<lambda>p. read_reg X_SP p + rvc_sdsp_imm b) (\<lambda>p. read_reg (rvc_rs2 b) p) (npc_of 2 xl pc))"

definition insn_c_j :: insn where
  "insn_c_j h xl pc b =
     require_extension h CHR ''C'' (set_pc h xl (pc + rvc_j_imm b))"

definition insn_c_jal :: insn where
  "insn_c_jal h xl pc b =
     require_extension h CHR ''C'' (if xl = 32 then bnd (set_pc h xl (pc + rvc_j_imm b)) (\<lambda>npc. bnd (write_rd h X_RA
       (npc_of 2 xl pc)) (\<lambda>_. return npc)) else require (rvc_rd b \<noteq> 0) (write_value h (rd b) (\<lambda>p. sext32
       (read_reg (rvc_rs1 b) p + rvc_imm b)) (npc_of 2 xl pc)))"

definition insn_c_jalr :: insn where
  "insn_c_jalr h xl pc b =
     require_extension h CHR ''C'' (require (rvc_rs1 b \<noteq> 0) (bnd (hart h) (\<lambda>p. bnd (set_pc h xl (read_reg
       (rvc_rs1 b) p AND NOT 1)) (\<lambda>npc. bnd (write_rd h X_RA (npc_of 2 xl pc)) (\<lambda>_. return npc)))))"

definition insn_c_jr :: insn where
  "insn_c_jr h xl pc b =
     require_extension h CHR ''C'' (require (rvc_rs1 b \<noteq> 0) (bnd (hart h) (\<lambda>p. set_pc h xl (read_reg (rvc_rs1 b)
       p AND NOT 1))))"

definition insn_c_li :: insn where
  "insn_c_li h xl pc b =
     require_extension h CHR ''C'' (require (rvc_rd b \<noteq> 0) (write_value h (rd b) (\<lambda>p. rvc_imm b) (npc_of 2 xl
       pc)))"

definition insn_c_lui :: insn where
  "insn_c_lui h xl pc b =
     require_extension h CHR ''C'' (if rvc_rd b = 2 then require (rvc_addi16sp_imm b \<noteq> 0) (write_value h X_SP
       (\<lambda>p. sext_xlen xl (read_reg X_SP p + rvc_addi16sp_imm b)) (npc_of 2 xl pc)) else require (rvc_rd b \<noteq> 0)
       (write_value h (rd b) (\<lambda>p. push_bit 12 (rvc_imm b)) (npc_of 2 xl pc)))"

definition insn_c_lw :: insn where
  "insn_c_lw h xl pc b =
     require_extension h CHR ''C'' (load_value h (rvc_rs2s b) True 4 (\<lambda>p. read_reg (rvc_rs1s b) p + rvc_lw_imm b)
       (npc_of 2 xl pc))"

definition insn_c_lwsp :: insn where
  "insn_c_lwsp h xl pc b =
     require_extension h CHR ''C'' (require (rvc_rd b \<noteq> 0) (load_value h (rd b) True 4 (\<lambda>p. read_reg X_SP p +
       rvc_lwsp_imm b) (npc_of 2 xl pc)))"

definition insn_c_mv :: insn where
  "insn_c_mv h xl pc b =
     require_extension h CHR ''C'' (require (rvc_rs2 b \<noteq> 0) (write_value h (rd b) (\<lambda>p. read_reg (rvc_rs2 b) p)
       (npc_of 2 xl pc)))"

definition insn_c_or :: insn where
  "insn_c_or h xl pc b =
     require_extension h CHR ''C'' (write_value h (rvc_rs1s b) (\<lambda>p. read_reg (rvc_rs1s b) p OR read_reg (rvc_rs2s b) p)
       (npc_of 2 xl pc))"

definition insn_c_slli :: insn where
  "insn_c_slli h xl pc b =
     require_extension h CHR ''C'' (require (unat (rvc_zimm b) < xl) (write_value h (rd b) (\<lambda>p. sext_xlen xl (push_bit
       (unat (rvc_zimm b)) (read_reg (rvc_rs1 b) p))) (npc_of 2 xl pc)))"

definition insn_c_srai :: insn where
  "insn_c_srai h xl pc b =
     require_extension h CHR ''C'' (require (unat (rvc_zimm b) < xl) (write_value h (rvc_rs1s b) (\<lambda>p. sext_xlen xl (asr
       (unat (rvc_zimm b)) (sext_xlen xl (read_reg (rvc_rs1s b) p)))) (npc_of 2 xl pc)))"

definition insn_c_srli :: insn where
  "insn_c_srli h xl pc b =
     require_extension h CHR ''C'' (require (unat (rvc_zimm b) < xl) (write_value h (rvc_rs1s b) (\<lambda>p. sext_xlen xl
       (drop_bit (unat (rvc_zimm b)) (zext_xlen xl (read_reg (rvc_rs1s b) p)))) (npc_of 2 xl pc)))"

definition insn_c_sub :: insn where
  "insn_c_sub h xl pc b =
     require_extension h CHR ''C'' (write_value h (rvc_rs1s b) (\<lambda>p. sext_xlen xl (read_reg (rvc_rs1s b) p - read_reg
       (rvc_rs2s b) p)) (npc_of 2 xl pc))"

definition insn_c_subw :: insn where
  "insn_c_subw h xl pc b =
     require_extension h CHR ''C'' (require (xl = 64) (write_value h (rvc_rs1s b) (\<lambda>p. sext32 (read_reg (rvc_rs1s b) p -
       read_reg (rvc_rs2s b) p)) (npc_of 2 xl pc)))"

definition insn_c_sw :: insn where
  "insn_c_sw h xl pc b =
     require_extension h CHR ''C'' (store_value h 4 (\<lambda>p. read_reg (rvc_rs1s b) p + rvc_lw_imm b) (\<lambda>p. read_reg
       (rvc_rs2s b) p) (npc_of 2 xl pc))"

definition insn_c_swsp :: insn where
  "insn_c_swsp h xl pc b =
     require_extension h CHR ''C'' (store_value h 4 (\<lambda>p. read_reg X_SP p + rvc_swsp_imm b) (\<lambda>p. read_reg
       (rvc_rs2 b) p) (npc_of 2 xl pc))"

definition insn_c_xor :: insn where
  "insn_c_xor h xl pc b =
     require_extension h CHR ''C'' (write_value h (rvc_rs1s b) (\<lambda>p. read_reg (rvc_rs1s b) p XOR read_reg (rvc_rs2s b) p)
       (npc_of 2 xl pc))"

subsection \<open>Floating-point instructions\<close>

definition insn_fadd_s :: insn where
  "insn_fadd_s h xl pc b =
     require_extension h CHR ''F'' (require_fp h (fp_frd h xl b (\<lambda>p rm s. apfst ucast (f32_add (ucast (read_freg (rs1 b)
       p) :: u32) (ucast (read_freg (rs2 b) p) :: u32) s)) (npc_of 4 xl pc)))"

definition insn_fsub_s :: insn where
  "insn_fsub_s h xl pc b =
     require_extension h CHR ''F'' (require_fp h (fp_frd h xl b (\<lambda>p rm s. apfst ucast (f32_sub (ucast (read_freg (rs1 b)
       p) :: u32) (ucast (read_freg (rs2 b) p) :: u32) s)) (npc_of 4 xl pc)))"

definition insn_fmul_s :: insn where
  "insn_fmul_s h xl pc b =
     require_extension h CHR ''F'' (require_fp h (fp_frd h xl b (\<lambda>p rm s. apfst ucast (f32_mul (ucast (read_freg (rs1 b)
       p) :: u32) (ucast (read_freg (rs2 b) p) :: u32) s)) (npc_of 4 xl pc)))"

definition insn_fdiv_s :: insn where
  "insn_fdiv_s h xl pc b =
     require_extension h CHR ''F'' (require_fp h (fp_frd h xl b (\<lambda>p rm s. apfst ucast (f32_div (ucast (read_freg (rs1 b)
       p) :: u32) (ucast (read_freg (rs2 b) p) :: u32) s)) (npc_of 4 xl pc)))"

definition insn_feq_s :: insn where
  "insn_feq_s h xl pc b =
     require_extension h CHR ''F'' (require_fp h (fp_compare h xl b (\<lambda>p s. f32_eq (ucast (read_freg (rs1 b) p) :: u32)
       (ucast (read_freg (rs2 b) p) :: u32) s) (npc_of 4 xl pc)))"

definition insn_fle_s :: insn where
  "insn_fle_s h xl pc b =
     require_extension h CHR ''F'' (require_fp h (fp_compare h xl b (\<lambda>p s. f32_le (ucast (read_freg (rs1 b) p) :: u32)
       (ucast (read_freg (rs2 b) p) :: u32) s) (npc_of 4 xl pc)))"

definition insn_flt_s :: insn where
  "insn_flt_s h xl pc b =
     require_extension h CHR ''F'' (require_fp h (fp_compare h xl b (\<lambda>p s. f32_lt (ucast (read_freg (rs1 b) p) :: u32)
       (ucast (read_freg (rs2 b) p) :: u32) s) (npc_of 4 xl pc)))"

definition insn_fclass_s :: insn where
  "insn_fclass_s h xl pc b =
     require_extension h CHR ''F'' (require_fp h (write_value h (rd b) (\<lambda>p. f32_classify (ucast (read_freg (rs1 b) p) ::
       u32)) (npc_of 4 xl pc)))"

definition insn_fmax_s :: insn where
  "insn_fmax_s h xl pc b =
     require_extension h CHR ''F'' (require_fp h (fp_select h xl b (\<lambda>p s. if isNaNF32UI (read_freg (rs2 b) p) then
       (read_freg (rs1 b) p, s) else case f32_le_quiet (ucast (read_freg (rs2 b) p) :: u32) (ucast (read_freg (rs1 b) p) :: u32)
       s of (c, s) \<Rightarrow> (if c then read_freg (rs1 b) p else read_freg (rs2 b) p, s)) (npc_of 4 xl pc)))"

definition insn_fmin_s :: insn where
  "insn_fmin_s h xl pc b =
     require_extension h CHR ''F'' (require_fp h (fp_select h xl b (\<lambda>p s. if isNaNF32UI (read_freg (rs2 b) p) then
       (read_freg (rs1 b) p, s) else case f32_lt_quiet (ucast (read_freg (rs1 b) p) :: u32) (ucast (read_freg (rs2 b) p) :: u32)
       s of (c, s) \<Rightarrow> (if c then read_freg (rs1 b) p else read_freg (rs2 b) p, s)) (npc_of 4 xl pc)))"

definition insn_fsgnj_s :: insn where
  "insn_fsgnj_s h xl pc b =
     require_extension h CHR ''F'' (require_fp h (write_fvalue h xl (rd b) (\<lambda>p. (read_freg (rs1 b) p AND 0x7FFFFFFF) OR
       (read_freg (rs2 b) p AND 0x80000000)) (npc_of 4 xl pc)))"

definition insn_fsgnjn_s :: insn where
  "insn_fsgnjn_s h xl pc b =
     require_extension h CHR ''F'' (require_fp h (write_fvalue h xl (rd b) (\<lambda>p. (read_freg (rs1 b) p AND 0x7FFFFFFF) OR
       (NOT (read_freg (rs2 b) p) AND 0x80000000)) (npc_of 4 xl pc)))"

definition insn_fsgnjx_s :: insn where
  "insn_fsgnjx_s h xl pc b =
     require_extension h CHR ''F'' (require_fp h (write_fvalue h xl (rd b) (\<lambda>p. read_freg (rs1 b) p XOR (read_freg (rs2
       b) p AND 0x80000000)) (npc_of 4 xl pc)))"

definition insn_fsqrt_s :: insn where
  "insn_fsqrt_s h xl pc b =
     require_extension h CHR ''F'' (require_fp h (fp_frd h xl b (\<lambda>p rm s. apfst ucast (f32_sqrt (ucast (read_freg (rs1
       b) p) :: u32) s)) (npc_of 4 xl pc)))"

definition insn_fmadd_s :: insn where
  "insn_fmadd_s h xl pc b =
     require_extension h CHR ''F'' (require_fp h (fp_frd h xl b (\<lambda>p rm s. apfst ucast (f32_mulAdd (ucast (read_freg (rs1
       b) p) :: u32) (ucast (read_freg (rs2 b) p) :: u32) (ucast (read_freg (rs3 b) p) :: u32) s)) (npc_of 4 xl pc)))"

definition insn_fmsub_s :: insn where
  "insn_fmsub_s h xl pc b =
     require_extension h CHR ''F'' (require_fp h (fp_frd h xl b (\<lambda>p rm s. apfst ucast (f32_mulAdd (ucast (read_freg (rs1
       b) p) :: u32) (ucast (read_freg (rs2 b) p) :: u32) (ucast (read_freg (rs3 b) p XOR 0x80000000) :: u32) s)) (npc_of 4 xl
       pc)))"

definition insn_fnmadd_s :: insn where
  "insn_fnmadd_s h xl pc b =
     require_extension h CHR ''F'' (require_fp h (fp_frd h xl b (\<lambda>p rm s. apfst ucast (f32_mulAdd (ucast (read_freg (rs1
       b) p XOR 0x80000000) :: u32) (ucast (read_freg (rs2 b) p) :: u32) (ucast (read_freg (rs3 b) p XOR 0x80000000) :: u32) s))
       (npc_of 4 xl pc)))"

definition insn_fnmsub_s :: insn where
  "insn_fnmsub_s h xl pc b =
     require_extension h CHR ''F'' (require_fp h (fp_frd h xl b (\<lambda>p rm s. apfst ucast (f32_mulAdd (ucast (read_freg (rs1
       b) p XOR 0x80000000) :: u32) (ucast (read_freg (rs2 b) p) :: u32) (ucast (read_freg (rs3 b) p) :: u32) s)) (npc_of 4 xl
       pc)))"

definition insn_fcvt_w_s :: insn where
  "insn_fcvt_w_s h xl pc b =
     require_extension h CHR ''F'' (require_fp h (fp_rd h xl b (\<lambda>p rm s. apfst (sext32 \<circ> word_of_int) (f32_to_i32
       (ucast (read_freg (rs1 b) p) :: u32) rm True s)) (npc_of 4 xl pc)))"

definition insn_fcvt_s_w :: insn where
  "insn_fcvt_s_w h xl pc b =
     require_extension h CHR ''F'' (require_fp h (fp_frd h xl b (\<lambda>p rm s. apfst ucast (i32_to_f32 (ucast (read_reg (rs1
       b) p) :: u32) s)) (npc_of 4 xl pc)))"

definition insn_fcvt_wu_s :: insn where
  "insn_fcvt_wu_s h xl pc b =
     require_extension h CHR ''F'' (require_fp h (fp_rd h xl b (\<lambda>p rm s. apfst (sext32 \<circ> id) (f32_to_ui32 (ucast
       (read_freg (rs1 b) p) :: u32) rm True s)) (npc_of 4 xl pc)))"

definition insn_fcvt_s_wu :: insn where
  "insn_fcvt_s_wu h xl pc b =
     require_extension h CHR ''F'' (require_fp h (fp_frd h xl b (\<lambda>p rm s. apfst ucast (ui32_to_f32 (ucast (read_reg (rs1
       b) p) :: u32) s)) (npc_of 4 xl pc)))"

definition insn_fcvt_l_s :: insn where
  "insn_fcvt_l_s h xl pc b =
     require_extension h CHR ''F'' (require (xl = 64) (require_fp h (fp_rd h xl b (\<lambda>p rm s. apfst word_of_int
       (f32_to_i64 (ucast (read_freg (rs1 b) p) :: u32) rm True s)) (npc_of 4 xl pc))))"

definition insn_fcvt_s_l :: insn where
  "insn_fcvt_s_l h xl pc b =
     require_extension h CHR ''F'' (require (xl = 64) (require_fp h (fp_frd h xl b (\<lambda>p rm s. apfst ucast (i64_to_f32
       (read_reg (rs1 b) p) s)) (npc_of 4 xl pc))))"

definition insn_fcvt_lu_s :: insn where
  "insn_fcvt_lu_s h xl pc b =
     require_extension h CHR ''F'' (require (xl = 64) (require_fp h (fp_rd h xl b (\<lambda>p rm s. apfst id (f32_to_ui64 (ucast
       (read_freg (rs1 b) p) :: u32) rm True s)) (npc_of 4 xl pc))))"

definition insn_fcvt_s_lu :: insn where
  "insn_fcvt_s_lu h xl pc b =
     require_extension h CHR ''F'' (require (xl = 64) (require_fp h (fp_frd h xl b (\<lambda>p rm s. apfst ucast (ui64_to_f32
       (read_reg (rs1 b) p) s)) (npc_of 4 xl pc))))"

definition insn_fadd_d :: insn where
  "insn_fadd_d h xl pc b =
     require_extension h CHR ''D'' (require_fp h (fp_frd h xl b (\<lambda>p rm s. f64_add (read_freg (rs1 b) p) (read_freg (rs2
       b) p) s) (npc_of 4 xl pc)))"

definition insn_fsub_d :: insn where
  "insn_fsub_d h xl pc b =
     require_extension h CHR ''D'' (require_fp h (fp_frd h xl b (\<lambda>p rm s. f64_sub (read_freg (rs1 b) p) (read_freg (rs2
       b) p) s) (npc_of 4 xl pc)))"

definition insn_fmul_d :: insn where
  "insn_fmul_d h xl pc b =
     require_extension h CHR ''D'' (require_fp h (fp_frd h xl b (\<lambda>p rm s. f64_mul (read_freg (rs1 b) p) (read_freg (rs2
       b) p) s) (npc_of 4 xl pc)))"

definition insn_fdiv_d :: insn where
  "insn_fdiv_d h xl pc b =
     require_extension h CHR ''D'' (require_fp h (fp_frd h xl b (\<lambda>p rm s. f64_div (read_freg (rs1 b) p) (read_freg (rs2
       b) p) s) (npc_of 4 xl pc)))"

definition insn_feq_d :: insn where
  "insn_feq_d h xl pc b =
     require_extension h CHR ''D'' (require_fp h (fp_compare h xl b (\<lambda>p s. f64_eq (read_freg (rs1 b) p) (read_freg (rs2
       b) p) s) (npc_of 4 xl pc)))"

definition insn_fle_d :: insn where
  "insn_fle_d h xl pc b =
     require_extension h CHR ''D'' (require_fp h (fp_compare h xl b (\<lambda>p s. f64_le (read_freg (rs1 b) p) (read_freg (rs2
       b) p) s) (npc_of 4 xl pc)))"

definition insn_flt_d :: insn where
  "insn_flt_d h xl pc b =
     require_extension h CHR ''D'' (require_fp h (fp_compare h xl b (\<lambda>p s. f64_lt (read_freg (rs1 b) p) (read_freg (rs2
       b) p) s) (npc_of 4 xl pc)))"

definition insn_fclass_d :: insn where
  "insn_fclass_d h xl pc b =
     require_extension h CHR ''D'' (require_fp h (write_value h (rd b) (\<lambda>p. f64_classify (read_freg (rs1 b) p)) (npc_of
       4 xl pc)))"

definition insn_fmax_d :: insn where
  "insn_fmax_d h xl pc b =
     require_extension h CHR ''D'' (require_fp h (fp_select h xl b (\<lambda>p s. if isNaNF64UI (read_freg (rs2 b) p) then
       (read_freg (rs1 b) p, s) else case f64_le_quiet (read_freg (rs2 b) p) (read_freg (rs1 b) p) s of (c, s) \<Rightarrow> (if
       c then read_freg (rs1 b) p else read_freg (rs2 b) p, s)) (npc_of 4 xl pc)))"

definition insn_fmin_d :: insn where
  "insn_fmin_d h xl pc b =
     require_extension h CHR ''D'' (require_fp h (fp_select h xl b (\<lambda>p s. if isNaNF64UI (read_freg (rs2 b) p) then
       (read_freg (rs1 b) p, s) else case f64_lt_quiet (read_freg (rs1 b) p) (read_freg (rs2 b) p) s of (c, s) \<Rightarrow> (if
       c then read_freg (rs1 b) p else read_freg (rs2 b) p, s)) (npc_of 4 xl pc)))"

definition insn_fsgnj_d :: insn where
  "insn_fsgnj_d h xl pc b =
     require_extension h CHR ''D'' (require_fp h (write_fvalue h xl (rd b) (\<lambda>p. (read_freg (rs1 b) p AND NOT
       0x8000000000000000) OR (read_freg (rs2 b) p AND 0x8000000000000000)) (npc_of 4 xl pc)))"

definition insn_fsgnjn_d :: insn where
  "insn_fsgnjn_d h xl pc b =
     require_extension h CHR ''D'' (require_fp h (write_fvalue h xl (rd b) (\<lambda>p. (read_freg (rs1 b) p AND NOT
       0x8000000000000000) OR (NOT (read_freg (rs2 b) p) AND 0x8000000000000000)) (npc_of 4 xl pc)))"

definition insn_fsgnjx_d :: insn where
  "insn_fsgnjx_d h xl pc b =
     require_extension h CHR ''D'' (require_fp h (write_fvalue h xl (rd b) (\<lambda>p. read_freg (rs1 b) p XOR (read_freg (rs2
       b) p AND 0x8000000000000000)) (npc_of 4 xl pc)))"

definition insn_fsqrt_d :: insn where
  "insn_fsqrt_d h xl pc b =
     require_extension h CHR ''D'' (require_fp h (fp_frd h xl b (\<lambda>p rm s. f64_sqrt (read_freg (rs1 b) p) s) (npc_of 4 xl
       pc)))"

definition insn_fmadd_d :: insn where
  "insn_fmadd_d h xl pc b =
     require_extension h CHR ''D'' (require_fp h (fp_frd h xl b (\<lambda>p rm s. f64_mulAdd (read_freg (rs1 b) p) (read_freg
       (rs2 b) p) (read_freg (rs3 b) p) s) (npc_of 4 xl pc)))"

definition insn_fmsub_d :: insn where
  "insn_fmsub_d h xl pc b =
     require_extension h CHR ''D'' (require_fp h (fp_frd h xl b (\<lambda>p rm s. f64_mulAdd (read_freg (rs1 b) p) (read_freg
       (rs2 b) p) (read_freg (rs3 b) p XOR 0x8000000000000000) s) (npc_of 4 xl pc)))"

definition insn_fnmadd_d :: insn where
  "insn_fnmadd_d h xl pc b =
     require_extension h CHR ''D'' (require_fp h (fp_frd h xl b (\<lambda>p rm s. f64_mulAdd (read_freg (rs1 b) p XOR
       0x8000000000000000) (read_freg (rs2 b) p) (read_freg (rs3 b) p XOR 0x8000000000000000) s) (npc_of 4 xl pc)))"

definition insn_fnmsub_d :: insn where
  "insn_fnmsub_d h xl pc b =
     require_extension h CHR ''D'' (require_fp h (fp_frd h xl b (\<lambda>p rm s. f64_mulAdd (read_freg (rs1 b) p XOR
       0x8000000000000000) (read_freg (rs2 b) p) (read_freg (rs3 b) p) s) (npc_of 4 xl pc)))"

definition insn_fcvt_w_d :: insn where
  "insn_fcvt_w_d h xl pc b =
     require_extension h CHR ''D'' (require_fp h (fp_rd h xl b (\<lambda>p rm s. apfst (sext32 \<circ> word_of_int) (f64_to_i32
       (read_freg (rs1 b) p) rm True s)) (npc_of 4 xl pc)))"

definition insn_fcvt_d_w :: insn where
  "insn_fcvt_d_w h xl pc b =
     require_extension h CHR ''D'' (require_fp h (fp_frd h xl b (\<lambda>p rm s. i32_to_f64 (ucast (read_reg (rs1 b) p) :: u32)
       s) (npc_of 4 xl pc)))"

definition insn_fcvt_wu_d :: insn where
  "insn_fcvt_wu_d h xl pc b =
     require_extension h CHR ''D'' (require_fp h (fp_rd h xl b (\<lambda>p rm s. apfst (sext32 \<circ> id) (f64_to_ui32
       (read_freg (rs1 b) p) rm True s)) (npc_of 4 xl pc)))"

definition insn_fcvt_d_wu :: insn where
  "insn_fcvt_d_wu h xl pc b =
     require_extension h CHR ''D'' (require_fp h (fp_frd h xl b (\<lambda>p rm s. ui32_to_f64 (ucast (read_reg (rs1 b) p) ::
       u32) s) (npc_of 4 xl pc)))"

definition insn_fcvt_l_d :: insn where
  "insn_fcvt_l_d h xl pc b =
     require_extension h CHR ''D'' (require (xl = 64) (require_fp h (fp_rd h xl b (\<lambda>p rm s. apfst word_of_int
       (f64_to_i64 (read_freg (rs1 b) p) rm True s)) (npc_of 4 xl pc))))"

definition insn_fcvt_d_l :: insn where
  "insn_fcvt_d_l h xl pc b =
     require_extension h CHR ''D'' (require (xl = 64) (require_fp h (fp_frd h xl b (\<lambda>p rm s. i64_to_f64 (read_reg (rs1
       b) p) s) (npc_of 4 xl pc))))"

definition insn_fcvt_lu_d :: insn where
  "insn_fcvt_lu_d h xl pc b =
     require_extension h CHR ''D'' (require (xl = 64) (require_fp h (fp_rd h xl b (\<lambda>p rm s. apfst id (f64_to_ui64
       (read_freg (rs1 b) p) rm True s)) (npc_of 4 xl pc))))"

definition insn_fcvt_d_lu :: insn where
  "insn_fcvt_d_lu h xl pc b =
     require_extension h CHR ''D'' (require (xl = 64) (require_fp h (fp_frd h xl b (\<lambda>p rm s. ui64_to_f64 (read_reg (rs1
       b) p) s) (npc_of 4 xl pc))))"

definition insn_fcvt_d_s :: insn where
  "insn_fcvt_d_s h xl pc b =
     require_extension h CHR ''D'' (require_fp h (fp_frd h xl b (\<lambda>p rm s. f32_to_f64 (ucast (read_freg (rs1 b) p) ::
       u32) s) (npc_of 4 xl pc)))"

definition insn_fcvt_s_d :: insn where
  "insn_fcvt_s_d h xl pc b =
     require_extension h CHR ''D'' (require_fp h (fp_frd h xl b (\<lambda>p rm s. apfst ucast (f64_to_f32 (read_freg (rs1 b) p)
       s)) (npc_of 4 xl pc)))"

definition insn_fld :: insn where
  "insn_fld h xl pc b =
     require_extension h CHR ''D'' (require_fp h (fload_value h xl (rd b) True 8 (\<lambda>p. read_reg (rs1 b) p + i_imm b)
       (npc_of 4 xl pc)))"

definition insn_flw :: insn where
  "insn_flw h xl pc b =
     require_extension h CHR ''F'' (require_fp h (fload_value h xl (rd b) False 4 (\<lambda>p. read_reg (rs1 b) p + i_imm b)
       (npc_of 4 xl pc)))"

definition insn_fsd :: insn where
  "insn_fsd h xl pc b =
     require_extension h CHR ''D'' (require_fp h (store_value h 8 (\<lambda>p. read_reg (rs1 b) p + s_imm b) (\<lambda>p.
       read_freg (rs2 b) p) (npc_of 4 xl pc)))"

definition insn_fsw :: insn where
  "insn_fsw h xl pc b =
     require_extension h CHR ''F'' (require_fp h (store_value h 4 (\<lambda>p. read_reg (rs1 b) p + s_imm b) (\<lambda>p.
       read_freg (rs2 b) p) (npc_of 4 xl pc)))"

definition insn_fmv_d_x :: insn where
  "insn_fmv_d_x h xl pc b =
     require_extension h CHR ''D'' (require (xl = 64) (require_fp h (write_fvalue h xl (rd b) (\<lambda>p. read_reg (rs1 b) p)
       (npc_of 4 xl pc))))"

definition insn_fmv_s_x :: insn where
  "insn_fmv_s_x h xl pc b =
     require_extension h CHR ''F'' (require_fp h (write_fvalue h xl (rd b) (\<lambda>p. zext32 (read_reg (rs1 b) p)) (npc_of 4
       xl pc)))"

definition insn_fmv_x_d :: insn where
  "insn_fmv_x_d h xl pc b =
     require_extension h CHR ''D'' (require (xl = 64) (require_fp h (write_value h (rd b) (\<lambda>p. read_freg (rs1 b) p)
       (npc_of 4 xl pc))))"

definition insn_fmv_x_s :: insn where
  "insn_fmv_x_s h xl pc b =
     require_extension h CHR ''F'' (require_fp h (write_value h (rd b) (\<lambda>p. sext32 (read_freg (rs1 b) p)) (npc_of 4 xl
       pc)))"

subsection \<open>The functions by name\<close>

text \<open>The functions \<^verbatim>\<open>rv32_NAME\<close> and \<^verbatim>\<open>rv64_NAME\<close> of \<^verbatim>\<open>insn_template.cc\<close>; the width is their argument.\<close>

definition integer_insns :: "(string \<times> insn) list" where
  "integer_insns =
    [(''add'', insn_add), (''addi'', insn_addi), (''addiw'', insn_addiw), (''addw'', insn_addw), (''and'', insn_and),
     (''andi'', insn_andi), (''auipc'', insn_auipc), (''beq'', insn_beq), (''bge'', insn_bge), (''bgeu'', insn_bgeu),
     (''blt'', insn_blt), (''bltu'', insn_bltu), (''bne'', insn_bne), (''jal'', insn_jal), (''jalr'', insn_jalr),
     (''lb'', insn_lb), (''lbu'', insn_lbu), (''ld'', insn_ld), (''lh'', insn_lh), (''lhu'', insn_lhu),
     (''lw'', insn_lw), (''lwu'', insn_lwu), (''lui'', insn_lui), (''or'', insn_or), (''ori'', insn_ori),
     (''sb'', insn_sb), (''sd'', insn_sd), (''sh'', insn_sh), (''sw'', insn_sw), (''sll'', insn_sll),
     (''slli'', insn_slli), (''slliw'', insn_slliw), (''sllw'', insn_sllw), (''slt'', insn_slt), (''slti'', insn_slti),
     (''sltiu'', insn_sltiu), (''sltu'', insn_sltu), (''sra'', insn_sra), (''srai'', insn_srai),
     (''sraiw'', insn_sraiw), (''sraw'', insn_sraw), (''srl'', insn_srl), (''srli'', insn_srli),
     (''srliw'', insn_srliw), (''srlw'', insn_srlw), (''sub'', insn_sub), (''subw'', insn_subw), (''xor'', insn_xor),
     (''xori'', insn_xori), (''fence'', insn_fence), (''wfi'', insn_wfi), (''fence_i'', insn_fence_i)]"

lemmas integer_defs = insn_add_def insn_addi_def insn_addiw_def insn_addw_def insn_and_def insn_andi_def
  insn_auipc_def insn_beq_def insn_bge_def insn_bgeu_def insn_blt_def insn_bltu_def insn_bne_def insn_jal_def
  insn_jalr_def insn_lb_def insn_lbu_def insn_ld_def insn_lh_def insn_lhu_def insn_lw_def insn_lwu_def insn_lui_def
  insn_or_def insn_ori_def insn_sb_def insn_sd_def insn_sh_def insn_sw_def insn_sll_def insn_slli_def insn_slliw_def
  insn_sllw_def insn_slt_def insn_slti_def insn_sltiu_def insn_sltu_def insn_sra_def insn_srai_def insn_sraiw_def
  insn_sraw_def insn_srl_def insn_srli_def insn_srliw_def insn_srlw_def insn_sub_def insn_subw_def insn_xor_def
  insn_xori_def insn_fence_def insn_wfi_def insn_fence_i_def

definition muldiv_insns :: "(string \<times> insn) list" where
  "muldiv_insns =
    [(''mul'', insn_mul), (''mulw'', insn_mulw), (''mulh'', insn_mulh), (''mulhsu'', insn_mulhsu),
     (''mulhu'', insn_mulhu), (''div'', insn_div), (''divu'', insn_divu), (''divuw'', insn_divuw),
     (''divw'', insn_divw), (''rem'', insn_rem), (''remu'', insn_remu), (''remuw'', insn_remuw), (''remw'', insn_remw)]"

lemmas muldiv_defs = insn_mul_def insn_mulw_def insn_mulh_def insn_mulhsu_def insn_mulhu_def insn_div_def
  insn_divu_def insn_divuw_def insn_divw_def insn_rem_def insn_remu_def insn_remuw_def insn_remw_def

definition atomic_insns :: "(string \<times> insn) list" where
  "atomic_insns =
    [(''amoadd_w'', insn_amoadd_w), (''amoadd_d'', insn_amoadd_d), (''amoand_w'', insn_amoand_w),
     (''amoand_d'', insn_amoand_d), (''amoor_w'', insn_amoor_w), (''amoor_d'', insn_amoor_d),
     (''amoxor_w'', insn_amoxor_w), (''amoxor_d'', insn_amoxor_d), (''amoswap_w'', insn_amoswap_w),
     (''amoswap_d'', insn_amoswap_d), (''amomax_w'', insn_amomax_w), (''amomax_d'', insn_amomax_d),
     (''amomin_w'', insn_amomin_w), (''amomin_d'', insn_amomin_d), (''amomaxu_w'', insn_amomaxu_w),
     (''amomaxu_d'', insn_amomaxu_d), (''amominu_w'', insn_amominu_w), (''amominu_d'', insn_amominu_d),
     (''lr_w'', insn_lr_w), (''sc_w'', insn_sc_w), (''lr_d'', insn_lr_d), (''sc_d'', insn_sc_d)]"

lemmas atomic_defs = insn_amoadd_w_def insn_amoadd_d_def insn_amoand_w_def insn_amoand_d_def insn_amoor_w_def
  insn_amoor_d_def insn_amoxor_w_def insn_amoxor_d_def insn_amoswap_w_def insn_amoswap_d_def insn_amomax_w_def
  insn_amomax_d_def insn_amomin_w_def insn_amomin_d_def insn_amomaxu_w_def insn_amomaxu_d_def insn_amominu_w_def
  insn_amominu_d_def insn_lr_w_def insn_sc_w_def insn_lr_d_def insn_sc_d_def

definition compressed_insns :: "(string \<times> insn) list" where
  "compressed_insns =
    [(''c_add'', insn_c_add), (''c_addi'', insn_c_addi), (''c_addi4spn'', insn_c_addi4spn), (''c_addw'', insn_c_addw),
     (''c_and'', insn_c_and), (''c_andi'', insn_c_andi), (''c_beqz'', insn_c_beqz), (''c_bnez'', insn_c_bnez),
     (''c_ebreak'', insn_c_ebreak), (''c_fld'', insn_c_fld), (''c_fldsp'', insn_c_fldsp), (''c_flw'', insn_c_flw),
     (''c_flwsp'', insn_c_flwsp), (''c_fsd'', insn_c_fsd), (''c_fsdsp'', insn_c_fsdsp), (''c_fsw'', insn_c_fsw),
     (''c_fswsp'', insn_c_fswsp), (''c_j'', insn_c_j), (''c_jal'', insn_c_jal), (''c_jalr'', insn_c_jalr),
     (''c_jr'', insn_c_jr), (''c_li'', insn_c_li), (''c_lui'', insn_c_lui), (''c_lw'', insn_c_lw),
     (''c_lwsp'', insn_c_lwsp), (''c_mv'', insn_c_mv), (''c_or'', insn_c_or), (''c_slli'', insn_c_slli),
     (''c_srai'', insn_c_srai), (''c_srli'', insn_c_srli), (''c_sub'', insn_c_sub), (''c_subw'', insn_c_subw),
     (''c_sw'', insn_c_sw), (''c_swsp'', insn_c_swsp), (''c_xor'', insn_c_xor)]"

lemmas compressed_defs = insn_c_add_def insn_c_addi_def insn_c_addi4spn_def insn_c_addw_def insn_c_and_def
  insn_c_andi_def insn_c_beqz_def insn_c_bnez_def insn_c_ebreak_def insn_c_fld_def insn_c_fldsp_def insn_c_flw_def
  insn_c_flwsp_def insn_c_fsd_def insn_c_fsdsp_def insn_c_fsw_def insn_c_fswsp_def insn_c_j_def insn_c_jal_def
  insn_c_jalr_def insn_c_jr_def insn_c_li_def insn_c_lui_def insn_c_lw_def insn_c_lwsp_def insn_c_mv_def insn_c_or_def
  insn_c_slli_def insn_c_srai_def insn_c_srli_def insn_c_sub_def insn_c_subw_def insn_c_sw_def insn_c_swsp_def
  insn_c_xor_def

definition float_insns :: "(string \<times> insn) list" where
  "float_insns =
    [(''fadd_s'', insn_fadd_s), (''fsub_s'', insn_fsub_s), (''fmul_s'', insn_fmul_s), (''fdiv_s'', insn_fdiv_s),
     (''feq_s'', insn_feq_s), (''fle_s'', insn_fle_s), (''flt_s'', insn_flt_s), (''fclass_s'', insn_fclass_s),
     (''fmax_s'', insn_fmax_s), (''fmin_s'', insn_fmin_s), (''fsgnj_s'', insn_fsgnj_s), (''fsgnjn_s'', insn_fsgnjn_s),
     (''fsgnjx_s'', insn_fsgnjx_s), (''fsqrt_s'', insn_fsqrt_s), (''fmadd_s'', insn_fmadd_s),
     (''fmsub_s'', insn_fmsub_s), (''fnmadd_s'', insn_fnmadd_s), (''fnmsub_s'', insn_fnmsub_s),
     (''fcvt_w_s'', insn_fcvt_w_s), (''fcvt_s_w'', insn_fcvt_s_w), (''fcvt_wu_s'', insn_fcvt_wu_s),
     (''fcvt_s_wu'', insn_fcvt_s_wu), (''fcvt_l_s'', insn_fcvt_l_s), (''fcvt_s_l'', insn_fcvt_s_l),
     (''fcvt_lu_s'', insn_fcvt_lu_s), (''fcvt_s_lu'', insn_fcvt_s_lu), (''fadd_d'', insn_fadd_d),
     (''fsub_d'', insn_fsub_d), (''fmul_d'', insn_fmul_d), (''fdiv_d'', insn_fdiv_d), (''feq_d'', insn_feq_d),
     (''fle_d'', insn_fle_d), (''flt_d'', insn_flt_d), (''fclass_d'', insn_fclass_d), (''fmax_d'', insn_fmax_d),
     (''fmin_d'', insn_fmin_d), (''fsgnj_d'', insn_fsgnj_d), (''fsgnjn_d'', insn_fsgnjn_d),
     (''fsgnjx_d'', insn_fsgnjx_d), (''fsqrt_d'', insn_fsqrt_d), (''fmadd_d'', insn_fmadd_d),
     (''fmsub_d'', insn_fmsub_d), (''fnmadd_d'', insn_fnmadd_d), (''fnmsub_d'', insn_fnmsub_d),
     (''fcvt_w_d'', insn_fcvt_w_d), (''fcvt_d_w'', insn_fcvt_d_w), (''fcvt_wu_d'', insn_fcvt_wu_d),
     (''fcvt_d_wu'', insn_fcvt_d_wu), (''fcvt_l_d'', insn_fcvt_l_d), (''fcvt_d_l'', insn_fcvt_d_l),
     (''fcvt_lu_d'', insn_fcvt_lu_d), (''fcvt_d_lu'', insn_fcvt_d_lu), (''fcvt_d_s'', insn_fcvt_d_s),
     (''fcvt_s_d'', insn_fcvt_s_d), (''fld'', insn_fld), (''flw'', insn_flw), (''fsd'', insn_fsd), (''fsw'', insn_fsw),
     (''fmv_d_x'', insn_fmv_d_x), (''fmv_s_x'', insn_fmv_s_x), (''fmv_x_d'', insn_fmv_x_d),
     (''fmv_x_s'', insn_fmv_x_s)]"

lemmas float_defs = insn_fadd_s_def insn_fsub_s_def insn_fmul_s_def insn_fdiv_s_def insn_feq_s_def insn_fle_s_def
  insn_flt_s_def insn_fclass_s_def insn_fmax_s_def insn_fmin_s_def insn_fsgnj_s_def insn_fsgnjn_s_def
  insn_fsgnjx_s_def insn_fsqrt_s_def insn_fmadd_s_def insn_fmsub_s_def insn_fnmadd_s_def insn_fnmsub_s_def
  insn_fcvt_w_s_def insn_fcvt_s_w_def insn_fcvt_wu_s_def insn_fcvt_s_wu_def insn_fcvt_l_s_def insn_fcvt_s_l_def
  insn_fcvt_lu_s_def insn_fcvt_s_lu_def insn_fadd_d_def insn_fsub_d_def insn_fmul_d_def insn_fdiv_d_def insn_feq_d_def
  insn_fle_d_def insn_flt_d_def insn_fclass_d_def insn_fmax_d_def insn_fmin_d_def insn_fsgnj_d_def insn_fsgnjn_d_def
  insn_fsgnjx_d_def insn_fsqrt_d_def insn_fmadd_d_def insn_fmsub_d_def insn_fnmadd_d_def insn_fnmsub_d_def
  insn_fcvt_w_d_def insn_fcvt_d_w_def insn_fcvt_wu_d_def insn_fcvt_d_wu_def insn_fcvt_l_d_def insn_fcvt_d_l_def
  insn_fcvt_lu_d_def insn_fcvt_d_lu_def insn_fcvt_d_s_def insn_fcvt_s_d_def insn_fld_def insn_flw_def insn_fsd_def
  insn_fsw_def insn_fmv_d_x_def insn_fmv_s_x_def insn_fmv_x_d_def insn_fmv_x_s_def

definition privileged_insns :: "(string \<times> insn) list" where
  "privileged_insns =
    [(''mret'', \<lambda>h xl pc b. lift_hart h insn_mret), (''sret'', \<lambda>h xl pc b. lift_hart h insn_sret),
     (''dret'', \<lambda>h xl pc b. lift_hart h insn_dret), (''ecall'', \<lambda>h xl pc b. lift_hart h insn_ecall),
     (''ebreak'', \<lambda>h xl pc b. lift_hart h insn_ebreak),
     (''sfence_vm'', \<lambda>h xl pc b. lift_hart h (insn_sfence_vm (npc_of 4 xl pc))),
     (''csrrw'', \<lambda>h xl pc b. lift_csr h (\<lambda>dbg. insn_csrrw dbg xl (npc_of 4 xl pc) b)),
     (''csrrs'', \<lambda>h xl pc b. lift_csr h (\<lambda>dbg. insn_csrrs dbg xl (npc_of 4 xl pc) b)),
     (''csrrc'', \<lambda>h xl pc b. lift_csr h (\<lambda>dbg. insn_csrrc dbg xl (npc_of 4 xl pc) b)),
     (''csrrwi'', \<lambda>h xl pc b. lift_csr h (\<lambda>dbg. insn_csrrwi dbg xl (npc_of 4 xl pc) b)),
     (''csrrsi'', \<lambda>h xl pc b. lift_csr h (\<lambda>dbg. insn_csrrsi dbg xl (npc_of 4 xl pc) b)),
     (''csrrci'', \<lambda>h xl pc b. lift_csr h (\<lambda>dbg. insn_csrrci dbg xl (npc_of 4 xl pc) b))]"

definition insn_table :: "(string \<times> insn) list" where
  "insn_table = integer_insns @ muldiv_insns @ atomic_insns @ compressed_insns @ float_insns @ privileged_insns"

definition insn_function :: "string \<Rightarrow> insn" where
  "insn_function name = (case map_of insn_table name of Some f \<Rightarrow> f | None \<Rightarrow> (\<lambda>h xl pc b. throw trap_illegal_instruction))"

end
