(* ===== verification/Riscv_Machine.thy ===== *)
theory Riscv_Machine
  imports Riscv_Tlb Riscv_Insns
begin

text \<open>
  The invariant of the whole machine and that memory accesses, devices and the privileged instructions keep it: every
  hart satisfies its own invariant and holds values of its width, sign-extended, in its integer registers.
\<close>

subsection \<open>Values of the width\<close>

definition canon :: "nat \<Rightarrow> u64 \<Rightarrow> bool" where
  "canon xl v \<longleftrightarrow> sext_xlen xl v = v"

lemma bit_sext_xlen: "xl \<in> {32, 64} \<Longrightarrow> bit (sext_xlen xl v) n \<longleftrightarrow> n < 64 \<and> bit v (if n < xl then n else xl - 1)"
  by (auto simp: sext_xlen_def bit_asr bit_push_bit_iff dest: bit_imp_le_length)

lemma canon_iff:
  assumes xl: "xl \<in> {32, 64}"
  shows "canon xl v \<longleftrightarrow> (\<forall>n<64. xl \<le> n \<longrightarrow> bit v n = bit v (xl - 1))"
proof
  assume c: "canon xl v"
  show "\<forall>n<64. xl \<le> n \<longrightarrow> bit v n = bit v (xl - 1)"
  proof (intro allI impI)
    fix n
    assume n: "n < 64" "xl \<le> n"
    then show "bit v n = bit v (xl - 1)" using bit_sext_xlen [OF xl, of v n] c by (simp add: canon_def)
  qed
next
  assume a: "\<forall>n<64. xl \<le> n \<longrightarrow> bit v n = bit v (xl - 1)"
  show "canon xl v" unfolding canon_def
  proof (rule bit_word_eqI)
    fix n
    assume "n < LENGTH(64)"
    then show "bit (sext_xlen xl v) n = bit v n" using a by (cases "n < xl") (simp_all add: bit_sext_xlen [OF xl])
  qed
qed

lemma canon_64 [simp]: "canon 64 v"
  by (simp add: canon_def sext_xlen_def)

lemma bit_sext32: "bit (sext32 v) n \<longleftrightarrow> n < 64 \<and> bit v (if n < 32 then n else 31)"
  by (auto simp: sext32_def bit_scast bit_simps)

named_theorems canons "values of the width of a hart"

lemma canon_basic [canons]:
  assumes "xl \<in> {32, 64}"
  shows "canon xl (sext_xlen xl v)" "canon xl (sext32 v)" "canon xl 0" "canon xl 1" "canon xl (- 1)" "canon xl (of_bool b)"
    "canon xl v \<Longrightarrow> canon xl w \<Longrightarrow> canon xl (v AND w)" "canon xl v \<Longrightarrow> canon xl w \<Longrightarrow> canon xl (v OR w)"
    "canon xl v \<Longrightarrow> canon xl w \<Longrightarrow> canon xl (v XOR w)"
  using assms by (auto simp: canon_iff bit_sext_xlen bit_sext32 bit_and_iff bit_or_iff bit_xor_iff bit_1_iff)

lemma canon_small:
  assumes "xl \<in> {32, 64}" "\<And>n. bit v n \<Longrightarrow> n < 31"
  shows "canon xl v"
proof -
  have "\<not> bit v n" if "31 \<le> n" for n using assms(2) [of n] that by auto
  then show ?thesis using assms(1) by (auto simp: canon_iff)
qed

text \<open>The immediates of an instruction of 32 bits, which is held sign-extended, and of a compressed one.\<close>

lemma canon_imm [canons]:
  assumes "xl \<in> {32, 64}" "sext32 b = b"
  shows "canon xl (i_imm b)" "canon xl (u_imm b)"
proof -
  have e: "bit b n = bit b 31" if n: "31 \<le> n" "n < 64" for n
  proof (cases "n < 32")
    case True
    then have "n = 31" using n by simp
    then show ?thesis by simp
  next
    case False
    show ?thesis using bit_sext32 [of b n, unfolded assms(2) if_not_P [OF False]] n(2) by blast
  qed
  have c: "canon xl v" if v: "\<And>n. 31 \<le> n \<Longrightarrow> n < 64 \<Longrightarrow> bit v n = bit b 31" for v
  proof (cases "xl = 64")
    case False
    then have xl: "xl = 32" using assms(1) by simp
    have "bit v n = bit v 31" if "n < 64" "32 \<le> n" for n using v [of n] v [of 31] that by simp
    then show ?thesis unfolding canon_iff [OF assms(1)] by (simp add: xl)
  qed simp
  show "canon xl (i_imm b)"
  proof (rule c)
    fix n :: nat
    assume n: "31 \<le> n" "n < 64"
    show "bit (i_imm b) n = bit b 31"
      using n e [of "n + 20"] e [of 63] unfolding bit_i_imm by (cases "n < 44") simp_all
  qed
  show "canon xl (u_imm b)"
  proof (rule c)
    fix n :: nat
    assume n: "31 \<le> n" "n < 64"
    show "bit (u_imm b) n = bit b 31" using n e [of n] unfolding bit_u_imm by simp
  qed
qed

lemma bit_rvc_imm: "bit (rvc_imm b) n \<longleftrightarrow> n < 64 \<and> bit b (if n < 5 then 2 + n else 12)"
proof -
  have "rvc_imm b = insn_x b 2 5 OR push_bit 5 (insn_xs b 12 1)"
    unfolding rvc_imm_def by (rule add_disjoint) (auto simp: imm_bits)
  then show ?thesis by (auto simp: imm_bits bit_insn_xs)
qed

lemma canon_rvc_imm [canons]:
  assumes "xl \<in> {32, 64}"
  shows "canon xl (rvc_imm b)" "canon xl (push_bit 12 (rvc_imm b))"
  using assms by (auto simp: canon_iff bit_rvc_imm bit_shl)

subsection \<open>The invariant\<close>

definition proc_ok :: "processor_t \<Rightarrow> bool" where
  "proc_ok p \<longleftrightarrow> hart_ok p \<and> list_all (canon (max_xlen p)) (XPR (state p))"

text \<open>The exception flags of SoftFloat are the five of \<^verbatim>\<open>fflags\<close>.\<close>

definition machine_ok :: "sim_t \<Rightarrow> bool" where
  "machine_ok s \<longleftrightarrow> (\<forall>p \<in> set (procs s). proc_ok p) \<and> softfloat_exceptionFlags (fpu s) AND 0xE0 = 0"

text \<open>The machine seen by an instruction of hart \<open>h\<close>, compiled for its width.\<close>

definition machine_inv :: "nat \<Rightarrow> nat \<Rightarrow> sim_t \<Rightarrow> bool" where
  "machine_inv h xl s \<longleftrightarrow> machine_ok s \<and> h < length (procs s) \<and> max_xlen (get_proc h s) = xl"

definition proc_step :: "processor_t \<Rightarrow> processor_t \<Rightarrow> bool" where
  "proc_step p q \<longleftrightarrow> proc_ok q \<and> max_xlen q = max_xlen p"

lemma machine_inv_hart:
  assumes "machine_inv h xl s"
  shows "proc_ok (get_proc h s)" "max_xlen (get_proc h s) = xl" "xl \<in> {32, 64}"
  using assms by (auto simp: machine_inv_def machine_ok_def get_proc_def proc_ok_def hart_ok_def dest: nth_mem)

lemma machine_inv_procs:
  assumes "machine_inv h xl s" "length ps = length (procs s)" "\<And>i. i < length ps \<Longrightarrow> proc_step (procs s ! i) (ps ! i)" "procs s' = ps" "fpu s' = fpu s"
  shows "machine_inv h xl s'"
  using assms by (auto simp: machine_inv_def machine_ok_def get_proc_def proc_step_def in_set_conv_nth)

lemma machine_inv_update:
  assumes inv: "machine_inv h xl s" and f: "proc_ok (get_proc i s) \<Longrightarrow> proc_step (get_proc i s) (f (get_proc i s))"
  shows "machine_inv h xl (update_proc i f s)"
proof (rule machine_inv_procs [OF inv, of "(procs s)[i := f (procs s ! i)]"])
  fix j
  assume j: "j < length ((procs s)[i := f (procs s ! i)])"
  then have "proc_ok (procs s ! j)" using inv by (auto simp: machine_inv_def machine_ok_def)
  then show "proc_step (procs s ! j) ((procs s)[i := f (procs s ! i)] ! j)"
    using f j by (cases "i = j") (auto simp: get_proc_def proc_step_def)
qed (simp_all add: update_proc_def)

lemma machine_inv_frame: "machine_inv h xl s \<Longrightarrow> procs s' = procs s \<Longrightarrow> fpu s' = fpu s \<Longrightarrow> machine_inv h xl s'"
  by (simp add: machine_inv_def machine_ok_def get_proc_def)

lemma proc_step_regs: "proc_ok p \<Longrightarrow> hart_ok q \<Longrightarrow> XPR (state q) = XPR (state p) \<Longrightarrow> max_xlen q = max_xlen p \<Longrightarrow> proc_step p q"
  by (simp add: proc_ok_def proc_step_def)

lemma proc_step_mmu: "proc_ok p \<Longrightarrow> proc_step p (p\<lparr>mmu := m\<rparr>)"
  by (simp add: proc_ok_def proc_step_def hart_ok_def)

lemma proc_step_mip: "proc_ok p \<Longrightarrow> proc_step p (update_state (\<lambda>s. s\<lparr>mip := a s\<rparr>) p)"
  by (rule proc_step_regs) (simp_all add: free_fields_ok proc_ok_def, simp_all add: update_state_def)

lemma proc_step_write_reg: "proc_ok p \<Longrightarrow> canon (max_xlen p) v \<Longrightarrow> proc_step p (write_reg r v p)"
  using set_update_subset_insert [of "XPR (state p)" "unat r" v]
  by (auto simp: proc_ok_def proc_step_def write_reg_ok) (auto simp: write_reg_def update_state_def regfile_write_def list_all_iff)

subsection \<open>Memory accesses and devices\<close>

lemma rtc_increment_inv: "machine_inv h xl s \<Longrightarrow> machine_inv h xl (rtc_increment inc s)"
proof -
  assume inv: "machine_inv h xl s"
  show ?thesis
  proof (rule machine_inv_procs [OF inv, of "procs (rtc_increment inc s)"])
    fix i
    assume "i < length (procs (rtc_increment inc s))"
    then have i: "i < length (procs s)" by (simp add: rtc_increment_def Let_def)
    then have "proc_ok (procs s ! i)" using inv by (auto simp: machine_inv_def machine_ok_def)
    then show "proc_step (procs s ! i) (procs (rtc_increment inc s) ! i)"
      using i by (simp add: rtc_increment_def Let_def timer_pending_def proc_step_mip)
  qed (simp_all add: rtc_increment_def Let_def)
qed

lemma hart_device_inv:
  assumes inv: "machine_inv h xl s" and st: "processor_store a bs (procs s ! i) = Some p"
  shows "machine_inv h xl (s\<lparr>procs := (procs s)[i := p]\<rparr>)"
proof -
  have "p = update_state (\<lambda>s. s\<lparr>mip := (mip s AND NOT MIP_MSIP) OR (if bs ! 0 AND 1 \<noteq> 0 then MIP_MSIP else 0)\<rparr>) (get_proc i s)"
    using st by (auto simp: processor_store_def get_proc_def split: if_splits)
  then have "machine_inv h xl (update_proc i (\<lambda>_. p) s)" using proc_step_mip by (intro machine_inv_update [OF inv]) simp
  then show ?thesis by (simp add: update_proc_def)
qed

lemma device_store_inv: "machine_inv h xl s \<Longrightarrow> device_store dev a bs s = Some s' \<Longrightarrow> machine_inv h xl s'"
proof (cases dev)
  case Debug_module
  assume "machine_inv h xl s" "device_store dev a bs s = Some s'"
  then show ?thesis
    by (auto simp: Debug_module device_store_def debug_store_def Let_def split: if_splits intro: machine_inv_frame)
next
  case Rtc
  assume a: "machine_inv h xl s" "device_store dev a bs s = Some s'"
  then obtain r where "s' = rtc_increment 0 (s\<lparr>rtc_regs := r\<rparr>)"
    by (auto simp: Rtc device_store_def rtc_store_def split: if_splits)
  moreover have "machine_inv h xl (s\<lparr>rtc_regs := r\<rparr>)" by (rule machine_inv_frame [OF a(1)]) simp_all
  ultimately show ?thesis using rtc_increment_inv by simp
next
  case (Hart i)
  assume "machine_inv h xl s" "device_store dev a bs s = Some s'"
  then show ?thesis by (auto simp: Hart device_store_def intro: hart_device_inv)
qed (simp add: device_store_def rom_store_def)

lemma mmio_store_inv: "machine_inv h xl s \<Longrightarrow> mmio_store a bs s = Some s' \<Longrightarrow> machine_inv h xl s'"
  by (auto simp: mmio_store_def bus_store_def split: if_splits option.splits intro: device_store_inv)

lemma keeps_translate [hoare_intro]: "keeps_inv (machine_inv h xl) (translate h v type)"
  unfolding keeps_inv_def
proof (intro allI impI)
  fix s
  assume "machine_inv h xl s"
  moreover obtain m where "snd (translate h v type s) = s\<lparr>mem := m\<rparr>" using translate_state [of h v type s] by blast
  ultimately show "machine_inv h xl (snd (translate h v type s))" by (auto intro: machine_inv_frame)
qed

lemma keeps_update_mmu [hoare_intro]: "keeps_inv (machine_inv h xl) (update_mmu i f)"
  by (auto simp: keeps_inv_def update_mmu_def modify_def intro!: machine_inv_update proc_step_mmu)

lemma keeps_check_trigger' [hoare_intro]: "keeps_inv (machine_inv h xl) (check_trigger h op a d)"
proof -
  have "keeps_inv (machine_inv h xl) (trigger_exception h op a d)"
    by (auto simp: keeps_inv_def trigger_exception_def Let_def split: option.splits)
  then show ?thesis unfolding check_trigger_def by (intro hoare_intro)
qed

lemma keeps_check_trigger_bytes' [hoare_intro]: "keeps_inv (machine_inv h xl) (check_trigger_bytes h op a bs)"
  unfolding check_trigger_bytes_def by (intro hoare_intro)

lemma keeps_load [hoare_intro]: "keeps_inv (machine_inv h xl) (load_func sg len h a)"
  unfolding load_func_def load_slow_path_def trace_or_refill_def Let_def by (intro hoare_intro)

lemma keeps_write_mem [hoare_intro]: "keeps_inv (machine_inv h xl) (modify (write_mem a bs))"
  by (auto simp: keeps_inv_def modify_def write_mem_def intro: machine_inv_frame)

lemma keeps_mmio_store [hoare_intro]:
  "keeps_inv (machine_inv h xl) (bnd (gets (mmio_store p bs)) (\<lambda>r. case r of Some s' \<Rightarrow> modify (\<lambda>_. s') | None \<Rightarrow> throw t))"
  by (auto simp: keeps_inv_def bnd_def gets_def modify_def throw_def split: option.splits intro: mmio_store_inv)

lemma keeps_store [hoare_intro]: "keeps_inv (machine_inv h xl) (store_func len h a v)"
  unfolding store_func_def store_slow_path_def trace_or_refill_def Let_def by (intro hoare_intro)

lemma keeps_amo [hoare_intro]: "keeps_inv (machine_inv h xl) (amo_func len h a f)"
proof -
  have "keeps_inv (machine_inv h xl) (bnd (load_func False len h a) (\<lambda>lhs. bnd (store_func len h a (f lhs)) (\<lambda>_. return lhs)))"
    by (intro hoare_intro)
  then show ?thesis unfolding keeps_inv_def amo_func_def by (force split: prod.splits result.splits)
qed


subsection \<open>The privileged instructions leave the integer registers and the decoded instructions alone\<close>

type_synonym decoded = "decoder \<times> (u64 \<Rightarrow> string \<times> u64) \<times> nat"

definition cached :: "processor_t \<Rightarrow> decoded" where
  "cached p = (opcodes p, icache_data (mmu p), max_xlen p)"

lemma cached_simps [simp]: "cached (update_state f p) = cached p" "cached (mmu_flush_tlb p) = cached p" "cached (p\<lparr>xlen := x\<rparr>) = cached p"
  "cached (trigger_updated p) = cached p" "cached (write_reg r v p) = cached p"
  by (simp_all add: cached_def update_state_def mmu_flush_tlb_def flush_tlb_def flush_icache_def trigger_updated_def write_reg_def)

lemma cached_csr [simp]: "cached (set_mstatus v p) = cached p" "cached (dirty_fp_state p) = cached p" "cached (set_mip v p) = cached p"
  "cached (set_mie v p) = cached p" "cached (set_misa v p) = cached p" "cached (set_tdata1 v p) = cached p" "cached (set_tdata2 v p) = cached p"
  by (simp_all add: set_mstatus_def dirty_fp_state_def set_mip_def set_mie_def set_misa_def set_tdata1_def set_tdata2_def Let_def,
      simp_all add: cached_def)

definition regs_kept :: "processor_t \<Rightarrow> processor_t \<Rightarrow> bool" where
  "regs_kept p q \<longleftrightarrow> XPR (state q) = XPR (state p) \<and> max_xlen q = max_xlen p \<and> cached q = cached p"

lemma regs_kept_refl [simp]: "regs_kept p p"
  by (simp add: regs_kept_def)

lemma regs_kept_trans: "regs_kept p q \<Longrightarrow> regs_kept q r \<Longrightarrow> regs_kept p r"
  by (simp add: regs_kept_def)

lemma regs_kept_mmu [simp]: "regs_kept p (mmu_flush_tlb q) \<longleftrightarrow> regs_kept p q" "regs_kept p (trigger_updated q) \<longleftrightarrow> regs_kept p q"
  by (simp_all add: regs_kept_def) (simp_all add: mmu_flush_tlb_def trigger_updated_def)

lemma regs_kept_set_mstatus [simp]: "regs_kept p (set_mstatus v q) \<longleftrightarrow> regs_kept p q"
proof -
  have "XPR (state (set_mstatus v q)) = XPR (state q)" by (subst set_mstatus_state) simp
  then show ?thesis by (simp add: regs_kept_def)
qed

lemma regs_kept_update [simp]: "(\<And>s. XPR (f s) = XPR s) \<Longrightarrow> regs_kept p (update_state f q) \<longleftrightarrow> regs_kept p q"
  by (simp add: regs_kept_def) (simp add: update_state_def)

lemma regs_kept_csr [simp]:
  "regs_kept p (dirty_fp_state q) \<longleftrightarrow> regs_kept p q" "regs_kept p (set_mip v q) \<longleftrightarrow> regs_kept p q"
  "regs_kept p (set_mie v q) \<longleftrightarrow> regs_kept p q" "regs_kept p (set_misa v q) \<longleftrightarrow> regs_kept p q"
  "regs_kept p (set_tdata1 v q) \<longleftrightarrow> regs_kept p q" "regs_kept p (set_tdata2 v q) \<longleftrightarrow> regs_kept p q"
  by (simp_all add: regs_kept_def)
    (simp_all add: dirty_fp_state_def set_mip_def set_mie_def set_misa_def set_tdata1_def set_tdata2_def Let_def update_state_def trigger_updated_def)

definition regs_kept_option :: "processor_t \<Rightarrow> processor_t option \<Rightarrow> bool" where
  "regs_kept_option p r \<longleftrightarrow> pred_option (regs_kept p) r"

lemma regs_kept_option_simps [simp]:
  "regs_kept_option p (Some q) \<longleftrightarrow> regs_kept p q" "regs_kept_option p None"
  by (simp_all add: regs_kept_option_def)

lemma regs_kept_option_if: "(c \<Longrightarrow> regs_kept_option p a) \<Longrightarrow> (\<not> c \<Longrightarrow> regs_kept_option p b) \<Longrightarrow> regs_kept_option p (if c then a else b)"
  by simp

lemma regs_kept_option_map:
  "regs_kept_option p r \<Longrightarrow> (\<And>q. regs_kept p q \<Longrightarrow> regs_kept p (f q)) \<Longrightarrow> regs_kept_option p (map_option f r)"
  by (cases r) simp_all

lemma set_csr_regs_kept: "regs_kept_option p (set_csr which v p)"
proof -
  have "regs_kept_option p (map_option (\<lambda>n. update_state (\<lambda>s. s\<lparr>sptbr := x n\<rparr>) p) r)" for x r by (cases r) simp_all
  then show ?thesis
    unfolding set_csr_def Let_def by (intro regs_kept_option_if; (simp only: regs_kept_option_simps)?; simp)
qed

lemma set_privilege_regs_kept: "regs_kept p q \<Longrightarrow> regs_kept_option p (set_privilege v q)"
  by (simp add: set_privilege_def)

lemma take_trap_regs_kept: "regs_kept_option p (take_trap t epc p)"
  unfolding take_trap_def trap_to_S_def trap_to_M_def enter_debug_mode_def Let_def yield_load_reservation_def
  by (intro regs_kept_option_if regs_kept_option_map set_privilege_regs_kept) simp_all

lemma enter_debug_mode_regs_kept: "regs_kept_option p (enter_debug_mode c p)"
  unfolding enter_debug_mode_def Let_def
  by (intro regs_kept_option_if regs_kept_option_map set_privilege_regs_kept) simp_all

text \<open>The outcome of an instruction of a hart of the given width.\<close>

definition outcome_step :: "processor_t \<Rightarrow> outcome \<Rightarrow> bool" where
  "outcome_step p r = (case r of Done npc q \<Rightarrow> proc_step p q | Raise t q \<Rightarrow> proc_step p q | Abort \<Rightarrow> False)"

lemma proc_step_kept: "proc_ok p \<Longrightarrow> hart_ok q \<Longrightarrow> regs_kept p q \<Longrightarrow> proc_step p q"
  by (simp add: regs_kept_def proc_step_regs)

definition outcome_regs_kept :: "processor_t \<Rightarrow> outcome \<Rightarrow> bool" where
  "outcome_regs_kept p r = (case r of Done npc q \<Rightarrow> regs_kept p q | Raise t q \<Rightarrow> regs_kept p q | Abort \<Rightarrow> True)"

lemma outcome_step_kept: "proc_ok p \<Longrightarrow> outcome_ok r \<Longrightarrow> outcome_regs_kept p r \<Longrightarrow> outcome_step p r"
  by (cases r) (simp_all add: outcome_step_def outcome_regs_kept_def proc_step_kept)

lemma serialize_after_kept: "regs_kept_option p r \<Longrightarrow> outcome_regs_kept p (serialize_after r)"
  by (cases r) (simp_all add: serialize_after_def outcome_regs_kept_def)

lemma returns_step:
  assumes ok: "proc_ok p"
  shows "outcome_step p (insn_mret p)" "outcome_step p (insn_sret p)" "outcome_step p (insn_dret p)"
proof -
  have h: "hart_ok p" using ok by (simp add: proc_ok_def)
  have k: "outcome_regs_kept p (require_privilege v (\<lambda>p. set_pc_and_serialize (g p) (\<lambda>p. serialize_after (map_option (f p) (set_privilege (e p) p))) p) p)"
    if "\<And>q r. regs_kept p r \<Longrightarrow> regs_kept p (f q r)" for v g f e
    unfolding require_privilege_def set_pc_and_serialize_def using that
    by (auto simp: outcome_regs_kept_def [of p "Raise _ _"] intro!: serialize_after_kept regs_kept_option_map set_privilege_regs_kept)
  show "outcome_step p (insn_mret p)"
    by (rule outcome_step_kept [OF ok mret_sret_dret_ok(1) [OF h]], unfold insn_mret_def Let_def, rule k, simp)
  show "outcome_step p (insn_sret p)"
    by (rule outcome_step_kept [OF ok mret_sret_dret_ok(2) [OF h]], unfold insn_sret_def Let_def, rule k, simp)
  show "outcome_step p (insn_dret p)"
    by (rule outcome_step_kept [OF ok mret_sret_dret_ok(3) [OF h]], unfold insn_dret_def, rule k, simp)
qed

lemma csr_insn_step:
  assumes ok: "proc_ok p"
  shows "outcome_step p (csr_insn dbg (max_xlen p) npc b write f p)"
proof -
  have step: "proc_step p (write_reg (rd b) (sext_xlen (max_xlen p) old) q)"
    if q: "hart_ok q" "regs_kept p q" for q old
  proof -
    have s: "proc_step p q" using proc_step_kept [OF ok q] .
    then have pq: "proc_ok q" "max_xlen q = max_xlen p" by (simp_all add: proc_step_def)
    have "max_xlen p \<in> {32, 64}" using ok by (simp add: proc_ok_def hart_ok_def)
    then have "canon (max_xlen q) (sext_xlen (max_xlen p) old)" using pq(2) by (simp add: canon_basic)
    from proc_step_write_reg [OF pq(1) this] show ?thesis using pq(2) by (simp add: proc_step_def)
  qed
  let ?q = "update_state (\<lambda>s. s\<lparr>serialized := False\<rparr>) p"
  have h: "hart_ok p" using ok by (simp add: proc_ok_def)
  then have hq: "hart_ok ?q" by (rule free_fields_ok)
  have set: "hart_ok r \<and> regs_kept p r" if "set_csr w v ?q = Some r" for w v r
    using set_csr_ok [OF hq, of w v] set_csr_regs_kept [of ?q w v] that regs_kept_trans [of p ?q r] by (auto simp: some_ok_def)
  have some: "set_csr w v ?q = None \<Longrightarrow> False" for w v using set_csr_ok [OF hq, of w v] by (auto simp: some_ok_def)
  have pq: "proc_step p ?q" by (rule proc_step_kept [OF ok hq]) simp
  have "proc_step p p" using ok by (simp add: proc_step_def)
  then show ?thesis
    unfolding csr_insn_def validate_csr_def Let_def using pq step [of ?q] hq set
    by (auto simp: outcome_step_def intro!: step split: sum.split option.split dest: some)
qed

lemma outcome_step_simple:
  "proc_ok p \<Longrightarrow> outcome_step p (insn_ecall p)" "proc_ok p \<Longrightarrow> outcome_step p (insn_ebreak p)"
  "proc_ok p \<Longrightarrow> outcome_step p (insn_sfence_vm npc p)"
  by (auto simp: insn_ecall_def insn_ebreak_def insn_sfence_vm_def require_privilege_def outcome_step_def proc_step_def Let_def
      mmu_flush_tlb_def proc_ok_def hart_ok_def)

lemma keeps_lift_hart [hoare_intro]:
  assumes "\<And>p. proc_ok p \<Longrightarrow> max_xlen p = xl \<Longrightarrow> outcome_step p (k p)"
  shows "keeps_inv (machine_inv h xl) (lift_hart h k)"
  unfolding keeps_inv_def
proof (intro allI impI)
  fix s
  assume inv: "machine_inv h xl s"
  then have "outcome_step (get_proc h s) (k (get_proc h s))" using assms machine_inv_hart by blast
  then show "machine_inv h xl (snd (lift_hart h k s))"
    using inv by (auto simp: lift_hart_def outcome_step_def split: outcome.splits intro!: machine_inv_update [OF inv])
qed

lemma keeps_lift_csr [hoare_intro]:
  assumes "\<And>p d. proc_ok p \<Longrightarrow> max_xlen p = xl \<Longrightarrow> outcome_step p (k d p)"
  shows "keeps_inv (machine_inv h xl) (lift_csr h k)"
  unfolding keeps_inv_def lift_csr_def
proof (intro allI impI)
  fix s
  assume "machine_inv h xl s"
  then show "machine_inv h xl (snd (lift_hart h (k (get_interrupt (hart_id (get_proc h s)) (debug_module s))) s))"
    using keeps_lift_hart [of xl "k (get_interrupt (hart_id (get_proc h s)) (debug_module s))" h] assms
    by (simp add: keeps_inv_def)
qed

subsection \<open>The macros\<close>

lemma insn_x_small: "len \<le> 5 \<Longrightarrow> unat (insn_x b lo len) < 32"
proof -
  assume "len \<le> 5"
  then have "insn_x b lo len = take_bit 5 (insn_x b lo len)"
    by (auto simp: bit_eq_iff bit_take_bit_iff imm_bits)
  moreover have "unat (take_bit 5 (insn_x b lo len)) < 2 ^ 5" by (simp only: unat_take_bit) simp
  ultimately show ?thesis by simp
qed

lemma insn_x_3: "unat (insn_x b lo 3) < 8"
proof -
  have "insn_x b lo 3 = take_bit 3 (insn_x b lo 3)" by (auto simp: bit_eq_iff bit_take_bit_iff imm_bits)
  moreover have "unat (take_bit 3 (insn_x b lo 3)) < 2 ^ 3" by (simp only: unat_take_bit) simp
  ultimately show ?thesis by simp
qed

lemma register_numbers [canons]:
  "unat (rs1 b) < 32" "unat (rs2 b) < 32" "unat (rvc_rs1 b) < 32" "unat (rvc_rs2 b) < 32" "unat (rvc_rs1s b) < 32" "unat (rvc_rs2s b) < 32"
  "unat (2 :: u64) < 32"
proof -
  show "unat (rvc_rs1s b) < 32" "unat (rvc_rs2s b) < 32"
    using insn_x_3 [of b 7] insn_x_3 [of b 2] by (simp_all add: rvc_rs1s_def rvc_rs2s_def unat_word_ariths)
qed (simp_all add: rs1_def rs2_def rvc_rs1_def rvc_rs2_def rd_def insn_x_small)

lemma canon_read_reg [canons]: "proc_ok p \<Longrightarrow> max_xlen p = xl \<Longrightarrow> unat r < 32 \<Longrightarrow> canon xl (read_reg r p)"
  by (auto simp: proc_ok_def hart_ok_def state_ok_def read_reg_def list_all_iff)

lemma bits_bytes: "bit (ucast (b :: u8) :: u64) n \<Longrightarrow> n < 8"
  by (auto simp: bit_simps dest: bit_imp_le_length)

lemma canon_extend [canons]:
  assumes "xl \<in> {32, 64}"
  shows "canon xl (extend_bytes sg 1 bytes)" "canon xl (extend_bytes sg 2 bytes)" "canon xl (extend_bytes True 4 bytes)"
proof -
  have s: "canon xl (asr k (push_bit k v))" if "32 \<le> k" "k < 64" for k v
  proof (cases "k = 32")
    case False
    then show ?thesis using assms that by (auto simp: canon_iff bit_asr bit_push_bit_iff)
  qed (use assms in \<open>auto simp: canon_iff bit_asr bit_push_bit_iff\<close>)
  have e: "canon xl (extend_bytes sg n bytes)" if "0 < n" "n \<le> 4" "sg \<or> canon xl (the (reg_from_bytes n bytes))" for n sg
    unfolding extend_bytes_def Let_def using s [of "64 - 8 * n"] that by auto
  have "canon xl (ucast (bytes ! 0) OR push_bit 8 (ucast (bytes ! Suc 0)))" "canon xl (ucast (bytes ! 0))"
    using assms by (auto simp: bit_or_iff bit_push_bit_iff intro!: canon_small dest!: bits_bytes)
  then show "canon xl (extend_bytes sg 1 bytes)" "canon xl (extend_bytes sg 2 bytes)" "canon xl (extend_bytes True 4 bytes)"
    by (intro e; simp add: reg_from_bytes_def)+
qed

lemma load_func_extend: "load_func sg len h a s = (Ok v, s') \<Longrightarrow> \<exists>bytes. v = extend_bytes sg len bytes"
  by (auto simp: load_func_def Let_def bnd_Ok throw_def gets_def return_def split: if_splits)

lemma keeps_bnd_hart:
  assumes "\<And>p. proc_ok p \<Longrightarrow> max_xlen p = xl \<Longrightarrow> keeps_inv (machine_inv h xl) (f p)"
  shows "keeps_inv (machine_inv h xl) (bnd (hart h) f)"
  unfolding keeps_inv_def
proof (intro allI impI)
  fix s
  assume inv: "machine_inv h xl s"
  then have "keeps_inv (machine_inv h xl) (f (get_proc h s))" using assms machine_inv_hart by blast
  then show "machine_inv h xl (snd (bnd (hart h) f s))" using inv by (simp add: keeps_inv_def bnd_def hart_def gets_def)
qed

lemma keeps_bnd_load:
  assumes "\<And>bytes. keeps_inv (machine_inv h xl) (f (extend_bytes sg len bytes))"
  shows "keeps_inv (machine_inv h xl) (bnd (load_func sg len h a) f)"
  unfolding keeps_inv_def
proof (intro allI impI)
  fix s
  assume inv: "machine_inv h xl s"
  obtain r t where l: "load_func sg len h a s = (r, t)" by fastforce
  have t: "machine_inv h xl t" using keeps_load [of h xl sg len a] inv l unfolding keeps_inv_def by (metis snd_conv)
  show "machine_inv h xl (snd (bnd (load_func sg len h a) f s))"
  proof (cases r)
    case (Ok v)
    then obtain bytes where "v = extend_bytes sg len bytes" using load_func_extend l by blast
    then show ?thesis using assms t l Ok by (simp add: bnd_def keeps_inv_def)
  qed (use t l in \<open>simp_all add: bnd_def\<close>)
qed

lemma keeps_require [hoare_intro]: "(x \<Longrightarrow> keeps_inv P m) \<Longrightarrow> keeps_inv P (require x m)"
  by (simp add: require_def keeps_inv_simps)

lemma keeps_requires [hoare_intro]:
  "keeps_inv P m \<Longrightarrow> keeps_inv P (require_extension h c m)" "keeps_inv P m \<Longrightarrow> keeps_inv P (require_fp h m)"
  unfolding require_extension_def require_fp_def by (intro hoare_intro; assumption)+

lemma keeps_write_rd:
  assumes "canon xl v"
  shows "keeps_inv (machine_inv h xl) (write_rd h r v)"
  unfolding write_rd_def
proof (rule keeps_inv_modify)
  fix s
  assume inv: "machine_inv h xl s"
  show "machine_inv h xl (update_proc h (write_reg r v) s)"
    using assms machine_inv_hart(2) [OF inv] by (intro machine_inv_update [OF inv] proc_step_write_reg) simp_all
qed

lemma keeps_set_pc [hoare_intro]: "keeps_inv (machine_inv h xl) (set_pc h xl' x)"
  unfolding set_pc_def by (intro hoare_intro)

lemma keeps_branch [hoare_intro]: "keeps_inv (machine_inv h xl) (branch h xl' c t npc)"
  unfolding branch_def by (intro hoare_intro)

lemma keeps_reserve [hoare_intro]: "keeps_inv (machine_inv h xl) (reserve h a)"
  unfolding reserve_def
proof (rule keeps_inv_modify)
  fix s
  assume inv: "machine_inv h xl s"
  show "machine_inv h xl (update_proc h (update_state (\<lambda>s. s\<lparr>load_reservation := a\<rparr>)) s)"
    by (rule machine_inv_update [OF inv], rule proc_step_kept) (simp_all add: proc_ok_def free_fields_ok)
qed

lemma keeps_write_value:
  assumes "\<And>p. proc_ok p \<Longrightarrow> max_xlen p = xl \<Longrightarrow> canon xl (f p)"
  shows "keeps_inv (machine_inv h xl) (write_value h r f npc)"
  unfolding write_value_def by (intro keeps_bnd_hart keeps_inv_bnd keeps_write_rd keeps_inv_simps assms)

lemma keeps_load_value:
  assumes "\<And>bytes. canon xl (extend_bytes sg len bytes)"
  shows "keeps_inv (machine_inv h xl) (load_value h r sg len a npc)"
  unfolding load_value_def by (intro keeps_bnd_hart keeps_bnd_load keeps_inv_bnd keeps_write_rd keeps_inv_simps assms)

lemma keeps_store_value [hoare_intro]: "keeps_inv (machine_inv h xl) (store_value h len a v npc)"
  unfolding store_value_def by (intro hoare_intro)

lemma keeps_amo_value:
  assumes "\<And>v. canon xl (ext v)"
  shows "keeps_inv (machine_inv h xl) (amo_value h r len ext a f npc)"
  unfolding amo_value_def by (intro keeps_inv_bnd keeps_amo keeps_write_rd keeps_inv_simps assms)

subsection \<open>Floating-point instructions\<close>

lemma dirty_fp_eq: "max_xlen p = xl \<Longrightarrow> hart_ok p \<Longrightarrow> update_state (dirty_fp xl) p = dirty_fp_state p"
  by (simp add: dirty_fp_def dirty_fp_state_def hart_ok_def update_state_def)

lemma proc_step_fp:
  assumes ok: "proc_ok p" and xl: "max_xlen p = xl" and f: "\<And>s. state_ok xl s \<Longrightarrow> state_ok xl (f s)" "\<And>s. XPR (f s) = XPR s"
  shows "proc_step p (update_state f (update_state (dirty_fp xl) p))"
proof -
  have h: "hart_ok p" using ok by (simp add: proc_ok_def)
  have d: "hart_ok (dirty_fp_state p)" by (rule dirty_fp_state_ok [OF h])
  have m: "max_xlen (dirty_fp_state p) = xl" using xl by (simp add: dirty_fp_state_def update_state_def)
  have "hart_ok (update_state f (dirty_fp_state p))"
    using f(1) hart_okD(3) [OF d] m by (intro hart_ok_update [OF d]) simp
  then show ?thesis unfolding dirty_fp_eq [OF xl h] by (rule proc_step_kept [OF ok]) (simp add: f(2))
qed

lemma keeps_write_frd [hoare_intro]: "keeps_inv (machine_inv h xl) (write_frd h xl r v)"
  unfolding write_frd_def
proof (rule keeps_inv_modify)
  fix s
  assume inv: "machine_inv h xl s"
  have e: "update_state (\<lambda>s. dirty_fp xl (s\<lparr>FPR := regfile_write False r v (FPR s)\<rparr>)) p =
      update_state (\<lambda>s. s\<lparr>FPR := regfile_write False r v (FPR s)\<rparr>) (update_state (dirty_fp xl) p)" for p
    by (simp add: update_state_def dirty_fp_def)
  show "machine_inv h xl (update_proc h (update_state (\<lambda>s. dirty_fp xl (s\<lparr>FPR := regfile_write False r v (FPR s)\<rparr>))) s)"
    unfolding e using machine_inv_hart(2) [OF inv]
    by (intro machine_inv_update [OF inv] proc_step_fp) (simp_all add: state_ok_def regfile_write_def)
qed

lemma fp_flags_in:
  assumes "f AND 0xE0 = 0"
  shows "bits_in 0x1F (ucast (f :: u8) :: u32)"
proof -
  have m: "(0xE0 :: u8) = push_bit 5 (mask 3)" "(0x1F :: u32) = mask 5" by (simp_all add: mask_eq_exp_minus_1)
  have z: "\<not> (bit f i \<and> 5 \<le> i \<and> i < 8)" for i
  proof
    assume a: "bit f i \<and> 5 \<le> i \<and> i < 8"
    then have "bit (f AND 0xE0) i" unfolding m by (auto simp: bit_simps)
    then show False using assms by simp
  qed
  have "i < 5" if "bit f i" for i using z [of i] that bit_imp_le_length [OF that] by auto
  then show ?thesis unfolding bits_in_iff m by (auto simp: bit_simps)
qed

lemma keeps_set_fp_exceptions [hoare_intro]: "keeps_inv (machine_inv h xl) (set_fp_exceptions h xl)"
  unfolding set_fp_exceptions_def
proof (rule keeps_inv_modify)
  fix s
  assume inv: "machine_inv h xl s"
  let ?f = "softfloat_exceptionFlags (fpu s)"
  let ?t = "update_proc h (update_state (\<lambda>t. let t = dirty_fp xl t in t\<lparr>fflags := fflags t OR ucast ?f\<rparr>)) s"
  have f: "bits_in 0x1F (ucast ?f :: u32)" using inv by (simp add: machine_inv_def machine_ok_def fp_flags_in)
  have e: "update_state (\<lambda>t. let t = dirty_fp xl t in t\<lparr>fflags := fflags t OR ucast ?f\<rparr>) p =
      update_state (\<lambda>t. t\<lparr>fflags := fflags t OR ucast ?f\<rparr>) (update_state (dirty_fp xl) p)" for p
    by (simp add: update_state_def Let_def)
  have "state_ok xl (t\<lparr>fflags := fflags t OR ucast ?f\<rparr>)" if "state_ok xl t" for t
    using that f by (auto simp: state_ok_def bits_in_iff bit_or_iff)
  then have t: "machine_inv h xl ?t"
    unfolding e using machine_inv_hart(2) [OF inv] by (intro machine_inv_update [OF inv] proc_step_fp) simp_all
  have "machine_inv h xl (u\<lparr>fpu := (fpu u)\<lparr>softfloat_exceptionFlags := 0\<rparr>\<rparr>)" if "machine_inv h xl u" for u
    using that by (simp add: machine_inv_def machine_ok_def get_proc_def)
  then show "machine_inv h xl (let flags = ?f; s = if flags \<noteq> 0 then update_proc h (update_state (\<lambda>t. let t = dirty_fp xl t in
      t\<lparr>fflags := fflags t OR ucast flags\<rparr>)) s else s in s\<lparr>fpu := (fpu s)\<lparr>softfloat_exceptionFlags := 0\<rparr>\<rparr>)"
    using t inv unfolding Let_def by (cases "?f = 0") (simp_all only: if_True if_False simp_thms)
qed

lemma keeps_set_rm [hoare_intro]: "keeps_inv (machine_inv h xl) (set_rm rm)"
  unfolding set_rm_def by (rule keeps_inv_modify) (simp add: machine_inv_def machine_ok_def get_proc_def)

lemma keeps_RM [hoare_intro]: "keeps_inv (machine_inv h xl) (RM h' b)"
  unfolding RM_def Let_def by (intro hoare_intro)

lemma keeps_call_fpu:
  assumes f: "\<And>s. flags_raised s (snd (f s))" and k: "\<And>s. keeps_inv (machine_inv h xl) (k (fst (f s)))"
  shows "keeps_inv (machine_inv h xl) (bnd (call_fpu f) k)"
  unfolding keeps_inv_def
proof (intro allI impI)
  fix s
  assume inv: "machine_inv h xl s"
  have "machine_inv h xl (s\<lparr>fpu := snd (f (fpu s))\<rparr>)"
    using inv flags_raisedD(4) [OF f, of "fpu s"] by (simp add: machine_inv_def machine_ok_def get_proc_def)
  then show "machine_inv h xl (snd (bnd (call_fpu f) k s))"
    using k [of "fpu s"] by (simp add: bnd_def call_fpu_def keeps_inv_def)
qed

lemma keeps_fp:
  "(\<And>p rm s. flags_raised s (snd (f p rm s))) \<Longrightarrow> keeps_inv (machine_inv h xl) (fp_frd h xl b f npc)"
  "(\<And>p rm s. flags_raised s (snd (f p rm s))) \<Longrightarrow> (\<And>p rm s. canon xl (fst (f p rm s))) \<Longrightarrow> keeps_inv (machine_inv h xl) (fp_rd h xl b f npc)"
  "(\<And>p s. flags_raised s (snd (c p s))) \<Longrightarrow> xl \<in> {32, 64} \<Longrightarrow> keeps_inv (machine_inv h xl) (fp_compare h xl b c npc)"
  "(\<And>p s. flags_raised s (snd (g p s))) \<Longrightarrow> keeps_inv (machine_inv h xl) (fp_select h xl b g npc)"
  unfolding fp_frd_def fp_rd_def fp_compare_def fp_select_def
  by (intro keeps_call_fpu hoare_intro keeps_write_rd canon_basic | assumption)+

subsection \<open>Every instruction keeps the invariant\<close>

lemma canon_if [canons]: "(c \<Longrightarrow> canon xl v) \<Longrightarrow> (\<not> c \<Longrightarrow> canon xl w) \<Longrightarrow> canon xl (if c then v else w)"
  by simp

lemma canon_npc [canons]: "xl \<in> {32, 64} \<Longrightarrow> canon xl (npc_of n xl pc)"
  by (simp add: npc_of_def canon_basic)

lemma canon_classify [canons]: "xl \<in> {32, 64} \<Longrightarrow> canon xl (f32_classify a)" "xl \<in> {32, 64} \<Longrightarrow> canon xl (f64_classify c)"
  by (intro canon_small; (auto simp only: f32_classify_def f64_classify_def Let_def bit_or_iff bit_push_bit_iff bit_of_bool_iff))+

lemmas keeps_insn = keeps_write_value keeps_load_value keeps_amo_value keeps_lift_hart keeps_lift_csr hoare_intro keeps_write_rd

lemma integer_insns_keep:
  assumes xl: "xl \<in> {32, 64}" and b: "sext32 b = b"
  shows "list_all (\<lambda>(n, f). keeps_inv (machine_inv h xl) (f h xl pc b)) integer_insns"
  unfolding integer_insns_def list.pred_inject prod.case integer_defs
  by (intro conjI list.pred_inject(1); intro keeps_insn canons xl b; (assumption | simp)?)

lemma muldiv_atomic_insns_keep:
  assumes xl: "xl \<in> {32, 64}"
  shows "list_all (\<lambda>(n, f). keeps_inv (machine_inv h xl) (f h xl pc b)) muldiv_insns"
    "list_all (\<lambda>(n, f). keeps_inv (machine_inv h xl) (f h xl pc b)) atomic_insns"
  unfolding muldiv_insns_def atomic_insns_def list.pred_inject prod.case muldiv_defs atomic_defs Let_def
  by (intro conjI list.pred_inject(1); intro keeps_insn canons xl; (assumption | simp)?)+

lemma compressed_insns_keep:
  assumes xl: "xl \<in> {32, 64}"
  shows "list_all (\<lambda>(n, f). keeps_inv (machine_inv h xl) (f h xl pc b)) compressed_insns"
  unfolding compressed_insns_def list.pred_inject prod.case compressed_defs fload_value_def
  by (intro conjI list.pred_inject(1); intro keeps_insn canons xl; (assumption | use xl in simp)?)

lemma float_insns_keep:
  assumes xl: "xl \<in> {32, 64}"
  shows "list_all (\<lambda>(n, f). keeps_inv (machine_inv h xl) (f h xl pc b)) float_insns"
  unfolding float_insns_def list.pred_inject prod.case float_defs fload_value_def write_fvalue_def
  by (intro conjI list.pred_inject(1); intro keeps_fp keeps_insn canons xl;
      (assumption | simp add: case_prod_unfold flags_intro canon_basic [OF xl])?)

lemma privileged_insns_keep:
  "list_all (\<lambda>(n, f). keeps_inv (machine_inv h xl) (f h xl pc b)) privileged_insns"
  unfolding privileged_insns_def list.pred_inject prod.case insn_csrrw_def insn_csrrs_def insn_csrrc_def insn_csrrwi_def
    insn_csrrsi_def insn_csrrci_def
  by (intro conjI list.pred_inject(1) keeps_lift_hart keeps_lift_csr) (auto intro: returns_step outcome_step_simple csr_insn_step)

lemma insn_function_keeps:
  assumes b: "sext32 b = b"
  shows "keeps_inv (machine_inv h xl) (insn_function n h xl pc b)"
proof (cases "xl \<in> {32, 64}")
  case xl: True
  have "list_all (\<lambda>(n, f). keeps_inv (machine_inv h xl) (f h xl pc b)) insn_table"
    unfolding insn_table_def list_all_append
    by (intro conjI integer_insns_keep muldiv_atomic_insns_keep compressed_insns_keep float_insns_keep privileged_insns_keep xl b)
  then have "keeps_inv (machine_inv h xl) (f h xl pc b)" if "map_of insn_table n = Some f" for f
    using map_of_SomeD [OF that] by (auto simp: list_all_iff)
  then show ?thesis by (auto simp: insn_function_def keeps_inv_simps split: option.split)
next
  case False
  then have "\<not> machine_inv h xl s" for s using machine_inv_hart(3) by blast
  then show ?thesis by (simp add: keeps_inv_def)
qed

end
