(* ===== verification/Riscv_Execute.thy ===== *)
theory Riscv_Execute
  imports Riscv_Machine
begin

text \<open>
  The fetch, decode and execute loop of \<^verbatim>\<open>riscv/execute.cc\<close> and the scheduler \<^verbatim>\<open>sim_t::step\<close>.  The local variables of
  \<^verbatim>\<open>processor_t::step\<close> that its \<^verbatim>\<open>catch\<close> blocks read, \<^verbatim>\<open>instret\<close> and \<^verbatim>\<open>pc\<close>, are passed along; the commit log and the
  histogram, which the default build leaves out, and the printing of \<^verbatim>\<open>disasm\<close> have no part in it.
\<close>

subsection \<open>One instruction\<close>

text \<open>
  The call of \<^verbatim>\<open>fetch.func\<close>.  The function is named as \<^verbatim>\<open>register_base_instructions\<close> names it, with the width in front;
  every other name is that of \<^verbatim>\<open>illegal_instruction\<close>.
\<close>

definition illegal_instruction :: "u64 exec" where
  "illegal_instruction = throw trap_illegal_instruction"

definition execute_insn :: "nat \<Rightarrow> u64 \<Rightarrow> string \<times> u64 \<Rightarrow> u64 exec" where
  "execute_insn h pc fetch =
     (let (func, insn) = fetch
      in if take 5 func = ''rv32_'' then insn_function (drop 5 func) h 32 pc insn
         else if take 5 func = ''rv64_'' then insn_function (drop 5 func) h 64 pc insn
         else illegal_instruction)"

definition slow_path :: "processor_t \<Rightarrow> bool" where
  "slow_path p \<longleftrightarrow> proc_debug p \<or> single_step (state p) \<noteq> STEP_NONE \<or> dcsr_cause (dcsr (state p)) \<noteq> 0"

abbreviation (input) put_state :: "nat \<Rightarrow> (state_t \<Rightarrow> state_t) \<Rightarrow> sim_t \<Rightarrow> sim_t" where
  "put_state h f \<equiv> update_proc h (update_state f)"

text \<open>
  How a piece of the loop ends, always with \<^verbatim>\<open>instret\<close>, \<^verbatim>\<open>pc\<close> and the machine: it goes on, it goes to \<^verbatim>\<open>miss\<close>
  with \<^verbatim>\<open>ic_entry\<close> at an entry of the cache, it reaches a \<^verbatim>\<open>break\<close> of the
  loop around it, it throws, or the simulator aborts.
\<close>

datatype flow = Goes_on | Misses u64 | Breaks | Throws trap_t | Matches trigger_matched_t | Aborts

type_synonym local = "flow \<times> nat \<times> u64 \<times> sim_t"

definition invalid_pc :: "u64 \<Rightarrow> bool" where
  "invalid_pc pc \<longleftrightarrow> pc AND 1 \<noteq> 0"

lemma invalid_pc_odd [simp]: "invalid_pc pc \<longleftrightarrow> odd pc"
  by (simp add: invalid_pc_def and_one_eq mod_2_eq_odd)

definition advance_pc :: "nat \<Rightarrow> nat \<Rightarrow> u64 \<Rightarrow> sim_t \<Rightarrow> local" where
  "advance_pc h instret pc s =
     (if invalid_pc pc
      then if pc = PC_SERIALIZE_BEFORE
           then (Breaks, instret, st_pc (state (get_proc h s)), put_state h (\<lambda>t. t\<lparr>serialized := True\<rparr>) s)
           else if pc = PC_SERIALIZE_AFTER then (Breaks, Suc instret, st_pc (state (get_proc h s)), s)
           else (Aborts, instret, pc, s)
      else (Goes_on, Suc instret, pc, put_state h (\<lambda>t. t\<lparr>st_pc := pc\<rparr>) s))"

text \<open>Running a computation of the MMU or of an instruction inside the loop.\<close>

definition run :: "'a exec \<Rightarrow> nat \<Rightarrow> u64 \<Rightarrow> sim_t \<Rightarrow> ('a \<Rightarrow> sim_t \<Rightarrow> local) \<Rightarrow> local" where
  "run m instret pc s k =
     (case m s of (Ok x, s) \<Rightarrow> k x s | (Throw t, s) \<Rightarrow> (Throws t, instret, pc, s) | (Trigger t, s) \<Rightarrow> (Matches t, instret, pc, s)
      | (Undefined, s) \<Rightarrow> (Aborts, instret, pc, s))"

definition enter_debug :: "nat \<Rightarrow> u8 \<Rightarrow> sim_t \<Rightarrow> sim_t option" where
  "enter_debug h cause s = map_option (\<lambda>p. update_proc h (\<lambda>_. p) s) (enter_debug_mode cause (get_proc h s))"

subsection \<open>The slow path\<close>

definition start_single_step :: "state_t \<Rightarrow> state_t" where
  "start_single_step t = (if single_step t = STEP_STEPPING then t\<lparr>single_step := STEP_STEPPED\<rparr> else t)"

definition slow_insn :: "nat \<Rightarrow> nat \<Rightarrow> u64 \<Rightarrow> sim_t \<Rightarrow> local" where
  "slow_insn h instret pc s =
     (let s = put_state h start_single_step s
      in run (bnd (load_insn h pc) (execute_insn h pc)) instret pc s (\<lambda>npc s.
         let serialize_before = (npc = PC_SERIALIZE_BEFORE)
         in case advance_pc h instret npc s of
              (Goes_on, instret, pc, s) \<Rightarrow>
                if single_step (state (get_proc h s)) = STEP_STEPPED \<and> \<not> serialize_before
                then (case enter_debug h 4 (put_state h (\<lambda>t. t\<lparr>single_step := STEP_NONE\<rparr>) s) of
                        Some s \<Rightarrow> (Breaks, instret, pc, s) | None \<Rightarrow> (Aborts, instret, pc, s))
                else (Goes_on, instret, pc, s)
            | r \<Rightarrow> r))"

lemma advance_instret: "advance_pc h i pc s = (Goes_on, i', pc', s') \<Longrightarrow> i' = Suc i"
  by (auto simp: advance_pc_def split: if_splits)

lemma slow_insn_instret: "slow_insn h i pc s = (Goes_on, i', pc', s') \<Longrightarrow> i' = Suc i"
  by (auto simp: slow_insn_def run_def Let_def split: prod.splits result.splits flow.splits if_splits option.splits dest: advance_instret)

function slow_loop :: "nat \<Rightarrow> nat \<Rightarrow> nat \<Rightarrow> u64 \<Rightarrow> sim_t \<Rightarrow> local" where
  "slow_loop h n instret pc s =
     (if instret < n
      then (case slow_insn h instret pc s of (Goes_on, instret, pc, s) \<Rightarrow> slow_loop h n instret pc s | r \<Rightarrow> r)
      else (Goes_on, instret, pc, s))"
  by pat_completeness auto
termination
  by (relation "measure (\<lambda>(h, n, instret, pc, s). n - instret)") (auto dest!: slow_insn_instret [OF sym])

declare slow_loop.simps [simp del]

subsection \<open>The instruction cache and the switch\<close>

text \<open>The cases of the switch from entry \<open>1023 - left\<close> on; they end in \<^verbatim>\<open>break\<close> or in \<^verbatim>\<open>goto miss\<close>.\<close>

fun icache_cases :: "nat \<Rightarrow> nat \<Rightarrow> nat \<Rightarrow> nat \<Rightarrow> u64 \<Rightarrow> sim_t \<Rightarrow> local" where
  "icache_cases h n left instret pc s =
     (let i = of_nat (1023 - left) :: u64
      in run (execute_insn h pc (icache_data (mmu (get_proc h s)) i)) instret pc s (\<lambda>pc s.
         case left of
           0 \<Rightarrow> (Goes_on, instret, pc, s)
         | Suc left \<Rightarrow>
             if icache_tag (mmu (get_proc h s)) (i + 1) \<noteq> pc then (Misses (i + 1), instret, pc, s)
             else if instret + 1 = n then (Goes_on, instret, pc, s)
             else icache_cases h n left (instret + 1) pc (put_state h (\<lambda>t. t\<lparr>st_pc := pc\<rparr>) s)))"

declare icache_cases.simps [simp del]

lemma icache_cases_instret: "icache_cases h n left i pc s = (f, i', pc', s') \<Longrightarrow> i \<le> i'"
proof (induction left arbitrary: i pc s)
  case 0
  then show ?case by (subst (asm) icache_cases.simps) (auto simp: run_def Let_def split: prod.splits result.splits)
next
  case (Suc left)
  from Suc.prems show ?case
    by (subst (asm) icache_cases.simps)
      (auto simp: run_def Let_def split: prod.splits result.splits if_splits dest!: Suc.IH)
qed

text \<open>The refill after a miss, if it looks like there was no taken branch.\<close>

definition refill_after_miss :: "nat \<Rightarrow> u64 \<Rightarrow> nat \<Rightarrow> u64 \<Rightarrow> sim_t \<Rightarrow> local" where
  "refill_after_miss h e instret pc s =
     (let tag = icache_tag (mmu (get_proc h s)) (e - 1)
      in if tag < pc \<and> pc \<le> tag + 8 then run (refill_icache h pc (Some e)) instret pc s (\<lambda>_ s. (Goes_on, instret, pc, s))
         else (Goes_on, instret, pc, s))"

definition fast_insns :: "nat \<Rightarrow> nat \<Rightarrow> nat \<Rightarrow> u64 \<Rightarrow> sim_t \<Rightarrow> local" where
  "fast_insns h n instret pc s =
     (let idx = icache_index pc
      in run (access_icache h pc) instret pc s (\<lambda>_ s.
         case icache_cases h n (1023 - unat idx) instret pc s of
           (Goes_on, instret, pc, s) \<Rightarrow> advance_pc h instret pc s
         | (Misses e, instret, pc, s) \<Rightarrow>
             (case advance_pc h instret pc s of (Goes_on, instret, pc, s) \<Rightarrow> refill_after_miss h e instret pc s | r \<Rightarrow> r)
         | r \<Rightarrow> r))"

lemma fast_insns_instret: "fast_insns h n i pc s = (Goes_on, i', pc', s') \<Longrightarrow> i < i'"
  by (auto simp: fast_insns_def refill_after_miss_def run_def Let_def Suc_le_eq
      split: prod.splits result.splits flow.splits if_splits dest!: advance_instret icache_cases_instret)

function fast_loop :: "nat \<Rightarrow> nat \<Rightarrow> nat \<Rightarrow> u64 \<Rightarrow> sim_t \<Rightarrow> local" where
  "fast_loop h n instret pc s =
     (if instret < n
      then (case fast_insns h n instret pc s of (Goes_on, instret, pc, s) \<Rightarrow> fast_loop h n instret pc s | r \<Rightarrow> r)
      else (Goes_on, instret, pc, s))"
  by pat_completeness auto
termination
  by (relation "measure (\<lambda>(h, n, instret, pc, s). n - instret)") (auto dest!: fast_insns_instret [OF sym])

declare fast_loop.simps [simp del]

subsection \<open>One turn of the outer loop\<close>

definition try_block :: "nat \<Rightarrow> nat \<Rightarrow> sim_t \<Rightarrow> local" where
  "try_block h n s =
     (let p = get_proc h s; pc = st_pc (state p)
      in case take_interrupt p of
           Some t \<Rightarrow> (Throws t, 0, pc, s)
         | None \<Rightarrow> if slow_path p then slow_loop h n 0 pc s else fast_loop h n 0 pc s)"

text \<open>
  How a turn ends: with a new \<^verbatim>\<open>n\<close>, with a \<^verbatim>\<open>break\<close> that leaves the outer loop, or with an abort (an exception that leaves
  a \<^verbatim>\<open>catch\<close> block, which nothing catches, ends the simulator as well).
\<close>

datatype turn_end = Turn nat sim_t | Leaves sim_t | Failed

definition trap_hart :: "nat \<Rightarrow> trap_t \<Rightarrow> u64 \<Rightarrow> sim_t \<Rightarrow> sim_t option" where
  "trap_hart h t pc s = map_option (\<lambda>p. update_proc h (\<lambda>_. p) s) (take_trap t pc (get_proc h s))"

text \<open>Subtraction of \<^verbatim>\<open>size_t\<close>, and the last two statements of the loop.\<close>

definition size_minus :: "nat \<Rightarrow> nat \<Rightarrow> nat" where
  "size_minus n m = (if m \<le> n then n - m else n + 2 ^ 64 - m)"

definition retire :: "nat \<Rightarrow> nat \<Rightarrow> nat \<Rightarrow> sim_t option \<Rightarrow> turn_end" where
  "retire h n instret r =
     (case r of Some s \<Rightarrow> Turn (size_minus n instret) (put_state h (\<lambda>t. t\<lparr>minstret := minstret t + of_nat instret\<rparr>) s) | None \<Rightarrow> Failed)"

definition catch_trap :: "nat \<Rightarrow> trap_t \<Rightarrow> u64 \<Rightarrow> sim_t \<Rightarrow> sim_t option" where
  "catch_trap h t pc s =
     (case trap_hart h t pc s of
        None \<Rightarrow> None
      | Some s \<Rightarrow>
          if single_step (state (get_proc h s)) = STEP_STEPPED
          then enter_debug h 4 (put_state h (\<lambda>t. t\<lparr>single_step := STEP_NONE\<rparr>) s) else Some s)"

text \<open>What the action of a trigger does.\<close>

definition trigger_action :: "nat \<Rightarrow> trigger_matched_t \<Rightarrow> u64 \<Rightarrow> sim_t \<Rightarrow> sim_t option" where
  "trigger_action h t pc s =
     (let action = mc_action (mcontrol (state (get_proc h s)) ! tm_index t)
      in if action = 1 then enter_debug h 2 s
         else if action = 0 then trap_hart h (mem_trap CAUSE_BREAKPOINT (tm_address t)) pc s
         else None)"

definition catch_trigger :: "nat \<Rightarrow> nat \<Rightarrow> trigger_matched_t \<Rightarrow> nat \<Rightarrow> u64 \<Rightarrow> sim_t \<Rightarrow> turn_end" where
  "catch_trigger h n t instret pc s =
     (if matched_trigger (mmu (get_proc h s)) \<noteq> None
      then (case run (bnd (load_insn h pc) (execute_insn h pc)) instret pc s (\<lambda>pc s. advance_pc h instret pc s) of
              (Goes_on, instret, pc, s) \<Rightarrow>
                (let s = update_proc h (\<lambda>p. p\<lparr>mmu := (mmu p)\<lparr>matched_trigger := None\<rparr>\<rparr>) s
                 in retire h n instret (trigger_action h t pc s))
            | (Breaks, instret, pc, s) \<Rightarrow> Leaves s
            | _ \<Rightarrow> Failed)
      else retire h n instret (trigger_action h t pc s))"

definition turn :: "nat \<Rightarrow> nat \<Rightarrow> sim_t \<Rightarrow> turn_end" where
  "turn h n s =
     (case try_block h n s of
        (Throws t, instret, pc, s) \<Rightarrow> retire h instret instret (catch_trap h t pc s)
      | (Matches t, instret, pc, s) \<Rightarrow> catch_trigger h n t instret pc s
      | (Aborts, _) \<Rightarrow> Failed
      | (_, instret, pc, s) \<Rightarrow> retire h n instret (Some s))"

subsection \<open>\<^verbatim>\<open>processor_t::step\<close>\<close>

text \<open>The outer loop, at most \<open>fuel\<close> turns of it; \<open>None\<close> when it has not ended by then.\<close>

datatype step_end = Stepped sim_t | Crashed

fun step_loop :: "nat \<Rightarrow> nat \<Rightarrow> nat \<Rightarrow> sim_t \<Rightarrow> step_end option" where
  "step_loop 0 h n s = (if n = 0 then Some (Stepped s) else None)"
| "step_loop (Suc fuel) h n s =
     (if n = 0 then Some (Stepped s)
      else case turn h n s of Turn n s \<Rightarrow> step_loop fuel h n s | Leaves s \<Rightarrow> Some (Stepped s) | Failed \<Rightarrow> Some Crashed)"

text \<open>The debug requests before the loop, with the new \<^verbatim>\<open>n\<close>.\<close>

definition step_entry :: "nat \<Rightarrow> nat \<Rightarrow> sim_t \<Rightarrow> (nat \<times> sim_t) option" where
  "step_entry h n s =
     (let p = get_proc h s
      in if dcsr_cause (dcsr (state p)) = 0
         then map_option (Pair n)
                (if get_interrupt (hart_id p) (debug_module s) then enter_debug h 3 s
                 else if dcsr_halt (dcsr (state p)) then enter_debug h 5 s else Some s)
         else Some (min n 11, s))"

definition step :: "nat \<Rightarrow> nat \<Rightarrow> nat \<Rightarrow> sim_t \<Rightarrow> step_end option" where
  "step fuel h n s = (case step_entry h n s of None \<Rightarrow> Some Crashed | Some (n, s) \<Rightarrow> step_loop fuel h n s)"

subsection \<open>\<^verbatim>\<open>sim_t::step\<close>\<close>

text \<open>
  The end of a slice of the current hart, \<open>steps\<close> instructions long; \<open>host\<close> is what happens until the host switches back to
  the simulation, code of the front-end server.
\<close>

definition end_slice :: "(sim_t \<Rightarrow> sim_t) \<Rightarrow> nat \<Rightarrow> sim_t \<Rightarrow> sim_t" where
  "end_slice host steps s =
     (let s = s\<lparr>current_step := current_step s + steps\<rparr>
      in if current_step s = 5000
         then let s = s\<lparr>current_step := 0\<rparr>;
                  s = update_proc (current_proc s) yield_load_reservation s;
                  s = s\<lparr>current_proc := current_proc s + 1\<rparr>;
                  s = (if current_proc s = length (procs s) then rtc_increment (5000 div 100) (s\<lparr>current_proc := 0\<rparr>) else s)
              in host s
         else s)"

text \<open>The loop with \<open>n\<close> instructions to go; a slice of length 0 would repeat for ever, \<open>None\<close>.\<close>

function sim_step :: "(sim_t \<Rightarrow> sim_t) \<Rightarrow> nat \<Rightarrow> nat \<Rightarrow> sim_t \<Rightarrow> step_end option" where
  "sim_step host fuel n s =
     (if n = 0 then Some (Stepped s)
      else let steps = min n (size_minus 5000 (current_step s))
           in if steps = 0 then None
              else case step fuel (current_proc s) steps s of
                     Some (Stepped s) \<Rightarrow> sim_step host fuel (n - steps) (end_slice host steps s) | r \<Rightarrow> r)"
  by pat_completeness auto
termination
  by (relation "measure (\<lambda>(host, fuel, n, s). n)") auto

declare sim_step.simps [simp del]

end
