(* ===== verification/Riscv_Progress.thy ===== *)
theory Riscv_Progress
  imports Riscv_Execute
begin

text \<open>
  What the instructions return, what they leave alone and what fetching leaves alone, and from these that every piece of
  the loop of \<^verbatim>\<open>step\<close> that ends normally retires an instruction or sets \<^verbatim>\<open>serialized\<close>.
\<close>

subsection \<open>What an instruction returns\<close>

text \<open>Computations whose result, if they return one, satisfies a predicate.\<close>

definition returns_only :: "('a \<Rightarrow> bool) \<Rightarrow> 'a exec \<Rightarrow> bool" where
  "returns_only Q m \<longleftrightarrow> (\<forall>s x s'. m s = (Ok x, s') \<longrightarrow> Q x)"

named_theorems returns_intro "rules for returns_only"

lemma returns_only_bnd [returns_intro]: "(\<And>x. returns_only Q (f x)) \<Longrightarrow> returns_only Q (bnd m f)"
  by (auto simp: returns_only_def bnd_Ok)

lemma returns_only_simps [returns_intro]:
  "Q x \<Longrightarrow> returns_only Q (return x)" "returns_only Q (throw t)"
  by (auto simp: returns_only_def return_def throw_def)

lemma returns_only_if [returns_intro]: "(c \<Longrightarrow> returns_only Q a) \<Longrightarrow> (\<not> c \<Longrightarrow> returns_only Q b) \<Longrightarrow> returns_only Q (if c then a else b)"
  by simp

lemma even_sext_xlen [simp]: "xl \<in> {32, 64} \<Longrightarrow> even (sext_xlen xl v) \<longleftrightarrow> even v"
  using bit_sext_xlen [of xl v 0] by (auto simp: bit_0)

lemma returns_set_pc: "even x \<Longrightarrow> xl \<in> {32, 64} \<Longrightarrow> returns_only even (set_pc h xl x)"
  unfolding set_pc_def by (intro returns_intro) simp

lemma returns_insn [returns_intro]:
  "returns_only Q m \<Longrightarrow> returns_only Q (require x m)"
  "returns_only Q m \<Longrightarrow> returns_only Q (require_extension h c m)"
  "returns_only Q m \<Longrightarrow> returns_only Q (require_fp h m)"
  "Q npc \<Longrightarrow> returns_only Q (write_value h r f npc)"
  "Q npc \<Longrightarrow> returns_only Q (load_value h r sg len addr npc)"
  "Q npc \<Longrightarrow> returns_only Q (store_value h len addr' val npc)"
  "Q npc \<Longrightarrow> returns_only Q (amo_value h r len ext addr' g npc)"
  "Q npc \<Longrightarrow> returns_only Q (write_fvalue h xl r f npc)"
  "Q npc \<Longrightarrow> returns_only Q (fload_value h xl r sg len addr npc)"
  "Q npc \<Longrightarrow> returns_only Q (fp_frd h xl b ff npc)"
  "Q npc \<Longrightarrow> returns_only Q (fp_rd h xl b ff npc)"
  "Q npc \<Longrightarrow> returns_only Q (fp_compare h xl b fc npc)"
  "Q npc \<Longrightarrow> returns_only Q (fp_select h xl b fs npc)"
  unfolding require_def require_extension_def require_fp_def write_value_def load_value_def store_value_def amo_value_def
    write_fvalue_def fload_value_def fp_frd_def fp_rd_def fp_compare_def fp_select_def
  by (intro returns_intro; assumption)+

lemma returns_branch: "even t \<Longrightarrow> even npc \<Longrightarrow> xl \<in> {32, 64} \<Longrightarrow> returns_only even (branch h xl c t npc)"
  unfolding branch_def by (intro returns_intro returns_set_pc)

lemma even_npc_of: "even pc \<Longrightarrow> even n \<Longrightarrow> xl \<in> {32, 64} \<Longrightarrow> even (npc_of n xl pc)"
  by (simp add: npc_of_def)


lemma returns_bnd_set_pc:
  "even x \<Longrightarrow> xl \<in> {32, 64} \<Longrightarrow> (\<And>npc. even npc \<Longrightarrow> returns_only Q (f npc)) \<Longrightarrow> returns_only Q (bnd (set_pc h xl x) f)"
  using returns_set_pc [of x xl h] by (auto simp: returns_only_def bnd_Ok)

lemma even_imms: "even (sb_imm b)" "even (uj_imm b)" "even (rvc_b_imm b)" "even (rvc_j_imm b)"
  by (simp_all add: sb_imm_def uj_imm_def rvc_b_imm_def rvc_j_imm_def even_push_bit_iff even_and_iff)

lemmas returns_even = returns_bnd_set_pc returns_intro returns_branch returns_set_pc even_npc_of

lemma integer_insns_even:
  assumes xl: "xl \<in> {32, 64}" and pc: "even pc"
  shows "list_all (\<lambda>(n, f). returns_only even (f h xl pc b)) integer_insns"
  unfolding integer_insns_def list.pred_inject prod.case integer_defs
  by (intro conjI list.pred_inject(1); intro returns_even xl pc; (assumption | simp add: pc even_imms even_and_iff)?)

lemma muldiv_atomic_insns_even:
  assumes xl: "xl \<in> {32, 64}" and pc: "even pc"
  shows "list_all (\<lambda>(n, f). returns_only even (f h xl pc b)) muldiv_insns"
    "list_all (\<lambda>(n, f). returns_only even (f h xl pc b)) atomic_insns"
  unfolding muldiv_insns_def atomic_insns_def list.pred_inject prod.case muldiv_defs atomic_defs Let_def
  by (intro conjI list.pred_inject(1); intro returns_even xl pc; (assumption | simp add: pc even_imms even_and_iff)?)+

lemma compressed_insns_even:
  assumes xl: "xl \<in> {32, 64}" and pc: "even pc"
  shows "list_all (\<lambda>(n, f). returns_only even (f h xl pc b)) compressed_insns"
  unfolding compressed_insns_def list.pred_inject prod.case compressed_defs
  by (intro conjI list.pred_inject(1); intro returns_even xl pc; (assumption | simp add: pc even_imms even_and_iff)?)

lemma float_insns_even:
  assumes xl: "xl \<in> {32, 64}" and pc: "even pc"
  shows "list_all (\<lambda>(n, f). returns_only even (f h xl pc b)) float_insns"
  unfolding float_insns_def list.pred_inject prod.case float_defs
  by (intro conjI list.pred_inject(1); intro returns_even xl pc; (assumption | simp add: pc)?)

text \<open>What an instruction of hart \<open>h\<close> may return: an address, or one of the two marks, the first only before it has serialized.\<close>

definition npc_ok :: "nat \<Rightarrow> u64 exec \<Rightarrow> bool" where
  "npc_ok h m \<longleftrightarrow> (\<forall>s npc s'. m s = (Ok npc, s') \<longrightarrow> even npc \<or> npc = 5 \<or> npc = 3 \<and> \<not> serialized (state (get_proc h s)))"

lemma npc_ok_even: "returns_only even m \<Longrightarrow> npc_ok h m"
  by (auto simp: npc_ok_def returns_only_def)

lemma npc_ok_throw: "npc_ok h (throw t)"
  by (simp add: npc_ok_def throw_def)

definition outcome_npc :: "processor_t \<Rightarrow> outcome \<Rightarrow> bool" where
  "outcome_npc p r \<longleftrightarrow> (case r of Done npc q \<Rightarrow> even npc \<or> npc = 5 \<or> npc = 3 \<and> \<not> serialized (state p) | _ \<Rightarrow> True)"

lemma npc_ok_lift:
  "(\<And>p. outcome_npc p (k p)) \<Longrightarrow> npc_ok h (lift_hart h k)"
  "(\<And>d p. outcome_npc p (kd d p)) \<Longrightarrow> npc_ok h (lift_csr h kd)"
  by (force simp: npc_ok_def lift_csr_def lift_hart_def outcome_npc_def split: outcome.splits)+

lemma outcome_npc_insns:
  "outcome_npc p (insn_mret p)" "outcome_npc p (insn_sret p)" "outcome_npc p (insn_dret p)" "outcome_npc p (insn_ecall p)"
  "outcome_npc p (insn_ebreak p)" "even npc \<Longrightarrow> outcome_npc p (insn_sfence_vm npc p)"
  by (auto simp: outcome_npc_def insn_mret_def insn_sret_def insn_dret_def insn_ecall_def insn_ebreak_def insn_sfence_vm_def
      require_privilege_def set_pc_and_serialize_def serialize_after_def Let_def split: option.splits)

lemma outcome_npc_csr: "even npc \<Longrightarrow> outcome_npc p (csr_insn d xl npc b w f p)"
  by (auto simp: outcome_npc_def csr_insn_def validate_csr_def Let_def split: option.splits sum.splits)

lemma privileged_insns_npc:
  assumes "xl \<in> {32, 64}" "even pc"
  shows "list_all (\<lambda>(n, f). npc_ok h (f h xl pc b)) privileged_insns"
  unfolding privileged_insns_def list.pred_inject prod.case insn_csrrw_def insn_csrrs_def insn_csrrc_def insn_csrrwi_def
    insn_csrrsi_def insn_csrrci_def
  by (intro conjI list.pred_inject(1) npc_ok_lift outcome_npc_insns outcome_npc_csr even_npc_of assms; simp)

lemma execute_insn_npc:
  assumes pc: "even pc"
  shows "npc_ok h (execute_insn h pc fetch)"
proof -
  have "list_all (\<lambda>(n, f). npc_ok h (f h xl pc b)) insn_table" if xl: "xl \<in> {32, 64}" for xl b
    unfolding insn_table_def list_all_append
    by (intro conjI privileged_insns_npc xl pc; rule list.pred_mono_strong;
        (rule integer_insns_even muldiv_atomic_insns_even compressed_insns_even float_insns_even; fact)?; auto intro: npc_ok_even)
  then have "npc_ok h (f h xl pc b)" if "map_of insn_table n = Some f" "xl \<in> {32, 64}" for f n xl b
    using map_of_SomeD [OF that(1)] that(2) unfolding list_all_iff by fastforce
  then have f: "npc_ok h (insn_function n h xl pc b)" if "xl \<in> {32, 64}" for n xl b
    using that by (auto simp: insn_function_def npc_ok_throw split: option.split)
  show ?thesis using f [of 32] f [of 64] by (cases fetch) (simp add: execute_insn_def illegal_instruction_def npc_ok_throw)
qed

subsection \<open>What no instruction changes\<close>

text \<open>Only fetching touches the decoder and the entries of the instruction cache, and only the scheduler its two counters.\<close>

definition frame :: "sim_t \<Rightarrow> nat \<times> nat \<times> decoded list" where
  "frame s = (current_step s, current_proc s, map cached (procs s))"

abbreviation (input) framed :: "nat \<times> nat \<times> decoded list \<Rightarrow> sim_t \<Rightarrow> bool" where
  "framed c s \<equiv> frame s = c"

lemma frame_update: "(\<And>p. cached (f p) = cached p) \<Longrightarrow> frame (update_proc h f s) = frame s"
  by (cases "h < length (procs s)")
    (simp_all add: frame_def update_proc_def map_update list_update_same_conv [THEN iffD2] list_update_beyond)

lemma frame_simps [simp]: "frame (s\<lparr>mem := m\<rparr>) = frame s" "frame (s\<lparr>fpu := x\<rparr>) = frame s" "frame (write_mem a bs s) = frame s"
  "frame (s\<lparr>debug_module := d\<rparr>) = frame s" "frame (s\<lparr>rtc_regs := r\<rparr>) = frame s"
  by (simp_all add: frame_def write_mem_def)

lemma frame_rtc [simp]: "frame (rtc_increment inc s) = frame s"
  by (auto simp: frame_def rtc_increment_def Let_def timer_pending_def intro: nth_equalityI)

lemma frame_mmio_store: "mmio_store a bs s = Some s' \<Longrightarrow> frame s' = frame s"
proof -
  have "device_store dev a bs s = Some s' \<Longrightarrow> frame s' = frame s" for dev a
  proof (cases dev)
    case (Hart i)
    assume "device_store dev a bs s = Some s'"
    then obtain p where "s' = update_proc i (\<lambda>_. p) s" "cached p = cached (procs s ! i)"
      by (auto simp: Hart device_store_def processor_store_def update_proc_def split: if_splits)
    then show ?thesis by (cases "i < length (procs s)") (auto simp: frame_def update_proc_def map_update list_update_same_conv [THEN iffD2] list_update_beyond)
  qed (auto simp: device_store_def debug_store_def rtc_store_def rom_store_def Let_def split: if_splits)
  then show "mmio_store a bs s = Some s' \<Longrightarrow> frame s' = frame s"
    by (auto simp: mmio_store_def bus_store_def split: if_splits option.splits)
qed

lemma frame_translate [hoare_intro]: "keeps_inv (framed c) (translate h v type)"
  unfolding keeps_inv_def
proof (intro allI impI)
  fix s
  assume "frame s = c"
  moreover obtain m where "snd (translate h v type s) = s\<lparr>mem := m\<rparr>" using translate_state [of h v type s] by blast
  ultimately show "frame (snd (translate h v type s)) = c" by simp
qed

lemma frame_modify [hoare_intro]: "(\<And>p. cached (f p) = cached p) \<Longrightarrow> keeps_inv (framed c) (modify (update_proc h f))"
  by (simp add: keeps_inv_def modify_def frame_update)

lemma frame_update_mmu [hoare_intro]: "(\<And>m. icache_data (f m) = icache_data m) \<Longrightarrow> keeps_inv (framed c) (update_mmu h f)"
  unfolding update_mmu_def by (intro hoare_intro) (simp add: cached_def)

lemma frame_trace_or_refill [hoare_intro]: "keeps_inv (framed c) (trace_or_refill h a p len type)"
  unfolding trace_or_refill_def by (intro hoare_intro) (simp add: trace_def refill_tlb_def Let_def split: access_type.split)

lemma frame_check_trigger [hoare_intro]: "keeps_inv (framed c) (check_trigger h op a d)"
proof -
  have "keeps_inv (framed c) (trigger_exception h op a d)"
    by (auto simp: keeps_inv_def trigger_exception_def Let_def split: option.splits)
  then show ?thesis unfolding check_trigger_def by (intro hoare_intro) simp_all
qed

lemma frame_check_trigger_bytes [hoare_intro]: "keeps_inv (framed c) (check_trigger_bytes h op a bs)"
  unfolding check_trigger_bytes_def by (intro hoare_intro)

lemma frame_load [hoare_intro]: "keeps_inv (framed c) (load_func sg len h a)"
  unfolding load_func_def load_slow_path_def Let_def by (intro hoare_intro)

lemma frame_write_mem [hoare_intro]: "keeps_inv (framed c) (modify (write_mem a bs))"
  by (simp add: keeps_inv_def modify_def)

lemma frame_mmio [hoare_intro]:
  "keeps_inv (framed c) (bnd (gets (mmio_store p bs)) (\<lambda>r. case r of Some s' \<Rightarrow> modify (\<lambda>_. s') | None \<Rightarrow> throw t))"
  by (auto simp: keeps_inv_def bnd_def gets_def modify_def throw_def split: option.splits intro: frame_mmio_store)

lemma frame_store [hoare_intro]: "keeps_inv (framed c) (store_func len h a v)"
  unfolding store_func_def store_slow_path_def Let_def by (intro hoare_intro)

lemma frame_amo [hoare_intro]: "keeps_inv (framed c) (amo_func len h a f)"
proof -
  have "keeps_inv (framed c) (bnd (load_func False len h a) (\<lambda>lhs. bnd (store_func len h a (f lhs)) (\<lambda>_. return lhs)))"
    by (intro hoare_intro)
  then show ?thesis unfolding keeps_inv_def amo_func_def by (force split: prod.splits result.splits)
qed

lemma frame_macros [hoare_intro]:
  "keeps_inv (framed c) (write_rd h r v)" "keeps_inv (framed c) (set_pc h xl x)" "keeps_inv (framed c) (reserve h a)"
  "keeps_inv (framed c) (write_frd h xl r v)" "keeps_inv (framed c) (set_rm rm)" "keeps_inv (framed c) (RM h b)"
  unfolding write_rd_def set_pc_def reserve_def write_frd_def set_rm_def RM_def Let_def
  by (intro hoare_intro; simp)+

lemma frame_fpu [hoare_intro]: "keeps_inv (framed c) (set_fp_exceptions h xl)" "keeps_inv (framed c) (call_fpu f)"
  by (simp_all add: keeps_inv_def set_fp_exceptions_def call_fpu_def modify_def Let_def frame_update)

lemma frame_shapes [hoare_intro]:
  "keeps_inv (framed c) (write_value h r f npc)"
  "keeps_inv (framed c) (load_value h r sg len addr npc)"
  "keeps_inv (framed c) (store_value h len addr' val npc)"
  "keeps_inv (framed c) (amo_value h r len ext addr' g npc)"
  "keeps_inv (framed c) (branch h xl cond target npc)"
  "keeps_inv (framed c) (write_fvalue h xl r f npc)"
  "keeps_inv (framed c) (fload_value h xl r sg len addr npc)"
  "keeps_inv (framed c) (fp_frd h xl b ff npc)"
  "keeps_inv (framed c) (fp_rd h xl b ff npc)"
  "keeps_inv (framed c) (fp_compare h xl b fc npc)"
  "keeps_inv (framed c) (fp_select h xl b fs npc)"
  unfolding write_value_def load_value_def store_value_def amo_value_def branch_def
    write_fvalue_def fload_value_def fp_frd_def fp_rd_def fp_compare_def fp_select_def
  by (intro hoare_intro)+

lemma plain_insns_frame:
  "list_all (\<lambda>(n, f). keeps_inv (framed c) (f h xl pc b)) integer_insns"
  "list_all (\<lambda>(n, f). keeps_inv (framed c) (f h xl pc b)) muldiv_insns"
  "list_all (\<lambda>(n, f). keeps_inv (framed c) (f h xl pc b)) atomic_insns"
  "list_all (\<lambda>(n, f). keeps_inv (framed c) (f h xl pc b)) compressed_insns"
  "list_all (\<lambda>(n, f). keeps_inv (framed c) (f h xl pc b)) float_insns"
  unfolding integer_insns_def muldiv_insns_def atomic_insns_def compressed_insns_def float_insns_def list.pred_inject prod.case
    integer_defs muldiv_defs atomic_defs compressed_defs float_defs Let_def
  by (intro conjI list.pred_inject(1); intro hoare_intro; simp add: flush_icache_def)+

text \<open>The privileged instructions.\<close>

definition outcome_cached :: "processor_t \<Rightarrow> outcome \<Rightarrow> bool" where
  "outcome_cached p r \<longleftrightarrow> (case r of Done npc q \<Rightarrow> cached q = cached p | Raise t q \<Rightarrow> cached q = cached p | Abort \<Rightarrow> True)"

lemma frame_put: "cached p = cached (get_proc h s) \<Longrightarrow> frame (update_proc h (\<lambda>_. p) s) = frame s"
  by (cases "h < length (procs s)")
    (simp_all add: frame_def get_proc_def update_proc_def map_update list_update_same_conv [THEN iffD2] list_update_beyond)

lemma frame_lift:
  "(\<And>p. outcome_cached p (k p)) \<Longrightarrow> keeps_inv (framed c) (lift_hart h k)"
  "(\<And>d p. outcome_cached p (kd d p)) \<Longrightarrow> keeps_inv (framed c) (lift_csr h kd)"
proof -
  have *: "keeps_inv (framed c) (lift_hart h k)" if k: "\<And>p. outcome_cached p (k p)" for k
    unfolding keeps_inv_def lift_hart_def
  proof (intro allI impI)
    fix s
    assume "frame s = c"
    then show "frame (snd (case k (get_proc h s) of Done npc p \<Rightarrow> (Ok npc, update_proc h (\<lambda>_. p) s)
        | Raise t p \<Rightarrow> (Throw t, update_proc h (\<lambda>_. p) s) | Abort \<Rightarrow> (Undefined, s))) = c"
      using k [of "get_proc h s"] by (auto simp: outcome_cached_def frame_put split: outcome.splits)
  qed
  show "(\<And>p. outcome_cached p (k p)) \<Longrightarrow> keeps_inv (framed c) (lift_hart h k)" by (rule *)
  show "keeps_inv (framed c) (lift_csr h kd)" if "\<And>d p. outcome_cached p (kd d p)"
    using * [OF that] by (simp add: keeps_inv_def lift_csr_def)
qed

lemma set_privilege_cached: "set_privilege v p = Some q \<Longrightarrow> cached q = cached p"
  by (auto simp: set_privilege_def Let_def split: if_splits)

lemma outcome_cached_insns:
  "outcome_cached p (insn_mret p)" "outcome_cached p (insn_sret p)" "outcome_cached p (insn_dret p)" "outcome_cached p (insn_ecall p)"
  "outcome_cached p (insn_ebreak p)" "outcome_cached p (insn_sfence_vm npc p)"
  by (auto simp: outcome_cached_def insn_mret_def insn_sret_def insn_dret_def insn_ecall_def insn_ebreak_def insn_sfence_vm_def
      require_privilege_def set_pc_and_serialize_def serialize_after_def Let_def split: option.splits dest!: set_privilege_cached)

lemma set_csr_cached: "set_csr w v p = Some q \<Longrightarrow> cached q = cached p"
  using set_csr_regs_kept [of p w v] by (simp add: regs_kept_def)

lemma outcome_cached_csr: "outcome_cached p (csr_insn d xl npc b w f p)"
  by (auto simp: outcome_cached_def csr_insn_def validate_csr_def Let_def split: option.splits sum.splits if_splits dest!: set_csr_cached)

lemma privileged_insns_frame: "list_all (\<lambda>(n, f). keeps_inv (framed c) (f h xl pc b)) privileged_insns"
  unfolding privileged_insns_def list.pred_inject prod.case insn_csrrw_def insn_csrrs_def insn_csrrc_def insn_csrrwi_def
    insn_csrrsi_def insn_csrrci_def
  by (intro conjI list.pred_inject(1) frame_lift outcome_cached_insns outcome_cached_csr)

lemma execute_insn_frame: "keeps_inv (framed c) (execute_insn h pc fetch)"
proof -
  have "list_all (\<lambda>(n, f). keeps_inv (framed c) (f h xl pc b)) insn_table" for xl b
    unfolding insn_table_def list_all_append by (intro conjI plain_insns_frame privileged_insns_frame)
  then have "keeps_inv (framed c) (f h xl pc b)" if "map_of insn_table n = Some f" for f n xl b
    using map_of_SomeD [OF that] unfolding list_all_iff by fastforce
  then have f: "keeps_inv (framed c) (insn_function n h xl pc b)" for n xl b
    by (auto simp: insn_function_def keeps_inv_simps split: option.split)
  show ?thesis using f by (cases fetch) (simp add: execute_insn_def illegal_instruction_def keeps_inv_simps)
qed

subsection \<open>What fetching leaves alone\<close>

text \<open>
  Fetching an instruction changes main memory (the accessed bits), the MMU of the hart and its decoder; a predicate that
  does not depend on these is kept.
\<close>

locale fetch_closed =
  fixes h :: nat and P :: "sim_t \<Rightarrow> bool"
  assumes mem: "P s \<Longrightarrow> P (s\<lparr>mem := m\<rparr>)"
    and mmu: "P s \<Longrightarrow> P (update_proc h (\<lambda>p. p\<lparr>mmu := f (mmu p)\<rparr>) s)"
    and opcodes: "P s \<Longrightarrow> P (update_proc h (\<lambda>p. p\<lparr>opcodes := d\<rparr>) s)"
begin

lemma translate_closed: "keeps_inv P (translate h v type)"
  unfolding keeps_inv_def
proof (intro allI impI)
  fix s
  assume "P s"
  moreover obtain m where "snd (translate h v type s) = s\<lparr>mem := m\<rparr>" using translate_state [of h v type s] by blast
  ultimately show "P (snd (translate h v type s))" by (simp add: mem)
qed

lemma update_mmu_closed: "keeps_inv P (update_mmu h f)"
  unfolding update_mmu_def by (intro hoare_intro mmu)

lemma translate_insn_addr_closed: "keeps_inv P (translate_insn_addr h a)"
proof -
  have "keeps_inv P (bnd m (\<lambda>d. case k d of None \<Rightarrow> undefined_behaviour | Some (Some i) \<Rightarrow> trigger (t d i) | Some None \<Rightarrow> return x))"
    if "keeps_inv P m" for m k t x
    using that by (intro hoare_intro) (auto intro: hoare_intro split: option.split)
  then show ?thesis
    unfolding translate_insn_addr_def fetch_slow_path_def Let_def
    by (intro hoare_intro translate_closed update_mmu_closed)
qed

lemma fetch_insn_closed: "keeps_inv P (fetch_insn h a)"
  unfolding fetch_insn_def fetch_parcel_def Let_def by (intro hoare_intro translate_insn_addr_closed)

lemma refill_icache_closed: "keeps_inv P (refill_icache h a slot)"
proof -
  have d: "keeps_inv P (decode_bits h b)" for b
    unfolding decode_bits_def case_prod_unfold by (intro hoare_intro opcodes)
  show ?thesis unfolding refill_icache_def case_prod_unfold by (intro hoare_intro d fetch_insn_closed update_mmu_closed)
qed

lemma access_icache_closed: "keeps_inv P (access_icache h a)"
  unfolding access_icache_def Let_def by (intro hoare_intro refill_icache_closed)

lemma load_insn_closed: "keeps_inv P (load_insn h a)"
  unfolding load_insn_def by (rule refill_icache_closed)

end

text \<open>The architectural state of the harts is such.\<close>

lemma procs_update_state:
  assumes "\<And>p. state (f p) = state p"
  shows "map state (procs (update_proc h f s)) = map state (procs s)"
  using assms by (cases "h < length (procs s)") (simp_all add: update_proc_def map_update [symmetric] list_update_same_conv [THEN iffD2] list_update_beyond map_update)

interpretation harts: fetch_closed h "\<lambda>s. map state (procs s) = c" for h c
  by unfold_locales (simp_all add: procs_update_state)

lemma fetch_state:
  assumes "access_icache h a s = (r, s') \<or> load_insn h a s = (r, s')" "h < length (procs s)"
  shows "h < length (procs s')" "state (get_proc h s') = state (get_proc h s)"
proof -
  have m: "map state (procs s') = map state (procs s)"
    using harts.access_icache_closed [of "map state (procs s)" h a] harts.load_insn_closed [of "map state (procs s)" h a] assms(1)
    unfolding keeps_inv_def by force
  show l: "h < length (procs s')" using map_eq_imp_length_eq [OF m] assms(2) by simp
  show "state (get_proc h s') = state (get_proc h s)"
    using arg_cong [OF m, of "\<lambda>l. l ! h"] assms(2) l by (simp add: get_proc_def)
qed

lemma get_put [simp]: "h < length (procs s) \<Longrightarrow> get_proc h (update_proc h f s) = f (get_proc h s)"
  by (simp add: get_proc_def update_proc_def)

lemma length_procs_update [simp]: "length (procs (update_proc h f s)) = length (procs s)"
  by (simp add: update_proc_def)

abbreviation (input) serialized_of :: "nat \<Rightarrow> sim_t \<Rightarrow> bool" where
  "serialized_of h s \<equiv> serialized (state (get_proc h s))"

lemma execute_length: "execute_insn h pc fetch s = (r, s') \<Longrightarrow> length (procs s') = length (procs s)"
proof -
  assume "execute_insn h pc fetch s = (r, s')"
  then have "frame s' = frame s" using execute_insn_frame [of "frame s" h pc fetch] unfolding keeps_inv_def by (metis snd_conv)
  then have "map cached (procs s') = map cached (procs s)" unfolding frame_def by simp
  then show ?thesis by (rule map_eq_imp_length_eq)
qed

subsection \<open>Progress\<close>

text \<open>A piece of the loop that ends normally has retired an instruction or has been told to serialize.\<close>

definition progress :: "nat \<Rightarrow> nat \<Rightarrow> sim_t \<Rightarrow> local \<Rightarrow> bool" where
  "progress h i0 s r \<longleftrightarrow> (case r of (f, i, pc, s') \<Rightarrow>
     (case f of Throws _ \<Rightarrow> True | Matches _ \<Rightarrow> True | Aborts \<Rightarrow> True
      | Breaks \<Rightarrow> i0 < i \<or> \<not> serialized_of h s \<and> serialized_of h s' | _ \<Rightarrow> i0 < i))"

lemma progress_state: "serialized_of h s = serialized_of h s0 \<Longrightarrow> progress h i s r \<Longrightarrow> progress h i s0 r"
  by (cases r; cases "fst r") (auto simp: progress_def)

lemma advance_progress:
  assumes "execute_insn h pc fetch s = (Ok npc, s1)" "even pc" "h < length (procs s)"
  shows "progress h i s (advance_pc h i npc s1)"
proof -
  have "even npc \<or> npc = 5 \<or> npc = 3 \<and> \<not> serialized_of h s"
    using execute_insn_npc [OF assms(2), of h fetch] assms(1) unfolding npc_ok_def by blast
  then show ?thesis using assms(3) execute_length [OF assms(1)] by (auto simp: progress_def advance_pc_def update_state_def)
qed

lemma progress_run:
  "(\<And>x s1. m s = (Ok x, s1) \<Longrightarrow> progress h i s0 (k x s1)) \<Longrightarrow> progress h i s0 (run m i' pc s k)"
  by (auto simp: run_def progress_def [of _ _ _ "(_, _)"] split: prod.split result.split)

lemma progress_then:
  assumes "progress h i0 s r" "\<And>i pc s'. r = (Goes_on, i, pc, s') \<Longrightarrow> i0 < i \<Longrightarrow> progress h i0 s (g i pc s')"
  shows "progress h i0 s (case r of (Goes_on, i, pc, s') \<Rightarrow> g i pc s' | r \<Rightarrow> r)"
proof -
  obtain f i pc s' where r: "r = (f, i, pc, s')" by (cases r)
  show ?thesis using assms unfolding r by (cases f) (auto simp: progress_def [of _ _ _ "(_, _)"])
qed

lemma progress_later: "i0 < i \<Longrightarrow> progress h i0 s (f, i, pc, s')"
  by (simp add: progress_def split: flow.split)

lemma slow_insn_progress:
  assumes "even pc" "h < length (procs s)"
  shows "progress h i s (slow_insn h i pc s)"
proof -
  let ?s = "put_state h start_single_step s"
  have ser: "serialized_of h ?s = serialized_of h s" using assms(2) by (simp add: update_state_def start_single_step_def)
  have adv: "progress h i s (advance_pc h i npc s1)" if b: "bnd (load_insn h pc) (execute_insn h pc) ?s = (Ok npc, s1)" for npc s1
  proof -
    obtain f s2 where f: "load_insn h pc ?s = (Ok f, s2)" "execute_insn h pc f s2 = (Ok npc, s1)" using b by (auto simp: bnd_Ok)
    have "h < length (procs s2)" "state (get_proc h s2) = state (get_proc h ?s)" using fetch_state [OF disjI2 [OF f(1)]] assms(2) by auto
    with advance_progress [OF f(2) assms(1)] ser show ?thesis by (intro progress_state [of h s2 s]) simp_all
  qed
  show ?thesis
    unfolding slow_insn_def Let_def by (intro progress_run progress_then adv) (auto intro: progress_later split: option.split)
qed

lemma icache_cases_progress:
  assumes "even pc" "h < length (procs s)" "icache_cases h n left i pc s = (f, i', npc, s')" "f = Goes_on \<or> f = Misses e"
  shows "progress h i s (advance_pc h i' npc s')"
proof -
  let ?f = "icache_data (mmu (get_proc h s)) (of_nat (1023 - left))"
  from assms(3,4) obtain npc1 s1 where e: "execute_insn h pc ?f s = (Ok npc1, s1)"
    by (subst (asm) icache_cases.simps) (auto simp: run_def Let_def split: prod.splits result.splits)
  consider "i < i'" | "i' = i" "npc = npc1" "s' = s1"
    using assms(3) icache_cases_instret [of h n _ "Suc i"] by (subst (asm) icache_cases.simps) (fastforce simp: run_def Let_def e split: nat.splits if_splits)
  then show ?thesis
  proof cases
    case 1
    then show ?thesis by (auto simp: progress_def advance_pc_def)
  next
    case 2
    then show ?thesis using advance_progress [OF e assms(1,2)] by simp
  qed
qed

lemma icache_cases_flow: "icache_cases h n left i pc s = (f, r) \<Longrightarrow> f \<noteq> Breaks"
proof (induction left arbitrary: i pc s)
  case 0
  then show ?case by (subst (asm) icache_cases.simps) (auto simp: run_def Let_def split: prod.splits result.splits)
next
  case (Suc left)
  from Suc.prems show ?case
    by (subst (asm) icache_cases.simps) (auto simp: run_def Let_def split: prod.splits result.splits if_splits dest!: Suc.IH)
qed

lemma fast_insns_progress:
  assumes pc: "even pc" and h: "h < length (procs s)"
  shows "progress h i s (fast_insns h n i pc s)"
  unfolding fast_insns_def Let_def
proof (intro progress_run)
  fix x s1
  assume a: "access_icache h pc s = (Ok x, s1)"
  obtain f i' npc s' where c: "icache_cases h n (1023 - unat (icache_index pc)) i pc s1 = (f, i', npc, s')"
    by (cases "icache_cases h n (1023 - unat (icache_index pc)) i pc s1")
  have adv: "progress h i s (advance_pc h i' npc s')" if "f = Goes_on \<or> f = Misses e" for e
    using icache_cases_progress [OF pc fetch_state(1) [OF disjI1 [OF a] h] c that] fetch_state(2) [OF disjI1 [OF a] h]
    by (intro progress_state [of h s1 s]) simp_all
  have refill: "progress h i s (refill_after_miss h e i2 pc2 s2)" if "i < i2" for e i2 pc2 s2
    using that by (auto simp: refill_after_miss_def Let_def intro: progress_run progress_later)
  show "progress h i s (case icache_cases h n (1023 - unat (icache_index pc)) i pc s1 of
      (Goes_on, i, pc, s) \<Rightarrow> advance_pc h i pc s
    | (Misses e, i, pc, s) \<Rightarrow> (case advance_pc h i pc s of (Goes_on, i, pc, s) \<Rightarrow> refill_after_miss h e i pc s | r \<Rightarrow> r)
    | r \<Rightarrow> r)"
    unfolding c using adv icache_cases_flow [OF c]
    by (cases f) (auto intro!: progress_then refill simp: progress_def [of _ _ _ "(_, _)"])
qed


subsection \<open>The inner loops\<close>

text \<open>What every round of a loop keeps, the loop keeps.\<close>

lemma slow_loop_rule:
  assumes "\<And>i pc s. i < n \<Longrightarrow> I (Goes_on, i, pc, s) \<Longrightarrow> I (slow_insn h i pc s)" "I (Goes_on, i, pc, s)"
  shows "I (slow_loop h n i pc s)"
  using assms
proof (induction h n i pc s rule: slow_loop.induct)
  case (1 h n i pc s)
  show ?case
  proof (cases "i < n")
    case True
    have r: "I (slow_insn h i pc s)" using 1 True by blast
    have "I (slow_loop h n j pc' s')" if "slow_insn h i pc s = (Goes_on, j, pc', s')" for j pc' s'
      using 1(1) [OF True that [symmetric]] that r 1(2) by simp
    then show ?thesis using True r by (subst slow_loop.simps) (auto split: prod.split flow.split)
  qed (use 1(3) in \<open>simp add: slow_loop.simps\<close>)
qed

lemma fast_loop_rule:
  assumes "\<And>i pc s. i < n \<Longrightarrow> I (Goes_on, i, pc, s) \<Longrightarrow> I (fast_insns h n i pc s)" "I (Goes_on, i, pc, s)"
  shows "I (fast_loop h n i pc s)"
  using assms
proof (induction h n i pc s rule: fast_loop.induct)
  case (1 h n i pc s)
  show ?case
  proof (cases "i < n")
    case True
    have r: "I (fast_insns h n i pc s)" using 1 True by blast
    have "I (fast_loop h n j pc' s')" if "fast_insns h n i pc s = (Goes_on, j, pc', s')" for j pc' s'
      using 1(1) [OF True that [symmetric]] that r 1(2) by simp
    then show ?thesis using True r by (subst fast_loop.simps) (auto split: prod.split flow.split)
  qed (use 1(3) in \<open>simp add: fast_loop.simps\<close>)
qed

lemma advance_bounds: "advance_pc h i pc s = (f, j, r) \<Longrightarrow> i \<le> j \<and> j \<le> Suc i"
  by (auto simp: advance_pc_def split: if_splits)

lemma slow_insn_bounds: "slow_insn h i pc s = (f, j, r) \<Longrightarrow> i \<le> j \<and> j \<le> Suc i"
  by (auto simp: slow_insn_def run_def Let_def split: prod.splits result.splits if_splits option.splits flow.splits dest!: advance_bounds)

lemma icache_cases_below: "i < n \<Longrightarrow> icache_cases h n left i pc s = (f, j, r) \<Longrightarrow> j < n"
proof (induction left arbitrary: i pc s)
  case 0
  then show ?case by (subst (asm) icache_cases.simps) (auto simp: run_def Let_def split: prod.splits result.splits)
next
  case (Suc left)
  from Suc.prems(2) show ?case
    by (subst (asm) icache_cases.simps)
      (use Suc.prems(1) in \<open>auto simp: run_def Let_def split: prod.splits result.splits if_splits dest!: Suc.IH [rotated]\<close>)
qed

lemma refill_instret: "refill_after_miss h e i pc s = (f, j, r) \<Longrightarrow> j = i"
  by (auto simp: refill_after_miss_def run_def Let_def split: prod.splits result.splits if_splits)

lemma fast_insns_bounds:
  assumes "i < n" "fast_insns h n i pc s = (f, j, r)"
  shows "i \<le> j \<and> j \<le> n"
proof -
  have c: "i \<le> k \<and> k < n" if "icache_cases h n left i pc s1 = (g, k, npc, s2)" for left s1 g k npc s2
    using icache_cases_below [OF assms(1) that] icache_cases_instret [OF that] by simp
  show ?thesis
    using assms unfolding fast_insns_def run_def Let_def
    by (auto split: prod.splits result.splits flow.splits dest!: c advance_bounds refill_instret)
qed

lemma loop_bounds:
  assumes "slow_loop h n i pc s = (f, j, r) \<or> fast_loop h n i pc s = (f, j, r)" "i \<le> n"
  shows "i \<le> j \<and> j \<le> n"
proof -
  define I where "I = (\<lambda>(f :: flow, k, r :: u64 \<times> sim_t). i \<le> k \<and> k \<le> n)"
  have "I (slow_loop h n i pc s)"
    by (rule slow_loop_rule) (use assms(2) in \<open>auto simp: I_def dest!: slow_insn_bounds\<close>)
  moreover have "I (fast_loop h n i pc s)"
    by (rule fast_loop_rule) (use assms(2) in \<open>auto simp: I_def dest!: fast_insns_bounds [rotated]\<close>)
  ultimately show ?thesis using assms(1) by (auto simp: I_def)
qed

lemma progress_from: "i0 < i \<Longrightarrow> i \<le> n \<Longrightarrow> progress h i0 s (slow_loop h' n i pc s')" "i0 < i \<Longrightarrow> i \<le> n \<Longrightarrow> progress h i0 s (fast_loop h' n i pc s')"
  using loop_bounds [of h' n i pc s'] by (metis (no_types, lifting) less_le_trans prod_cases4 progress_later)+

lemma try_block_progress:
  assumes "0 < n" "even (st_pc (state (get_proc h s)))" "h < length (procs s)"
  shows "progress h 0 s (try_block h n s)"
proof -
  have "progress h 0 s (slow_loop h n 0 (st_pc (state (get_proc h s))) s)"
    using assms(1) slow_insn_bounds [of h 0]
    by (subst slow_loop.simps) (auto intro!: progress_then slow_insn_progress assms progress_from dest!: slow_insn_instret)
  moreover have "progress h 0 s (fast_loop h n 0 (st_pc (state (get_proc h s))) s)"
    using assms(1)
    by (subst fast_loop.simps) (auto intro!: progress_then fast_insns_progress assms progress_from dest!: fast_insns_bounds [OF assms(1)])
  ultimately show ?thesis by (auto simp: try_block_def Let_def progress_def [of _ _ _ "(Throws _, _)"] split: option.split)
qed

end
