(* ===== verification/Riscv_Steps.thy ===== *)
theory Riscv_Steps
  imports Riscv_Progress
begin

text \<open>
  The contract under which a predicate of the machine survives \<^verbatim>\<open>processor_t::step\<close>, as the locale \<open>step_kept\<close>; that the outer loop
  of \<^verbatim>\<open>step\<close> ends; and that \<^verbatim>\<open>sim_t::step\<close> goes round the harts.
\<close>

subsection \<open>What a step keeps\<close>

definition machine_of :: "local \<Rightarrow> sim_t" where
  "machine_of r = (case r of (f, i, pc, s) \<Rightarrow> s)"

lemma machine_of_simp [simp]: "machine_of (f, i, pc, s) = s"
  by (simp add: machine_of_def)

lemma update_proc_cong: "f (get_proc h s) = g (get_proc h s) \<Longrightarrow> update_proc h f s = update_proc h g s"
  by (simp add: update_proc_def get_proc_def)

lemma update_proc_same: "f (get_proc h s) = get_proc h s \<Longrightarrow> update_proc h f s = s"
  by (simp add: update_proc_def get_proc_def)

text \<open>
  The contract under which a predicate \<open>P\<close> of the machine survives \<^verbatim>\<open>step\<close>: fetching keeps it and gives a fetched instruction
  that satisfies \<open>G\<close>, such an instruction keeps it, and so do the updates the loop makes itself.
\<close>

locale step_kept =
  fixes h :: nat and G :: "string \<times> u64 \<Rightarrow> bool" and P :: "sim_t \<Rightarrow> bool"
  assumes refill: "P s \<Longrightarrow> refill_icache h a slot s = (r, s') \<Longrightarrow> P s'"
    and fetched: "P s \<Longrightarrow> refill_icache h a slot s = (Ok f, s') \<Longrightarrow> G f"
    and stored: "P s \<Longrightarrow> G (icache_data (mmu (get_proc h s)) e)"
    and insn: "P s \<Longrightarrow> G f \<Longrightarrow> execute_insn h pc f s = (r', s') \<Longrightarrow> P s'"
    and put_pc: "P s \<Longrightarrow> P (put_state h (\<lambda>t. t\<lparr>st_pc := pc\<rparr>) s)"
    and put_serialized: "P s \<Longrightarrow> P (put_state h (\<lambda>t. t\<lparr>serialized := True\<rparr>) s)"
    and put_single_step: "P s \<Longrightarrow> P (put_state h (\<lambda>t. t\<lparr>single_step := m\<rparr>) s)"
    and put_minstret: "P s \<Longrightarrow> P (put_state h (\<lambda>t. t\<lparr>minstret := c t\<rparr>) s)"
    and clear_trigger: "P s \<Longrightarrow> P (update_proc h (\<lambda>p. p\<lparr>mmu := (mmu p)\<lparr>matched_trigger := None\<rparr>\<rparr>) s)"
    and trap: "P s \<Longrightarrow> take_trap t pc (get_proc h s) = Some p \<Longrightarrow> P (update_proc h (\<lambda>_. p) s)"
    and debug: "P s \<Longrightarrow> enter_debug_mode d (get_proc h s) = Some p \<Longrightarrow> P (update_proc h (\<lambda>_. p) s)"
begin

lemma run_kept:
  assumes "P s" "\<And>r s1. m s = (r, s1) \<Longrightarrow> P s1" "\<And>x s1. m s = (Ok x, s1) \<Longrightarrow> P s1 \<Longrightarrow> P (machine_of (k x s1))"
  shows "P (machine_of (run m i pc s k))"
  using assms by (auto simp: run_def split: prod.split result.split)

lemma advance_kept: "P s \<Longrightarrow> P (machine_of (advance_pc h i pc s))"
  by (simp add: advance_pc_def put_pc put_serialized)

lemma load_execute_kept: "P s \<Longrightarrow> bnd (load_insn h pc) (execute_insn h pc) s = (r, s') \<Longrightarrow> P s'"
  unfolding bnd_def load_insn_def by (auto split: prod.splits result.splits dest: refill fetched insn)

lemma enter_debug_kept: "P s \<Longrightarrow> enter_debug h d s = Some s' \<Longrightarrow> P s'"
  by (auto simp: enter_debug_def debug)

lemma stop_stepping_kept: "P s \<Longrightarrow> enter_debug h d (put_state h (\<lambda>t. t\<lparr>single_step := m\<rparr>) s) = Some s' \<Longrightarrow> P s'"
  by (rule enter_debug_kept [OF put_single_step])

lemma trap_kept: "P s \<Longrightarrow> trap_hart h t pc s = Some s' \<Longrightarrow> P s'"
  by (auto simp: trap_hart_def trap)

lemma start_single_step_kept: "P s \<Longrightarrow> P (put_state h start_single_step s)"
proof (cases "single_step (state (get_proc h s)) = STEP_STEPPING")
  case True
  then have "put_state h start_single_step s = put_state h (\<lambda>t. t\<lparr>single_step := STEP_STEPPED\<rparr>) s"
    by (intro update_proc_cong) (simp add: update_state_def start_single_step_def)
  then show "P s \<Longrightarrow> ?thesis" by (simp add: put_single_step)
next
  case False
  then have "put_state h start_single_step s = s" by (intro update_proc_same) (simp add: update_state_def start_single_step_def)
  then show "P s \<Longrightarrow> ?thesis" by simp
qed

lemma slow_insn_kept:
  assumes "P s"
  shows "P (machine_of (slow_insn h i pc s))"
  unfolding slow_insn_def Let_def
proof (rule run_kept)
  show "P (put_state h start_single_step s)" using assms by (rule start_single_step_kept)
  then show "bnd (load_insn h pc) (execute_insn h pc) (put_state h start_single_step s) = (r, s1) \<Longrightarrow> P s1" for r s1
    by (rule load_execute_kept)
  fix npc s1
  assume "P s1"
  then have "P (machine_of (advance_pc h i npc s1))" by (rule advance_kept)
  then show "P (machine_of (case advance_pc h i npc s1 of
        (Goes_on, i, pc, s) \<Rightarrow>
          if single_step (state (get_proc h s)) = STEP_STEPPED \<and> npc \<noteq> 3
          then (case enter_debug h 4 (put_state h (\<lambda>t. t\<lparr>single_step := STEP_NONE\<rparr>) s) of
                  Some s \<Rightarrow> (Breaks, i, pc, s) | None \<Rightarrow> (Aborts, i, pc, s))
          else (Goes_on, i, pc, s)
      | r \<Rightarrow> r))"
    by (auto split: prod.split flow.split option.split intro: stop_stepping_kept)
qed

lemma icache_cases_kept: "P s \<Longrightarrow> P (machine_of (icache_cases h n left i pc s))"
proof (induction left arbitrary: i pc s)
  case 0
  then show ?case by (subst icache_cases.simps, unfold Let_def) (rule run_kept, auto intro: insn stored)
next
  case (Suc left)
  show ?case
    by (subst icache_cases.simps, unfold Let_def) (rule run_kept, use Suc.prems in \<open>auto intro!: Suc.IH put_pc intro: insn stored\<close>)
qed

lemma refill_after_miss_kept: "P s \<Longrightarrow> P (machine_of (refill_after_miss h e i pc s))"
  unfolding refill_after_miss_def Let_def by (auto intro: run_kept refill)

lemma access_kept: "P s \<Longrightarrow> access_icache h pc s = (r, s') \<Longrightarrow> P s'"
  unfolding access_icache_def bnd_def hart_def gets_def return_def Let_def by (auto split: if_splits intro: refill)

lemma fast_insns_kept:
  assumes "P s"
  shows "P (machine_of (fast_insns h n i pc s))"
  unfolding fast_insns_def Let_def
proof (rule run_kept [OF assms])
  show "access_icache h pc s = (r, s1) \<Longrightarrow> P s1" for r s1 using assms by (rule access_kept)
  fix x s1
  assume s1: "P s1"
  obtain f j npc s2 where c: "icache_cases h n (1023 - unat (icache_index pc)) i pc s1 = (f, j, npc, s2)"
    by (cases "icache_cases h n (1023 - unat (icache_index pc)) i pc s1")
  have "P s2" using icache_cases_kept [OF s1, of n "1023 - unat (icache_index pc)" i pc] c by simp
  then have a: "P s2" "P (machine_of (advance_pc h j npc s2))" by (simp_all add: advance_kept)
  then show "P (machine_of (case icache_cases h n (1023 - unat (icache_index pc)) i pc s1 of
      (Goes_on, i, pc, s) \<Rightarrow> advance_pc h i pc s
    | (Misses e, i, pc, s) \<Rightarrow> (case advance_pc h i pc s of (Goes_on, i, pc, s) \<Rightarrow> refill_after_miss h e i pc s | r \<Rightarrow> r)
    | r \<Rightarrow> r))"
    unfolding c by (cases f) (auto split: prod.split flow.split intro: refill_after_miss_kept)
qed

lemma try_block_kept: "P s \<Longrightarrow> P (machine_of (try_block h n s))"
  unfolding try_block_def Let_def
  using slow_loop_rule [where I = "\<lambda>r. P (machine_of r)" and h = h] fast_loop_rule [where I = "\<lambda>r. P (machine_of r)" and h = h]
    slow_insn_kept fast_insns_kept
  by (simp split: option.split)

lemma retire_kept: "retire h n i r = Turn n' s' \<or> retire h n i r = Leaves s' \<Longrightarrow> (\<And>s. r = Some s \<Longrightarrow> P s) \<Longrightarrow> P s'"
  by (auto simp: retire_def put_minstret split: option.splits)

lemma catch_trap_kept: "P s \<Longrightarrow> catch_trap h t pc s = Some s' \<Longrightarrow> P s'"
  unfolding catch_trap_def by (auto split: option.splits if_splits dest: trap_kept stop_stepping_kept)

lemma trigger_action_kept: "P s \<Longrightarrow> trigger_action h t pc s = Some s' \<Longrightarrow> P s'"
  by (auto simp: trigger_action_def Let_def split: if_splits dest: enter_debug_kept trap_kept)

lemma catch_trigger_kept:
  assumes "P s" "catch_trigger h n t i pc s = Turn n' s' \<or> catch_trigger h n t i pc s = Leaves s'"
  shows "P s'"
proof -
  let ?r = "run (bnd (load_insn h pc) (execute_insn h pc)) i pc s (\<lambda>pc s. advance_pc h i pc s)"
  have "P (machine_of ?r)" using assms(1) by (rule run_kept) (auto intro: load_execute_kept assms advance_kept)
  then show ?thesis
    using assms unfolding catch_trigger_def
    by (auto split: if_splits prod.splits flow.splits intro: retire_kept trigger_action_kept [OF clear_trigger] trigger_action_kept simp: Let_def)
qed

lemma turn_kept: "P s \<Longrightarrow> turn h n s = Turn n' s' \<or> turn h n s = Leaves s' \<Longrightarrow> P s'"
  using try_block_kept [of s n] unfolding turn_def
  by (cases "try_block h n s"; cases "fst (try_block h n s)") (auto intro: retire_kept catch_trap_kept catch_trigger_kept)

lemma step_loop_kept: "P s \<Longrightarrow> step_loop fuel h n s = Some (Stepped s') \<Longrightarrow> P s'"
  by (induction fuel arbitrary: n s) (auto split: if_splits turn_end.splits dest: turn_kept)

lemma step_entry_kept: "P s \<Longrightarrow> step_entry h n s = Some (n', s') \<Longrightarrow> P s'"
  by (auto simp: step_entry_def Let_def split: if_splits dest: enter_debug_kept)

lemma step_keeps: "P s \<Longrightarrow> step fuel h n s = Some (Stepped s') \<Longrightarrow> P s'"
  by (auto simp: step_def split: option.splits dest: step_entry_kept step_loop_kept)

end

subsection \<open>The scheduler's variables\<close>

definition sched :: "sim_t \<Rightarrow> nat \<times> nat \<times> nat" where
  "sched s = (current_step s, current_proc s, length (procs s))"

lemma sched_update [simp]: "sched (update_proc h f s) = sched s" "sched (s\<lparr>mem := m\<rparr>) = sched s"
  by (simp_all add: sched_def update_proc_def)

interpretation sched_fetch: fetch_closed h "\<lambda>s. sched s = c" for h c
  by unfold_locales simp_all

lemma frame_sched: "frame s' = frame s \<Longrightarrow> sched s' = sched s"
  by (auto simp: frame_def sched_def dest: map_eq_imp_length_eq)

lemma execute_insn_sched: "execute_insn h pc fetch s = (r, s') \<Longrightarrow> sched s' = sched s"
  using execute_insn_frame [of "frame s" h pc fetch] frame_sched unfolding keeps_inv_def by (metis snd_conv)

interpretation scheduling: step_kept h "\<lambda>_. True" "\<lambda>s. sched s = c" for h c
proof unfold_locales
  show "sched s' = c" if "sched s = c" "refill_icache h a slot s = (r, s')" for s s' a slot r
    using sched_fetch.refill_icache_closed [of c h a slot] that unfolding keeps_inv_def by (metis snd_conv)
  show "sched s' = c" if "sched s = c" "execute_insn h pc f s = (r, s')" for s s' pc f r
    using execute_insn_sched [OF that(2)] that(1) by simp
qed simp_all

subsection \<open>The outer loop ends\<close>

inductive turns :: "nat \<Rightarrow> nat \<times> sim_t \<Rightarrow> nat \<times> sim_t \<Rightarrow> bool" for h where
  turns_refl: "turns h c c"
| turns_next: "0 < n \<Longrightarrow> turn h n s = Turn n' s' \<Longrightarrow> turns h (n', s') c \<Longrightarrow> turns h (n, s) c"

inductive_simps turns_from: "turns h (n, s) c"

text \<open>A turn that starts at an address and catches no trigger.\<close>

definition plain_turn :: "nat \<Rightarrow> nat \<Rightarrow> sim_t \<Rightarrow> bool" where
  "plain_turn h n s \<longleftrightarrow> \<not> invalid_pc (st_pc (state (get_proc h s))) \<and> (case try_block h n s of (Matches _, _) \<Rightarrow> False | _ \<Rightarrow> True)"

definition work_left :: "nat \<Rightarrow> nat \<Rightarrow> sim_t \<Rightarrow> nat" where
  "work_left h n s = 2 * n + of_bool (\<not> serialized_of h s)"

lemma serialized_minstret: "serialized_of h (put_state h (\<lambda>t. t\<lparr>minstret := c t\<rparr>) s) = serialized_of h s"
  by (cases "h < length (procs s)") (simp_all add: update_state_def, simp add: update_proc_def get_proc_def list_update_beyond)

lemma try_block_bound: "try_block h n s = (f, i, r) \<Longrightarrow> i \<le> n"
  using loop_bounds [of h n 0 "st_pc (state (get_proc h s))" s f i r]
  by (cases r) (auto simp: try_block_def Let_def split: option.splits if_splits)

lemma turn_decreases:
  assumes "0 < n" "h < length (procs s)" "plain_turn h n s" "turn h n s = Turn n' s'"
  shows "n' = 0 \<or> work_left h n' s' < work_left h n s"
proof -
  obtain f i pc s1 where t: "try_block h n s = (f, i, pc, s1)" by (cases "try_block h n s")
  have p: "progress h 0 s (f, i, pc, s1)" using try_block_progress [OF assms(1) _ assms(2)] assms(3) t by (simp add: plain_turn_def)
  have i: "i \<le> n" using try_block_bound [OF t] .
  show ?thesis
  proof (cases "\<exists>t. f = Throws t")
    case True
    then show ?thesis using assms(4) by (auto simp: turn_def t retire_def size_minus_def split: option.splits)
  next
    case False
    then have r: "retire h n i (Some s1) = Turn n' s'" and p': "0 < i \<or> \<not> serialized_of h s \<and> serialized_of h s1"
      using assms(3,4) t p by (cases f; simp add: turn_def plain_turn_def progress_def)+
    have n': "n' = n - i" and ser: "serialized_of h s' = serialized_of h s1"
      using r i by (auto simp: retire_def size_minus_def serialized_minstret)
    show ?thesis using p' i assms(1) unfolding work_left_def n' ser by (auto simp: of_bool_def)
  qed
qed

lemma step_loop_returns:
  assumes "work_left h n s \<le> fuel" "h < length (procs s)" "\<And>n' s'. turns h (n, s) (n', s') \<Longrightarrow> 0 < n' \<Longrightarrow> plain_turn h n' s'"
  shows "\<exists>r. step_loop fuel h n s = Some r"
  using assms
proof (induction fuel arbitrary: n s)
  case (Suc fuel)
  show ?case
  proof (cases "turn h n s")
    case (Turn n' s')
    have "\<exists>r. step_loop fuel h n' s' = Some r" if n: "0 < n"
    proof -
      have len: "length (procs s') = length (procs s)" using scheduling.turn_kept [of s "sched s" h n n' s'] Turn by (simp add: sched_def)
      have "n' = 0 \<or> work_left h n' s' < work_left h n s"
        using turn_decreases [OF n Suc.prems(2) Suc.prems(3) [OF turns_refl n] Turn] .
      then show ?thesis
      proof
        assume "work_left h n' s' < work_left h n s"
        then show ?thesis using Suc.prems len turns_next [OF n Turn] by (intro Suc.IH) auto
      qed (cases fuel; simp)
    qed
    then show ?thesis using Turn by simp
  qed simp_all
qed (simp add: work_left_def)

subsection \<open>Round robin\<close>

lemma step_sched: "step fuel h n s = Some (Stepped s') \<Longrightarrow> sched s' = sched s"
  using scheduling.step_keeps [of s "sched s"] by simp

text \<open>The place in the round: the hart and its slice.\<close>

definition position :: "sim_t \<Rightarrow> nat" where
  "position s = 5000 * current_proc s + current_step s"

definition sched_ok :: "sim_t \<Rightarrow> bool" where
  "sched_ok s \<longleftrightarrow> current_step s < 5000 \<and> current_proc s < length (procs s)"

lemma end_slice_position:
  assumes "sched_ok s" "0 < k" "current_step s + k \<le> 5000" "\<And>s. sched (host s) = sched s"
  shows "sched_ok (end_slice host k s)" "length (procs (end_slice host k s)) = length (procs s)"
    "position (end_slice host k s) = (position s + k) mod (5000 * length (procs s))"
proof -
  let ?L = "length (procs s)" and ?c = "current_proc s"
  define t where "t = end_slice host k s"
  have r: "sched (rtc_increment c q) = sched q" for c q by (simp add: sched_def rtc_increment_def Let_def)
  have t: "sched t = (if current_step s + k = 5000 then (0, (if Suc ?c = ?L then 0 else Suc ?c), ?L) else (current_step s + k, ?c, ?L))"
    unfolding t_def end_slice_def Let_def using assms(4) by (simp add: r) (simp add: sched_def update_proc_def)
  then have f: "current_step t = (if current_step s + k = 5000 then 0 else current_step s + k)" "length (procs t) = ?L"
    "current_proc t = (if current_step s + k = 5000 then (if Suc ?c = ?L then 0 else Suc ?c) else ?c)"
    by (auto simp: sched_def split: if_splits)
  show "sched_ok t" "length (procs t) = ?L" using assms(1-3) f by (auto simp: sched_ok_def)
  have lt: "5000 * ?c + (current_step s + k) < 5000 * ?L" if "current_step s + k < 5000 \<or> Suc ?c < ?L"
    using that assms(1,3) by (auto simp: sched_ok_def)
  show "position t = (position s + k) mod (5000 * ?L)"
  proof (cases "current_step s + k = 5000 \<and> Suc ?c = ?L")
    case True
    then have "position s + k = 5000 * ?L" unfolding position_def by linarith
    moreover have "position t = 0" using True f by (simp add: position_def)
    ultimately show ?thesis by simp
  next
    case False
    then have "current_step s + k < 5000 \<or> Suc ?c < ?L" using assms(1,3) by (auto simp: sched_ok_def)
    from lt [OF this] show ?thesis using False f assms(3) by (auto simp: position_def)
  qed
qed

lemma sim_step_position:
  assumes "sim_step host fuel n s = Some (Stepped s')" "sched_ok s" "\<And>s. sched (host s) = sched s"
  shows "sched_ok s' \<and> length (procs s') = length (procs s) \<and> position s' = (position s + n) mod (5000 * length (procs s))"
  using assms
proof (induction host fuel n s rule: sim_step.induct)
  case (1 host fuel n s)
  let ?k = "min n (size_minus 5000 (current_step s))"
  have p: "position s < 5000 * length (procs s)" using 1(3) by (auto simp: position_def sched_ok_def)
  show ?case
  proof (cases "n = 0")
    case True
    then show ?thesis using 1(2,3) p by (subst (asm) sim_step.simps) simp
  next
    case False
    have k: "?k = min n (5000 - current_step s)" "0 < ?k" using 1(3) False by (auto simp: size_minus_def sched_ok_def)
    obtain t where t: "step fuel (current_proc s) ?k s = Some (Stepped t)" "sim_step host fuel (n - ?k) (end_slice host ?k t) = Some (Stepped s')"
      using 1(2) False k by (subst (asm) sim_step.simps) (auto simp: Let_def split: option.splits step_end.splits if_splits)
    have e: "sched t = sched s" using step_sched [OF t(1)] .
    then have ok: "sched_ok t" "position t = position s" "length (procs t) = length (procs s)" "current_step t + ?k \<le> 5000"
      using 1(3) k(1) by (auto simp: sched_def sched_ok_def position_def)
    note q = end_slice_position [OF ok(1) k(2) ok(4) 1(4)]
    have "sched_ok s' \<and> length (procs s') = length (procs (end_slice host ?k t)) \<and>
        position s' = (position (end_slice host ?k t) + (n - ?k)) mod (5000 * length (procs (end_slice host ?k t)))"
      using 1(1) [OF False refl _ t(1) refl t(2) q(1) 1(4)] k(2) by simp
    moreover have "((position s + ?k) mod M + (n - ?k)) mod M = (position s + n) mod M" for M
      unfolding mod_add_left_eq by (simp add: add.assoc)
    ultimately show ?thesis using q(2,3) ok(2,3) by simp
  qed
qed

subsection \<open>Slices\<close>

text \<open>
  A step in which every turn is plain and none aborts returns normally; the slices of \<^verbatim>\<open>sim_t::step\<close> that are reached in a run of \<open>n\<close>
  instructions, each with its length.
\<close>

definition quiet_step :: "nat \<Rightarrow> nat \<Rightarrow> sim_t \<Rightarrow> bool" where
  "quiet_step h n s \<longleftrightarrow> (\<exists>n1 s1. step_entry h n s = Some (n1, s1) \<and>
     (\<forall>n' s'. turns h (n1, s1) (n', s') \<longrightarrow> 0 < n' \<longrightarrow> plain_turn h n' s' \<and> turn h n' s' \<noteq> Failed))"

inductive slices :: "(sim_t \<Rightarrow> sim_t) \<Rightarrow> nat \<Rightarrow> sim_t \<Rightarrow> nat \<Rightarrow> sim_t \<Rightarrow> bool" for host where
  slice_now: "0 < n \<Longrightarrow> slices host n s (min n (5000 - current_step s)) s"
| slice_later: "0 < n \<Longrightarrow> step fuel (current_proc s) (min n (5000 - current_step s)) s = Some (Stepped t) \<Longrightarrow>
    slices host (n - min n (5000 - current_step s)) (end_slice host (min n (5000 - current_step s)) t) k u \<Longrightarrow> slices host n s k u"

lemma step_loop_no_crash:
  assumes "\<And>n' s'. turns h (n, s) (n', s') \<Longrightarrow> 0 < n' \<Longrightarrow> turn h n' s' \<noteq> Failed"
  shows "step_loop fuel h n s \<noteq> Some Crashed"
  using assms
proof (induction fuel arbitrary: n s)
  case (Suc fuel)
  have "turn h n s \<noteq> Failed" if "0 < n" using Suc.prems [OF turns_refl that] .
  moreover have "step_loop fuel h n' s' \<noteq> Some Crashed" if "0 < n" "turn h n s = Turn n' s'" for n' s'
    using Suc.prems turns_next [OF that] by (intro Suc.IH) blast
  ultimately show ?case by (auto split: turn_end.split)
qed simp

lemma step_entry_bound: "step_entry h n s = Some (n1, s1) \<Longrightarrow> n1 \<le> n \<and> length (procs s1) = length (procs s)"
  using scheduling.step_entry_kept [of s "sched s" h n n1 s1] by (auto simp: step_entry_def Let_def sched_def split: if_splits)

lemma quiet_step_returns:
  assumes "quiet_step h n s" "h < length (procs s)" "2 * n + 1 \<le> fuel"
  shows "\<exists>t. step fuel h n s = Some (Stepped t)"
proof -
  obtain n1 s1 where e: "step_entry h n s = Some (n1, s1)"
    and q: "\<And>n' s'. turns h (n1, s1) (n', s') \<Longrightarrow> 0 < n' \<Longrightarrow> plain_turn h n' s' \<and> turn h n' s' \<noteq> Failed"
    using assms(1) unfolding quiet_step_def by blast
  have b: "n1 \<le> n" "length (procs s1) = length (procs s)" using step_entry_bound [OF e] by blast+
  have "work_left h n1 s1 \<le> fuel" using b(1) assms(3) by (simp add: work_left_def of_bool_def)
  then obtain r where r: "step_loop fuel h n1 s1 = Some r"
    using step_loop_returns [of h n1 s1 fuel] b(2) assms(2) q by auto
  moreover have "r \<noteq> Crashed" using step_loop_no_crash [of h n1 s1 fuel] q r by auto
  ultimately show ?thesis using e by (cases r) (simp_all add: step_def)
qed

lemma sim_step_returns:
  assumes "sched_ok s" "\<And>s. sched (host s) = sched s" "\<And>k t. slices host n s k t \<Longrightarrow> quiet_step (current_proc t) k t" "10001 \<le> fuel"
  shows "\<exists>s'. sim_step host fuel n s = Some (Stepped s')"
  using assms(1,3)
proof (induction n arbitrary: s rule: less_induct)
  case (less n)
  let ?k = "min n (5000 - current_step s)"
  show ?case
  proof (cases "n = 0")
    case False
    have k: "size_minus 5000 (current_step s) = 5000 - current_step s" "0 < ?k" "?k \<le> 5000" "current_step s + ?k \<le> 5000"
      using less.prems(1) False by (auto simp: size_minus_def sched_ok_def)
    have "quiet_step (current_proc s) ?k s" using less.prems(2) slice_now [of n host s] False by blast
    then obtain t where t: "step fuel (current_proc s) ?k s = Some (Stepped t)"
      using quiet_step_returns [of "current_proc s" ?k s fuel] less.prems(1) k(3) assms(4) by (auto simp: sched_ok_def)
    have ok: "sched_ok t" "current_step t + ?k \<le> 5000" using step_sched [OF t] less.prems(1) k(4) by (auto simp: sched_def sched_ok_def)
    have "\<exists>s'. sim_step host fuel (n - ?k) (end_slice host ?k t) = Some (Stepped s')"
    proof (rule less.IH)
      show "n - ?k < n" using k(2) False by simp
      show "sched_ok (end_slice host ?k t)" by (rule end_slice_position(1) [OF ok(1) k(2) ok(2) assms(2)])
      show "quiet_step (current_proc u) j u" if "slices host (n - ?k) (end_slice host ?k t) j u" for j u
        using less.prems(2) slice_later [OF _ t that] False by blast
    qed
    then show ?thesis using t k(1,2) False by (subst sim_step.simps) (simp add: Let_def)
  qed (simp add: sim_step.simps)
qed

text \<open>The hart that is current when \<open>n\<close> instructions have been executed, if \<open>n\<close> is a number of whole slices.\<close>

lemma position_hart:
  assumes "sched_ok s" "sched_ok s'" "length (procs s') = length (procs s)" "position s' = (position s + n) mod (5000 * length (procs s))"
    and k: "k < length (procs s)" and n: "n = 5000 * ((k + length (procs s) - current_proc s) mod length (procs s))"
  shows "current_proc s' = k"
proof -
  let ?L = "length (procs s)"
  have c: "current_proc s < ?L" "current_step s < 5000" using assms(1) by (simp_all add: sched_ok_def)
  have "position s + n = 5000 * (current_proc s + (k + ?L - current_proc s) mod ?L) + current_step s" by (simp add: n position_def)
  then have "(position s + n) div 5000 = current_proc s + (k + ?L - current_proc s) mod ?L" using c(2) by simp
  then have "position s' div 5000 = (current_proc s + (k + ?L - current_proc s) mod ?L) mod ?L" unfolding assms(4) by (simp add: mod_mult2_eq)
  also have "\<dots> = (k + ?L) mod ?L" using c(1) by (simp add: mod_add_right_eq)
  also have "\<dots> = k" using k by simp
  finally show ?thesis using assms(2) by (simp add: position_def sched_ok_def)
qed

lemma slices_0: "\<not> slices host 0 s k t"
  by (auto elim: slices.cases)

end
