(* ===== verification/Riscv_Soundness.thy ===== *)
theory Riscv_Soundness
  imports Riscv_Steps
begin

text \<open>
  The invariant of the whole simulator: every hart and register is well-formed, the decoder agrees with the opcode table and
  the instruction cache holds decoded instructions of the width of the hart.  \<^verbatim>\<open>processor_t::step\<close> and \<^verbatim>\<open>sim_t::step\<close> keep it.
\<close>

subsection \<open>The decoded instructions\<close>

text \<open>
  A fetched instruction of a hart of width \<open>xl\<close>: the illegal one, or a function compiled for that width with a word of at most
  32 bits, sign-extended.
\<close>

definition fetch_ok :: "nat \<Rightarrow> string \<times> u64 \<Rightarrow> bool" where
  "fetch_ok xl f \<longleftrightarrow> fst f = ''illegal_instruction'' \<or>
     (take 5 (fst f) = (if xl = 64 then ''rv64_'' else ''rv32_'') \<and> sext32 (snd f) = snd f)"

abbreviation (input) base_table :: "insn_desc list" where "base_table \<equiv> instructions register_base_instructions"

definition low_distinct :: "int \<times> int \<Rightarrow> bool" where
  "low_distinct x \<longleftrightarrow> fst x AND 31 \<noteq> snd x AND 31"

lemma base_low_bits: "list_all low_distinct (map snd (base_insns_1 @ base_insns_2))"
  by code_simp

lemma bit_31: "bit (31 :: u64) n \<longleftrightarrow> n < 5" "bit (31 :: int) n \<longleftrightarrow> n < 5"
proof -
  have "(31 :: u64) = mask 5" "(31 :: int) = mask 5" by (simp_all add: mask_eq_exp_minus_1)
  then show "bit (31 :: u64) n \<longleftrightarrow> n < 5" "bit (31 :: int) n \<longleftrightarrow> n < 5" by (simp_all only: bit_mask_iff possible_bit_word possible_bit_int) auto
qed

lemma base_table_set: "d \<in> set base_table \<Longrightarrow> d = illegal_desc \<or> (\<exists>x \<in> set (base_insns_1 @ base_insns_2). d = base_desc x)"
  unfolding base_instructions_eq by (auto simp: register_insn_def split: if_splits)

lemma low_bits_word: "(word_of_int m :: u64) AND 31 = word_of_int k AND 31 \<Longrightarrow> m AND 31 = k AND 31"
proof -
  assume a: "(word_of_int m :: u64) AND 31 = word_of_int k AND 31"
  have "bit m n = bit k n" if "n < 5" for n
    using arg_cong [OF a, of "\<lambda>w. bit w n"] that by (simp add: bit_and_iff bit_31 bit_word_of_int_iff)
  then show ?thesis by (intro bit_eqI) (auto simp: bit_and_iff bit_31)
qed

lemma base_low_desc:
  assumes "x \<in> set (base_insns_1 @ base_insns_2)" "insn_matches b (base_desc x)"
  shows "b AND 31 \<noteq> 31"
proof
  assume b: "b AND 31 = 31"
  obtain n m k where x: "x = (n, m, k)" by (cases x)
  have "low_distinct (snd x)" using base_low_bits assms(1) by (auto simp: list_all_iff)
  then have "m AND 31 \<noteq> k AND 31" using x by (simp add: low_distinct_def)
  moreover have "word_of_int m = b AND word_of_int k" using assms(2) x by (simp add: insn_matches_def base_desc_def)
  then have "word_of_int m AND 31 = (b AND 31) AND word_of_int k" by (simp add: and.assoc and.commute and.left_commute)
  then have "(word_of_int m :: u64) AND 31 = word_of_int k AND 31" by (simp add: b and.commute)
  ultimately show False using low_bits_word by blast
qed

lemma decode_fetch_ok:
  assumes "decoder_ok base_table d" "decode_insn b xl d = Some (f, d')" "sext32 b = b \<or> b AND 31 = 31"
  shows "decoder_ok base_table d'" "fetch_ok xl (f, b)"
proof -
  obtain e where d: "decoder_ok base_table d'" "lookup_insn b base_table = Some e"
    and f: "f = insn_func xl e \<or> b = 0 \<and> f = insn_func xl illegal_desc"
    using decode_insn_ok [OF assms(1), of b xl] assms(2) by auto
  show "decoder_ok base_table d'" by (rule d)
  have m: "insn_matches b e" "e \<in> set base_table" using base_lookup [OF d(2)] by auto
  have ill: "insn_func xl illegal_desc = ''illegal_instruction''" by (simp add: insn_func_def illegal_desc_def)
  consider "e = illegal_desc" | x where "x \<in> set (base_insns_1 @ base_insns_2)" "e = base_desc x" using base_table_set [OF m(2)] by blast
  then show "fetch_ok xl (f, b)"
  proof cases
    case 2
    then have "sext32 b = b" using base_low_desc [OF 2(1)] m(1) assms(3) by blast
    then show ?thesis using f ill 2 by (auto simp: fetch_ok_def insn_func_def base_desc_def split: prod.splits)
  qed (use f ill in \<open>auto simp: fetch_ok_def\<close>)
qed

subsection \<open>The words that fetching gives\<close>

definition word_shape :: "u64 \<Rightarrow> bool" where
  "word_shape b \<longleftrightarrow> sext32 b = b \<or> b AND 31 = 31"

lemma sext32_iff: "sext32 b = b \<longleftrightarrow> (\<forall>n. 32 \<le> n \<and> n < 64 \<longrightarrow> bit b n = bit b 31)"
proof -
  have "bit (sext32 b) n = bit b n \<longleftrightarrow> (32 \<le> n \<and> n < 64 \<longrightarrow> bit b n = bit b 31)" for n
    using bit_imp_le_length [of b n] by (auto simp: bit_sext32)
  then show ?thesis by (simp only: bit_eq_iff possible_bit_word) (auto dest: bit_imp_le_length)
qed

lemma low_ones_iff: "b AND 31 = 31 \<longleftrightarrow> (\<forall>n < 5. bit b n)" for b :: u64
proof
  assume "b AND 31 = 31"
  then show "\<forall>n < 5. bit b n" by (metis bit_31(1) bit_and_iff)
next
  assume "\<forall>n < 5. bit b n"
  then show "b AND 31 = 31" by (intro bit_word_eqI) (auto simp: bit_and_iff bit_31)
qed

lemma word_shape_fetched:
  fixes w x :: u16
  shows "word_shape (ucast w OR push_bit 16 (scast x))"
  unfolding word_shape_def sext32_iff
  by (auto simp: bit_or_iff bit_shl bit_scast bit_unsigned_iff dest: bit_imp_le_length)

lemma word_shape_short: "word_shape (scast (w :: u16))"
  unfolding word_shape_def sext32_iff by (auto simp: bit_scast)

lemma insn_length_long: "insn_length b \<noteq> 4 \<Longrightarrow> insn_length b \<noteq> 2 \<Longrightarrow> b AND 31 = 31"
  using word_and_le1 [of b 31] by (auto simp: insn_length_def split: if_splits)

lemma word_shape_long: "b AND 31 = 31 \<Longrightarrow> word_shape (b OR c)"
  by (auto simp: word_shape_def low_ones_iff bit_or_iff)

lemma fetch_insn_shape: "fetch_insn h a s = (Ok (b, len, ptr), s') \<Longrightarrow> word_shape b"
  unfolding fetch_insn_def fetch_parcel_def Let_def
  by (auto simp: bnd_Ok gets_def return_def or.assoc intro: word_shape_fetched word_shape_short word_shape_long [OF insn_length_long]
      split: if_splits) (metis word_shape_fetched)

lemma icache_data_simps [simp]: "icache_data (refill_tlb v p type m) = icache_data m" "icache_data (trace a len type m) = icache_data m"
  by (cases type; simp add: refill_tlb_def Let_def) (simp add: trace_def)

lemma fetch_insn_frame: "keeps_inv (framed c) (fetch_insn h a)"
proof -
  have "keeps_inv (framed c) (bnd m (\<lambda>d. case k d of None \<Rightarrow> undefined_behaviour | Some (Some i) \<Rightarrow> trigger (t d i) | Some None \<Rightarrow> return x))"
    if "keeps_inv (framed c) m" for m k t x
    using that by (intro hoare_intro) (auto intro: hoare_intro split: option.split)
  then have "keeps_inv (framed c) (translate_insn_addr h a)" for a
    unfolding translate_insn_addr_def fetch_slow_path_def Let_def by (intro hoare_intro) simp_all
  then show ?thesis unfolding fetch_insn_def fetch_parcel_def Let_def by (intro hoare_intro)
qed

subsection \<open>The invariant of the whole machine\<close>

definition decoded_ok :: "decoded \<Rightarrow> bool" where
  "decoded_ok c \<longleftrightarrow> (case c of (d, data, xl) \<Rightarrow> decoder_ok base_table d \<and> (\<forall>e. fetch_ok xl (data e)))"

definition caches_ok :: "sim_t \<Rightarrow> bool" where
  "caches_ok s \<longleftrightarrow> (\<forall>p \<in> set (procs s). decoded_ok (cached p))"

definition step_inv :: "nat \<Rightarrow> nat \<Rightarrow> sim_t \<Rightarrow> bool" where
  "step_inv h xl s \<longleftrightarrow> machine_inv h xl s \<and> caches_ok s"

lemma caches_frame: "frame s' = frame s \<Longrightarrow> caches_ok s' = caches_ok s"
proof -
  have *: "caches_ok q \<longleftrightarrow> (\<forall>c \<in> set (map cached (procs q)). decoded_ok c)" for q by (simp add: caches_ok_def)
  show "frame s' = frame s \<Longrightarrow> ?thesis" unfolding * frame_def by simp
qed

lemma caches_update: "caches_ok s \<Longrightarrow> (decoded_ok (cached (get_proc h s)) \<Longrightarrow> decoded_ok (cached (f (get_proc h s)))) \<Longrightarrow> caches_ok (update_proc h f s)"
  using set_update_subset_insert [of "procs s" h "f (procs s ! h)"]
  by (cases "h < length (procs s)") (auto simp: caches_ok_def update_proc_def get_proc_def list_update_beyond)

interpretation machine_fetch: fetch_closed h "machine_inv h xl" for h xl
proof unfold_locales
  show "machine_inv h xl (s\<lparr>mem := m\<rparr>)" if "machine_inv h xl s" for s m by (rule machine_inv_frame [OF that]) simp_all
  show "machine_inv h xl (update_proc h (\<lambda>p. p\<lparr>mmu := f (mmu p)\<rparr>) s)" if "machine_inv h xl s" for s f
    by (rule machine_inv_update [OF that]) (rule proc_step_mmu)
  show "machine_inv h xl (update_proc h (\<lambda>p. p\<lparr>opcodes := d\<rparr>) s)" if "machine_inv h xl s" for s d
    by (rule machine_inv_update [OF that]) (simp add: proc_ok_def proc_step_def hart_ok_def)
qed

lemma refill_icache_Ok:
  assumes "fetch_insn h a s = (Ok (b, len, ptr), s1)" "decode_insn b (xlen (get_proc h s1)) (opcodes (get_proc h s1)) = Some (fn, d)"
  shows "\<exists>g. refill_icache h a slot s =
      (Ok (fn, b), update_proc h (\<lambda>p. p\<lparr>mmu := g (mmu p)\<rparr>) (update_proc h (\<lambda>p. p\<lparr>opcodes := d\<rparr>) s1)) \<and>
    (\<forall>m. icache_data (g m) = icache_data m \<or> (\<exists>e. icache_data (g m) = (icache_data m)(e := (fn, b))))"
proof -
  define g where "g = (\<lambda>m. let m = (case slot of Some e \<Rightarrow> m\<lparr>icache_tag := (icache_tag m)(e := a), icache_data := (icache_data m)(e := (fn, b))\<rparr> | None \<Rightarrow> m);
      paddr = mem_to_addr (case ptr of In_mem x \<Rightarrow> x | Fetch_temp \<Rightarrow> fetch_temp_at m)
    in if interested_in_range paddr (paddr + 1) FETCH m
       then trace paddr len FETCH (case slot of Some e \<Rightarrow> m\<lparr>icache_tag := (icache_tag m)(e := - 1)\<rparr> | None \<Rightarrow> m)
       else m)"
  have "refill_icache h a slot s = (Ok (fn, b), update_proc h (\<lambda>p. p\<lparr>mmu := g (mmu p)\<rparr>) (update_proc h (\<lambda>p. p\<lparr>opcodes := d\<rparr>) s1))"
    unfolding refill_icache_def decode_bits_def bnd_def assms(1)
    by (simp add: hart_def gets_def assms(2) modify_def return_def update_mmu_def g_def)
  moreover have "icache_data (g m) = icache_data m \<or> (\<exists>e. icache_data (g m) = (icache_data m)(e := (fn, b)))" for m
    by (cases slot) (auto simp: g_def Let_def)
  ultimately show ?thesis by blast
qed

lemma refill_icache_not_Ok:
  assumes "fetch_insn h a s = (r1, s1)" "refill_icache h a slot s = (r, s')"
    "\<And>b len ptr. r1 = Ok (b, len, ptr) \<Longrightarrow> decode_insn b (xlen (get_proc h s1)) (opcodes (get_proc h s1)) = None"
  shows "s' = s1" "r \<noteq> Ok f"
proof -
  have "s' = s1 \<and> r \<noteq> Ok f"
  proof (cases r1)
    case (Ok x)
    obtain b len ptr where x: "x = (b, len, ptr)" by (cases x)
    have "decode_bits h b s1 = (Undefined, s1)"
      using assms(3) Ok x by (simp add: decode_bits_def bnd_def hart_def gets_def undefined_behaviour_def)
    then show ?thesis using assms(1,2) Ok x by (simp add: refill_icache_def bnd_def)
  qed (use assms(1,2) in \<open>auto simp: refill_icache_def bnd_def\<close>)
  then show "s' = s1" "r \<noteq> Ok f" by simp_all
qed

lemma refill_caches:
  assumes inv: "step_inv h xl s" and r: "refill_icache h a slot s = (r, s')"
  shows "caches_ok s'" "r = Ok f \<Longrightarrow> fetch_ok xl f"
proof -
  have i: "machine_inv h xl s" "caches_ok s" using inv by (simp_all add: step_inv_def)
  obtain r1 s1 where f: "fetch_insn h a s = (r1, s1)" by (cases "fetch_insn h a s")
  have i1: "machine_inv h xl s1" using machine_fetch.fetch_insn_closed [of h xl a] i(1) f unfolding keeps_inv_def by (metis snd_conv)
  have "frame s1 = frame s" using fetch_insn_frame [of "frame s" h a] f unfolding keeps_inv_def by (metis snd_conv)
  then have c1: "caches_ok s1" using caches_frame [of s1 s] i(2) by blast
  let ?p = "get_proc h s1"
  have h1: "h < length (procs s1)" "max_xlen ?p = xl" using i1 by (simp_all add: machine_inv_def)
  have x: "xlen ?p = xl" using machine_inv_hart(1,2) [OF i1] by (simp add: proc_ok_def hart_ok_def)
  have ck: "decoded_ok (cached ?p)" using c1 h1(1) by (simp add: caches_ok_def get_proc_def)
  have "caches_ok s' \<and> (\<forall>f. r = Ok f \<longrightarrow> fetch_ok xl f)"
  proof (cases "\<exists>b len ptr fn d. r1 = Ok (b, len, ptr) \<and> decode_insn b xl (opcodes ?p) = Some (fn, d)")
    case True
    then obtain b len ptr fn d where b: "r1 = Ok (b, len, ptr)" "decode_insn b xl (opcodes ?p) = Some (fn, d)" by blast
    have w: "sext32 b = b \<or> b AND 31 = 31" using fetch_insn_shape f b(1) by (simp add: word_shape_def)
    have d: "decoder_ok base_table d" "fetch_ok xl (fn, b)"
      using decode_fetch_ok [OF _ b(2) w] ck by (simp_all add: decoded_ok_def cached_def)
    let ?s2 = "update_proc h (\<lambda>p. p\<lparr>opcodes := d\<rparr>) s1"
    have c2: "caches_ok ?s2" by (rule caches_update [OF c1]) (use d(1) in \<open>simp add: decoded_ok_def cached_def\<close>)
    have f': "fetch_insn h a s = (Ok (b, len, ptr), s1)" using f b(1) by simp
    have b': "decode_insn b (xlen ?p) (opcodes ?p) = Some (fn, d)" using b(2) x by simp
    obtain g where g0: "refill_icache h a slot s = (Ok (fn, b), update_proc h (\<lambda>p. p\<lparr>mmu := g (mmu p)\<rparr>) ?s2)"
      and gd: "\<forall>m. icache_data (g m) = icache_data m \<or> (\<exists>e. icache_data (g m) = (icache_data m)(e := (fn, b)))"
      using refill_icache_Ok [OF f' b'] by blast
    have g: "s' = update_proc h (\<lambda>p. p\<lparr>mmu := g (mmu p)\<rparr>) ?s2" "r = Ok (fn, b)" using g0 r by simp_all
    have p2: "get_proc h ?s2 = ?p\<lparr>opcodes := d\<rparr>" using h1(1) by simp
    have "decoded_ok (cached (?p\<lparr>opcodes := d, mmu := g (mmu ?p)\<rparr>))"
      using spec [OF gd, of "mmu ?p"] d h1(2) ck by (auto simp: decoded_ok_def cached_def)
    then have "caches_ok s'" unfolding g(1)
      by (intro caches_update [OF c2]) (simp add: p2)
    then show ?thesis using g(2) d(2) by simp
  next
    case False
    then have "decode_insn b (xlen ?p) (opcodes ?p) = None" if "r1 = Ok (b, len, ptr)" for b len ptr
      using that x by (cases "decode_insn b xl (opcodes ?p)") auto
    then have "s' = s1 \<and> (\<forall>f. r \<noteq> Ok f)" using refill_icache_not_Ok [OF f r] by blast
    then show ?thesis using c1 by simp
  qed
  then show "caches_ok s'" "r = Ok f \<Longrightarrow> fetch_ok xl f" by simp_all
qed

lemma step_inv_update:
  assumes inv: "step_inv h xl s"
    and f: "proc_ok (get_proc h s) \<Longrightarrow> proc_step (get_proc h s) (f (get_proc h s))" "cached (f (get_proc h s)) = cached (get_proc h s)"
  shows "step_inv h xl (update_proc h f s)"
  using inv f(2) unfolding step_inv_def by (auto intro: machine_inv_update f(1) caches_update)

lemma loop_updates_ok:
  assumes "proc_ok p"
  shows "proc_step p (update_state (\<lambda>t. t\<lparr>st_pc := a\<rparr>) p)" "proc_step p (update_state (\<lambda>t. t\<lparr>serialized := b\<rparr>) p)"
    "proc_step p (update_state (\<lambda>t. t\<lparr>single_step := m\<rparr>) p)" "proc_step p (update_state (\<lambda>t. t\<lparr>minstret := c t\<rparr>) p)"
  using assms by (auto simp: proc_step_def proc_ok_def hart_ok_def state_ok_def update_state_def)

lemma proc_step_option:
  assumes "some_ok r" "regs_kept_option p r" "r = Some q" "proc_ok p"
  shows "proc_step p q" "cached q = cached p"
  using assms by (auto simp: some_ok_def regs_kept_def intro: proc_step_kept)

lemma execute_insn_inv:
  assumes "step_inv h xl s" "fetch_ok xl f" "execute_insn h pc f s = (r, s')"
  shows "step_inv h xl s'"
proof -
  have i: "machine_inv h xl s" "caches_ok s" using assms(1) by (simp_all add: step_inv_def)
  have xl: "xl = 32 \<or> xl = 64" using machine_inv_hart(3) [OF i(1)] by simp
  have "keeps_inv (machine_inv h xl) (execute_insn h pc f)"
    using assms(2) xl insn_function_keeps
    by (cases f) (auto simp: fetch_ok_def execute_insn_def illegal_instruction_def keeps_inv_simps)
  then have "machine_inv h xl s'" using i(1) assms(3) unfolding keeps_inv_def by (metis snd_conv)
  moreover have "frame s' = frame s" using execute_insn_frame [of "frame s" h pc f] assms(3) unfolding keeps_inv_def by (metis snd_conv)
  ultimately show ?thesis using i(2) caches_frame [of s' s] by (simp add: step_inv_def)
qed

interpretation machine: step_kept h "fetch_ok xl" "step_inv h xl" for h xl
proof unfold_locales
  show "step_inv h xl s'" if "step_inv h xl s" "refill_icache h a slot s = (r, s')" for s s' a slot r
  proof -
    have "machine_inv h xl s'"
      using machine_fetch.refill_icache_closed [of h xl a slot] that unfolding keeps_inv_def step_inv_def by (metis snd_conv)
    then show ?thesis using refill_caches(1) [OF that] by (simp add: step_inv_def)
  qed
  show "fetch_ok xl f" if "step_inv h xl s" "refill_icache h a slot s = (Ok f, s')" for s s' a slot f
    using refill_caches(2) [OF that] by simp
  show "fetch_ok xl (icache_data (mmu (get_proc h s)) e)" if "step_inv h xl s" for s e
    using that by (auto simp: step_inv_def machine_inv_def caches_ok_def decoded_ok_def cached_def get_proc_def)
  show "step_inv h xl (update_proc h (\<lambda>p. p\<lparr>mmu := (mmu p)\<lparr>matched_trigger := None\<rparr>\<rparr>) s)" if "step_inv h xl s" for s
    by (rule step_inv_update [OF that]) (auto simp: cached_def intro: proc_step_mmu)
  show "step_inv h xl (update_proc h (\<lambda>_. p) s)" if "step_inv h xl s" "take_trap t pc (get_proc h s) = Some p" for s t pc p
    by (rule step_inv_update [OF that(1)])
      (use that machine_inv_hart(1) [of h xl s] in \<open>auto intro!: proc_step_option [OF take_trap_ok take_trap_regs_kept that(2)] simp: step_inv_def proc_ok_def\<close>)
  show "step_inv h xl (update_proc h (\<lambda>_. p) s)" if "step_inv h xl s" "enter_debug_mode d (get_proc h s) = Some p" for s d p
    by (rule step_inv_update [OF that(1)])
      (use that machine_inv_hart(1) [of h xl s] in \<open>auto intro!: proc_step_option [OF enter_debug_mode_ok enter_debug_mode_regs_kept that(2)] simp: step_inv_def proc_ok_def\<close>)
qed (auto intro: execute_insn_inv step_inv_update loop_updates_ok)

definition sim_ok :: "sim_t \<Rightarrow> bool" where
  "sim_ok s \<longleftrightarrow> machine_ok s \<and> caches_ok s"

lemma step_sim_ok: "sim_ok s \<Longrightarrow> h < length (procs s) \<Longrightarrow> step fuel h n s = Some (Stepped s') \<Longrightarrow> sim_ok s'"
  using machine.step_keeps [of h "max_xlen (get_proc h s)" s fuel n s'] by (simp add: sim_ok_def step_inv_def machine_inv_def)

text \<open>The scheduler keeps it too, if the host does.\<close>

lemma machine_ok_inv: "machine_ok s \<Longrightarrow> h < length (procs s) \<Longrightarrow> machine_inv h (max_xlen (get_proc h s)) s"
  by (simp add: machine_inv_def)

lemma end_slice_ok:
  assumes "sim_ok s" "current_proc s < length (procs s)" "\<And>s. sim_ok s \<Longrightarrow> sim_ok (host s)"
  shows "sim_ok (end_slice host k s)"
proof -
  let ?h = "current_proc s" and ?xl = "max_xlen (get_proc (current_proc s) s)"
  have i: "step_inv ?h ?xl s" using assms(1,2) machine_ok_inv by (simp add: sim_ok_def step_inv_def)
  have ok: "sim_ok t" if "step_inv h xl t" for h xl t using that by (simp add: sim_ok_def step_inv_def machine_inv_def)
  have vars: "step_inv h xl (t\<lparr>current_step := a\<rparr>) = step_inv h xl t" "step_inv h xl (t\<lparr>current_proc := a\<rparr>) = step_inv h xl t" for h xl t a
    by (simp_all add: step_inv_def machine_inv_def machine_ok_def caches_ok_def get_proc_def)
  have yield: "step_inv ?h ?xl (update_proc ?h yield_load_reservation t)" if "step_inv ?h ?xl t" for t
    using that free_fields_ok(5) by (intro step_inv_update) (auto simp: yield_load_reservation_def proc_step_kept proc_ok_def)
  have rtc: "step_inv ?h ?xl (rtc_increment c t)" if "step_inv ?h ?xl t" for c t
    using that rtc_increment_inv caches_frame [OF frame_rtc] by (simp add: step_inv_def)
  have good: "sim_ok (host t)" if "step_inv ?h ?xl t" for t using assms(3) ok that by blast
  have last: "sim_ok (s\<lparr>current_step := a\<rparr>)" for a using ok [of ?h ?xl] i vars(1) by blast
  show ?thesis
    unfolding end_slice_def Let_def using i by (auto simp: vars last intro!: good yield rtc)
qed

lemma sim_step_ok:
  assumes "sim_step host fuel n s = Some (Stepped s')" "sim_ok s" "sched_ok s"
    "\<And>s. sched (host s) = sched s" "\<And>s. sim_ok s \<Longrightarrow> sim_ok (host s)"
  shows "sim_ok s'"
  using assms
proof (induction host fuel n s rule: sim_step.induct)
  case (1 host fuel n s)
  let ?k = "min n (size_minus 5000 (current_step s))"
  show ?case
  proof (cases "n = 0")
    case True
    then show ?thesis using 1(2,3) by (subst (asm) sim_step.simps) simp
  next
    case False
    have k: "0 < ?k" "current_step s + ?k \<le> 5000" using 1(4) False by (auto simp: size_minus_def sched_ok_def)
    obtain t where t: "step fuel (current_proc s) ?k s = Some (Stepped t)" "sim_step host fuel (n - ?k) (end_slice host ?k t) = Some (Stepped s')"
      using 1(2) False k by (subst (asm) sim_step.simps) (auto simp: Let_def split: option.splits step_end.splits if_splits)
    have e: "sched_ok t" "current_step t + ?k \<le> 5000" using step_sched [OF t(1)] 1(4) k(2) by (auto simp: sched_def sched_ok_def)
    have "sim_ok t" using step_sim_ok [OF 1(3) _ t(1)] 1(4) by (simp add: sched_ok_def)
    then have o: "sim_ok (end_slice host ?k t)" using e(1) 1(6) by (intro end_slice_ok) (auto simp: sched_ok_def)
    show ?thesis using 1(1) [OF False refl _ t(1) refl t(2) o end_slice_position(1) [OF e(1) k(1) e(2) 1(5)] 1(5,6)] k(1) by simp
  qed
qed

subsection \<open>Examples\<close>

text \<open>A machine with one hart whose instruction cache holds two \<^verbatim>\<open>nop\<close>s at \<open>0x80000000\<close>.\<close>

definition nop_hart :: "decoder \<Rightarrow> processor_t" where
  "nop_hart d = mprv_hart\<lparr>state := state_reset\<lparr>st_pc := 0x80000000\<rparr>, mmu := (mmu mprv_hart)\<lparr>
     icache_tag := (\<lambda>_. - 1)(0 := 0x80000000, 1 := 0x80000004),
     icache_data := (\<lambda>_. (''illegal_instruction'', 0))(0 := (''rv64_addi'', 0x13), 1 := (''rv64_addi'', 0x13))\<rparr>,
     opcodes := d\<rparr>"

definition nop_sim :: "decoder \<Rightarrow> sim_t" where
  "nop_sim d = mprv_sim\<lparr>procs := [nop_hart d]\<rparr>"

lemma nop_turn: "(case turn 0 1 (nop_sim d) of Turn n s \<Rightarrow> Some (n, st_pc (state (get_proc 0 s)), minstret (state (get_proc 0 s))) | _ \<Rightarrow> None) = Some (0, 0x80000004, 1)"
  by code_simp

lemma nop_plain: "plain_turn 0 1 (nop_sim d)"
  by code_simp

lemma nop_machine: "machine_ok (nop_sim d)"
  by code_simp

lemma nop_step: "(case sim_step id 3 1 (nop_sim d) of Some (Stepped s) \<Rightarrow> Some (st_pc (state (get_proc 0 s))) | _ \<Rightarrow> None) = Some 0x80000004"
  by code_simp

lemma nop_sched: "sched_ok (nop_sim d)"
  by (simp add: sched_ok_def nop_sim_def mprv_sim_def)

lemma nop_entry: "step_entry 0 1 (nop_sim d) = Some (1, nop_sim d)"
  by (simp add: step_entry_def nop_sim_def nop_hart_def get_proc_def state_reset_def dcsr_reset_def get_interrupt_def mprv_sim_def Let_def)

lemma nop_sim_ok: "sim_ok (nop_sim register_base_instructions)"
proof -
  have "sext32 0x13 = 0x13" by code_simp
  then show ?thesis using nop_machine base_decoder_ok
    by (simp add: sim_ok_def caches_ok_def decoded_ok_def cached_def) (simp add: nop_sim_def nop_hart_def mprv_hart_def fetch_ok_def)
qed

lemma nop_slices:
  assumes "slices id 1 (nop_sim d) k t"
  shows "k = 1 \<and> t = nop_sim d"
proof -
  have c: "current_step (nop_sim d) = 0" by (simp add: nop_sim_def mprv_sim_def)
  from assms show ?thesis by cases (use c slices_0 [of id] in simp_all)
qed

lemma nop_quiet: "quiet_step 0 1 (nop_sim d)"
proof -
  obtain s2 where s2: "turn 0 1 (nop_sim d) = Turn 0 s2" using nop_turn [of d] by (auto split: turn_end.splits)
  show ?thesis unfolding quiet_step_def using nop_entry [of d] s2 nop_plain [of d]
    by (auto simp: turns_from [of 0 "Suc 0"] turns_from [of 0 0])
qed

text \<open>
  Single-stepping: after an instruction that goes on to an address the hart enters debug mode there, but after one that ends with
  \<^verbatim>\<open>PC_SERIALIZE_AFTER\<close> (\<^verbatim>\<open>mret\<close>, \<^verbatim>\<open>sret\<close>) it does not: the \<^verbatim>\<open>break\<close> of \<^verbatim>\<open>advance_pc\<close> passes the check by, and the next turn executes one more.
\<close>

lemma single_step_return:
  assumes "bnd (load_insn h pc) (execute_insn h pc) (put_state h start_single_step s) = (Ok npc, s1)"
    "single_step (state (get_proc h s1)) = STEP_STEPPED" "h < length (procs s1)"
  shows "npc = PC_SERIALIZE_AFTER \<Longrightarrow> slow_insn h i pc s = (Breaks, Suc i, st_pc (state (get_proc h s1)), s1)"
    "\<not> invalid_pc npc \<Longrightarrow> slow_insn h i pc s = (Breaks, Suc i, npc, s2) \<Longrightarrow> dpc (state (get_proc h s2)) = npc"
  using assms by (auto simp: slow_insn_def run_def Let_def advance_pc_def update_state_def enter_debug_def enter_debug_mode_def
      set_privilege_def mmu_flush_tlb_def split: option.splits if_splits)

text \<open>A fetch that misses the TLB does not look at the triggers.\<close>

lemma fetch_slow_path_no_trigger: "fst (fetch_slow_path h v s) \<noteq> Trigger t"
proof -
  obtain r s1 where t: "translate h v FETCH s = (r, s1)" by (cases "translate h v FETCH s")
  then have "r \<noteq> Trigger t"
    by (auto simp: translate_def walk_def bnd_def return_def Let_def apfst_def map_prod_def split: option.splits prod.splits result.splits if_splits)
  then show ?thesis
    using t by (cases r) (auto simp: fetch_slow_path_def bnd_def throw_def gets_def return_def update_mmu_def modify_def split: option.splits)
qed

subsection \<open>The word 0\<close>

text \<open>The two entries that match the word 0.\<close>

lemma zero_entries: "list_all (\<lambda>(name, match, mask'). match = 0 \<longrightarrow> name = ''c_addi4spn'') (base_insns_1 @ base_insns_2)"
  by code_simp

lemma zero_matches: "list_all (\<lambda>(name, match, mask'). 0 \<le> match \<and> match < 2 ^ 64) (base_insns_1 @ base_insns_2)"
  by code_simp

lemma zero_lookup:
  assumes "lookup_insn 0 (instructions register_base_instructions) = Some e"
  shows "e = illegal_desc \<or> (\<exists>match mask'. e = base_desc (''c_addi4spn'', match, mask'))"
proof -
  have "e = illegal_desc \<or> (\<exists>x \<in> set (base_insns_1 @ base_insns_2). e = base_desc x)"
    by (rule base_table_set [OF base_lookup(2) [OF assms]])
  moreover have "insn_match e = 0" using base_lookup(1) [OF assms] by (simp add: insn_matches_def)
  moreover have "name = ''c_addi4spn''" if "(name, m, k) \<in> set (base_insns_1 @ base_insns_2)" "insn_match (base_desc (name, m, k)) = 0" for name m k
  proof -
    have "0 \<le> m" "m < 2 ^ 64" "m = 0 \<longrightarrow> name = ''c_addi4spn''" using zero_entries zero_matches that(1) unfolding list_all_iff by fastforce+
    moreover have "2 ^ 64 dvd m" using that(2) by (simp add: base_desc_def word_of_int_eq_0_iff)
    ultimately have "m = 0" using zdvd_imp_le [of "2 ^ 64" m] by fastforce
    then show ?thesis using \<open>m = 0 \<longrightarrow> name = ''c_addi4spn''\<close> by blast
  qed
  ultimately show ?thesis by (metis prod_cases3)
qed

lemma zero_word_illegal:
  assumes "lookup_insn 0 (instructions register_base_instructions) = Some e" "f = insn_func xl e \<or> f = insn_func xl illegal_desc"
  shows "execute_insn h pc (f, 0) s = (Throw trap_illegal_instruction, s)"
proof -
  have c: "insn_c_addi4spn h xl pc 0 s = (Throw trap_illegal_instruction, s)" for xl
    by (simp add: insn_c_addi4spn_def require_extension_def require_def bnd_def hart_def gets_def throw_def rvc_addi4spn_imm_def insn_x_def)
  have n: "map_of insn_table ''c_addi4spn'' = Some insn_c_addi4spn" by (simp add: insn_table_def integer_insns_def muldiv_insns_def atomic_insns_def compressed_insns_def)
  have "insn_function ''c_addi4spn'' h xl pc 0 s = (Throw trap_illegal_instruction, s)" for xl
    by (simp add: insn_function_def n c)
  then have e: "execute_insn h pc (''rv32_c_addi4spn'', 0) s = (Throw trap_illegal_instruction, s)"
      "execute_insn h pc (''rv64_c_addi4spn'', 0) s = (Throw trap_illegal_instruction, s)"
      "execute_insn h pc (''illegal_instruction'', 0) s = (Throw trap_illegal_instruction, s)"
    by (simp_all add: execute_insn_def illegal_instruction_def throw_def)
  have "insn_func xl illegal_desc = ''illegal_instruction''" by (simp add: insn_func_def illegal_desc_def)
  moreover have "insn_func xl (base_desc (''c_addi4spn'', m, k)) \<in> {''rv32_c_addi4spn'', ''rv64_c_addi4spn''}" for m k
    by (simp add: insn_func_def base_desc_def)
  ultimately have "f \<in> {''rv32_c_addi4spn'', ''rv64_c_addi4spn'', ''illegal_instruction''}"
    using zero_lookup [OF assms(1)] assms(2) by (metis insertCI insertE singletonD)
  then show ?thesis using e by (elim insertE emptyE) simp_all
qed

end
