(* ===== verification/Spec2Isabelle.thy ===== *)
theory Spec2Isabelle
  imports SoftFloat_Special
    Cache_Sim
    Riscv_Decode
    Riscv_Opcodes
    Riscv_Isolation
    Riscv_Soundness
begin

text \<open>
  A verification of the core of Spike, the RISC-V ISA simulator of this repository, with the ORAM controller
  and cache models it adds.

  \<^bold>\<open>The program.\<close>  \<^verbatim>\<open>softfloat/\<close> is Berkeley SoftFloat, the IEEE 754 arithmetic that the floating-point instructions
  call; \<^verbatim>\<open>riscv/\<close> is the simulator: a processor (\<^verbatim>\<open>processor.cc\<close>, \<^verbatim>\<open>execute.cc\<close>, \<^verbatim>\<open>insns/\<close>) fetches and decodes
  instructions through an MMU (\<^verbatim>\<open>mmu.cc\<close>), whose memory accesses are traced by cache models (\<^verbatim>\<open>cachesim.cc\<close>);
  the last cache of a chain sends its misses to an ORAM controller (\<^verbatim>\<open>oramsim.cc\<close>), which turns each into reads
  and writes of a DRAM model (\<^verbatim>\<open>DRAMSim2/\<close>); \<^verbatim>\<open>sim.cc\<close> connects harts, memory and devices.

  \<^bold>\<open>The theories.\<close>
  \<^item> \<open>Prelude\<close>: C integer types as words, the collections of rewrite rules, facts that carry words to numbers.
  \<^item> \<open>Rounding\<close>, \<open>Round_Pack_Spec\<close>: what correct rounding is, on real numbers and without the code; rounding off
    low-order bits computes it; the reference of the rounding step.
  \<^item> \<open>SoftFloat_State\<close>, \<open>SoftFloat_Primitives\<close>, \<open>SoftFloat_Format\<close>, \<open>SoftFloat_Values\<close>: the library state, the macros of
    \<^verbatim>\<open>internals.h\<close> and \<^verbatim>\<open>specialize.h\<close>, the integer primitives, and the values of bit patterns.  An operation takes
    the state record (rounding mode, tininess mode, exception flags) and returns it updated.
  \<^item> \<open>SoftFloat_RoundPack\<close>, \<open>SoftFloat_AddSub\<close>, \<open>SoftFloat_Mul\<close>, \<open>SoftFloat_Div\<close>, \<open>SoftFloat_Compare\<close>: one theory per operation of
    both formats, one definition per C function.  The locales \<open>round_pack\<close> and \<open>float_comparison\<close> are the contracts
    the operations rely on, interpreted on the code of both formats.
  \<^item> \<open>SoftFloat_ToInt\<close>, \<open>SoftFloat_Truncate\<close>, \<open>SoftFloat_FromInt\<close>, \<open>SoftFloat_Convert\<close>, \<open>SoftFloat_RoundToInt\<close>: the conversions.
  \<^item> \<open>SoftFloat_Special\<close>: NaNs, infinities, zero divisors and the frame of the library state.
  \<^item> \<open>Oram_Sim\<close>: \<^verbatim>\<open>oram_sim_t\<close> as a record and its methods; \<^verbatim>\<open>rand()\<close> is an argument and the DRAM accesses are a trace.
  \<^item> \<open>Cache_Sim\<close>: \<^verbatim>\<open>cache_sim_t\<close> and \<^verbatim>\<open>fa_cache_sim_t\<close>; the locale \<open>tag_store\<close> is what \<^verbatim>\<open>access\<close> relies on, interpreted for
    both; a chain of miss handlers is a list of caches with the ORAM controller behind it.
  \<^item> \<open>Riscv_Decode\<close>: the instruction word and the macros of \<^verbatim>\<open>decode.h\<close>, the products of \<^verbatim>\<open>mulhi.h\<close>.
  \<^item> \<open>Riscv_Opcodes\<close>: the registered instructions with the match and mask words of \<^verbatim>\<open>encoding.h\<close> and the opcode map of
    \<^verbatim>\<open>processor.cc\<close>.
  \<^item> \<open>SoftFloat_Fused\<close>: the fused multiply-add and the square roots.
  \<^item> \<open>Riscv_Hart\<close>: the state of a hart as the records \<open>state_t\<close>, \<open>mmu_t\<close> and \<open>processor_t\<close>, the control and status registers
    (\<^verbatim>\<open>set_csr\<close>, \<^verbatim>\<open>get_csr\<close>), interrupts, traps, debug mode, triggers, and the privileged and CSR instructions.
  \<^item> \<open>Riscv_Traps\<close>, \<open>Riscv_Return\<close>, \<open>Riscv_Isolation\<close>: the locale \<open>field\<close> of a bit field of a register, interpreted for the fields of
    \<^verbatim>\<open>mstatus\<close>; the invariant of a hart and the step relation \<open>hart_step\<close> that keeps it; traps and returns through the locale
    \<open>trap_level\<close>, interpreted for machine and supervisor; what code below machine mode can change; triggers.
  \<^item> \<open>Riscv_Devices\<close>: the machine \<open>sim_t\<close> (memory, harts, bus), \<^verbatim>\<open>devices.cc\<close>, \<^verbatim>\<open>rtc.cc\<close>, \<^verbatim>\<open>rom.cc\<close>, \<^verbatim>\<open>debug_module.cc\<close>.
  \<^item> \<open>Riscv_Mmu\<close>: \<^verbatim>\<open>mmu.cc\<close> and \<^verbatim>\<open>mmu.h\<close> in a monad of computations on \<open>sim_t\<close> that return, throw a trap, match a trigger or are undefined.
  \<^item> \<open>Exec_Logic\<close>: rules for these computations.
  \<^item> \<open>Riscv_Paging\<close>, \<open>Riscv_Tlb\<close>: what page tables map and permit, on bits and without the code, and that the page walk finds it; the TLB agrees
    with the walk, except for fetches in machine mode after a load under \<^verbatim>\<open>MSTATUS_MPRV\<close>.
  \<^item> \<open>Riscv_Insns\<close>: the instruction files of \<^verbatim>\<open>insns/\<close>, one definition each, and the table of the functions by name.
  \<^item> \<open>Riscv_Machine\<close>: the invariant of the whole machine and that every instruction keeps it.
  \<^item> \<open>Riscv_Execute\<close>: \<^verbatim>\<open>execute.cc\<close> and the scheduler \<^verbatim>\<open>sim_t::step\<close>.  The inner loops are total functions; the outer loop of \<^verbatim>\<open>step\<close> has
    fuel, which the theorem on its termination shows to be enough at \<open>2 * n + 1\<close>; the host is a parameter.
  \<^item> \<open>Riscv_Progress\<close>, \<open>Riscv_Steps\<close>: what instructions return and leave alone; the locale \<open>fetch_closed\<close> of predicates that fetching keeps and
    the locale \<open>step_kept\<close> of predicates that \<^verbatim>\<open>step\<close> keeps, both interpreted for the scheduler's variables and for the invariant; progress
    and the round of the harts.
  \<^item> \<open>Riscv_Soundness\<close>: the invariant of the whole simulator.

  \<^bold>\<open>What is proved.\<close>  Addition, subtraction, multiplication and division of finite operands are correctly rounded in
  every rounding mode of the library, overflow, subnormal results and signed zeros included; NaNs, infinities and zero
  divisors give the results and flags of the RISC-V conventions; comparisons decide the order of the values;
  conversions round or saturate as specified, and widening followed by narrowing is the identity; flags only grow.
  Accesses to the ORAM controller keep every block that has a leaf reachable; they stop only when the stash overflows or at a block that
  is out of range or has no leaf, and an entry of the stash is never freed;
  caches keep at most one copy of a line and forget only the victim.  The immediates of the instruction formats are
  recovered from their encodings, the high products are exact, and the opcode map with its cache and its
  reordering decodes like the sorted table (the word 0, which a fresh cache entry matches, is an illegal instruction either way).
  No reachable hart can fail an assertion in a trap or a CSR write; a trap followed by its return restores the interrupted state;
  code below machine mode cannot change the machine's registers; interrupts are chosen by enable, delegation and number.  The page
  walk finds what the tables say, and the TLB agrees with it while fetches and data accesses use one mode.  All
  instructions keep the types of the machine: registers of 32-bit harts stay sign-extended.
  The loop of \<^verbatim>\<open>step\<close> keeps the machine well-formed through every trap, trigger and debug entry.  It returns, and the scheduler completes
  every slice and serves the harts in turn, as long as no turn catches a trigger, starts at an odd program counter or aborts.

  \<^bold>\<open>Bounds and termination.\<close>  All definitions are total.  Loops are structural recursions over the bits, the ways, the
  levels or the entries the loop counts down; \<open>log2\<close> is well-founded on its argument.  A chain of caches
  is followed for as many steps as it has caches.  A failed \<^verbatim>\<open>assert\<close>, a call of \<^verbatim>\<open>exit\<close> or \<^verbatim>\<open>abort\<close>, an index or a shift that is
  undefined in C, is an error value.  Divisions by zero in the cache and ORAM configurations (zero ways, a zero line or
  bucket size) are excluded by hypotheses.

  \<^bold>\<open>Not modelled.\<close>  SoftFloat's remainder and its routines on 128-bit floats, which no instruction calls; the gdb server, the interactive debugger, the command line, the disassembler, the statistics output and the
  SystemVerilog bindings (input and output only); DRAMSim2, an imported memory timing simulator that is driven
  here through the trace of accesses; the RoCC extensions, which are loaded at run time; the host interface (\<^verbatim>\<open>fesvr\<close>) and the parsing of the ISA string.
\<close>

section \<open>Arithmetic is correctly rounded\<close>

text \<open>
  C1: \<^verbatim>\<open>f32_add\<close> and \<^verbatim>\<open>f32_sub\<close> of finite operands return the correctly rounded sum and difference in the
  rounding mode of the library state; the sign of an exact zero result is the one IEEE 754 prescribes.
\<close>

theorem f32_add_sub_correct:
  assumes "f32_isFinite a" "f32_isFinite b"
  shows "rounds_word 23 8 (rmode_of (softfloat_roundingMode s))
      (sum_sign (f32_sign a) (f32_sign b) (rmode_of (softfloat_roundingMode s)) (f32_val a + f32_val b))
      \<bar>f32_val a + f32_val b\<bar> (fst (f32_add a b s)) \<and>
    rounds_word 23 8 (rmode_of (softfloat_roundingMode s))
      (sum_sign (f32_sign a) (\<not> f32_sign b) (rmode_of (softfloat_roundingMode s)) (f32_val a - f32_val b))
      \<bar>f32_val a - f32_val b\<bar> (fst (f32_sub a b s))"
  using f32_add_rounds [OF assms] f32_sub_rounds [OF assms] by blast

theorem f32_add_sub_correct_witness:
  "rounds_word 23 8 (rmode_of (softfloat_roundingMode softfloat_init))
      (sum_sign (f32_sign 0x3F800000) (f32_sign 0x40000000) (rmode_of (softfloat_roundingMode softfloat_init))
        (f32_val 0x3F800000 + f32_val 0x40000000))
      \<bar>f32_val 0x3F800000 + f32_val 0x40000000\<bar> (fst (f32_add 0x3F800000 0x40000000 softfloat_init)) \<and>
    fst (f32_add 0x3F800000 0x40000000 softfloat_init) = 0x40400000"
proof (rule conjI)
  have "f32_isFinite 0x3F800000" "f32_isFinite 0x40000000" by (simp_all add: f32_isFinite_def f32_magn_def inf_magn_def)
  from f32_add_sub_correct [OF this, of softfloat_init, THEN conjunct1]
  show "rounds_word 23 8 (rmode_of (softfloat_roundingMode softfloat_init))
      (sum_sign (f32_sign 0x3F800000) (f32_sign 0x40000000) (rmode_of (softfloat_roundingMode softfloat_init))
        (f32_val 0x3F800000 + f32_val 0x40000000))
      \<bar>f32_val 0x3F800000 + f32_val 0x40000000\<bar> (fst (f32_add 0x3F800000 0x40000000 softfloat_init))" .
  show "fst (f32_add 0x3F800000 0x40000000 softfloat_init) = 0x40400000" by code_simp
qed

text \<open>
  C2: \<^verbatim>\<open>f64_add\<close> and \<^verbatim>\<open>f64_sub\<close> of finite operands return the correctly rounded sum and difference in the
  rounding mode of the library state; the sign of an exact zero result is the one IEEE 754 prescribes.
\<close>

theorem f64_add_sub_correct:
  assumes "f64_isFinite a" "f64_isFinite b"
  shows "rounds_word 52 11 (rmode_of (softfloat_roundingMode s))
      (sum_sign (f64_sign a) (f64_sign b) (rmode_of (softfloat_roundingMode s)) (f64_val a + f64_val b))
      \<bar>f64_val a + f64_val b\<bar> (fst (f64_add a b s)) \<and>
    rounds_word 52 11 (rmode_of (softfloat_roundingMode s))
      (sum_sign (f64_sign a) (\<not> f64_sign b) (rmode_of (softfloat_roundingMode s)) (f64_val a - f64_val b))
      \<bar>f64_val a - f64_val b\<bar> (fst (f64_sub a b s))"
  using f64_add_rounds [OF assms] f64_sub_rounds [OF assms] by blast

theorem f64_add_sub_correct_witness:
  "rounds_word 52 11 (rmode_of (softfloat_roundingMode softfloat_init))
      (sum_sign (f64_sign 0x3FF0000000000000) (f64_sign 0x4000000000000000) (rmode_of (softfloat_roundingMode softfloat_init))
        (f64_val 0x3FF0000000000000 + f64_val 0x4000000000000000))
      \<bar>f64_val 0x3FF0000000000000 + f64_val 0x4000000000000000\<bar> (fst (f64_add 0x3FF0000000000000 0x4000000000000000 softfloat_init)) \<and>
    fst (f64_add 0x3FF0000000000000 0x4000000000000000 softfloat_init) = 0x4008000000000000"
proof (rule conjI)
  have "f64_isFinite 0x3FF0000000000000" "f64_isFinite 0x4000000000000000" by (simp_all add: f64_isFinite_def f64_magn_def inf_magn_def)
  from f64_add_sub_correct [OF this, of softfloat_init, THEN conjunct1]
  show "rounds_word 52 11 (rmode_of (softfloat_roundingMode softfloat_init))
      (sum_sign (f64_sign 0x3FF0000000000000) (f64_sign 0x4000000000000000) (rmode_of (softfloat_roundingMode softfloat_init))
        (f64_val 0x3FF0000000000000 + f64_val 0x4000000000000000))
      \<bar>f64_val 0x3FF0000000000000 + f64_val 0x4000000000000000\<bar> (fst (f64_add 0x3FF0000000000000 0x4000000000000000 softfloat_init))" .
  show "fst (f64_add 0x3FF0000000000000 0x4000000000000000 softfloat_init) = 0x4008000000000000" by code_simp
qed

text \<open>
  C3: \<^verbatim>\<open>f32_mul\<close> and \<^verbatim>\<open>f64_mul\<close> of finite operands, subnormal ones included, return the correctly rounded product.
\<close>

theorem products_correct:
  fixes a b :: u32 and c d :: u64
  assumes "f32_isFinite a" "f32_isFinite b" "f64_isFinite c" "f64_isFinite d"
  shows "rounds_word 23 8 (rmode_of (softfloat_roundingMode s)) (f32_sign a \<noteq> f32_sign b)
      \<bar>f32_val a * f32_val b\<bar> (fst (f32_mul a b s)) \<and>
    rounds_word 52 11 (rmode_of (softfloat_roundingMode s)) (f64_sign c \<noteq> f64_sign d)
      \<bar>f64_val c * f64_val d\<bar> (fst (f64_mul c d s))"
  using f32_mul_rounds [OF assms(1,2)] f64_mul_rounds [OF assms(3,4)] by blast

theorem products_correct_witness:
  "rounds_word 23 8 (rmode_of (softfloat_roundingMode softfloat_init)) (f32_sign 0x3F800000 \<noteq> f32_sign 0x40400000)
      \<bar>f32_val 0x3F800000 * f32_val 0x40400000\<bar> (fst (f32_mul 0x3F800000 0x40400000 softfloat_init)) \<and>
    rounds_word 52 11 (rmode_of (softfloat_roundingMode softfloat_init)) (f64_sign 0x3FF0000000000000 \<noteq> f64_sign 0x4008000000000000)
      \<bar>f64_val 0x3FF0000000000000 * f64_val 0x4008000000000000\<bar> (fst (f64_mul 0x3FF0000000000000 0x4008000000000000 softfloat_init))"
proof -
  have "f32_isFinite 0x3F800000" "f32_isFinite 0x40400000" by (simp_all add: f32_isFinite_def f32_magn_def inf_magn_def)
  moreover have "f64_isFinite 0x3FF0000000000000" "f64_isFinite 0x4008000000000000" by (simp_all add: f64_isFinite_def f64_magn_def inf_magn_def)
  ultimately show ?thesis by (rule products_correct)
qed

text \<open>
  C4: \<^verbatim>\<open>f32_div\<close> and \<^verbatim>\<open>f64_div\<close> of finite operands with a nonzero divisor return the correctly rounded quotient, although the
  first settles the sticky bit only close to a rounding boundary and the second computes from an approximate reciprocal and skips
  the remainder when that cannot matter.
\<close>

theorem quotients_correct:
  fixes a b :: u32 and c d :: u64
  assumes "f32_isFinite a" "f32_isFinite b" "f32_val b \<noteq> 0" "f64_isFinite c" "f64_isFinite d" "f64_val d \<noteq> 0"
  shows "rounds_word 23 8 (rmode_of (softfloat_roundingMode s)) (f32_sign a \<noteq> f32_sign b)
      \<bar>f32_val a / f32_val b\<bar> (fst (f32_div a b s)) \<and>
    rounds_word 52 11 (rmode_of (softfloat_roundingMode s)) (f64_sign c \<noteq> f64_sign d)
      \<bar>f64_val c / f64_val d\<bar> (fst (f64_div c d s))"
  using f32_div_rounds [OF assms(1-3)] f64_div_rounds [OF assms(4-6)] by blast

theorem quotients_correct_witness:
  "rounds_word 23 8 (rmode_of (softfloat_roundingMode softfloat_init)) (f32_sign 0x3F800000 \<noteq> f32_sign 0x40400000)
      \<bar>f32_val 0x3F800000 / f32_val 0x40400000\<bar> (fst (f32_div 0x3F800000 0x40400000 softfloat_init)) \<and>
    fst (f64_div 0x3FF0000000000000 0x4008000000000000 softfloat_init) = 0x3FD5555555555555"
proof (rule conjI)
  have "f32_isFinite 0x3F800000" "f32_isFinite 0x40400000" "f32_val 0x40400000 \<noteq> 0"
    by (simp_all add: f32_isFinite_def f32_magn_def inf_magn_def f32_zero_iff)
  moreover have "f64_isFinite 0x3FF0000000000000" "f64_isFinite 0x4008000000000000" "f64_val 0x4008000000000000 \<noteq> 0"
    by (simp_all add: f64_isFinite_def f64_magn_def inf_magn_def f64_zero_iff)
  ultimately show "rounds_word 23 8 (rmode_of (softfloat_roundingMode softfloat_init)) (f32_sign 0x3F800000 \<noteq> f32_sign 0x40400000)
      \<bar>f32_val 0x3F800000 / f32_val 0x40400000\<bar> (fst (f32_div 0x3F800000 0x40400000 softfloat_init))"
    by (rule quotients_correct [THEN conjunct1])
  show "fst (f64_div 0x3FF0000000000000 0x4008000000000000 softfloat_init) = 0x3FD5555555555555" by code_simp
qed

section \<open>Rounding and packing\<close>

text \<open>
  C5: \<^verbatim>\<open>softfloat_roundPackToF32\<close> returns the correctly rounded result.  The significand has seven round
  bits and stands for \<open>x\<close> exactly or with its lowest set bit sticky; the result is the value nearest to
  \<open>x * 2 powi (expn - 156)\<close> in the rounding direction of the library state, with subnormals and with the
  overflow result the rounding direction prescribes.
\<close>

theorem f32_roundPack_correct:
  assumes "stk j x (unat sig)" "j \<le> 5" "2 ^ 30 \<le> unat sig" "unat sig < 2 ^ 31"
    and "- 32768 \<le> expn" "expn < 32768"
  shows "rounds_word 23 8 (rmode_of (softfloat_roundingMode s)) sign (x * 2 powi (expn - 156))
           (fst (softfloat_roundPackToF32 sign expn sig s))"
  using assms by (intro rp32.roundPack_rounds [where j = j and x = x]) simp_all

theorem f32_roundPack_correct_witness:
  "rounds_word 23 8 RUP False (real 0x40000001 * 2 powi (126 - 156))
     (fst (softfloat_roundPackToF32 False 126 0x40000001
        (softfloat_init\<lparr>softfloat_roundingMode := softfloat_round_max\<rparr>)))"
  using f32_roundPack_correct [of 0 "real 0x40000001" "0x40000001" 126
      "softfloat_init\<lparr>softfloat_roundingMode := softfloat_round_max\<rparr>" False] stk_exact [of 0 "0x40000001"]
  by (simp add: rmode_of_def)

section \<open>The library state\<close>

text \<open>
  C6: No operation changes the modes of the library state or clears an exception flag: arithmetic with multiply-add and square root,
  the quiet and the signaling comparisons, the conversions of both kinds and rounding to an integer only raise flags.
\<close>

theorem arithmetic_flags_grow:
  "flags_raised s (snd (f32_add a b s)) \<and> flags_raised s (snd (f32_sub a b s)) \<and>
   flags_raised s (snd (f32_mul a b s)) \<and> flags_raised s (snd (f32_div a b s)) \<and>
   flags_raised s (snd (f64_add c d s)) \<and> flags_raised s (snd (f64_sub c d s)) \<and>
   flags_raised s (snd (f64_mul c d s)) \<and> flags_raised s (snd (f64_div c d s)) \<and>
   flags_raised s (snd (f32_mulAdd a b e s)) \<and> flags_raised s (snd (f64_mulAdd c d g s)) \<and>
   flags_raised s (snd (f32_sqrt a s)) \<and> flags_raised s (snd (f64_sqrt c s)) \<and>
   flags_raised s (snd (f32_eq a b s)) \<and> flags_raised s (snd (f32_eq_signaling a b s)) \<and>
   flags_raised s (snd (f32_le a b s)) \<and> flags_raised s (snd (f32_le_quiet a b s)) \<and>
   flags_raised s (snd (f32_lt a b s)) \<and> flags_raised s (snd (f32_lt_quiet a b s)) \<and>
   flags_raised s (snd (f64_eq c d s)) \<and> flags_raised s (snd (f64_eq_signaling c d s)) \<and>
   flags_raised s (snd (f64_le c d s)) \<and> flags_raised s (snd (f64_le_quiet c d s)) \<and>
   flags_raised s (snd (f64_lt c d s)) \<and> flags_raised s (snd (f64_lt_quiet c d s)) \<and>
   flags_raised s (snd (f32_to_i32 a rm exact s)) \<and> flags_raised s (snd (f32_to_i64 a rm exact s)) \<and>
   flags_raised s (snd (f32_to_ui32 a rm exact s)) \<and> flags_raised s (snd (f32_to_ui64 a rm exact s)) \<and>
   flags_raised s (snd (f64_to_i32 c rm exact s)) \<and> flags_raised s (snd (f64_to_i64 c rm exact s)) \<and>
   flags_raised s (snd (f64_to_ui32 c rm exact s)) \<and> flags_raised s (snd (f64_to_ui64 c rm exact s)) \<and>
   flags_raised s (snd (f32_to_i32_r_minMag a exact s)) \<and> flags_raised s (snd (f32_to_i64_r_minMag a exact s)) \<and>
   flags_raised s (snd (f32_to_ui32_r_minMag a exact s)) \<and> flags_raised s (snd (f32_to_ui64_r_minMag a exact s)) \<and>
   flags_raised s (snd (f64_to_i32_r_minMag c exact s)) \<and> flags_raised s (snd (f64_to_i64_r_minMag c exact s)) \<and>
   flags_raised s (snd (f64_to_ui32_r_minMag c exact s)) \<and> flags_raised s (snd (f64_to_ui64_r_minMag c exact s)) \<and>
   flags_raised s (snd (i32_to_f32 w s)) \<and> flags_raised s (snd (i64_to_f32 l s)) \<and>
   flags_raised s (snd (ui32_to_f32 w s)) \<and> flags_raised s (snd (ui64_to_f32 l s)) \<and>
   flags_raised s (snd (i32_to_f64 w s)) \<and> flags_raised s (snd (i64_to_f64 l s)) \<and>
   flags_raised s (snd (ui32_to_f64 w s)) \<and> flags_raised s (snd (ui64_to_f64 l s)) \<and>
   flags_raised s (snd (f32_to_f64 a s)) \<and> flags_raised s (snd (f64_to_f32 c s)) \<and>
   flags_raised s (snd (f32_roundToInt a rm exact s)) \<and> flags_raised s (snd (f64_roundToInt c rm exact s))"
  by (simp add: flags_intro)

section \<open>Exceptional operands\<close>

text \<open>
  C7: The NaN rule of the RISC-V specialization: with a NaN operand the arithmetic operations return the
  default NaN, never a payload, and raise the invalid flag exactly when an operand is signaling.
\<close>

theorem nan_rule:
  "(f32_isNaN a \<or> f32_isNaN b \<longrightarrow>
      (\<forall>r \<in> {f32_add a b s, f32_sub a b s, f32_mul a b s, f32_div a b s}.
         r = (0x7FC00000, if f32_isSNaN a \<or> f32_isSNaN b then softfloat_raiseFlags softfloat_flag_invalid s else s))) \<and>
   (f64_isNaN c \<or> f64_isNaN d \<longrightarrow>
      (\<forall>r \<in> {f64_add c d s, f64_sub c d s, f64_mul c d s, f64_div c d s}.
         r = (0x7FF8000000000000, if f64_isSNaN c \<or> f64_isSNaN d then softfloat_raiseFlags softfloat_flag_invalid s else s)))"
  using add32.oper_nan sub32.oper_nan mul32.oper_nan div32.oper_nan
    add64.oper_nan sub64.oper_nan mul64.oper_nan div64.oper_nan by auto

theorem nan_rule_witness:
  "f32_add 0x7F800001 0x3F800000 softfloat_init = (0x7FC00000, softfloat_raiseFlags softfloat_flag_invalid softfloat_init) \<and>
   f64_div 0x3FF0000000000000 0x7FF8000000000001 softfloat_init = (0x7FF8000000000000, softfloat_init)"
proof -
  have "f32_isNaN 0x7F800001" "f32_isSNaN 0x7F800001" by (simp_all add: f32_isSNaN_def f32_isNaN_def f32_magn_def inf_magn_def)
  moreover have "f64_isNaN 0x7FF8000000000001" "\<not> f64_isSNaN 0x7FF8000000000001" "\<not> f64_isSNaN 0x3FF0000000000000"
    by (simp_all add: f64_isSNaN_def f64_isNaN_def f64_magn_def inf_magn_def)
  ultimately show ?thesis
    using nan_rule [of "0x7F800001" "0x3F800000" softfloat_init "0x3FF0000000000000" "0x7FF8000000000001"]
    by simp
qed

text \<open>
  C8: Infinite operands and zero divisors, in either place: infinities of opposite sign added or of equal sign subtracted, a zero times
  an infinity, a quotient of infinities and a quotient of zeros give the default NaN and raise the invalid flag; a nonzero finite
  number divided by a zero gives the infinity with the product of the signs and raises the divide-by-zero flag; every other sum,
  difference, product or quotient of an infinity and a number is the infinity or, for a finite number divided by it, the zero
  with the right sign, and no flag is raised.
\<close>

theorem infinite_operands:
  "(f32_isInf a \<and> f32_isInf b \<longrightarrow>
      f32_add a b s = (if f32_sign a = f32_sign b then (a, s) else (0x7FC00000, softfloat_raiseFlags softfloat_flag_invalid s)) \<and>
      f32_sub a b s = (if f32_sign a \<noteq> f32_sign b then (a, s) else (0x7FC00000, softfloat_raiseFlags softfloat_flag_invalid s)) \<and> f32_div a b s = (0x7FC00000, softfloat_raiseFlags softfloat_flag_invalid s)) \<and>
   (f32_isInf a \<and> f32_isFinite b \<longrightarrow>
      f32_add a b s = (a, s) \<and> f32_add b a s = (a, s) \<and> f32_sub a b s = (a, s) \<and> f32_sub b a s = (f32_infinity (\<not> f32_sign a), s) \<and>
      f32_div a b s = (f32_infinity (f32_sign a \<noteq> f32_sign b), s) \<and> f32_div b a s = (f32_zero (f32_sign b \<noteq> f32_sign a), s)) \<and>
   (f32_isInf a \<and> \<not> f32_isNaN b \<longrightarrow>
      f32_mul a b s = (if f32_val b = 0 then (0x7FC00000, softfloat_raiseFlags softfloat_flag_invalid s) else (f32_infinity (f32_sign a \<noteq> f32_sign b), s)) \<and>
      f32_mul b a s = (if f32_val b = 0 then (0x7FC00000, softfloat_raiseFlags softfloat_flag_invalid s) else (f32_infinity (f32_sign a \<noteq> f32_sign b), s))) \<and>
   (f32_isFinite a \<and> f32_val b = 0 \<longrightarrow> f32_div a b s =
      (if f32_val a = 0 then (0x7FC00000, softfloat_raiseFlags softfloat_flag_invalid s)
       else (f32_infinity (f32_sign a \<noteq> f32_sign b), softfloat_raiseFlags softfloat_flag_infinite s))) \<and>
   (f64_isInf c \<and> f64_isInf d \<longrightarrow>
      f64_add c d s = (if f64_sign c = f64_sign d then (c, s) else (0x7FF8000000000000, softfloat_raiseFlags softfloat_flag_invalid s)) \<and>
      f64_sub c d s = (if f64_sign c \<noteq> f64_sign d then (c, s) else (0x7FF8000000000000, softfloat_raiseFlags softfloat_flag_invalid s)) \<and> f64_div c d s = (0x7FF8000000000000, softfloat_raiseFlags softfloat_flag_invalid s)) \<and>
   (f64_isInf c \<and> f64_isFinite d \<longrightarrow>
      f64_add c d s = (c, s) \<and> f64_add d c s = (c, s) \<and> f64_sub c d s = (c, s) \<and> f64_sub d c s = (f64_infinity (\<not> f64_sign c), s) \<and>
      f64_div c d s = (f64_infinity (f64_sign c \<noteq> f64_sign d), s) \<and> f64_div d c s = (f64_zero (f64_sign d \<noteq> f64_sign c), s)) \<and>
   (f64_isInf c \<and> \<not> f64_isNaN d \<longrightarrow>
      f64_mul c d s = (if f64_val d = 0 then (0x7FF8000000000000, softfloat_raiseFlags softfloat_flag_invalid s) else (f64_infinity (f64_sign c \<noteq> f64_sign d), s)) \<and>
      f64_mul d c s = (if f64_val d = 0 then (0x7FF8000000000000, softfloat_raiseFlags softfloat_flag_invalid s) else (f64_infinity (f64_sign c \<noteq> f64_sign d), s))) \<and>
   (f64_isFinite c \<and> f64_val d = 0 \<longrightarrow> f64_div c d s =
      (if f64_val c = 0 then (0x7FF8000000000000, softfloat_raiseFlags softfloat_flag_invalid s)
       else (f64_infinity (f64_sign c \<noteq> f64_sign d), softfloat_raiseFlags softfloat_flag_infinite s)))"
  using f32_infinite_cases [of a b s] f32_mul_infinity [of a b s] f32_div_zero [of a b s]
    f64_infinite_cases [of c d s] f64_mul_infinity [of c d s] f64_div_zero [of c d s]
  by (intro conjI impI; elim conjE) simp_all

theorem infinite_operands_witness:
  "f32_div 0x3F800000 0 softfloat_init = (0x7F800000, softfloat_raiseFlags softfloat_flag_infinite softfloat_init) \<and>
   f64_mul 0 0x7FF0000000000000 softfloat_init = (0x7FF8000000000000, softfloat_raiseFlags softfloat_flag_invalid softfloat_init)"
proof -
  have "f32_isFinite 0x3F800000" "f32_val 0 = 0" "f32_val 0x3F800000 \<noteq> 0" "f64_isInf 0x7FF0000000000000" "\<not> f64_isNaN 0" "f64_val 0 = 0"
    "f32_infinity (f32_sign 0x3F800000 \<noteq> f32_sign 0) = 0x7F800000"
    by (simp_all add: f32_isFinite_def f32_zero_iff f64_zero_iff f32_magn_def f64_isInf_def f64_isNaN_def f64_magn_def inf_magn_def f32_infinity_def f32_sign_def)
  then show ?thesis
    using infinite_operands [where a = "0x3F800000" and b = 0 and c = "0x7FF0000000000000" and d = 0 and s = softfloat_init] by simp
qed

section \<open>Conversions to integers\<close>

text \<open>
  C9: The eight conversions to integers refine one specification \<open>to_int\<close>: the value is rounded in the
  given mode; when the result is in the range of the target it is returned, with the inexact flag when
  that was asked for and the value is no integer; otherwise (NaNs, which count as positive, and
  infinities included) the nearest end of the range is returned with the invalid flag alone.
\<close>

theorem to_integers_refined:
  "f32_to_i32 a rm exact s = to_int (- (2 ^ 31)) (2 ^ 31 - 1) (rmode_of rm) exact (f32_sign a \<and> \<not> f32_isNaN a) \<bar>f32_val a\<bar> s \<and>
   apfst uint (f32_to_ui32 a rm exact s) = to_int 0 (2 ^ 32 - 1) (rmode_of rm) exact (f32_sign a \<and> \<not> f32_isNaN a) \<bar>f32_val a\<bar> s \<and>
   f32_to_i64 a rm exact s = to_int (- (2 ^ 63)) (2 ^ 63 - 1) (rmode_of rm) exact (f32_sign a \<and> \<not> f32_isNaN a) \<bar>f32_val a\<bar> s \<and>
   apfst uint (f32_to_ui64 a rm exact s) = to_int 0 (2 ^ 64 - 1) (rmode_of rm) exact (f32_sign a \<and> \<not> f32_isNaN a) \<bar>f32_val a\<bar> s \<and>
   f64_to_i32 b rm exact s = to_int (- (2 ^ 31)) (2 ^ 31 - 1) (rmode_of rm) exact (f64_sign b \<and> \<not> f64_isNaN b) \<bar>f64_val b\<bar> s \<and>
   apfst uint (f64_to_ui32 b rm exact s) = to_int 0 (2 ^ 32 - 1) (rmode_of rm) exact (f64_sign b \<and> \<not> f64_isNaN b) \<bar>f64_val b\<bar> s \<and>
   f64_to_i64 b rm exact s = to_int (- (2 ^ 63)) (2 ^ 63 - 1) (rmode_of rm) exact (f64_sign b \<and> \<not> f64_isNaN b) \<bar>f64_val b\<bar> s \<and>
   apfst uint (f64_to_ui64 b rm exact s) = to_int 0 (2 ^ 64 - 1) (rmode_of rm) exact (f64_sign b \<and> \<not> f64_isNaN b) \<bar>f64_val b\<bar> s"
  by (intro conjI f32_to_i32_eq f32_to_ui32_eq f32_to_i64_eq f32_to_ui64_eq f64_to_i32_eq f64_to_ui32_eq f64_to_i64_eq f64_to_ui64_eq)

text \<open>
  C10: The eight truncating conversions \<^verbatim>\<open>*_r_minMag\<close>, which shift the significand instead of rounding it, are
  the general conversions in the mode \<^verbatim>\<open>softfloat_round_minMag\<close>, in their results and in their flags.
\<close>

theorem truncating_conversions:
  "f32_to_i32_r_minMag a exact s = f32_to_i32 a softfloat_round_minMag exact s \<and>
   f32_to_ui32_r_minMag a exact s = f32_to_ui32 a softfloat_round_minMag exact s \<and>
   f32_to_i64_r_minMag a exact s = f32_to_i64 a softfloat_round_minMag exact s \<and>
   f32_to_ui64_r_minMag a exact s = f32_to_ui64 a softfloat_round_minMag exact s \<and>
   f64_to_i32_r_minMag b exact s = f64_to_i32 b softfloat_round_minMag exact s \<and>
   f64_to_ui32_r_minMag b exact s = f64_to_ui32 b softfloat_round_minMag exact s \<and>
   f64_to_i64_r_minMag b exact s = f64_to_i64 b softfloat_round_minMag exact s \<and>
   f64_to_ui64_r_minMag b exact s = f64_to_ui64 b softfloat_round_minMag exact s"
proof -
  have m: "rmode_of softfloat_round_minMag = RTZ" by (simp add: rmode_of_def)
  have u: "x = y" if "apfst uint x = apfst uint y" for x y :: "u64 \<times> softfloat_state"
    using that by (cases x; cases y) (simp add: word_uint_eq_iff)
  show ?thesis
    by (intro conjI; (rule u)?)
      (simp_all only: m f32_to_i32_eq f32_to_ui32_eq f32_to_i64_eq f32_to_ui64_eq f64_to_i32_eq f64_to_ui32_eq f64_to_i64_eq f64_to_ui64_eq
        f32_to_i32_r_minMag_eq f32_to_ui32_r_minMag_eq f32_to_i64_r_minMag_eq f32_to_ui64_r_minMag_eq
        f64_to_i32_r_minMag_eq f64_to_ui32_r_minMag_eq f64_to_i64_r_minMag_eq f64_to_ui64_r_minMag_eq)
qed

section \<open>Conversions from integers\<close>

text \<open>
  C11: The conversions from integers return the correctly rounded number, the most negative integers included;
  a 32-bit integer becomes a double of the same value and no flag is raised.
\<close>

theorem from_integers_rounded:
  "rounds_word 23 8 (rmode_of (softfloat_roundingMode s)) (sint w < 0) \<bar>of_int (sint w)\<bar> (fst (i32_to_f32 w s)) \<and>
   rounds_word 23 8 (rmode_of (softfloat_roundingMode s)) False (of_int (uint w)) (fst (ui32_to_f32 w s)) \<and>
   rounds_word 23 8 (rmode_of (softfloat_roundingMode s)) (sint l < 0) \<bar>of_int (sint l)\<bar> (fst (i64_to_f32 l s)) \<and>
   rounds_word 23 8 (rmode_of (softfloat_roundingMode s)) False (of_int (uint l)) (fst (ui64_to_f32 l s)) \<and>
   rounds_word 52 11 (rmode_of (softfloat_roundingMode s)) (sint l < 0) \<bar>of_int (sint l)\<bar> (fst (i64_to_f64 l s)) \<and>
   rounds_word 52 11 (rmode_of (softfloat_roundingMode s)) False (of_int (uint l)) (fst (ui64_to_f64 l s)) \<and>
   f64_val (fst (i32_to_f64 w s)) = of_int (sint w) \<and> snd (i32_to_f64 w s) = s \<and>
   f64_val (fst (ui32_to_f64 w s)) = of_int (uint w) \<and> snd (ui32_to_f64 w s) = s"
  using i32_to_f32_rounds ui32_to_f32_rounds i64_to_f32_rounds ui64_to_f32_rounds i64_to_f64_rounds ui64_to_f64_rounds
    i32_to_f64_exact ui32_to_f64_exact by blast

section \<open>Conversions between the formats\<close>

text \<open>
  C12: Widening with \<^verbatim>\<open>f32_to_f64\<close> and narrowing with \<^verbatim>\<open>f64_to_f32\<close> gives every number and infinity back bit by bit,
  in every rounding mode.
\<close>

theorem f32_f64_round_trip:
  assumes "\<not> f32_isNaN a"
  shows "fst (f64_to_f32 (fst (f32_to_f64 a s)) t) = a"
  using assms by (rule f32_round_trip)

theorem f32_f64_round_trip_witness:
  "fst (f64_to_f32 (fst (f32_to_f64 0x80000001 softfloat_init)) softfloat_init) = 0x80000001"
  by (rule f32_f64_round_trip) (simp add: f32_isNaN_def f32_magn_def inf_magn_def)

text \<open>
  C13: Widening a finite single is exact and touches no flag, also for subnormal numbers; narrowing a finite double
  is correctly rounded.
\<close>

theorem format_conversions:
  assumes "f32_isFinite a" "f64_isFinite b"
  shows "f64_val (fst (f32_to_f64 a s)) = f32_val a \<and> f64_isFinite (fst (f32_to_f64 a s)) \<and>
    f64_sign (fst (f32_to_f64 a s)) = f32_sign a \<and> snd (f32_to_f64 a s) = s \<and>
    rounds_word 23 8 (rmode_of (softfloat_roundingMode s)) (f64_sign b) \<bar>f64_val b\<bar> (fst (f64_to_f32 b s))"
  using f32_to_f64_finite [OF assms(1)] f64_to_f32_rounds [OF assms(2)] by blast

theorem format_conversions_witness:
  "f64_val (fst (f32_to_f64 0x00000001 softfloat_init)) = f32_val 0x00000001 \<and>
   fst (f32_to_f64 0x00000001 softfloat_init) = 0x36A0000000000000"
proof (rule conjI)
  have "f32_isFinite 0x00000001" "f64_isFinite 0"
    by (simp_all add: f32_isFinite_def f32_magn_def f64_isFinite_def f64_magn_def inf_magn_def)
  from format_conversions [OF this, of softfloat_init]
  show "f64_val (fst (f32_to_f64 0x00000001 softfloat_init)) = f32_val 0x00000001" by blast
  show "fst (f32_to_f64 0x00000001 softfloat_init) = 0x36A0000000000000" by code_simp
qed

section \<open>Rounding to an integral value\<close>

text \<open>
  C14: \<^verbatim>\<open>f32_roundToInt\<close> and \<^verbatim>\<open>f64_roundToInt\<close> return the integral value of a finite operand in the given rounding
  mode, keep the sign (of a zero result too) and raise the inexact flag exactly when asked for and the
  operand was no integer.
\<close>

theorem roundToInt_correct:
  assumes "f32_isFinite a" "f64_isFinite b" "rm \<le> 4"
  shows "(f32_sign (fst (f32_roundToInt a rm exact s)) = f32_sign a \<and>
      f32_val (fst (f32_roundToInt a rm exact s)) = with_sign (f32_sign a) (of_int (rnd (rmode_of rm) (f32_sign a) \<bar>f32_val a\<bar>)) \<and>
      snd (f32_roundToInt a rm exact s) = (if exact \<and> \<bar>f32_val a\<bar> \<notin> \<int> then softfloat_raiseFlags softfloat_flag_inexact s else s)) \<and>
    (f64_sign (fst (f64_roundToInt b rm exact s)) = f64_sign b \<and>
      f64_val (fst (f64_roundToInt b rm exact s)) = with_sign (f64_sign b) (of_int (rnd (rmode_of rm) (f64_sign b) \<bar>f64_val b\<bar>)) \<and>
      snd (f64_roundToInt b rm exact s) = (if exact \<and> \<bar>f64_val b\<bar> \<notin> \<int> then softfloat_raiseFlags softfloat_flag_inexact s else s))"
  using f32_roundToInt_finite [OF assms(1,3)] f64_roundToInt_finite [OF assms(2,3)] by (intro conjI) blast+

theorem roundToInt_correct_witness:
  "f32_val (fst (f32_roundToInt 0x40200000 0 True softfloat_init))
     = with_sign (f32_sign 0x40200000) (of_int (rnd (rmode_of 0) (f32_sign 0x40200000) \<bar>f32_val 0x40200000\<bar>)) \<and>
   fst (f32_roundToInt 0x40200000 0 True softfloat_init) = 0x40000000"
proof (rule conjI)
  have "f32_isFinite 0x40200000" "f64_isFinite 0" "(0::u8) \<le> 4"
    by (simp_all add: f32_isFinite_def f32_magn_def f64_isFinite_def f64_magn_def inf_magn_def)
  from roundToInt_correct [OF this, of True softfloat_init]
  show "f32_val (fst (f32_roundToInt 0x40200000 0 True softfloat_init))
     = with_sign (f32_sign 0x40200000) (of_int (rnd (rmode_of 0) (f32_sign 0x40200000) \<bar>f32_val 0x40200000\<bar>))" by blast
  show "fst (f32_roundToInt 0x40200000 0 True softfloat_init) = 0x40000000" by code_simp
qed

section \<open>Comparisons\<close>

text \<open>
  C15: The comparisons decide the order of the values, with equal zeros and unordered NaNs; \<^verbatim>\<open>le\<close>, \<^verbatim>\<open>lt\<close> and
  \<^verbatim>\<open>eq_signaling\<close> raise the invalid flag for every NaN, \<^verbatim>\<open>eq\<close> and the quiet ones exactly for signaling NaNs.
\<close>

theorem comparisons_correct:
  "f32_eq a b s = (\<not> f32_isNaN a \<and> \<not> f32_isNaN b \<and> f32_val a = f32_val b,
      if f32_isSNaN a \<or> f32_isSNaN b then softfloat_raiseFlags softfloat_flag_invalid s else s) \<and>
   f32_eq_signaling a b s = (\<not> f32_isNaN a \<and> \<not> f32_isNaN b \<and> f32_val a = f32_val b,
      if f32_isNaN a \<or> f32_isNaN b then softfloat_raiseFlags softfloat_flag_invalid s else s) \<and>
   f32_le a b s = (\<not> f32_isNaN a \<and> \<not> f32_isNaN b \<and> f32_val a \<le> f32_val b,
      if f32_isNaN a \<or> f32_isNaN b then softfloat_raiseFlags softfloat_flag_invalid s else s) \<and>
   f32_le_quiet a b s = (\<not> f32_isNaN a \<and> \<not> f32_isNaN b \<and> f32_val a \<le> f32_val b,
      if f32_isSNaN a \<or> f32_isSNaN b then softfloat_raiseFlags softfloat_flag_invalid s else s) \<and>
   f32_lt a b s = (\<not> f32_isNaN a \<and> \<not> f32_isNaN b \<and> f32_val a < f32_val b,
      if f32_isNaN a \<or> f32_isNaN b then softfloat_raiseFlags softfloat_flag_invalid s else s) \<and>
   f32_lt_quiet a b s = (\<not> f32_isNaN a \<and> \<not> f32_isNaN b \<and> f32_val a < f32_val b,
      if f32_isSNaN a \<or> f32_isSNaN b then softfloat_raiseFlags softfloat_flag_invalid s else s) \<and>
   f64_eq c d s = (\<not> f64_isNaN c \<and> \<not> f64_isNaN d \<and> f64_val c = f64_val d,
      if f64_isSNaN c \<or> f64_isSNaN d then softfloat_raiseFlags softfloat_flag_invalid s else s) \<and>
   f64_eq_signaling c d s = (\<not> f64_isNaN c \<and> \<not> f64_isNaN d \<and> f64_val c = f64_val d,
      if f64_isNaN c \<or> f64_isNaN d then softfloat_raiseFlags softfloat_flag_invalid s else s) \<and>
   f64_le c d s = (\<not> f64_isNaN c \<and> \<not> f64_isNaN d \<and> f64_val c \<le> f64_val d,
      if f64_isNaN c \<or> f64_isNaN d then softfloat_raiseFlags softfloat_flag_invalid s else s) \<and>
   f64_le_quiet c d s = (\<not> f64_isNaN c \<and> \<not> f64_isNaN d \<and> f64_val c \<le> f64_val d,
      if f64_isSNaN c \<or> f64_isSNaN d then softfloat_raiseFlags softfloat_flag_invalid s else s) \<and>
   f64_lt c d s = (\<not> f64_isNaN c \<and> \<not> f64_isNaN d \<and> f64_val c < f64_val d,
      if f64_isNaN c \<or> f64_isNaN d then softfloat_raiseFlags softfloat_flag_invalid s else s) \<and>
   f64_lt_quiet c d s = (\<not> f64_isNaN c \<and> \<not> f64_isNaN d \<and> f64_val c < f64_val d,
      if f64_isSNaN c \<or> f64_isSNaN d then softfloat_raiseFlags softfloat_flag_invalid s else s)"
  by (intro conjI f32_eq_eq f32_eq_signaling_eq f32_le_eq f32_le_quiet_eq f32_lt_eq f32_lt_quiet_eq f64_eq_eq f64_eq_signaling_eq f64_le_eq f64_le_quiet_eq f64_lt_eq f64_lt_quiet_eq)

text \<open>
  C16: \<^verbatim>\<open>f32_classify\<close> and \<^verbatim>\<open>f64_classify\<close> return a mask with exactly the bit of the operand's class set.
\<close>

theorem classify_correct:
  "f32_classify a = push_bit (class_bit (f32_isSNaN a) (f32_isNaN a) (f32_isInf a) (f32_sign a) (f32_val a) (2 powi (- 126))) 1 \<and>
   f64_classify b = push_bit (class_bit (f64_isSNaN b) (f64_isNaN b) (f64_isInf b) (f64_sign b) (f64_val b) (2 powi (- 1022))) 1"
  by (intro conjI f32_classify_eq f64_classify_eq)

section \<open>Primitives\<close>

text \<open>
  C17: The field macros and the packing macros of \<^verbatim>\<open>internals.h\<close> are inverse to each other, in both formats and both directions.
\<close>

theorem field_round_trip:
  assumes "unat w < 2 ^ 32" "0 \<le> e" "e < 2 ^ 8" "unat g < 2 ^ 23" "0 \<le> e'" "e' < 2 ^ 11" "unat g' < 2 ^ 52"
  shows "packToF32UI (signF32UI w) (expF32UI w) (fracF32UI w) = w \<and>
    packToF64UI (signF64UI v) (expF64UI v) (fracF64UI v) = v \<and>
    signF32UI (packToF32UI sg e g) = sg \<and> expF32UI (packToF32UI sg e g) = e \<and> fracF32UI (packToF32UI sg e g) = g \<and>
    signF64UI (packToF64UI sg e' g') = sg \<and> expF64UI (packToF64UI sg e' g') = e' \<and> fracF64UI (packToF64UI sg e' g') = g'"
  using assms f32.pack_fields [of w] f64.pack_fields [of v] f32.fields_pack [of e g sg] f64.fields_pack [of e' g' sg]
  by (simp add: f32.pattern_def)

theorem field_round_trip_witness:
  "packToF32UI (signF32UI 0xC0490FDB) (expF32UI 0xC0490FDB) (fracF32UI 0xC0490FDB) = 0xC0490FDB \<and>
   expF32UI (packToF32UI True 200 5) = 200 \<and> expF64UI (packToF64UI True 2000 5) = 2000"
proof -
  have "unat (0xC0490FDB :: u64) < 2 ^ 32" "(0::int) \<le> 200" "(200::int) < 2 ^ 8" "unat (5 :: u64) < 2 ^ 23"
    "(0::int) \<le> 2000" "(2000::int) < 2 ^ 11" "unat (5 :: u64) < 2 ^ 52" by simp_all
  from field_round_trip [OF this] show ?thesis by blast
qed

text \<open>
  C18: The jamming right shifts keep in the lowest bit whether a one was shifted out, for every nonzero distance
  up to the width of the distance.
\<close>

theorem sticky_shifts:
  assumes "shift_by \<noteq> 0" "unat short < 64"
  shows "unat (softfloat_shiftRightJam32 a shift_by) = jam (unat shift_by) (unat a) \<and>
    unat (softfloat_shiftRightJam64 b shift_by) = jam (unat shift_by) (unat b) \<and>
    unat (softfloat_shortShiftRightJam64 b short) = jam (unat short) (unat b)"
  using assms by (simp add: unat_shiftRightJam32 unat_shiftRightJam64 unat_shortShiftRightJam64)

theorem sticky_shifts_witness: "unat (softfloat_shiftRightJam64 0x8000000000000000 1000) = 1"
  using sticky_shifts [of 1000 0 0 "0x8000000000000000"] by (simp add: jam_def)



section \<open>The ORAM controller\<close>



text \<open>
  C21: Why a sequence of accesses to a fresh controller stops: the stash overflows, an access is to a block number out of range, or it is to
  a block in range that has no leaf.  The last happens because \<^verbatim>\<open>init_oram\<close> gives a leaf to the blocks below \<open>tree_leaves\<close> only, while
  \<^verbatim>\<open>access\<close> admits every block below \<open>num_of_blocks\<close>: a block between the two, which exists only if the count is no power of two, fails the
  assertion on leaves whenever it is accessed.
\<close>

theorem oram_errors:
  fixes bsz cl mem_size :: u64 and ssz :: nat
  defines "st \<equiv> oram_init bsz ssz mem_size cl"
  assumes "0 < num_of_blocks st" "tree_height st + 1 < ssz"
  shows "(oram_accesses as st = Inl e \<longrightarrow> e = Assert_stash_overflow \<or>
      e = Assert_block_id \<and> (\<exists>(rand, addr) \<in> set as. num_of_blocks st \<le> get_block_id addr st) \<or>
      e = Assert_is_leaf \<and> (\<exists>(rand, addr) \<in> set as. tree_leaves st \<le> unat (get_block_id addr st) \<and> get_block_id addr st < num_of_blocks st)) \<and>
    (oram_accesses as st = Inr t \<longrightarrow> tree_leaves st \<le> unat (get_block_id addr st) \<longrightarrow> get_block_id addr st < num_of_blocks st \<longrightarrow>
      oram_access rand addr t = Inl Assert_is_leaf) \<and>
    (unat (num_of_blocks st) = 2 ^ k \<longrightarrow> tree_leaves st = unat (num_of_blocks st))"
proof (intro conjI impI)
  have i: "oram_inv st" "known_blocks st" using oram_init_inv oram_init_known assms by simp_all
  show "oram_accesses as st = Inl e \<Longrightarrow> e = Assert_stash_overflow \<or>
      e = Assert_block_id \<and> (\<exists>(rand, addr) \<in> set as. num_of_blocks st \<le> get_block_id addr st) \<or>
      e = Assert_is_leaf \<and> (\<exists>(rand, addr) \<in> set as. tree_leaves st \<le> unat (get_block_id addr st) \<and> get_block_id addr st < num_of_blocks st)"
    by (rule oram_accesses_stop [OF _ i])
  assume t: "oram_accesses as st = Inr t" and b: "tree_leaves st \<le> unat (get_block_id addr st)" "get_block_id addr st < num_of_blocks st"
  note r = oram_accesses_reached [OF t i]
  have "oram_wf t" using r(1) by (simp add: oram_inv_def)
  then show "oram_access rand addr t = Inl Assert_is_leaf" using stray_access [OF _ r(2)] b r(3-5) by (simp add: get_block_id_def)
next
  assume "unat (num_of_blocks st) = 2 ^ k"
  then show "tree_leaves st = unat (num_of_blocks st)"
    using log2_power unfolding st_def oram_init_def by (simp add: Let_def)
qed

theorem oram_errors_witness:
  "oram_access 0 0x80000080 (oram_init 0x4000 5 3 0x40) = Inl Assert_is_leaf"
proof -
  let ?st = "oram_init 0x4000 5 3 0x40"
  have n: "0 < num_of_blocks ?st" "tree_height ?st + 1 < 5" "tree_leaves ?st \<le> unat (get_block_id 0x80000080 ?st)"
    "get_block_id 0x80000080 ?st < num_of_blocks ?st" by code_simp+
  show ?thesis using oram_errors [OF n(1,2), of "[]" Assert_is_leaf ?st "0x80000080" 0] n(3,4) by simp
qed

text \<open>
  C22: The DRAM traffic of an access: none when the block is in the stash, otherwise exactly one read per level of the tree
  followed by one write per level, whatever the block.
\<close>

theorem oram_traffic:
  assumes "oram_access rand addr st = Inr t" "oram_wf st"
  shows "\<exists>rs ws. set (map (snd \<circ> snd) rs) \<subseteq> {LOAD} \<and> set (map (snd \<circ> snd) ws) \<subseteq> {STORE} \<and>
    dram_trace t = dram_trace st @ rs @ ws \<and>
    length rs = (if block_is_in_stash (get_block_id addr st) st then 0 else tree_height st + 1) \<and> length ws = length rs"
  by (rule oram_access_trace [OF assms])

theorem oram_traffic_witness:
  "\<exists>t. oram_access 3 0x80000000 (oram_init 0x4000 5 4 0x40) = Inr t \<and> length (dram_trace t) = 6"
proof -
  let ?st = "oram_init 0x4000 5 4 0x40"
  have "case oram_access 3 0x80000000 ?st of Inl e \<Rightarrow> False | Inr t \<Rightarrow> True" by code_simp
  then obtain t where t: "oram_access 3 0x80000000 ?st = Inr t" by (cases "oram_access 3 0x80000000 ?st") simp_all
  have w: "oram_wf ?st" by code_simp
  have v: "\<not> block_is_in_stash (get_block_id 0x80000000 ?st) ?st \<and> tree_height ?st = 2 \<and> dram_trace ?st = []" by code_simp
  from oram_traffic [OF t w] have "length (dram_trace t) = 6" using v by auto
  with t show ?thesis by blast
qed

text \<open>
  C23: No entry of the stash is ever freed: \<^verbatim>\<open>stash[sid] == (uint64_t) -1\<close> in the eviction loop compares instead of assigning.  Once a block is in the
  stash after a sequence of accesses, it is in the same entry after every further sequence, and every later access to it is a
  stash hit, which only counts.
\<close>

theorem oram_stash_never_freed:
  fixes bsz cl mem_size :: u64 and ssz :: nat
  defines "st \<equiv> oram_init bsz ssz mem_size cl"
  assumes "0 < num_of_blocks st" "tree_height st + 1 < ssz" "oram_accesses as st = Inr t" "oram_accesses bs t = Inr u"
    "i < stashsz t" "stash t ! i \<noteq> no_block"
  shows "stash u ! i = stash t ! i \<and>
    (get_block_id addr u = stash t ! i \<longrightarrow>
      oram_access rand addr u = Inr (u\<lparr>oram_requests := oram_requests u + 1, stash_hit := stash_hit u + 1\<rparr>))"
proof -
  have i: "oram_inv st" "known_blocks st" using oram_init_inv oram_init_known assms(1-3) by simp_all
  note t = oram_accesses_reached [OF assms(4) i] 
  note u = oram_accesses_reached [OF assms(5) t(1,2)]
  have h: "tree_height t < i" using t(1) assms(7) unfolding oram_inv_def by (meson not_less)
  have s: "stash u ! i = stash t ! i" "stashsz u = stashsz t" using accesses_keep_stash [OF assms(5) t(1,2) h assms(6,7)] by blast+
  have len: "stash u ! i \<in> set (stash u)" using u(1) s(2) assms(6) by (simp add: oram_inv_def oram_wf_def)
  have "oram_access rand addr u = Inr (u\<lparr>oram_requests := oram_requests u + 1, stash_hit := stash_hit u + 1\<rparr>)"
    if "get_block_id addr u = stash t ! i"
  proof -
    have "unat (stash u ! i) < tree_leaves u" using u(2) len assms(7) s(1) by (auto simp: known_blocks_def holds_only_def)
    moreover have "tree_leaves u \<le> unat (num_of_blocks u)" using oram_init_inv(2) assms(1-3) t(3,4) u(3,4) by simp
    ultimately have "get_block_id addr u < num_of_blocks u" using that s(1) by (simp add: word_less_nat_alt)
    then show ?thesis using that len s(1) by (simp add: oram_access_eq)
  qed
  then show ?thesis using s(1) by blast
qed

theorem oram_stash_never_freed_witness:
  "\<exists>u. oram_accesses [(3, 0x80000000), (3, 0x80000040), (0, 0x800000C0)] (oram_init 0x4000 5 4 0x40) = Inr u \<and> stash u ! 3 = 1 \<and> oram_tree u 3 = Some 1"
proof -
  let ?st = "oram_init 0x4000 5 4 0x40" and ?as = "[(3, 0x80000000), (3, 0x80000040)] :: (nat \<times> u64) list"
  have "case oram_accesses ?as ?st of Inl e \<Rightarrow> False | Inr t \<Rightarrow> stash t ! 3 = 1 \<and> stashsz t = 5 \<and>
      (case oram_accesses [(0, 0x800000C0)] t of Inl e \<Rightarrow> False | Inr u \<Rightarrow> oram_tree u 3 = Some 1)" by code_simp
  then obtain t u where t: "oram_accesses ?as ?st = Inr t" "stash t ! 3 = 1" "stashsz t = 5" and
    u: "oram_accesses [(0, 0x800000C0)] t = Inr u" "oram_tree u 3 = Some 1"
    by (auto split: sum.splits)
  have n: "0 < num_of_blocks ?st" "tree_height ?st + 1 < 5" by code_simp+
  have "stash u ! 3 = 1" using oram_stash_never_freed [OF n t(1) u(1), of 3] t(2,3) by simp
  moreover have "oram_accesses (?as @ [(0, 0x800000C0)]) ?st = Inr u" using t(1) u(1) by (auto split: sum.splits)
  ultimately show ?thesis using u(2) by auto
qed

section \<open>The cache model\<close>

text \<open>
  C24: One cache of either kind: on a hit the set of cached lines stays and only the dirty bit of the accessed line may be set;
  a miss that completes adds the line, dirty if and only if the access is a store, and removes only the victim.
\<close>

theorem cache_hit_and_miss:
  assumes "cache_ok c"
  shows "(cache_holds c (drop_bit (idx_shift c) addr) d \<longrightarrow>
      (\<exists>c'. access_level next addr bytes store c r = Inr (c', r) \<and> cache_ok c' \<and>
        (\<forall>l e. cache_holds c' l e \<longleftrightarrow> (if l = drop_bit (idx_shift c) addr then e = (d \<or> store) else cache_holds c l e)))) \<and>
    ((\<forall>d. \<not> cache_holds c (drop_bit (idx_shift c) addr) d) \<longrightarrow> access_level next addr bytes store c r = Inr (c', r') \<longrightarrow>
      cache_ok c' \<and> (\<forall>l e. cache_holds c' l e \<longleftrightarrow>
        (if l = drop_bit (idx_shift c) addr then e = store else cache_holds c l e \<and> fst (victimize addr c) \<noteq> tag_word l e)))"
  using access_level_hit [OF assms] access_level_miss [OF assms] by blast

theorem cache_hit_and_miss_witness:
  "\<exists>c c' r'. cache_init False 4 2 64 = Some c \<and> access_level None 0x1234 4 True c ([], (oram_init 0x4000 5 4 0x40, \<lambda>_. 0)) = Inr (c', r') \<and>
     cache_holds c' (drop_bit 6 0x1234) True"
proof -
  let ?m = "([], (oram_init 0x4000 5 4 0x40, \<lambda>_. 0 :: nat)) :: cache_sim list \<times> memory"
  obtain c where c: "cache_init False 4 2 64 = Some c" by (simp add: cache_init_def)
  have i: "cache_ok c" "\<not> cache_holds c l d" "idx_shift c = 6" "\<not> oram_handler c" for l d
  proof -
    show "cache_ok c" using cache_init_inv(1) [OF c] by (simp add: cache_ok_def)
    show "\<not> cache_holds c l d" using cache_init_inv(2,3) [OF c] by (simp add: cache_holds_def)
    have "log2 64 = 6" by code_simp
    then show "idx_shift c = 6" "\<not> oram_handler c" using c by (auto simp: cache_init_def)
  qed
  have "case cache_init False 4 2 64 of None \<Rightarrow> False
    | Some c \<Rightarrow> (case access_level None 0x1234 4 True c ?m of Inl e \<Rightarrow> False | Inr p \<Rightarrow> True)" by code_simp
  then obtain c' r' where a: "access_level None 0x1234 4 True c ?m = Inr (c', r')"
    by (cases "access_level None 0x1234 4 True c ?m") (auto simp: c)
  from cache_hit_and_miss [OF i(1), THEN conjunct2, rule_format, OF _ a] i have "cache_holds c' (drop_bit 6 0x1234) True" by auto
  with c a show ?thesis by blast
qed

text \<open>
  C25: A chain of caches with the ORAM controller behind it: an access that completes keeps the invariant of every cache and
  their number, and afterwards the first cache holds the line, dirty if the access was a store.
\<close>

theorem cache_chain_invariant:
  assumes "list_all cache_ok (c # rest)" "cache_access addr bytes store (c # rest, m) = Inr (cs', m')"
  shows "list_all cache_ok cs' \<and> length cs' = Suc (length rest) \<and>
    (\<exists>c' rest' d. cs' = c' # rest' \<and> cache_holds c' (drop_bit (idx_shift c) addr) d \<and> (store \<longrightarrow> d))"
  using chain_access_ok [OF assms(2) [unfolded cache_access_def] assms(1)] cache_access_present [OF assms(2,1)] by simp

theorem cache_chain_invariant_witness:
  "\<exists>c1 c2 cs' m'. cache_construct ''64:2:64'' = Some c1 \<and> cache_construct ''1:8:64'' = Some c2 \<and>
     cache_access 0x80001234 8 True ([c1, c2], (oram_init 0x4000 5 4 0x40, \<lambda>_. 3)) = Inr (cs', m') \<and> list_all cache_ok cs'"
proof -
  let ?m = "(oram_init 0x4000 5 4 0x40, \<lambda>_. 3) :: memory"
  have k: "cache_construct ''64:2:64'' = cache_init False 64 2 64" "cache_construct ''1:8:64'' = cache_init True 1 8 64" by code_simp+
  obtain c1 c2 where c: "cache_init False 64 2 64 = Some c1" "cache_init True 1 8 64 = Some c2" by (simp add: cache_init_def)
  have ok: "list_all cache_ok [c1, c2]"
    using cache_init_inv(1) [OF c(1)] cache_init_inv(1) [OF c(2)] by (simp add: cache_ok_def)
  have "case cache_init False 64 2 64 of None \<Rightarrow> False | Some c1 \<Rightarrow> (case cache_init True 1 8 64 of None \<Rightarrow> False
    | Some c2 \<Rightarrow> (case cache_access 0x80001234 8 True ([c1, c2], ?m) of Inl e \<Rightarrow> False | Inr p \<Rightarrow> True))" by code_simp
  then obtain cs' m' where a: "cache_access 0x80001234 8 True ([c1, c2], ?m) = Inr (cs', m')"
    by (cases "cache_access 0x80001234 8 True ([c1, c2], ?m)") (auto simp: c)
  from cache_chain_invariant [OF ok a] show ?thesis using k c a by auto
qed

section \<open>Instruction words\<close>

text \<open>
  C26: Encoding and decoding of the 32-bit formats: the accessors of \<^verbatim>\<open>insn_t\<close> recover the immediate of an I, S, SB, U or UJ
  instruction, sign-extended to 64 bits, and the register fields.
\<close>

theorem immediates_round_trip:
  "i_imm (scast (encode_i op f3 d r1 imm)) = scast imm \<and>
   s_imm (scast (encode_s op f3 r1 r2 imm)) = scast imm \<and>
   sb_imm (scast (encode_sb op f3 r1 r2 imm)) = 2 * scast imm \<and>
   u_imm (scast (encode_u op d upper)) = push_bit 12 (scast upper) \<and>
   uj_imm (scast (encode_uj op d upper)) = 2 * scast upper \<and>
   rd (scast (encode_r op f3 f7 d r1 r2)) = ucast d \<and> rs1 (scast (encode_r op f3 f7 d r1 r2)) = ucast r1 \<and>
   rs2 (scast (encode_r op f3 f7 d r1 r2)) = ucast r2 \<and> insn_rm (scast (encode_r op f3 f7 d r1 r2)) = ucast f3"
  by (simp only: decode_i decode_s decode_sb decode_u decode_uj decode_fields_r simp_thms)

text \<open>
  C27: The high multiplications built from 32-bit halves return the upper 64 bits of the exact product: unsigned, signed (with
  the floor of a negative quotient) and signed by unsigned.
\<close>

theorem high_multiplications:
  "unat (mulhu a b) = unat a * unat b div 2 ^ 64 \<and>
   mulh a b = word_of_int (sint a * sint b div 2 ^ 64) \<and>
   mulhsu a b = word_of_int (sint a * uint b div 2 ^ 64)"
  by (simp only: unat_mulhu mulh_word mulhsu_word simp_thms)

text \<open>
  C28: The opcode map with its cache and its move-to-front search decodes every sequence of instruction words.  A nonzero word gets the function
  of the entry of the registered table that matches and comes before any other matching entry in the order by match word and mask.
  The word 0 hits a fresh entry of the cache or finds the compressed \<^verbatim>\<open>c.addi4spn\<close>; either way the function raises an illegal
  instruction trap.
\<close>

theorem opcode_decoding:
  "\<exists>fs d'. decode_insns bs xl register_base_instructions = Some (fs, d') \<and>
    list_all2 (\<lambda>b f.
      (b \<noteq> 0 \<longrightarrow> (\<exists>e \<in> set (instructions register_base_instructions). f = insn_func xl e \<and> insn_matches b e \<and>
        (\<forall>e' \<in> set (instructions register_base_instructions). insn_matches b e' \<longrightarrow> e' = e \<or> desc_before e e'))) \<and>
      (b = 0 \<longrightarrow> (\<forall>h pc s. execute_insn h pc (f, 0) s = (Throw trap_illegal_instruction, s)))) bs fs"
proof -
  obtain fs d' where d: "decode_insns bs xl register_base_instructions = Some (fs, d')"
    "list_all2 (\<lambda>b f. \<exists>e. lookup_insn b (instructions register_base_instructions) = Some e \<and>
      (f = insn_func xl e \<or> b = 0 \<and> f = insn_func xl illegal_desc)) bs fs"
    using decode_insns_all [OF base_decoder_ok] by blast
  show ?thesis
    by (intro exI conjI, rule d(1), rule list_all2_mono [OF d(2)])
      (use base_lookup zero_word_illegal in blast)
qed

theorem opcode_decoding_witness:
  "\<exists>f g d'. decode_insns [0x00100073, 0] 64 register_base_instructions = Some ([f, g], d') \<and>
     execute_insn 0 0x80000000 (g, 0) bare_sim = (Throw trap_illegal_instruction, bare_sim)"
  using opcode_decoding [of "[0x00100073, 0]" 64] by (elim exE conjE) (auto simp: list_all2_Cons1)

section \<open>The hart\<close>

text \<open>
  C29: A hart reached from reset by privileged instructions, traps, interrupts, entries into debug mode and the devices that touch its
  registers satisfies \<open>hart_ok\<close>: the mode is U, S or M, the dirty summary bit of \<^verbatim>\<open>mstatus\<close> is right, the translation mode is one of
  the width, the delegation, enable and vector registers hold legal values, \<^verbatim>\<open>x0\<close> is zero.  No assertion can fail in such a state.
\<close>

theorem hart_invariant:
  assumes "hart_reachable p"
  shows "hart_ok p \<and> (\<forall>k. hart_insn k \<longrightarrow> k p \<noteq> Abort) \<and> take_trap t epc p \<noteq> None \<and> set_csr which v p \<noteq> None"
proof -
  have ok: "hart_ok p" by (rule hart_reachable_ok [OF assms])
  have "k p \<noteq> Abort" if "hart_insn k" for k using hart_insn_ok [OF that ok] by auto
  then show ?thesis using ok take_trap_ok [OF ok, of t epc] set_csr_ok [OF ok, of which v] by (auto simp: some_ok_def)
qed

theorem hart_invariant_witness:
  "hart_ok (reset mprv_hart) \<and> insn_mret (reset mprv_hart) \<noteq> Abort \<and> take_trap trap_illegal_instruction 0x80000000 (reset mprv_hart) \<noteq> None"
proof -
  have "max_xlen mprv_hart \<in> {32, 64}" by (simp add: mprv_hart_def)
  then have "hart_reachable (reset mprv_hart)" by (rule hart_reachable.start)
  from hart_invariant [OF this, where t = trap_illegal_instruction and epc = "0x80000000"] show ?thesis using hart_insn.mret by blast
qed

text \<open>
  C30: Taking a trap outside debug mode and returning from it: the trap enters the level it is delegated to, at its vector, with its
  interrupts disabled and the cause recorded; \<^verbatim>\<open>mret\<close> or \<^verbatim>\<open>sret\<close> then resumes at the interrupted address with the state of before,
  but for the trap registers, the reservation, the stack of previous modes, and the interrupt enable of the handling level, which
  is lost when the trap came from a lower level.
\<close>

theorem trap_round_trip:
  assumes "hart_ok p" "plain_trap t p" "epc AND 2 = 0 \<or> supports_extension CHR ''C'' p"
  shows "(\<not> delegated t p \<longrightarrow> (\<exists>q r m. take_trap t epc p = Some q \<and> st_pc (state q) = mtvec (state p) \<and> prv (state q) = 3 \<and>
      mcause (state q) = trap_cause t \<and> \<not> bit (mstatus (state q)) 3 \<and> insn_mret q = Done PC_SERIALIZE_AFTER r \<and>
      state r = (state p)\<lparr>st_pc := epc, mepc := epc, mcause := trap_cause t,
        mbadaddr := (case trap_badaddr t of Some a \<Rightarrow> a | None \<Rightarrow> mbadaddr (state p)), load_reservation := - 1, mstatus := m\<rparr> \<and>
      (\<forall>i. bit m i \<longleftrightarrow> i \<notin> {7, 11, 12} \<and> (i = 3 \<longrightarrow> prv (state p) = 3) \<and> bit (mstatus (state p)) i))) \<and>
    (delegated t p \<longrightarrow> (\<exists>q r m. take_trap t epc p = Some q \<and> st_pc (state q) = stvec (state p) \<and> prv (state q) = 1 \<and>
      scause (state q) = trap_cause t \<and> \<not> bit (mstatus (state q)) 1 \<and> insn_sret q = Done PC_SERIALIZE_AFTER r \<and>
      state r = (state p)\<lparr>st_pc := epc, sepc := epc, scause := trap_cause t,
        sbadaddr := (case trap_badaddr t of Some a \<Rightarrow> a | None \<Rightarrow> sbadaddr (state p)), load_reservation := - 1, mstatus := m\<rparr> \<and>
      (\<forall>i. bit m i \<longleftrightarrow> i \<notin> {5, 8} \<and> (i = 1 \<longrightarrow> prv (state p) = 1) \<and> bit (mstatus (state p)) i)))"
  using trap_mret [OF assms(1,2) _ assms(3)] trap_sret [OF assms(1,2) _ assms(3)] by blast

theorem trap_round_trip_witness:
  "\<exists>q r. take_trap trap_illegal_instruction 0x80000000 (reset mprv_hart) = Some q \<and> insn_mret q = Done PC_SERIALIZE_AFTER r \<and>
     st_pc (state r) = 0x80000000 \<and> prv (state r) = 3"
proof -
  have ok: "hart_ok (reset mprv_hart)" by (rule reset_ok) (simp add: mprv_hart_def)
  have t: "plain_trap trap_illegal_instruction (reset mprv_hart)" "\<not> delegated trap_illegal_instruction (reset mprv_hart)" by code_simp+
  have e: "(0x80000000 :: u64) AND 2 = 0 \<or> supports_extension CHR ''C'' (reset mprv_hart)" by simp
  have p: "prv (state (reset mprv_hart)) = 3" by code_simp
  from trap_round_trip [OF ok t(1) e] t(2) obtain q r m where
    "take_trap trap_illegal_instruction 0x80000000 (reset mprv_hart) = Some q" "insn_mret q = Done PC_SERIALIZE_AFTER r"
    "state r = (state (reset mprv_hart))\<lparr>st_pc := 0x80000000, mepc := 0x80000000, mcause := trap_cause trap_illegal_instruction,
        mbadaddr := (case trap_badaddr trap_illegal_instruction of Some a \<Rightarrow> a | None \<Rightarrow> mbadaddr (state (reset mprv_hart))),
        load_reservation := - 1, mstatus := m\<rparr>" by blast
  then show ?thesis using p by auto
qed

text \<open>
  C31: A CSR instruction executed below machine mode, whatever register it names, leaves the machine level alone: no machine or debug
  register changes, \<^verbatim>\<open>mstatus\<close> changes only in the supervisor's fields and the dirty bits, \<^verbatim>\<open>mie\<close> only in delegated interrupts and
  \<^verbatim>\<open>mip\<close> only in a delegated supervisor software interrupt.
\<close>

theorem supervisor_isolation:
  assumes "hart_ok p" "prv (state p) < PRV_M" "csr_insn debugint xl npc b write f p = Done npc' q"
  shows "machine_registers_kept (state p) (state q) \<and>
    differ_in {1, 5, 8, 13, 14, 15, 16, 18, max_xlen p - 1} (mstatus (state p)) (mstatus (state q)) \<and>
    differ_in {i. i = 1 \<and> bit (mideleg (state p)) i} (mip (state p)) (mip (state q)) \<and>
    differ_in {i. bit (mideleg (state p)) i} (mie (state p)) (mie (state q))"
  using csr_insn_isolated [OF assms] by (simp add: isolated_def)

theorem supervisor_isolation_witness:
  "machine_registers_kept ((state mprv_hart)\<lparr>prv := 1, serialized := True\<rparr>)
     (state (case insn_csrrwi False 64 4 0x1002D073 (update_state (\<lambda>s. s\<lparr>prv := 1, serialized := True\<rparr>) mprv_hart) of Done npc q \<Rightarrow> q | _ \<Rightarrow> mprv_hart))"
proof -
  define p where "p = update_state (\<lambda>s. s\<lparr>prv := 1, serialized := True\<rparr>) mprv_hart"
  have ok: "hart_ok (update_state (\<lambda>s. s\<lparr>prv := 1, serialized := True\<rparr>) mprv_hart)" by code_simp
  have below: "prv (state p) < PRV_M" by (simp add: p_def update_state_def)
  have "(case insn_csrrwi False 64 4 0x1002D073 (update_state (\<lambda>s. s\<lparr>prv := 1, serialized := True\<rparr>) mprv_hart) of Done npc q \<Rightarrow> True | _ \<Rightarrow> False)"
    by code_simp
  then obtain npc q where d: "insn_csrrwi False 64 4 0x1002D073 p = Done npc q" unfolding p_def [symmetric] by (auto split: outcome.splits)
  from supervisor_isolation [OF ok [folded p_def] below d [unfolded insn_csrrwi_def], THEN conjunct1]
  show ?thesis unfolding p_def [symmetric] d by (simp add: p_def update_state_def)
qed

text \<open>
  C32: \<^verbatim>\<open>take_interrupt\<close> raises an interrupt exactly when some interrupt is pending, enabled and deliverable at the present level under
  its delegation, and it raises the one with the lowest number.
\<close>

theorem interrupt_choice:
  "(take_interrupt p = None \<longleftrightarrow> (\<forall>n. \<not> interruptible (state p) n)) \<and>
   (\<forall>t. take_interrupt p = Some t \<longrightarrow>
      (\<exists>n. interruptible (state p) n \<and> (\<forall>m < n. \<not> interruptible (state p) m) \<and> t = interrupt_trap (of_nat n) p))"
  using take_interrupt_spec by blast

theorem interrupt_choice_witness:
  "\<exists>n. interruptible ((state mprv_hart)\<lparr>prv := 0, mip := 0xAA, mie := 0xAA\<rparr>) n"
proof -
  have "take_interrupt (update_state (\<lambda>s. s\<lparr>prv := 0, mip := 0xAA, mie := 0xAA\<rparr>) mprv_hart) \<noteq> None" by code_simp
  then show ?thesis
    using interrupt_choice [of "update_state (\<lambda>s. s\<lparr>prv := 0, mip := 0xAA, mie := 0xAA\<rparr>) mprv_hart", THEN conjunct1]
    by (auto simp: update_state_def)
qed

section \<open>Address translation\<close>

text \<open>
  C33: The page-table walk of \<^verbatim>\<open>mmu_t::walk\<close> against a specification on bits: \<open>mapped\<close> follows the tables, \<open>permits\<close> reads the permission bits
  and the status bits, \<open>sign_extended_from\<close> says which addresses are legal.  If a leaf is found and permits the access, the result has the bits of
  its frame and, below the size of a superpage, of the address, and memory changes in bit 6 (accessed) and, for a store, bit 7 (dirty) of
  the first byte of the entry and nowhere else.  Otherwise the result is -1 and nothing changes.
\<close>

theorem page_walk:
  fixes s :: sim_t and h levels bits sz :: nat
  defines "p \<equiv> get_proc h s"
  defines "m \<equiv> mstatus (state p)"
  defines "maps \<equiv> \<lambda>addr type mode a l pte. sign_extended_from (11 + levels * bits) (xlen p) addr \<and>
    mapped bits sz s addr levels (4096 * sptbr (state p)) a l pte \<and> permits (mode = 1) (bit m 18) (bit m 19) type pte"
  assumes "(take_bit 5 (drop_bit 24 m), levels, bits, sz) \<in> {(8, 2, 10, 4), (9, 3, 9, 8), (10, 4, 9, 8)}" "xlen p \<le> 64"
  shows "(\<forall>a l pte. maps addr type mode a l pte \<longrightarrow> (\<exists>page m'. walk h addr type mode s = (Ok page, s\<lparr>mem := m'\<rparr>) \<and>
        (\<forall>i. bit page i \<longleftrightarrow> 12 \<le> i \<and> i < 64 \<and> (bit pte (i - 2) \<or> i < 12 + l * bits \<and> bit addr i)) \<and>
        (\<forall>x i. bit (m' x) i \<longleftrightarrow> bit (mem s x) i \<or> x = a - 0x80000000 \<and> (i = 6 \<or> i = 7 \<and> type = STORE)))) \<and>
    ((\<nexists>a l pte. maps addr type mode a l pte) \<longrightarrow> walk h addr type mode s = (Ok (- 1), s))"
proof -
  define w where "w = \<lparr>ptidxbits = bits, ptesize = sz, supervisor = (mode = 1), pum = bit m 18, mxr = bit m 19\<rparr>"
  have w: "ptidxbits w = bits" "ptesize w = sz" "supervisor w = (mode = 1)" "pum w = bit m 18" "mxr w = bit m 19" by (simp_all add: w_def)
  have sz: "ptesize w \<in> {4, 8}" and lb: "levels * ptidxbits w < 64" using assms(4) by (auto simp: w)
  note walk = walk_eq [OF assms(4) [unfolded m_def p_def] assms(5) [unfolded p_def], of addr type mode, folded p_def, folded m_def, folded w_def]
  have leaf: "maps addr type mode a l pte \<longleftrightarrow> sign_extended_from (11 + levels * bits) (xlen p) addr \<and>
      leaf_of w s addr levels (4096 * sptbr (state p)) a l pte \<and> \<not> pte_refused w type pte" for a l pte
    using mapped_iff [OF sz, of s addr levels "4096 * sptbr (state p)" a l pte] permits_iff [of w type pte] unfolding maps_def w by blast
  show ?thesis
  proof (intro conjI allI impI)
    fix a l pte
    assume "maps addr type mode a l pte"
    then show "\<exists>page m'. walk h addr type mode s = (Ok page, s\<lparr>mem := m'\<rparr>) \<and>
        (\<forall>i. bit page i \<longleftrightarrow> 12 \<le> i \<and> i < 64 \<and> (bit pte (i - 2) \<or> i < 12 + l * bits \<and> bit addr i)) \<and>
        (\<forall>x i. bit (m' x) i \<longleftrightarrow> bit (mem s x) i \<or> x = a - 0x80000000 \<and> (i = 6 \<or> i = 7 \<and> type = STORE))"
      using walk_loop_found [OF _ _ lb, of s addr "4096 * sptbr (state p)" a l pte type] unfolding leaf walk w by auto
  next
    assume "\<nexists>a l pte. maps addr type mode a l pte"
    then show "walk h addr type mode s = (Ok (- 1), s)"
      unfolding leaf walk using walk_loop_nothing [of w s addr levels "4096 * sptbr (state p)" type] by auto
  qed
qed

theorem page_walk_witness:
  "\<exists>page m'. walk 0 0x80000000 LOAD 1 mprv_sim = (Ok page, mprv_sim\<lparr>mem := m'\<rparr>) \<and> bit page 13 \<and> bit (m' 0x1010) 6 \<and> \<not> bit (m' 0x1010) 7"
proof -
  let ?p = "get_proc 0 mprv_sim"
  have c: "(take_bit 5 (drop_bit 24 (mstatus (state ?p))), 3 :: nat, 9 :: nat, 8 :: nat) \<in> {(8, 2, 10, 4), (9, 3, 9, 8), (10, 4, 9, 8)}" "xlen ?p \<le> 64"
    by code_simp+
  have e: "canonical (xlen ?p) 39 0x80000000" "addr_is_mem 0x80001010 mprv_sim" "read_pte 8 (addr_to_mem 0x80001010) mprv_sim = 0x2000080F"
    "4096 * sptbr (state ?p) + take_bit 9 (drop_bit 30 0x80000000) * 8 = 0x80001010" "\<not> next_table 0x2000080F"
    "permits True (bit (mstatus (state ?p)) 18) (bit (mstatus (state ?p)) 19) LOAD 0x2000080F" "\<not> bit (mem mprv_sim 0x1010) 7" "bit (0x2000080F :: u64) 11"
    by code_simp+
  have "entry_at 8 mprv_sim 0x80001010 0x2000080F" using e(2,3) by (simp add: entry_at_iff)
  then have "mapped 9 8 mprv_sim 0x80000000 (Suc 2) (4096 * sptbr (state ?p)) 0x80001010 2 0x2000080F"
    using e(4,5) by (intro mapped.mapped_leaf) simp_all
  then have "mapped 9 8 mprv_sim 0x80000000 3 (4096 * sptbr (state ?p)) 0x80001010 2 0x2000080F" by simp
  moreover have "sign_extended_from (11 + 3 * 9) (xlen ?p) 0x80000000" using canonical_iff [OF c(2), of 39] e(1) by simp
  ultimately have maps: "sign_extended_from (11 + 3 * 9) (xlen ?p) 0x80000000 \<and> mapped 9 8 mprv_sim 0x80000000 3 (4096 * sptbr (state ?p)) 0x80001010 2 0x2000080F \<and>
      permits (1 = (1 :: u64)) (bit (mstatus (state ?p)) 18) (bit (mstatus (state ?p)) 19) LOAD 0x2000080F" using e(6) by simp
  from page_walk [OF c, where addr = "0x80000000" and type = LOAD and mode = 1, THEN conjunct1, rule_format, OF maps]
  obtain page m' where w: "walk 0 0x80000000 LOAD 1 mprv_sim = (Ok page, mprv_sim\<lparr>mem := m'\<rparr>)"
    and page: "\<forall>i. bit page i \<longleftrightarrow> 12 \<le> i \<and> i < 64 \<and> (bit (0x2000080F :: u64) (i - 2) \<or> i < 12 + 2 * 9 \<and> bit (0x80000000 :: u64) i)"
    and m': "\<forall>x i. bit (m' x) i \<longleftrightarrow> bit (mem mprv_sim x) i \<or> x = 0x80001010 - 0x80000000 \<and> (i = 6 \<or> i = 7 \<and> LOAD = STORE)"
    by (elim exE conjE) (rule that)
  have "bit page 13" "bit (m' 0x1010) 6" "\<not> bit (m' 0x1010) 7" unfolding page [rule_format] m' [rule_format] using e(7,8) by simp_all
  then show ?thesis using w by blast
qed

text \<open>
  C34: The invariant of the TLB: every entry that can hit gives the host address of the page the walk finds.  Loads and instruction
  fetches keep it, and a load from main memory that returns reads the bytes at the translated address, before or after the
  walk has marked the entry accessed, whether it hits or misses.  Fetches and data accesses must run in the same mode (next property).
\<close>

theorem tlb_coherence:
  assumes "tlb_ok h s" "load_func sg len h v s = (Ok x, s')" "fst (translate h v LOAD s) = Ok p" "addr_is_mem p s"
  shows "tlb_ok h s' \<and> tlb_ok h (snd (access_icache h v' s)) \<and>
    x \<in> {extend_bytes sg len (read_mem (addr_to_mem p) len s), extend_bytes sg len (read_mem (addr_to_mem p) len (snd (translate h v LOAD s)))}"
  using keeps_load_func [of h sg len v] keeps_access_icache [of h v'] load_physical [OF assms] assms(1,2)
  unfolding keeps_inv_def by (metis insert_iff snd_conv)

theorem tlb_coherence_witness:
  "\<exists>s'. load_func False 1 0 0x80001010 bare_sim = (Ok 0x0F, s') \<and> tlb_ok 0 s'"
proof -
  have c: "fst (load_func False 1 0 0x80001010 bare_sim) = Ok 0x0F" "fst (translate 0 0x80001010 LOAD bare_sim) = Ok 0x80001010"
    "addr_is_mem 0x80001010 bare_sim" by code_simp+
  obtain s' where l: "load_func False 1 0 0x80001010 bare_sim = (Ok 0x0F, s')" using c(1) by (cases "load_func False 1 0 0x80001010 bare_sim") auto
  from tlb_coherence [OF bare_tlb_ok l c(2,3), THEN conjunct1] l show ?thesis by blast
qed

text \<open>
  C35: The TLB keeps one host pointer per entry for fetches, loads and stores.  In machine mode fetches are not translated; a load is, when
  \<^verbatim>\<open>MSTATUS_MPRV\<close> is set.  Whenever such a load, translated from \<open>a\<close> to \<open>pa\<close>, misses the load TLB on a page the hart has fetched from, the
  next fetch from that page still hits, but with the pointer the load left: it reads at the distance \<open>pa - a\<close> from where it should.
\<close>

theorem mprv_tlb_alias:
  fixes h :: nat and s :: sim_t
  defines "p \<equiv> get_proc h s"
  assumes "h < length (procs s)" "prv (state p) = 3" "xlen p = 64" "tlb_insn_tag (mmu p) (tlb_index v) = drop_bit 12 v"
    "drop_bit 12 a = drop_bit 12 v" "\<not> tlb_hit LOAD (mmu p) a" "tracer (mmu p) = []"
    "translate h a LOAD s = (Ok pa, s1)" "addr_is_mem pa s1" "pa \<noteq> a" "load_func sg len h a s = (Ok x, s2)"
  shows "translate h v FETCH s2 = (Ok v, s2) \<and>
    (\<exists>ptr. translate_insn_addr h v s2 = (Ok (In_mem ptr), s2) \<and> ptr = addr_to_mem (v + (pa - a)) \<and> ptr \<noteq> addr_to_mem v)"
proof -
  have "fetches_at h v (tlb_data (mmu p) (tlb_index v) + v) s" using assms(2-5) by (simp add: fetches_at_def p_def)
  from load_leaves_pointer [OF this assms(6) assms(7,8) [unfolded p_def] assms(9,10,12)] fetches_at_hit
  show ?thesis using assms(11) by (auto simp: addr_to_mem_def)
qed

theorem mprv_tlb_alias_witness:
  "\<exists>s2. load_func False 8 0 0x80000008 fetched_sim = (Ok 0, s2) \<and> translate_insn_addr 0 0x80000000 s2 = (Ok (In_mem 0x2000), s2)"
proof -
  let ?a = "0x80000008 :: u64" and ?p = "get_proc 0 fetched_sim"
  have p: "mmu ?p = refill_tlb 0x80000000 0x80000000 FETCH (mmu mprv_hart)" "state ?p = state mprv_hart" "xlen ?p = 64" "0 < length (procs fetched_sim)"
    by (simp_all add: fetched_sim_def with_mmu_def update_proc_def get_proc_def mprv_sim_def mprv_hart_def)
  have "tlb_index ?a = 0" "tlb_index 0x80000000 = 0" "drop_bit 12 ?a = drop_bit 12 0x80000000" by code_simp+
  note i = this
  have c: "prv (state ?p) = 3" "tlb_insn_tag (mmu ?p) (tlb_index 0x80000000) = drop_bit 12 0x80000000" "\<not> tlb_hit LOAD (mmu ?p) ?a" "tracer (mmu ?p) = []"
    using tag_invalid [of ?a] unfolding p i(1,2) tlb_hit_def
    by (simp_all add: mprv_hart_def state_reset_def refill_tlb_def drop_other_def tlb_tag_def Let_def)
  have t: "fst (translate 0 ?a LOAD fetched_sim) = Ok 0x80002008" by code_simp
  have m: "addr_is_mem 0x80002008 (snd (translate 0 ?a LOAD fetched_sim))" "0x80002008 \<noteq> ?a"
    using translate_view [of 0 fetched_sim ?a LOAD] by (simp_all add: same_view_def addr_is_mem_def fetched_sim_def) (simp_all add: mprv_sim_def)
  have l: "fst (load_func False 8 0 ?a fetched_sim) = Ok 0" by code_simp
  have "translate 0 ?a LOAD fetched_sim = (Ok 0x80002008, snd (translate 0 ?a LOAD fetched_sim))"
    "load_func False 8 0 ?a fetched_sim = (Ok 0, snd (load_func False 8 0 ?a fetched_sim))" using t l by (simp_all add: prod_eq_iff)
  note r = this
  from mprv_tlb_alias [OF p(4) c(1) p(3) c(2) i(3) c(3,4) r(1) m r(2)] r(2) show ?thesis by (auto simp: addr_to_mem_def)
qed

section \<open>Hardware triggers\<close>

text \<open>
  C36: A chained trigger should let the next one fire only when it matches itself, but \<^verbatim>\<open>chain_ok\<close> is never set to false: matching gives
  the same result with all chained triggers disarmed, as long as no comparison by mask shifts out of range.
\<close>

theorem chained_triggers:
  assumes "list_all napot_in_range l"
  shows "trigger_loop operation address data prv' xl i True (map disarm l) = trigger_loop operation address data prv' xl i True l"
  using assms by (rule trigger_loop_disarm)

theorem chained_triggers_witness:
  "trigger_loop OPERATION_LOAD 0x1000 0 3 64 0 True
     [(mcontrol_reset\<lparr>mc_load := True, mc_m := True, mc_chain := True\<rparr>, 0x2000), (mcontrol_reset\<lparr>mc_load := True, mc_m := True\<rparr>, 0x1000)] = Some (Some 1)"
proof -
  have l: "list_all napot_in_range [(mcontrol_reset\<lparr>mc_load := True, mc_m := True, mc_chain := True\<rparr>, 0x2000),
      (mcontrol_reset\<lparr>mc_load := True, mc_m := True\<rparr>, 0x1000)]" by code_simp
  show ?thesis by (rule trans [OF chained_triggers [OF l, symmetric]]) code_simp
qed

section \<open>Instructions\<close>

text \<open>
  C37: Every instruction body of \<^verbatim>\<open>riscv/insns/\<close>, in the width of its hart and however it ends, keeps the machine well-formed: each
  hart satisfies its invariant and each integer register holds a value sign-extended from the width of the hart (which RV32 code relies on),
  and the pending flags of SoftFloat are flags of \<^verbatim>\<open>fflags\<close>.  The instruction word is sign-extended from 32 bits, as the fetch delivers it.
\<close>

theorem instructions_keep_types:
  assumes "sext32 b = b" "machine_inv h xl s"
  shows "machine_inv h xl (snd (insn_function name h xl pc b s))"
  using insn_function_keeps [OF assms(1)] assms(2) by (simp add: keeps_inv_def)

theorem instructions_keep_types_witness:
  "machine_inv 0 64 (snd (insn_function ''add'' 0 64 0x80000000 0x00208033 mprv_sim))"
proof -
  have "sext32 0x00208033 = 0x00208033" by code_simp
  moreover have "machine_inv 0 64 mprv_sim" by code_simp
  ultimately show ?thesis by (rule instructions_keep_types)
qed

section \<open>The execution loop\<close>

text \<open>
  C38: Running the machine keeps it well-formed.  \<open>sim_ok\<close> says that every hart and register satisfies its invariant, that every
  decoder agrees with the opcode table and that an entry of an instruction cache is the illegal instruction or a function compiled for the width of
  its hart with a word sign-extended from 32 bits, which is what the bodies of the instructions rely on; \<^verbatim>\<open>sim_t::step\<close> keeps it, and its own variables in range, if the host does.
\<close>

theorem simulator_invariant:
  assumes "sim_step host fuel n s = Some (Stepped s')" "sim_ok s" "sched_ok s"
    "\<And>s. sched (host s) = sched s" "\<And>s. sim_ok s \<Longrightarrow> sim_ok (host s)"
  shows "sim_ok s' \<and> sched_ok s'"
  using sim_step_ok [OF assms] sim_step_position [OF assms(1,3,4)] by blast

theorem simulator_invariant_witness:
  "\<exists>s'. sim_step id 3 1 (nop_sim register_base_instructions) = Some (Stepped s') \<and> st_pc (state (get_proc 0 s')) = 0x80000004 \<and> sim_ok s'"
proof -
  obtain s' where s': "sim_step id 3 1 (nop_sim register_base_instructions) = Some (Stepped s')" "st_pc (state (get_proc 0 s')) = 0x80000004"
    using nop_step [of register_base_instructions] by (auto split: option.splits step_end.splits)
  have "sim_ok s' \<and> sched_ok s'" by (rule simulator_invariant [OF s'(1) nop_sim_ok nop_sched]) simp_all
  then show ?thesis using s' by blast
qed

text \<open>
  C39: \<^verbatim>\<open>processor_t::step\<close> returns.  Its inner loops always end; the outer one ends within \<open>2 * n + 1\<close> turns if every turn that is reached
  starts at an address (an even program counter) and catches no trigger, because a turn retires an instruction, takes a trap, which ends the step, or sets
  \<^verbatim>\<open>serialized\<close>, after which the same instruction completes.
\<close>

theorem step_returns:
  assumes "h < length (procs s)"
    "\<And>n1 s1 n' s'. step_entry h n s = Some (n1, s1) \<Longrightarrow> turns h (n1, s1) (n', s') \<Longrightarrow> 0 < n' \<Longrightarrow> plain_turn h n' s'"
  shows "\<exists>r. step (2 * n + 1) h n s = Some r"
proof (cases "step_entry h n s")
  case (Some x)
  obtain n1 s1 where x: "x = (n1, s1)" by (cases x)
  have e: "n1 \<le> n" "length (procs s1) = length (procs s)"
    using step_entry_bound [of h n s n1 s1] Some x by simp_all
  have "\<exists>r. step_loop (2 * n + 1) h n1 s1 = Some r"
    using assms Some x e by (intro step_loop_returns) (auto simp: work_left_def of_bool_def)
  then show ?thesis using Some x by (simp add: step_def)
qed (simp add: step_def)

theorem step_returns_witness:
  "\<exists>r. step (2 * 1 + 1) 0 1 (nop_sim register_base_instructions) = Some r"
proof (rule step_returns)
  show "0 < length (procs (nop_sim register_base_instructions))" by (simp add: nop_sim_def)
  fix n1 s1 n' s'
  assume e: "step_entry 0 1 (nop_sim register_base_instructions) = Some (n1, s1)" and t: "turns 0 (n1, s1) (n', s')" "0 < n'"
  have n1: "n1 = 1" "s1 = nop_sim register_base_instructions" using e nop_entry by simp_all
  obtain s2 where s2: "turn 0 1 (nop_sim register_base_instructions) = Turn 0 s2"
    using nop_turn [of register_base_instructions] by (auto split: turn_end.splits)
  show "plain_turn 0 n' s'" using t n1 s2 nop_plain by (auto simp: turns_from [of 0 "Suc 0"] turns_from [of 0 0])
qed

text \<open>
  C40: \<^verbatim>\<open>sim_t::step\<close> completes and serves the harts in turn.  If every slice that is reached is quiet (its turns start at an address, catch no
  trigger and do not abort), \<open>n\<close> instructions complete and move the place in the round, 5000 instructions for each hart, on by \<open>n\<close>.
  So no hart is starved: hart \<open>k\<close> is the current one after 5000 instructions for each hart that comes before it.
\<close>

theorem round_robin:
  assumes "sched_ok s" "\<And>s. sched (host s) = sched s" "\<And>k t. slices host n s k t \<Longrightarrow> quiet_step (current_proc t) k t"
  shows "\<exists>s'. sim_step host 10001 n s = Some (Stepped s') \<and> position s' = (position s + n) mod (5000 * length (procs s)) \<and>
    (\<forall>k < length (procs s). n = 5000 * ((k + length (procs s) - current_proc s) mod length (procs s)) \<longrightarrow> current_proc s' = k)"
proof -
  obtain s' where s': "sim_step host 10001 n s = Some (Stepped s')" using sim_step_returns [OF assms order_refl] by blast
  note p = sim_step_position [OF s' assms(1,2)]
  then show ?thesis using s' position_hart [of s s' n] assms(1) by blast
qed

theorem round_robin_witness:
  "\<exists>s'. sim_step id 10001 1 (nop_sim register_base_instructions) = Some (Stepped s') \<and> position s' = 1"
proof -
  let ?s = "nop_sim register_base_instructions"
  have "\<exists>s'. sim_step id 10001 1 ?s = Some (Stepped s') \<and> position s' = (position ?s + 1) mod (5000 * length (procs ?s)) \<and>
    (\<forall>k < length (procs ?s). 1 = 5000 * ((k + length (procs ?s) - current_proc ?s) mod length (procs ?s)) \<longrightarrow> current_proc s' = k)"
  proof (rule round_robin [OF nop_sched])
    show "quiet_step (current_proc t) k t" if "slices id 1 ?s k t" for k t
      using nop_slices [OF that] nop_quiet by (simp add: nop_sim_def mprv_sim_def)
  qed simp
  moreover have "(position ?s + 1) mod (5000 * length (procs ?s)) = 1" by (simp add: position_def nop_sim_def mprv_sim_def)
  ultimately show ?thesis by auto
qed

end
